(* ===== verification/Prelude.thy ===== *)
theory Prelude
  imports Main "HOL-Library.Word"
begin

text \<open>
  The vocabulary every other theory of the development shares: the error model
  of the broker core (\<^verbatim>\<open>src/src/common/error.hpp\<close>), results of fallible
  operations and their sequencing, byte strings, and generic lemmas on lists
  and options.

  The core never throws: a fallible function returns
  \<^verbatim>\<open>std::expected<T, Error>\<close>.  It becomes the sum type \<open>'a expected\<close> whose
  left summand is the error code.  The human readable message that an
  \<^verbatim>\<open>Error\<close> carries beside its code is never read by a branch of the code and
  is left out.
\<close>

named_theorems wire_defs \<open>definitions of the byte level encoders and decoders\<close>
named_theorems roundtrip \<open>a decoder undoes its encoder on any remaining input\<close>
named_theorems store_simps \<open>how the operations of a stateful component act on its fields\<close>

unbundle bit_operations_syntax


section \<open>Errors and results\<close>

datatype ErrorCode =
    Corrupt | IoError | OutOfSpace | InvalidArgument | NotFound | OutOfRange
  | Unsupported | Shutdown | Fenced

type_synonym 'a expected = "ErrorCode + 'a"

text \<open>
  The early return that follows almost every call in the source,
  \<^verbatim>\<open>if (!x) return std::unexpected(x.error());\<close>
\<close>

definition bindE :: "'e + 'a \<Rightarrow> ('a \<Rightarrow> 'e + 'b) \<Rightarrow> 'e + 'b" where
  "bindE m f = (case m of Inl e \<Rightarrow> Inl e | Inr x \<Rightarrow> f x)"

definition guardE :: "bool \<Rightarrow> 'e \<Rightarrow> 'e + 'b \<Rightarrow> 'e + 'b" where
  "guardE bad e k = (if bad then Inl e else k)"

definition is_ok :: "'e + 'a \<Rightarrow> bool" where
  "is_ok m = (case m of Inl _ \<Rightarrow> False | Inr _ \<Rightarrow> True)"

lemma bindE_simps [simp]:
  "bindE (Inl e) f = Inl e"
  "bindE (Inr x) f = f x"
  by (simp_all add: bindE_def)

lemma is_ok_simps [simp]:
  "is_ok (Inr x)"
  "\<not> is_ok (Inl e)"
  by (simp_all add: is_ok_def)

lemma is_ok_iff: "is_ok m \<longleftrightarrow> (\<exists>x. m = Inr x)"
  by (cases m) simp_all

lemma bindE_eq_Inr_iff: "bindE m f = Inr y \<longleftrightarrow> (\<exists>x. m = Inr x \<and> f x = Inr y)"
  by (cases m) simp_all

lemma bindE_eq_Inl_iff:
  "bindE m f = Inl e \<longleftrightarrow> m = Inl e \<or> (\<exists>x. m = Inr x \<and> f x = Inl e)"
  by (cases m) auto

lemma bindE_assoc: "bindE (bindE m f) g = bindE m (\<lambda>x. bindE (f x) g)"
  by (cases m) simp_all

lemma guardE_simps [simp]:
  "guardE True e k = Inl e"
  "guardE False e k = k"
  by (simp_all add: guardE_def)

lemma guardE_eq_Inr_iff: "guardE b e k = Inr y \<longleftrightarrow> \<not> b \<and> k = Inr y"
  by (simp add: guardE_def)

lemma guardE_eq_Inl_iff: "guardE b e k = Inl x \<longleftrightarrow> b \<and> x = e \<or> \<not> b \<and> k = Inl x"
  by (auto simp: guardE_def)

lemmas result_iffs =
  bindE_eq_Inr_iff bindE_eq_Inl_iff guardE_eq_Inr_iff guardE_eq_Inl_iff


section \<open>Bytes\<close>

type_synonym byte = "8 word"
type_synonym bytes = "byte list"

text \<open>
  A sequential reader over a view of bytes: the view that is left after a read
  is returned beside the value.  \<^verbatim>\<open>ByteSpan& cursor\<close> parameters and the
  \<^verbatim>\<open>Decoder\<close> class are both of this shape.
\<close>

type_synonym 'a parser = "bytes \<Rightarrow> ('a \<times> bytes) expected"

definition take_bytes :: "ErrorCode \<Rightarrow> nat \<Rightarrow> bytes parser" where
  "take_bytes e n bs = (if n > length bs then Inl e else Inr (take n bs, drop n bs))"

lemma take_bytes_append [simp]:
  "n = length xs \<Longrightarrow> take_bytes e n (xs @ r) = Inr (xs, r)"
  by (simp add: take_bytes_def)

lemma take_bytes_Inr_iff:
  "take_bytes e n bs = Inr (xs, r) \<longleftrightarrow> bs = xs @ r \<and> length xs = n"
  by (auto simp: take_bytes_def append_eq_conv_conj)

text \<open>
  Reading a counted sequence: \<^verbatim>\<open>for (i = 0; i < count; ++i)\<close> around one
  element decoder, stopping at the first error.
\<close>

fun parse_n :: "'a parser \<Rightarrow> nat \<Rightarrow> 'a list parser" where
  "parse_n p 0 bs = Inr ([], bs)"
| "parse_n p (Suc n) bs =
     bindE (p bs) (\<lambda>(x, bs'). bindE (parse_n p n bs') (\<lambda>(xs, r). Inr (x # xs, r)))"

lemma parse_n_length: "parse_n p n bs = Inr (xs, r) \<Longrightarrow> length xs = n"
  by (induction n arbitrary: bs xs r) (auto simp: bindE_eq_Inr_iff)


section \<open>Codecs as an interface\<close>

text \<open>
  Most of the byte formats of the system share one contract: the decoder,
  started at an encoded value, returns exactly this value and leaves exactly
  the bytes that follow.  The locale states it once; the client facts below
  (encodings are uniquely readable, sequences of encodings read back) hold for
  every format that interprets it.
\<close>

locale wire_format =
  fixes enc :: "'a \<Rightarrow> bytes"
    and dec :: "'a parser"
    and valid :: "'a \<Rightarrow> bool"
  assumes dec_enc: "valid x \<Longrightarrow> dec (enc x @ r) = Inr (x, r)"
begin

lemma dec_enc_exact: "valid x \<Longrightarrow> dec (enc x) = Inr (x, [])"
  using dec_enc [of x "[]"] by simp

lemma unique_readability:
  assumes "valid x" "valid y" "enc x @ r = enc y @ s"
  shows "x = y \<and> r = s"
proof -
  have "Inr (x, r) = dec (enc x @ r)"
    by (rule dec_enc [OF assms(1), symmetric])
  also have "\<dots> = dec (enc y @ s)"
    by (rule arg_cong [OF assms(3)])
  also have "\<dots> = Inr (y, s)"
    by (rule dec_enc [OF assms(2)])
  finally show ?thesis by simp
qed

lemma enc_inject:
  assumes "valid x" "valid y"
  shows "enc x = enc y \<longleftrightarrow> x = y"
proof
  assume "enc x = enc y"
  then have "enc x @ [] = enc y @ []" by simp
  from unique_readability [OF assms this] show "x = y" ..
qed simp

lemma parse_n_concat:
  "\<forall>x \<in> set xs. valid x \<Longrightarrow>
   parse_n dec (length xs) (concat (map enc xs) @ r) = Inr (xs, r)"
  by (induction xs) (simp_all add: dec_enc)

end


section \<open>Lists\<close>

lemma take_append_length [simp]: "length xs = n \<Longrightarrow> take n (xs @ ys) = xs"
  by simp

lemma drop_append_length [simp]: "length xs = n \<Longrightarrow> drop n (xs @ ys) = ys"
  by simp

lemma nth_append_less: "i < length xs \<Longrightarrow> (xs @ ys) ! i = xs ! i"
  by (simp add: nth_append)

lemma length_concat_map_ge:
  "\<forall>x \<in> set xs. 1 \<le> length (f x) \<Longrightarrow> length xs \<le> length (concat (map f xs))"
proof (induction xs)
  case (Cons x xs)
  then have "1 \<le> length (f x)" and "length xs \<le> length (concat (map f xs))" by simp_all
  then show ?case by simp
qed simp

lemma sorted_wrt_snoc:
  "sorted_wrt P (xs @ [x]) \<longleftrightarrow> sorted_wrt P xs \<and> (\<forall>y \<in> set xs. P y x)"
  by (auto simp: sorted_wrt_append)

end
