(* ===== verification/Byte_Codec.thy ===== *)
theory Byte_Codec
  imports Prelude
begin

text \<open>
  Little-endian integers (\<^verbatim>\<open>store_le\<close>, \<^verbatim>\<open>load_le\<close> of
  \<^verbatim>\<open>src/src/common/types.hpp\<close>), LEB128 varints and the zigzag map
  (\<^verbatim>\<open>src/src/common/varint.hpp\<close> and \<^verbatim>\<open>varint.cpp\<close>), and the FNV-1a hash
  (\<^verbatim>\<open>src/src/common/fnv1a.hpp\<close>).

  Unsigned integers are machine words of their width.  The signed integers of
  the source are \<open>int\<close>s; where they are laid out as bytes they are first
  converted to the two's complement word of their width, and read back with
  \<^const>\<open>sint\<close>.
\<close>


section \<open>Little-endian layout\<close>

definition store_le :: "'a::len word \<Rightarrow> bytes" where
  "store_le value = map (\<lambda>i. ucast (drop_bit (8 * i) value AND 0xFF)) [0..<LENGTH('a) div 8]"

definition load_le :: "bytes \<Rightarrow> 'a::len word" where
  "load_le inp =
     fold (\<lambda>i bits. bits OR push_bit (8 * i) (ucast (inp ! i))) [0..<LENGTH('a) div 8] 0"

definition store_le_i16 :: "int \<Rightarrow> bytes" where
  "store_le_i16 v = store_le (word_of_int v :: 16 word)"

definition store_le_i32 :: "int \<Rightarrow> bytes" where
  "store_le_i32 v = store_le (word_of_int v :: 32 word)"

definition store_le_i64 :: "int \<Rightarrow> bytes" where
  "store_le_i64 v = store_le (word_of_int v :: 64 word)"

definition load_le_i16 :: "bytes \<Rightarrow> int" where
  "load_le_i16 inp = sint (load_le inp :: 16 word)"

definition load_le_i32 :: "bytes \<Rightarrow> int" where
  "load_le_i32 inp = sint (load_le inp :: 32 word)"

definition load_le_i64 :: "bytes \<Rightarrow> int" where
  "load_le_i64 inp = sint (load_le inp :: 64 word)"

abbreviation fits_i16 :: "int \<Rightarrow> bool" where
  "fits_i16 v \<equiv> - (2 ^ 15) \<le> v \<and> v < 2 ^ 15"

abbreviation fits_i32 :: "int \<Rightarrow> bool" where
  "fits_i32 v \<equiv> - (2 ^ 31) \<le> v \<and> v < 2 ^ 31"

abbreviation fits_i64 :: "int \<Rightarrow> bool" where
  "fits_i64 v \<equiv> - (2 ^ 63) \<le> v \<and> v < 2 ^ 63"

lemma length_store_le [simp]: "length (store_le (v :: 'a::len word)) = LENGTH('a) div 8"
  by (simp add: store_le_def)

lemma length_store_le_int [simp]:
  "length (store_le_i16 v) = 2" "length (store_le_i32 v) = 4" "length (store_le_i64 v) = 8"
  by (simp_all add: store_le_i16_def store_le_i32_def store_le_i64_def)

lemma bit_fold_or_push:
  "bit (fold (\<lambda>i bits. bits OR push_bit (8 * i) (ucast (f i :: byte))) is acc :: 'a::len word) n
     \<longleftrightarrow> bit acc n \<or> n < LENGTH('a) \<and> (\<exists>i \<in> set is. 8 * i \<le> n \<and> bit (f i) (n - 8 * i))"
  by (induction "is" arbitrary: acc) (auto simp: bit_simps)

lemma byte_index_exists:
  "n < 8 * k \<Longrightarrow> (\<exists>i < k. 8 * i \<le> n \<and> n - 8 * i < 8 \<and> P (n - 8 * i) i)
     \<longleftrightarrow> P (n mod 8) (n div 8)" for n k :: nat
proof
  assume n: "n < 8 * k" and "\<exists>i < k. 8 * i \<le> n \<and> n - 8 * i < 8 \<and> P (n - 8 * i) i"
  then obtain i where i: "8 * i \<le> n" "n - 8 * i < 8" "P (n - 8 * i) i" by blast
  then have "n div 8 = i" by (intro div_nat_eqI) simp_all
  with i show "P (n mod 8) (n div 8)" by (auto simp: minus_mult_div_eq_mod)
next
  assume "n < 8 * k" "P (n mod 8) (n div 8)"
  then show "\<exists>i < k. 8 * i \<le> n \<and> n - 8 * i < 8 \<and> P (n - 8 * i) i"
    by (intro exI [of _ "n div 8"]) (auto simp: minus_mult_div_eq_mod)
qed

lemma load_le_cong: "take (LENGTH('a) div 8) xs = take (LENGTH('a) div 8) ys \<Longrightarrow>
  length xs \<ge> LENGTH('a) div 8 \<Longrightarrow> length ys \<ge> LENGTH('a) div 8 \<Longrightarrow>
  (load_le xs :: 'a::len word) = load_le ys"
  unfolding load_le_def
  by (rule fold_cong) (auto, metis nth_take)

lemma load_store_le:
  assumes "8 dvd LENGTH('a)"
  shows "load_le (store_le (v :: 'a::len word) @ r) = v"
proof (rule bit_word_eqI)
  fix n assume n: "n < LENGTH('a)"
  let ?k = "LENGTH('a) div 8"
  have k: "8 * ?k = LENGTH('a)" using assms by simp
  have nth: "(store_le v @ r) ! i = ucast (drop_bit (8 * i) v AND 0xFF)" if "i < ?k" for i
    using that by (simp add: store_le_def nth_append)
  have mask: "(0xFF :: 'a word) = mask 8" by (simp add: mask_eq_exp_minus_1)
  have "bit (load_le (store_le v @ r) :: 'a word) n \<longleftrightarrow>
        (\<exists>i < ?k. 8 * i \<le> n \<and> bit ((store_le v @ r) ! i) (n - 8 * i))"
    using n by (auto simp: load_le_def bit_fold_or_push)
  also have "\<dots> \<longleftrightarrow> (\<exists>i < ?k. 8 * i \<le> n \<and> n - 8 * i < 8 \<and> bit v (8 * i + (n - 8 * i)))"
    using n by (intro ex_cong1 conj_cong refl) (auto simp: nth mask bit_simps)
  also have "\<dots> \<longleftrightarrow> bit v (8 * (n div 8) + n mod 8)"
    using n k byte_index_exists [of n ?k "\<lambda>d i. bit v (8 * i + d)"] by simp
  finally show "bit (load_le (store_le v @ r) :: 'a word) n \<longleftrightarrow> bit v n" by simp
qed

lemma load_store_le_word [simp]:
  "load_le (store_le (a :: 8 word) @ r) = a"
  "load_le (store_le (b :: 16 word) @ r) = b"
  "load_le (store_le (c :: 32 word) @ r) = c"
  "load_le (store_le (d :: 64 word) @ r) = d"
  by (rule load_store_le, simp)+

lemma load_store_le_int [simp]:
  "fits_i16 a \<Longrightarrow> load_le_i16 (store_le_i16 a @ r) = a"
  "fits_i32 b \<Longrightarrow> load_le_i32 (store_le_i32 b @ r) = b"
  "fits_i64 c \<Longrightarrow> load_le_i64 (store_le_i64 c @ r) = c"
  by (simp_all add: load_le_i16_def load_le_i32_def load_le_i64_def
      store_le_i16_def store_le_i32_def store_le_i64_def sint_sbintrunc' signed_take_bit_int_eq_self)

lemma load_le_int_fits:
  "fits_i16 (load_le_i16 bs)" "fits_i32 (load_le_i32 bs)" "fits_i64 (load_le_i64 bs)"
  using sint_greater_eq [of "load_le bs :: 16 word"] sint_less [of "load_le bs :: 16 word"]
    sint_greater_eq [of "load_le bs :: 32 word"] sint_less [of "load_le bs :: 32 word"]
    sint_greater_eq [of "load_le bs :: 64 word"] sint_less [of "load_le bs :: 64 word"]
  by (simp_all add: load_le_i16_def load_le_i32_def load_le_i64_def)


lemma nth_store_le: "i < LENGTH('a) div 8 \<Longrightarrow>
  store_le (w :: 'a::len word) ! i = ucast (drop_bit (8 * i) w AND 0xFF)"
  by (simp add: store_le_def)

lemma store_load_le:
  assumes "8 dvd LENGTH('a)" "length bs = LENGTH('a) div 8"
  shows "store_le (load_le bs :: 'a::len word) = bs"
proof (rule nth_equalityI)
  fix i assume "i < length (store_le (load_le bs :: 'a word))"
  then have i: "i < LENGTH('a) div 8" by simp
  have mask: "(0xFF :: 'a word) = mask 8" by (simp add: mask_eq_exp_minus_1)
  have "bit (store_le (load_le bs :: 'a word) ! i) n = bit (bs ! i) n" if n: "n < 8" for n
  proof -
    have lt: "8 * i + n < LENGTH('a)" using i n assms(1) by auto
    have ex: "(\<exists>j < LENGTH('a) div 8. 8 * j \<le> 8 * i + n \<and> bit (bs ! j) (8 * i + n - 8 * j))
        \<longleftrightarrow> bit (bs ! i) n"
    proof
      assume "\<exists>j < LENGTH('a) div 8. 8 * j \<le> 8 * i + n \<and> bit (bs ! j) (8 * i + n - 8 * j)"
      then obtain j where j: "8 * j \<le> 8 * i + n" "bit (bs ! j) (8 * i + n - 8 * j)" by blast
      then have "8 * i + n - 8 * j < 8" using bit_imp_le_length [OF j(2)] by simp
      with j(1) n have "j = i" by presburger
      with j show "bit (bs ! i) n" by simp
    qed (use i in auto)
    have "bit (store_le (load_le bs :: 'a word) ! i) n = bit (load_le bs :: 'a word) (8 * i + n)"
      using i n lt by (simp add: nth_store_le mask bit_simps del: drop_bit_and)
    also have "\<dots> = bit (bs ! i) n"
      using lt by (simp add: load_le_def bit_fold_or_push Bex_def ex)
    finally show ?thesis .
  qed
  then show "store_le (load_le bs :: 'a word) ! i = bs ! i" by (intro bit_word_eqI) simp
qed (use assms in simp)

lemma store_load_le_take:
  assumes "8 dvd LENGTH('a)" "LENGTH('a) div 8 \<le> length bs"
  shows "store_le (load_le bs :: 'a::len word) = take (LENGTH('a) div 8) bs"
proof -
  let ?k = "LENGTH('a) div 8"
  have "(load_le bs :: 'a word) = load_le (take ?k bs)" using assms by (intro load_le_cong) simp_all
  then show ?thesis using store_load_le [where 'a = 'a, of "take ?k bs"] assms by simp
qed

lemma store_load_le_int:
  "8 \<le> length bs \<Longrightarrow> store_le_i64 (load_le_i64 bs) = take 8 bs"
  "4 \<le> length bs \<Longrightarrow> store_le_i32 (load_le_i32 bs) = take 4 bs"
  "2 \<le> length bs \<Longrightarrow> store_le_i16 (load_le_i16 bs) = take 2 bs"
  by (simp_all add: store_le_i64_def load_le_i64_def store_le_i32_def load_le_i32_def
      store_le_i16_def load_le_i16_def store_load_le_take)


section \<open>Varints\<close>

definition kMaxVarintBytes :: nat where
  "kMaxVarintBytes = 10"

text \<open>Each turn of the source's loop shifts the value right by seven bits.\<close>

lemma unat_drop_bit_7: "unat (drop_bit 7 v) = unat v div 128" for v :: "64 word"
  by (simp add: unat_drop_bit_eq drop_bit_nat_def)

function put_varint :: "64 word \<Rightarrow> bytes" where
  "put_varint v =
     (if v \<ge> 0x80 then ucast ((v AND 0x7F) OR 0x80) # put_varint (drop_bit 7 v)
      else [ucast v])"
  by auto
termination
  by (relation "measure unat") (auto simp: unat_drop_bit_7 word_le_nat_alt)

declare put_varint.simps [simp del]

fun get_varint_loop :: "nat \<Rightarrow> nat \<Rightarrow> 64 word \<Rightarrow> 64 word parser" where
  "get_varint_loop i shift result [] = Inl InvalidArgument"
| "get_varint_loop i shift result (b # inp) =
     (if i < kMaxVarintBytes then
        (let result' = result OR push_bit shift (ucast (b AND 0x7F)) in
         if b AND 0x80 = 0 then Inr (result', inp)
         else get_varint_loop (i + 1) (shift + 7) result' inp)
      else Inl InvalidArgument)"

definition get_varint :: "64 word parser" where
  "get_varint inp = get_varint_loop 0 0 0 inp"

lemma bit_varint_masks:
  "bit (0x7F :: int) n \<longleftrightarrow> n < 7" "bit (0x80 :: int) n \<longleftrightarrow> n = 7"
proof -
  have m: "(0x7F :: int) = mask 7" "(0x80 :: int) = 2 ^ 7"
    by (simp_all add: mask_eq_exp_minus_1)
  show "bit (0x7F :: int) n \<longleftrightarrow> n < 7" "bit (0x80 :: int) n \<longleftrightarrow> n = 7"
    unfolding m bit_mask_iff bit_exp_iff by auto
qed

lemma varint_last_byte:
  fixes v :: "64 word"
  assumes "v < 0x80"
  shows "ucast (ucast v AND (0x7F :: byte)) = v" "ucast v AND (0x80 :: byte) = 0"
proof -
  have hi: "\<not> bit v n" if "n \<ge> 7" for n
  proof -
    have "unat v < 2 ^ 7" using assms by (simp add: word_less_nat_alt)
    also have "\<dots> \<le> 2 ^ n" using that by (intro power_increasing) auto
    finally have "\<not> bit (unat v) n" by (simp add: bit_iff_odd)
    then show ?thesis by (simp add: bit_unsigned_iff)
  qed
  then have lo: "n < 7" if "bit v n" for n using that not_less by blast
  show "ucast (ucast v AND (0x7F :: byte)) = v"
    by (rule bit_word_eqI) (use lo in \<open>fastforce simp: bit_simps bit_varint_masks\<close>)
  show "ucast v AND (0x80 :: byte) = 0"
    by (rule bit_word_eqI) (use lo in \<open>fastforce simp: bit_simps bit_varint_masks\<close>)
qed

lemma varint_cont_byte:
  fixes v :: "64 word"
  shows "ucast ((ucast ((v AND 0x7F) OR 0x80) :: byte) AND 0x7F) = v AND 0x7F"
    and "(ucast ((v AND 0x7F) OR 0x80) :: byte) AND 0x80 \<noteq> 0"
proof -
  show "ucast ((ucast ((v AND 0x7F) OR 0x80) :: byte) AND 0x7F) = v AND 0x7F"
    by (rule bit_word_eqI) (auto simp: bit_simps bit_varint_masks)
  have "bit ((ucast ((v AND 0x7F) OR 0x80) :: byte) AND 0x80) 7"
    by (simp add: bit_simps bit_varint_masks)
  then show "(ucast ((v AND 0x7F) OR 0x80) :: byte) AND 0x80 \<noteq> 0" by (metis bit_0_eq bot_apply bot_bool_def)
qed

lemma varint_join:
  "(r OR push_bit s (v AND 0x7F)) OR push_bit (s + 7) (drop_bit 7 v) = r OR push_bit s v"
  for r v :: "64 word"
proof (rule bit_word_eqI)
  fix n
  have "bit v (7 + (n - (s + 7))) = bit v (n - s)" if "s + 7 \<le> n" using that by simp
  then show "bit ((r OR push_bit s (v AND 0x7F)) OR push_bit (s + 7) (drop_bit 7 v)) n =
      bit (r OR push_bit s v) n" if "n < LENGTH(64)"
    using that by (cases "s + 7 \<le> n") (auto simp: bit_simps bit_varint_masks)
qed

lemma drop_7_bound:
  fixes v :: "64 word"
  assumes "unat v < 2 ^ a" "7 \<le> a"
  shows "unat (drop_bit 7 v) < 2 ^ (a - 7)"
proof -
  obtain k where "a = k + 7" using assms(2) by (metis le_add_diff_inverse2)
  with assms(1) show ?thesis by (simp add: unat_drop_bit_7 power_add less_mult_imp_div_less)
qed

lemma get_varint_loop_put:
  assumes "i < 10" "unat v < 2 ^ (64 - 7 * i)"
  shows "get_varint_loop i (7 * i) r (put_varint v @ rest) = Inr (r OR push_bit (7 * i) v, rest)"
  using assms
proof (induction v arbitrary: i r rule: put_varint.induct)
  case (1 v)
  show ?case
  proof (cases "v \<ge> 0x80")
    case False
    then have "v < 0x80" by simp
    with varint_last_byte [OF this] show ?thesis
      using False 1(2) by (simp add: put_varint.simps [of v] kMaxVarintBytes_def)
  next
    case True
    have i: "i < 9"
    proof (rule ccontr)
      assume "\<not> i < 9"
      with 1(2) have "i = 9" by simp
      with 1(3) have "unat v < 2" by simp
      with True show False by (simp add: word_le_nat_alt)
    qed
    have "unat (drop_bit 7 v) < 2 ^ (64 - 7 * i - 7)"
      using drop_7_bound [OF 1(3)] i by simp
    also have "64 - 7 * i - 7 = 64 - 7 * (i + 1)" by simp
    finally have "unat (drop_bit 7 v) < 2 ^ (64 - 7 * (i + 1))" .
    from 1(1) [OF True _ this, of "r OR push_bit (7 * i) (v AND 0x7F)"] i
    show ?thesis
      using True varint_cont_byte [of v]
      by (simp add: put_varint.simps [of v] kMaxVarintBytes_def
          varint_join [of r "7 * i" v, unfolded add.commute [of _ 7]] add.commute [of _ 7]
          del: push_bit_and)
  qed
qed

lemma get_put_varint [simp, roundtrip]: "get_varint (put_varint v @ rest) = Inr (v, rest)"
  using get_varint_loop_put [of 0 v 0 rest] unsigned_less [of v, where 'a = nat] by (simp add: get_varint_def)

interpretation varint: wire_format put_varint get_varint "\<lambda>_. True"
  by unfold_locales simp

lemma length_put_varint_le:
  "0 < n \<Longrightarrow> unat v < 2 ^ (7 * n) \<Longrightarrow> length (put_varint v) \<le> n"
proof (induction v arbitrary: n rule: put_varint.induct)
  case (1 v)
  show ?case
  proof (cases "v \<ge> 0x80")
    case True
    obtain m where n: "n = Suc m" using 1(2) by (cases n) auto
    have "m > 0" using True 1(3) n by (cases m) (auto simp: word_le_nat_alt)
    moreover have "unat (drop_bit 7 v) < 2 ^ (7 * m)"
      using 1(3) by (simp add: n unat_drop_bit_7 power_add less_mult_imp_div_less)
    ultimately show ?thesis using 1(1) [OF True] True n by (simp add: put_varint.simps [of v])
  qed (use 1(2) in \<open>simp add: put_varint.simps [of v]\<close>)
qed

lemma length_put_varint_ge:
  "length (put_varint v) \<le> n \<Longrightarrow> unat v < 2 ^ (7 * n)"
proof (induction v arbitrary: n rule: put_varint.induct)
  case (1 v)
  obtain m where n: "n = Suc m" using 1(2) by (cases n) (auto simp: put_varint.simps [of v] split: if_splits)
  show ?case
  proof (cases "v \<ge> 0x80")
    case True
    then have "unat (drop_bit 7 v) < 2 ^ (7 * m)"
      using 1(1) [OF True, of m] 1(2) n by (simp add: put_varint.simps [of v])
    then show ?thesis by (simp add: n unat_drop_bit_7 power_add div_less_iff_less_mult mult.commute)
  next
    case False
    then have "unat v < 128 * 1" by (simp add: word_le_nat_alt)
    also have "\<dots> \<le> 2 ^ (7 * n)" by (simp add: n power_add)
    finally show ?thesis .
  qed
qed

lemma put_varint_nonempty: "put_varint v \<noteq> []"
  by (simp add: put_varint.simps [of v])

lemma get_varint_loop_consumes:
  "get_varint_loop i s r inp = Inr (v, rest) \<Longrightarrow>
     \<exists>pre. inp = pre @ rest \<and> 0 < length pre \<and> i + length pre \<le> kMaxVarintBytes"
proof (induction i s r inp rule: get_varint_loop.induct)
  case (2 i s r b inp)
  show ?case
  proof (cases "b AND 0x80 = 0")
    case True
    with 2(2) have "i < kMaxVarintBytes" "inp = rest"
      by (simp_all add: Let_def split: if_splits)
    then show ?thesis by (intro exI [of _ "[b]"]) simp
  next
    case False
    with 2(2) have "i < kMaxVarintBytes"
      "get_varint_loop (i + 1) (s + 7) (r OR push_bit s (ucast (b AND 0x7F))) inp = Inr (v, rest)"
      by (simp_all add: Let_def split: if_splits del: push_bit_and)
    from 2(1) [OF this(1) refl False this(2)]
    obtain pre where "inp = pre @ rest" "i + 1 + length pre \<le> kMaxVarintBytes" by blast
    then show ?thesis by (intro exI [of _ "b # pre"]) simp
  qed
qed simp

lemma get_varint_error: "get_varint inp = Inl e \<Longrightarrow> e = InvalidArgument"
proof -
  have "get_varint_loop i s r inp = Inl e \<Longrightarrow> e = InvalidArgument" for i s r
    by (induction inp arbitrary: i s r) (simp_all add: Let_def split: if_splits)
  then show "get_varint inp = Inl e \<Longrightarrow> e = InvalidArgument" by (simp add: get_varint_def)
qed


text \<open>
  \<open>get_varint\<close> reads back what \<open>put_varint\<close> wrote and leaves exactly what
  followed it; the code has between one and \<open>kMaxVarintBytes\<close> bytes and is as
  short as seven bits per byte allow.
\<close>

theorem varint_roundtrip:
  "get_varint (put_varint v @ rest) = Inr (v, rest) \<and>
   1 \<le> length (put_varint v) \<and> length (put_varint v) \<le> kMaxVarintBytes \<and>
   (length (put_varint v) \<le> Suc n \<longleftrightarrow> unat v < 2 ^ (7 * Suc n))"
proof -
  have "unat v < 2 ^ 64" using unsigned_less [of v, where 'a = nat] by simp
  also have "\<dots> < 2 ^ (7 * 10)" by simp
  finally have "1 \<le> length (put_varint v) \<and> length (put_varint v) \<le> kMaxVarintBytes"
    using put_varint_nonempty [of v] length_put_varint_le [of 10 v]
    by (simp add: kMaxVarintBytes_def Suc_le_eq)
  then show ?thesis
    using length_put_varint_le [of "Suc n" v] length_put_varint_ge [of v "Suc n"] by auto
qed

text \<open>
  The varint decoder is defensive on every input: it fails only with
  \<open>InvalidArgument\<close>, and when it succeeds what it leaves is a proper suffix of the
  input, shorter by at most \<open>kMaxVarintBytes\<close> bytes.
\<close>

theorem get_varint_defensive:
  "case get_varint inp of
     Inl e \<Rightarrow> e = InvalidArgument
   | Inr (v, rest) \<Rightarrow> \<exists>pre. inp = pre @ rest \<and> 0 < length pre \<and> length pre \<le> kMaxVarintBytes"
  using get_varint_error [of inp] get_varint_loop_consumes [of 0 0 0 inp]
  by (fastforce simp: get_varint_def split: sum.splits)

section \<open>Zigzag\<close>

text \<open>
  The right shift of a signed value is arithmetic, which is \<^const>\<open>drop_bit\<close>
  on \<open>int\<close>; the exclusive or of two signed words is that of their bits.
\<close>

definition zigzag_encode :: "int \<Rightarrow> 64 word" where
  "zigzag_encode v = push_bit 1 (word_of_int v) XOR word_of_int (drop_bit 63 v)"

definition zigzag_decode :: "64 word \<Rightarrow> int" where
  "zigzag_decode w = sint (drop_bit 1 w XOR - (w AND 1))"

lemma sint_word_of_int_64: "fits_i64 v \<Longrightarrow> sint (word_of_int v :: 64 word) = v"
  by (simp add: sint_sbintrunc' signed_take_bit_int_eq_self)

lemma zigzag_encode_nonneg:
  "0 \<le> v \<Longrightarrow> v < 2 ^ 63 \<Longrightarrow> zigzag_encode v = push_bit 1 (word_of_int v)"
  by (simp add: zigzag_encode_def drop_bit_eq_div div_pos_pos_trivial)

lemma zigzag_encode_neg:
  assumes "v < 0" "- (2 ^ 63) \<le> v"
  shows "zigzag_encode v = NOT (push_bit 1 (word_of_int v))"
proof -
  have "v div 2 ^ 63 = - 1" using assms by (intro int_div_pos_eq [where r = "v + 2 ^ 63"]) simp_all
  then show ?thesis by (simp add: zigzag_encode_def drop_bit_eq_div)
qed

lemma bit_63_word_of_int: "fits_i64 v \<Longrightarrow> bit (word_of_int v :: 64 word) 63 \<longleftrightarrow> v < 0"
  using sint_word_of_int_64 [of v] bit_last_iff [of "word_of_int v :: 64 word"] by simp

lemma drop_push_1:
  fixes x :: "64 word"
  shows "\<not> bit x 63 \<Longrightarrow> drop_bit 1 (push_bit 1 x) = x"
    and "bit x 63 \<Longrightarrow> NOT (drop_bit 1 (NOT (push_bit 1 x))) = x"
    and "push_bit 1 x AND 1 = 0"
    and "NOT (push_bit 1 x) AND 1 = 1"
proof -
  have n: "n < 63" if "n < LENGTH(64)" "n \<noteq> 63" for n :: nat using that by simp
  show "drop_bit 1 (push_bit 1 x) = x" if "\<not> bit x 63"
  proof (rule bit_word_eqI)
    show "bit (drop_bit 1 (push_bit 1 x)) n = bit x n" if "n < LENGTH(64)" for n
      using n [OF that] \<open>\<not> bit x 63\<close> by (cases "n = 63") (auto simp: bit_simps simp del: One_nat_def)
  qed
  show "NOT (drop_bit 1 (NOT (push_bit 1 x))) = x" if "bit x 63"
  proof (rule bit_word_eqI)
    show "bit (NOT (drop_bit 1 (NOT (push_bit 1 x)))) n = bit x n" if "n < LENGTH(64)" for n
      using n [OF that] \<open>bit x 63\<close> by (cases "n = 63") (auto simp: bit_simps simp del: One_nat_def)
  qed
  show "push_bit 1 x AND 1 = 0" "NOT (push_bit 1 x) AND 1 = 1"
    by (simp_all add: and_one_eq mod_2_eq_odd)
qed

lemma zigzag_decode_encode [simp, roundtrip]:
  assumes "fits_i64 v"
  shows "zigzag_decode (zigzag_encode v) = v"
proof -
  let ?x = "word_of_int v :: 64 word" and ?w = "zigzag_encode v"
  have "drop_bit 1 ?w XOR - (?w AND 1) = ?x"
  proof (cases "v < 0")
    case False
    then have "\<not> bit ?x 63" "?w = push_bit 1 ?x"
      using assms bit_63_word_of_int zigzag_encode_nonneg by simp_all
    then have d: "drop_bit 1 ?w = ?x" and a: "?w AND 1 = 0"
      using drop_push_1(1,3) [of ?x] by metis+
    show ?thesis unfolding d a by simp
  next
    case True
    then have "bit ?x 63" "?w = NOT (push_bit 1 ?x)"
      using assms bit_63_word_of_int zigzag_encode_neg by simp_all
    then have d: "NOT (drop_bit 1 ?w) = ?x" and a: "?w AND 1 = 1"
      using drop_push_1(2,4) [of ?x] by metis+
    have "y XOR - 1 = NOT y" for y :: "64 word" by simp
    then show ?thesis unfolding a using d by metis
  qed
  then show ?thesis using assms sint_word_of_int_64 by (simp add: zigzag_decode_def)
qed

text \<open>A small magnitude gives a small code: the reason for the map.\<close>

lemma unat_word_of_int_64:
  "0 \<le> x \<Longrightarrow> x < 2 ^ 64 \<Longrightarrow> unat (word_of_int x :: 64 word) = nat x"
  by (simp add: unat_eq_nat_uint uint_word_of_int_eq take_bit_int_eq_self)

lemma unat_zigzag_encode:
  assumes "fits_i64 v"
  shows "unat (zigzag_encode v) = nat (if v < 0 then - 2 * v - 1 else 2 * v)"
proof (cases "v < 0")
  case False
  then have "zigzag_encode v = word_of_int (2 * v)"
    using assms by (simp add: zigzag_encode_nonneg push_bit_eq_mult mult.commute)
  with unat_word_of_int_64 [of "2 * v"] show ?thesis using False assms by simp
next
  case True
  then have "zigzag_encode v = word_of_int (- 2 * v - 1)"
    using assms by (simp add: zigzag_encode_neg push_bit_eq_mult not_eq_complement)
  with unat_word_of_int_64 [of "- 2 * v - 1"] show ?thesis using True assms by simp
qed

lemma fits_zigzag_decode: "fits_i64 (zigzag_decode w)"
  using sint_greater_eq [of "drop_bit 1 w XOR - (w AND 1)"] sint_less [of "drop_bit 1 w XOR - (w AND 1)"]
  by (simp add: zigzag_decode_def)

section \<open>FNV-1a\<close>

definition fnv1a_64 :: "bytes \<Rightarrow> 64 word" where
  "fnv1a_64 data =
     foldl (\<lambda>hash b. (hash XOR ucast b) * 1099511628211) 14695981039346656037 data"

end
