(* ===== verification/Crc32c.thy ===== *)
theory Crc32c
  imports Byte_Codec
begin

text \<open>
  The CRC32C of \<^verbatim>\<open>src/src/common/crc32c.cpp\<close>: the software path by table, the
  hardware path by SSE4.2 instructions, and the dispatch between them.  The two
  instructions are parameters; \<open>crc32_instructions\<close> states their documented
  meaning.  The lemmas show that both paths compute the bitwise reflected CRC,
  that checksums chain, and which damage to the data a checksum always detects.
\<close>


section \<open>The two implementations\<close>

definition kPoly :: "32 word" where
  "kPoly = 0x82F63B78"

definition crc_bit :: "32 word \<Rightarrow> 32 word" where
  "crc_bit crc = drop_bit 1 crc XOR (if crc AND 1 \<noteq> 0 then kPoly else 0)"

definition make_table :: "32 word list" where
  "make_table = map (\<lambda>i. (crc_bit ^^ 8) (of_nat i)) [0..<256]"

definition kTable :: "32 word list" where
  "kTable = make_table"

definition sw_step :: "32 word \<Rightarrow> byte \<Rightarrow> 32 word" where
  "sw_step crc b = kTable ! unat ((crc XOR ucast b) AND 0xFF) XOR drop_bit 8 crc"

definition crc32c_sw :: "bytes \<Rightarrow> 32 word \<Rightarrow> 32 word" where
  "crc32c_sw data seed = foldl sw_step (NOT seed) data XOR 0xFFFFFFFF"

fun hw_loop ::
  "(32 word \<Rightarrow> byte \<Rightarrow> 32 word) \<Rightarrow> (64 word \<Rightarrow> 64 word \<Rightarrow> 64 word) \<Rightarrow>
   32 word \<Rightarrow> bytes \<Rightarrow> 32 word" where
  "hw_loop mm_crc32_u8 mm_crc32_u64 crc (a # b # c # d # e # f # g # h # data) =
     hw_loop mm_crc32_u8 mm_crc32_u64
       (ucast (mm_crc32_u64 (ucast crc) (load_le [a, b, c, d, e, f, g, h]))) data"
| "hw_loop mm_crc32_u8 mm_crc32_u64 crc data = foldl mm_crc32_u8 crc data"

definition crc32c_hw ::
  "(32 word \<Rightarrow> byte \<Rightarrow> 32 word) \<Rightarrow> (64 word \<Rightarrow> 64 word \<Rightarrow> 64 word) \<Rightarrow>
   bytes \<Rightarrow> 32 word \<Rightarrow> 32 word" where
  "crc32c_hw mm_crc32_u8 mm_crc32_u64 data seed =
     hw_loop mm_crc32_u8 mm_crc32_u64 (NOT seed) data XOR 0xFFFFFFFF"

definition crc32c_dispatch ::
  "bool \<Rightarrow> (32 word \<Rightarrow> byte \<Rightarrow> 32 word) \<Rightarrow> (64 word \<Rightarrow> 64 word \<Rightarrow> 64 word) \<Rightarrow>
   bytes \<Rightarrow> 32 word \<Rightarrow> 32 word" where
  "crc32c_dispatch has_hw mm_crc32_u8 mm_crc32_u64 data seed =
     (if has_hw then crc32c_hw mm_crc32_u8 mm_crc32_u64 data seed else crc32c_sw data seed)"

text \<open>
  The rest of the development writes \<open>crc32c\<close> for the software path, which
  \<open>crc32c_dispatch\<close> is shown to equal on every machine.
\<close>

abbreviation crc32c :: "bytes \<Rightarrow> 32 word" where
  "crc32c data \<equiv> crc32c_sw data 0"

text \<open>
  The documented meaning of the SSE4.2 instructions: \<^verbatim>\<open>_mm_crc32_u8\<close> divides by the
  reflected Castagnoli polynomial one bit at a time, and \<^verbatim>\<open>_mm_crc32_u64\<close> consumes the
  eight bytes of its operand from the least significant one.
\<close>

definition crc32_instructions ::
  "(32 word \<Rightarrow> byte \<Rightarrow> 32 word) \<Rightarrow> (64 word \<Rightarrow> 64 word \<Rightarrow> 64 word) \<Rightarrow> bool" where
  "crc32_instructions u8 u64 \<longleftrightarrow>
     (\<forall>crc b. u8 crc b = (crc_bit ^^ 8) (crc XOR ucast b)) \<and>
     (\<forall>crc chunk. u64 (ucast crc) chunk = ucast (foldl u8 crc (store_le chunk)))"


section \<open>The table is the bitwise division\<close>

lemma crc_bit_xor: "crc_bit (a XOR b) = crc_bit a XOR crc_bit b"
proof -
  have "(a XOR b) AND 1 \<noteq> 0 \<longleftrightarrow> (a AND 1 \<noteq> 0) \<noteq> (b AND 1 \<noteq> 0)"
    by (auto simp: and_one_eq mod_2_eq_odd even_xor_iff)
  then show ?thesis
    by (auto simp: crc_bit_def drop_bit_xor ac_simps)
qed

lemma crc_bits_xor: "(crc_bit ^^ n) (a XOR b) = (crc_bit ^^ n) a XOR (crc_bit ^^ n) b"
  by (induction n) (simp_all add: crc_bit_xor)

lemma crc_bits_low_zero:
  "(\<forall>i < n. \<not> bit x i) \<Longrightarrow> (crc_bit ^^ n) x = drop_bit n x"
proof (induction n arbitrary: x)
  case (Suc n)
  have "\<not> bit x 0" using Suc.prems by simp
  then have "x AND 1 = 0" by (simp add: and_one_eq mod_2_eq_odd bit_0)
  then have "crc_bit x = drop_bit 1 x" by (simp add: crc_bit_def)
  moreover have "\<forall>i < n. \<not> bit (drop_bit 1 x) i"
    using Suc.prems by (simp add: bit_drop_bit_eq del: One_nat_def)
  ultimately show ?case
    using Suc.IH [of "drop_bit 1 x"] by (simp add: funpow_Suc_right del: funpow.simps)
qed simp

definition crc_byte :: "32 word \<Rightarrow> 32 word" where
  "crc_byte x = (crc_bit ^^ 8) x"

lemma crc_byte_xor: "crc_byte (a XOR b) = crc_byte a XOR crc_byte b"
  by (simp add: crc_byte_def crc_bits_xor)

lemma bit_FF: "bit (0xFF :: int) n \<longleftrightarrow> n < 8"
proof -
  have "(0xFF :: int) = mask 8" by (simp add: mask_eq_exp_minus_1)
  then show ?thesis by (simp only: bit_mask_iff) simp
qed

lemma bit_FFFFFFFF: "bit (0xFFFFFFFF :: int) n \<longleftrightarrow> n < 32"
proof -
  have "(0xFFFFFFFF :: int) = mask 32" by (simp add: mask_eq_exp_minus_1)
  then show ?thesis by (simp only: bit_mask_iff) simp
qed

lemma crc_byte_split: "crc_byte x = crc_byte (x AND 0xFF) XOR drop_bit 8 x"
proof -
  have x: "x = (x AND 0xFF) XOR (x AND NOT 0xFF)"
    by (rule bit_word_eqI) (auto simp: bit_simps)
  have "crc_byte (x AND NOT 0xFF) = drop_bit 8 (x AND NOT 0xFF)"
    unfolding crc_byte_def by (rule crc_bits_low_zero) (auto simp: bit_simps bit_FF)
  also have "\<dots> = drop_bit 8 x"
    by (rule bit_word_eqI) (auto simp: bit_simps bit_FF simp del: drop_bit_and dest: bit_imp_le_length)
  finally show ?thesis using crc_byte_xor [of "x AND 0xFF" "x AND NOT 0xFF"] x by metis
qed

lemma kTable_nth: "kTable ! unat (x AND 0xFF) = crc_byte (x AND 0xFF)" for x :: "32 word"
proof -
  have "x AND 0xFF \<le> 0xFF" by (rule word_and_le1)
  then have "unat (x AND 0xFF) < 256" by (simp add: word_le_nat_alt)
  then show ?thesis by (simp add: kTable_def make_table_def crc_byte_def)
qed

lemma drop_bit_ucast_byte: "drop_bit 8 (ucast (b :: byte) :: 32 word) = 0"
  by (rule bit_word_eqI) (auto simp: bit_simps dest: bit_imp_le_length)

lemma sw_step_crc_byte: "sw_step crc b = crc_byte (crc XOR ucast b)"
  using crc_byte_split [of "crc XOR ucast b"]
  by (simp add: sw_step_def kTable_nth drop_bit_xor drop_bit_ucast_byte)


section \<open>Hardware and software agree\<close>

lemma ucast_32_64: "ucast (ucast (x :: 32 word) :: 64 word) = x"
  by (rule bit_word_eqI) (simp add: bit_simps)

lemma hw_loop_eq:
  "crc32_instructions u8 u64 \<Longrightarrow> hw_loop u8 u64 crc data = foldl u8 crc data"
proof (induction u8 u64 crc data rule: hw_loop.induct)
  case (1 u8 u64 crc a b c d e f g h data)
  let ?chunk = "load_le [a, b, c, d, e, f, g, h] :: 64 word"
  have "u64 (ucast crc) ?chunk = ucast (foldl u8 crc (store_le ?chunk))"
    using 1(2) by (simp only: crc32_instructions_def)
  also have "store_le ?chunk = [a, b, c, d, e, f, g, h]" by (rule store_load_le) simp_all
  finally have "(ucast (u64 (ucast crc) ?chunk) :: 32 word) = foldl u8 crc [a, b, c, d, e, f, g, h]"
    by (simp only: ucast_32_64)
  then show ?case using 1 by simp
qed simp_all

lemma crc32_instructions_u8: "crc32_instructions u8 u64 \<Longrightarrow> u8 = sw_step"
  by (intro ext) (simp add: crc32_instructions_def sw_step_crc_byte crc_byte_def)

lemma crc32c_hw_sw:
  "crc32_instructions u8 u64 \<Longrightarrow> crc32c_hw u8 u64 data seed = crc32c_sw data seed"
  using crc32_instructions_u8 [of u8 u64] hw_loop_eq [of u8 u64]
  by (simp add: crc32c_hw_def crc32c_sw_def)

lemma crc32c_sw_append: "crc32c_sw (a @ b) seed = crc32c_sw b (crc32c_sw a seed)"
proof -
  have "NOT (x XOR 0xFFFFFFFF) = x" for x :: "32 word"
    by (rule bit_word_eqI) (auto simp: bit_simps bit_FFFFFFFF)
  then show ?thesis by (simp add: crc32c_sw_def)
qed


section \<open>What a checksum detects\<close>

text \<open>
  One division step is a bijection of the register, because the top bit of the
  reflected polynomial is set.
\<close>

lemma bit_31_kPoly: "bit kPoly 31"
  by (simp add: kPoly_def)

lemma crc_bit_eq_0: "crc_bit x = 0 \<Longrightarrow> x = 0"
proof -
  assume 0: "crc_bit x = 0"
  have "\<not> bit (drop_bit 1 x) 31"
    using bit_imp_le_length [of x 32] by (auto simp: bit_simps simp del: One_nat_def)
  then have "bit (crc_bit x) 31 \<longleftrightarrow> x AND 1 \<noteq> 0"
    by (simp add: crc_bit_def bit_31_kPoly bit_simps del: One_nat_def)
  with 0 have even: "x AND 1 = 0" by simp
  with 0 have d: "drop_bit 1 x = 0" by (simp add: crc_bit_def)
  show "x = 0"
  proof (rule bit_word_eqI)
    fix n
    show "bit x n = bit (0 :: 32 word) n"
    proof (cases n)
      case 0
      with even show ?thesis by (simp add: and_one_eq mod_2_eq_odd bit_0 split: if_splits)
    next
      case (Suc m)
      then have "bit x n = bit (drop_bit 1 x) m" by (simp add: bit_drop_bit_eq del: drop_bit_Suc)
      with d show ?thesis by simp
    qed
  qed
qed

lemma xor_cancel_right: "a XOR c = b XOR c \<longleftrightarrow> a = b" for a b c :: "32 word"
proof
  assume "a XOR c = b XOR c"
  then have "(a XOR c) XOR c = (b XOR c) XOR c" by (rule arg_cong)
  then show "a = b" by (simp add: xor.assoc)
qed simp

lemma crc_byte_inject: "crc_byte x = crc_byte y \<longleftrightarrow> x = y"
proof
  assume "crc_byte x = crc_byte y"
  then have "crc_byte (x XOR y) = 0" by (simp add: crc_byte_xor)
  moreover have "(crc_bit ^^ n) z = 0 \<Longrightarrow> z = 0" for n z
    by (induction n) (auto dest: crc_bit_eq_0)
  ultimately have "x XOR y = 0" by (simp add: crc_byte_def)
  then show "x = y" using xor_cancel_right [of x y y] by simp
qed simp

lemma crc_bytes_inject: "(crc_byte ^^ n) x = (crc_byte ^^ n) y \<longleftrightarrow> x = y"
  by (induction n) (simp_all add: crc_byte_inject)

primrec le_word :: "bytes \<Rightarrow> 32 word" where
  "le_word [] = 0"
| "le_word (b # bs) = ucast b XOR push_bit 8 (le_word bs)"

lemma bit_le_word_bound: "bit (le_word bs) n \<Longrightarrow> n < 8 * length bs"
proof (induction bs arbitrary: n)
  case (Cons b bs)
  from Cons.prems have "bit b n \<or> 8 \<le> n \<and> bit (le_word bs) (n - 8)" by (auto simp: bit_simps)
  then show ?case using Cons.IH [of "n - 8"] bit_imp_le_length [of b n] by fastforce
qed simp

lemma crc_byte_push: "length bs \<le> 3 \<Longrightarrow> crc_byte (push_bit 8 (le_word bs)) = le_word bs"
proof -
  assume len: "length bs \<le> 3"
  have "crc_byte (push_bit 8 (le_word bs)) = drop_bit 8 (push_bit 8 (le_word bs))"
    unfolding crc_byte_def by (rule crc_bits_low_zero) (simp add: bit_simps)
  also have "\<dots> = le_word bs"
    by (rule bit_word_eqI) (use len bit_le_word_bound [of bs] in \<open>fastforce simp: bit_simps\<close>)
  finally show ?thesis .
qed

lemma foldl_sw_step_short:
  "length bs \<le> 4 \<Longrightarrow> foldl sw_step c bs = (crc_byte ^^ length bs) (c XOR le_word bs)"
proof (induction bs arbitrary: c)
  case (Cons b bs)
  have "crc_byte (c XOR ucast b) XOR le_word bs = crc_byte (c XOR le_word (b # bs))"
    using Cons.prems crc_byte_push [of bs] crc_byte_xor [of "c XOR ucast b" "push_bit 8 (le_word bs)"]
    by (simp add: xor.assoc)
  then show ?case using Cons by (simp add: sw_step_crc_byte funpow_Suc_right del: funpow.simps)
qed simp

lemma le_word_inject:
  "length xs = length ys \<Longrightarrow> length xs \<le> 4 \<Longrightarrow> le_word xs = le_word ys \<longleftrightarrow> xs = ys"
proof (induction xs ys rule: list_induct2)
  case (Cons x xs y ys)
  have low: "bit (ucast b XOR push_bit 8 w :: 32 word) n = bit b n" if "n < 8" for b :: byte and w n
    using that by (simp add: bit_simps)
  have high: "bit (ucast b XOR push_bit 8 w :: 32 word) (8 + n) = bit w n"
    if "n < 24" for b :: byte and w n
    using that by (auto simp: bit_simps dest: bit_imp_le_length)
  show ?case
  proof
    assume eq: "le_word (x # xs) = le_word (y # ys)"
    then have "bit x n = bit y n" if "n < 8" for n using low [OF that] by (metis le_word.simps(2))
    then have x: "x = y" by (intro bit_word_eqI) simp
    have "bit (le_word xs) n = bit (le_word ys) n" if "n < 32" for n
    proof (cases "n < 24")
      case True
      with eq high show ?thesis by (metis le_word.simps(2))
    next
      case False
      with Cons bit_le_word_bound [of xs n] bit_le_word_bound [of ys n] show ?thesis by auto
    qed
    then have "le_word xs = le_word ys" by (intro bit_word_eqI) simp
    with Cons x show "x # xs = y # ys" by simp
  qed simp
qed simp

lemma foldl_sw_step_inject:
  "foldl sw_step c s = foldl sw_step d s \<longleftrightarrow> c = d"
  by (induction s arbitrary: c d) (auto simp: sw_step_crc_byte crc_byte_inject xor_cancel_right)

lemma crc32c_detects_window:
  assumes "length x = length y" "length x \<le> 4"
  shows "crc32c_sw (p @ x @ s) seed = crc32c_sw (p @ y @ s) seed \<longleftrightarrow> x = y"
proof -
  let ?c = "foldl sw_step (NOT seed) p"
  have "crc32c_sw (p @ x @ s) seed = crc32c_sw (p @ y @ s) seed \<longleftrightarrow>
      foldl sw_step ?c x = foldl sw_step ?c y"
    by (simp add: crc32c_sw_def foldl_sw_step_inject xor_cancel_right)
  also have "\<dots> \<longleftrightarrow> le_word x = le_word y"
    using assms xor_cancel_right [of "le_word x" ?c "le_word y"]
    by (simp add: foldl_sw_step_short crc_bytes_inject xor.commute)
  also have "\<dots> \<longleftrightarrow> x = y" using assms by (rule le_word_inject)
  finally show ?thesis .
qed


text \<open>
  C39: The checksum does not depend on the machine.  With instructions that behave
  as documented, the dispatching \<open>crc32c\<close> returns the value of the table-driven
  software path for every input and seed, and the checksum of a concatenation
  is obtained by passing the checksum of the first part as the seed of the second.
\<close>

theorem crc32c_paths_agree:
  assumes "crc32_instructions u8 u64"
  shows "crc32c_dispatch has_hw u8 u64 data seed = crc32c_sw data seed \<and>
         crc32c_dispatch has_hw u8 u64 (a @ b) seed =
           crc32c_dispatch has_hw u8 u64 b (crc32c_dispatch has_hw u8 u64 a seed)"
  using assms by (simp_all add: crc32c_dispatch_def crc32c_hw_sw crc32c_sw_append)

definition instr_u8 :: "32 word \<Rightarrow> byte \<Rightarrow> 32 word" where
  "instr_u8 crc b = (crc_bit ^^ 8) (crc XOR ucast b)"

definition instr_u64 :: "64 word \<Rightarrow> 64 word \<Rightarrow> 64 word" where
  "instr_u64 crc chunk = ucast (foldl instr_u8 (ucast crc) (store_le chunk))"

lemma instr_documented: "crc32_instructions instr_u8 instr_u64"
  by (simp add: crc32_instructions_def instr_u8_def instr_u64_def ucast_32_64)

theorem crc32c_paths_agree_witness:
  "crc32_instructions instr_u8 instr_u64 \<and>
   crc32c_dispatch True instr_u8 instr_u64 [1, 2, 3, 4, 5, 6, 7, 8, 9] 0 =
     crc32c_sw [1, 2, 3, 4, 5, 6, 7, 8, 9] 0"
  using instr_documented
    crc32c_paths_agree [OF instr_documented, of True "[1, 2, 3, 4, 5, 6, 7, 8, 9]" 0]
  by blast

text \<open>
  A checksum detects every damage confined to four consecutive bytes: two
  inputs of the same length that agree outside such a window have the same
  CRC32C only if they are equal.
\<close>

theorem crc32c_detects_burst:
  assumes "length x = length y" "length x \<le> 4"
  shows "crc32c_sw (p @ x @ s) seed = crc32c_sw (p @ y @ s) seed \<longleftrightarrow> x = y"
  using assms by (rule crc32c_detects_window)

theorem crc32c_detects_burst_witness:
  "crc32c_sw ([7] @ [1, 2, 3, 4] @ [9]) 0 \<noteq> crc32c_sw ([7] @ [1, 2, 3, 5] @ [9]) 0"
  using crc32c_detects_burst [of "[1, 2, 3, 4]" "[1, 2, 3, 5]" "[7]" "[9]" 0] by simp

end
