(* ===== verification/Record_Batch.thy ===== *)
theory Record_Batch
  imports Crc32c
begin

text \<open>
  The on-disk record batch of \<^verbatim>\<open>src/src/common/record.hpp\<close> and \<^verbatim>\<open>record.cpp\<close>:
  its header, \<open>encode\<close>, the validating \<open>decode\<close>, and the \<open>peek\<close> that reads a header
  without copying or validating the records.  The lemmas show that decoding inverts
  encoding in both directions, that \<open>peek\<close> agrees with \<open>decode\<close>, and that damaged
  batches are rejected.
\<close>


section \<open>Batches\<close>

record RecordBatchHeader =
  base_offset :: int
  attrs :: "16 word"
  producer_id :: int
  producer_epoch :: int
  base_sequence :: int
  record_count :: int

record RecordBatchView =
  view_base_offset :: int
  view_record_count :: int
  view_encoded_size :: nat

record RecordBatch =
  header :: RecordBatchHeader
  records :: bytes

definition default_header :: RecordBatchHeader where
  "default_header = \<lparr> base_offset = 0, attrs = 0, producer_id = -1, producer_epoch = -1,
     base_sequence = -1, record_count = 0 \<rparr>"

definition kHeaderSize :: nat where "kHeaderSize = 36"
definition kBaseOffsetPos :: nat where "kBaseOffsetPos = 0"
definition kLengthPos :: nat where "kLengthPos = 8"
definition kCrcPos :: nat where "kCrcPos = 12"
definition kAttrsPos :: nat where "kAttrsPos = 16"
definition kProducerIdPos :: nat where "kProducerIdPos = 18"
definition kProducerEpochPos :: nat where "kProducerEpochPos = 26"
definition kBaseSequencePos :: nat where "kBaseSequencePos = 28"
definition kRecordCountPos :: nat where "kRecordCountPos = 32"
definition kLengthFieldEnd :: nat where "kLengthFieldEnd = kLengthPos + 4"

lemmas batch_layout [simp] = kHeaderSize_def kBaseOffsetPos_def kLengthPos_def kCrcPos_def
  kAttrsPos_def kProducerIdPos_def kProducerEpochPos_def kBaseSequencePos_def
  kRecordCountPos_def kLengthFieldEnd_def

definition encoded_size :: "RecordBatch \<Rightarrow> nat" where
  "encoded_size b = kHeaderSize + length (records b)"

definition last_offset :: "RecordBatch \<Rightarrow> int" where
  "last_offset b = base_offset (header b) + record_count (header b) - 1"

definition view_last_offset :: "RecordBatchView \<Rightarrow> int" where
  "view_last_offset v = view_base_offset v + view_record_count v - 1"

text \<open>
  The fixed header is written field by field at the positions above; laid out in the
  order of those positions it is the following sequence.  \<open>header_tail\<close> is the part
  from \<^const>\<open>kAttrsPos\<close> on, which the checksum covers.
\<close>

definition header_tail :: "RecordBatchHeader \<Rightarrow> bytes" where
  "header_tail h = store_le (attrs h) @ store_le_i64 (producer_id h) @
     store_le_i16 (producer_epoch h) @ store_le_i32 (base_sequence h) @
     store_le_i32 (record_count h)"

definition encode :: "RecordBatch \<Rightarrow> bytes" where
  "encode b =
     (let tail = header_tail (header b);
          crc = crc32c_sw (records b) (crc32c_sw tail 0);
          len = int ((kHeaderSize - kLengthFieldEnd) + length (records b))
      in store_le_i64 (base_offset (header b)) @ store_le_i32 len @ store_le crc @ tail @ records b)"

definition decode :: "bytes \<Rightarrow> RecordBatch expected" where
  "decode data =
     (if length data < kHeaderSize then Inl Corrupt else
      let len = load_le_i32 (drop kLengthPos data) in
      if len < 0 then Inl Corrupt else
      let total = kLengthFieldEnd + nat len in
      if total < kHeaderSize \<or> total > length data then Inl Corrupt else
      let stored_crc = load_le (drop kCrcPos data);
          covered = take (total - kAttrsPos) (drop kAttrsPos data) in
      if crc32c covered \<noteq> stored_crc then Inl Corrupt else
      Inr \<lparr> header = \<lparr>
              base_offset = load_le_i64 (drop kBaseOffsetPos data),
              attrs = load_le (drop kAttrsPos data),
              producer_id = load_le_i64 (drop kProducerIdPos data),
              producer_epoch = load_le_i16 (drop kProducerEpochPos data),
              base_sequence = load_le_i32 (drop kBaseSequencePos data),
              record_count = load_le_i32 (drop kRecordCountPos data) \<rparr>,
            records = take (total - kHeaderSize) (drop kHeaderSize data) \<rparr>)"

definition peek :: "bytes \<Rightarrow> RecordBatchView expected" where
  "peek data =
     (if length data < kHeaderSize then Inl Corrupt else
      let len = load_le_i32 (drop kLengthPos data) in
      if len < 0 then Inl Corrupt else
      let total = kLengthFieldEnd + nat len in
      if total < kHeaderSize then Inl Corrupt else
      Inr \<lparr> view_base_offset = load_le_i64 (drop kBaseOffsetPos data),
            view_record_count = load_le_i32 (drop kRecordCountPos data),
            view_encoded_size = total \<rparr>)"

text \<open>
  A batch is representable when every field fits its width and the length fits
  the \<^verbatim>\<open>int32_t\<close> of the header.
\<close>

definition wf_header :: "RecordBatchHeader \<Rightarrow> bool" where
  "wf_header h \<longleftrightarrow> fits_i64 (base_offset h) \<and> fits_i64 (producer_id h) \<and>
     fits_i16 (producer_epoch h) \<and> fits_i32 (base_sequence h) \<and> fits_i32 (record_count h)"

definition wf_batch :: "RecordBatch \<Rightarrow> bool" where
  "wf_batch b \<longleftrightarrow> wf_header (header b) \<and> 24 + length (records b) < 2 ^ 31"

lemma length_header_tail [simp]: "length (header_tail h) = 20"
  by (simp add: header_tail_def)

lemma length_encode [simp]: "length (encode b) = encoded_size b"
  by (simp add: encode_def encoded_size_def Let_def)

lemma encode_alt:
  "encode b = store_le_i64 (base_offset (header b)) @ store_le_i32 (24 + int (length (records b))) @
     store_le (crc32c (header_tail (header b) @ records b)) @ header_tail (header b) @ records b"
  by (simp add: encode_def Let_def crc32c_sw_append)

lemma drop_store_le_i64 [simp]: "8 \<le> n \<Longrightarrow> drop n (store_le_i64 v @ r) = drop (n - 8) r"
  by simp

lemma drop_store_le_i32 [simp]: "4 \<le> n \<Longrightarrow> drop n (store_le_i32 v @ r) = drop (n - 4) r"
  by simp

lemma drop_store_le_i16 [simp]: "2 \<le> n \<Longrightarrow> drop n (store_le_i16 v @ r) = drop (n - 2) r"
  by simp

lemma drop_store_le_16 [simp]: "2 \<le> n \<Longrightarrow> drop n (store_le (v :: 16 word) @ r) = drop (n - 2) r"
  by simp

lemma drop_store_le_32 [simp]: "4 \<le> n \<Longrightarrow> drop n (store_le (v :: 32 word) @ r) = drop (n - 4) r"
  by simp

lemma decode_encode:
  assumes "wf_batch b"
  shows "decode (encode b @ rest) = Inr b"
proof -
  let ?h = "header b" and ?n = "length (records b)"
  have len: "load_le_i32 (drop 8 (encode b @ rest)) = 24 + int ?n"
    using assms by (simp add: encode_alt wf_batch_def del: drop_append)
  have crc: "load_le (drop 12 (encode b @ rest)) = crc32c (header_tail ?h @ records b)"
    by (simp add: encode_alt del: drop_append)
  have cov: "take (20 + ?n) (drop 16 (encode b @ rest)) = header_tail ?h @ records b"
    by (simp add: encode_alt)
  have fields: "load_le_i64 (encode b @ rest) = base_offset ?h"
    "load_le (drop 16 (encode b @ rest)) = attrs ?h"
    "load_le_i64 (drop 18 (encode b @ rest)) = producer_id ?h"
    "load_le_i16 (drop 26 (encode b @ rest)) = producer_epoch ?h"
    "load_le_i32 (drop 28 (encode b @ rest)) = base_sequence ?h"
    "load_le_i32 (drop 32 (encode b @ rest)) = record_count ?h"
    using assms by (simp_all add: encode_alt header_tail_def wf_batch_def wf_header_def del: drop_append)
  have recs: "take ?n (drop 36 (encode b @ rest)) = records b"
    by (simp add: encode_alt)
  have "nat (24 + int ?n) = 24 + ?n" by simp
  with len crc cov fields recs show ?thesis
    by (simp add: decode_def Let_def encoded_size_def)
qed


section \<open>Decoding accepts only encodings\<close>

lemma take_split: "i \<le> n \<Longrightarrow> take n xs = take i xs @ take (n - i) (drop i xs)"
  using take_add [of i "n - i" xs] by simp

lemma decode_InrD:
  assumes "decode data = Inr b"
  defines "tot \<equiv> 12 + nat (load_le_i32 (drop 8 data))"
  shows "36 \<le> tot" "tot \<le> length data" "0 \<le> load_le_i32 (drop 8 data)"
    and "crc32c (take (tot - 16) (drop 16 data)) = load_le (drop 12 data)"
    and "b = \<lparr> header = \<lparr> base_offset = load_le_i64 data, attrs = load_le (drop 16 data),
           producer_id = load_le_i64 (drop 18 data), producer_epoch = load_le_i16 (drop 26 data),
           base_sequence = load_le_i32 (drop 28 data), record_count = load_le_i32 (drop 32 data) \<rparr>,
           records = take (tot - 36) (drop 36 data) \<rparr>"
  using assms(1) unfolding tot_def
  by (auto simp: decode_def Let_def split: if_splits)

lemma header_tail_decoded:
  assumes "36 \<le> length data"
  shows "header_tail \<lparr> base_offset = o', attrs = load_le (drop 16 data),
           producer_id = load_le_i64 (drop 18 data), producer_epoch = load_le_i16 (drop 26 data),
           base_sequence = load_le_i32 (drop 28 data), record_count = load_le_i32 (drop 32 data) \<rparr>
         = take 20 (drop 16 data)"
proof -
  have "take 20 (drop 16 data) = take 2 (drop 16 data) @ take 8 (drop 18 data) @
      take 2 (drop 26 data) @ take 4 (drop 28 data) @ take 4 (drop 32 data)"
    using take_split [of 2 20 "drop 16 data"] take_split [of 8 18 "drop 18 data"]
      take_split [of 2 10 "drop 26 data"] take_split [of 4 8 "drop 28 data"] by simp
  then show ?thesis
    using assms store_load_le_take [where 'a = 16, of "drop 16 data"]
    by (simp add: header_tail_def store_load_le_int)
qed

lemma encode_decode:
  assumes "decode data = Inr b"
  shows "encode b = take (encoded_size b) data" "encoded_size b \<le> length data" "wf_batch b"
proof -
  note d = decode_InrD [OF assms]
  let ?len = "load_le_i32 (drop 8 data)"
  let ?total = "12 + nat ?len"
  have data: "36 \<le> length data" using d(1,2) by simp
  have tail: "header_tail (header b) = take 20 (drop 16 data)"
    using header_tail_decoded [OF data] d(5) by simp
  have recs: "records b = take (?total - 36) (drop 36 data)" using d(5) by simp
  have size: "encoded_size b = ?total" using recs d(1,2) by (simp add: encoded_size_def)
  then show "encoded_size b \<le> length data" using d(2) by simp
  have "24 + int (length (records b)) = ?len" using recs d(1,2,3) by simp
  then have len: "store_le_i32 (24 + int (length (records b))) = take 4 (drop 8 data)"
    using data by (simp add: store_load_le_int)
  have cov: "header_tail (header b) @ records b = take (?total - 16) (drop 16 data)"
    using tail recs d(1) take_split [of 20 "?total - 16" "drop 16 data"] by simp
  then have crc: "store_le (crc32c (header_tail (header b) @ records b)) = take 4 (drop 12 data)"
    using d(4) data store_load_le_take [where 'a = 32, of "drop 12 data"] by simp
  have base: "store_le_i64 (base_offset (header b)) = take 8 data"
    using d(5) data by (simp add: store_load_le_int)
  have "take ?total data = take 8 data @ take 4 (drop 8 data) @ take 4 (drop 12 data) @
      take (?total - 16) (drop 16 data)"
    using d(1) take_split [of 8 ?total data] take_split [of 4 "?total - 8" "drop 8 data"]
      take_split [of 4 "?total - 12" "drop 12 data"] by simp
  then show "encode b = take (encoded_size b) data"
    unfolding encode_alt base len crc [unfolded cov] cov size by simp
  have "nat ?len < 2 ^ 31" using d(3) load_le_int_fits(2) [of "drop 8 data"] by (simp add: nat_less_iff)
  then show "wf_batch b"
    using d(5) recs d(1,2,3) load_le_int_fits by (simp add: wf_batch_def wf_header_def)
qed

definition view_of :: "RecordBatch \<Rightarrow> RecordBatchView" where
  "view_of b = \<lparr> view_base_offset = base_offset (header b),
     view_record_count = record_count (header b), view_encoded_size = encoded_size b \<rparr>"

lemma peek_decode: "decode data = Inr b \<Longrightarrow> peek data = Inr (view_of b)"
  using decode_InrD [of data b] by (auto simp: peek_def view_of_def encoded_size_def Let_def)

lemma peek_encode: "wf_batch b \<Longrightarrow> peek (encode b @ rest) = Inr (view_of b)"
  by (rule peek_decode [OF decode_encode])

lemma decode_Inl: "decode data = Inl e \<Longrightarrow> e = Corrupt"
  by (auto simp: decode_def Let_def split: if_splits)

lemma peek_Inl: "peek data = Inl e \<Longrightarrow> e = Corrupt"
  by (auto simp: peek_def Let_def split: if_splits)

text \<open>
  Reading a log file advances by \<^const>\<open>encoded_size\<close> after each batch: with this
  step a batch is a codec like the others.
\<close>

definition decode_next :: "RecordBatch parser" where
  "decode_next data = bindE (decode data) (\<lambda>b. Inr (b, drop (encoded_size b) data))"

interpretation batch: wire_format encode decode_next wf_batch
  by unfold_locales (simp add: decode_next_def decode_encode)


section \<open>Damaged batches\<close>

lemma load_le_append: "LENGTH('a) div 8 \<le> length xs \<Longrightarrow>
  (load_le (xs @ ys) :: 'a::len word) = load_le xs"
  by (rule load_le_cong) simp_all

lemma decode_crc:
  assumes "decode data = Inr b"
  shows "crc32c (take (encoded_size b - 16) (drop 16 data)) = load_le (drop 12 data)"
    and "encoded_size b = 12 + nat (load_le_i32 (drop 8 data))"
proof -
  note d = decode_InrD [OF assms]
  show size: "encoded_size b = 12 + nat (load_le_i32 (drop 8 data))"
    using d(1,2,5) by (simp add: encoded_size_def)
  show "crc32c (take (encoded_size b - 16) (drop 16 data)) = load_le (drop 12 data)"
    using d(4) unfolding size by simp
qed

lemma decode_same_length_field:
  assumes "decode data = Inr b"
    and "load_le_i32 (drop 8 data') = load_le_i32 (drop 8 data)" "length data' = length data"
    and "crc32c (take (encoded_size b - 16) (drop 16 data')) \<noteq> load_le (drop 12 data')"
  shows "decode data' = Inl Corrupt"
  using decode_InrD(1,2,3) [OF assms(1)] assms(2-4) decode_crc(2) [OF assms(1)]
  by (simp add: decode_def Let_def)

text \<open>Damage in the region the checksum covers.\<close>

lemma decode_damaged_covered:
  assumes "wf_batch b" "encode b = p @ x @ s" "16 \<le> length p"
    and "length y = length x" "length x \<le> 4" "y \<noteq> x"
  shows "decode (p @ y @ s @ rest) = Inl Corrupt"
proof -
  have ok: "decode (p @ x @ s @ rest) = Inr b"
    using decode_encode [OF assms(1), of rest] by (simp add: assms(2))
  have size: "encoded_size b - 16 = length p - 16 + length x + length s"
    using assms(3) length_encode [of b] unfolding assms(2) by simp
  have crc: "(load_le (drop 12 p @ ys) :: 32 word) = load_le (drop 12 p)"
    "(load_le (drop 8 p @ ys) :: 32 word) = load_le (drop 8 p)" for ys
    using assms(3) by (simp_all add: load_le_append)
  have "crc32c (drop 16 p @ x @ s) = load_le (drop 12 p)"
    using decode_crc(1) [OF ok] assms(3) by (simp add: size crc)
  then have "crc32c (drop 16 p @ y @ s) \<noteq> load_le (drop 12 p)"
    using crc32c_detects_window [of y x "drop 16 p" s 0] assms(4-6) by simp
  then show ?thesis
    using assms(3,4) by (intro decode_same_length_field [OF ok]) (simp_all add: load_le_i32_def crc size)
qed

text \<open>Damage in the stored checksum itself.\<close>

lemma decode_damaged_crc:
  assumes "wf_batch b" "encode b = p @ x @ s" "length p = 12" "length x = 4"
    and "length y = 4" "y \<noteq> x"
  shows "decode (p @ y @ s @ rest) = Inl Corrupt"
proof -
  have ok: "decode (p @ x @ s @ rest) = Inr b"
    using decode_encode [OF assms(1), of rest] by (simp add: assms(2))
  have crc: "(load_le (x @ ys) :: 32 word) = load_le x" "(load_le (y @ ys) :: 32 word) = load_le y"
    "(load_le (drop 8 p @ ys) :: 32 word) = load_le (drop 8 p)" for ys
    using assms(3-5) by (simp_all add: load_le_append)
  have "(load_le x :: 32 word) \<noteq> load_le y"
    using store_load_le [where 'a = 32, of x] store_load_le [where 'a = 32, of y] assms(4-6)
    by auto
  then show ?thesis
    using assms(3-5) decode_crc(1) [OF ok]
    by (intro decode_same_length_field [OF ok]) (simp_all add: load_le_i32_def crc)
qed

section \<open>Properties\<close>

text \<open>
  \<open>decode\<close> inverts \<open>encode\<close>: a batch whose fields fit their widths is read back
  unchanged whatever bytes follow it, \<open>peek\<close> returns its offset, count and size, and
  the bytes written are exactly \<open>encoded_size\<close>.
\<close>

theorem batch_decode_encode:
  assumes "wf_batch b"
  shows "decode (encode b @ rest) = Inr b \<and> peek (encode b @ rest) = Inr (view_of b) \<and>
         length (encode b) = encoded_size b"
  using assms by (simp add: decode_encode peek_encode)

definition sample_batch :: RecordBatch where
  "sample_batch = \<lparr> header = default_header \<lparr> base_offset := 7, record_count := 2 \<rparr>,
     records = [1, 2, 3] \<rparr>"

theorem batch_decode_encode_witness:
  "wf_batch sample_batch \<and> decode (encode sample_batch @ [9, 9]) = Inr sample_batch"
proof -
  have "wf_batch sample_batch"
    by (simp add: sample_batch_def default_header_def wf_batch_def wf_header_def)
  with batch_decode_encode [OF this, of "[9, 9]"] show ?thesis by simp
qed

text \<open>
  \<open>decode\<close> accepts nothing but encodings: whenever it returns a batch, that batch is
  representable, its encoding is the prefix of the input of its \<open>encoded_size\<close>, and
  \<open>peek\<close> on the same input reports the same offset, count and size.
\<close>

theorem batch_decode_sound:
  assumes "decode data = Inr b"
  shows "wf_batch b \<and> encoded_size b \<le> length data \<and> data = encode b @ drop (encoded_size b) data \<and>
         peek data = Inr (view_of b)"
  using encode_decode [OF assms] peek_decode [OF assms] by simp

theorem batch_decode_sound_witness:
  "decode (encode sample_batch @ [4]) = Inr sample_batch \<and> wf_batch sample_batch \<and>
   peek (encode sample_batch @ [4]) = Inr (view_of sample_batch)"
proof -
  have "decode (encode sample_batch @ [4]) = Inr sample_batch"
    by (rule decode_encode) (simp add: sample_batch_def default_header_def wf_batch_def wf_header_def)
  with batch_decode_sound [OF this] show ?thesis by blast
qed

text \<open>
  C26: Damage is detected: replacing up to four consecutive bytes of the region that the
  checksum covers (from \<open>attrs\<close> to the last record byte), or the stored checksum, of an
  encoded batch makes \<open>decode\<close> return \<open>Corrupt\<close>.
\<close>

theorem batch_damage_detected:
  assumes "wf_batch b" "encode b = p @ x @ s" "length y = length x" "y \<noteq> x"
    and "16 \<le> length p \<and> length x \<le> 4 \<or> length p = 12 \<and> length x = 4"
  shows "decode (p @ y @ s @ rest) = Inl Corrupt"
  using assms(5)
proof
  assume "16 \<le> length p \<and> length x \<le> 4"
  with assms show ?thesis by (intro decode_damaged_covered [of b p x s y]) simp_all
next
  assume "length p = 12 \<and> length x = 4"
  with assms show ?thesis by (intro decode_damaged_crc [of b p x s y]) simp_all
qed

theorem batch_damage_detected_witness:
  "decode (take 36 (encode sample_batch) @ [1, 7] @ [3] @ []) = Inl Corrupt"
proof (rule batch_damage_detected)
  show "wf_batch sample_batch"
    by (simp add: sample_batch_def default_header_def wf_batch_def wf_header_def)
  show "encode sample_batch = take 36 (encode sample_batch) @ [1, 2] @ [3]"
    by (simp add: encode_alt sample_batch_def)
qed (simp_all add: encoded_size_def sample_batch_def)

end
