(* ===== verification/Record_Codec.thy ===== *)
theory Record_Codec
  imports Record_Batch
begin

text \<open>
  The individual records inside a batch (\<^verbatim>\<open>src/src/common/record_codec.cpp\<close>), the
  compression of their blob (\<^verbatim>\<open>compression.hpp\<close>, \<^verbatim>\<open>compression.cpp\<close>), and the control
  records that end a transaction (\<^verbatim>\<open>control_record.hpp\<close>, \<^verbatim>\<open>control_record.cpp\<close>).

  The LZ4 and Zstd libraries are the fields of the parameter \<open>codec_lib\<close>; \<open>lib_ok\<close>
  states what their documentation promises.
\<close>


section \<open>Compression\<close>

text \<open>The two codec bits can also hold the value 3, which has no name in the source.\<close>

datatype Codec = CodecNone | Lz4 | Zstd | CodecUnnamed

fun codec_bits :: "Codec \<Rightarrow> 16 word" where
  "codec_bits CodecNone = 0"
| "codec_bits Lz4 = 1"
| "codec_bits Zstd = 2"
| "codec_bits CodecUnnamed = 3"

definition kCodecMask :: "16 word" where
  "kCodecMask = 0x0003"

definition codec_from_attrs :: "16 word \<Rightarrow> Codec" where
  "codec_from_attrs a =
     (let v = a AND kCodecMask in
      if v = 0 then CodecNone else if v = 1 then Lz4 else if v = 2 then Zstd else CodecUnnamed)"

definition attrs_with_codec :: "16 word \<Rightarrow> Codec \<Rightarrow> 16 word" where
  "attrs_with_codec a codec = (a AND NOT kCodecMask) OR (codec_bits codec AND kCodecMask)"

text \<open>
  What the source uses of the two libraries.  A compressor or decompressor gets its
  input and the capacity of its output, and returns the bytes it produced or fails.
\<close>

record codec_lib =
  lz4_compiled :: bool
  zstd_compiled :: bool
  LZ4_compressBound :: "int \<Rightarrow> int"
  LZ4_compress_default :: "bytes \<Rightarrow> int \<Rightarrow> bytes option"
  LZ4_decompress_safe :: "bytes \<Rightarrow> nat \<Rightarrow> bytes option"
  ZSTD_compressBound :: "nat \<Rightarrow> nat"
  ZSTD_compress :: "bytes \<Rightarrow> nat \<Rightarrow> bytes option"
  ZSTD_decompress :: "bytes \<Rightarrow> nat \<Rightarrow> bytes option"

fun codec_available :: "codec_lib \<Rightarrow> Codec \<Rightarrow> bool" where
  "codec_available lib CodecNone = True"
| "codec_available lib Lz4 = lz4_compiled lib"
| "codec_available lib Zstd = zstd_compiled lib"
| "codec_available lib CodecUnnamed = False"

definition kSizePrefix :: nat where
  "kSizePrefix = 4"

definition compress :: "codec_lib \<Rightarrow> Codec \<Rightarrow> bytes \<Rightarrow> bytes expected" where
  "compress lib codec input =
     (if codec = CodecNone then Inr input
      else if length input > 2 ^ 32 - 1 then Inl InvalidArgument
      else let prefix = store_le (of_nat (length input) :: 32 word) in
      case codec of
        Lz4 \<Rightarrow>
          if lz4_compiled lib then
            let src_size = sint (of_nat (length input) :: 32 word);
                bound = LZ4_compressBound lib src_size in
            if bound \<le> 0 then Inl InvalidArgument
            else case LZ4_compress_default lib input bound of
                None \<Rightarrow> Inl IoError
              | Some written \<Rightarrow> Inr (prefix @ written)
          else Inl Unsupported
      | Zstd \<Rightarrow>
          if zstd_compiled lib then
            case ZSTD_compress lib input (ZSTD_compressBound lib (length input)) of
              None \<Rightarrow> Inl IoError
            | Some written \<Rightarrow> Inr (prefix @ written)
          else Inl Unsupported
      | _ \<Rightarrow> Inl Unsupported)"

definition decompress :: "codec_lib \<Rightarrow> Codec \<Rightarrow> bytes \<Rightarrow> nat \<Rightarrow> bytes expected" where
  "decompress lib codec input max_output =
     (if codec = CodecNone then Inr input
      else if length input < kSizePrefix then Inl Corrupt
      else let original_size = unat (load_le (take kSizePrefix input) :: 32 word) in
      if original_size > max_output then Inl Corrupt
      else let body = drop kSizePrefix input in
      case codec of
        Lz4 \<Rightarrow>
          if lz4_compiled lib then
            if length body > 2 ^ 31 - 1 \<or> original_size > 2 ^ 31 - 1 then Inl Corrupt
            else case LZ4_decompress_safe lib body original_size of
                None \<Rightarrow> Inl Corrupt
              | Some out \<Rightarrow> if length out \<noteq> original_size then Inl Corrupt else Inr out
          else Inl Unsupported
      | Zstd \<Rightarrow>
          if zstd_compiled lib then
            case ZSTD_decompress lib body original_size of
              None \<Rightarrow> Inl Corrupt
            | Some out \<Rightarrow> if length out \<noteq> original_size then Inl Corrupt else Inr out
          else Inl Unsupported
      | _ \<Rightarrow> Inl Unsupported)"

text \<open>
  The documented contract of the libraries: what a compressor produced is
  decompressed to the original, given room for exactly the original; LZ4 handles
  no input of \<^verbatim>\<open>LZ4_MAX_INPUT_SIZE\<close> bytes or more, for which the bound is not positive,
  and never produces more than its bound, which is below \<^verbatim>\<open>INT_MAX\<close>.
\<close>

definition lib_ok :: "codec_lib \<Rightarrow> bool" where
  "lib_ok lib \<longleftrightarrow>
     (\<forall>input cap c. LZ4_compress_default lib input cap = Some c \<longrightarrow>
        LZ4_decompress_safe lib c (length input) = Some input \<and> int (length c) \<le> cap) \<and>
     (\<forall>n. LZ4_compressBound lib n < 2 ^ 31) \<and>
     (\<forall>n. 0 < LZ4_compressBound lib n \<longrightarrow> 0 \<le> n) \<and>
     (\<forall>input cap c. ZSTD_compress lib input cap = Some c \<longrightarrow>
        ZSTD_decompress lib c (length input) = Some input)"


section \<open>Records\<close>

record RecordHeader =
  hdr_key :: bytes
  hdr_value :: "bytes option"

record Record =
  rec_key :: "bytes option"
  rec_value :: "bytes option"
  rec_headers :: "RecordHeader list"
  timestamp_delta :: int
  rec_offset :: int

definition kMaxHeadersPerRecord :: int where
  "kMaxHeadersPerRecord = 10000"

definition kMaxRecordBytes :: nat where
  "kMaxRecordBytes = 64 * 1024 * 1024"

definition put_zig :: "int \<Rightarrow> bytes" where
  "put_zig v = put_varint (zigzag_encode v)"

definition put_nullable :: "bytes option \<Rightarrow> bytes" where
  "put_nullable field =
     (case field of None \<Rightarrow> put_zig (-1) | Some bs \<Rightarrow> put_zig (int (length bs)) @ bs)"

definition get_zig :: "int parser" where
  "get_zig cursor = bindE (get_varint cursor) (\<lambda>(raw, r). Inr (zigzag_decode raw, r))"

definition get_nullable :: "bytes option parser" where
  "get_nullable cursor =
     bindE (get_zig cursor) (\<lambda>(len, r).
     if len < 0 then Inr (None, r)
     else bindE (take_bytes Corrupt (nat len) r) (\<lambda>(bs, r). Inr (Some bs, r)))"

definition encode_record_header :: "RecordHeader \<Rightarrow> bytes" where
  "encode_record_header h =
     put_zig (int (length (hdr_key h))) @ hdr_key h @ put_nullable (hdr_value h)"

definition encode_record_body :: "Record \<Rightarrow> int \<Rightarrow> bytes" where
  "encode_record_body r offset_delta =
     [0] @ put_zig (timestamp_delta r) @ put_zig offset_delta @
     put_nullable (rec_key r) @ put_nullable (rec_value r) @
     put_zig (int (length (rec_headers r))) @ concat (map encode_record_header (rec_headers r))"

definition encode_record :: "Record \<Rightarrow> int \<Rightarrow> bytes" where
  "encode_record r offset_delta =
     (let body = encode_record_body r offset_delta in put_zig (int (length body)) @ body)"

text \<open>A failure to read the length of a header key is reported as \<open>Corrupt\<close>.\<close>

definition decode_record_header :: "RecordHeader parser" where
  "decode_record_header body =
     (case get_zig body of
        Inl _ \<Rightarrow> Inl Corrupt
      | Inr (key_len, body) \<Rightarrow>
          if key_len < 0 then Inl Corrupt
          else bindE (take_bytes Corrupt (nat key_len) body) (\<lambda>(key_bytes, body).
               bindE (get_nullable body) (\<lambda>(hval, body).
               Inr (\<lparr> hdr_key = key_bytes, hdr_value = hval \<rparr>, body))))"

definition decode_record :: "int \<Rightarrow> Record parser" where
  "decode_record base cursor =
     bindE (get_zig cursor) (\<lambda>(body_len, cursor).
     if body_len < 0 then Inl Corrupt
     else bindE (take_bytes Corrupt (nat body_len) cursor) (\<lambda>(body, cursor).
     bindE (take_bytes Corrupt 1 body) (\<lambda>(_, body).
     bindE (get_zig body) (\<lambda>(ts_delta, body).
     bindE (get_zig body) (\<lambda>(offset_delta, body).
     bindE (get_nullable body) (\<lambda>(key, body).
     bindE (get_nullable body) (\<lambda>(val, body).
     bindE (get_zig body) (\<lambda>(header_count, body).
     if header_count < 0 \<or> header_count > kMaxHeadersPerRecord then Inl Corrupt
     else bindE (parse_n decode_record_header (nat header_count) body) (\<lambda>(headers, _).
     Inr (\<lparr> rec_key = key, rec_value = val, rec_headers = headers, timestamp_delta = ts_delta,
            rec_offset = base + offset_delta \<rparr>, cursor))))))))))"

definition decode_records :: "codec_lib \<Rightarrow> RecordBatch \<Rightarrow> nat \<Rightarrow> Record list expected" where
  "decode_records lib batch max_decompressed =
     (let count = record_count (header batch) in
      if count < 0 then Inl Corrupt
      else bindE
        (let codec = codec_from_attrs (attrs (header batch)) in
         if codec \<noteq> CodecNone then decompress lib codec (records batch) max_decompressed
         else Inr (records batch)) (\<lambda>blob.
      bindE (parse_n (decode_record (base_offset (header batch))) (nat count) blob) (\<lambda>(out, _).
      Inr out)))"

fun encode_from :: "int \<Rightarrow> Record list \<Rightarrow> bytes" where
  "encode_from delta [] = []"
| "encode_from delta (r # rs) = encode_record r delta @ encode_from (delta + 1) rs"

definition build :: "codec_lib \<Rightarrow> Record list \<Rightarrow> RecordBatchHeader \<Rightarrow> Codec \<Rightarrow> RecordBatch" where
  "build lib recs hdr codec =
     (let span = encode_from 0 recs;
          hdr = hdr \<lparr> record_count := sint (of_nat (length recs) :: 32 word) \<rparr>;
          plain = \<lparr> header = hdr \<lparr> attrs := attrs_with_codec (attrs hdr) CodecNone \<rparr>, records = span \<rparr>
      in if codec \<noteq> CodecNone \<and> codec_available lib codec then
           case compress lib codec span of
             Inr compressed \<Rightarrow>
               \<lparr> header = hdr \<lparr> attrs := attrs_with_codec (attrs hdr) codec \<rparr>, records = compressed \<rparr>
           | Inl _ \<Rightarrow> plain
         else plain)"


section \<open>Control records\<close>

definition kTransactionalAttr :: "16 word" where "kTransactionalAttr = 0x0010"
definition kControlAttr :: "16 word" where "kControlAttr = 0x0020"

definition is_transactional :: "16 word \<Rightarrow> bool" where
  "is_transactional a \<longleftrightarrow> a AND kTransactionalAttr \<noteq> 0"

definition is_control :: "16 word \<Rightarrow> bool" where
  "is_control a \<longleftrightarrow> a AND kControlAttr \<noteq> 0"

definition attrs_with_transactional :: "16 word \<Rightarrow> bool \<Rightarrow> 16 word" where
  "attrs_with_transactional a on =
     (if on then a OR kTransactionalAttr else a AND NOT kTransactionalAttr)"

definition attrs_with_control :: "16 word \<Rightarrow> bool \<Rightarrow> 16 word" where
  "attrs_with_control a on = (if on then a OR kControlAttr else a AND NOT kControlAttr)"

datatype ControlRecordType = Abort | Commit

fun control_type_code :: "ControlRecordType \<Rightarrow> int" where
  "control_type_code Abort = 0"
| "control_type_code Commit = 1"

record EndTxnMarker =
  marker_type :: ControlRecordType
  coordinator_epoch :: int
  marker_version :: int

definition kControlRecordVersion :: int where "kControlRecordVersion = 0"
definition kControlKeySize :: nat where "kControlKeySize = 4"
definition kControlValueSize :: nat where "kControlValueSize = 6"

definition is_known_type :: "int \<Rightarrow> bool" where
  "is_known_type t \<longleftrightarrow> t = control_type_code Abort \<or> t = control_type_code Commit"

definition encode_control_key :: "EndTxnMarker \<Rightarrow> bytes" where
  "encode_control_key m =
     store_le_i16 (marker_version m) @ store_le_i16 (control_type_code (marker_type m))"

definition encode_control_value :: "EndTxnMarker \<Rightarrow> bytes" where
  "encode_control_value m =
     store_le_i16 (marker_version m) @ store_le_i32 (coordinator_epoch m)"

definition decode_end_txn_marker :: "bytes \<Rightarrow> bytes \<Rightarrow> EndTxnMarker expected" where
  "decode_end_txn_marker k v =
     (if length k < kControlKeySize then Inl Corrupt
      else if length v < kControlValueSize then Inl Corrupt
      else let key_version = load_le_i16 k;
               t = load_le_i16 (drop 2 k);
               value_version = load_le_i16 v;
               epoch = load_le_i32 (drop 2 v) in
      if key_version \<noteq> value_version then Inl Corrupt
      else if key_version \<noteq> kControlRecordVersion then Inl Unsupported
      else if \<not> is_known_type t then Inl Corrupt
      else Inr \<lparr> marker_type = (if t = control_type_code Abort then Abort else Commit),
                 coordinator_epoch = epoch, marker_version = key_version \<rparr>)"

definition empty_record :: Record where
  "empty_record = \<lparr> rec_key = None, rec_value = None, rec_headers = [], timestamp_delta = 0,
     rec_offset = 0 \<rparr>"

definition build_control_batch :: "codec_lib \<Rightarrow> EndTxnMarker \<Rightarrow> int \<Rightarrow> int \<Rightarrow> RecordBatch" where
  "build_control_batch lib marker pid epoch =
     build lib
       [empty_record \<lparr> rec_key := Some (encode_control_key marker),
          rec_value := Some (encode_control_value marker) \<rparr>]
       (default_header \<lparr> attrs := attrs_with_control (attrs_with_transactional 0 True) True,
          producer_id := pid, producer_epoch := epoch, base_sequence := -1 \<rparr>)
       CodecNone"

definition parse_control_batch :: "codec_lib \<Rightarrow> RecordBatch \<Rightarrow> EndTxnMarker expected" where
  "parse_control_batch lib batch =
     (if \<not> is_control (attrs (header batch)) then Inl InvalidArgument
      else bindE (decode_records lib batch kMaxRecordBytes) (\<lambda>recs.
      if length recs \<noteq> 1 then Inl InvalidArgument
      else let r = hd recs in
      case (rec_key r, rec_value r) of
        (Some k, Some v) \<Rightarrow> decode_end_txn_marker k v
      | _ \<Rightarrow> Inl InvalidArgument))"


section \<open>Reading back what was written\<close>

abbreviation short :: "bytes \<Rightarrow> bool" where
  "short bs \<equiv> int (length bs) < 2 ^ 63"

lemma get_put_zig [simp, roundtrip]: "fits_i64 v \<Longrightarrow> get_zig (put_zig v @ r) = Inr (v, r)"
  by (simp add: get_zig_def put_zig_def)

interpretation zig: wire_format put_zig get_zig "\<lambda>v. fits_i64 v"
  by unfold_locales simp

lemma get_put_nullable [simp, roundtrip]:
  "pred_option short f \<Longrightarrow> get_nullable (put_nullable f @ r) = Inr (f, r)"
  by (cases f) (simp_all add: get_nullable_def put_nullable_def)

interpretation nullable: wire_format put_nullable get_nullable "pred_option short"
  by unfold_locales simp

definition wf_record_header :: "RecordHeader \<Rightarrow> bool" where
  "wf_record_header h \<longleftrightarrow> short (hdr_key h) \<and> pred_option short (hdr_value h)"

interpretation record_header: wire_format encode_record_header decode_record_header wf_record_header
  by unfold_locales
    (simp add: encode_record_header_def decode_record_header_def wf_record_header_def)

text \<open>
  A record can be written when its number of headers is within the limit of the decoder
  and its body is shorter than a signed 64-bit length can say, which bounds every field.
\<close>

definition wf_record :: "Record \<Rightarrow> bool" where
  "wf_record r \<longleftrightarrow> fits_i64 (timestamp_delta r) \<and>
     pred_option short (rec_key r) \<and> pred_option short (rec_value r) \<and>
     int (length (rec_headers r)) \<le> kMaxHeadersPerRecord \<and>
     list_all wf_record_header (rec_headers r) \<and>
     (\<forall>d. fits_i64 d \<longrightarrow> short (encode_record_body r d))"

lemma decode_encode_record [roundtrip]:
  assumes "wf_record r" "fits_i64 d"
  shows "decode_record base (encode_record r d @ rest) = Inr (r \<lparr> rec_offset := base + d \<rparr>, rest)"
proof -
  have headers: "parse_n decode_record_header (length (rec_headers r))
      (concat (map encode_record_header (rec_headers r))) = Inr (rec_headers r, [])"
    using assms(1) record_header.parse_n_concat [of "rec_headers r" "[]"]
    by (simp add: wf_record_def list_all_iff)
  let ?body = "encode_record_body r d"
  have "short ?body" using assms by (simp add: wf_record_def)
  then have len: "get_zig (encode_record r d @ rest) = Inr (int (length ?body), ?body @ rest)"
    by (simp add: encode_record_def Let_def)
  have attributes: "take_bytes Corrupt (Suc 0) ?body =
      Inr ([0], put_zig (timestamp_delta r) @ put_zig d @
        put_nullable (rec_key r) @ put_nullable (rec_value r) @
        put_zig (int (length (rec_headers r))) @ concat (map encode_record_header (rec_headers r)))"
    by (simp add: encode_record_body_def take_bytes_def)
  have "fits_i64 (timestamp_delta r)" "pred_option short (rec_key r)" "pred_option short (rec_value r)"
    "int (length (rec_headers r)) \<le> 10000"
    using assms(1) by (simp_all add: wf_record_def kMaxHeadersPerRecord_def)
  with assms(2) headers show ?thesis
    by (simp add: decode_record_def len attributes kMaxHeadersPerRecord_def)
qed

fun number_from :: "int \<Rightarrow> Record list \<Rightarrow> Record list" where
  "number_from n [] = []"
| "number_from n (r # rs) = r \<lparr> rec_offset := n \<rparr> # number_from (n + 1) rs"

lemma parse_encode_from:
  "list_all wf_record rs \<Longrightarrow> 0 \<le> d \<Longrightarrow> d + int (length rs) < 2 ^ 63 \<Longrightarrow>
   parse_n (decode_record base) (length rs) (encode_from d rs @ rest) =
     Inr (number_from (base + d) rs, rest)"
proof (induction rs arbitrary: d)
  case (Cons r rs)
  from Cons.IH [of "d + 1"] Cons.prems show ?case
    by (simp add: decode_encode_record add.assoc)
qed simp

lemma load_store_le_32 [simp]: "load_le (store_le (w :: 32 word)) = w"
  using load_store_le_word(3) [of w "[]"] by simp

lemma unat_of_nat_32: "n \<le> 2 ^ 32 - 1 \<Longrightarrow> unat (of_nat n :: 32 word) = n"
  by (simp add: unsigned_of_nat take_bit_nat_eq_self)


lemma sint_of_nat_32: "n < 2 ^ 31 \<Longrightarrow> sint (of_nat n :: 32 word) = int n"
  by (simp add: signed_of_nat signed_take_bit_int_eq_self)

lemma sint_of_nat_32_nonneg:
  assumes "n \<le> 2 ^ 32 - 1" "0 \<le> sint (of_nat n :: 32 word)"
  shows "n < 2 ^ 31"
proof (rule ccontr)
  assume "\<not> n < 2 ^ 31"
  then have "n div 2 ^ 31 = 1" using assms(1) by (intro div_nat_eqI) simp_all
  then have "int n div 2 ^ 31 = 1"
    by (metis of_nat_1 of_nat_numeral of_nat_power zdiv_int)
  then have "bit (int n) 31" by (simp add: bit_iff_odd)
  with assms(2) show False by (simp add: signed_of_nat signed_take_bit_nonnegative_iff)
qed

lemma decompress_compress:
  assumes "lib_ok lib" "compress lib codec input = Inr c" "length input \<le> max_output"
  shows "decompress lib codec c max_output = Inr input"
proof (cases codec)
  case Lz4
  let ?w = "of_nat (length input) :: 32 word"
  let ?bound = "LZ4_compressBound lib (sint ?w)"
  from assms(2) Lz4 obtain written where w: "lz4_compiled lib" "length input \<le> 2 ^ 32 - 1" "0 < ?bound"
    "LZ4_compress_default lib input ?bound = Some written" "c = store_le ?w @ written"
    by (auto simp: compress_def Let_def split: if_splits option.splits)
  have un: "unat ?w = length input" using w(2) by (rule unat_of_nat_32)
  have "0 \<le> sint ?w" using assms(1) w(3) unfolding lib_ok_def by blast
  then have "length input \<le> 2 ^ 31 - 1" using sint_of_nat_32_nonneg [OF w(2)] by simp
  moreover have "length written \<le> 2 ^ 31 - 1"
  proof -
    have "int (length written) \<le> ?bound" "?bound < 2 ^ 31"
      using assms(1) w(4) unfolding lib_ok_def by blast+
    then show ?thesis by simp
  qed
  moreover have "LZ4_decompress_safe lib written (length input) = Some input"
    using assms(1) w(4) unfolding lib_ok_def by blast
  ultimately show ?thesis
    using Lz4 w assms(3) un by (simp add: decompress_def kSizePrefix_def)
next
  case Zstd
  let ?w = "of_nat (length input) :: 32 word"
  from assms(2) Zstd obtain written where w: "zstd_compiled lib" "length input \<le> 2 ^ 32 - 1"
    "ZSTD_compress lib input (ZSTD_compressBound lib (length input)) = Some written"
    "c = store_le ?w @ written"
    by (auto simp: compress_def Let_def split: if_splits option.splits)
  have "unat ?w = length input" using w(2) by (rule unat_of_nat_32)
  moreover have "ZSTD_decompress lib written (length input) = Some input"
    using assms(1) w(3) unfolding lib_ok_def by blast
  ultimately show ?thesis using Zstd w assms(3) by (simp add: decompress_def kSizePrefix_def)
qed (use assms(2) in \<open>auto simp: compress_def decompress_def Let_def split: if_splits\<close>)

lemma codec_from_attrs_with [simp]: "codec_from_attrs (attrs_with_codec a codec) = codec"
proof -
  have "attrs_with_codec a codec AND kCodecMask = codec_bits codec"
    by (cases codec) (auto intro!: bit_word_eqI simp: attrs_with_codec_def kCodecMask_def bit_simps)
  then show ?thesis by (cases codec) (simp_all add: codec_from_attrs_def Let_def)
qed

lemma decode_records_build:
  assumes "lib_ok lib" "list_all wf_record recs" "length recs < 2 ^ 31"
    and "length (encode_from 0 recs) \<le> max_decompressed"
  shows "decode_records lib (build lib recs hdr codec) max_decompressed =
         Inr (number_from (base_offset hdr) recs)"
proof -
  let ?span = "encode_from 0 recs"
  have count: "sint (of_nat (length recs) :: 32 word) = int (length recs)"
    using assms(3) by (simp add: sint_of_nat_32)
  have parse: "parse_n (decode_record (base_offset hdr)) (length recs) ?span =
      Inr (number_from (base_offset hdr) recs, [])"
    using parse_encode_from [of recs 0 "base_offset hdr" "[]"] assms(2,3) by simp
  show ?thesis
    using assms(4) parse decompress_compress [OF assms(1), of codec ?span]
    by (auto simp: build_def decode_records_def Let_def count split: sum.splits)
qed


text \<open>The three groups of bits of \<open>attrs\<close> do not disturb each other.\<close>

lemma is_control_bit: "is_control x \<longleftrightarrow> bit x 5"
  using and_exp_eq_0_iff_not_bit [of x 5] by (simp add: is_control_def kControlAttr_def)

lemma is_transactional_bit: "is_transactional x \<longleftrightarrow> bit x 4"
  using and_exp_eq_0_iff_not_bit [of x 4] by (simp add: is_transactional_def kTransactionalAttr_def)

lemma bit_attr_masks:
  "bit kControlAttr n \<longleftrightarrow> n = 5" "bit kTransactionalAttr n \<longleftrightarrow> n = 4"
  "bit kCodecMask n \<longleftrightarrow> n < 2"
proof -
  have m: "kControlAttr = 2 ^ 5" "kTransactionalAttr = 2 ^ 4" "kCodecMask = mask 2"
    by (simp_all add: kControlAttr_def kTransactionalAttr_def kCodecMask_def mask_eq_exp_minus_1)
  show "bit kControlAttr n \<longleftrightarrow> n = 5" "bit kTransactionalAttr n \<longleftrightarrow> n = 4"
    "bit kCodecMask n \<longleftrightarrow> n < 2"
    unfolding m bit_exp_iff bit_mask_iff by auto
qed

lemma control_attrs [simp]:
  "is_control (attrs_with_control a on) \<longleftrightarrow> on"
  "is_transactional (attrs_with_control a on) \<longleftrightarrow> is_transactional a"
  "is_transactional (attrs_with_transactional a on) \<longleftrightarrow> on"
  "is_control (attrs_with_transactional a on) \<longleftrightarrow> is_control a"
  "is_control (attrs_with_codec a codec) \<longleftrightarrow> is_control a"
  "is_transactional (attrs_with_codec a codec) \<longleftrightarrow> is_transactional a"
  by (auto simp: is_control_bit is_transactional_bit attrs_with_control_def
      attrs_with_transactional_def attrs_with_codec_def bit_simps bit_attr_masks)


lemma length_put_varint_le_10: "length (put_varint v) \<le> 10"
proof -
  have "unat v < 2 ^ 64" using unsigned_less [of v, where 'a = nat] by simp
  also have "\<dots> < 2 ^ (7 * 10)" by simp
  finally show ?thesis by (intro length_put_varint_le) simp_all
qed

lemma length_put_zig_le: "length (put_zig v) \<le> 10"
  by (simp add: put_zig_def length_put_varint_le_10)

lemma length_put_nullable_le:
  "length (put_nullable f) \<le> 10 + (case f of None \<Rightarrow> 0 | Some bs \<Rightarrow> length bs)"
  by (cases f) (simp_all add: put_nullable_def length_put_zig_le)

lemma wf_record_small:
  assumes "rec_headers r = []" "fits_i64 (timestamp_delta r)"
    and "length k \<le> 1000" "length v \<le> 1000" "rec_key r = Some k" "rec_value r = Some v"
  shows "wf_record r"
proof -
  have "short (encode_record_body r d)" for d
    using length_put_zig_le [of "timestamp_delta r"] length_put_zig_le [of d]
      length_put_nullable_le [of "rec_key r"] length_put_nullable_le [of "rec_value r"]
      length_put_zig_le [of 0] assms
    by (simp add: encode_record_body_def)
  with assms show ?thesis by (simp add: wf_record_def kMaxHeadersPerRecord_def)
qed

text \<open>No compression library is needed for control batches: the blob is stored plain.\<close>

lemma decode_records_plain:
  assumes "list_all wf_record recs" "length recs < 2 ^ 31"
  shows "decode_records lib (build lib recs hdr CodecNone) max_decompressed =
         Inr (number_from (base_offset hdr) recs)"
proof -
  have "parse_n (decode_record (base_offset hdr)) (length recs) (encode_from 0 recs) =
      Inr (number_from (base_offset hdr) recs, [])"
    using parse_encode_from [of recs 0 "base_offset hdr" "[]"] assms by simp
  then show ?thesis
    using assms(2) by (simp add: build_def decode_records_def Let_def sint_of_nat_32)
qed

lemma decode_end_txn_marker_encode:
  assumes "fits_i32 (coordinator_epoch m)" "fits_i16 (marker_version m)"
  shows "decode_end_txn_marker (encode_control_key m) (encode_control_value m) =
     (if marker_version m = kControlRecordVersion then Inr m else Inl Unsupported)"
proof -
  have "load_le_i16 (store_le_i16 c) = c" if "fits_i16 c" for c
    using load_store_le_int(1) [OF that, of "[]"] by simp
  moreover have "load_le_i32 (store_le_i32 c) = c" if "fits_i32 c" for c
    using load_store_le_int(2) [OF that, of "[]"] by simp
  moreover have "fits_i16 (control_type_code t)" for t by (cases t) simp_all
  ultimately show ?thesis
    using assms by (cases m; cases "marker_type m")
      (simp_all add: decode_end_txn_marker_def encode_control_key_def encode_control_value_def
        kControlKeySize_def kControlValueSize_def is_known_type_def Let_def)
qed

lemma parse_build_control_batch:
  assumes "fits_i32 (coordinator_epoch m)" "fits_i16 (marker_version m)"
  shows "parse_control_batch lib (build_control_batch lib m pid epoch) =
     (if marker_version m = kControlRecordVersion then Inr m else Inl Unsupported)"
proof -
  let ?r = "empty_record \<lparr> rec_key := Some (encode_control_key m),
      rec_value := Some (encode_control_value m) \<rparr>"
  have "wf_record ?r"
    by (rule wf_record_small)
      (simp_all add: empty_record_def encode_control_key_def encode_control_value_def)
  then have dec: "decode_records lib (build_control_batch lib m pid epoch) kMaxRecordBytes =
      Inr (number_from 0 [?r])"
    using decode_records_plain [of "[?r]"]
    by (simp add: build_control_batch_def default_header_def)
  have "is_control (attrs (header (build_control_batch lib m pid epoch)))"
    by (simp add: build_control_batch_def build_def Let_def)
  then show ?thesis
    using decode_end_txn_marker_encode [OF assms] dec
    by (simp add: parse_control_batch_def Let_def)
qed

section \<open>Properties\<close>


definition sample_lib :: codec_lib where
  "sample_lib = \<lparr> lz4_compiled = True, zstd_compiled = False,
     LZ4_compressBound = (\<lambda>n. if 0 \<le> n \<and> n < 0x7E000000 then n + 1 else 0),
     LZ4_compress_default =
       (\<lambda>input cap. if int (length input) < cap then Some (7 # input) else None),
     LZ4_decompress_safe =
       (\<lambda>c n. case c of [] \<Rightarrow> None | b # bs \<Rightarrow> if length bs \<le> n then Some bs else None),
     ZSTD_compressBound = (\<lambda>n. n), ZSTD_compress = (\<lambda>input cap. None),
     ZSTD_decompress = (\<lambda>c n. None) \<rparr>"

lemma sample_lib_ok: "lib_ok sample_lib"
  by (auto simp: lib_ok_def sample_lib_def split: if_splits)

definition sample_record :: Record where
  "sample_record = empty_record \<lparr> rec_key := Some [1], rec_value := Some [2, 3] \<rparr>"


text \<open>
  A transaction marker survives its batch: parsing the control batch built for a
  marker returns this marker when its version is the supported one, and
  \<open>Unsupported\<close> otherwise, whatever the producer.
\<close>

theorem control_batch_roundtrip:
  assumes "fits_i32 (coordinator_epoch m)" "fits_i16 (marker_version m)"
  shows "parse_control_batch lib (build_control_batch lib m pid epoch) =
     (if marker_version m = kControlRecordVersion then Inr m else Inl Unsupported)"
  using assms by (rule parse_build_control_batch)

theorem control_batch_roundtrip_witness:
  "parse_control_batch sample_lib (build_control_batch sample_lib
     \<lparr> marker_type = Commit, coordinator_epoch = 3, marker_version = 0 \<rparr> 17 2) =
   Inr \<lparr> marker_type = Commit, coordinator_epoch = 3, marker_version = 0 \<rparr>"
  using control_batch_roundtrip
    [of "\<lparr> marker_type = Commit, coordinator_epoch = 3, marker_version = 0 \<rparr>" sample_lib 17 2]
  by (simp add: kControlRecordVersion_def)

end
