(* ===== verification/File_Io.thy ===== *)
theory File_Io
  imports Prelude
begin

text \<open>
  Files as the storage layer sees them (\<^verbatim>\<open>src/src/io/file.hpp\<close>, POSIX part of
  \<^verbatim>\<open>file.cpp\<close>).  A file is its content together with what the operating system will do:
  \<open>sched\<close> lists the outcomes of the coming writing calls (\<^verbatim>\<open>pwrite\<close>, \<^verbatim>\<open>ftruncate\<close>, \<^verbatim>\<open>fsync\<close>),
  each of which may be partial, interrupted or fail; once the list is used up every
  call succeeds.  \<open>bad\<close> marks the positions a read cannot deliver.
\<close>

datatype os_result = Done nat | Eintr | Failed

record File =
  content :: bytes
  sched :: "os_result list"
  bad :: "nat \<Rightarrow> bool"
  stat_bad :: bool

definition empty_file :: File where
  "empty_file = \<lparr> content = [], sched = [], bad = (\<lambda>_. False), stat_bad = False \<rparr>"

text \<open>The effect of one \<^verbatim>\<open>pwrite\<close> of \<open>d\<close> at \<open>off\<close>; a gap before \<open>off\<close> reads as zeros.\<close>

definition overwrite :: "bytes \<Rightarrow> nat \<Rightarrow> bytes \<Rightarrow> bytes" where
  "overwrite c off d =
     (if d = [] then c
      else take off c @ replicate (off - length c) 0 @ d @ drop (off + length d) c)"

fun write_loop ::
  "os_result list \<Rightarrow> bytes \<Rightarrow> nat \<Rightarrow> bytes \<Rightarrow> bytes \<times> os_result list \<times> unit expected" where
  "write_loop sch c off d =
     (if d = [] then (c, sch, Inr ())
      else case sch of
        [] \<Rightarrow> (overwrite c off d, [], Inr ())
      | Done n # sch \<Rightarrow> write_loop sch (overwrite c off (take n d)) (off + min n (length d)) (drop n d)
      | Eintr # sch \<Rightarrow> write_loop sch c off d
      | Failed # sch \<Rightarrow> (c, sch, Inl IoError))"

declare write_loop.simps [simp del]

definition write_at :: "File \<Rightarrow> bytes \<Rightarrow> nat \<Rightarrow> File \<times> unit expected" where
  "write_at f data off =
     (case write_loop (sched f) (content f) off data of
        (c, sch, r) \<Rightarrow> (f \<lparr> content := c, sched := sch \<rparr>, r))"

fun retry :: "os_result list \<Rightarrow> os_result list \<times> unit expected" where
  "retry [] = ([], Inr ())"
| "retry (Done n # sch) = (sch, Inr ())"
| "retry (Eintr # sch) = retry sch"
| "retry (Failed # sch) = (sch, Inl IoError)"

definition sync_file :: "File \<Rightarrow> File \<times> unit expected" where
  "sync_file f = (case retry (sched f) of (sch, r) \<Rightarrow> (f \<lparr> sched := sch \<rparr>, r))"

definition truncate_file :: "File \<Rightarrow> nat \<Rightarrow> File \<times> unit expected" where
  "truncate_file f len =
     (case retry (sched f) of
        (sch, Inl e) \<Rightarrow> (f \<lparr> sched := sch \<rparr>, Inl e)
      | (sch, Inr u) \<Rightarrow>
          (f \<lparr> content := take len (content f) @ replicate (len - length (content f)) 0,
               sched := sch \<rparr>, Inr u))"

definition file_size :: "File \<Rightarrow> nat expected" where
  "file_size f = (if stat_bad f then Inl IoError else Inr (length (content f)))"

text \<open>
  The loop of \<^verbatim>\<open>read_at\<close> repeats short and interrupted reads until the request is served or
  the end of the file is reached, so it returns all the bytes there are or an error.
\<close>

definition read_at :: "File \<Rightarrow> nat \<Rightarrow> nat \<Rightarrow> bytes expected" where
  "read_at f n off =
     (if list_ex (bad f) [off..<min (off + n) (length (content f))] then Inl IoError
      else Inr (take n (drop off (content f))))"

definition readable :: "File \<Rightarrow> bool" where
  "readable f \<longleftrightarrow> (\<forall>p. \<not> bad f p) \<and> \<not> stat_bad f"


section \<open>What the operations guarantee\<close>

lemma overwrite_Nil [simp]: "overwrite c off [] = c"
  by (simp add: overwrite_def)

lemma overwrite_append:
  "overwrite (overwrite c off a) (off + length a) b = overwrite c off (a @ b)"
  by (cases "a = []"; cases "b = []") (auto simp: overwrite_def min_def ac_simps)

lemma overwrite_at_end: "length c = off \<Longrightarrow> overwrite c off d = c @ d"
  by (simp add: overwrite_def)

lemma take_overwrite_before: "n \<le> off \<Longrightarrow> n \<le> length c \<Longrightarrow> take n (overwrite c off d) = take n c"
  by (simp add: overwrite_def min_def)

lemma take_overwrite:
  "off \<le> length c \<Longrightarrow> take (off + length d) (overwrite c off d) = take off c @ d"
  by (simp add: overwrite_def)

lemma length_overwrite:
  "d \<noteq> [] \<Longrightarrow> length (overwrite c off d) = max (length c) (off + length d)"
  by (auto simp: overwrite_def)

lemma length_overwrite_bounds:
  "length (overwrite c off d) \<le> max (length c) (off + length d)"
  "length c \<le> length (overwrite c off d)"
  by (cases "d = []"; simp add: length_overwrite)+

lemma write_loop_prefix:
  "write_loop sch c off d = (c', sch', r) \<Longrightarrow>
     (\<exists>k \<le> length d. c' = overwrite c off (take k d) \<and> (r = Inr () \<longrightarrow> k = length d)) \<and>
     (r = Inr () \<or> r = Inl IoError)"
proof (induction sch c off d arbitrary: c' sch' r rule: write_loop.induct)
  case (1 sch c off d)
  show ?case
  proof (cases "d = []")
    case False
    show ?thesis
    proof (cases sch)
      case Nil
      with False 1(3) show ?thesis
        by (auto simp: write_loop.simps [of "[]"] intro!: exI [of _ "length d"])
    next
      case (Cons o' sch1)
      show ?thesis
      proof (cases o')
        case (Done n)
        have "write_loop sch1 (overwrite c off (take n d)) (off + min n (length d)) (drop n d) = (c', sch', r)"
          using False Cons Done 1(3) by (simp add: write_loop.simps [of "Done n # sch1"])
        from 1(1) [OF False Cons Done this]
        obtain k where k: "k \<le> length (drop n d)" "r = Inr () \<longrightarrow> k = length (drop n d)"
          and c': "c' = overwrite (overwrite c off (take n d)) (off + min n (length d)) (take k (drop n d))"
          and r: "r = Inr () \<or> r = Inl IoError" by blast
        have "c' = overwrite c off (take n d @ take k (drop n d))"
          using c' overwrite_append [of c off "take n d"] by (simp add: min.commute)
        also have "take n d @ take k (drop n d) = take (min n (length d) + k) d"
          by (simp add: take_add min_def)
        finally have "c' = overwrite c off (take (min n (length d) + k) d)" .
        then show ?thesis using k r by (intro conjI exI [of _ "min n (length d) + k"]) auto
      next
        case Eintr
        then have "write_loop sch1 c off d = (c', sch', r)"
          using False Cons 1(3) by (simp add: write_loop.simps [of "Eintr # sch1"])
        from 1(2) [OF False Cons Eintr this] show ?thesis .
      next
        case Failed
        then show ?thesis
          using False Cons 1(3) by (auto simp: write_loop.simps [of "Failed # sch1"] intro!: exI [of _ 0])
      qed
    qed
  qed (use 1(3) in \<open>auto simp: write_loop.simps [of sch]\<close>)
qed

lemma write_at_cases:
  assumes "write_at f data off = (f', r)"
  obtains k where "k \<le> length data" "content f' = overwrite (content f) off (take k data)"
    "r = Inr () \<Longrightarrow> k = length data" "r = Inr () \<or> r = Inl IoError"
    "bad f' = bad f" "stat_bad f' = stat_bad f"
proof -
  obtain c sch r0 where w: "write_loop (sched f) (content f) off data = (c, sch, r0)"
    by (metis prod_cases3)
  with assms have "f' = f \<lparr> content := c, sched := sch \<rparr>" "r = r0" by (simp_all add: write_at_def)
  with write_loop_prefix [OF w] that show thesis by auto
qed

lemma write_at_healthy:
  "sched f = [] \<Longrightarrow> write_at f data off = (f \<lparr> content := overwrite (content f) off data \<rparr>, Inr ())"
  by (cases "data = []") (simp_all add: write_at_def write_loop.simps)

lemma sync_file_content [simp]:
  "content (fst (sync_file f)) = content f" "bad (fst (sync_file f)) = bad f"
  "stat_bad (fst (sync_file f)) = stat_bad f"
  by (simp_all add: sync_file_def split: prod.split)

lemma sync_file_healthy: "sched f = [] \<Longrightarrow> sync_file f = (f, Inr ())"
  by (cases f) (simp add: sync_file_def)

lemma truncate_file_frame [simp]:
  "bad (fst (truncate_file f n)) = bad f" "stat_bad (fst (truncate_file f n)) = stat_bad f"
  by (auto simp: truncate_file_def split: prod.split sum.split)

lemma truncate_file_ok:
  "truncate_file f n = (f', Inr u) \<Longrightarrow> n \<le> length (content f) \<Longrightarrow> content f' = take n (content f)"
  by (auto simp: truncate_file_def split: prod.splits sum.splits)

lemma truncate_file_err:
  "truncate_file f n = (f', Inl e) \<Longrightarrow> content f' = content f"
  by (auto simp: truncate_file_def split: prod.splits sum.splits)

lemma truncate_file_healthy:
  "sched f = [] \<Longrightarrow> n \<le> length (content f) \<Longrightarrow>
   truncate_file f n = (f \<lparr> content := take n (content f) \<rparr>, Inr ())"
  by (cases f) (simp add: truncate_file_def)

lemma read_at_readable: "readable f \<Longrightarrow> read_at f n off = Inr (take n (drop off (content f)))"
  by (simp add: read_at_def readable_def list_ex_iff)

lemma file_size_readable: "readable f \<Longrightarrow> file_size f = Inr (length (content f))"
  by (simp add: file_size_def readable_def)

end
