(* ===== verification/Sparse_Index.thy ===== *)
theory Sparse_Index
  imports Byte_Codec File_Io
begin

text \<open>
  The sparse index of a segment (\<^verbatim>\<open>src/src/storage/index.hpp\<close>, \<^verbatim>\<open>index.cpp\<close>): anchors
  from relative offsets to positions of the log file, kept in memory and appended to
  the index file by \<open>flush\<close>.  The lemmas give the meaning of \<open>index_floor\<close> (the greatest
  anchor not above the target) and show that a flushed index is read back by \<open>index_open\<close>.
\<close>


section \<open>Index\<close>

record IndexEntry =
  relative_offset :: "32 word"
  file_position :: "32 word"

record SparseIndex =
  idx_file :: File
  idx_base :: int
  interval :: nat
  bytes_since :: nat
  entries :: "IndexEntry list"
  flushed :: nat

definition kEntrySize :: nat where
  "kEntrySize = 8"

definition encode_entry :: "IndexEntry \<Rightarrow> bytes" where
  "encode_entry e = store_le (relative_offset e) @ store_le (file_position e)"

definition decode_entry :: "bytes \<Rightarrow> IndexEntry" where
  "decode_entry inp = \<lparr> relative_offset = load_le inp, file_position = load_le (drop 4 inp) \<rparr>"

text \<open>The loop over the entries of the file, with the entries read so far in \<open>acc\<close>.\<close>

fun load_entries :: "nat \<Rightarrow> bytes \<Rightarrow> IndexEntry list \<Rightarrow> IndexEntry list expected" where
  "load_entries 0 raw acc = Inr acc"
| "load_entries (Suc n) raw acc =
     (let e = decode_entry (take kEntrySize raw) in
      if acc \<noteq> [] \<and> relative_offset e \<le> relative_offset (last acc) then Inl Corrupt
      else load_entries n (drop kEntrySize raw) (acc @ [e]))"

definition index_open :: "File expected \<Rightarrow> int \<Rightarrow> nat \<Rightarrow> SparseIndex expected" where
  "index_open opened base index_interval_bytes =
     bindE opened (\<lambda>f.
     bindE (file_size f) (\<lambda>size.
     let count = size div kEntrySize in
     bindE
       (if count > 0 then
          bindE (read_at f (count * kEntrySize) 0) (\<lambda>raw.
          if length raw \<noteq> count * kEntrySize then Inl Corrupt else load_entries count raw [])
        else Inr []) (\<lambda>es.
     Inr \<lparr> idx_file = f, idx_base = base, interval = index_interval_bytes, bytes_since = 0,
           entries = es, flushed = length es \<rparr>)))"

definition maybe_append :: "SparseIndex \<Rightarrow> int \<Rightarrow> nat \<Rightarrow> nat \<Rightarrow> SparseIndex" where
  "maybe_append ix offset pos batch_len =
     (let ix = (if bytes_since ix \<ge> interval ix then
                  ix \<lparr> entries := entries ix @ [\<lparr> relative_offset = word_of_int (offset - idx_base ix),
                                                 file_position = of_nat pos \<rparr>],
                       bytes_since := 0 \<rparr>
                else ix)
      in ix \<lparr> bytes_since := bytes_since ix + batch_len \<rparr>)"

definition no_entry :: IndexEntry where
  "no_entry = \<lparr> relative_offset = 0, file_position = 0 \<rparr>"

text \<open>
  \<^verbatim>\<open>std::ranges::upper_bound\<close> on a sorted range: the number of entries not above the key.
\<close>

definition upper_bound :: "('a \<Rightarrow> 'k::linorder) \<Rightarrow> 'a list \<Rightarrow> 'k \<Rightarrow> nat" where
  "upper_bound key xs k = length (takeWhile (\<lambda>x. key x \<le> k) xs)"

definition index_floor :: "SparseIndex \<Rightarrow> int \<Rightarrow> IndexEntry" where
  "index_floor ix target =
     (if target < idx_base ix \<or> entries ix = [] then no_entry
      else let rel = word_of_int (min (target - idx_base ix) (2 ^ 32 - 1)) :: 32 word;
               it = upper_bound relative_offset (entries ix) rel in
           if it = 0 then no_entry else entries ix ! (it - 1))"

definition index_flush :: "SparseIndex \<Rightarrow> SparseIndex \<times> unit expected" where
  "index_flush ix =
     (let write = (if flushed ix < length (entries ix) then
                     case write_at (idx_file ix)
                            (concat (map encode_entry (drop (flushed ix) (entries ix))))
                            (flushed ix * kEntrySize) of
                       (f, Inl e) \<Rightarrow> (ix \<lparr> idx_file := f \<rparr>, Inl e)
                     | (f, Inr u) \<Rightarrow> (ix \<lparr> idx_file := f, flushed := length (entries ix) \<rparr>, Inr u)
                   else (ix, Inr ()))
      in case write of
           (ix, Inl e) \<Rightarrow> (ix, Inl e)
         | (ix, Inr _) \<Rightarrow>
             (case sync_file (idx_file ix) of (f, r) \<Rightarrow> (ix \<lparr> idx_file := f \<rparr>, r)))"

definition index_reset :: "SparseIndex \<Rightarrow> SparseIndex \<times> unit expected" where
  "index_reset ix =
     (case truncate_file (idx_file ix) 0 of
        (f, r) \<Rightarrow> (ix \<lparr> entries := [], bytes_since := 0, flushed := 0, idx_file := f \<rparr>, r))"


section \<open>Entries on disk\<close>

lemma length_encode_entry [simp]: "length (encode_entry e) = 8"
  by (simp add: encode_entry_def)

lemma decode_encode_entry [simp]: "decode_entry (encode_entry e) = e"
proof -
  have "load_le (store_le (w :: 32 word)) = w" for w
    using load_store_le_word(3) [of w "[]"] by simp
  then show ?thesis by (simp add: decode_entry_def encode_entry_def)
qed

abbreviation entries_bytes :: "IndexEntry list \<Rightarrow> bytes" where
  "entries_bytes es \<equiv> concat (map encode_entry es)"

lemma length_entries_bytes [simp]: "length (entries_bytes es) = 8 * length es"
  by (induction es) simp_all

lemma load_entries_ok:
  "sorted_wrt (\<lambda>a b. relative_offset a < relative_offset b) (acc @ es) \<Longrightarrow>
   load_entries (length es) (entries_bytes es @ r) acc = Inr (acc @ es)"
proof (induction es arbitrary: acc)
  case (Cons e es)
  have "relative_offset (last acc) < relative_offset e" if "acc \<noteq> []"
    using Cons.prems last_in_set [OF that] by (auto simp: sorted_wrt_append)
  then have "\<not> (acc \<noteq> [] \<and> relative_offset e \<le> relative_offset (last acc))" by (auto simp: not_le)
  then show ?case
    using Cons.IH [of "acc @ [e]"] Cons.prems by (auto simp: kEntrySize_def)
qed simp

lemma load_entries_sorted:
  "load_entries n raw acc = Inr es \<Longrightarrow>
   sorted_wrt (\<lambda>a b. relative_offset a < relative_offset b) acc \<Longrightarrow>
   sorted_wrt (\<lambda>a b. relative_offset a < relative_offset b) es \<and> length es = length acc + n"
proof (induction n raw acc rule: load_entries.induct)
  case (2 n raw acc)
  let ?e = "decode_entry (take kEntrySize raw)"
  have new: "\<not> (acc \<noteq> [] \<and> relative_offset ?e \<le> relative_offset (last acc))"
    and rest: "load_entries n (drop kEntrySize raw) (acc @ [?e]) = Inr es"
    using 2(2) by (auto simp: Let_def split: if_splits)
  have "relative_offset a < relative_offset ?e" if "a \<in> set acc" for a
  proof -
    have "acc \<noteq> []" using that by auto
    then have "relative_offset a \<le> relative_offset (last acc)"
      using 2(3) that by (cases acc rule: rev_cases) (auto simp: sorted_wrt_append intro: less_imp_le)
    also have "\<dots> < relative_offset ?e" using new \<open>acc \<noteq> []\<close> by simp
    finally show ?thesis .
  qed
  then have "sorted_wrt (\<lambda>a b. relative_offset a < relative_offset b) (acc @ [?e])"
    using 2(3) by (simp add: sorted_wrt_append)
  from 2(1) [OF refl new rest this] show ?case by simp
qed simp


abbreviation index_sorted :: "IndexEntry list \<Rightarrow> bool" where
  "index_sorted es \<equiv> sorted_wrt (\<lambda>a b. relative_offset a < relative_offset b) es"

lemma encode_decode_entry: "8 \<le> length bs \<Longrightarrow> encode_entry (decode_entry (take 8 bs)) = take 8 bs"
proof -
  assume len: "8 \<le> length bs"
  have "take 8 bs = take 4 bs @ take 4 (drop 4 bs)" using take_add [of 4 4 bs] by simp
  then show ?thesis
    using len store_load_le_take [where 'a = 32, of "take 8 bs"]
      store_load_le_take [where 'a = 32, of "drop 4 (take 8 bs)"]
    by (simp add: encode_entry_def decode_entry_def drop_take)
qed

lemma load_entries_bytes:
  "load_entries n raw acc = Inr es \<Longrightarrow> 8 * n \<le> length raw \<Longrightarrow>
   entries_bytes es = entries_bytes acc @ take (8 * n) raw"
proof (induction n raw acc rule: load_entries.induct)
  case (2 n raw acc)
  let ?e = "decode_entry (take 8 raw)"
  have new: "\<not> (acc \<noteq> [] \<and> relative_offset ?e \<le> relative_offset (last acc))"
    and rest: "load_entries n (drop 8 raw) (acc @ [?e]) = Inr es"
    using 2(2) by (auto simp: Let_def kEntrySize_def split: if_splits)
  have "entries_bytes es = entries_bytes (acc @ [?e]) @ take (8 * n) (drop 8 raw)"
    using 2(1) [unfolded kEntrySize_def, OF refl new rest] 2(3) by simp
  also have "\<dots> = entries_bytes acc @ take (8 * Suc n) raw"
    using 2(3) encode_decode_entry [of raw] take_add [of 8 "8 * n" raw] by simp
  finally show ?case .
qed simp

text \<open>
  What an index keeps: its entries are strictly sorted, the flushed ones are at the
  front of the file, and the file holds no whole entry beyond those in memory.
\<close>

definition index_ok :: "SparseIndex \<Rightarrow> bool" where
  "index_ok ix \<longleftrightarrow>
     index_sorted (entries ix) \<and> flushed ix \<le> length (entries ix) \<and>
     8 * flushed ix \<le> length (content (idx_file ix)) \<and>
     take (8 * flushed ix) (content (idx_file ix)) = entries_bytes (take (flushed ix) (entries ix)) \<and>
     length (content (idx_file ix)) < 8 * length (entries ix) + 8"

lemma index_open_ok:
  assumes "index_open opened base n = Inr ix"
  shows "index_ok ix \<and> idx_base ix = base \<and> interval ix = n \<and> bytes_since ix = 0 \<and>
    opened = Inr (idx_file ix) \<and> flushed ix = length (entries ix)"
proof -
  from assms obtain f where f: "opened = Inr f" by (auto simp: index_open_def result_iffs)
  let ?c = "content f" and ?n = "length (content f) div 8"
  have size: "8 * ?n \<le> length ?c" "length ?c < 8 * ?n + 8" by simp_all
  show ?thesis
  proof (cases "?n > 0")
    case False
    then show ?thesis
      using assms f size by (auto simp: index_open_def index_ok_def file_size_def kEntrySize_def split: if_splits)
  next
    case True
    with assms f obtain es where "load_entries ?n (take (?n * 8) ?c) [] = Inr es"
      and ix: "ix = \<lparr> idx_file = f, idx_base = base, interval = n, bytes_since = 0,
             entries = es, flushed = length es \<rparr>"
      by (auto simp: index_open_def file_size_def read_at_def kEntrySize_def Let_def result_iffs split: if_splits)
    then have "index_sorted es" "length es = ?n" "entries_bytes es = take (8 * ?n) ?c"
      using load_entries_sorted [of ?n "take (?n * 8) ?c" "[]" es]
        load_entries_bytes [of ?n "take (?n * 8) ?c" "[]" es] size by (simp_all add: mult.commute)
    then show ?thesis using f ix size by (simp add: index_ok_def)
  qed
qed

lemma maybe_append_ok:
  assumes "index_ok ix"
    and "\<And>e. e \<in> set (entries ix) \<Longrightarrow> relative_offset e < word_of_int (offset - idx_base ix)"
  shows "index_ok (maybe_append ix offset pos n)"
  using assms by (auto simp: index_ok_def maybe_append_def Let_def sorted_wrt_append)

lemma maybe_append_frame [simp]:
  "idx_base (maybe_append ix offset pos n) = idx_base ix"
  "interval (maybe_append ix offset pos n) = interval ix"
  "idx_file (maybe_append ix offset pos n) = idx_file ix"
  "flushed (maybe_append ix offset pos n) = flushed ix"
  by (simp_all add: maybe_append_def Let_def)

lemma set_entries_maybe_append:
  "set (entries (maybe_append ix offset pos n)) \<subseteq> set (entries ix) \<union>
     {\<lparr> relative_offset = word_of_int (offset - idx_base ix), file_position = of_nat pos \<rparr>}"
  by (auto simp: maybe_append_def Let_def)

lemma index_flush_ok:
  assumes "index_ok ix" "index_flush ix = (ix', r)"
  shows "index_ok ix' \<and> entries ix' = entries ix \<and> idx_base ix' = idx_base ix \<and>
    interval ix' = interval ix \<and> bytes_since ix' = bytes_since ix \<and>
    bad (idx_file ix') = bad (idx_file ix) \<and> stat_bad (idx_file ix') = stat_bad (idx_file ix) \<and>
    (r = Inr () \<longrightarrow> flushed ix' = length (entries ix'))"
proof (cases "flushed ix < length (entries ix)")
  case False
  then have "ix' = ix \<lparr> idx_file := fst (sync_file (idx_file ix)) \<rparr>"
    using assms(2) by (auto simp: index_flush_def split: prod.splits)
  with assms(1) False show ?thesis by (auto simp: index_ok_def)
next
  case True
  let ?data = "entries_bytes (drop (flushed ix) (entries ix))" and ?off = "8 * flushed ix"
  obtain f rw where w: "write_at (idx_file ix) ?data ?off = (f, rw)" by fastforce
  from w obtain k where k: "k \<le> length ?data"
    and c: "content f = overwrite (content (idx_file ix)) ?off (take k ?data)"
    and full: "rw = Inr () \<Longrightarrow> k = length ?data" and rw: "rw = Inr () \<or> rw = Inl IoError"
    and fr: "bad f = bad (idx_file ix)" "stat_bad f = stat_bad (idx_file ix)"
    by (rule write_at_cases) blast
  have off: "?off \<le> length (content (idx_file ix))" using assms(1) by (simp add: index_ok_def)
  have "length (content f) \<le> max (length (content (idx_file ix))) (?off + k)"
    using length_overwrite_bounds(1) [of "content (idx_file ix)" ?off "take k ?data"] k by (simp add: c)
  moreover have "?off + k \<le> 8 * length (entries ix)" using k True by simp
  ultimately have len: "length (content f) < 8 * length (entries ix) + 8"
    using assms(1) by (auto simp: index_ok_def)
  have lenge: "length (content (idx_file ix)) \<le> length (content f)"
    by (simp add: c length_overwrite_bounds(2))
  have pre: "take ?off (content f) = take ?off (content (idx_file ix))"
    using off by (simp add: c take_overwrite_before)
  show ?thesis
  proof (cases rw)
    case (Inl e)
    then have "ix' = ix \<lparr> idx_file := f \<rparr>" "r = Inl e"
      using assms(2) True w by (simp_all add: index_flush_def kEntrySize_def mult.commute)
    with assms(1) len lenge pre fr show ?thesis by (auto simp: index_ok_def)
  next
    case (Inr u)
    have "take (8 * length (entries ix)) (content f) = take ?off (content (idx_file ix)) @ ?data"
    proof -
      have "8 * length (entries ix) = ?off + length ?data" using True by simp
      then show ?thesis using take_overwrite [OF off, of ?data] full Inr c by simp
    qed
    also have "\<dots> = entries_bytes (entries ix)"
      using assms(1) by (simp add: index_ok_def flip: concat_append map_append)
    finally have all: "take (8 * length (entries ix)) (content f) = entries_bytes (entries ix)" .
    then have "8 * length (entries ix) \<le> length (content f)"
      by (metis length_entries_bytes length_take min.cobounded1)
    moreover have "ix' = ix \<lparr> idx_file := fst (sync_file f), flushed := length (entries ix) \<rparr>"
      using assms(2) True w Inr by (auto simp: index_flush_def kEntrySize_def mult.commute split: prod.splits)
    ultimately show ?thesis using assms(1) all len fr by (simp add: index_ok_def)
  qed
qed

lemma index_reset_ok:
  assumes "index_reset ix = (ix', Inr u)"
  shows "index_ok ix' \<and> entries ix' = [] \<and> idx_base ix' = idx_base ix \<and> interval ix' = interval ix \<and>
    bytes_since ix' = 0 \<and>
    bad (idx_file ix') = bad (idx_file ix) \<and> stat_bad (idx_file ix') = stat_bad (idx_file ix)"
proof -
  obtain f where f: "truncate_file (idx_file ix) 0 = (f, Inr u)"
    using assms by (auto simp: index_reset_def split: prod.splits)
  then have "content f = []" using truncate_file_ok [OF f] by simp
  with assms f show ?thesis
    using truncate_file_frame [of "idx_file ix" 0] by (auto simp: index_reset_def index_ok_def)
qed


section \<open>The greatest anchor not above the target\<close>

lemma upper_bound_le: "upper_bound key xs k \<le> length xs"
  by (simp add: upper_bound_def length_takeWhile_le)

lemma upper_bound_below: "i < upper_bound key xs k \<Longrightarrow> key (xs ! i) \<le> k"
  unfolding upper_bound_def
  by (metis nth_mem set_takeWhileD takeWhile_nth)

lemma upper_bound_above:
  assumes "sorted_wrt (\<lambda>a b. key a < key b) xs" "upper_bound key xs k \<le> i" "i < length xs"
  shows "k < key (xs ! i)"
proof -
  let ?n = "upper_bound key xs k"
  have n: "?n < length xs" using assms(2,3) by simp
  then have "\<not> key (xs ! ?n) \<le> k"
    using nth_length_takeWhile [of "\<lambda>x. key x \<le> k" xs] by (simp add: upper_bound_def)
  moreover have "key (xs ! ?n) \<le> key (xs ! i)"
  proof (cases "?n = i")
    case False
    with assms(2,3) have "?n < i" by simp
    then show ?thesis using assms(1,3) sorted_wrt_nth_less by fastforce
  qed simp
  ultimately show ?thesis by simp
qed

definition anchor_le :: "SparseIndex \<Rightarrow> int \<Rightarrow> IndexEntry \<Rightarrow> bool" where
  "anchor_le ix target e \<longleftrightarrow> uint (relative_offset e) \<le> target - idx_base ix"

lemma rel_le_iff:
  "0 \<le> d \<Longrightarrow> (w :: 32 word) \<le> word_of_int (min d (2 ^ 32 - 1)) \<longleftrightarrow> uint w \<le> d"
proof -
  assume d: "0 \<le> d"
  have "uint (word_of_int (min d (2 ^ 32 - 1)) :: 32 word) = min d (2 ^ 32 - 1)"
    using d by (simp add: uint_word_of_int_eq take_bit_int_eq_self)
  moreover have "uint w < 2 ^ 32" using uint_lt2p [of w] by simp
  ultimately show ?thesis by (auto simp: word_le_def)
qed

lemma index_floor_spec:
  assumes "index_ok ix"
  shows "(\<forall>e \<in> set (entries ix). \<not> anchor_le ix target e) \<and> index_floor ix target = no_entry \<or>
     index_floor ix target \<in> set (entries ix) \<and> anchor_le ix target (index_floor ix target) \<and>
     (\<forall>e \<in> set (entries ix). anchor_le ix target e \<longrightarrow>
        relative_offset e \<le> relative_offset (index_floor ix target))"
proof (cases "target < idx_base ix \<or> entries ix = []")
  case True
  have "\<not> anchor_le ix target e" if "e \<in> set (entries ix)" for e
  proof
    assume "anchor_le ix target e"
    then have "uint (relative_offset e) \<le> target - idx_base ix" by (simp only: anchor_le_def)
    with uint_ge_0 [of "relative_offset e"] have "0 \<le> target - idx_base ix" by (rule order_trans)
    with True that show False by auto
  qed
  with True show ?thesis by (auto simp: index_floor_def)
next
  case False
  let ?es = "entries ix"
  let ?rel = "word_of_int (min (target - idx_base ix) (2 ^ 32 - 1)) :: 32 word"
  let ?n = "upper_bound relative_offset ?es ?rel"
  have le: "anchor_le ix target e \<longleftrightarrow> relative_offset e \<le> ?rel" for e
    using False rel_le_iff [of "target - idx_base ix" "relative_offset e"] by (simp add: anchor_le_def)
  have sorted: "index_sorted ?es" using assms by (simp add: index_ok_def)
  have above: "i < ?n" if "i < length ?es" "anchor_le ix target (?es ! i)" for i
    using upper_bound_above [OF sorted, of ?rel i] that le by (meson leD leI)
  show ?thesis
  proof (cases "?n = 0")
    case True
    then have "\<not> anchor_le ix target e" if "e \<in> set ?es" for e
      using that above by (metis in_set_conv_nth not_less_zero)
    with True False show ?thesis by (simp add: index_floor_def)
  next
    case n: False
    have fl: "index_floor ix target = ?es ! (?n - 1)" using n False by (simp add: index_floor_def Let_def)
    have lt: "?n - 1 < length ?es" using n upper_bound_le [of relative_offset ?es ?rel] by simp
    have "anchor_le ix target (?es ! (?n - 1))"
      using upper_bound_below [of "?n - 1" relative_offset ?es ?rel] n le by simp
    moreover have "relative_offset e \<le> relative_offset (?es ! (?n - 1))"
      if e: "e \<in> set ?es" "anchor_le ix target e" for e
    proof -
      obtain i where i: "i < length ?es" "e = ?es ! i" using e(1) by (auto simp: in_set_conv_nth)
      with above e(2) have "i \<le> ?n - 1" by (metis Suc_pred' less_Suc_eq_le n neq0_conv)
      then show ?thesis
        using i lt sorted_wrt_nth_less [OF sorted, of i "?n - 1"] by (cases "i = ?n - 1") auto
    qed
    ultimately show ?thesis using fl lt by simp
  qed
qed

section \<open>Anchors as an interface\<close>

text \<open>
  What a segment relies on: every position an index answers with is the start of the
  file or was added for an offset not above the one asked for.  How dense the anchors are
  and which of them is chosen does not matter to the client.
\<close>

locale anchor_index =
  fixes anchors :: "'ix \<Rightarrow> (int \<times> nat) set"
    and add :: "'ix \<Rightarrow> int \<Rightarrow> nat \<Rightarrow> nat \<Rightarrow> 'ix"
    and seek :: "'ix \<Rightarrow> int \<Rightarrow> nat"
    and valid :: "'ix \<Rightarrow> bool"
    and fits :: "'ix \<Rightarrow> int \<Rightarrow> nat \<Rightarrow> bool"
  assumes seek: "valid ix \<Longrightarrow> seek ix t = 0 \<or> (\<exists>o'. o' \<le> t \<and> (o', seek ix t) \<in> anchors ix)"
    and anchors_add: "fits ix o' p \<Longrightarrow> anchors (add ix o' p n) \<subseteq> insert (o', p) (anchors ix)"
begin

text \<open>Anchors that all belong to a set of blocks keep doing so when a block is added.\<close>

lemma anchors_add_subset:
  "fits ix o' p \<Longrightarrow> anchors ix \<subseteq> B \<Longrightarrow> anchors (add ix o' p n) \<subseteq> insert (o', p) B"
  using anchors_add by blast

lemma seek_block:
  assumes "valid ix" "anchors ix \<subseteq> B"
  shows "seek ix t = 0 \<or> (\<exists>o'. o' \<le> t \<and> (o', seek ix t) \<in> B)"
  using seek [OF assms(1), of t] assms(2) by blast

end


text \<open>The anchors of a sparse index, as absolute offsets and byte positions.\<close>

definition index_anchors :: "SparseIndex \<Rightarrow> (int \<times> nat) set" where
  "index_anchors ix =
     (\<lambda>e. (idx_base ix + uint (relative_offset e), unat (file_position e))) ` set (entries ix)"

definition index_seek :: "SparseIndex \<Rightarrow> int \<Rightarrow> nat" where
  "index_seek ix t = unat (file_position (index_floor ix t))"

text \<open>
  An offset and a position can be an anchor when they fit the 32-bit fields of an entry.
\<close>

definition anchor_fits :: "SparseIndex \<Rightarrow> int \<Rightarrow> nat \<Rightarrow> bool" where
  "anchor_fits ix o' p \<longleftrightarrow> 0 \<le> o' - idx_base ix \<and> o' - idx_base ix < 2 ^ 32 \<and> p < 2 ^ 32"

interpretation sparse: anchor_index index_anchors maybe_append index_seek index_ok anchor_fits
proof
  fix ix :: SparseIndex and t :: int
  assume "index_ok ix"
  from index_floor_spec [OF this, of t]
  show "index_seek ix t = 0 \<or> (\<exists>o'\<le>t. (o', index_seek ix t) \<in> index_anchors ix)"
  proof (elim disjE conjE)
    assume e: "index_floor ix t \<in> set (entries ix)" "anchor_le ix t (index_floor ix t)"
    let ?o = "idx_base ix + uint (relative_offset (index_floor ix t))"
    have "?o \<le> t" using e(2) by (simp add: anchor_le_def)
    moreover have "(?o, index_seek ix t) \<in> index_anchors ix"
      using e(1) by (auto simp: index_anchors_def index_seek_def)
    ultimately show ?thesis by blast
  qed (simp add: index_seek_def no_entry_def)
next
  fix ix :: SparseIndex and o' :: int and p n :: nat
  assume fits: "anchor_fits ix o' p"
  then have "uint (word_of_int (o' - idx_base ix) :: 32 word) = o' - idx_base ix"
    "unat (of_nat p :: 32 word) = p"
    by (simp_all add: anchor_fits_def uint_word_of_int_eq take_bit_int_eq_self unsigned_of_nat
        take_bit_nat_eq_self del: of_int_diff)
  then show "index_anchors (maybe_append ix o' p n) \<subseteq> insert (o', p) (index_anchors ix)"
    using set_entries_maybe_append [of ix o' p n] by (fastforce simp: index_anchors_def)
qed

section \<open>Properties\<close>

text \<open>
  \<open>floor\<close> returns the greatest anchor whose offset is not above the target, and the
  default entry (the start of the segment) exactly when there is none.
\<close>

theorem index_floor_greatest:
  assumes "index_ok ix"
  shows "(\<forall>e \<in> set (entries ix). \<not> anchor_le ix target e) \<and> index_floor ix target = no_entry \<or>
     index_floor ix target \<in> set (entries ix) \<and> anchor_le ix target (index_floor ix target) \<and>
     (\<forall>e \<in> set (entries ix). anchor_le ix target e \<longrightarrow>
        relative_offset e \<le> relative_offset (index_floor ix target))"
  using assms by (rule index_floor_spec)

definition sample_index :: SparseIndex where
  "sample_index = \<lparr> idx_file = empty_file, idx_base = 100, interval = 0, bytes_since = 0,
     entries = [\<lparr> relative_offset = 0, file_position = 0 \<rparr>, \<lparr> relative_offset = 4, file_position = 90 \<rparr>],
     flushed = 0 \<rparr>"

theorem index_floor_greatest_witness:
  "index_ok sample_index \<and> index_floor sample_index 105 \<in> set (entries sample_index) \<and>
   anchor_le sample_index 105 (index_floor sample_index 105) \<and>
   file_position (index_floor sample_index 105) = 90"
proof -
  have ok: "index_ok sample_index" by (simp add: index_ok_def sample_index_def empty_file_def)
  moreover have p: "file_position (index_floor sample_index 105) = 90"
    by (simp add: index_floor_def sample_index_def upper_bound_def)
  moreover from p have "index_floor sample_index 105 \<noteq> no_entry" by (auto simp: no_entry_def)
  ultimately show ?thesis using index_floor_greatest [OF ok, of 105] by blast
qed

text \<open>
  A flushed index is durable: after a successful \<open>flush\<close>, opening the file again yields
  the same entries; and a failed \<open>flush\<close> leaves an index that still satisfies the invariant,
  so that a later \<open>flush\<close> repairs the file.
\<close>

theorem index_open_flush:
  assumes "index_ok ix" "index_flush ix = (ix', r)" "readable (idx_file ix)"
  shows "index_ok ix' \<and> entries ix' = entries ix \<and>
    (r = Inr () \<longrightarrow> (\<exists>ix2. index_open (Inr (idx_file ix')) (idx_base ix) (interval ix) = Inr ix2 \<and>
       entries ix2 = entries ix \<and> index_ok ix2))"
proof -
  note fl = index_flush_ok [OF assms(1,2)]
  let ?c = "content (idx_file ix')" and ?n = "length (entries ix)"
  have "\<exists>ix2. index_open (Inr (idx_file ix')) (idx_base ix) (interval ix) = Inr ix2 \<and>
       entries ix2 = entries ix" if r: "r = Inr ()"
  proof -
    have c: "take (8 * ?n) ?c = entries_bytes (entries ix)" "8 * ?n \<le> length ?c" "length ?c < 8 * ?n + 8"
      using fl r by (auto simp: index_ok_def)
    then have count: "length ?c div 8 = ?n" by (intro div_nat_eqI) simp_all
    have rd: "readable (idx_file ix')" using assms(3) fl by (simp add: readable_def)
    have "load_entries ?n (take (8 * ?n) ?c) [] = Inr (entries ix)"
      using load_entries_ok [of "[]" "entries ix" "[]"] assms(1) c(1) by (simp add: index_ok_def)
    then show ?thesis
      using rd c count
      by (auto simp: index_open_def file_size_readable read_at_readable kEntrySize_def Let_def mult.commute)
  qed
  with fl index_open_ok show ?thesis by blast
qed

theorem index_open_flush_witness:
  "\<exists>ix2. index_open (Inr (idx_file (fst (index_flush sample_index)))) 100 0 = Inr ix2 \<and>
     entries ix2 = entries sample_index"
proof -
  have "index_ok sample_index" "readable (idx_file sample_index)"
    by (simp_all add: index_ok_def sample_index_def empty_file_def readable_def)
  moreover have "snd (index_flush sample_index) = Inr ()"
    by (simp add: index_flush_def sample_index_def empty_file_def write_at_healthy sync_file_healthy)
  moreover have "idx_base sample_index = 100" "interval sample_index = 0"
    by (simp_all add: sample_index_def)
  ultimately show ?thesis
    using index_open_flush [OF _ surjective_pairing, of sample_index] by auto
qed

end
