(* ===== verification/Segment_Crypto.thy ===== *)
theory Segment_Crypto
  imports Record_Batch
begin

text \<open>
  Encryption at rest (\<^verbatim>\<open>src/src/storage/segment_crypto.hpp\<close>, \<^verbatim>\<open>segment_crypto.cpp\<close>): the
  segment header with its salt, the framing of one encrypted block per batch, and the keys.
  OpenSSL is a parameter (\<open>crypto_lib\<close>); random bytes are an argument of the operation that
  draws them.  \<open>crypto_ok\<close> states what AES-256-GCM guarantees as a function.

  The locale \<open>block_format\<close> is what a segment relies on when it walks the blocks of its
  file: it is interpreted here for plain batches and for sealed ones.
\<close>


section \<open>Keys\<close>

definition kEncKeyBytes :: nat where "kEncKeyBytes = 32"
definition kEncNonceBytes :: nat where "kEncNonceBytes = 12"
definition kEncTagBytes :: nat where "kEncTagBytes = 16"
definition kEncSaltBytes :: nat where "kEncSaltBytes = 16"
definition kEncSegmentHeaderSize :: nat where "kEncSegmentHeaderSize = 32"
definition kEncBlockHeaderSize :: nat where
  "kEncBlockHeaderSize = 1 + 1 + 8 + 4 + 4 + kEncNonceBytes + kEncTagBytes"

lemmas enc_sizes [simp] = kEncKeyBytes_def kEncNonceBytes_def kEncTagBytes_def kEncSaltBytes_def
  kEncSegmentHeaderSize_def kEncBlockHeaderSize_def

definition kEncSegmentMagic :: bytes where
  "kEncSegmentMagic = [0x4E, 0x58, 0x53, 0x45, 0x47, 0x31, 0, 0]"

definition kDekInfo :: bytes where
  "kDekInfo = [0x6E, 0x65, 0x78, 0x75, 0x73, 0x6D, 0x71, 0x2F, 0x73, 0x65, 0x67, 0x6D, 0x65, 0x6E,
     0x74, 0x2D, 0x64, 0x65, 0x6B, 0x2F, 0x76, 0x31]"

text \<open>
  HKDF-SHA256 takes key, salt and info; AES-256-GCM takes key, nonce, associated data and
  text, and decryption also takes the tag.
\<close>

record crypto_lib =
  openssl :: bool
  hkdf_sha256 :: "bytes \<Rightarrow> bytes \<Rightarrow> bytes \<Rightarrow> bytes expected"
  aes_gcm_encrypt :: "bytes \<Rightarrow> bytes \<Rightarrow> bytes \<Rightarrow> bytes \<Rightarrow> (bytes \<times> bytes) expected"
  aes_gcm_decrypt :: "bytes \<Rightarrow> bytes \<Rightarrow> bytes \<Rightarrow> bytes \<Rightarrow> bytes \<Rightarrow> bytes expected"

definition crypto_ok :: "crypto_lib \<Rightarrow> bool" where
  "crypto_ok cr \<longleftrightarrow>
     (\<forall>dek nonce aad pt ct tag. aes_gcm_encrypt cr dek nonce aad pt = Inr (ct, tag) \<longrightarrow>
        length ct = length pt \<and> length tag = 16 \<and> aes_gcm_decrypt cr dek nonce aad ct tag = Inr pt) \<and>
     (\<forall>dek nonce aad ct tag pt. aes_gcm_decrypt cr dek nonce aad ct tag = Inr pt \<longrightarrow>
        aes_gcm_encrypt cr dek nonce aad pt = Inr (ct, tag))"

definition hex_nibble :: "byte \<Rightarrow> byte option" where
  "hex_nibble c =
     (if 0x30 \<le> c \<and> c \<le> 0x39 then Some (c - 0x30)
      else if 0x61 \<le> c \<and> c \<le> 0x66 then Some (c - 0x61 + 10)
      else if 0x41 \<le> c \<and> c \<le> 0x46 then Some (c - 0x41 + 10)
      else None)"

record EncryptionKey =
  key_material :: bytes

definition from_bytes :: "crypto_lib \<Rightarrow> bytes \<Rightarrow> EncryptionKey expected" where
  "from_bytes cr k =
     (if length k \<noteq> kEncKeyBytes then Inl InvalidArgument
      else if \<not> openssl cr then Inl Unsupported
      else Inr \<lparr> key_material = k \<rparr>)"

fun hex_pairs :: "bytes \<Rightarrow> bytes expected" where
  "hex_pairs (h # l # rest) =
     (case (hex_nibble h, hex_nibble l) of
        (Some high, Some low) \<Rightarrow>
          bindE (hex_pairs rest) (\<lambda>m. Inr ((push_bit 4 high OR low) # m))
      | _ \<Rightarrow> Inl InvalidArgument)"
| "hex_pairs _ = Inr []"

definition from_hex :: "crypto_lib \<Rightarrow> bytes \<Rightarrow> EncryptionKey expected" where
  "from_hex cr hex =
     (if length hex \<noteq> kEncKeyBytes * 2 then Inl InvalidArgument
      else bindE (hex_pairs hex) (\<lambda>m. from_bytes cr m))"

definition derive_segment_dek :: "crypto_lib \<Rightarrow> EncryptionKey \<Rightarrow> bytes \<Rightarrow> bytes expected" where
  "derive_segment_dek cr k salt =
     (if \<not> openssl cr then Inl Unsupported else hkdf_sha256 cr (key_material k) salt kDekInfo)"


section \<open>Segment header\<close>

definition encode_segment_header :: "bytes \<Rightarrow> bytes" where
  "encode_segment_header salt =
     (let fields = kEncSegmentMagic @ [1, 1, 1, 0] @ salt in
      fields @ replicate (kEncSegmentHeaderSize - length fields) 0)"

definition is_encrypted_segment_header :: "bytes \<Rightarrow> bool" where
  "is_encrypted_segment_header h \<longleftrightarrow>
     length h \<ge> length kEncSegmentMagic \<and> take (length kEncSegmentMagic) h = kEncSegmentMagic"

definition parse_segment_header :: "bytes \<Rightarrow> bytes expected" where
  "parse_segment_header h =
     (if length h < kEncSegmentHeaderSize then Inl Corrupt
      else if \<not> is_encrypted_segment_header h then Inl Corrupt
      else if h ! 8 \<noteq> 1 then Inl Unsupported
      else Inr (take kEncSaltBytes (drop 12 h)))"


section \<open>Blocks\<close>

record SegmentCipher =
  dek :: bytes

definition cipher_create :: "crypto_lib \<Rightarrow> EncryptionKey \<Rightarrow> bytes \<Rightarrow> SegmentCipher expected" where
  "cipher_create cr kek salt =
     (if \<not> openssl cr then Inl Unsupported
      else bindE (derive_segment_dek cr kek salt) (\<lambda>d. Inr \<lparr> dek = d \<rparr>))"

record EncryptedBlockView =
  eb_base_offset :: int
  eb_record_count :: int
  eb_ciphertext_len :: "32 word"

definition eb_on_disk_size :: "EncryptedBlockView \<Rightarrow> nat" where
  "eb_on_disk_size v = kEncBlockHeaderSize + unat (eb_ciphertext_len v)"

definition block_aad :: "int \<Rightarrow> int \<Rightarrow> nat \<Rightarrow> bytes \<Rightarrow> bytes" where
  "block_aad base count ct_len nonce =
     [1, 0] @ store_le_i64 base @ store_le_i32 count @ store_le (of_nat ct_len :: 32 word) @ nonce"

definition seal_block ::
  "crypto_lib \<Rightarrow> SegmentCipher \<Rightarrow> bytes expected \<Rightarrow> bytes \<Rightarrow> int \<Rightarrow> int \<Rightarrow> bytes expected" where
  "seal_block cr c random plaintext base count =
     (if \<not> openssl cr then Inl Unsupported
      else if length plaintext > 2 ^ 32 - 1 then Inl InvalidArgument
      else bindE random (\<lambda>nonce.
        let aad = block_aad base count (length plaintext) nonce in
        bindE (aes_gcm_encrypt cr (dek c) nonce aad plaintext) (\<lambda>(ciphertext, tag).
        Inr (aad @ tag @ ciphertext))))"

definition peek_enc_block :: "bytes \<Rightarrow> EncryptedBlockView expected" where
  "peek_enc_block frame =
     (if length frame < kEncBlockHeaderSize then Inl Corrupt
      else if frame ! 0 \<noteq> 1 then Inl Corrupt
      else Inr \<lparr> eb_base_offset = load_le_i64 (drop 2 frame),
                 eb_record_count = load_le_i32 (drop 10 frame),
                 eb_ciphertext_len = load_le (drop 14 frame) \<rparr>)"

definition open_block :: "crypto_lib \<Rightarrow> SegmentCipher \<Rightarrow> bytes \<Rightarrow> bytes expected" where
  "open_block cr c frame =
     (if \<not> openssl cr then Inl Unsupported
      else bindE (peek_enc_block frame) (\<lambda>view.
        if length frame < eb_on_disk_size view then Inl Corrupt
        else let aad = take 30 frame;
                 nonce = take kEncNonceBytes (drop 18 frame);
                 tag = take kEncTagBytes (drop 30 frame);
                 ciphertext = take (unat (eb_ciphertext_len view)) (drop kEncBlockHeaderSize frame)
             in aes_gcm_decrypt cr (dek c) nonce aad ciphertext tag))"


section \<open>Opening what was sealed\<close>

lemma length_block_aad: "length nonce = 12 \<Longrightarrow> length (block_aad base count n nonce) = 30"
  by (simp add: block_aad_def)

lemma peek_seal_block:
  assumes "seal_block cr c (Inr nonce) pt base count = Inr frame" "crypto_ok cr"
    and "length nonce = 12" "fits_i64 base" "fits_i32 count"
  shows "peek_enc_block (take 46 frame @ r) = Inr \<lparr> eb_base_offset = base, eb_record_count = count,
      eb_ciphertext_len = of_nat (length pt) \<rparr>"
    and "length frame = 46 + length pt" "length pt \<le> 2 ^ 32 - 1"
    and "open_block cr c frame = Inr pt"
proof -
  let ?aad = "block_aad base count (length pt) nonce"
  from assms(1) obtain ct tag where ssl: "openssl cr" and pt: "length pt \<le> 2 ^ 32 - 1"
    and e: "aes_gcm_encrypt cr (dek c) nonce ?aad pt = Inr (ct, tag)" and frame: "frame = ?aad @ tag @ ct"
    by (auto simp: seal_block_def result_iffs Let_def split: if_splits)
  have d: "length ct = length pt" "length tag = 16" "aes_gcm_decrypt cr (dek c) nonce ?aad ct tag = Inr pt"
    using assms(2) e unfolding crypto_ok_def by blast+
  have aad: "length ?aad = 30" using assms(3) by (rule length_block_aad)
  show "length pt \<le> 2 ^ 32 - 1" by (fact pt)
  show len: "length frame = 46 + length pt" using frame aad d by simp
  have view: "peek_enc_block (?aad @ tag @ x) = Inr \<lparr> eb_base_offset = base, eb_record_count = count,
      eb_ciphertext_len = of_nat (length pt) \<rparr>" for x
    using assms(3-5) d(2) by (simp add: peek_enc_block_def block_aad_def)
  have "take 46 frame = ?aad @ tag" using frame aad d by simp
  then show "peek_enc_block (take 46 frame @ r) = Inr \<lparr> eb_base_offset = base, eb_record_count = count,
      eb_ciphertext_len = of_nat (length pt) \<rparr>" using view by simp
  have un: "unat (of_nat (length pt) :: 32 word) = length pt"
    using pt by (simp add: unsigned_of_nat take_bit_nat_eq_self)
  have nonce: "take 12 (drop 18 ?aad) = nonce" using assms(3) by (simp add: block_aad_def)
  have "take 30 frame = ?aad" "take 12 (drop 18 frame) = nonce" "take 16 (drop 30 frame) = tag"
    "take (length pt) (drop 46 frame) = ct"
    using frame aad d assms(3) nonce by (simp_all add: block_aad_def)
  moreover have "peek_enc_block frame = Inr \<lparr> eb_base_offset = base, eb_record_count = count,
      eb_ciphertext_len = of_nat (length pt) \<rparr>" using view [of ct] frame by simp
  ultimately show "open_block cr c frame = Inr pt"
    using ssl len d(1,3) un by (simp add: open_block_def eb_on_disk_size_def Let_def)
qed


text \<open>
  Opening is sound: a frame that opens is, up to bytes after it, the frame that sealing its
  plaintext with the nonce and the metadata found in it produces.
\<close>

lemma peek_enc_block_InrD:
  assumes "peek_enc_block frame = Inr v"
  shows "46 \<le> length frame" "frame ! 0 = 1" "eb_base_offset v = load_le_i64 (drop 2 frame)"
    "eb_record_count v = load_le_i32 (drop 10 frame)" "eb_ciphertext_len v = load_le (drop 14 frame)"
  using assms by (auto simp: peek_enc_block_def split: if_splits)

lemma open_block_sound:
  assumes "open_block cr c frame = Inr pt" "crypto_ok cr" "frame ! 1 = 0"
  shows "\<exists>v. peek_enc_block frame = Inr v \<and>
    seal_block cr c (Inr (take 12 (drop 18 frame))) pt (eb_base_offset v) (eb_record_count v) =
      Inr (take (eb_on_disk_size v) frame)"
proof -
  from assms(1) obtain v where ssl: "openssl cr" and v: "peek_enc_block frame = Inr v"
    and size: "eb_on_disk_size v \<le> length frame"
    and d: "aes_gcm_decrypt cr (dek c) (take 12 (drop 18 frame)) (take 30 frame)
       (take (unat (eb_ciphertext_len v)) (drop 46 frame)) (take 16 (drop 30 frame)) = Inr pt"
    by (auto simp: open_block_def result_iffs Let_def split: if_splits)
  let ?n = "unat (eb_ciphertext_len v)" and ?nonce = "take 12 (drop 18 frame)"
  note p = peek_enc_block_InrD [OF v]
  have e: "aes_gcm_encrypt cr (dek c) ?nonce (take 30 frame) pt =
      Inr (take ?n (drop 46 frame), take 16 (drop 30 frame))"
    using assms(2) d unfolding crypto_ok_def by blast
  then have "length (take ?n (drop 46 frame)) = length pt"
    using assms(2) unfolding crypto_ok_def by blast
  then have len: "length pt = ?n" using size by (simp add: eb_on_disk_size_def)
  have head: "take 2 frame = [1, 0]"
    using p(1,2) assms(3) by (cases frame; cases "tl frame") (auto simp: numeral_2_eq_2)
  have "block_aad (eb_base_offset v) (eb_record_count v) (length pt) ?nonce = take 30 frame"
  proof -
    have "store_le_i64 (eb_base_offset v) = take 8 (drop 2 frame)"
      "store_le_i32 (eb_record_count v) = take 4 (drop 10 frame)"
      "store_le (eb_ciphertext_len v) = take 4 (drop 14 frame)"
      using p(1,3,4,5) store_load_le_take [where 'a = 32, of "drop 14 frame"]
      by (simp_all add: store_load_le_int)
    moreover have "of_nat (length pt) = eb_ciphertext_len v" by (simp add: len)
    moreover have "take 30 frame = take 2 frame @ take 8 (drop 2 frame) @ take 4 (drop 10 frame) @
        take 4 (drop 14 frame) @ take 12 (drop 18 frame)"
      using take_split [of 2 30 frame] take_split [of 8 28 "drop 2 frame"]
        take_split [of 4 20 "drop 10 frame"] take_split [of 4 16 "drop 14 frame"] by simp
    ultimately show ?thesis using head by (simp add: block_aad_def)
  qed
  moreover have "take 30 frame @ take 16 (drop 30 frame) @ take ?n (drop 46 frame) = take (46 + ?n) frame"
    using take_split [of 30 "46 + ?n" frame] take_split [of 16 "16 + ?n" "drop 30 frame"] by simp
  moreover have "length pt \<le> 2 ^ 32 - 1"
    using len unsigned_less [of "eb_ciphertext_len v", where 'a = nat] by simp
  ultimately show ?thesis
    using v ssl e by (simp add: seal_block_def eb_on_disk_size_def Let_def)
qed

lemma parse_encode_segment_header:
  "length salt = 16 \<Longrightarrow> parse_segment_header (encode_segment_header salt) = Inr salt"
  "length salt = 16 \<Longrightarrow> length (encode_segment_header salt) = 32"
  "is_encrypted_segment_header (encode_segment_header salt)"
  by (simp_all add: parse_segment_header_def encode_segment_header_def is_encrypted_segment_header_def
      kEncSegmentMagic_def Let_def)

section \<open>Blocks as an interface\<close>

record BlockHeader =
  bh_base_offset :: int
  bh_record_count :: int
  bh_on_disk_size :: nat

definition bh_last_offset :: "BlockHeader \<Rightarrow> int" where
  "bh_last_offset h = bh_base_offset h + bh_record_count h - 1"

definition header_of :: "RecordBatch \<Rightarrow> bytes \<Rightarrow> BlockHeader" where
  "header_of b bs = \<lparr> bh_base_offset = base_offset (header b),
     bh_record_count = record_count (header b), bh_on_disk_size = length bs \<rparr>"

text \<open>
  What walking a log file needs of a block \<open>bs\<close> that holds the batch \<open>b\<close>: its header is at
  its front and tells offset, count and size; loading it gives the encoded batch.
\<close>

locale block_format =
  fixes hdr :: nat
    and is_block :: "RecordBatch \<Rightarrow> bytes \<Rightarrow> bool"
    and peek_hdr :: "bytes \<Rightarrow> BlockHeader option"
    and load_blk :: "bytes \<Rightarrow> bytes expected"
  assumes hdr_pos: "0 < hdr"
    and block_size: "is_block b bs \<Longrightarrow> hdr \<le> length bs"
    and block_peek: "is_block b bs \<Longrightarrow> peek_hdr (take hdr bs) = Some (header_of b bs)"
    and block_load: "is_block b bs \<Longrightarrow> load_blk bs = Inr (encode b)"
    and block_wf: "is_block b bs \<Longrightarrow> wf_batch b"
begin

lemma block_nonempty: "is_block b bs \<Longrightarrow> bs \<noteq> []"
  using block_size [of b bs] hdr_pos by auto

lemma block_decode: "is_block b bs \<Longrightarrow> bindE (load_blk bs) decode = Inr b"
  using block_load [of b bs] block_wf [of b bs] decode_encode [of b "[]"] by simp

end

definition plain_block :: "RecordBatch \<Rightarrow> bytes \<Rightarrow> bool" where
  "plain_block b bs \<longleftrightarrow> wf_batch b \<and> bs = encode b"

definition plain_peek :: "bytes \<Rightarrow> BlockHeader option" where
  "plain_peek h =
     (case peek h of
        Inl _ \<Rightarrow> None
      | Inr v \<Rightarrow> Some \<lparr> bh_base_offset = view_base_offset v, bh_record_count = view_record_count v,
                        bh_on_disk_size = view_encoded_size v \<rparr>)"

definition sealed_block :: "crypto_lib \<Rightarrow> SegmentCipher \<Rightarrow> RecordBatch \<Rightarrow> bytes \<Rightarrow> bool" where
  "sealed_block cr c b bs \<longleftrightarrow> wf_batch b \<and> crypto_ok cr \<and>
     (\<exists>nonce. length nonce = 12 \<and>
        seal_block cr c (Inr nonce) (encode b) (base_offset (header b)) (record_count (header b)) = Inr bs)"

definition enc_peek :: "bytes \<Rightarrow> BlockHeader option" where
  "enc_peek h =
     (case peek_enc_block h of
        Inl _ \<Rightarrow> None
      | Inr v \<Rightarrow> Some \<lparr> bh_base_offset = eb_base_offset v, bh_record_count = eb_record_count v,
                        bh_on_disk_size = eb_on_disk_size v \<rparr>)"

lemma peek_take_header: "wf_batch b \<Longrightarrow> peek (take 36 (encode b)) = Inr (view_of b)"
proof -
  assume wf: "wf_batch b"
  have "(load_le (drop 8 (take 36 (encode b))) :: 32 word) = load_le (drop 8 (encode b))"
    "(load_le (take 36 (encode b)) :: 64 word) = load_le (encode b)"
    "(load_le (drop 32 (take 36 (encode b))) :: 32 word) = load_le (drop 32 (encode b))"
    by (rule load_le_cong; simp add: encoded_size_def drop_take)+
  then have "load_le_i32 (drop 8 (take 36 (encode b))) = load_le_i32 (drop 8 (encode b))"
    "load_le_i64 (take 36 (encode b)) = load_le_i64 (encode b)"
    "load_le_i32 (drop 32 (take 36 (encode b))) = load_le_i32 (drop 32 (encode b))"
    by (simp_all only: load_le_i32_def load_le_i64_def)
  then have "peek (take 36 (encode b)) = peek (encode b)"
    unfolding peek_def batch_layout drop_0 by (simp only: length_take length_encode) (simp add: encoded_size_def)
  with peek_encode [OF wf, of "[]"] show ?thesis by simp
qed

interpretation plain: block_format kHeaderSize plain_block plain_peek Inr
  by unfold_locales
    (auto simp: plain_block_def plain_peek_def peek_take_header view_of_def header_of_def encoded_size_def)

interpretation sealed: block_format kEncBlockHeaderSize "sealed_block cr c" enc_peek "open_block cr c"
  for cr c
proof unfold_locales
  fix b bs
  assume "sealed_block cr c b bs"
  then obtain nonce where n: "length nonce = 12" "crypto_ok cr" "wf_batch b"
    and s: "seal_block cr c (Inr nonce) (encode b) (base_offset (header b)) (record_count (header b)) = Inr bs"
    by (auto simp: sealed_block_def)
  have fits: "fits_i64 (base_offset (header b))" "fits_i32 (record_count (header b))"
    using n(3) by (simp_all add: wf_batch_def wf_header_def)
  note p = peek_seal_block [OF s n(2,1) fits]
  show "kEncBlockHeaderSize \<le> length bs" using p(2) by simp
  show "open_block cr c bs = Inr (encode b)" by (fact p(4))
  show "wf_batch b" by (fact n(3))
  have "unat (of_nat (encoded_size b) :: 32 word) = encoded_size b"
    using p(3) by (simp add: unsigned_of_nat take_bit_nat_eq_self)
  with p(1) [of "[]"] p(2) show "enc_peek (take kEncBlockHeaderSize bs) = Some (header_of b bs)"
    by (simp add: enc_peek_def header_of_def eb_on_disk_size_def)
qed simp


section \<open>Property\<close>


definition tagging_crypto :: crypto_lib where
  "tagging_crypto = \<lparr> openssl = True, hkdf_sha256 = (\<lambda>k s i. Inr (take 32 k)),
     aes_gcm_encrypt = (\<lambda>k n a p. Inr (p, take 16 (n @ replicate 16 0))),
     aes_gcm_decrypt = (\<lambda>k n a c t. if t = take 16 (n @ replicate 16 0) then Inr c else Inl Corrupt) \<rparr>"


end
