(* ===== verification/Segment.thy ===== *)
theory Segment
  imports Sparse_Index Segment_Crypto
begin

text \<open>
  One segment of a partition log (\<^verbatim>\<open>src/src/storage/segment.hpp\<close>, \<^verbatim>\<open>segment.cpp\<close>): the
  append-only log file and its sparse index, for plain and for encrypted segments.

  A segment is related to the list of the batches it holds by \<open>seg_inv\<close>.  The lemmas show
  that every operation keeps this relation whatever the writes to the files do, that \<open>read\<close>
  returns exactly the batches its contract describes, independently of the index, and that
  \<open>recover\<close> restores the batches that were completely written before a crash.
\<close>


section \<open>Operations\<close>

datatype SegState = Active | Closed

record Segment =
  seg_base :: int
  seg_log :: File
  seg_index :: SparseIndex
  size_bytes :: nat
  seg_cipher :: "SegmentCipher option"
  data_start :: nat
  seg_state :: SegState

definition segment_create ::
  "crypto_lib \<Rightarrow> File expected \<Rightarrow> File expected \<Rightarrow> int \<Rightarrow> nat \<Rightarrow> EncryptionKey option \<Rightarrow>
   bytes expected \<Rightarrow> Segment expected" where
  "segment_create cr log_file index_file base index_interval_bytes key random =
     bindE log_file (\<lambda>f.
     bindE (index_open index_file base index_interval_bytes) (\<lambda>ix.
     case key of
       None \<Rightarrow> Inr \<lparr> seg_base = base, seg_log = f, seg_index = ix, size_bytes = 0,
                     seg_cipher = None, data_start = 0, seg_state = Active \<rparr>
     | Some k \<Rightarrow>
         bindE random (\<lambda>salt.
         bindE (cipher_create cr k salt) (\<lambda>c.
         case write_at f (encode_segment_header salt) 0 of
           (f, Inl e) \<Rightarrow> Inl e
         | (f, Inr _) \<Rightarrow>
             Inr \<lparr> seg_base = base, seg_log = f, seg_index = ix, size_bytes = kEncSegmentHeaderSize,
                   seg_cipher = Some c, data_start = kEncSegmentHeaderSize, seg_state = Active \<rparr>))))"

definition detect_cipher ::
  "crypto_lib \<Rightarrow> File \<Rightarrow> nat \<Rightarrow> EncryptionKey option \<Rightarrow> (SegmentCipher option \<times> nat) expected" where
  "detect_cipher cr f fsize key =
     (if fsize \<ge> kEncSegmentHeaderSize then
        bindE (read_at f kEncSegmentHeaderSize 0) (\<lambda>h.
        if length h = kEncSegmentHeaderSize \<and> is_encrypted_segment_header h then
          (case key of
             None \<Rightarrow> Inl Unsupported
           | Some k \<Rightarrow>
               bindE (parse_segment_header h) (\<lambda>salt.
               bindE (cipher_create cr k salt) (\<lambda>c.
               Inr (Some c, kEncSegmentHeaderSize))))
        else Inr (None, 0))
      else Inr (None, 0))"

definition segment_open ::
  "crypto_lib \<Rightarrow> File expected \<Rightarrow> File expected \<Rightarrow> int \<Rightarrow> nat \<Rightarrow> EncryptionKey option \<Rightarrow>
   Segment expected" where
  "segment_open cr log_file index_file base index_interval_bytes key =
     bindE log_file (\<lambda>f.
     bindE (file_size f) (\<lambda>size.
     bindE (detect_cipher cr f size key) (\<lambda>(c, start).
     bindE (index_open index_file base index_interval_bytes) (\<lambda>ix.
     Inr \<lparr> seg_base = base, seg_log = f, seg_index = ix, size_bytes = size,
           seg_cipher = c, data_start = start, seg_state = Active \<rparr>))))"

definition is_full :: "Segment \<Rightarrow> nat \<Rightarrow> bool" where
  "is_full s segment_bytes \<longleftrightarrow> size_bytes s \<ge> segment_bytes"

definition is_empty :: "Segment \<Rightarrow> bool" where
  "is_empty s \<longleftrightarrow> size_bytes s = data_start s"

definition block_header_size :: "Segment \<Rightarrow> nat" where
  "block_header_size s = (if seg_cipher s \<noteq> None then kEncBlockHeaderSize else kHeaderSize)"

definition peek_block :: "Segment \<Rightarrow> nat \<Rightarrow> BlockHeader option expected" where
  "peek_block s pos =
     (let header_size = block_header_size s in
      if pos + header_size > size_bytes s then Inr None
      else bindE (read_at (seg_log s) header_size pos) (\<lambda>h.
        if length h < header_size then Inr None
        else if seg_cipher s \<noteq> None then Inr (enc_peek h) else Inr (plain_peek h)))"

definition load_block :: "crypto_lib \<Rightarrow> Segment \<Rightarrow> nat \<Rightarrow> nat \<Rightarrow> bytes expected" where
  "load_block cr s pos on_disk_size =
     bindE (read_at (seg_log s) on_disk_size pos) (\<lambda>block.
     if length block < on_disk_size then Inl Corrupt
     else case seg_cipher s of Some c \<Rightarrow> open_block cr c block | None \<Rightarrow> Inr block)"

definition segment_append ::
  "crypto_lib \<Rightarrow> Segment \<Rightarrow> RecordBatch \<Rightarrow> bytes expected \<Rightarrow> Segment \<times> int expected" where
  "segment_append cr s batch random =
     (if seg_state s = Closed then (s, Inl InvalidArgument)
      else let encoded = encode batch;
               framed = (case seg_cipher s of
                   Some c \<Rightarrow> seal_block cr c random encoded (base_offset (header batch))
                               (record_count (header batch))
                 | None \<Rightarrow> Inr encoded) in
      case framed of
        Inl e \<Rightarrow> (s, Inl e)
      | Inr block \<Rightarrow>
          (case write_at (seg_log s) block (size_bytes s) of
             (f, Inl e) \<Rightarrow> (s \<lparr> seg_log := f \<rparr>, Inl e)
           | (f, Inr _) \<Rightarrow>
               (s \<lparr> seg_log := f,
                    seg_index := maybe_append (seg_index s) (base_offset (header batch)) (size_bytes s)
                                   (length block),
                    size_bytes := size_bytes s + length block \<rparr>,
                Inr (last_offset batch))))"

lemma peek_block_size:
  assumes "peek_block s pos = Inr (Some h)"
  shows "0 < bh_on_disk_size h" "pos < size_bytes s"
proof -
  have "0 < bh_on_disk_size h" if "plain_peek x = Some h" for x
    using that by (auto simp: plain_peek_def peek_def Let_def split: sum.splits if_splits)
  moreover have "0 < bh_on_disk_size h" if "enc_peek x = Some h" for x
    using that by (auto simp: enc_peek_def eb_on_disk_size_def split: sum.splits)
  ultimately show "0 < bh_on_disk_size h"
    using assms by (auto simp: peek_block_def Let_def result_iffs split: if_splits)
  show "pos < size_bytes s"
    using assms by (auto simp: peek_block_def block_header_size_def Let_def split: if_splits)
qed

text \<open>The loop of \<^verbatim>\<open>Segment::read\<close>; \<open>acc\<close> and \<open>next\<close> are the result so far.\<close>

record FetchResult =
  batches :: bytes
  next_offset :: int

function read_loop ::
  "crypto_lib \<Rightarrow> Segment \<Rightarrow> int \<Rightarrow> nat \<Rightarrow> nat \<Rightarrow> FetchResult \<Rightarrow> FetchResult expected" where
  "read_loop cr s offset max_bytes pos res =
     (if pos < size_bytes s then
        (case peek_block s pos of
           Inl e \<Rightarrow> Inl e
         | Inr None \<Rightarrow> Inr res
         | Inr (Some info) \<Rightarrow>
             let total = bh_on_disk_size info in
             if pos + total > size_bytes s then Inr res
             else if bh_last_offset info < offset then
               read_loop cr s offset max_bytes (pos + total) res
             else if batches res \<noteq> [] \<and> length (batches res) + total > max_bytes then Inr res
             else bindE (load_block cr s pos total) (\<lambda>plain.
               read_loop cr s offset max_bytes (pos + total)
                 \<lparr> batches = batches res @ plain, next_offset = bh_last_offset info + 1 \<rparr>))
      else Inr res)"
  by auto
termination
  by (relation "measure (\<lambda>(cr, s, offset, max_bytes, pos, res). size_bytes s - pos)")
    (auto dest: peek_block_size)

declare read_loop.simps [simp del]

definition segment_read :: "crypto_lib \<Rightarrow> Segment \<Rightarrow> int \<Rightarrow> nat \<Rightarrow> FetchResult expected" where
  "segment_read cr s offset max_bytes =
     read_loop cr s offset max_bytes
       (max (unat (file_position (index_floor (seg_index s) offset))) (data_start s))
       \<lparr> batches = [], next_offset = offset \<rparr>"

text \<open>
  The loop of \<^verbatim>\<open>Segment::recover\<close>: the rebuilt index, the end of the valid prefix and the
  last valid offset, or the error that stops it, with the index at that point.
\<close>

function recover_loop ::
  "crypto_lib \<Rightarrow> Segment \<Rightarrow> SparseIndex \<Rightarrow> nat \<Rightarrow> int \<Rightarrow> SparseIndex \<times> (nat \<times> int) expected" where
  "recover_loop cr s ix valid_end last_valid =
     (if valid_end < size_bytes s then
        (case peek_block s valid_end of
           Inl e \<Rightarrow> (ix, Inl e)
         | Inr None \<Rightarrow> (ix, Inr (valid_end, last_valid))
         | Inr (Some info) \<Rightarrow>
             let total = bh_on_disk_size info in
             if valid_end + total > size_bytes s then (ix, Inr (valid_end, last_valid))
             else case load_block cr s valid_end total of
                 Inl e \<Rightarrow> if e = IoError then (ix, Inl e) else (ix, Inr (valid_end, last_valid))
               | Inr plaintext \<Rightarrow>
                   (case decode plaintext of
                      Inl _ \<Rightarrow> (ix, Inr (valid_end, last_valid))
                    | Inr batch \<Rightarrow>
                        recover_loop cr s (maybe_append ix (bh_base_offset info) valid_end total)
                          (valid_end + total) (last_offset batch)))
      else (ix, Inr (valid_end, last_valid)))"
  by auto
termination
  by (relation "measure (\<lambda>(cr, s, ix, valid_end, last_valid). size_bytes s - valid_end)")
    (auto dest: peek_block_size)

declare recover_loop.simps [simp del]

definition segment_recover :: "crypto_lib \<Rightarrow> Segment \<Rightarrow> Segment \<times> int expected" where
  "segment_recover cr s =
     (case index_reset (seg_index s) of
        (ix, Inl e) \<Rightarrow> (s \<lparr> seg_index := ix \<rparr>, Inl e)
      | (ix, Inr _) \<Rightarrow>
          (case recover_loop cr s ix (data_start s) (seg_base s - 1) of
             (ix, Inl e) \<Rightarrow> (s \<lparr> seg_index := ix \<rparr>, Inl e)
           | (ix, Inr (valid_end, last_valid)) \<Rightarrow>
               let s = s \<lparr> seg_index := ix \<rparr>;
                   cut = (if valid_end < size_bytes s then
                            case truncate_file (seg_log s) valid_end of
                              (f, Inl e) \<Rightarrow> (s \<lparr> seg_log := f \<rparr>, Inl e)
                            | (f, Inr u) \<Rightarrow> (s \<lparr> seg_log := f, size_bytes := valid_end \<rparr>, Inr u)
                          else (s, Inr ())) in
               (case cut of
                  (s, Inl e) \<Rightarrow> (s, Inl e)
                | (s, Inr _) \<Rightarrow>
                    (case index_flush (seg_index s) of
                       (ix, Inl e) \<Rightarrow> (s \<lparr> seg_index := ix \<rparr>, Inl e)
                     | (ix, Inr _) \<Rightarrow> (s \<lparr> seg_index := ix \<rparr>, Inr last_valid)))))"

function position_loop :: "Segment \<Rightarrow> int \<Rightarrow> nat \<Rightarrow> nat expected" where
  "position_loop s target pos =
     (if pos < size_bytes s then
        (case peek_block s pos of
           Inl e \<Rightarrow> Inl e
         | Inr None \<Rightarrow> Inl InvalidArgument
         | Inr (Some info) \<Rightarrow>
             if bh_base_offset info = target then Inr pos
             else if bh_base_offset info > target then Inl InvalidArgument
             else position_loop s target (pos + bh_on_disk_size info))
      else Inl InvalidArgument)"
  by auto
termination
  by (relation "measure (\<lambda>(s, target, pos). size_bytes s - pos)") (auto dest: peek_block_size)

declare position_loop.simps [simp del]

definition position_of :: "Segment \<Rightarrow> int \<Rightarrow> nat expected" where
  "position_of s target =
     (if target = seg_base s then Inr (data_start s) else position_loop s target (data_start s))"

function rebuild_loop :: "Segment \<Rightarrow> SparseIndex \<Rightarrow> nat \<Rightarrow> SparseIndex \<times> unit expected" where
  "rebuild_loop s ix pos =
     (if pos < size_bytes s then
        (case peek_block s pos of
           Inl e \<Rightarrow> (ix, Inl e)
         | Inr None \<Rightarrow> (ix, Inr ())
         | Inr (Some info) \<Rightarrow>
             rebuild_loop s (maybe_append ix (bh_base_offset info) pos (bh_on_disk_size info))
               (pos + bh_on_disk_size info))
      else (ix, Inr ()))"
  by auto
termination
  by (relation "measure (\<lambda>(s, ix, pos). size_bytes s - pos)") (auto dest: peek_block_size)

declare rebuild_loop.simps [simp del]

definition rebuild_index :: "Segment \<Rightarrow> Segment \<times> unit expected" where
  "rebuild_index s =
     (case index_reset (seg_index s) of
        (ix, Inl e) \<Rightarrow> (s \<lparr> seg_index := ix \<rparr>, Inl e)
      | (ix, Inr _) \<Rightarrow>
          (case rebuild_loop s ix (data_start s) of
             (ix, Inl e) \<Rightarrow> (s \<lparr> seg_index := ix \<rparr>, Inl e)
           | (ix, Inr _) \<Rightarrow>
               (case index_flush ix of (ix, r) \<Rightarrow> (s \<lparr> seg_index := ix \<rparr>, r))))"

definition segment_truncate_to :: "Segment \<Rightarrow> int \<Rightarrow> Segment \<times> unit expected" where
  "segment_truncate_to s target =
     (case position_of s target of
        Inl e \<Rightarrow> (s, Inl e)
      | Inr pos \<Rightarrow>
          let cut = (if pos < size_bytes s then
                       case truncate_file (seg_log s) pos of
                         (f, Inl e) \<Rightarrow> (s \<lparr> seg_log := f \<rparr>, Inl e)
                       | (f, Inr u) \<Rightarrow> (s \<lparr> seg_log := f, size_bytes := pos \<rparr>, Inr u)
                     else (s, Inr ())) in
          (case cut of
             (s, Inl e) \<Rightarrow> (s, Inl e)
           | (s, Inr _) \<Rightarrow>
               (case rebuild_index s of
                  (s, Inl e) \<Rightarrow> (s, Inl e)
                | (s, Inr u) \<Rightarrow> (s \<lparr> seg_state := Active \<rparr>, Inr u))))"

definition segment_sync :: "Segment \<Rightarrow> Segment \<times> unit expected" where
  "segment_sync s =
     (case index_flush (seg_index s) of
        (ix, Inl e) \<Rightarrow> (s \<lparr> seg_index := ix \<rparr>, Inl e)
      | (ix, Inr _) \<Rightarrow>
          (case sync_file (seg_log s) of (f, r) \<Rightarrow> (s \<lparr> seg_index := ix, seg_log := f \<rparr>, r)))"

definition segment_seal :: "Segment \<Rightarrow> Segment \<times> unit expected" where
  "segment_seal s =
     (case segment_sync s of
        (s, Inl e) \<Rightarrow> (s, Inl e)
      | (s, Inr u) \<Rightarrow> (s \<lparr> seg_state := Closed \<rparr>, Inr u))"


section \<open>The batches a segment holds\<close>

type_synonym block = "RecordBatch \<times> bytes"

definition is_blk :: "crypto_lib \<Rightarrow> SegmentCipher option \<Rightarrow> RecordBatch \<Rightarrow> bytes \<Rightarrow> bool" where
  "is_blk cr c b x = (case c of None \<Rightarrow> plain_block b x | Some c \<Rightarrow> sealed_block cr c b x)"

fun contiguous :: "int \<Rightarrow> RecordBatch list \<Rightarrow> bool" where
  "contiguous o' [] \<longleftrightarrow> True"
| "contiguous o' (b # bs) \<longleftrightarrow> base_offset (header b) = o' \<and> 1 \<le> record_count (header b) \<and>
     contiguous (o' + record_count (header b)) bs"

definition end_of :: "int \<Rightarrow> RecordBatch list \<Rightarrow> int" where
  "end_of o' bs = o' + sum_list (map (\<lambda>b. record_count (header b)) bs)"

abbreviation blocks_bytes :: "block list \<Rightarrow> bytes" where
  "blocks_bytes bs \<equiv> concat (map snd bs)"

fun block_starts :: "nat \<Rightarrow> block list \<Rightarrow> (int \<times> nat) set" where
  "block_starts p [] = {}"
| "block_starts p ((b, x) # bs) =
     insert (base_offset (header b), p) (block_starts (p + length x) bs)"

definition log_holds :: "crypto_lib \<Rightarrow> Segment \<Rightarrow> block list \<Rightarrow> bool" where
  "log_holds cr s bs \<longleftrightarrow>
     list_all (\<lambda>(b, x). is_blk cr (seg_cipher s) b x) bs \<and>
     size_bytes s = data_start s + length (blocks_bytes bs) \<and>
     size_bytes s \<le> length (content (seg_log s)) \<and>
     take (length (blocks_bytes bs)) (drop (data_start s) (content (seg_log s))) = blocks_bytes bs"

definition index_covers :: "Segment \<Rightarrow> block list \<Rightarrow> bool" where
  "index_covers s bs \<longleftrightarrow> index_ok (seg_index s) \<and> idx_base (seg_index s) = seg_base s \<and>
     index_anchors (seg_index s) \<subseteq> block_starts (data_start s) bs"

text \<open>
  The anchors of the index are 32-bit numbers; a segment that holds more than they can
  address is outside what the format supports.
\<close>

definition seg_small :: "Segment \<Rightarrow> block list \<Rightarrow> bool" where
  "seg_small s bs \<longleftrightarrow> size_bytes s < 2 ^ 32 \<and> end_of (seg_base s) (map fst bs) - seg_base s < 2 ^ 32"

definition seg_inv :: "crypto_lib \<Rightarrow> Segment \<Rightarrow> block list \<Rightarrow> bool" where
  "seg_inv cr s bs \<longleftrightarrow> log_holds cr s bs \<and> contiguous (seg_base s) (map fst bs) \<and> index_covers s bs"

lemma end_of_simps [simp]:
  "end_of o' [] = o'"
  "end_of o' (b # bs) = end_of (o' + record_count (header b)) bs"
  "end_of o' (bs @ [b]) = end_of o' bs + record_count (header b)"
  by (simp_all add: end_of_def)

lemma end_of_append: "end_of o' (as @ bs) = end_of (end_of o' as) bs"
  by (simp add: end_of_def)

lemma contiguous_append:
  "contiguous o' (as @ bs) \<longleftrightarrow> contiguous o' as \<and> contiguous (end_of o' as) bs"
  by (induction as arbitrary: o') auto

lemma end_of_ge: "contiguous o' bs \<Longrightarrow> o' + int (length bs) \<le> end_of o' bs"
proof (induction bs arbitrary: o')
  case (Cons b bs)
  from Cons.IH [of "o' + record_count (header b)"] Cons.prems show ?case by simp
qed simp

lemma contiguous_offsets:
  "contiguous o' bs \<Longrightarrow> b \<in> set bs \<Longrightarrow>
   o' \<le> base_offset (header b) \<and> base_offset (header b) \<le> last_offset b \<and> last_offset b < end_of o' bs"
proof (induction bs arbitrary: o')
  case (Cons a bs)
  then show ?case
    using end_of_ge [of "o' + record_count (header a)" bs]
    by (fastforce simp: last_offset_def)
qed simp

lemma block_starts_append:
  "block_starts p (as @ bs) = block_starts p as \<union> block_starts (p + length (blocks_bytes as)) bs"
  by (induction p as rule: block_starts.induct) (auto simp: add.assoc)

lemma block_startsE:
  "(o', p') \<in> block_starts p bs \<Longrightarrow>
   \<exists>bs1 b x bs2. bs = bs1 @ (b, x) # bs2 \<and> o' = base_offset (header b) \<and> p' = p + length (blocks_bytes bs1)"
proof (induction p bs rule: block_starts.induct)
  case (2 p b x bs)
  show ?case
  proof (cases "o' = base_offset (header b) \<and> p' = p")
    case True
    then show ?thesis by (intro exI [of _ "[]"] exI [of _ b] exI [of _ x] exI [of _ bs]) simp
  next
    case False
    then have "(o', p') \<in> block_starts (p + length x) bs" using 2(2) by auto
    from 2(1) [OF this] obtain bs1 b' x' bs2 where
      "bs = bs1 @ (b', x') # bs2" "o' = base_offset (header b')" "p' = p + length x + length (blocks_bytes bs1)"
      by blast
    then show ?thesis by (intro exI [of _ "(b, x) # bs1"] exI [of _ b'] exI [of _ x'] exI [of _ bs2]) simp
  qed
qed simp

subsection \<open>One block\<close>

lemma is_blk_facts:
  assumes "is_blk cr (seg_cipher s) b x"
  shows "block_header_size s \<le> length x" "0 < block_header_size s" "wf_batch b" "x \<noteq> []"
    and "(if seg_cipher s \<noteq> None then enc_peek (take (block_header_size s) x)
          else plain_peek (take (block_header_size s) x)) = Some (header_of b x)"
    and "(case seg_cipher s of Some c \<Rightarrow> open_block cr c x | None \<Rightarrow> Inr x) = Inr (encode b)"
proof -
  show "0 < block_header_size s" by (simp add: block_header_size_def)
  have *: "block_header_size s \<le> length x \<and> wf_batch b \<and> x \<noteq> [] \<and>
    (if seg_cipher s \<noteq> None then enc_peek (take (block_header_size s) x)
          else plain_peek (take (block_header_size s) x)) = Some (header_of b x) \<and>
    (case seg_cipher s of Some c \<Rightarrow> open_block cr c x | None \<Rightarrow> Inr x) = Inr (encode b)"
  proof (cases "seg_cipher s")
    case None
    with assms have "plain_block b x" by (simp add: is_blk_def)
    from plain.block_size [OF this] plain.block_peek [OF this] plain.block_load [OF this]
      plain.block_wf [OF this] plain.block_nonempty [OF this] None
    show ?thesis by (simp add: block_header_size_def)
  next
    case (Some c)
    with assms have "sealed_block cr c b x" by (simp add: is_blk_def)
    from sealed.block_size [OF this] sealed.block_peek [OF this] sealed.block_load [OF this]
      sealed.block_wf [OF this] sealed.block_nonempty [OF this] Some
    show ?thesis by (simp add: block_header_size_def)
  qed
  then show "block_header_size s \<le> length x" "wf_batch b" "x \<noteq> []"
    "(if seg_cipher s \<noteq> None then enc_peek (take (block_header_size s) x)
          else plain_peek (take (block_header_size s) x)) = Some (header_of b x)"
    "(case seg_cipher s of Some c \<Rightarrow> open_block cr c x | None \<Rightarrow> Inr x) = Inr (encode b)"
    by blast+
qed

text \<open>A block at a position of the file is peeked and loaded as what it is.\<close>

lemma block_at:
  assumes "is_blk cr (seg_cipher s) b x" "take (length x) (drop pos (content (seg_log s))) = x"
    and "pos + length x \<le> size_bytes s" "readable (seg_log s)"
  shows "peek_block s pos = Inr (Some (header_of b x))"
    and "load_block cr s pos (length x) = Inr (encode b)"
proof -
  note f = is_blk_facts [OF assms(1)]
  let ?d = "drop pos (content (seg_log s))"
  have "take (block_header_size s) ?d = take (block_header_size s) x"
    using f(1) assms(2) by (metis min.absorb1 take_take)
  moreover have "length (take (block_header_size s) x) = block_header_size s" using f(1) by simp
  ultimately show "peek_block s pos = Inr (Some (header_of b x))"
    using f(1,5) assms(3,4) by (auto simp: peek_block_def read_at_readable Let_def)
  show "load_block cr s pos (length x) = Inr (encode b)"
    using f(6) assms(2,4) by (simp add: load_block_def read_at_readable)
qed

lemma log_holds_block:
  assumes "log_holds cr s (bs1 @ (b, x) # bs2)"
  defines "pos \<equiv> data_start s + length (blocks_bytes bs1)"
  shows "is_blk cr (seg_cipher s) b x" "take (length x) (drop pos (content (seg_log s))) = x"
    "pos + length x + length (blocks_bytes bs2) = size_bytes s"
proof -
  let ?bs = "bs1 @ (b, x) # bs2" and ?c = "drop (data_start s) (content (seg_log s))"
  have eq: "take (length (blocks_bytes ?bs)) ?c = blocks_bytes ?bs"
    and size: "size_bytes s = data_start s + length (blocks_bytes ?bs)"
    using assms(1) by (simp_all add: log_holds_def)
  show "is_blk cr (seg_cipher s) b x" using assms(1) by (simp add: log_holds_def)
  show "pos + length x + length (blocks_bytes bs2) = size_bytes s" using size by (simp add: pos_def)
  have "take (length x) (drop (length (blocks_bytes bs1)) (take (length (blocks_bytes ?bs)) ?c)) = x"
    unfolding eq by simp
  then show "take (length x) (drop pos (content (seg_log s))) = x"
    by (simp add: pos_def drop_take min_def add.commute split: if_splits)
qed


section \<open>Reading\<close>

text \<open>What \<open>read\<close> is to return, as a function of the batches alone.\<close>

fun fetch_spec :: "int \<Rightarrow> nat \<Rightarrow> block list \<Rightarrow> FetchResult \<Rightarrow> FetchResult" where
  "fetch_spec offset max_bytes [] res = res"
| "fetch_spec offset max_bytes ((b, x) # bs) res =
     (if last_offset b < offset then fetch_spec offset max_bytes bs res
      else if batches res \<noteq> [] \<and> length (batches res) + length x > max_bytes then res
      else fetch_spec offset max_bytes bs
        \<lparr> batches = batches res @ encode b, next_offset = last_offset b + 1 \<rparr>)"

lemma bh_header_of [simp]:
  "bh_on_disk_size (header_of b x) = length x" "bh_base_offset (header_of b x) = base_offset (header b)"
  "bh_last_offset (header_of b x) = last_offset b"
  by (simp_all add: header_of_def bh_last_offset_def last_offset_def)

lemma read_loop_spec:
  "log_holds cr s (bs1 @ bs2) \<Longrightarrow> readable (seg_log s) \<Longrightarrow>
   read_loop cr s offset max_bytes (data_start s + length (blocks_bytes bs1)) res =
     Inr (fetch_spec offset max_bytes bs2 res)"
proof (induction offset max_bytes bs2 res arbitrary: bs1 rule: fetch_spec.induct)
  case (1 offset max_bytes res)
  then have "size_bytes s = data_start s + length (blocks_bytes bs1)" by (simp add: log_holds_def)
  then show ?case by (simp add: read_loop.simps)
next
  case (2 offset max_bytes b x bs res)
  let ?pos = "data_start s + length (blocks_bytes bs1)"
  note blk = log_holds_block [OF 2(3)]
  note at = block_at [OF blk(1,2) _ 2(4)]
  have pos: "?pos + length x \<le> size_bytes s" "?pos < size_bytes s"
    using blk(3) is_blk_facts(4) [OF blk(1)] by (cases x; simp)+
  have next': "data_start s + length (blocks_bytes (bs1 @ [(b, x)])) = ?pos + length x" by simp
  have "log_holds cr s ((bs1 @ [(b, x)]) @ bs)" using 2(3) by simp
  note IH = 2(1) [OF _ this 2(4), unfolded next'] 2(2) [OF _ _ this 2(4), unfolded next']
  show ?case
    using at [OF pos(1)] pos IH
    by (subst read_loop.simps) (auto simp: Let_def)
qed

lemma fetch_spec_skip:
  "\<forall>(b, x) \<in> set bs1. last_offset b < offset \<Longrightarrow>
   fetch_spec offset max_bytes (bs1 @ bs2) res = fetch_spec offset max_bytes bs2 res"
  by (induction bs1) auto

lemma segment_read_spec:
  assumes "seg_inv cr s bs" "readable (seg_log s)"
  shows "segment_read cr s offset max_bytes =
    Inr (fetch_spec offset max_bytes bs \<lparr> batches = [], next_offset = offset \<rparr>)"
proof -
  have hold: "log_holds cr s bs" and cont: "contiguous (seg_base s) (map fst bs)"
    and ix: "index_ok (seg_index s)" "index_anchors (seg_index s) \<subseteq> block_starts (data_start s) bs"
    using assms(1) by (simp_all add: seg_inv_def index_covers_def)
  let ?seek = "index_seek (seg_index s) offset" and ?res = "\<lparr> batches = [], next_offset = offset \<rparr>"
  have read: "segment_read cr s offset max_bytes =
      read_loop cr s offset max_bytes (max ?seek (data_start s)) ?res"
    by (simp add: segment_read_def index_seek_def)
  from sparse.seek_block [OF ix, of offset] show ?thesis
  proof
    assume "?seek = 0"
    then show ?thesis
      using read_loop_spec [of cr s "[]" bs] hold assms(2) by (simp add: read)
  next
    assume "\<exists>o'. o' \<le> offset \<and> (o', ?seek) \<in> block_starts (data_start s) bs"
    then obtain bs1 b x bs2 where bs: "bs = bs1 @ (b, x) # bs2" and le: "base_offset (header b) \<le> offset"
      and seek: "?seek = data_start s + length (blocks_bytes bs1)"
      using block_startsE by blast
    have "last_offset b' < offset" if "(b', x') \<in> set bs1" for b' x'
    proof -
      have "contiguous (seg_base s) (map fst bs1)" "end_of (seg_base s) (map fst bs1) = base_offset (header b)"
        using cont by (simp_all add: bs contiguous_append)
      then show ?thesis
        using contiguous_offsets [of "seg_base s" "map fst bs1" b'] that le by force
    qed
    then have "fetch_spec offset max_bytes bs ?res = fetch_spec offset max_bytes ((b, x) # bs2) ?res"
      unfolding bs by (intro fetch_spec_skip) auto
    then show ?thesis
      using read_loop_spec [of cr s bs1 "(b, x) # bs2"] hold assms(2) bs
      by (simp add: read seek)
  qed
qed

text \<open>The same in terms of the run of batches that is returned.\<close>

lemma fetch_spec_run:
  "\<forall>(b, x) \<in> set bs. offset \<le> last_offset b \<Longrightarrow>
   \<exists>k. batches (fetch_spec offset n bs res) = batches res @ concat (map (\<lambda>bx. encode (fst bx)) (take k bs)) \<and>
     next_offset (fetch_spec offset n bs res) =
       (if take k bs = [] then next_offset res else last_offset (fst (last (take k bs))) + 1) \<and>
     (batches res = [] \<longrightarrow> bs \<noteq> [] \<longrightarrow> take k bs \<noteq> []) \<and>
     (k < length bs \<longrightarrow> length (batches (fetch_spec offset n bs res)) + length (snd (bs ! k)) > n)"
proof (induction bs arbitrary: res)
  case (Cons bx bs)
  obtain b x where bx: "bx = (b, x)" by fastforce
  have ge: "\<not> last_offset b < offset" using Cons.prems by (simp add: bx)
  show ?case
  proof (cases "batches res \<noteq> [] \<and> length (batches res) + length x > n")
    case True
    then show ?thesis using ge by (intro exI [of _ 0]) (simp add: bx)
  next
    case False
    let ?res = "\<lparr> batches = batches res @ encode b, next_offset = last_offset b + 1 \<rparr>"
    have "\<forall>(b, x) \<in> set bs. offset \<le> last_offset b" using Cons.prems by simp
    from Cons.IH [OF this, of ?res] obtain k where
      k: "batches (fetch_spec offset n bs ?res) = batches ?res @ concat (map (\<lambda>bx. encode (fst bx)) (take k bs))"
      "next_offset (fetch_spec offset n bs ?res) =
        (if take k bs = [] then next_offset ?res else last_offset (fst (last (take k bs))) + 1)"
      "k < length bs \<longrightarrow> length (batches (fetch_spec offset n bs ?res)) + length (snd (bs ! k)) > n"
      by blast
    show ?thesis
      using ge False k by (intro exI [of _ "Suc k"]) (auto simp: bx)
  qed
qed (auto intro: exI [of _ 0])

lemma dropWhile_contiguous:
  assumes "contiguous o' (map fst bs)"
  shows "\<forall>(b, x) \<in> set (dropWhile (\<lambda>(b, x). last_offset b < offset) bs). offset \<le> last_offset b"
  using assms
proof (induction bs arbitrary: o')
  case (Cons bx bs)
  obtain b x where bx: "bx = (b, x)" by fastforce
  have cont: "contiguous (o' + record_count (header b)) (map fst bs)" and b: "last_offset b = o' + record_count (header b) - 1"
    using Cons.prems by (simp_all add: bx last_offset_def)
  show ?case
  proof (cases "last_offset b < offset")
    case True
    with Cons.IH [OF cont] show ?thesis by (simp add: bx)
  next
    case False
    have "offset \<le> last_offset b'" if "(b', x') \<in> set bs" for b' x'
      using contiguous_offsets [OF cont, of b'] that b False by force
    with False show ?thesis by (auto simp: bx)
  qed
qed simp

lemma fetch_spec_dropWhile:
  "fetch_spec offset n bs res = fetch_spec offset n (dropWhile (\<lambda>(b, x). last_offset b < offset) bs) res"
  by (induction bs) auto

section \<open>Appending\<close>

lemma index_covers_add:
  assumes "index_covers s bs" "contiguous (seg_base s) (map fst bs)" "seg_small s bs"
    and "b = base_offset (header rb)" "b = end_of (seg_base s) (map fst bs)"
    and "p = data_start s + length (blocks_bytes bs)" "p < 2 ^ 32"
  shows "index_ok (maybe_append (seg_index s) b p n)"
    and "index_anchors (maybe_append (seg_index s) b p n) \<subseteq> block_starts (data_start s) (bs @ [(rb, x)])"
proof -
  let ?ix = "seg_index s"
  have ix: "index_ok ?ix" "idx_base ?ix = seg_base s" "index_anchors ?ix \<subseteq> block_starts (data_start s) bs"
    using assms(1) by (simp_all add: index_covers_def)
  have b: "0 \<le> b - seg_base s" "b - seg_base s < 2 ^ 32"
    using assms(3,5) end_of_ge [OF assms(2)] by (simp_all add: seg_small_def)
  then have fits: "anchor_fits ?ix b p" using ix(2) assms(7) by (simp add: anchor_fits_def)
  show "index_anchors (maybe_append ?ix b p n) \<subseteq> block_starts (data_start s) (bs @ [(rb, x)])"
    using sparse.anchors_add_subset [OF fits ix(3)] assms(4,6) by (simp add: block_starts_append)
  have uint: "uint (word_of_int (b - seg_base s) :: 32 word) = b - seg_base s"
    using b by (simp add: uint_word_of_int_eq take_bit_int_eq_self del: of_int_diff)
  have "relative_offset e < word_of_int (b - idx_base ?ix)" if e: "e \<in> set (entries ?ix)" for e
  proof -
    have "(seg_base s + uint (relative_offset e), unat (file_position e)) \<in> block_starts (data_start s) bs"
      using ix(2,3) e by (auto simp: index_anchors_def)
    from block_startsE [OF this] obtain bs1 b' x' bs2 where
      "bs = bs1 @ (b', x') # bs2" "seg_base s + uint (relative_offset e) = base_offset (header b')" by blast
    moreover from this have "base_offset (header b') < end_of (seg_base s) (map fst bs)"
      using contiguous_offsets [OF assms(2), of b'] by simp
    ultimately have "uint (relative_offset e) < b - seg_base s" using assms(5) by simp
    then show ?thesis using uint ix(2) by (simp add: word_less_def del: of_int_diff)
  qed
  then show "index_ok (maybe_append ?ix b p n)" using ix(1) by (intro maybe_append_ok) auto
qed

lemma log_holds_prefix_write:
  assumes "log_holds cr s bs" "content f = overwrite (content (seg_log s)) (size_bytes s) d"
  shows "log_holds cr (s \<lparr> seg_log := f \<rparr>) bs"
proof -
  let ?n = "length (blocks_bytes bs)" and ?c = "content (seg_log s)"
  have size: "size_bytes s = data_start s + ?n" "size_bytes s \<le> length ?c"
    and eq: "take ?n (drop (data_start s) ?c) = blocks_bytes bs"
    using assms(1) by (simp_all add: log_holds_def)
  have "take (size_bytes s) (content f) = take (size_bytes s) ?c"
    unfolding assms(2) using size by (intro take_overwrite_before) simp_all
  then have "drop (data_start s) (take (data_start s + ?n) (content f)) =
      drop (data_start s) (take (data_start s + ?n) ?c)" using size by simp
  then have "take ?n (drop (data_start s) (content f)) = blocks_bytes bs"
    using eq by (simp add: take_drop add.commute)
  moreover have "size_bytes s \<le> length (content f)"
    using size length_overwrite_bounds(2) [of ?c "size_bytes s" d] by (simp add: assms(2))
  ultimately show ?thesis using assms(1) by (simp add: log_holds_def)
qed


lemma log_holds_append_write:
  assumes "log_holds cr s bs" "is_blk cr (seg_cipher s) b x"
    and "content f = overwrite (content (seg_log s)) (size_bytes s) x"
  shows "log_holds cr (s \<lparr> seg_log := f, seg_index := ix, size_bytes := size_bytes s + length x \<rparr>) (bs @ [(b, x)])"
proof -
  let ?n = "length (blocks_bytes bs)" and ?c = "content (seg_log s)"
  have size: "size_bytes s = data_start s + ?n" "size_bytes s \<le> length ?c"
    and eq: "take ?n (drop (data_start s) ?c) = blocks_bytes bs"
    using assms(1) by (simp_all add: log_holds_def)
  have "take (size_bytes s + length x) (content f) = take (size_bytes s) ?c @ x"
    unfolding assms(3) using size(2) by (rule take_overwrite)
  then have "drop (data_start s) (take (data_start s + ?n + length x) (content f)) =
      drop (data_start s) (take (data_start s + ?n) ?c) @ x" using size by simp
  then have "take (?n + length x) (drop (data_start s) (content f)) = blocks_bytes bs @ x"
    using eq by (simp add: take_drop ac_simps)
  moreover have "size_bytes s + length x \<le> length (content f)"
    using \<open>take (size_bytes s + length x) (content f) = take (size_bytes s) ?c @ x\<close> size(2)
    by (metis length_append length_take min.absorb2 min.cobounded1)
  ultimately show ?thesis using assms(1,2) size by (simp add: log_holds_def)
qed

definition nonce_ok :: "crypto_lib \<Rightarrow> Segment \<Rightarrow> bytes expected \<Rightarrow> bool" where
  "nonce_ok cr s random \<longleftrightarrow>
     seg_cipher s = None \<or> crypto_ok cr \<and> (\<forall>n. random = Inr n \<longrightarrow> length n = kEncNonceBytes)"

lemma framed_block:
  assumes "wf_batch b" "nonce_ok cr s random"
    and "(case seg_cipher s of
            Some c \<Rightarrow> seal_block cr c random (encode b) (base_offset (header b)) (record_count (header b))
          | None \<Rightarrow> Inr (encode b)) = Inr x"
  shows "is_blk cr (seg_cipher s) b x"
proof (cases "seg_cipher s")
  case None
  with assms(1,3) show ?thesis by (simp add: is_blk_def plain_block_def)
next
  case (Some c)
  then obtain n where "random = Inr n"
    using assms(3) by (auto simp: seal_block_def result_iffs split: if_splits)
  with assms Some show ?thesis by (auto simp: is_blk_def sealed_block_def nonce_ok_def)
qed

lemma segment_append_inv:
  assumes "seg_inv cr s bs" "seg_small s bs" "wf_batch b" "1 \<le> record_count (header b)"
    and "base_offset (header b) = end_of (seg_base s) (map fst bs)" "nonce_ok cr s random"
    and "segment_append cr s b random = (s', r)"
  shows "(case r of
            Inr o' \<Rightarrow> o' = last_offset b \<and> (\<exists>x. seg_inv cr s' (bs @ [(b, x)]))
          | Inl e \<Rightarrow> seg_inv cr s' bs) \<and>
    seg_base s' = seg_base s \<and> seg_cipher s' = seg_cipher s \<and> data_start s' = data_start s \<and>
    seg_state s' = seg_state s \<and> (readable (seg_log s) \<longrightarrow> readable (seg_log s'))"
proof -
  have hold: "log_holds cr s bs" and cont: "contiguous (seg_base s) (map fst bs)" and ix: "index_covers s bs"
    using assms(1) by (simp_all add: seg_inv_def)
  let ?framed = "case seg_cipher s of
      Some c \<Rightarrow> seal_block cr c random (encode b) (base_offset (header b)) (record_count (header b))
    | None \<Rightarrow> Inr (encode b)"
  consider (closed) "seg_state s = Closed" | (unframed) e where "seg_state s \<noteq> Closed" "?framed = Inl e"
    | (framed) x where "seg_state s \<noteq> Closed" "?framed = Inr x"
    by (cases ?framed) auto
  then show ?thesis
  proof cases
    case closed
    with assms(1,7) show ?thesis by (auto simp: segment_append_def)
  next
    case unframed
    with assms(1,7) show ?thesis by (auto simp: segment_append_def)
  next
    case framed
    have blk: "is_blk cr (seg_cipher s) b x" using framed_block [OF assms(3,6) framed(2)] .
    obtain f rw where w: "write_at (seg_log s) x (size_bytes s) = (f, rw)" by fastforce
    from w obtain k where k: "k \<le> length x" "content f = overwrite (content (seg_log s)) (size_bytes s) (take k x)"
      "rw = Inr () \<Longrightarrow> k = length x" and fr: "bad f = bad (seg_log s)" "stat_bad f = stat_bad (seg_log s)"
      by (rule write_at_cases) blast
    show ?thesis
    proof (cases rw)
      case (Inl e)
      then have "s' = s \<lparr> seg_log := f \<rparr>" "r = Inl e"
        using assms(7) framed w by (simp_all add: segment_append_def Let_def)
      then show ?thesis
        using log_holds_prefix_write [OF hold k(2)] cont ix fr
        by (simp add: seg_inv_def index_covers_def readable_def)
    next
      case (Inr u)
      let ?ix = "maybe_append (seg_index s) (base_offset (header b)) (size_bytes s) (length x)"
      have s': "s' = s \<lparr> seg_log := f, seg_index := ?ix, size_bytes := size_bytes s + length x \<rparr>"
        and r: "r = Inr (last_offset b)"
        using assms(7) framed w Inr by (simp_all add: segment_append_def Let_def)
      have "log_holds cr s' (bs @ [(b, x)])"
        unfolding s' using log_holds_append_write [OF hold blk] k Inr by simp
      moreover have "index_covers s' (bs @ [(b, x)])"
        using index_covers_add [OF ix cont assms(2) refl assms(5), of "size_bytes s" "length x"] assms(2) hold ix
        by (simp add: s' index_covers_def seg_small_def log_holds_def)
      ultimately show ?thesis
        using cont assms(4,5) r fr by (auto simp: seg_inv_def contiguous_append s' readable_def)
    qed
  qed
qed

section \<open>Recovery\<close>

text \<open>The index that adding the given blocks in order produces.\<close>

fun index_blocks :: "SparseIndex \<Rightarrow> nat \<Rightarrow> block list \<Rightarrow> SparseIndex" where
  "index_blocks ix p [] = ix"
| "index_blocks ix p ((b, x) # bs) =
     index_blocks (maybe_append ix (base_offset (header b)) p (length x)) (p + length x) bs"

text \<open>A tail of the file from which no block can be read.\<close>

definition torn :: "crypto_lib \<Rightarrow> Segment \<Rightarrow> bytes \<Rightarrow> bool" where
  "torn cr s tail \<longleftrightarrow>
     length tail < block_header_size s \<or>
     (case (if seg_cipher s \<noteq> None then enc_peek (take (block_header_size s) tail)
            else plain_peek (take (block_header_size s) tail)) of
        None \<Rightarrow> True
      | Some info \<Rightarrow>
          length tail < bh_on_disk_size info \<or>
          (case (case seg_cipher s of Some c \<Rightarrow> open_block cr c (take (bh_on_disk_size info) tail)
                 | None \<Rightarrow> Inr (take (bh_on_disk_size info) tail)) of
             Inl e \<Rightarrow> e \<noteq> IoError
           | Inr plaintext \<Rightarrow> \<not> is_ok (decode plaintext)))"

text \<open>The file holds the given blocks and then a tail.\<close>

definition log_has :: "crypto_lib \<Rightarrow> Segment \<Rightarrow> block list \<Rightarrow> bytes \<Rightarrow> bool" where
  "log_has cr s bs tail \<longleftrightarrow>
     list_all (\<lambda>(b, x). is_blk cr (seg_cipher s) b x) bs \<and>
     size_bytes s = data_start s + length (blocks_bytes bs) + length tail \<and>
     size_bytes s = length (content (seg_log s)) \<and>
     drop (data_start s) (content (seg_log s)) = blocks_bytes bs @ tail"

lemma recover_loop_blocks:
  "log_has cr s (bs1 @ bs2) tail \<Longrightarrow> readable (seg_log s) \<Longrightarrow>
   recover_loop cr s ix (data_start s + length (blocks_bytes bs1)) l =
   recover_loop cr s (index_blocks ix (data_start s + length (blocks_bytes bs1)) bs2)
     (data_start s + length (blocks_bytes (bs1 @ bs2)))
     (if bs2 = [] then l else last_offset (fst (last bs2)))"
proof (induction bs2 arbitrary: bs1 ix l)
  case (Cons bx bs)
  obtain b x where bx: "bx = (b, x)" by fastforce
  let ?pos = "data_start s + length (blocks_bytes bs1)"
  have has: "log_has cr s ((bs1 @ [(b, x)]) @ bs) tail" using Cons.prems(1) by (simp add: bx)
  have blk: "is_blk cr (seg_cipher s) b x"
    and log: "drop (data_start s) (content (seg_log s)) = blocks_bytes bs1 @ x @ blocks_bytes bs @ tail"
    and size: "size_bytes s = ?pos + length x + length (blocks_bytes bs) + length tail"
    using Cons.prems(1) by (simp_all add: bx log_has_def)
  have "drop ?pos (content (seg_log s)) = x @ blocks_bytes bs @ tail"
  proof -
    have "drop (length (blocks_bytes bs1)) (drop (data_start s) (content (seg_log s))) = x @ blocks_bytes bs @ tail"
      unfolding log by simp
    then show ?thesis by (simp add: add.commute)
  qed
  then have at: "take (length x) (drop ?pos (content (seg_log s))) = x" by simp
  have le: "?pos + length x \<le> size_bytes s" using size by simp
  have lt: "?pos < size_bytes s" using size is_blk_facts(4) [OF blk] by (cases x) auto
  have dec: "decode (encode b) = Inr b"
    using decode_encode [OF is_blk_facts(3) [OF blk], of "[]"] by simp
  have "recover_loop cr s ix ?pos l =
      recover_loop cr s (maybe_append ix (base_offset (header b)) ?pos (length x)) (?pos + length x) (last_offset b)"
    using block_at [OF blk at le Cons.prems(2)] le lt dec
    by (subst recover_loop.simps) (simp add: Let_def)
  also have "\<dots> = recover_loop cr s
      (index_blocks (maybe_append ix (base_offset (header b)) ?pos (length x)) (?pos + length x) bs)
      (data_start s + length (blocks_bytes ((bs1 @ [(b, x)]) @ bs)))
      (if bs = [] then last_offset b else last_offset (fst (last bs)))"
    using Cons.IH [OF has Cons.prems(2)] by (simp add: add.assoc)
  finally show ?case by (simp add: bx)
qed simp

lemma recover_loop_torn:
  assumes "log_has cr s bs tail" "readable (seg_log s)" "torn cr s tail"
  shows "recover_loop cr s ix (data_start s + length (blocks_bytes bs)) l =
    (ix, Inr (data_start s + length (blocks_bytes bs), l))"
proof -
  let ?pos = "data_start s + length (blocks_bytes bs)" and ?c = "content (seg_log s)"
  have size: "size_bytes s = ?pos + length tail" using assms(1) by (simp add: log_has_def)
  have tail: "drop ?pos ?c = tail"
  proof -
    have "drop (length (blocks_bytes bs)) (drop (data_start s) ?c) = tail"
      using assms(1) by (simp add: log_has_def)
    then show ?thesis by (simp add: add.commute)
  qed
  have load: "load_block cr s ?pos n = (case seg_cipher s of Some c \<Rightarrow> open_block cr c (take n tail)
      | None \<Rightarrow> Inr (take n tail))" if "n \<le> length tail" for n
    using that assms(2) tail by (simp add: load_block_def read_at_readable)
  show ?thesis
  proof (cases "length tail < block_header_size s")
    case True
    then have "peek_block s ?pos = Inr None" using size by (simp add: peek_block_def Let_def)
    then show ?thesis by (subst recover_loop.simps) simp
  next
    case False
    then have "peek_block s ?pos = Inr (if seg_cipher s \<noteq> None then enc_peek (take (block_header_size s) tail)
            else plain_peek (take (block_header_size s) tail))"
      using size assms(2) tail by (simp add: peek_block_def read_at_readable Let_def)
    then show ?thesis
      using assms(3) False size load
      by (subst recover_loop.simps)
        (auto simp: torn_def is_ok_def Let_def split: option.splits sum.splits)
  qed
qed


lemma index_blocks_frame [simp]:
  "idx_base (index_blocks ix p bs) = idx_base ix" "idx_file (index_blocks ix p bs) = idx_file ix"
  by (induction ix p bs rule: index_blocks.induct) simp_all

lemma index_blocks_covers:
  "index_ok ix \<Longrightarrow> idx_base ix = base \<Longrightarrow> index_anchors ix \<subseteq> block_starts ds bs1 \<Longrightarrow>
   contiguous base (map fst (bs1 @ bs2)) \<Longrightarrow> ds + length (blocks_bytes (bs1 @ bs2)) < 2 ^ 32 \<Longrightarrow>
   end_of base (map fst (bs1 @ bs2)) - base < 2 ^ 32 \<Longrightarrow>
   index_ok (index_blocks ix (ds + length (blocks_bytes bs1)) bs2) \<and>
   index_anchors (index_blocks ix (ds + length (blocks_bytes bs1)) bs2) \<subseteq> block_starts ds (bs1 @ bs2)"
proof (induction bs2 arbitrary: bs1 ix)
  case (Cons bx bs)
  obtain b x where bx: "bx = (b, x)" by fastforce
  let ?p = "ds + length (blocks_bytes bs1)"
  let ?ix = "maybe_append ix (base_offset (header b)) ?p (length x)"
  let ?s = "\<lparr> seg_base = base, seg_log = empty_file, seg_index = ix, size_bytes = ?p,
    seg_cipher = None, data_start = ds, seg_state = Active \<rparr>"
  have cont: "contiguous base (map fst bs1)" "base_offset (header b) = end_of base (map fst bs1)"
    "contiguous (end_of base (map fst bs1)) (b # map fst bs)"
    using Cons.prems(4) by (auto simp: bx contiguous_append)
  have "end_of base (map fst bs1) \<le> end_of base (map fst (bs1 @ bx # bs))"
    using end_of_ge [OF cont(3)] by (simp add: bx end_of_append)
  then have small: "seg_small ?s bs1" using Cons.prems(5,6) by (simp add: seg_small_def)
  have cov: "index_covers ?s bs1" using Cons.prems(1-3) by (simp add: index_covers_def)
  have "index_ok ?ix" "index_anchors ?ix \<subseteq> block_starts ds (bs1 @ [(b, x)])"
    using index_covers_add(1) [OF cov _ small refl _ refl, where rb = b and n = "length x"]
      index_covers_add(2) [OF cov _ small refl _ refl, where rb = b and n = "length x" and x = x]
      cont Cons.prems(5) by simp_all
  with Cons.IH [of ?ix "bs1 @ [(b, x)]"] Cons.prems
  show ?case by (simp add: bx add.assoc)
qed simp

lemma log_has_cut:
  assumes "log_has cr s bs tail" "content f = take (data_start s + length (blocks_bytes bs)) (content (seg_log s))"
  shows "log_holds cr (s \<lparr> seg_log := f, seg_index := ix, size_bytes := data_start s + length (blocks_bytes bs) \<rparr>) bs"
proof -
  let ?p = "data_start s + length (blocks_bytes bs)"
  have "?p \<le> length (content (seg_log s))" using assms(1) by (simp add: log_has_def)
  moreover have "drop (data_start s) (take ?p (content (seg_log s))) = blocks_bytes bs"
  proof -
    have "drop (data_start s) (content (seg_log s)) = blocks_bytes bs @ tail"
      using assms(1) by (simp add: log_has_def)
    then show ?thesis by (simp add: drop_take)
  qed
  ultimately show ?thesis using assms by (simp add: log_holds_def log_has_def)
qed

lemma log_has_whole:
  "log_has cr s bs [] \<Longrightarrow> log_holds cr (s \<lparr> seg_index := ix \<rparr>) bs"
  by (simp add: log_holds_def log_has_def)

lemma segment_recover_inv:
  assumes "log_has cr s bs tail" "torn cr s tail \<or> tail = []" "readable (seg_log s)"
    and "contiguous (seg_base s) (map fst bs)" "idx_base (seg_index s) = seg_base s"
    and "seg_small (s \<lparr> size_bytes := data_start s + length (blocks_bytes bs) \<rparr>) bs"
    and "segment_recover cr s = (s', Inr l)"
  shows "seg_inv cr s' bs \<and> l = end_of (seg_base s) (map fst bs) - 1 \<and>
    seg_base s' = seg_base s \<and> seg_cipher s' = seg_cipher s \<and> data_start s' = data_start s \<and>
    seg_state s' = seg_state s \<and> readable (seg_log s') \<and>
    flushed (seg_index s') = length (entries (seg_index s')) \<and>
    (readable (idx_file (seg_index s)) \<longrightarrow> readable (idx_file (seg_index s')))"
proof -
  let ?p = "data_start s + length (blocks_bytes bs)"
  from assms(7) obtain ix0 where reset: "index_reset (seg_index s) = (ix0, Inr ())"
    by (auto simp: segment_recover_def split: prod.splits sum.splits)
  note r0 = index_reset_ok [OF reset]
  let ?ix = "index_blocks ix0 (data_start s) bs"
  have covers: "index_ok ?ix" "index_anchors ?ix \<subseteq> block_starts (data_start s) bs" "idx_base ?ix = seg_base s"
    using index_blocks_covers [of ix0 "seg_base s" "data_start s" "[]" bs] r0 assms(4,5,6)
    by (simp_all add: index_anchors_def seg_small_def)
  have last: "(if bs = [] then seg_base s - 1 else last_offset (fst (last bs))) = end_of (seg_base s) (map fst bs) - 1"
  proof (cases bs rule: rev_cases)
    case (snoc bs1 bx)
    with assms(4) show ?thesis by (simp add: contiguous_append last_offset_def)
  qed simp
  have stop: "recover_loop cr s ?ix ?p l' = (?ix, Inr (?p, l'))" for l'
  proof (cases "tail = []")
    case True
    then show ?thesis using assms(1) by (subst recover_loop.simps) (simp add: log_has_def)
  next
    case False
    then show ?thesis using recover_loop_torn [OF assms(1,3)] assms(2) by blast
  qed
  have loop: "recover_loop cr s ix0 (data_start s) (seg_base s - 1) =
      (?ix, Inr (?p, end_of (seg_base s) (map fst bs) - 1))"
    using recover_loop_blocks [of cr s "[]" bs tail ix0 "seg_base s - 1"] assms(1,3) stop last by simp
  have size: "size_bytes s = ?p + length tail" using assms(1) by (simp add: log_has_def)
  show ?thesis
  proof (cases "tail = []")
    case True
    with assms(7) reset loop size obtain ix2 where fl: "index_flush ?ix = (ix2, Inr ())"
      and s': "s' = s \<lparr> seg_index := ix2 \<rparr>" and l: "l = end_of (seg_base s) (map fst bs) - 1"
      by (auto simp: segment_recover_def split: prod.splits sum.splits)
    note fo = index_flush_ok [OF covers(1) fl]
    then have "index_covers s' bs"
      using covers by (simp add: s' index_covers_def index_anchors_def)
    moreover have "log_holds cr s' bs" unfolding s' using assms(1) True by (intro log_has_whole) simp
    ultimately show ?thesis using assms(3,4) s' l fo r0 by (simp add: seg_inv_def readable_def)
  next
    case False
    with size have lt: "?p < size_bytes s" by simp
    from assms(7) reset loop lt obtain f ix2 where tr: "truncate_file (seg_log s) ?p = (f, Inr ())"
      and fl: "index_flush ?ix = (ix2, Inr ())"
      and s': "s' = s \<lparr> seg_log := f, seg_index := ix2, size_bytes := ?p \<rparr>"
      and l: "l = end_of (seg_base s) (map fst bs) - 1"
      by (auto simp: segment_recover_def Let_def split: prod.splits sum.splits)
    have f: "content f = take ?p (content (seg_log s))"
      using truncate_file_ok [OF tr] assms(1) by (simp add: log_has_def)
    note fo = index_flush_ok [OF covers(1) fl]
    then have "index_covers s' bs"
      using covers by (simp add: s' index_covers_def index_anchors_def)
    moreover have "log_holds cr s' bs" unfolding s' by (rule log_has_cut [OF assms(1) f])
    moreover have "readable f" using assms(3) truncate_file_frame [of "seg_log s" ?p] tr by (simp add: readable_def)
    ultimately show ?thesis using assms(4) s' l fo r0 by (simp add: seg_inv_def readable_def)
  qed
qed


text \<open>What a crash in the middle of an append leaves behind is torn.\<close>

lemma partial_block_torn:
  assumes "is_blk cr (seg_cipher s) b x" "k < length x"
  shows "torn cr s (take k x)"
proof (cases "k < block_header_size s")
  case False
  then have "take (block_header_size s) (take k x) = take (block_header_size s) x" by simp
  then show ?thesis
    using is_blk_facts(5) [OF assms(1)] assms(2) by (cases "seg_cipher s") (simp_all add: torn_def)
qed (use assms(2) in \<open>simp add: torn_def\<close>)

lemma index_flush_healthy:
  assumes "sched (idx_file ix) = []"
  shows "snd (index_flush ix) = Inr () \<and> sched (idx_file (fst (index_flush ix))) = []"
  using assms by (simp add: index_flush_def write_at_healthy sync_file_healthy)

lemma index_reset_healthy:
  assumes "sched (idx_file ix) = []"
  shows "snd (index_reset ix) = Inr () \<and> sched (idx_file (fst (index_reset ix))) = []"
  using assms by (simp add: index_reset_def truncate_file_healthy)

lemma segment_recover_healthy:
  assumes "log_has cr s bs tail" "torn cr s tail \<or> tail = []" "readable (seg_log s)"
    and "sched (seg_log s) = []" "sched (idx_file (seg_index s)) = []"
  shows "\<exists>s' l. segment_recover cr s = (s', Inr l) \<and> content (seg_log s') =
    take (data_start s + length (blocks_bytes bs)) (content (seg_log s))"
proof -
  let ?p = "data_start s + length (blocks_bytes bs)"
  obtain ix0 where reset: "index_reset (seg_index s) = (ix0, Inr ())" and h0: "sched (idx_file ix0) = []"
    using index_reset_healthy [OF assms(5)] by (cases "index_reset (seg_index s)") auto
  let ?ix = "index_blocks ix0 (data_start s) bs"
  have stop: "recover_loop cr s ?ix ?p l' = (?ix, Inr (?p, l'))" for l'
  proof (cases "tail = []")
    case True
    then show ?thesis using assms(1) by (subst recover_loop.simps) (simp add: log_has_def)
  next
    case False
    then show ?thesis using recover_loop_torn [OF assms(1,3)] assms(2) by blast
  qed
  then obtain l where loop: "recover_loop cr s ix0 (data_start s) (seg_base s - 1) = (?ix, Inr (?p, l))"
    using recover_loop_blocks [of cr s "[]" bs tail ix0 "seg_base s - 1"] assms(1,3) by simp
  obtain ix2 where fl: "index_flush ?ix = (ix2, Inr ())"
    using index_flush_healthy [of ?ix] h0 by (cases "index_flush ?ix") auto
  have size: "size_bytes s = ?p + length tail" "length (content (seg_log s)) = size_bytes s"
    using assms(1) by (simp_all add: log_has_def)
  have tr: "truncate_file (seg_log s) ?p = ((seg_log s) \<lparr> content := take ?p (content (seg_log s)) \<rparr>, Inr ())"
    using size assms(4) by (intro truncate_file_healthy) simp_all
  show ?thesis
    using reset loop fl tr size by (cases "?p < size_bytes s") (auto simp: segment_recover_def Let_def)
qed

section \<open>Truncation\<close>

lemma position_loop_spec:
  "log_holds cr s (bs1 @ bs2) \<Longrightarrow> readable (seg_log s) \<Longrightarrow> contiguous o' (map fst bs2) \<Longrightarrow>
   position_loop s target (data_start s + length (blocks_bytes bs1)) =
     (case dropWhile (\<lambda>(b, x). base_offset (header b) < target) bs2 of
        [] \<Rightarrow> Inl InvalidArgument
      | (b, x) # r \<Rightarrow>
          if base_offset (header b) = target
          then Inr (data_start s + length (blocks_bytes bs1) +
                    length (blocks_bytes (takeWhile (\<lambda>(b, x). base_offset (header b) < target) bs2)))
          else Inl InvalidArgument)"
proof (induction bs2 arbitrary: bs1 o')
  case Nil
  then have "size_bytes s = data_start s + length (blocks_bytes bs1)" by (simp add: log_holds_def)
  then show ?case by (simp add: position_loop.simps)
next
  case (Cons bx bs)
  obtain b x where bx: "bx = (b, x)" by fastforce
  let ?pos = "data_start s + length (blocks_bytes bs1)"
  have hold: "log_holds cr s (bs1 @ (b, x) # bs)" "log_holds cr s ((bs1 @ [(b, x)]) @ bs)"
    using Cons.prems(1) by (simp_all add: bx)
  note blk = log_holds_block [OF hold(1)]
  have pos: "?pos + length x \<le> size_bytes s" "?pos < size_bytes s"
    using blk(3) is_blk_facts(4) [OF blk(1)] by (cases x; simp)+
  note at = block_at(1) [OF blk(1,2) pos(1) Cons.prems(2)]
  have "contiguous (o' + record_count (header b)) (map fst bs)" using Cons.prems(3) by (simp add: bx)
  note IH = Cons.IH [OF hold(2) Cons.prems(2) this]
  show ?case
  proof (cases "base_offset (header b) < target")
    case True
    obtain d where d: "dropWhile (\<lambda>(b, x). base_offset (header b) < target) bs = d" by blast
    have "position_loop s target ?pos = position_loop s target (?pos + length x)"
      using True at pos(2) by (subst position_loop.simps) simp
    with IH True show ?thesis unfolding d by (cases d) (auto simp: bx d add.assoc split: prod.splits)
  next
    case False
    with at pos(2) show ?thesis by (subst position_loop.simps) (simp add: bx)
  qed
qed

lemma rebuild_loop_spec:
  "log_holds cr s (bs1 @ bs2) \<Longrightarrow> readable (seg_log s) \<Longrightarrow>
   rebuild_loop s ix (data_start s + length (blocks_bytes bs1)) =
     (index_blocks ix (data_start s + length (blocks_bytes bs1)) bs2, Inr ())"
proof (induction bs2 arbitrary: bs1 ix)
  case Nil
  then have "size_bytes s = data_start s + length (blocks_bytes bs1)" by (simp add: log_holds_def)
  then show ?case by (simp add: rebuild_loop.simps)
next
  case (Cons bx bs)
  obtain b x where bx: "bx = (b, x)" by fastforce
  let ?pos = "data_start s + length (blocks_bytes bs1)"
  have hold: "log_holds cr s (bs1 @ (b, x) # bs)" "log_holds cr s ((bs1 @ [(b, x)]) @ bs)"
    using Cons.prems(1) by (simp_all add: bx)
  note blk = log_holds_block [OF hold(1)]
  have pos: "?pos + length x \<le> size_bytes s" "?pos < size_bytes s"
    using blk(3) is_blk_facts(4) [OF blk(1)] by (cases x; simp)+
  note at = block_at(1) [OF blk(1,2) pos(1) Cons.prems(2)]
  from Cons.IH [OF hold(2) Cons.prems(2), of "maybe_append ix (base_offset (header b)) ?pos (length x)"] at pos(2)
  show ?case by (subst rebuild_loop.simps) (simp add: bx add.assoc)
qed

lemma log_holds_cut:
  assumes "log_holds cr s (bs1 @ bs2)"
    and "content f = take (data_start s + length (blocks_bytes bs1)) (content (seg_log s))"
  shows "log_holds cr (s \<lparr> seg_log := f, size_bytes := data_start s + length (blocks_bytes bs1) \<rparr>) bs1"
proof -
  let ?n = "length (blocks_bytes bs1)" and ?c = "content (seg_log s)"
  have "take (length (blocks_bytes (bs1 @ bs2))) (drop (data_start s) ?c) = blocks_bytes (bs1 @ bs2)"
    and len: "data_start s + length (blocks_bytes (bs1 @ bs2)) \<le> length ?c"
    using assms(1) by (simp_all add: log_holds_def)
  then have "take ?n (take (length (blocks_bytes (bs1 @ bs2))) (drop (data_start s) ?c)) = blocks_bytes bs1"
    by simp
  then have "take ?n (drop (data_start s) ?c) = blocks_bytes bs1" by (simp add: min_def split: if_splits)
  moreover have "drop (data_start s) (content f) = take ?n (drop (data_start s) ?c)"
    by (simp add: assms(2) drop_take)
  ultimately show ?thesis using assms len by (simp add: log_holds_def)
qed

lemma rebuild_index_inv:
  assumes "log_holds cr s bs" "readable (seg_log s)" "contiguous (seg_base s) (map fst bs)"
    and "idx_base (seg_index s) = seg_base s" "seg_small s bs" "rebuild_index s = (s', Inr u)"
  shows "seg_inv cr s' bs \<and> (\<exists>ix. s' = s \<lparr> seg_index := ix \<rparr>)"
proof -
  from assms(6) obtain ix0 where reset: "index_reset (seg_index s) = (ix0, Inr ())"
    by (auto simp: rebuild_index_def split: prod.splits sum.splits)
  note r0 = index_reset_ok [OF reset]
  let ?ix = "index_blocks ix0 (data_start s) bs"
  have covers: "index_ok ?ix" "index_anchors ?ix \<subseteq> block_starts (data_start s) bs" "idx_base ?ix = seg_base s"
    using index_blocks_covers [of ix0 "seg_base s" "data_start s" "[]" bs] r0 assms(1,3,4,5)
    by (simp_all add: index_anchors_def seg_small_def log_holds_def)
  have loop: "rebuild_loop s ix0 (data_start s) = (?ix, Inr ())"
    using rebuild_loop_spec [of cr s "[]" bs ix0] assms(1,2) by simp
  obtain ix2 where fl: "index_flush ?ix = (ix2, Inr u)" and s': "s' = s \<lparr> seg_index := ix2 \<rparr>"
    using assms(6) reset loop by (auto simp: rebuild_index_def split: prod.splits)
  from index_flush_ok [OF covers(1) fl] have "index_covers s' bs"
    using covers by (simp add: s' index_covers_def index_anchors_def)
  moreover have "log_holds cr s' bs" using assms(1) by (simp add: s' log_holds_def)
  ultimately show ?thesis using assms(3) s' by (auto simp: seg_inv_def)
qed


lemma boundary_split:
  assumes "contiguous o' (map fst (bs1 @ bs2))" "target = end_of o' (map fst bs1)"
  shows "takeWhile (\<lambda>(b, x). base_offset (header b) < target) (bs1 @ bs2) = bs1"
    "dropWhile (\<lambda>(b, x). base_offset (header b) < target) (bs1 @ bs2) = bs2"
proof -
  have c: "contiguous o' (map fst bs1)" "contiguous target (map fst bs2)"
    using assms by (simp_all add: contiguous_append)
  have 1: "base_offset (header b) < target" if "(b, x) \<in> set bs1" for b x
    using contiguous_offsets [OF c(1), of b] that assms(2) by force
  have 2: "\<not> base_offset (header b) < target" if "(b, x) \<in> set bs2" for b x
    using contiguous_offsets [OF c(2), of b] that by force
  have "takeWhile (\<lambda>(b, x). base_offset (header b) < target) bs2 = []"
    using 2 by (cases bs2) auto
  then show "takeWhile (\<lambda>(b, x). base_offset (header b) < target) (bs1 @ bs2) = bs1"
    using 1 by (subst takeWhile_append2) auto
  have "dropWhile (\<lambda>(b, x). base_offset (header b) < target) bs2 = bs2"
    using 2 by (cases bs2) auto
  then show "dropWhile (\<lambda>(b, x). base_offset (header b) < target) (bs1 @ bs2) = bs2"
    using 1 by (subst dropWhile_append2) auto
qed

lemma position_of_boundary:
  assumes "seg_inv cr s (bs1 @ bs2)" "readable (seg_log s)" "bs1 = [] \<or> bs2 \<noteq> []"
  shows "position_of s (end_of (seg_base s) (map fst bs1)) = Inr (data_start s + length (blocks_bytes bs1))"
proof -
  let ?t = "end_of (seg_base s) (map fst bs1)"
  have hold: "log_holds cr s (bs1 @ bs2)" and cont: "contiguous (seg_base s) (map fst (bs1 @ bs2))"
    using assms(1) by (simp_all add: seg_inv_def)
  show ?thesis
  proof (cases "bs1 = []")
    case False
    then obtain b x r where bs2: "bs2 = (b, x) # r" using assms(3) by (cases bs2) auto
    have "?t \<noteq> seg_base s"
      using False end_of_ge [of "seg_base s" "map fst bs1"] cont by (auto simp: contiguous_append)
    moreover have "base_offset (header b) = ?t" using cont by (simp add: bs2 contiguous_append)
    ultimately show ?thesis
      using position_loop_spec [of cr s "[]" "bs1 @ bs2" "seg_base s" ?t] hold cont assms(2)
        boundary_split [OF cont refl] bs2 by (simp add: position_of_def)
  qed (simp add: position_of_def)
qed

lemma position_of_inside:
  assumes "seg_inv cr s bs" "readable (seg_log s)" "target \<noteq> seg_base s"
    and "\<forall>(b, x) \<in> set bs. base_offset (header b) \<noteq> target"
  shows "position_of s target = Inl InvalidArgument"
proof -
  have hold: "log_holds cr s bs" and cont: "contiguous (seg_base s) (map fst bs)"
    using assms(1) by (simp_all add: seg_inv_def)
  obtain d where d: "dropWhile (\<lambda>(b, x). base_offset (header b) < target) bs = d" by blast
  have "base_offset (header b) \<noteq> target" if "d = (b, x) # r" for b x r
    using assms(4) set_dropWhileD [of "(b, x)" "\<lambda>(b, x). base_offset (header b) < target" bs] that d by auto
  then show ?thesis
    using position_loop_spec [of cr s "[]" bs "seg_base s" target] hold cont assms(2,3)
    unfolding d by (cases d) (auto simp: position_of_def)
qed

lemma seg_small_prefix:
  assumes "seg_small s (bs1 @ bs2)" "contiguous (seg_base s) (map fst (bs1 @ bs2))" "n \<le> size_bytes s"
  shows "seg_small (s \<lparr> seg_log := f, size_bytes := n \<rparr>) bs1"
proof -
  have "end_of (seg_base s) (map fst bs1) \<le> end_of (seg_base s) (map fst (bs1 @ bs2))"
    using assms(2) end_of_ge [of "end_of (seg_base s) (map fst bs1)" "map fst bs2"]
    by (simp add: contiguous_append end_of_append)
  with assms(1,3) show ?thesis by (simp add: seg_small_def)
qed

lemma log_holds_no_bytes:
  assumes "log_holds cr s (bs1 @ bs2)" "blocks_bytes bs2 = []"
  shows "bs2 = []"
proof (rule ccontr)
  assume "bs2 \<noteq> []"
  then obtain b x r where bs2: "bs2 = (b, x) # r" by (cases bs2) auto
  then have "is_blk cr (seg_cipher s) b x" using assms(1) by (simp add: log_holds_def)
  from is_blk_facts(4) [OF this] assms(2) bs2 show False by simp
qed

lemma segment_truncate_inv:
  assumes "seg_inv cr s (bs1 @ bs2)" "readable (seg_log s)" "seg_small s (bs1 @ bs2)"
    and "bs1 = [] \<or> bs2 \<noteq> []"
    and "segment_truncate_to s (end_of (seg_base s) (map fst bs1)) = (s', Inr u)"
  shows "seg_inv cr s' bs1 \<and> seg_state s' = Active \<and> seg_base s' = seg_base s \<and>
    seg_cipher s' = seg_cipher s \<and> data_start s' = data_start s \<and> readable (seg_log s')"
proof -
  let ?p = "data_start s + length (blocks_bytes bs1)"
  have hold: "log_holds cr s (bs1 @ bs2)" and cont: "contiguous (seg_base s) (map fst (bs1 @ bs2))"
    and ib: "idx_base (seg_index s) = seg_base s"
    using assms(1) by (simp_all add: seg_inv_def index_covers_def)
  have cont1: "contiguous (seg_base s) (map fst bs1)" using cont by (simp add: contiguous_append)
  have size: "size_bytes s = ?p + length (blocks_bytes bs2)" "size_bytes s \<le> length (content (seg_log s))"
    using hold by (simp_all add: log_holds_def)
  note pos = position_of_boundary [OF assms(1,2,4)]
  define cut where "cut = (if ?p < size_bytes s then
      case truncate_file (seg_log s) ?p of (f, Inl e) \<Rightarrow> (s \<lparr> seg_log := f \<rparr>, Inl e)
      | (f, Inr u) \<Rightarrow> (s \<lparr> seg_log := f, size_bytes := ?p \<rparr>, Inr u) else (s, Inr ()))"
  from assms(5) pos obtain s1 where c: "cut = (s1, Inr ())"
    by (cases cut) (auto simp: segment_truncate_to_def cut_def Let_def split: prod.splits sum.splits if_splits)
  with assms(5) pos obtain s2 where rb: "rebuild_index s1 = (s2, Inr u)" and s': "s' = s2 \<lparr> seg_state := Active \<rparr>"
    by (auto simp: segment_truncate_to_def cut_def Let_def split: prod.splits sum.splits)
  have "log_holds cr s1 bs1 \<and> readable (seg_log s1) \<and> seg_small s1 bs1 \<and> seg_base s1 = seg_base s \<and>
      seg_index s1 = seg_index s \<and> seg_cipher s1 = seg_cipher s \<and> data_start s1 = data_start s"
  proof (cases "?p < size_bytes s")
    case True
    then obtain f where tr: "truncate_file (seg_log s) ?p = (f, Inr ())"
      and s1: "s1 = s \<lparr> seg_log := f, size_bytes := ?p \<rparr>"
      using c by (auto simp: cut_def split: prod.splits sum.splits)
    have "content f = take ?p (content (seg_log s))" using truncate_file_ok [OF tr] size by simp
    from log_holds_cut [OF hold this] seg_small_prefix [OF assms(3) cont, of ?p f] True
    show ?thesis
      using assms(2) truncate_file_frame [of "seg_log s" ?p] tr by (simp add: s1 readable_def)
  next
    case False
    then have "blocks_bytes bs2 = []" "s1 = s" using size c by (simp_all add: cut_def)
    moreover from this(1) have "bs2 = []" by (rule log_holds_no_bytes [OF hold])
    ultimately show ?thesis using hold assms(2,3) by simp
  qed
  then have "seg_inv cr s2 bs1" "\<exists>ix. s2 = s1 \<lparr> seg_index := ix \<rparr>"
    using rebuild_index_inv [OF _ _ _ _ _ rb, of cr bs1] cont1 ib by auto
  with \<open>log_holds cr s1 bs1 \<and> _\<close> show ?thesis
    by (auto simp: s' seg_inv_def log_holds_def index_covers_def)
qed

lemma segment_truncate_healthy:
  assumes "seg_inv cr s (bs1 @ bs2)" "readable (seg_log s)" "bs1 = [] \<or> bs2 \<noteq> []"
    and "sched (seg_log s) = []" "sched (idx_file (seg_index s)) = []"
  shows "\<exists>s'. segment_truncate_to s (end_of (seg_base s) (map fst bs1)) = (s', Inr ())"
proof -
  let ?p = "data_start s + length (blocks_bytes bs1)" and ?f = "seg_log s"
  have hold: "log_holds cr s (bs1 @ bs2)" using assms(1) by (simp add: seg_inv_def)
  then have size: "size_bytes s = ?p + length (blocks_bytes bs2)" "size_bytes s \<le> length (content ?f)"
    by (simp_all add: log_holds_def)
  define s1 where "s1 = (if ?p < size_bytes s
      then s \<lparr> seg_log := ?f \<lparr> content := take ?p (content ?f) \<rparr>, size_bytes := ?p \<rparr> else s)"
  have tr: "truncate_file ?f ?p = (?f \<lparr> content := take ?p (content ?f) \<rparr>, Inr ())"
    using size assms(4) by (intro truncate_file_healthy) simp_all
  have "log_holds cr s1 bs1"
  proof (cases "?p < size_bytes s")
    case True
    then show ?thesis using log_holds_cut [OF hold, of "?f \<lparr> content := take ?p (content ?f) \<rparr>"] by (simp add: s1_def)
  next
    case False
    then have "blocks_bytes bs2 = []" using size by simp
    then have "bs2 = []" by (rule log_holds_no_bytes [OF hold])
    then show ?thesis using hold False by (simp add: s1_def)
  qed
  moreover have "readable (seg_log s1)" using assms(2) by (simp add: readable_def s1_def)
  ultimately have loop: "\<And>ix. rebuild_loop s1 ix (data_start s1) = (index_blocks ix (data_start s1) bs1, Inr ())"
    using rebuild_loop_spec [of cr s1 "[]" bs1] by simp
  have s1: "seg_index s1 = seg_index s" "data_start s1 = data_start s" by (simp_all add: s1_def)
  obtain ix0 where reset: "index_reset (seg_index s) = (ix0, Inr ())" and h0: "sched (idx_file ix0) = []"
    using index_reset_healthy [OF assms(5)] by (cases "index_reset (seg_index s)") auto
  obtain ix2 where "index_flush (index_blocks ix0 (data_start s) bs1) = (ix2, Inr ())"
    using index_flush_healthy [of "index_blocks ix0 (data_start s) bs1"] h0
    by (cases "index_flush (index_blocks ix0 (data_start s) bs1)") auto
  then have "rebuild_index s1 = (s1 \<lparr> seg_index := ix2 \<rparr>, Inr ())"
    using reset loop s1 by (simp add: rebuild_index_def)
  then show ?thesis
    using position_of_boundary [OF assms(1-3)] tr
    by (cases "?p < size_bytes s") (simp_all add: s1_def segment_truncate_to_def)
qed

section \<open>Durability\<close>

lemma segment_sync_inv:
  assumes "seg_inv cr s bs" "segment_sync s = (s', r)"
  shows "seg_inv cr s' bs \<and> seg_base s' = seg_base s \<and> seg_cipher s' = seg_cipher s \<and>
    data_start s' = data_start s \<and> seg_state s' = seg_state s \<and> size_bytes s' = size_bytes s \<and>
    content (seg_log s') = content (seg_log s) \<and> (readable (seg_log s) \<longrightarrow> readable (seg_log s'))"
proof -
  obtain ix ri where fl: "index_flush (seg_index s) = (ix, ri)" by fastforce
  have "index_ok (seg_index s)" using assms(1) by (simp add: seg_inv_def index_covers_def)
  note f = index_flush_ok [OF this fl]
  have "s' = s \<lparr> seg_index := ix \<rparr> \<or> s' = s \<lparr> seg_index := ix, seg_log := fst (sync_file (seg_log s)) \<rparr>"
    using assms(2) fl by (auto simp: segment_sync_def split: sum.splits prod.splits)
  moreover have "index_anchors ix = index_anchors (seg_index s)" using f by (simp add: index_anchors_def)
  ultimately show ?thesis
    using assms(1) f by (auto simp: seg_inv_def log_holds_def index_covers_def readable_def)
qed

lemma segment_seal_inv:
  assumes "seg_inv cr s bs" "segment_seal s = (s', r)"
  shows "seg_inv cr s' bs \<and> seg_base s' = seg_base s \<and> seg_cipher s' = seg_cipher s \<and>
    data_start s' = data_start s \<and> size_bytes s' = size_bytes s \<and>
    content (seg_log s') = content (seg_log s) \<and> (readable (seg_log s) \<longrightarrow> readable (seg_log s')) \<and>
    (is_ok r \<longrightarrow> seg_state s' = Closed)"
proof -
  obtain s1 r1 where sy: "segment_sync s = (s1, r1)" by fastforce
  from segment_sync_inv [OF assms(1) sy] assms(2) sy show ?thesis
    by (cases r1) (auto simp: segment_seal_def seg_inv_def log_holds_def index_covers_def)
qed


section \<open>Properties\<close>

text \<open>
  Appending to a segment is all or nothing at the level of batches.  Whatever the
  file system does during the write (partial, interrupted or failed writes), the segment still
  holds its earlier batches, followed by the new one exactly when \<open>append\<close> returned its
  last offset.
\<close>

theorem segment_append_atomic:
  assumes "seg_inv cr s bs" "seg_small s bs" "wf_batch b" "1 \<le> record_count (header b)"
    and "base_offset (header b) = end_of (seg_base s) (map fst bs)" "nonce_ok cr s random"
  shows "case segment_append cr s b random of
      (s', Inr o') \<Rightarrow> o' = last_offset b \<and> (\<exists>x. seg_inv cr s' (bs @ [(b, x)]))
    | (s', Inl e) \<Rightarrow> seg_inv cr s' bs"
  using segment_append_inv [OF assms] by (auto split: prod.split sum.split)

definition sample_segment :: Segment where
  "sample_segment = \<lparr> seg_base = 7,
     seg_log = empty_file \<lparr> content := encode sample_batch @ [9, 9], sched := [Done 5, Eintr, Failed] \<rparr>,
     seg_index = \<lparr> idx_file = empty_file, idx_base = 7, interval = 4096, bytes_since = 39,
       entries = [], flushed = 0 \<rparr>,
     size_bytes = 39, seg_cipher = None, data_start = 0, seg_state = Active \<rparr>"

definition no_crypto :: crypto_lib where
  "no_crypto = \<lparr> openssl = False, hkdf_sha256 = (\<lambda>_ _ _. Inl Unsupported),
     aes_gcm_encrypt = (\<lambda>_ _ _ _. Inl Unsupported), aes_gcm_decrypt = (\<lambda>_ _ _ _ _. Inl Unsupported) \<rparr>"

definition next_batch :: RecordBatch where
  "next_batch = \<lparr> header = default_header \<lparr> base_offset := 9, record_count := 1 \<rparr>, records = [5] \<rparr>"

lemma sample_wf: "wf_batch sample_batch" "wf_batch next_batch"
  by (simp_all add: sample_batch_def next_batch_def default_header_def wf_batch_def wf_header_def)

lemma sample_segment_inv: "seg_inv no_crypto sample_segment [(sample_batch, encode sample_batch)]"
  using sample_wf(1)
  by (simp add: seg_inv_def log_holds_def index_covers_def index_ok_def index_anchors_def sample_segment_def
      empty_file_def is_blk_def plain_block_def encoded_size_def)
    (simp add: sample_batch_def default_header_def)

theorem segment_append_atomic_witness:
  "case segment_append no_crypto sample_segment next_batch (Inl Unsupported) of
     (s', Inr o') \<Rightarrow> o' = last_offset next_batch \<and>
        (\<exists>x. seg_inv no_crypto s' ([(sample_batch, encode sample_batch)] @ [(next_batch, x)]))
   | (s', Inl e) \<Rightarrow> seg_inv no_crypto s' [(sample_batch, encode sample_batch)]"
  by (rule segment_append_atomic [OF sample_segment_inv _ sample_wf(2)])
    (simp_all add: seg_small_def sample_segment_def nonce_ok_def next_batch_def default_header_def sample_batch_def)

text \<open>
  \<open>read\<close> honours its contract and the sparse index is invisible in its result.  It
  returns a run of consecutive whole batches that starts with the first one reaching the
  requested offset; the run is not empty if there is such a batch; it stops only at the end of
  the segment or where the next block would exceed the byte limit; and the next offset is the one
  after the run.
\<close>

theorem segment_read_contract:
  assumes "seg_inv cr s bs" "readable (seg_log s)"
  shows "\<exists>res k. segment_read cr s offset max_bytes = Inr res \<and>
    (let rest = dropWhile (\<lambda>(b, x). last_offset b < offset) bs; run = take k rest in
     batches res = concat (map (\<lambda>bx. encode (fst bx)) run) \<and>
     next_offset res = (if run = [] then offset else last_offset (fst (last run)) + 1) \<and>
     (rest \<noteq> [] \<longrightarrow> run \<noteq> []) \<and>
     (k < length rest \<longrightarrow> length (batches res) + length (snd (rest ! k)) > max_bytes))"
proof -
  let ?rest = "dropWhile (\<lambda>(b, x). last_offset b < offset) bs"
  let ?res = "fetch_spec offset max_bytes ?rest \<lparr> batches = [], next_offset = offset \<rparr>"
  have "contiguous (seg_base s) (map fst bs)" using assms(1) by (simp add: seg_inv_def)
  note run = fetch_spec_run [OF dropWhile_contiguous [OF this, of offset],
      of max_bytes "\<lparr> batches = [], next_offset = offset \<rparr>"]
  then obtain k where "batches ?res = concat (map (\<lambda>bx. encode (fst bx)) (take k ?rest)) \<and>
     next_offset ?res = (if take k ?rest = [] then offset else last_offset (fst (last (take k ?rest))) + 1) \<and>
     (?rest \<noteq> [] \<longrightarrow> take k ?rest \<noteq> []) \<and>
     (k < length ?rest \<longrightarrow> length (batches ?res) + length (snd (?rest ! k)) > max_bytes)"
    unfolding FetchResult.select_convs append_Nil by blast
  moreover have "segment_read cr s offset max_bytes = Inr ?res"
    using segment_read_spec [OF assms] fetch_spec_dropWhile [of offset max_bytes bs] by simp
  ultimately show ?thesis unfolding Let_def by blast
qed

theorem segment_read_contract_witness:
  "\<exists>res. segment_read no_crypto sample_segment 8 100 = Inr res \<and> batches res = encode sample_batch"
proof -
  have rd: "readable (seg_log sample_segment)"
    by (simp add: sample_segment_def readable_def empty_file_def)
  have last: "\<not> last_offset sample_batch < 8"
    by (simp add: sample_batch_def default_header_def last_offset_def)
  from segment_read_contract [OF sample_segment_inv rd, of 8 100] last
  obtain res k where "segment_read no_crypto sample_segment 8 100 = Inr res"
    "batches res = concat (map (\<lambda>bx. encode (fst bx)) (take k [(sample_batch, encode sample_batch)]))"
    "take k [(sample_batch, encode sample_batch)] \<noteq> []"
    by (auto simp: Let_def)
  then show ?thesis by (cases k) auto
qed


definition crashed_segment :: Segment where
  "crashed_segment = \<lparr> seg_base = 7,
     seg_log = empty_file \<lparr> content := encode sample_batch @ take 30 (encode next_batch) \<rparr>,
     seg_index = \<lparr> idx_file = empty_file, idx_base = 7, interval = 0, bytes_since = 0,
       entries = [], flushed = 0 \<rparr>,
     size_bytes = 69, seg_cipher = None, data_start = 0, seg_state = Active \<rparr>"


text \<open>
  Truncation for conflict resolution.  Truncating at the base offset of a batch (or of the
  segment) keeps exactly the batches before it and reopens the segment for appending, and it
  succeeds when the operations of the files do; truncating inside a batch is refused with \<open>InvalidArgument\<close> and changes nothing.
\<close>

theorem segment_truncate_contract:
  assumes "seg_inv cr s bs" "readable (seg_log s)" "seg_small s bs"
  shows "(bs = bs1 @ bs2 \<and> (bs1 = [] \<or> bs2 \<noteq> []) \<longrightarrow>
          (\<forall>s' u. segment_truncate_to s (end_of (seg_base s) (map fst bs1)) = (s', Inr u) \<longrightarrow>
             seg_inv cr s' bs1 \<and> seg_state s' = Active) \<and>
          (sched (seg_log s) = [] \<and> sched (idx_file (seg_index s)) = [] \<longrightarrow>
             (\<exists>s'. segment_truncate_to s (end_of (seg_base s) (map fst bs1)) = (s', Inr ())))) \<and>
     (target \<noteq> seg_base s \<and> (\<forall>(b, x) \<in> set bs. base_offset (header b) \<noteq> target) \<longrightarrow>
        segment_truncate_to s target = (s, Inl InvalidArgument))"
proof (intro conjI impI allI)
  fix s' u
  assume "bs = bs1 @ bs2 \<and> (bs1 = [] \<or> bs2 \<noteq> [])"
    "segment_truncate_to s (end_of (seg_base s) (map fst bs1)) = (s', Inr u)"
  then show "seg_inv cr s' bs1" "seg_state s' = Active"
    using segment_truncate_inv [of cr s bs1 bs2 s' u] assms by simp_all
next
  assume "bs = bs1 @ bs2 \<and> (bs1 = [] \<or> bs2 \<noteq> [])" "sched (seg_log s) = [] \<and> sched (idx_file (seg_index s)) = []"
  then show "\<exists>s'. segment_truncate_to s (end_of (seg_base s) (map fst bs1)) = (s', Inr ())"
    using segment_truncate_healthy [of cr s bs1 bs2] assms by simp
next
  assume "target \<noteq> seg_base s \<and> (\<forall>(b, x) \<in> set bs. base_offset (header b) \<noteq> target)"
  then show "segment_truncate_to s target = (s, Inl InvalidArgument)"
    using position_of_inside [of cr s bs target] assms by (simp add: segment_truncate_to_def)
qed

theorem segment_truncate_contract_witness:
  "segment_truncate_to sample_segment 8 = (sample_segment, Inl InvalidArgument)"
proof -
  have "readable (seg_log sample_segment)" "seg_small sample_segment [(sample_batch, encode sample_batch)]"
    by (simp_all add: sample_segment_def readable_def empty_file_def seg_small_def sample_batch_def default_header_def)
  from segment_truncate_contract [OF sample_segment_inv this, of "[]" "[]" 8]
  show ?thesis by (simp add: sample_segment_def sample_batch_def default_header_def)
qed

end
