(* ===== verification/Partition_Log.thy ===== *)
theory Partition_Log
  imports Segment
begin

text \<open>
  The log of a partition (\<^verbatim>\<open>src/src/storage/partition_log.hpp\<close>, \<^verbatim>\<open>partition_log.cpp\<close>): an
  ordered sequence of segments of which the last is active.  Here there is no
  storage tier (\<^verbatim>\<open>cfg.tier == nullptr\<close>, hence \<^verbatim>\<open>tiered_bases_\<close> is always empty); \<open>Tiered_Log\<close>
  adds it, and \<open>Log_Reopen\<close> treats opening a directory after a crash.

  \<open>plog_inv\<close> relates a log to the batches it holds.  The lemmas show that appends give
  consecutive offsets across segment rotations under every behaviour of the file system, that
  \<open>read\<close> returns runs of consecutive batches across segments, and what truncation and retention keep.
\<close>


section \<open>Operations\<close>

datatype FsyncPolicy = FsyncNone | FsyncInterval | FsyncCommit

record LogConfig =
  segment_bytes :: nat
  index_interval_bytes :: nat
  fsync_policy :: FsyncPolicy
  fsync_interval_bytes :: nat
  encryption_key :: "EncryptionKey option"

record RetentionPolicy =
  retention_bytes :: int
  retention_ms :: int

record PartitionLog =
  cfg :: LogConfig
  segments :: "Segment list"
  log_start_offset :: int
  log_end_offset :: int
  recovery_point :: int
  bytes_since_sync :: nat

text \<open>
  What the surroundings supply to one operation: the files that creating a segment opens, and the
  random bytes for the salt of a new segment and for the nonce of a block.
\<close>

record log_env =
  new_log :: "File expected"
  new_index :: "File expected"
  salt_random :: "bytes expected"
  nonce_random :: "bytes expected"

definition create_segment :: "crypto_lib \<Rightarrow> LogConfig \<Rightarrow> log_env \<Rightarrow> int \<Rightarrow> Segment expected" where
  "create_segment cr c env base =
     segment_create cr (new_log env) (new_index env) base (index_interval_bytes c) (encryption_key c)
       (salt_random env)"

text \<open>
  The segments of the directory: base offset parsed from the name, log file and index file.
\<close>

type_synonym directory = "(int \<times> File \<times> File) list"

fun open_segments :: "crypto_lib \<Rightarrow> LogConfig \<Rightarrow> directory \<Rightarrow> Segment list expected" where
  "open_segments cr c [] = Inr []"
| "open_segments cr c ((base, lf, xf) # dir) =
     bindE (segment_open cr (Inr lf) (Inr xf) base (index_interval_bytes c) (encryption_key c)) (\<lambda>s.
     bindE (open_segments cr c dir) (\<lambda>ss. Inr (s # ss)))"

definition plog_open :: "crypto_lib \<Rightarrow> LogConfig \<Rightarrow> log_env \<Rightarrow> directory \<Rightarrow> PartitionLog expected" where
  "plog_open cr c env dir =
     (if dir = [] then
        bindE (create_segment cr c env 0) (\<lambda>s.
        Inr \<lparr> cfg = c, segments = [s], log_start_offset = 0, log_end_offset = 0,
              recovery_point = 0, bytes_since_sync = 0 \<rparr>)
      else let dir = sort_key fst dir in
        bindE (open_segments cr c dir) (\<lambda>ss.
        case segment_recover cr (last ss) of
          (s, Inl e) \<Rightarrow> Inl e
        | (s, Inr last_valid) \<Rightarrow>
            Inr \<lparr> cfg = c, segments = butlast ss @ [s], log_start_offset = fst (hd dir),
                  log_end_offset = last_valid + 1, recovery_point = last_valid + 1,
                  bytes_since_sync = 0 \<rparr>))"

definition set_active :: "PartitionLog \<Rightarrow> Segment \<Rightarrow> PartitionLog" where
  "set_active pl s = pl \<lparr> segments := butlast (segments pl) @ [s] \<rparr>"

abbreviation active :: "PartitionLog \<Rightarrow> Segment" where
  "active pl \<equiv> last (segments pl)"

definition plog_sync :: "PartitionLog \<Rightarrow> PartitionLog \<times> unit expected" where
  "plog_sync pl =
     (case segment_sync (active pl) of
        (s, Inl e) \<Rightarrow> (set_active pl s, Inl e)
      | (s, Inr u) \<Rightarrow>
          ((set_active pl s) \<lparr> recovery_point := log_end_offset pl, bytes_since_sync := 0 \<rparr>, Inr u))"

definition maybe_sync :: "PartitionLog \<Rightarrow> nat \<Rightarrow> PartitionLog \<times> unit expected" where
  "maybe_sync pl appended_bytes =
     (case fsync_policy (cfg pl) of
        FsyncNone \<Rightarrow> (pl, Inr ())
      | FsyncCommit \<Rightarrow> plog_sync pl
      | FsyncInterval \<Rightarrow>
          let pl = pl \<lparr> bytes_since_sync := bytes_since_sync pl + appended_bytes \<rparr> in
          if bytes_since_sync pl \<ge> fsync_interval_bytes (cfg pl) then plog_sync pl else (pl, Inr ()))"

definition roll_segment :: "crypto_lib \<Rightarrow> log_env \<Rightarrow> PartitionLog \<Rightarrow> PartitionLog \<times> unit expected" where
  "roll_segment cr env pl =
     (case segment_seal (active pl) of
        (s, Inl e) \<Rightarrow> (set_active pl s, Inl e)
      | (s, Inr _) \<Rightarrow>
          let pl = (set_active pl s) \<lparr> recovery_point := log_end_offset pl, bytes_since_sync := 0 \<rparr> in
          (case create_segment cr (cfg pl) env (log_end_offset pl) of
             Inl e \<Rightarrow> (pl, Inl e)
           | Inr s \<Rightarrow> (pl \<lparr> segments := segments pl @ [s] \<rparr>, Inr ())))"

definition rebase :: "RecordBatch \<Rightarrow> int \<Rightarrow> RecordBatch" where
  "rebase batch o' = \<lparr> header = (header batch) \<lparr> base_offset := o' \<rparr>, records = records batch \<rparr>"

text \<open>The part of \<^verbatim>\<open>append\<close> after the rotation.\<close>

definition append_rolled ::
  "crypto_lib \<Rightarrow> log_env \<Rightarrow> PartitionLog \<Rightarrow> RecordBatch \<Rightarrow> PartitionLog \<times> int expected" where
  "append_rolled cr env pl batch =
     (let rebased = rebase batch (log_end_offset pl) in
      case segment_append cr (active pl) rebased (nonce_random env) of
        (s, Inl e) \<Rightarrow> (set_active pl s, Inl e)
      | (s, Inr l) \<Rightarrow>
          let pl = (set_active pl s) \<lparr> log_end_offset := l + 1 \<rparr> in
          (case maybe_sync pl (encoded_size rebased) of
             (pl, Inl e) \<Rightarrow> (pl, Inl e)
           | (pl, Inr _) \<Rightarrow> (pl, Inr l)))"

definition plog_append ::
  "crypto_lib \<Rightarrow> log_env \<Rightarrow> PartitionLog \<Rightarrow> RecordBatch \<Rightarrow> PartitionLog \<times> int expected" where
  "plog_append cr env pl batch =
     (let rolled = (if \<not> is_empty (active pl) \<and> is_full (active pl) (segment_bytes (cfg pl))
                    then roll_segment cr env pl else (pl, Inr ())) in
      case rolled of
        (pl, Inl e) \<Rightarrow> (pl, Inl e)
      | (pl, Inr _) \<Rightarrow> append_rolled cr env pl batch)"

definition plog_truncate_to :: "PartitionLog \<Rightarrow> int \<Rightarrow> PartitionLog \<times> unit expected" where
  "plog_truncate_to pl offset =
     (if offset = log_end_offset pl then (pl, Inr ())
      else if offset > log_end_offset pl then (pl, Inl OutOfRange)
      else if offset < log_start_offset pl then (pl, Inl OutOfRange)
      else let upper = upper_bound seg_base (segments pl) offset;
               pl = pl \<lparr> segments := take upper (segments pl) \<rparr> in
           (case segment_truncate_to (active pl) offset of
              (s, Inl e) \<Rightarrow> (set_active pl s, Inl e)
            | (s, Inr u) \<Rightarrow>
                ((set_active pl s) \<lparr> log_end_offset := offset,
                   recovery_point := min (recovery_point pl) offset, bytes_since_sync := 0 \<rparr>, Inr u)))"

fun drop_below :: "int \<Rightarrow> Segment list \<Rightarrow> Segment list" where
  "drop_below offset (s1 # s2 # ss) =
     (if seg_base s2 \<le> offset then drop_below offset (s2 # ss) else s1 # s2 # ss)"
| "drop_below offset ss = ss"

definition truncate_prefix_to :: "PartitionLog \<Rightarrow> int \<Rightarrow> PartitionLog \<times> unit expected" where
  "truncate_prefix_to pl offset =
     (if offset \<le> log_start_offset pl then (pl, Inr ())
      else if offset > log_end_offset pl then (pl, Inl OutOfRange)
      else let ss = drop_below offset (segments pl) in
           (pl \<lparr> segments := ss, log_start_offset := seg_base (hd ss) \<rparr>, Inr ()))"

definition reset_to :: "crypto_lib \<Rightarrow> log_env \<Rightarrow> PartitionLog \<Rightarrow> int \<Rightarrow> PartitionLog \<times> unit expected" where
  "reset_to cr env pl offset =
     (if offset < 0 then (pl, Inl InvalidArgument)
      else case create_segment cr (cfg pl) env offset of
          Inl e \<Rightarrow> (pl \<lparr> segments := [] \<rparr>, Inl e)
        | Inr s \<Rightarrow>
            (pl \<lparr> segments := [s], log_start_offset := offset, log_end_offset := offset,
                  recovery_point := offset, bytes_since_sync := 0 \<rparr>, Inr ()))"

text \<open>
  The loop of \<^verbatim>\<open>enforce_retention\<close> over the remaining segments and their total size; \<open>age\<close> is the
  age in milliseconds of the log file with the given base, if its time can be read.
\<close>

fun retain :: "RetentionPolicy \<Rightarrow> (int \<Rightarrow> int option) \<Rightarrow> int \<Rightarrow> Segment list \<Rightarrow> Segment list" where
  "retain policy age total_bytes (s1 # s2 # ss) =
     (let eligible = (retention_bytes policy \<ge> 0 \<and> total_bytes > retention_bytes policy) \<or>
            (retention_ms policy \<ge> 0 \<and>
             (case age (seg_base s1) of None \<Rightarrow> False | Some a \<Rightarrow> a > retention_ms policy)) in
      if \<not> eligible then s1 # s2 # ss
      else retain policy age (total_bytes - int (size_bytes s1)) (s2 # ss))"
| "retain policy age total_bytes ss = ss"

definition enforce_retention :: "PartitionLog \<Rightarrow> RetentionPolicy \<Rightarrow> (int \<Rightarrow> int option) \<Rightarrow> PartitionLog" where
  "enforce_retention pl policy age =
     (let total_bytes = sum_list (map (\<lambda>s. int (size_bytes s)) (segments pl));
          ss = retain policy age total_bytes (segments pl) in
      if length ss < length (segments pl)
      then pl \<lparr> segments := ss, log_start_offset := seg_base (hd ss) \<rparr> else pl)"

definition segment_for :: "PartitionLog \<Rightarrow> int \<Rightarrow> Segment option" where
  "segment_for pl offset =
     (let it = upper_bound seg_base (segments pl) offset in
      if it = 0 then None else Some (segments pl ! (it - 1)))"

definition read_local :: "crypto_lib \<Rightarrow> PartitionLog \<Rightarrow> int \<Rightarrow> nat \<Rightarrow> FetchResult expected" where
  "read_local cr pl offset max_bytes =
     (case segment_for pl offset of
        None \<Rightarrow> Inr \<lparr> batches = [], next_offset = 0 \<rparr>
      | Some s \<Rightarrow> segment_read cr s offset max_bytes)"

lemma read_loop_progress:
  "read_loop cr s offset n pos res = Inr res' \<Longrightarrow>
   batches res' = batches res \<and> next_offset res' = next_offset res \<or> offset < next_offset res'"
proof (induction cr s offset n pos res arbitrary: res' rule: read_loop.induct)
  case (1 cr s offset n pos res)
  show ?case
  proof (cases "pos < size_bytes s \<and> (\<exists>info. peek_block s pos = Inr (Some info) \<and>
      \<not> pos + bh_on_disk_size info > size_bytes s)")
    case False
    with 1(3) show ?thesis
      by (subst (asm) read_loop.simps) (auto simp: Let_def split: if_splits sum.splits option.splits)
  next
    case True
    then obtain info where pos: "pos < size_bytes s" and info: "peek_block s pos = Inr (Some info)"
      and size: "\<not> pos + bh_on_disk_size info > size_bytes s" by blast
    consider (skip) "bh_last_offset info < offset"
      | (full) "\<not> bh_last_offset info < offset"
          "batches res \<noteq> [] \<and> length (batches res) + bh_on_disk_size info > n"
      | (add) "\<not> bh_last_offset info < offset"
          "\<not> (batches res \<noteq> [] \<and> length (batches res) + bh_on_disk_size info > n)" by blast
    then show ?thesis
    proof cases
      case skip
      have "read_loop cr s offset n (pos + bh_on_disk_size info) res = Inr res'"
        using 1(3) pos info size skip by (subst (asm) read_loop.simps) (simp add: Let_def)
      from 1(1) [OF pos info refl refl size skip this] show ?thesis .
    next
      case full
      then show ?thesis using 1(3) pos info size by (subst (asm) read_loop.simps) (simp add: Let_def)
    next
      case add
      let ?res = "\<lambda>plain. \<lparr> batches = batches res @ plain, next_offset = bh_last_offset info + 1 \<rparr>"
      obtain plain where "read_loop cr s offset n (pos + bh_on_disk_size info) (?res plain) = Inr res'"
        using 1(3) pos info size add
        by (subst (asm) read_loop.simps) (auto simp: Let_def result_iffs)
      from 1(2) [OF pos info refl refl size add this] add(1) show ?thesis by auto
    qed
  qed
qed

lemma read_local_progress:
  assumes "read_local cr pl offset n = Inr res" "batches res \<noteq> []"
  shows "offset < next_offset res"
  using assms read_loop_progress [of cr _ offset n _ "\<lparr> batches = [], next_offset = offset \<rparr>" res]
  by (auto simp: read_local_def segment_read_def split: option.splits)

text \<open>The loop of \<^verbatim>\<open>PartitionLog::read\<close>; every turn moves the cursor forward.\<close>

function plog_read_loop ::
  "crypto_lib \<Rightarrow> PartitionLog \<Rightarrow> nat \<Rightarrow> int \<Rightarrow> FetchResult \<Rightarrow> FetchResult expected" where
  "plog_read_loop cr pl max_bytes cursor res =
     (if cursor < log_end_offset pl \<and> length (batches res) < max_bytes then
        (case read_local cr pl cursor (max_bytes - length (batches res)) of
           Inl e \<Rightarrow> Inl e
         | Inr fragment \<Rightarrow>
             if batches fragment = [] then Inr res
             else plog_read_loop cr pl max_bytes (next_offset fragment)
                    \<lparr> batches = batches res @ batches fragment, next_offset = next_offset fragment \<rparr>)
      else Inr res)"
  by auto
termination
  by (relation "measure (\<lambda>(cr, pl, max_bytes, cursor, res). nat (log_end_offset pl - cursor))")
    (auto dest: read_local_progress)

declare plog_read_loop.simps [simp del]

definition plog_read :: "crypto_lib \<Rightarrow> PartitionLog \<Rightarrow> int \<Rightarrow> nat \<Rightarrow> FetchResult expected" where
  "plog_read cr pl offset max_bytes =
     (if offset < log_start_offset pl then Inl OutOfRange
      else plog_read_loop cr pl max_bytes offset \<lparr> batches = [], next_offset = offset \<rparr>)"


section \<open>The batches a log holds\<close>

fun chain :: "crypto_lib \<Rightarrow> int \<Rightarrow> Segment list \<Rightarrow> block list list \<Rightarrow> bool" where
  "chain cr o' [] [] \<longleftrightarrow> True"
| "chain cr o' (s # ss) (bs # bss) \<longleftrightarrow>
     seg_base s = o' \<and> seg_inv cr s bs \<and> chain cr (end_of o' (map fst bs)) ss bss"
| "chain cr o' _ _ \<longleftrightarrow> False"

abbreviation log_batches :: "block list list \<Rightarrow> RecordBatch list" where
  "log_batches bss \<equiv> map fst (concat bss)"

definition plog_inv :: "crypto_lib \<Rightarrow> PartitionLog \<Rightarrow> block list list \<Rightarrow> bool" where
  "plog_inv cr pl bss \<longleftrightarrow> segments pl \<noteq> [] \<and> chain cr (log_start_offset pl) (segments pl) bss \<and>
     log_end_offset pl = end_of (log_start_offset pl) (log_batches bss)"

definition plog_readable :: "PartitionLog \<Rightarrow> bool" where
  "plog_readable pl \<longleftrightarrow> (\<forall>s \<in> set (segments pl). readable (seg_log s))"

lemma chain_length: "chain cr o' ss bss \<Longrightarrow> length ss = length bss"
  by (induction cr o' ss bss rule: chain.induct) auto

lemma chain_append:
  "length as = length ass \<Longrightarrow>
   chain cr o' (as @ ss) (ass @ bss) \<longleftrightarrow> chain cr o' as ass \<and> chain cr (end_of o' (log_batches ass)) ss bss"
  by (induction as ass arbitrary: o' rule: list_induct2) (auto simp: end_of_append)

lemma chain_contiguous: "chain cr o' ss bss \<Longrightarrow> contiguous o' (log_batches bss)"
  by (induction cr o' ss bss rule: chain.induct) (auto simp: contiguous_append seg_inv_def)

lemma chain_snocE:
  assumes "chain cr o' ss bss" "ss \<noteq> []"
  obtains bss0 bs where "bss = bss0 @ [bs]" "chain cr o' (butlast ss) bss0"
    "seg_base (last ss) = end_of o' (log_batches bss0)" "seg_inv cr (last ss) bs"
proof -
  have "bss \<noteq> []" using assms chain_length [OF assms(1)] by auto
  then obtain bss0 bs where bss: "bss = bss0 @ [bs]" by (cases bss rule: rev_cases) auto
  have "length (butlast ss) = length bss0" using chain_length [OF assms(1)] bss by simp
  from chain_append [OF this, of cr o' "[last ss]" "[bs]"] assms that [OF bss] bss
  show thesis by simp
qed

lemma chain_snocI:
  "chain cr o' ss bss0 \<Longrightarrow> seg_base s = end_of o' (log_batches bss0) \<Longrightarrow> seg_inv cr s bs \<Longrightarrow>
   chain cr o' (ss @ [s]) (bss0 @ [bs])"
  using chain_append [OF chain_length, of cr o' ss bss0 cr o' "[s]" "[bs]"] by simp

definition env_ok :: "log_env \<Rightarrow> bool" where
  "env_ok env \<longleftrightarrow> (\<forall>f. new_log env = Inr f \<longrightarrow> content f = [] \<and> readable f) \<and>
     (\<forall>f. new_index env = Inr f \<longrightarrow> content f = []) \<and>
     (\<forall>n. salt_random env = Inr n \<longrightarrow> length n = kEncSaltBytes) \<and>
     (\<forall>n. nonce_random env = Inr n \<longrightarrow> length n = kEncNonceBytes)"

lemma index_open_empty:
  assumes "index_open opened base n = Inr ix" "\<And>f. opened = Inr f \<Longrightarrow> content f = []"
  shows "index_ok ix \<and> entries ix = [] \<and> idx_base ix = base"
proof -
  note ok = index_open_ok [OF assms(1)]
  have "content (idx_file ix) = []" using ok assms(2) by blast
  then have "entries ix = []" using ok by (auto simp: index_ok_def)
  with ok show ?thesis by blast
qed

lemma create_segment_inv:
  assumes "create_segment cr c env base = Inr s" "env_ok env"
  shows "seg_inv cr s [] \<and> seg_base s = base \<and> readable (seg_log s) \<and> seg_state s = Active \<and>
    size_bytes s \<le> 32 \<and> (seg_cipher s \<noteq> None \<longrightarrow> encryption_key c \<noteq> None)"
proof -
  from assms(1) obtain f ix where f: "new_log env = Inr f"
    and ix: "index_open (new_index env) base (index_interval_bytes c) = Inr ix"
    by (auto simp: create_segment_def segment_create_def result_iffs)
  have i: "index_ok ix \<and> entries ix = [] \<and> idx_base ix = base"
    using ix assms(2) by (intro index_open_empty) (auto simp: env_ok_def)
  have fc: "content f = []" "readable f" using assms(2) f by (auto simp: env_ok_def)
  show ?thesis
  proof (cases "encryption_key c")
    case None
    with assms(1) f ix have "s = \<lparr> seg_base = base, seg_log = f, seg_index = ix, size_bytes = 0,
        seg_cipher = None, data_start = 0, seg_state = Active \<rparr>"
      by (simp add: create_segment_def segment_create_def)
    then show ?thesis
      using i fc by (simp add: seg_inv_def log_holds_def index_covers_def index_anchors_def)
  next
    case (Some k)
    with assms(1) f ix obtain salt ci where salt: "salt_random env = Inr salt" "cipher_create cr k salt = Inr ci"
      by (auto simp: create_segment_def segment_create_def result_iffs)
    obtain f' rw where w': "write_at f (encode_segment_header salt) 0 = (f', rw)" by fastforce
    with assms(1) f ix salt Some have w: "write_at f (encode_segment_header salt) 0 = (f', Inr ())"
      and s: "s = \<lparr> seg_base = base, seg_log = f', seg_index = ix, size_bytes = 32,
        seg_cipher = Some ci, data_start = 32, seg_state = Active \<rparr>"
      by (auto simp: create_segment_def segment_create_def split: sum.splits)
    have "length salt = 16" using assms(2) salt(1) by (simp add: env_ok_def)
    then have "length (encode_segment_header salt) = 32" by (rule parse_encode_segment_header(2))
    moreover from w have "content f' = encode_segment_header salt \<and> readable f'"
      using fc by (rule_tac write_at_cases [OF w]) (auto simp: overwrite_def readable_def)
    ultimately show ?thesis
      using i s Some by (simp add: seg_inv_def log_holds_def index_covers_def index_anchors_def)
  qed
qed

section \<open>Appending\<close>

lemma set_active_simps [simp]:
  "cfg (set_active pl s) = cfg pl" "log_start_offset (set_active pl s) = log_start_offset pl"
  "log_end_offset (set_active pl s) = log_end_offset pl" "recovery_point (set_active pl s) = recovery_point pl"
  "segments (set_active pl s) = butlast (segments pl) @ [s]"
  "bytes_since_sync (set_active pl s) = bytes_since_sync pl"
  by (simp_all add: set_active_def)

text \<open>Replacing the active segment by one that holds the given blocks.\<close>

lemma plog_inv_set_active:
  assumes "plog_inv cr pl (bss0 @ [bs])" "seg_inv cr s bs'" "seg_base s = seg_base (active pl)"
    and "segments pl' = butlast (segments pl) @ [s]" "log_start_offset pl' = log_start_offset pl"
    and "log_end_offset pl' = end_of (log_start_offset pl) (log_batches (bss0 @ [bs']))"
  shows "plog_inv cr pl' (bss0 @ [bs'])"
proof -
  have "chain cr (log_start_offset pl) (segments pl) (bss0 @ [bs])" "segments pl \<noteq> []"
    using assms(1) by (simp_all add: plog_inv_def)
  then have "chain cr (log_start_offset pl) (butlast (segments pl)) bss0"
    "seg_base (active pl) = end_of (log_start_offset pl) (log_batches bss0)"
    by (auto elim: chain_snocE)
  with assms show ?thesis by (simp add: plog_inv_def chain_snocI)
qed

lemma plog_inv_activeE:
  assumes "plog_inv cr pl bss"
  obtains bss0 bs where "bss = bss0 @ [bs]" "seg_inv cr (active pl) bs"
    "seg_base (active pl) = end_of (log_start_offset pl) (log_batches bss0)"
    "log_end_offset pl = end_of (seg_base (active pl)) (map fst bs)"
proof -
  have c: "chain cr (log_start_offset pl) (segments pl) bss" "segments pl \<noteq> []"
    and e: "log_end_offset pl = end_of (log_start_offset pl) (log_batches bss)"
    using assms by (simp_all add: plog_inv_def)
  from c obtain bss0 bs where "bss = bss0 @ [bs]" "seg_inv cr (active pl) bs"
    "seg_base (active pl) = end_of (log_start_offset pl) (log_batches bss0)" by (rule chain_snocE)
  with that e show thesis by (simp add: end_of_append)
qed

lemma plog_sync_inv:
  assumes "plog_inv cr pl bss" "plog_sync pl = (pl', r)"
  shows "plog_inv cr pl' bss \<and> log_end_offset pl' = log_end_offset pl \<and>
    log_start_offset pl' = log_start_offset pl \<and> cfg pl' = cfg pl"
proof -
  obtain bss0 bs where b: "bss = bss0 @ [bs]" "seg_inv cr (active pl) bs"
    using assms(1) by (rule plog_inv_activeE)
  obtain s rs where sy: "segment_sync (active pl) = (s, rs)" by fastforce
  from segment_sync_inv [OF b(2) sy] have s: "seg_inv cr s bs" "seg_base s = seg_base (active pl)" by simp_all
  have e: "log_end_offset pl = end_of (log_start_offset pl) (log_batches bss)"
    using assms(1) by (simp add: plog_inv_def)
  have "segments pl' = butlast (segments pl) @ [s] \<and> log_start_offset pl' = log_start_offset pl \<and>
      log_end_offset pl' = log_end_offset pl \<and> cfg pl' = cfg pl"
    using assms(2) sy by (auto simp: plog_sync_def split: sum.splits)
  then show ?thesis
    using plog_inv_set_active [of cr pl bss0 bs s bs pl'] assms(1) s e b(1) by simp
qed

lemma maybe_sync_inv:
  assumes "plog_inv cr pl bss" "maybe_sync pl n = (pl', r)"
  shows "plog_inv cr pl' bss \<and> log_end_offset pl' = log_end_offset pl \<and>
    log_start_offset pl' = log_start_offset pl \<and> cfg pl' = cfg pl"
proof -
  have *: "plog_inv cr (pl \<lparr> bytes_since_sync := m \<rparr>) bss" for m
    using assms(1) by (simp add: plog_inv_def)
  show ?thesis
    using assms(2) plog_sync_inv [OF assms(1), of pl' r] plog_sync_inv [OF *, of _ pl' r] assms(1) *
    by (auto simp: maybe_sync_def Let_def split: FsyncPolicy.splits if_splits)
qed


definition crypto_used :: "PartitionLog \<Rightarrow> bool" where
  "crypto_used pl \<longleftrightarrow> encryption_key (cfg pl) \<noteq> None \<or> (\<exists>s \<in> set (segments pl). seg_cipher s \<noteq> None)"

lemma roll_segment_inv:
  assumes "plog_inv cr pl bss" "env_ok env" "roll_segment cr env pl = (pl', r)"
  shows "\<exists>bss'. plog_inv cr pl' bss' \<and> log_batches bss' = log_batches bss \<and>
    log_end_offset pl' = log_end_offset pl \<and> log_start_offset pl' = log_start_offset pl \<and> cfg pl' = cfg pl \<and>
    (r = Inr () \<longrightarrow> seg_small (active pl') (last bss') \<and>
       (seg_cipher (active pl') \<noteq> None \<longrightarrow> encryption_key (cfg pl) \<noteq> None))"
proof -
  obtain bss0 bs where b: "bss = bss0 @ [bs]" "seg_inv cr (active pl) bs"
    using assms(1) by (rule plog_inv_activeE)
  have e: "log_end_offset pl = end_of (log_start_offset pl) (log_batches bss)" "segments pl \<noteq> []"
    using assms(1) by (simp_all add: plog_inv_def)
  obtain s rs where sl: "segment_seal (active pl) = (s, rs)" by fastforce
  from segment_seal_inv [OF b(2) sl] have s: "seg_inv cr s bs" "seg_base s = seg_base (active pl)" by simp_all
  let ?pl = "(set_active pl s) \<lparr> recovery_point := log_end_offset pl, bytes_since_sync := 0 \<rparr>"
  have inv: "plog_inv cr p bss" if "p = set_active pl s \<or> p = ?pl" for p
    using plog_inv_set_active [of cr pl bss0 bs s bs p] assms(1) s e b(1) that by auto
  show ?thesis
  proof (cases rs)
    case (Inl err)
    then have "pl' = set_active pl s" "r = Inl err" using assms(3) sl by (simp_all add: roll_segment_def)
    with inv show ?thesis by (intro exI [of _ bss]) simp
  next
    case (Inr u)
    show ?thesis
    proof (cases "create_segment cr (cfg pl) env (log_end_offset pl)")
      case (Inl err)
      with Inr have "pl' = ?pl" "r = Inl err" using assms(3) sl by (simp_all add: roll_segment_def Let_def)
      with inv show ?thesis by (intro exI [of _ bss]) simp
    next
      case new: (Inr s2)
      then have pl': "pl' = ?pl \<lparr> segments := segments ?pl @ [s2] \<rparr>"
        using assms(3) sl Inr by (simp add: roll_segment_def Let_def)
      note c = create_segment_inv [OF new assms(2)]
      have ch: "chain cr (log_start_offset pl) (segments ?pl) bss" using inv [of ?pl] by (simp add: plog_inv_def)
      have "chain cr (log_start_offset pl) (segments ?pl @ [s2]) (bss @ [[]])"
        by (rule chain_snocI [OF ch]) (use c e in simp_all)
      then have "plog_inv cr pl' (bss @ [[]])" using e by (simp add: plog_inv_def pl')
      moreover have "seg_small (active pl') (last (bss @ [[]]))" using c by (simp add: pl' seg_small_def)
      ultimately show ?thesis using pl' c by (intro exI [of _ "bss @ [[]]"]) simp
    qed
  qed
qed

lemma rebase_simps [simp]:
  "base_offset (header (rebase b o')) = o'" "record_count (header (rebase b o')) = record_count (header b)"
  "last_offset (rebase b o') = o' + record_count (header b) - 1"
  by (simp_all add: rebase_def last_offset_def)

lemma plog_append_active:
  assumes "plog_inv cr pl bss" "wf_batch (rebase b (log_end_offset pl))" "1 \<le> record_count (header b)"
    and "seg_small (active pl) (last bss)" "nonce_ok cr (active pl) random"
    and "segment_append cr (active pl) (rebase b (log_end_offset pl)) random = (s, r)"
  shows "case r of
      Inl e \<Rightarrow> \<exists>bss'. plog_inv cr (set_active pl s) bss' \<and> log_batches bss' = log_batches bss
    | Inr l \<Rightarrow> l = log_end_offset pl + record_count (header b) - 1 \<and>
        (\<exists>bss'. plog_inv cr ((set_active pl s) \<lparr> log_end_offset := l + 1 \<rparr>) bss' \<and>
          log_batches bss' = log_batches bss @ [rebase b (log_end_offset pl)])"
proof -
  let ?b = "rebase b (log_end_offset pl)"
  obtain bss0 bs where bss: "bss = bss0 @ [bs]" and inv: "seg_inv cr (active pl) bs"
    and e: "log_end_offset pl = end_of (seg_base (active pl)) (map fst bs)"
    using assms(1) by (rule plog_inv_activeE) blast
  have small: "seg_small (active pl) bs" using assms(4) bss by simp
  have le: "log_end_offset pl = end_of (log_start_offset pl) (log_batches bss)"
    using assms(1) by (simp add: plog_inv_def)
  have ap: "(case r of
            Inr o' \<Rightarrow> o' = last_offset ?b \<and> (\<exists>x. seg_inv cr s (bs @ [(?b, x)]))
          | Inl e \<Rightarrow> seg_inv cr s bs) \<and> seg_base s = seg_base (active pl)"
    using segment_append_inv [OF inv small assms(2) _ _ assms(5,6)] assms(3) e unfolding rebase_simps by blast
  show ?thesis
  proof (cases r)
    case (Inl err)
    then have "plog_inv cr (set_active pl s) (bss0 @ [bs])"
      using Inl ap assms(1) le bss plog_inv_set_active [of cr pl bss0 bs s bs "set_active pl s"] by simp
    then show ?thesis using Inl bss by auto
  next
    case (Inr l)
    then obtain x where l: "l = last_offset ?b" and x: "seg_inv cr s (bs @ [(?b, x)])" using ap by auto
    have "plog_inv cr ((set_active pl s) \<lparr> log_end_offset := l + 1 \<rparr>) (bss0 @ [bs @ [(?b, x)]])"
      using ap assms(1) le bss l plog_inv_set_active [OF _ x, of pl bss0 bs] by (simp add: end_of_append)
    then show ?thesis using Inr l bss by (auto intro!: exI [of _ "bss0 @ [bs @ [(?b, x)]]"])
  qed
qed

lemma append_rolled_inv:
  assumes "plog_inv cr pl bss" "wf_batch (rebase b (log_end_offset pl))" "1 \<le> record_count (header b)"
    and "seg_small (active pl) (last bss)" "nonce_ok cr (active pl) (nonce_random env)"
    and "append_rolled cr env pl b = (pl', r)"
  shows "\<exists>bss'. plog_inv cr pl' bss' \<and> log_start_offset pl' = log_start_offset pl \<and> cfg pl' = cfg pl \<and>
    (case r of
       Inr l \<Rightarrow> l = log_end_offset pl + record_count (header b) - 1 \<and>
         log_batches bss' = log_batches bss @ [rebase b (log_end_offset pl)]
     | Inl e \<Rightarrow> log_batches bss' = log_batches bss \<or>
         log_batches bss' = log_batches bss @ [rebase b (log_end_offset pl)])"
proof -
  let ?b = "rebase b (log_end_offset pl)"
  obtain s rs where ap: "segment_append cr (active pl) ?b (nonce_random env) = (s, rs)" by fastforce
  note a = plog_append_active [OF assms(1-5) ap]
  show ?thesis
  proof (cases rs)
    case (Inl err)
    then have "pl' = set_active pl s" "r = Inl err" using assms(6) ap by (simp_all add: append_rolled_def)
    then show ?thesis using a Inl by auto
  next
    case (Inr l)
    let ?pl = "(set_active pl s) \<lparr> log_end_offset := l + 1 \<rparr>"
    obtain bss' where i: "plog_inv cr ?pl bss'" "log_batches bss' = log_batches bss @ [?b]"
      "l = log_end_offset pl + record_count (header b) - 1" using a Inr by auto
    obtain pl2 r2 where m: "maybe_sync ?pl (encoded_size ?b) = (pl2, r2)" by fastforce
    have "pl' = pl2" "r = (case r2 of Inl e \<Rightarrow> Inl e | Inr _ \<Rightarrow> Inr l)"
      using assms(6) ap Inr m by (auto simp: append_rolled_def Let_def split: sum.splits)
    with maybe_sync_inv [OF i(1) m] i show ?thesis
      by (intro exI [of _ bss']) (auto split: sum.splits)
  qed
qed

lemma plog_append_inv:
  assumes "plog_inv cr pl bss" "env_ok env" "crypto_used pl \<longrightarrow> crypto_ok cr"
    and "wf_batch (rebase b (log_end_offset pl))" "1 \<le> record_count (header b)"
    and "seg_small (active pl) (last bss)" "plog_append cr env pl b = (pl', r)"
  shows "\<exists>bss'. plog_inv cr pl' bss' \<and> log_start_offset pl' = log_start_offset pl \<and> cfg pl' = cfg pl \<and>
    (case r of
       Inr l \<Rightarrow> l = log_end_offset pl + record_count (header b) - 1 \<and>
         log_batches bss' = log_batches bss @ [rebase b (log_end_offset pl)]
     | Inl e \<Rightarrow> log_batches bss' = log_batches bss \<or>
         log_batches bss' = log_batches bss @ [rebase b (log_end_offset pl)])"
proof (cases "\<not> is_empty (active pl) \<and> is_full (active pl) (segment_bytes (cfg pl))")
  case False
  then have "append_rolled cr env pl b = (pl', r)" using assms(7) by (auto simp: plog_append_def)
  moreover have "nonce_ok cr (active pl) (nonce_random env)"
    using assms(1,2,3) by (auto simp: nonce_ok_def env_ok_def crypto_used_def plog_inv_def)
  ultimately show ?thesis using append_rolled_inv [OF assms(1,4,5,6)] by blast
next
  case True
  obtain pl1 r1 where r1: "roll_segment cr env pl = (pl1, r1)" by fastforce
  from roll_segment_inv [OF assms(1,2) r1] obtain bss1 where b1: "plog_inv cr pl1 bss1"
    "log_batches bss1 = log_batches bss" "log_end_offset pl1 = log_end_offset pl"
    "log_start_offset pl1 = log_start_offset pl" "cfg pl1 = cfg pl"
    and ok: "r1 = Inr () \<longrightarrow> seg_small (active pl1) (last bss1) \<and>
      (seg_cipher (active pl1) \<noteq> None \<longrightarrow> encryption_key (cfg pl) \<noteq> None)" by blast
  show ?thesis
  proof (cases r1)
    case (Inl err)
    then have "pl' = pl1" "r = Inl err" using assms(7) r1 True by (simp_all add: plog_append_def)
    with b1 show ?thesis by (intro exI [of _ bss1]) simp
  next
    case (Inr u)
    then have ap: "append_rolled cr env pl1 b = (pl', r)" using assms(7) r1 True by (simp add: plog_append_def)
    have "nonce_ok cr (active pl1) (nonce_random env)"
      using ok Inr assms(2,3) by (auto simp: nonce_ok_def env_ok_def crypto_used_def)
    then show ?thesis
      using append_rolled_inv [OF b1(1) _ assms(5) _ _ ap] assms(4) ok Inr unfolding b1(2-5) by simp
  qed
qed


section \<open>Reading across segments\<close>

abbreviation encs :: "block list \<Rightarrow> bytes" where
  "encs bs \<equiv> concat (map (\<lambda>bx. encode (fst bx)) bs)"

abbreviation from_offset :: "int \<Rightarrow> block list \<Rightarrow> block list" where
  "from_offset offset bs \<equiv> dropWhile (\<lambda>(b, x). last_offset b < offset) bs"

text \<open>The shortest run of batches from the front that reaches \<open>n\<close> bytes, or all of them.\<close>

fun take_until :: "nat \<Rightarrow> block list \<Rightarrow> block list" where
  "take_until n [] = []"
| "take_until n (bx # bs) = (if n = 0 then [] else bx # take_until (n - length (encode (fst bx))) bs)"

lemma take_until_0 [simp]: "take_until 0 bs = []"
  by (cases bs) simp_all

lemma take_until_take:
  assumes "k \<le> length bs" "\<And>j. j < k \<Longrightarrow> length (encs (take j bs)) < n"
  shows "take_until n bs = take k bs @ take_until (n - length (encs (take k bs))) (drop k bs)"
  using assms
proof (induction k arbitrary: n bs)
  case (Suc k)
  then obtain bx bs' where bs: "bs = bx # bs'" by (cases bs) auto
  let ?n = "n - length (encode (fst bx))"
  have "0 < n" using Suc.prems(2) [of 0] by simp
  moreover have "length (encs (take j bs')) < ?n" if "j < k" for j
    using Suc.prems(2) [of "Suc j"] that by (simp add: bs)
  ultimately show ?case using Suc.IH [of bs' ?n] Suc.prems(1) by (simp add: bs)
qed simp

lemma fetch_spec_fragment:
  assumes "\<forall>(b, x) \<in> set bs. offset \<le> last_offset b \<and> 0 < length x \<and> length (encode b) \<le> length x"
  shows "\<exists>k \<le> length bs. batches (fetch_spec offset n bs res) = batches res @ encs (take k bs) \<and>
     next_offset (fetch_spec offset n bs res) =
       (if k = 0 then next_offset res else last_offset (fst (bs ! (k - 1))) + 1) \<and>
     (batches res = [] \<longrightarrow> bs \<noteq> [] \<longrightarrow> 0 < k) \<and>
     (0 < n \<longrightarrow> (\<forall>j < k. length (batches res) + length (encs (take j bs)) < n))"
  using assms
proof (induction bs arbitrary: res)
  case (Cons bx bs)
  obtain b x where bx: "bx = (b, x)" by fastforce
  have ge: "\<not> last_offset b < offset" and x: "0 < length x" "length (encode b) \<le> length x"
    using Cons.prems by (auto simp: bx)
  then obtain m where m: "length x = Suc m" by (cases x) auto
  show ?case
  proof (cases "batches res \<noteq> [] \<and> length (batches res) + length x > n")
    case True
    then show ?thesis using ge by (intro exI [of _ 0]) (simp add: bx)
  next
    case False
    let ?res = "\<lparr> batches = batches res @ encode b, next_offset = last_offset b + 1 \<rparr>"
    have "\<forall>(b, x) \<in> set bs. offset \<le> last_offset b \<and> 0 < length x \<and> length (encode b) \<le> length x"
      using Cons.prems by simp
    from Cons.IH [OF this, of ?res] obtain k where k: "k \<le> length bs"
      "batches (fetch_spec offset n bs ?res) = batches ?res @ encs (take k bs)"
      "next_offset (fetch_spec offset n bs ?res) =
        (if k = 0 then next_offset ?res else last_offset (fst (bs ! (k - 1))) + 1)"
      "0 < n \<longrightarrow> (\<forall>j < k. length (batches ?res) + length (encs (take j bs)) < n)" by blast
    have "length (batches res) + length (encs (take j (bx # bs))) < n" if "0 < n" "j < Suc k" for j
      using that k(4) False m by (cases j) (auto simp: bx)
    then show ?thesis using ge False k by (intro exI [of _ "Suc k"]) (auto simp: bx nth_Cons')
  qed
qed auto

lemma end_of_last: "contiguous o' bs \<Longrightarrow> bs \<noteq> [] \<Longrightarrow> end_of o' bs = last_offset (last bs) + 1"
  by (cases bs rule: rev_cases) (auto simp: contiguous_append last_offset_def)

lemma from_offset_end:
  assumes "contiguous o' (map fst (bs1 @ bs2))"
  shows "from_offset (end_of o' (map fst bs1)) (bs1 @ bs2) = bs2"
proof -
  have c: "contiguous o' (map fst bs1)" "contiguous (end_of o' (map fst bs1)) (map fst bs2)"
    using assms by (simp_all add: contiguous_append)
  have "\<forall>(b, x) \<in> set bs1. last_offset b < end_of o' (map fst bs1)"
    using contiguous_offsets [OF c(1)] by force
  then have "from_offset (end_of o' (map fst bs1)) (bs1 @ bs2) = from_offset (end_of o' (map fst bs1)) bs2"
    by (subst dropWhile_append2) auto
  also have "\<dots> = bs2"
    using c(2) by (cases bs2) (auto simp: last_offset_def)
  finally show ?thesis .
qed

text \<open>The segment that \<^verbatim>\<open>segment_for\<close> finds and the parts of the log before and after it.\<close>

lemma segment_for_split:
  assumes "chain cr o' ss bss" "ss \<noteq> []" "o' \<le> offset" "n = upper_bound seg_base ss offset"
  obtains bss1 bs bss2 where "bss = bss1 @ bs # bss2" "0 < n" "n \<le> length ss" "length bss1 = n - 1"
    "ss ! (n - 1) \<in> set ss" "seg_inv cr (ss ! (n - 1)) bs"
    "seg_base (ss ! (n - 1)) = end_of o' (log_batches bss1)" "seg_base (ss ! (n - 1)) \<le> offset"
    "bss2 = [] \<or> offset < end_of o' (log_batches bss1 @ map fst bs)"
    "chain cr o' (take (n - 1) ss) bss1"
proof -
  obtain s0 ss0 where ss: "ss = s0 # ss0" using assms(2) by (cases ss) auto
  then have "seg_base s0 = o'" using assms(1) by (cases bss) auto
  then have n: "0 < n" "n \<le> length ss"
    using assms(3,4) ss upper_bound_le [of seg_base ss offset] by (simp_all add: upper_bound_def)
  define s where "s = ss ! (n - 1)"
  have split: "ss = take (n - 1) ss @ s # drop n ss"
    using n id_take_nth_drop [of "n - 1" ss] by (simp add: s_def)
  have len: "length ss = length bss" using chain_length [OF assms(1)] .
  define bs where "bs = bss ! (n - 1)"
  have bss: "bss = take (n - 1) bss @ bs # drop n bss"
    using n len id_take_nth_drop [of "n - 1" bss] by (simp add: bs_def)
  have l: "length (take (n - 1) ss) = length (take (n - 1) bss)" using n len by simp
  have "chain cr o' (take (n - 1) ss @ s # drop n ss) (take (n - 1) bss @ bs # drop n bss)"
    using assms(1) split bss by simp
  then have c: "chain cr o' (take (n - 1) ss) (take (n - 1) bss)"
    "seg_base s = end_of o' (log_batches (take (n - 1) bss))" "seg_inv cr s bs"
    "chain cr (end_of (end_of o' (log_batches (take (n - 1) bss))) (map fst bs)) (drop n ss) (drop n bss)"
    unfolding chain_append [OF l] by auto
  have "drop n bss = [] \<or> offset < end_of o' (log_batches (take (n - 1) bss) @ map fst bs)"
  proof (cases "drop n ss")
    case Nil
    then show ?thesis using len by simp
  next
    case (Cons s2 ss2)
    then have lt: "n < length ss" and "s2 = ss ! n" by (metis drop_all list.distinct(1) not_le, metis hd_drop_conv_nth list.sel(1) drop_all list.distinct(1) not_le)
    then have "offset < seg_base s2"
      using nth_length_takeWhile [of "\<lambda>s. seg_base s \<le> offset" ss] assms(4) by (simp add: upper_bound_def)
    moreover have "seg_base s2 = end_of o' (log_batches (take (n - 1) bss) @ map fst bs)"
      using c(4) Cons by (cases "drop n bss") (auto simp: end_of_append)
    ultimately show ?thesis by simp
  qed
  moreover have "seg_base s \<le> offset"
    using upper_bound_below [of "n - 1" seg_base ss offset] n assms(4) by (simp add: s_def)
  moreover have "s \<in> set ss" using n by (simp add: s_def)
  ultimately show thesis using that [OF bss n] c l n len by (simp add: s_def)
qed


lemma is_blk_length: "is_blk cr c b x \<Longrightarrow> 0 < length x \<and> length (encode b) \<le> length x"
proof (cases c)
  case None
  assume "is_blk cr c b x"
  with None have "x = encode b" by (simp add: is_blk_def plain_block_def)
  then show ?thesis by (simp add: encoded_size_def)
next
  case (Some ci)
  assume "is_blk cr c b x"
  then obtain nonce where n: "length nonce = 12" "crypto_ok cr" "wf_batch b"
    "seal_block cr ci (Inr nonce) (encode b) (base_offset (header b)) (record_count (header b)) = Inr x"
    using Some by (auto simp: is_blk_def sealed_block_def)
  have "fits_i64 (base_offset (header b))" "fits_i32 (record_count (header b))"
    using n(3) by (auto simp: wf_batch_def wf_header_def)
  from peek_seal_block(2) [OF n(4,2,1) this] show ?thesis by simp
qed

lemma chain_blocks: "chain cr o' ss bss \<Longrightarrow> (b, x) \<in> set (concat bss) \<Longrightarrow> 0 < length x \<and> length (encode b) \<le> length x"
proof (induction cr o' ss bss rule: chain.induct)
  case (2 cr o' s ss bs bss)
  show ?case
  proof (cases "(b, x) \<in> set bs")
    case True
    with 2 have "is_blk cr (seg_cipher s) b x" by (auto simp: seg_inv_def log_holds_def list_all_iff)
    then show ?thesis by (rule is_blk_length)
  qed (use 2 in auto)
qed auto

text \<open>One turn of the loop: a non-empty part of what is left, from one segment.\<close>

lemma read_local_fragment:
  assumes inv: "plog_inv cr pl bss" and rd: "plog_readable pl"
    and cur: "log_start_offset pl \<le> cursor" "cursor < log_end_offset pl" and n: "0 < n"
  shows "\<exists>k. 0 < k \<and> k \<le> length (from_offset cursor (concat bss)) \<and>
    read_local cr pl cursor n = Inr \<lparr> batches = encs (take k (from_offset cursor (concat bss))),
      next_offset = last_offset (fst (from_offset cursor (concat bss) ! (k - 1))) + 1 \<rparr> \<and>
    (\<forall>j < k. length (encs (take j (from_offset cursor (concat bss)))) < n)"
proof -
  have ch: "chain cr (log_start_offset pl) (segments pl) bss" "segments pl \<noteq> []"
    and le: "log_end_offset pl = end_of (log_start_offset pl) (log_batches bss)"
    using inv by (simp_all add: plog_inv_def)
  let ?n = "upper_bound seg_base (segments pl) cursor" and ?o = "log_start_offset pl"
  obtain bss1 bs bss2 where bss: "bss = bss1 @ bs # bss2" and n0: "0 < ?n"
    and s: "segments pl ! (?n - 1) \<in> set (segments pl)" "seg_inv cr (segments pl ! (?n - 1)) bs"
      "seg_base (segments pl ! (?n - 1)) = end_of ?o (log_batches bss1)"
      "seg_base (segments pl ! (?n - 1)) \<le> cursor"
      "bss2 = [] \<or> cursor < end_of ?o (log_batches bss1 @ map fst bs)"
    using ch cur(1) by (rule segment_for_split [OF _ _ _ refl])
  let ?s = "segments pl ! (?n - 1)" and ?D = "from_offset cursor bs"
  have up: "cursor < end_of (seg_base ?s) (map fst bs)"
    using s(3,5) cur(2) le bss by (auto simp: end_of_append)
  have cont: "contiguous (seg_base ?s) (map fst bs)" using s(2) by (simp add: seg_inv_def)
  have "\<exists>bx \<in> set bs. \<not> last_offset (fst bx) < cursor"
  proof -
    have "bs \<noteq> []" using up s(4) by auto
    then have "last bs \<in> set bs" "end_of (seg_base ?s) (map fst bs) = last_offset (fst (last bs)) + 1"
      using end_of_last [OF cont] by (simp_all add: last_map)
    with up show ?thesis by force
  qed
  then have D: "?D \<noteq> []" by (auto simp: dropWhile_eq_Nil_conv)
  have "contiguous ?o (log_batches bss1)"
    using chain_contiguous [OF ch(1)] by (simp add: bss contiguous_append)
  then have below: "\<forall>(b, x) \<in> set (concat bss1). last_offset b < cursor"
    using contiguous_offsets [of ?o "log_batches bss1"] s(3,4) by fastforce
  have "from_offset cursor (concat bss) = from_offset cursor (bs @ concat bss2)"
    unfolding bss concat_append concat.simps using below by (subst dropWhile_append2) auto
  also have "\<dots> = ?D @ concat bss2"
    using D by (auto simp: dropWhile_append dropWhile_eq_Nil_conv)
  finally have split: "from_offset cursor (concat bss) = ?D @ concat bss2" .
  have "\<forall>(b, x) \<in> set ?D. cursor \<le> last_offset b \<and> 0 < length x \<and> length (encode b) \<le> length x"
    using dropWhile_contiguous [OF cont, of cursor] chain_blocks [OF ch(1)]
    by (fastforce simp: bss dest: set_dropWhileD)
  from fetch_spec_fragment [OF this, of n "\<lparr> batches = [], next_offset = cursor \<rparr>"] obtain k where
    k: "k \<le> length ?D" "0 < k"
      "batches (fetch_spec cursor n ?D \<lparr> batches = [], next_offset = cursor \<rparr>) = encs (take k ?D)"
      "next_offset (fetch_spec cursor n ?D \<lparr> batches = [], next_offset = cursor \<rparr>) =
         last_offset (fst (?D ! (k - 1))) + 1"
      "\<forall>j < k. length (encs (take j ?D)) < n"
    using D n by auto
  have "read_local cr pl cursor n = segment_read cr ?s cursor n"
    using n0 by (simp add: read_local_def segment_for_def Let_def)
  also have "\<dots> = Inr (fetch_spec cursor n bs \<lparr> batches = [], next_offset = cursor \<rparr>)"
    using s(1,2) rd by (intro segment_read_spec) (auto simp: plog_readable_def)
  also have "\<dots> = Inr \<lparr> batches = encs (take k ?D), next_offset = last_offset (fst (?D ! (k - 1))) + 1 \<rparr>"
    unfolding fetch_spec_dropWhile [of cursor n bs] using k(3,4) by simp
  finally have rl: "read_local cr pl cursor n = \<dots>" .
  have tk: "take j (from_offset cursor (concat bss)) = take j ?D" if "j \<le> k" for j
    unfolding split using k(1) that by simp
  have "k - 1 < length ?D" using k(1,2) by arith
  then have nth: "from_offset cursor (concat bss) ! (k - 1) = ?D ! (k - 1)"
    unfolding split by (simp only: nth_append if_True)
  have "k \<le> length (from_offset cursor (concat bss))" unfolding split using k(1) by simp
  moreover have "length (encs (take j (from_offset cursor (concat bss)))) < n" if "j < k" for j
    using k(5) tk [of j] that by (simp only: less_imp_le)
  moreover note rl [folded nth tk [OF order_refl]]
  ultimately show ?thesis using k(2) by blast
qed

lemma encs_take_ne: "0 < k \<Longrightarrow> k \<le> length bs \<Longrightarrow> encs (take k bs) \<noteq> []"
proof (cases bs)
  case (Cons bx bs')
  assume "0 < k"
  then obtain j where "k = Suc j" by (cases k) auto
  moreover have "0 < length (encode (fst bx))" by (simp add: encoded_size_def)
  then have "encode (fst bx) \<noteq> []" by blast
  ultimately show ?thesis using Cons by simp
qed simp

lemma last_take: "0 < k \<Longrightarrow> k \<le> length bs \<Longrightarrow> take k bs \<noteq> []"
  "0 < k \<Longrightarrow> k \<le> length bs \<Longrightarrow> last (take k bs) = bs ! (k - 1)"
  by (auto, subst last_conv_nth, auto simp: min_def)

lemma from_offset_advance:
  assumes "contiguous o' (map fst bs)" "rest = from_offset offset bs" "0 < k" "k \<le> length rest"
  shows "from_offset (last_offset (fst (rest ! (k - 1))) + 1) bs = drop k rest"
proof -
  obtain pre where "bs = pre @ rest" using assms(2) by (metis takeWhile_dropWhile_id)
  then have bs: "bs = (pre @ take k rest) @ drop k rest" by simp
  have "last (pre @ take k rest) = rest ! (k - 1)" "pre @ take k rest \<noteq> []"
    using last_take [OF assms(3,4)] by simp_all
  moreover have "contiguous o' (map fst (pre @ take k rest))"
    using assms(1) unfolding arg_cong [OF bs, of "map fst", simplified map_append] contiguous_append map_append
    by blast
  ultimately have "end_of o' (map fst (pre @ take k rest)) = last_offset (fst (rest ! (k - 1))) + 1"
    using end_of_last [of o' "map fst (pre @ take k rest)"] by (simp add: last_map del: map_append)
  moreover have "contiguous o' (map fst ((pre @ take k rest) @ drop k rest))" using assms(1) bs by metis
  ultimately show ?thesis using from_offset_end bs by metis
qed

lemma plog_read_loop_step:
  "cursor < log_end_offset pl \<Longrightarrow> length (batches res) < n \<Longrightarrow>
   read_local cr pl cursor (n - length (batches res)) = Inr fragment \<Longrightarrow> batches fragment \<noteq> [] \<Longrightarrow>
   plog_read_loop cr pl n cursor res = plog_read_loop cr pl n (next_offset fragment)
     \<lparr> batches = batches res @ batches fragment, next_offset = next_offset fragment \<rparr>"
  by (subst plog_read_loop.simps) simp

lemma plog_read_loop_spec:
  assumes "plog_inv cr pl bss" "plog_readable pl" "log_start_offset pl \<le> cursor"
  shows "plog_read_loop cr pl n cursor res =
    (let run = take_until (n - length (batches res)) (from_offset cursor (concat bss)) in
     Inr \<lparr> batches = batches res @ encs run,
           next_offset = (if run = [] then next_offset res else last_offset (fst (last run)) + 1) \<rparr>)"
  using assms(3)
proof (induction "nat (log_end_offset pl - cursor)" arbitrary: cursor res rule: less_induct)
  case less
  let ?L = "concat bss" and ?o = "log_start_offset pl"
  let ?R = "from_offset cursor ?L" and ?m = "n - length (batches res)"
  have cont: "contiguous ?o (map fst ?L)"
    using assms(1) chain_contiguous by (auto simp: plog_inv_def)
  have le: "log_end_offset pl = end_of ?o (map fst ?L)" using assms(1) by (simp add: plog_inv_def)
  show ?case
  proof (cases "cursor < log_end_offset pl \<and> length (batches res) < n")
    case False
    have "take_until ?m ?R = []"
    proof (cases "cursor < log_end_offset pl")
      case True
      with False have "?m = 0" by simp
      then show ?thesis by simp
    next
      case False
      then have "?R = []" using contiguous_offsets [OF cont] le by (fastforce simp: dropWhile_eq_Nil_conv)
      then show ?thesis by (simp only: take_until.simps)
    qed
    with False show ?thesis by (subst plog_read_loop.simps) (auto simp: Let_def)
  next
    case True
    then have m: "0 < ?m" by simp
    from read_local_fragment [OF assms(1,2) less.prems _ m] True obtain k where k: "0 < k" "k \<le> length ?R"
      "read_local cr pl cursor ?m = Inr \<lparr> batches = encs (take k ?R),
         next_offset = last_offset (fst (?R ! (k - 1))) + 1 \<rparr>"
      "\<And>j. j < k \<Longrightarrow> length (encs (take j ?R)) < ?m" by blast
    define nxt where "nxt = last_offset (fst (?R ! (k - 1))) + 1"
    let ?res = "\<lparr> batches = batches res @ encs (take k ?R), next_offset = nxt \<rparr>"
    have ne: "encs (take k ?R) \<noteq> []"
      using k(1,2) by (rule encs_take_ne)
    have prog: "cursor < nxt"
      using read_local_progress [OF k(3)] ne by (simp add: nxt_def)
    have rest: "from_offset nxt ?L = drop k ?R"
      unfolding nxt_def using cont refl k(1,2) by (rule from_offset_advance)
    have tk: "take k ?R \<noteq> []" "last (take k ?R) = ?R ! (k - 1)" using k(1,2) by (rule last_take)+
    have "plog_read_loop cr pl n cursor res = plog_read_loop cr pl n nxt ?res"
      using plog_read_loop_step [OF _ _ k(3)] True ne unfolding FetchResult.select_convs nxt_def by blast
    also have "\<dots> = (let run = take_until (n - length (batches ?res)) (drop k ?R) in
     Inr \<lparr> batches = batches ?res @ encs run,
           next_offset = (if run = [] then next_offset ?res else last_offset (fst (last run)) + 1) \<rparr>)"
      using less.hyps [of nxt ?res] prog True less.prems by (simp add: rest)
    moreover have tu: "take_until ?m ?R = take k ?R @ take_until (?m - length (encs (take k ?R))) (drop k ?R)"
      using k(2,4) by (rule take_until_take)
    ultimately show ?thesis
      unfolding Let_def tu using tk
      by (simp only: FetchResult.select_convs length_append diff_diff_left [symmetric] map_append concat_append
          append_assoc append_is_Nil_conv last_append nxt_def simp_thms if_False split: if_splits)
  qed
qed


lemma plog_read_spec:
  assumes "plog_inv cr pl bss" "plog_readable pl"
  shows "plog_read cr pl offset max_bytes =
    (if offset < log_start_offset pl then Inl OutOfRange
     else let run = take_until max_bytes (dropWhile (\<lambda>(b, x). last_offset b < offset) (concat bss)) in
       Inr \<lparr> batches = concat (map (\<lambda>bx. encode (fst bx)) run),
             next_offset = (if run = [] then offset else last_offset (fst (last run)) + 1) \<rparr>)"
  using plog_read_loop_spec [OF assms, of offset max_bytes "\<lparr> batches = [], next_offset = offset \<rparr>"]
  unfolding plog_read_def FetchResult.select_convs list.size diff_zero append_Nil by simp

lemma plog_read_one:
  assumes inv: "plog_inv cr pl bss" "plog_readable pl" and b: "log_batches bss = xs @ b # ys"
  shows "plog_read cr pl (base_offset (header b)) 1 =
    Inr \<lparr> batches = encode b, next_offset = last_offset b + 1 \<rparr>"
proof -
  let ?o = "log_start_offset pl" and ?f = "base_offset (header b)"
  have cont: "contiguous ?o (xs @ b # ys)" using inv(1) chain_contiguous b by (fastforce simp: plog_inv_def)
  obtain us x vs where us: "concat bss = us @ (b, x) # vs" "map fst us = xs"
    using b by (auto simp: map_eq_append_conv map_eq_Cons_conv)
  have f: "?f = end_of ?o xs" "?o \<le> ?f" "?f \<le> last_offset b"
    using cont end_of_ge [of ?o xs] by (simp_all add: contiguous_append last_offset_def)
  have "last_offset (fst z) < ?f" if "z \<in> set us" for z
    using contiguous_offsets [of ?o xs "fst z"] cont us(2) that f(1) by (force simp: contiguous_append)
  then have "dropWhile (\<lambda>(b, x). last_offset b < ?f) (concat bss) = (b, x) # vs"
    unfolding us(1) using f(3) by (subst dropWhile_append2) auto
  moreover have "take_until 1 ((b, x) # vs) = [(b, x)]"
    by (simp add: encoded_size_def)
  ultimately show ?thesis
    unfolding plog_read_spec [OF inv] using f(2) by (simp add: Let_def)
qed


text \<open>An append that needs no new segment succeeds when the operations of the files do.\<close>

lemma plog_sync_healthy:
  assumes "sched (seg_log (active pl)) = []" "sched (idx_file (seg_index (active pl))) = []"
  shows "\<exists>pl'. plog_sync pl = (pl', Inr ())"
  using index_flush_healthy [OF assms(2)] assms(1)
  by (cases "index_flush (seg_index (active pl))") (simp add: plog_sync_def segment_sync_def sync_file_healthy)

lemma plog_append_healthy:
  assumes "is_empty (active pl) \<or> \<not> is_full (active pl) (segment_bytes (cfg pl))"
    "seg_state (active pl) \<noteq> Closed" "seg_cipher (active pl) = None"
    "sched (seg_log (active pl)) = []" "sched (idx_file (seg_index (active pl))) = []"
  shows "\<exists>pl'. plog_append cr env pl b = (pl', Inr (log_end_offset pl + record_count (header b) - 1))"
proof -
  let ?b = "rebase b (log_end_offset pl)"
  obtain s where s: "segment_append cr (active pl) ?b (nonce_random env) = (s, Inr (last_offset ?b))"
    "sched (seg_log s) = []" "sched (idx_file (seg_index s)) = []"
    using assms by (simp add: segment_append_def write_at_healthy)
  let ?pl = "(set_active pl s) \<lparr> log_end_offset := last_offset ?b + 1 \<rparr>"
  have "active q = s" if "segments q = segments ?pl" for q using that by (simp add: set_active_def)
  then have "\<exists>pl'. plog_sync q = (pl', Inr ())" if "segments q = segments ?pl" for q
    using that s plog_sync_healthy [of q] by simp
  then obtain pl' where "maybe_sync ?pl (encoded_size ?b) = (pl', Inr ())"
    by (fastforce simp: maybe_sync_def Let_def split: FsyncPolicy.splits)
  moreover have "last_offset ?b = log_end_offset pl + record_count (header b) - 1" by (simp add: last_offset_def rebase_def)
  ultimately show ?thesis using assms(1) s(1) by (auto simp: plog_append_def append_rolled_def)
qed


section \<open>Truncation and retention\<close>

text \<open>A boundary offset splits the batches of the log inside the segment that contains it.\<close>

lemma end_of_take_mono:
  assumes "contiguous o' zs" "i < j" "j \<le> length zs"
  shows "end_of o' (take i zs) < end_of o' (take j zs)"
proof -
  have split: "take j zs = take i zs @ drop i (take j zs)" using assms(2) by (metis append_take_drop_id take_take min.strict_order_iff min.commute)
  have "contiguous o' (take j zs @ drop j zs)" using assms(1) by simp
  then have "contiguous (end_of o' (take i zs)) (drop i (take j zs))"
    using split by (metis contiguous_append)
  moreover have "0 < length (drop i (take j zs))" using assms(2,3) by simp
  ultimately have "end_of o' (take i zs) < end_of (end_of o' (take i zs)) (drop i (take j zs))"
    using end_of_ge by fastforce
  then show ?thesis using split by (metis end_of_append)
qed

lemma plog_boundary_split:
  assumes "contiguous o' (as @ bs @ cs)" "as @ bs @ cs = xs @ ys"
    and "end_of o' as \<le> end_of o' xs" "end_of o' xs < end_of o' (as @ bs)"
  obtains us vs where "bs = us @ vs" "xs = as @ us" "vs \<noteq> []"
proof -
  let ?zs = "as @ bs @ cs"
  have x: "xs = take (length xs) ?zs" using assms(2) by simp
  have a: "as = take (length as) ?zs" and ab: "as @ bs = take (length (as @ bs)) ?zs" by simp_all
  have lx: "length xs \<le> length ?zs" using assms(2) by (metis le_add1 length_append)
  have "length as \<le> length xs"
    using end_of_take_mono [OF assms(1), of "length xs" "length as"] assms(3) x a
    by (metis le_add1 length_append linorder_not_le)
  moreover have "length xs < length (as @ bs)"
    using end_of_take_mono [OF assms(1), of "length (as @ bs)" "length xs"] assms(4) x ab lx
    by (metis linorder_neqE order_less_asym less_irrefl)
  ultimately have "xs = as @ take (length xs - length as) bs"
    "bs = take (length xs - length as) bs @ drop (length xs - length as) bs"
    "drop (length xs - length as) bs \<noteq> []"
    using x by auto
  then show thesis using that by blast
qed

lemma plog_truncate_split:
  assumes inv: "plog_inv cr pl bss" and xs: "log_batches bss = xs @ ys" and ys: "ys \<noteq> []"
    and t: "t = end_of (log_start_offset pl) xs" "n = upper_bound seg_base (segments pl) t"
  obtains bss1 bs1 bs2 bss2 where "bss = bss1 @ (bs1 @ bs2) # bss2" "xs = log_batches bss1 @ map fst bs1"
    "bs2 \<noteq> []" "0 < n" "n \<le> length (segments pl)" "length bss1 = n - 1"
    "seg_inv cr (segments pl ! (n - 1)) (bs1 @ bs2)" "segments pl ! (n - 1) \<in> set (segments pl)"
    "seg_base (segments pl ! (n - 1)) = end_of (log_start_offset pl) (log_batches bss1)"
    "t = end_of (seg_base (segments pl ! (n - 1))) (map fst bs1)"
    "chain cr (log_start_offset pl) (take (n - 1) (segments pl)) bss1"
    "log_start_offset pl \<le> t" "t < log_end_offset pl"
proof -
  let ?o = "log_start_offset pl"
  have ch: "chain cr ?o (segments pl) bss" "segments pl \<noteq> []" and le: "log_end_offset pl = end_of ?o (xs @ ys)"
    using inv xs by (simp_all add: plog_inv_def)
  have cont: "contiguous ?o (xs @ ys)" using chain_contiguous [OF ch(1)] xs by simp
  have ge: "?o \<le> t" using cont end_of_ge [of ?o xs] t by (simp add: contiguous_append)
  have lt: "t < log_end_offset pl"
    using cont end_of_ge [of t ys] ys t by (auto simp: le contiguous_append end_of_append simp flip: length_greater_0_conv)
  obtain bss1 bs bss2 where bss: "bss = bss1 @ bs # bss2" and n: "0 < n" "n \<le> length (segments pl)" "length bss1 = n - 1"
    and s: "seg_inv cr (segments pl ! (n - 1)) bs"
      "seg_base (segments pl ! (n - 1)) = end_of ?o (log_batches bss1)"
      "seg_base (segments pl ! (n - 1)) \<le> t"
      "bss2 = [] \<or> t < end_of ?o (log_batches bss1 @ map fst bs)" "segments pl ! (n - 1) \<in> set (segments pl)"
      "chain cr ?o (take (n - 1) (segments pl)) bss1"
    using ch ge t(2) by (rule segment_for_split)
  have up: "end_of ?o xs < end_of ?o (log_batches bss1 @ map fst bs)" using s(4) lt le xs bss t by auto
  have "contiguous ?o (log_batches bss1 @ map fst bs @ log_batches bss2)"
    "log_batches bss1 @ map fst bs @ log_batches bss2 = xs @ ys" using cont xs bss by simp_all
  from plog_boundary_split [OF this _ up] s(2,3) t obtain us vs where
    uv: "map fst bs = us @ vs" "xs = log_batches bss1 @ us" "vs \<noteq> []" by auto
  then obtain bs1 bs2 where bs: "bs = bs1 @ bs2" "map fst bs1 = us" "bs2 \<noteq> []"
    using map_eq_append_conv [of fst bs us vs] by auto
  have "t = end_of (seg_base (segments pl ! (n - 1))) (map fst bs1)"
    using uv(2) bs(2) s(2) t by (simp add: end_of_append)
  with that [of bss1 bs1 bs2 bss2] bss bs uv n s ge lt show thesis by simp
qed

lemma plog_truncate_inv:
  assumes inv: "plog_inv cr pl bss" and rd: "plog_readable pl"
    and small: "\<forall>(s, bs) \<in> set (zip (segments pl) bss). seg_small s bs"
    and xs: "log_batches bss = xs @ ys" and tr: "plog_truncate_to pl (end_of (log_start_offset pl) xs) = (pl', Inr u)"
  shows "\<exists>bss'. plog_inv cr pl' bss' \<and> log_batches bss' = xs \<and> log_end_offset pl' = end_of (log_start_offset pl) xs"
proof (cases "ys = []")
  case True
  then have "end_of (log_start_offset pl) xs = log_end_offset pl" using inv xs by (simp add: plog_inv_def)
  then have "pl' = pl" using tr by (simp add: plog_truncate_to_def)
  then show ?thesis using inv True xs by (intro exI [of _ bss]) (simp add: plog_inv_def)
next
  case False
  let ?o = "log_start_offset pl" and ?t = "end_of (log_start_offset pl) xs"
  let ?n = "upper_bound seg_base (segments pl) ?t"
  obtain bss1 bs1 bs2 bss2 where bss: "bss = bss1 @ (bs1 @ bs2) # bss2" and sp:
    "xs = log_batches bss1 @ map fst bs1" "bs2 \<noteq> []" and n: "0 < ?n" "?n \<le> length (segments pl)" "length bss1 = ?n - 1"
    and s: "seg_inv cr (segments pl ! (?n - 1)) (bs1 @ bs2)" "segments pl ! (?n - 1) \<in> set (segments pl)"
      "seg_base (segments pl ! (?n - 1)) = end_of (log_start_offset pl) (log_batches bss1)"
      "?t = end_of (seg_base (segments pl ! (?n - 1))) (map fst bs1)"
      "chain cr (log_start_offset pl) (take (?n - 1) (segments pl)) bss1"
      "log_start_offset pl \<le> ?t" "?t < log_end_offset pl"
    using inv xs False refl refl by (rule plog_truncate_split)
  let ?s = "segments pl ! (?n - 1)" and ?ss = "take ?n (segments pl)"
  have last: "last ?ss = ?s" "butlast ?ss = take (?n - 1) (segments pl)"
    using n last_take(2) [of ?n "segments pl"] by (simp_all add: butlast_take)
  have "length (segments pl) = length bss" using inv chain_length by (auto simp: plog_inv_def)
  then have "(?s, bs1 @ bs2) \<in> set (zip (segments pl) bss)"
    using n bss by (auto simp: in_set_conv_nth nth_append intro!: exI [of _ "?n - 1"])
  then have sm: "seg_small ?s (bs1 @ bs2)" using small by auto
  obtain s' where s': "segment_truncate_to ?s ?t = (s', Inr u)" and
    pl': "pl' = (set_active (pl \<lparr> segments := ?ss \<rparr>) s') \<lparr> log_end_offset := ?t,
                   recovery_point := min (recovery_point pl) ?t, bytes_since_sync := 0 \<rparr>"
    using tr s(6,7) last by (auto simp: plog_truncate_to_def Let_def split: prod.splits sum.splits)
  have "seg_inv cr s' bs1 \<and> seg_base s' = seg_base ?s"
    using segment_truncate_inv [of cr ?s bs1 bs2 s' u] s(1,2,4) sp(2) sm s' rd by (simp add: plog_readable_def)
  then have "chain cr ?o (take (?n - 1) (segments pl) @ [s']) (bss1 @ [bs1])"
    using s(3,5) by (intro chain_snocI) simp_all
  then have "plog_inv cr pl' (bss1 @ [bs1])"
    using last sp(1) by (simp add: plog_inv_def pl')
  then show ?thesis using sp(1) pl' by (intro exI [of _ "bss1 @ [bs1]"]) simp
qed

lemma plog_truncate_healthy:
  assumes inv: "plog_inv cr pl bss" and rd: "plog_readable pl" and xs: "log_batches bss = xs @ ys"
    and "\<forall>s \<in> set (segments pl). sched (seg_log s) = [] \<and> sched (idx_file (seg_index s)) = []"
  shows "\<exists>pl'. plog_truncate_to pl (end_of (log_start_offset pl) xs) = (pl', Inr ())"
proof (cases "ys = []")
  case True
  then have "end_of (log_start_offset pl) xs = log_end_offset pl" using inv xs by (simp add: plog_inv_def)
  then show ?thesis by (simp add: plog_truncate_to_def)
next
  case False
  let ?t = "end_of (log_start_offset pl) xs"
  let ?n = "upper_bound seg_base (segments pl) ?t"
  obtain bs1 bs2 where sp: "bs2 \<noteq> []" and n: "0 < ?n" "?n \<le> length (segments pl)"
    and s: "seg_inv cr (segments pl ! (?n - 1)) (bs1 @ bs2)" "segments pl ! (?n - 1) \<in> set (segments pl)"
      "?t = end_of (seg_base (segments pl ! (?n - 1))) (map fst bs1)"
      "log_start_offset pl \<le> ?t" "?t < log_end_offset pl"
    using inv xs False refl refl by (rule plog_truncate_split)
  let ?s = "segments pl ! (?n - 1)"
  obtain s' where "segment_truncate_to ?s ?t = (s', Inr ())"
    using segment_truncate_healthy [OF s(1)] sp s(2,3) rd assms(4) by (auto simp: plog_readable_def)
  moreover have "last (take ?n (segments pl)) = ?s" using last_take(2) [OF n] by simp
  ultimately show ?thesis using s(4,5) by (simp add: plog_truncate_to_def Let_def)
qed

lemma drop_below_suffix:
  "ss \<noteq> [] \<Longrightarrow> \<exists>n < length ss. drop_below offset ss = drop n ss \<and>
     (n = 0 \<or> seg_base (ss ! n) \<le> offset)"
proof (induction offset ss rule: drop_below.induct)
  case (1 offset s1 s2 ss)
  show ?case
  proof (cases "seg_base s2 \<le> offset")
    case True
    from 1(1) [OF True] obtain n where "n < length (s2 # ss)" "drop_below offset (s2 # ss) = drop n (s2 # ss)"
      "n = 0 \<or> seg_base ((s2 # ss) ! n) \<le> offset" by auto
    with True show ?thesis by (intro exI [of _ "Suc n"]) auto
  qed (auto intro: exI [of _ 0])
qed (auto intro: exI [of _ 0])

lemma retain_suffix: "ss \<noteq> [] \<Longrightarrow> \<exists>n < length ss. retain policy age t ss = drop n ss"
proof (induction policy age t ss rule: retain.induct)
  case (1 policy age t s1 s2 ss)
  let ?eligible = "(retention_bytes policy \<ge> 0 \<and> t > retention_bytes policy) \<or>
            (retention_ms policy \<ge> 0 \<and>
             (case age (seg_base s1) of None \<Rightarrow> False | Some a \<Rightarrow> a > retention_ms policy))"
  show ?case
  proof (cases ?eligible)
    case True
    from 1(1) [OF refl] True obtain n where "n < length (s2 # ss)"
      "retain policy age (t - int (size_bytes s1)) (s2 # ss) = drop n (s2 # ss)" by auto
    with True show ?thesis by (intro exI [of _ "Suc n"]) (simp add: Let_def)
  qed (auto simp: Let_def intro: exI [of _ 0])
qed (auto intro: exI [of _ 0])

lemma plog_inv_drop:
  assumes "plog_inv cr pl bss" "n < length (segments pl)"
    and "segments pl' = drop n (segments pl)" "log_start_offset pl' = seg_base (segments pl ! n)"
    and "log_end_offset pl' = log_end_offset pl"
  shows "plog_inv cr pl' (drop n bss)"
proof -
  have ch: "chain cr (log_start_offset pl) (segments pl) bss" using assms(1) by (simp add: plog_inv_def)
  have l: "length (take n (segments pl)) = length (take n bss)" using chain_length [OF ch] by simp
  have c: "chain cr (end_of (log_start_offset pl) (log_batches (take n bss))) (drop n (segments pl)) (drop n bss)"
    using ch chain_append [OF l, of cr _ "drop n (segments pl)" "drop n bss"] by simp
  moreover have "seg_base (segments pl ! n) = end_of (log_start_offset pl) (log_batches (take n bss))"
    using c assms(2) by (cases "drop n bss"; simp add: Cons_nth_drop_Suc [symmetric])
  moreover have "log_batches bss = log_batches (take n bss) @ log_batches (drop n bss)"
    by (metis append_take_drop_id concat_append map_append)
  ultimately show ?thesis using assms by (simp add: plog_inv_def end_of_append)
qed

lemma truncate_prefix_inv:
  assumes "plog_inv cr pl bss" "truncate_prefix_to pl offset = (pl', Inr u)"
  shows "\<exists>n < length (segments pl). plog_inv cr pl' (drop n bss) \<and> segments pl' = drop n (segments pl) \<and>
    log_end_offset pl' = log_end_offset pl \<and> (n = 0 \<or> log_start_offset pl' \<le> offset)"
proof (cases "offset \<le> log_start_offset pl")
  case True
  then show ?thesis using assms by (intro exI [of _ 0]) (auto simp: truncate_prefix_to_def plog_inv_def)
next
  case False
  have "segments pl \<noteq> []" using assms(1) by (simp add: plog_inv_def)
  from drop_below_suffix [OF this, of offset] obtain n where n: "n < length (segments pl)"
    "drop_below offset (segments pl) = drop n (segments pl)" "n = 0 \<or> seg_base (segments pl ! n) \<le> offset"
    by blast
  then have "pl' = pl \<lparr> segments := drop n (segments pl), log_start_offset := seg_base (segments pl ! n) \<rparr>"
    using False assms(2) by (auto simp: truncate_prefix_to_def Let_def hd_drop_conv_nth split: if_splits)
  then show ?thesis using plog_inv_drop [OF assms(1) n(1), of pl'] n by auto
qed

lemma enforce_retention_inv:
  assumes "plog_inv cr pl bss"
  shows "\<exists>n < length (segments pl). plog_inv cr (enforce_retention pl policy age) (drop n bss) \<and>
    segments (enforce_retention pl policy age) = drop n (segments pl) \<and>
    log_end_offset (enforce_retention pl policy age) = log_end_offset pl"
proof -
  have "segments pl \<noteq> []" using assms by (simp add: plog_inv_def)
  from retain_suffix [OF this] obtain n where n: "n < length (segments pl)"
    "retain policy age (sum_list (map (\<lambda>s. int (size_bytes s)) (segments pl))) (segments pl) = drop n (segments pl)"
    by blast
  show ?thesis
  proof (cases "n = 0")
    case True
    then show ?thesis using n assms by (intro exI [of _ 0]) (simp add: enforce_retention_def)
  next
    case False
    then have "enforce_retention pl policy age =
        pl \<lparr> segments := drop n (segments pl), log_start_offset := seg_base (segments pl ! n) \<rparr>"
      using n by (simp add: enforce_retention_def hd_drop_conv_nth Let_def)
    then show ?thesis using plog_inv_drop [OF assms n(1), of "enforce_retention pl policy age"] n(1) by auto
  qed
qed


lemma plog_truncate_inside:
  assumes inv: "plog_inv cr pl bss" and rd: "plog_readable pl"
    and t: "log_start_offset pl \<le> offset" "offset < log_end_offset pl"
      "\<forall>b \<in> set (log_batches bss). base_offset (header b) \<noteq> offset"
      "\<forall>s \<in> set (segments pl). seg_base s \<noteq> offset"
  shows "plog_truncate_to pl offset =
    (pl \<lparr> segments := take (upper_bound seg_base (segments pl) offset) (segments pl) \<rparr>, Inl InvalidArgument)"
proof -
  let ?n = "upper_bound seg_base (segments pl) offset"
  have ch: "chain cr (log_start_offset pl) (segments pl) bss" "segments pl \<noteq> []"
    using inv by (simp_all add: plog_inv_def)
  obtain bss1 bs bss2 where bss: "bss = bss1 @ bs # bss2" and n: "0 < ?n" "?n \<le> length (segments pl)"
    and s: "seg_inv cr (segments pl ! (?n - 1)) bs" "segments pl ! (?n - 1) \<in> set (segments pl)"
    using ch t(1) by (rule segment_for_split [OF _ _ _ refl])
  let ?s = "segments pl ! (?n - 1)" and ?ss = "take ?n (segments pl)"
  have last: "?ss \<noteq> []" "last ?ss = ?s" using last_take [OF n] by simp_all
  have "position_of ?s offset = Inl InvalidArgument"
  proof (rule position_of_inside [OF s(1)])
    show "readable (seg_log ?s)" "offset \<noteq> seg_base ?s" using s(2) rd t(4) by (auto simp: plog_readable_def)
    have "set (map fst bs) \<subseteq> set (log_batches bss)" by (auto simp: bss)
    then show "\<forall>(b, x) \<in> set bs. base_offset (header b) \<noteq> offset" using t(3) by force
  qed
  then have "segment_truncate_to ?s offset = (?s, Inl InvalidArgument)"
    by (simp add: segment_truncate_to_def)
  moreover have "butlast ?ss @ [?s] = ?ss" using append_butlast_last_id [OF last(1)] last(2) by simp
  ultimately show ?thesis
    using t(1,2) last(2) by (simp add: plog_truncate_to_def Let_def set_active_def)
qed


section \<open>Properties\<close>

definition sample_env :: log_env where
  "sample_env = \<lparr> new_log = Inr empty_file, new_index = Inr empty_file, salt_random = Inl Unsupported,
     nonce_random = Inl Unsupported \<rparr>"

definition tail_segment :: Segment where
  "tail_segment = \<lparr> seg_base = 9, seg_log = empty_file \<lparr> content := encode next_batch \<rparr>,
     seg_index = \<lparr> idx_file = empty_file, idx_base = 9, interval = 4096, bytes_since = 37,
       entries = [], flushed = 0 \<rparr>,
     size_bytes = 37, seg_cipher = None, data_start = 0, seg_state = Active \<rparr>"

text \<open>A log of two segments with one batch each, offsets 7 to 8 and 9, of which the last is full.\<close>

definition sample_log :: PartitionLog where
  "sample_log = \<lparr> cfg = \<lparr> segment_bytes = 30, index_interval_bytes = 4096, fsync_policy = FsyncCommit,
       fsync_interval_bytes = 0, encryption_key = None \<rparr>,
     segments = [sample_segment, tail_segment], log_start_offset = 7, log_end_offset = 10,
     recovery_point = 10, bytes_since_sync = 0 \<rparr>"

abbreviation sample_blocks :: "block list list" where
  "sample_blocks \<equiv> [[(sample_batch, encode sample_batch)], [(next_batch, encode next_batch)]]"

lemma tail_segment_inv: "seg_inv no_crypto tail_segment [(next_batch, encode next_batch)]"
  using sample_wf(2)
  by (simp add: seg_inv_def log_holds_def index_covers_def index_ok_def index_anchors_def tail_segment_def
      empty_file_def is_blk_def plain_block_def encoded_size_def)
    (simp add: next_batch_def default_header_def)

lemma sample_log_inv: "plog_inv no_crypto sample_log sample_blocks" "plog_readable sample_log"
proof -
  have "record_count (header sample_batch) = 2" "record_count (header next_batch) = 1"
    "seg_base sample_segment = 7" "seg_base tail_segment = 9"
    by (simp_all add: sample_batch_def next_batch_def default_header_def sample_segment_def tail_segment_def)
  then show "plog_inv no_crypto sample_log sample_blocks"
    using sample_segment_inv tail_segment_inv by (simp add: plog_inv_def sample_log_def)
  show "plog_readable sample_log"
    by (simp add: plog_readable_def sample_log_def sample_segment_def tail_segment_def readable_def empty_file_def)
qed

text \<open>
  C4: \<open>append\<close> is atomic and gives consecutive offsets, across the rotation of a full segment
  and for every behaviour of the file system: on success the log holds its batches followed by
  the given one rebased to the old end of the log, and the result is its last offset; on an error
  the log holds its old batches, or also the new one when only its \<open>fsync\<close> failed.
\<close>

theorem plog_append_contract:
  assumes "plog_inv cr pl bss" "env_ok env" "crypto_used pl \<longrightarrow> crypto_ok cr"
    and "wf_batch (rebase b (log_end_offset pl))" "1 \<le> record_count (header b)"
    and "seg_small (active pl) (last bss)" "plog_append cr env pl b = (pl', r)"
  shows "\<exists>bss'. plog_inv cr pl' bss' \<and> log_start_offset pl' = log_start_offset pl \<and>
    (case r of
       Inr l \<Rightarrow> l = log_end_offset pl + record_count (header b) - 1 \<and>
         log_batches bss' = log_batches bss @ [rebase b (log_end_offset pl)]
     | Inl e \<Rightarrow> log_batches bss' = log_batches bss \<or>
         log_batches bss' = log_batches bss @ [rebase b (log_end_offset pl)])"
  using plog_append_inv [OF assms] by blast

theorem plog_append_contract_witness:
  "\<exists>bss'. plog_inv no_crypto (fst (plog_append no_crypto sample_env sample_log sample_batch)) bss' \<and>
     (case snd (plog_append no_crypto sample_env sample_log sample_batch) of
        Inr l \<Rightarrow> l = 11 \<and> log_batches bss' = [sample_batch, next_batch, rebase sample_batch 10]
      | Inl e \<Rightarrow> log_batches bss' = [sample_batch, next_batch] \<or>
          log_batches bss' = [sample_batch, next_batch, rebase sample_batch 10])"
proof -
  obtain pl' r where p: "plog_append no_crypto sample_env sample_log sample_batch = (pl', r)" by fastforce
  have "env_ok sample_env" "crypto_used sample_log \<longrightarrow> crypto_ok no_crypto"
    "wf_batch (rebase sample_batch (log_end_offset sample_log))" "1 \<le> record_count (header sample_batch)"
    "seg_small (active sample_log) (last sample_blocks)"
    by (simp_all add: env_ok_def sample_env_def empty_file_def readable_def crypto_used_def sample_log_def
        sample_segment_def tail_segment_def rebase_def sample_batch_def default_header_def wf_batch_def
        wf_header_def seg_small_def next_batch_def)
  from plog_append_contract [OF sample_log_inv(1) this p] obtain bss' where
    "plog_inv no_crypto pl' bss'" "case r of
       Inr l \<Rightarrow> l = log_end_offset sample_log + record_count (header sample_batch) - 1 \<and>
         log_batches bss' = log_batches sample_blocks @ [rebase sample_batch (log_end_offset sample_log)]
     | Inl e \<Rightarrow> log_batches bss' = log_batches sample_blocks \<or>
         log_batches bss' = log_batches sample_blocks @ [rebase sample_batch (log_end_offset sample_log)]"
    by blast
  moreover have "log_end_offset sample_log = 10" "record_count (header sample_batch) = 2"
    by (simp_all add: sample_log_def sample_batch_def default_header_def)
  ultimately show ?thesis using p by (intro exI [of _ bss']) (auto split: sum.splits)
qed

text \<open>
  C12: Segment boundaries, sparse indexes and encryption are invisible to \<open>read\<close>: from the
  first batch that reaches the requested offset it returns the shortest run of consecutive whole
  batches of the log that fills \<open>max_bytes\<close> (or all of them), with the offset after the run, and
  an offset before the start of the log is \<open>OutOfRange\<close>.
\<close>

theorem plog_read_contract:
  assumes "plog_inv cr pl bss" "plog_readable pl"
  shows "plog_read cr pl offset max_bytes =
    (if offset < log_start_offset pl then Inl OutOfRange
     else let run = take_until max_bytes (dropWhile (\<lambda>(b, x). last_offset b < offset) (concat bss)) in
       Inr \<lparr> batches = concat (map (\<lambda>bx. encode (fst bx)) run),
             next_offset = (if run = [] then offset else last_offset (fst (last run)) + 1) \<rparr>)"
  using assms by (rule plog_read_spec)

theorem plog_read_contract_witness:
  "plog_read no_crypto sample_log 8 40 =
     Inr \<lparr> batches = encode sample_batch @ encode next_batch, next_offset = 10 \<rparr>"
  unfolding plog_read_contract [OF sample_log_inv]
  by (simp add: sample_log_def Let_def encoded_size_def)
    (simp add: sample_batch_def next_batch_def default_header_def last_offset_def)

text \<open>
  C28: Truncation for conflict resolution.  After \<open>truncate_to\<close> a batch boundary the log holds
  exactly the batches before it and its end is that boundary, whichever segment the boundary
  lies in; and it succeeds when the operations of the files do.
\<close>

theorem plog_truncate_contract:
  assumes "plog_inv cr pl bss" "plog_readable pl"
    and "\<forall>(s, bs) \<in> set (zip (segments pl) bss). seg_small s bs" "log_batches bss = xs @ ys"
  shows "(\<forall>pl' u. plog_truncate_to pl (end_of (log_start_offset pl) xs) = (pl', Inr u) \<longrightarrow>
        (\<exists>bss'. plog_inv cr pl' bss' \<and> log_batches bss' = xs \<and>
           log_end_offset pl' = end_of (log_start_offset pl) xs)) \<and>
    ((\<forall>s \<in> set (segments pl). sched (seg_log s) = [] \<and> sched (idx_file (seg_index s)) = []) \<longrightarrow>
        (\<exists>pl'. plog_truncate_to pl (end_of (log_start_offset pl) xs) = (pl', Inr ())))"
  using plog_truncate_inv [OF assms] plog_truncate_healthy [OF assms(1,2,4)] by blast

definition calm_log :: PartitionLog where
  "calm_log = sample_log \<lparr> segments :=
     [sample_segment \<lparr> seg_log := (seg_log sample_segment) \<lparr> sched := [] \<rparr> \<rparr>, tail_segment] \<rparr>"

lemma calm_log_inv: "plog_inv no_crypto calm_log sample_blocks" "plog_readable calm_log"
proof -
  let ?s = "sample_segment \<lparr> seg_log := (seg_log sample_segment) \<lparr> sched := [] \<rparr> \<rparr>"
  have "seg_inv no_crypto ?s [(sample_batch, encode sample_batch)]"
    using sample_segment_inv by (auto simp: seg_inv_def log_holds_def index_covers_def)
  then show "plog_inv no_crypto calm_log sample_blocks"
    using sample_log_inv(1) by (simp add: plog_inv_def calm_log_def sample_log_def)
  show "plog_readable calm_log"
    using sample_log_inv(2) by (simp add: plog_readable_def calm_log_def sample_log_def readable_def)
qed

theorem plog_truncate_contract_witness:
  "\<exists>pl' bss'. plog_truncate_to calm_log 9 = (pl', Inr ()) \<and> plog_inv no_crypto pl' bss' \<and>
     log_batches bss' = [sample_batch]"
proof -
  have "\<forall>(s, bs) \<in> set (zip (segments calm_log) sample_blocks). seg_small s bs"
    by (simp add: calm_log_def seg_small_def sample_segment_def tail_segment_def sample_batch_def
        next_batch_def default_header_def)
  note c = plog_truncate_contract [OF calm_log_inv this, of "[sample_batch]" "[next_batch]"]
  have t: "end_of (log_start_offset calm_log) [sample_batch] = 9"
    by (simp add: calm_log_def sample_log_def sample_batch_def default_header_def)
  have "\<forall>s \<in> set (segments calm_log). sched (seg_log s) = [] \<and> sched (idx_file (seg_index s)) = []"
    by (simp add: calm_log_def sample_segment_def tail_segment_def empty_file_def)
  with c obtain pl' where pl': "plog_truncate_to calm_log 9 = (pl', Inr ())" unfolding t by auto
  with c show ?thesis unfolding t by fastforce
qed

text \<open>
  C29: Retention and prefix truncation remove whole segments from the front only: what is left
  is a suffix of the log that contains the active segment unchanged, the end of the log does not
  move, the start is the base of the first segment kept, and \<open>truncate_prefix_to\<close> keeps every
  offset from the requested one on.
\<close>

theorem plog_retention_contract:
  assumes "plog_inv cr pl bss"
    and "(pl', Inr u) = truncate_prefix_to pl offset \<or> pl' = enforce_retention pl policy age"
  shows "\<exists>bss1 bss2. bss = bss1 @ bss2 \<and> bss2 \<noteq> [] \<and> plog_inv cr pl' bss2 \<and> active pl' = active pl \<and>
    log_end_offset pl' = log_end_offset pl \<and>
    ((pl', Inr u) = truncate_prefix_to pl offset \<and> bss1 \<noteq> [] \<longrightarrow> log_start_offset pl' \<le> offset)"
proof -
  have l: "length (segments pl) = length bss" using assms(1) chain_length by (auto simp: plog_inv_def)
  have split: "bss = take n bss @ drop n bss" "drop n bss \<noteq> []" "last (drop n (segments pl)) = active pl"
    "take n bss = [] \<longleftrightarrow> n = 0" if "n < length (segments pl)" for n
    using that l by auto
  show ?thesis
  proof (cases "(pl', Inr u) = truncate_prefix_to pl offset")
    case True
    from truncate_prefix_inv [OF assms(1) True [symmetric]] obtain n where "n < length (segments pl)"
      "plog_inv cr pl' (drop n bss)" "segments pl' = drop n (segments pl)" "log_end_offset pl' = log_end_offset pl"
      "n = 0 \<or> log_start_offset pl' \<le> offset" by blast
    with split [of n] show ?thesis by (intro exI [of _ "take n bss"] exI [of _ "drop n bss"]) auto
  next
    case False
    then have "pl' = enforce_retention pl policy age" using assms(2) by simp
    with enforce_retention_inv [OF assms(1), of policy age] obtain n where "n < length (segments pl)"
      "plog_inv cr pl' (drop n bss)" "segments pl' = drop n (segments pl)" "log_end_offset pl' = log_end_offset pl"
      by blast
    with split [of n] False show ?thesis by (intro exI [of _ "take n bss"] exI [of _ "drop n bss"]) auto
  qed
qed

theorem plog_retention_contract_witness:
  "\<exists>bss1 bss2. sample_blocks = bss1 @ bss2 \<and>
     plog_inv no_crypto (enforce_retention sample_log \<lparr> retention_bytes = 40, retention_ms = -1 \<rparr> (\<lambda>_. None)) bss2 \<and>
     log_start_offset (enforce_retention sample_log \<lparr> retention_bytes = 40, retention_ms = -1 \<rparr> (\<lambda>_. None)) = 9"
proof -
  let ?pl = "enforce_retention sample_log \<lparr> retention_bytes = 40, retention_ms = -1 \<rparr> (\<lambda>_. None)"
  have "log_start_offset ?pl = 9"
    by (simp add: enforce_retention_def sample_log_def sample_segment_def tail_segment_def)
  moreover have "(?pl, Inr ()) = truncate_prefix_to sample_log 0 \<or> ?pl = ?pl" by simp
  from plog_retention_contract [OF sample_log_inv(1) this] have
    "\<exists>bss1 bss2. sample_blocks = bss1 @ bss2 \<and> plog_inv no_crypto ?pl bss2" by blast
  ultimately show ?thesis by blast
qed

text \<open>
  \<open>truncate_to\<close> an offset inside a batch reports \<open>InvalidArgument\<close>, but only after the
  segments above it have been removed: every later batch is lost while the end of the log stays
  where it was, so the log no longer satisfies its invariant.
\<close>

theorem plog_truncate_inside_loses:
  assumes "plog_inv cr pl bss" "plog_readable pl"
    and "log_start_offset pl \<le> offset" "offset < log_end_offset pl"
      "\<forall>b \<in> set (log_batches bss). base_offset (header b) \<noteq> offset"
      "\<forall>s \<in> set (segments pl). seg_base s \<noteq> offset"
  shows "snd (plog_truncate_to pl offset) = Inl InvalidArgument \<and>
    segments (fst (plog_truncate_to pl offset)) = takeWhile (\<lambda>s. seg_base s \<le> offset) (segments pl) \<and>
    log_end_offset (fst (plog_truncate_to pl offset)) = log_end_offset pl"
  using plog_truncate_inside [OF assms] by (simp add: upper_bound_def takeWhile_eq_take [symmetric])

theorem plog_truncate_inside_loses_witness:
  "snd (plog_truncate_to sample_log 8) = Inl InvalidArgument \<and>
     segments (fst (plog_truncate_to sample_log 8)) = [sample_segment] \<and>
     log_end_offset (fst (plog_truncate_to sample_log 8)) = 10"
proof -
  have "log_start_offset sample_log \<le> 8" "8 < log_end_offset sample_log"
    "\<forall>b \<in> set (log_batches sample_blocks). base_offset (header b) \<noteq> 8"
    "\<forall>s \<in> set (segments sample_log). seg_base s \<noteq> 8"
    by (simp_all add: sample_log_def sample_segment_def tail_segment_def sample_batch_def next_batch_def
        default_header_def)
  from plog_truncate_inside_loses [OF sample_log_inv this] show ?thesis
    by (simp add: sample_log_def) (simp add: sample_segment_def tail_segment_def)
qed

text \<open>
  The number of records of a batch is not checked: a successful append moves the end of the log
  by exactly that number, also backwards.
\<close>

lemma plog_append_moves_end:
  assumes "plog_append cr env pl b = (pl', Inr l)"
  shows "log_end_offset pl' = log_end_offset pl + record_count (header b)"
proof -
  have rolled: "log_end_offset p = log_end_offset pl" if "roll_segment cr env pl = (p, r)" for p r
    using that by (auto simp: roll_segment_def Let_def split: prod.splits sum.splits)
  have synced: "log_end_offset q = log_end_offset p" if "maybe_sync p n = (q, r)" for p q n r
    using that by (auto simp: maybe_sync_def plog_sync_def Let_def split: FsyncPolicy.splits prod.splits sum.splits if_splits)
  have "l' = last_offset d" if "segment_append cr s d n = (s', Inr l')" for s d n s' l'
    using that by (auto simp: segment_append_def Let_def split: if_splits sum.splits prod.splits)
  then show ?thesis
    using assms rolled synced
    by (fastforce simp: plog_append_def append_rolled_def Let_def split: if_splits prod.splits sum.splits)
qed

end
