(* ===== verification/Wire_Codec.thy ===== *)
theory Wire_Codec
  imports Byte_Codec
begin

text \<open>
  The sequential codec of the wire protocol (\<^verbatim>\<open>src/src/protocol/codec.hpp\<close>, \<^verbatim>\<open>codec.cpp\<close>), the
  error codes of the wire (\<^verbatim>\<open>error_code.cpp\<close>), frames and version negotiation (\<^verbatim>\<open>frame.cpp\<close>,
  \<^verbatim>\<open>versioning.cpp\<close>) and the reassembly of frames from a byte stream (\<^verbatim>\<open>src/src/wire/frame_io.hpp\<close>).

  A \<^verbatim>\<open>Decoder\<close> is a parser: its cursor is the input that is left.  The early return after each
  \<open>get\<close> is \<open>bindP\<close>.  \<open>defensive\<close> is the promise of the decoder on untrusted input: it fails with
  \<open>InvalidArgument\<close> or leaves a suffix of its input.  The locale \<open>element_format\<close> extends
  \<open>wire_format\<close> by what a counted sequence of elements needs.
\<close>


section \<open>Sequencing of reads\<close>

definition returnP :: "'a \<Rightarrow> 'a parser" where
  "returnP x bs = Inr (x, bs)"

definition failP :: "ErrorCode \<Rightarrow> 'a parser" where
  "failP e bs = Inl e"

definition bindP :: "'a parser \<Rightarrow> ('a \<Rightarrow> 'b parser) \<Rightarrow> 'b parser" where
  "bindP p f bs = bindE (p bs) (\<lambda>(x, r). f x r)"

lemma bindP_Inr [simp]: "p bs = Inr (x, r) \<Longrightarrow> bindP p f bs = f x r"
  by (simp add: bindP_def)

lemma returnP_apply [simp]: "returnP x bs = Inr (x, bs)"
  by (simp add: returnP_def)

named_theorems defensive_intros \<open>parsers that are safe on every input\<close>

definition defensive :: "'a parser \<Rightarrow> bool" where
  "defensive p \<longleftrightarrow> (\<forall>bs. case p bs of Inl e \<Rightarrow> e = InvalidArgument | Inr (x, r) \<Rightarrow> \<exists>pre. bs = pre @ r)"

lemma defensiveI:
  "(\<And>bs e. p bs = Inl e \<Longrightarrow> e = InvalidArgument) \<Longrightarrow>
   (\<And>bs x r. p bs = Inr (x, r) \<Longrightarrow> \<exists>pre. bs = pre @ r) \<Longrightarrow> defensive p"
  by (auto simp: defensive_def split: sum.splits)

lemma defensive_Inl: "defensive p \<Longrightarrow> p bs = Inl e \<Longrightarrow> e = InvalidArgument"
  by (auto simp: defensive_def split: sum.splits)

lemma defensive_Inr: "defensive p \<Longrightarrow> p bs = Inr (x, r) \<Longrightarrow> \<exists>pre. bs = pre @ r"
  by (fastforce simp: defensive_def split: sum.splits)

lemma defensive_returnP [defensive_intros]: "defensive (returnP x)"
  by (rule defensiveI) (auto simp: returnP_def)

lemma defensive_failP [defensive_intros]: "defensive (failP InvalidArgument)"
  by (rule defensiveI) (auto simp: failP_def)

lemma defensive_if [defensive_intros]: "defensive p \<Longrightarrow> defensive q \<Longrightarrow> defensive (if b then p else q)"
  by simp

lemma defensive_bindP [defensive_intros]:
  assumes "defensive p" "\<And>x. defensive (f x)"
  shows "defensive (bindP p f)"
proof (rule defensiveI)
  fix bs e
  assume "bindP p f bs = Inl e"
  then show "e = InvalidArgument"
    using assms by (auto simp: bindP_def result_iffs dest: defensive_Inl)
next
  fix bs y r
  assume "bindP p f bs = Inr (y, r)"
  then obtain x r1 where "p bs = Inr (x, r1)" "f x r1 = Inr (y, r)"
    by (auto simp: bindP_def result_iffs)
  then obtain pre1 pre2 where "bs = pre1 @ r1" "r1 = pre2 @ r"
    using assms by (meson defensive_Inr)
  then show "\<exists>pre. bs = pre @ r" by (intro exI [of _ "pre1 @ pre2"]) simp
qed

lemma defensive_parse_n [defensive_intros]: "defensive p \<Longrightarrow> defensive (parse_n p n)"
proof (induction n)
  case 0
  show ?case by (rule defensiveI) auto
next
  case (Suc n)
  have "parse_n p (Suc n) = bindP p (\<lambda>x. bindP (parse_n p n) (\<lambda>xs. returnP (x # xs)))"
    by (rule ext) (simp add: bindP_def returnP_def)
  with Suc show ?case by (simp add: defensive_intros)
qed


section \<open>Encoder and Decoder\<close>

definition put_u8 :: "8 word \<Rightarrow> bytes" where
  "put_u8 v = [v]"

abbreviation put_u16 :: "16 word \<Rightarrow> bytes" where "put_u16 \<equiv> store_le"
abbreviation put_u32 :: "32 word \<Rightarrow> bytes" where "put_u32 \<equiv> store_le"
abbreviation put_i16 :: "int \<Rightarrow> bytes" where "put_i16 \<equiv> store_le_i16"
abbreviation put_i32 :: "int \<Rightarrow> bytes" where "put_i32 \<equiv> store_le_i32"
abbreviation put_i64 :: "int \<Rightarrow> bytes" where "put_i64 \<equiv> store_le_i64"

definition put_size :: "nat \<Rightarrow> bytes" where
  "put_size n = put_varint (of_nat n)"

definition put_bytes :: "bytes \<Rightarrow> bytes" where
  "put_bytes d = put_size (length d) @ d"

text \<open>Strings travel as their bytes.\<close>

abbreviation put_string :: "bytes \<Rightarrow> bytes" where "put_string \<equiv> put_bytes"

definition get_u8 :: "8 word parser" where
  "get_u8 = bindP (take_bytes InvalidArgument 1) (\<lambda>s. returnP (s ! 0))"

definition get_u16 :: "16 word parser" where
  "get_u16 = bindP (take_bytes InvalidArgument 2) (\<lambda>s. returnP (load_le s))"

definition get_u32 :: "32 word parser" where
  "get_u32 = bindP (take_bytes InvalidArgument 4) (\<lambda>s. returnP (load_le s))"

definition get_i16 :: "int parser" where
  "get_i16 = bindP (take_bytes InvalidArgument 2) (\<lambda>s. returnP (load_le_i16 s))"

definition get_i32 :: "int parser" where
  "get_i32 = bindP (take_bytes InvalidArgument 4) (\<lambda>s. returnP (load_le_i32 s))"

definition get_i64 :: "int parser" where
  "get_i64 = bindP (take_bytes InvalidArgument 8) (\<lambda>s. returnP (load_le_i64 s))"

definition get_bytes :: "bytes parser" where
  "get_bytes = bindP get_varint (\<lambda>n. take_bytes InvalidArgument (unat n))"

abbreviation get_string :: "bytes parser" where "get_string \<equiv> get_bytes"

text \<open>A counter of elements is bounded by the bytes that are left.\<close>

definition get_count :: "nat parser" where
  "get_count = bindP get_varint (\<lambda>n bs.
     if unat n > length bs then Inl InvalidArgument else Inr (unat n, bs))"

text \<open>A counted sequence: the counter and then the elements one by one.\<close>

definition put_list :: "('a \<Rightarrow> bytes) \<Rightarrow> 'a list \<Rightarrow> bytes" where
  "put_list enc xs = put_size (length xs) @ concat (map enc xs)"

definition get_list :: "'a parser \<Rightarrow> 'a list parser" where
  "get_list dec = bindP get_count (\<lambda>n. parse_n dec n)"

lemma defensive_take_bytes [defensive_intros]: "defensive (take_bytes InvalidArgument n)"
proof (rule defensiveI)
  show "take_bytes InvalidArgument n bs = Inr (x, r) \<Longrightarrow> \<exists>pre. bs = pre @ r" for bs x r
    by (auto simp: take_bytes_Inr_iff)
qed (simp add: take_bytes_def split: if_splits)

lemma defensive_get_varint [defensive_intros]: "defensive get_varint"
proof (rule defensiveI)
  show "get_varint bs = Inr (x, r) \<Longrightarrow> \<exists>pre. bs = pre @ r" for bs x r
    using get_varint_loop_consumes [of 0 0 0 bs x r] by (auto simp: get_varint_def)
qed (rule get_varint_error)

lemma defensive_get [defensive_intros]:
  "defensive get_u8" "defensive get_u16" "defensive get_u32" "defensive get_i16" "defensive get_i32"
  "defensive get_i64" "defensive get_bytes"
  by (simp_all add: get_u8_def get_u16_def get_u32_def get_i16_def get_i32_def get_i64_def get_bytes_def
      defensive_intros)

lemma defensive_get_count [defensive_intros]: "defensive get_count"
  unfolding get_count_def
  by (intro defensive_bindP defensive_get_varint defensiveI) (auto split: if_splits)

lemma defensive_get_list [defensive_intros]: "defensive dec \<Longrightarrow> defensive (get_list dec)"
  by (simp add: get_list_def defensive_intros)

abbreviation fits_size :: "'a list \<Rightarrow> bool" where
  "fits_size xs \<equiv> length xs < 2 ^ 64"

lemma get_put_size [simp]: "n < 2 ^ 64 \<Longrightarrow> get_varint (put_size n @ r) = Inr (of_nat n, r)"
  by (simp add: put_size_def)

lemma unat_size [simp]: "n < 2 ^ 64 \<Longrightarrow> unat (of_nat n :: 64 word) = n"
  by (simp add: unsigned_of_nat take_bit_nat_eq_self)

lemma load_store_exact [simp]:
  "load_le (put_u16 b) = b" "load_le (put_u32 c) = c"
  "fits_i16 x \<Longrightarrow> load_le_i16 (put_i16 x) = x"
  "fits_i32 y \<Longrightarrow> load_le_i32 (put_i32 y) = y"
  "fits_i64 z \<Longrightarrow> load_le_i64 (put_i64 z) = z"
  using load_store_le_word(2) [of b "[]"] load_store_le_word(3) [of c "[]"]
    load_store_le_int(1) [of x "[]"] load_store_le_int(2) [of y "[]"] load_store_le_int(3) [of z "[]"]
  unfolding append_Nil2 by blast+

lemma get_put [simp, roundtrip]:
  "get_u8 (put_u8 a @ r) = Inr (a, r)"
  "get_u16 (put_u16 b @ r) = Inr (b, r)"
  "get_u32 (put_u32 c @ r) = Inr (c, r)"
  "fits_i16 x \<Longrightarrow> get_i16 (put_i16 x @ r) = Inr (x, r)"
  "fits_i32 y \<Longrightarrow> get_i32 (put_i32 y @ r) = Inr (y, r)"
  "fits_i64 z \<Longrightarrow> get_i64 (put_i64 z @ r) = Inr (z, r)"
  "fits_size d \<Longrightarrow> get_bytes (put_bytes d @ r) = Inr (d, r)"
  by (simp_all add: get_u8_def get_u16_def get_u32_def get_i16_def get_i32_def get_i64_def get_bytes_def
      put_u8_def put_bytes_def bindP_def take_bytes_def [of _ "Suc 0"])

lemma put_nonempty [simp]:
  "put_u8 a \<noteq> []" "put_size n \<noteq> []" "put_bytes d \<noteq> []"
  "put_u16 b \<noteq> []" "put_u32 c \<noteq> []" "put_i16 x \<noteq> []" "put_i32 x \<noteq> []" "put_i64 x \<noteq> []"
  using length_store_le_int [of x] length_store_le [of b] length_store_le [of c]
  by (auto simp: put_u8_def put_size_def put_bytes_def put_varint_nonempty simp del: length_store_le_int length_store_le)


text \<open>
  What a counted sequence needs of its elements: every element takes at least one byte, so that
  the counter passes the bound of \<open>get_count\<close>.
\<close>

locale element_format = wire_format +
  assumes enc_nonempty: "valid x \<Longrightarrow> enc x \<noteq> []"
begin

lemma get_put_list:
  assumes "\<forall>x \<in> set xs. valid x" "fits_size xs"
  shows "get_list dec (put_list enc xs @ r) = Inr (xs, r)"
proof -
  have "length xs \<le> length (concat (map enc xs))"
    using assms(1) enc_nonempty by (intro length_concat_map_ge) (auto simp: Suc_le_eq)
  then have "get_count (put_list enc xs @ r) = Inr (length xs, concat (map enc xs) @ r)"
    using assms(2) by (simp add: get_count_def put_list_def)
  then show ?thesis
    using parse_n_concat [OF assms(1)] by (simp add: get_list_def)
qed

lemma list_element_format: "element_format (put_list enc) (get_list dec) (\<lambda>xs. (\<forall>x \<in> set xs. valid x) \<and> fits_size xs)"
  by unfold_locales (simp add: get_put_list, simp add: put_list_def)

end

interpretation i32_element: element_format put_i32 get_i32 "\<lambda>v. fits_i32 v"
  by unfold_locales simp_all

interpretation bytes_element: element_format put_bytes get_bytes "\<lambda>d. fits_size d"
  by unfold_locales simp_all

text \<open>A flag travels as one byte: 1 or 0 when written, any byte but 0 is true when read.\<close>

definition put_bool :: "bool \<Rightarrow> bytes" where
  "put_bool b = put_u8 (if b then 1 else 0)"

definition get_bool :: "bool parser" where
  "get_bool = bindP get_u8 (\<lambda>v. returnP (v \<noteq> 0))"

lemma get_put_bool [simp, roundtrip]: "get_bool (put_bool b @ r) = Inr (b, r)"
  by (simp add: get_bool_def put_bool_def)

lemma put_field_nonempty [simp]: "put_bool b \<noteq> []" "put_list f xs \<noteq> []"
  by (simp_all add: put_bool_def put_list_def)

lemma defensive_get_bool [defensive_intros]: "defensive get_bool"
  by (simp add: get_bool_def defensive_intros)


section \<open>Error codes of the wire\<close>

text \<open>
  The enumeration has a fixed underlying type: a value read from the wire may be none of its
  constants, which is \<open>OtherWire\<close>.
\<close>

datatype WireError =
    WNone | NotLeaderForPartition | LeaderNotAvailable | UnknownTopicOrPartition | OffsetOutOfRange
  | NotEnoughReplicas | RequestTimedOut | CorruptMessage | MessageTooLarge | OutOfOrderSequence
  | DuplicateSequence | Throttled | RebalanceInProgress | UnsupportedVersion | Unauthorized
  | InvalidRequest | InvalidProducerEpoch | OtherWire int

definition wire_errors :: "WireError list" where
  "wire_errors = [WNone, NotLeaderForPartition, LeaderNotAvailable, UnknownTopicOrPartition,
     OffsetOutOfRange, NotEnoughReplicas, RequestTimedOut, CorruptMessage, MessageTooLarge,
     OutOfOrderSequence, DuplicateSequence, Throttled, RebalanceInProgress, UnsupportedVersion,
     Unauthorized, InvalidRequest, InvalidProducerEpoch]"

definition wire_error_of :: "int \<Rightarrow> WireError" where
  "wire_error_of i = (if 0 \<le> i \<and> i < 17 then wire_errors ! nat i else OtherWire i)"

fun wire_error_code :: "WireError \<Rightarrow> int" where
  "wire_error_code WNone = 0"
| "wire_error_code NotLeaderForPartition = 1"
| "wire_error_code LeaderNotAvailable = 2"
| "wire_error_code UnknownTopicOrPartition = 3"
| "wire_error_code OffsetOutOfRange = 4"
| "wire_error_code NotEnoughReplicas = 5"
| "wire_error_code RequestTimedOut = 6"
| "wire_error_code CorruptMessage = 7"
| "wire_error_code MessageTooLarge = 8"
| "wire_error_code OutOfOrderSequence = 9"
| "wire_error_code DuplicateSequence = 10"
| "wire_error_code Throttled = 11"
| "wire_error_code RebalanceInProgress = 12"
| "wire_error_code UnsupportedVersion = 13"
| "wire_error_code Unauthorized = 14"
| "wire_error_code InvalidRequest = 15"
| "wire_error_code InvalidProducerEpoch = 16"
| "wire_error_code (OtherWire i) = i"

fun is_retryable :: "WireError \<Rightarrow> bool" where
  "is_retryable NotLeaderForPartition = True"
| "is_retryable LeaderNotAvailable = True"
| "is_retryable RequestTimedOut = True"
| "is_retryable NotEnoughReplicas = True"
| "is_retryable Throttled = True"
| "is_retryable RebalanceInProgress = True"
| "is_retryable _ = False"

fun to_error :: "WireError \<Rightarrow> ErrorCode" where
  "to_error UnknownTopicOrPartition = NotFound"
| "to_error OffsetOutOfRange = OutOfRange"
| "to_error OutOfOrderSequence = OutOfRange"
| "to_error DuplicateSequence = OutOfRange"
| "to_error CorruptMessage = Corrupt"
| "to_error MessageTooLarge = InvalidArgument"
| "to_error UnsupportedVersion = Unsupported"
| "to_error Unauthorized = InvalidArgument"
| "to_error InvalidRequest = InvalidArgument"
| "to_error InvalidProducerEpoch = Fenced"
| "to_error NotLeaderForPartition = IoError"
| "to_error LeaderNotAvailable = IoError"
| "to_error RequestTimedOut = IoError"
| "to_error NotEnoughReplicas = IoError"
| "to_error Throttled = IoError"
| "to_error RebalanceInProgress = IoError"
| "to_error WNone = InvalidArgument"
| "to_error (OtherWire _) = InvalidArgument"

fun from_error :: "ErrorCode \<Rightarrow> WireError" where
  "from_error Corrupt = CorruptMessage"
| "from_error OutOfRange = OffsetOutOfRange"
| "from_error NotFound = UnknownTopicOrPartition"
| "from_error Unsupported = UnsupportedVersion"
| "from_error InvalidArgument = InvalidRequest"
| "from_error Fenced = InvalidProducerEpoch"
| "from_error IoError = LeaderNotAvailable"
| "from_error OutOfSpace = LeaderNotAvailable"
| "from_error Shutdown = LeaderNotAvailable"

fun wf_wire_error :: "WireError \<Rightarrow> bool" where
  "wf_wire_error (OtherWire i) \<longleftrightarrow> fits_i16 i \<and> \<not> (0 \<le> i \<and> i < 17)"
| "wf_wire_error _ \<longleftrightarrow> True"

definition put_error :: "WireError \<Rightarrow> bytes" where
  "put_error e = put_i16 (wire_error_code e)"

definition get_error :: "WireError parser" where
  "get_error = bindP get_i16 (\<lambda>i. returnP (wire_error_of i))"

lemma wire_error_of_code [simp]: "wf_wire_error e \<Longrightarrow> wire_error_of (wire_error_code e) = e"
  by (cases e) (auto simp: wire_error_of_def wire_errors_def)

lemma wire_error_code_fits: "wf_wire_error e \<Longrightarrow> fits_i16 (wire_error_code e)"
  by (cases e) auto

lemma get_put_error [simp, roundtrip]: "wf_wire_error e \<Longrightarrow> get_error (put_error e @ r) = Inr (e, r)"
  using wire_error_code_fits [of e] by (simp add: get_error_def put_error_def)

lemma put_error_nonempty [simp]: "put_error e \<noteq> []"
  by (simp add: put_error_def)

lemma defensive_get_error [defensive_intros]: "defensive get_error"
  by (simp add: get_error_def defensive_intros)

text \<open>
  The translation of errors at the border of the protocol.  Every code of the core but two
  comes back unchanged from the wire; running out of space and shutdown come back as a transient
  input/output error; and exactly the errors of the server side (input/output, space, shutdown)
  tell the client to retry.
\<close>

theorem wire_error_border:
  "to_error (from_error e) = (if e = OutOfSpace \<or> e = Shutdown then IoError else e) \<and>
   (is_retryable (from_error e) \<longleftrightarrow> e \<in> {IoError, OutOfSpace, Shutdown}) \<and>
   wire_error_of (wire_error_code (from_error e)) = from_error e"
  by (cases e) (simp_all add: wire_error_of_def wire_errors_def)

end
