(* ===== verification/Wire_Frame.thy ===== *)
theory Wire_Frame
  imports Wire_Codec
begin

text \<open>
  Frames with a length prefix (\<^verbatim>\<open>src/src/protocol/frame.cpp\<close>), version negotiation
  (\<^verbatim>\<open>versioning.cpp\<close>) and \<^verbatim>\<open>FrameReader\<close>/\<^verbatim>\<open>FrameWriter\<close> (\<^verbatim>\<open>src/src/wire/frame_io.hpp\<close>).

  A byte stream of the proactor is the bytes the peer has sent and will send, with a schedule
  of what each receive and send call transfers: a bounded number of bytes, zero when the
  connection is closed, or an error.  The coroutines run to completion, so that every
  \<^verbatim>\<open>co_await\<close> is a call.
\<close>


section \<open>Frame header\<close>

datatype ApiKey =
    ApiVersions | Metadata | Produce | Fetch | OffsetCommit | OffsetFetch | JoinGroup | SyncGroup
  | Heartbeat | LeaveGroup | CreateTopic | DeleteTopic

definition api_keys :: "ApiKey list" where
  "api_keys = [ApiVersions, Metadata, Produce, Fetch, OffsetCommit, OffsetFetch, JoinGroup,
     SyncGroup, Heartbeat, LeaveGroup, CreateTopic, DeleteTopic]"

fun api_key_code :: "ApiKey \<Rightarrow> 16 word" where
  "api_key_code ApiVersions = 0"
| "api_key_code Metadata = 1"
| "api_key_code Produce = 2"
| "api_key_code Fetch = 3"
| "api_key_code OffsetCommit = 4"
| "api_key_code OffsetFetch = 5"
| "api_key_code JoinGroup = 6"
| "api_key_code SyncGroup = 7"
| "api_key_code Heartbeat = 8"
| "api_key_code LeaveGroup = 9"
| "api_key_code CreateTopic = 10"
| "api_key_code DeleteTopic = 11"

text \<open>Reading an \<^verbatim>\<open>api_key\<close>: values above the last constant are refused.\<close>

definition get_api_key :: "ApiKey parser" where
  "get_api_key = bindP get_u16 (\<lambda>k.
     if k > api_key_code DeleteTopic then failP InvalidArgument else returnP (api_keys ! unat k))"

record FrameHeader =
  fh_length :: "32 word"
  api_key :: ApiKey
  api_version :: "16 word"
  correlation_id :: "32 word"
  flags :: "16 word"

definition kEncodedSize :: nat where "kEncodedSize = 14"
definition kFlagCreditUpdate :: "16 word" where "kFlagCreditUpdate = 1"

definition encode_frame_header :: "FrameHeader \<Rightarrow> bytes" where
  "encode_frame_header h = put_u32 (fh_length h) @ put_u16 (api_key_code (api_key h)) @
     put_u16 (api_version h) @ put_u32 (correlation_id h) @ put_u16 (flags h)"

definition decode_frame_header :: "FrameHeader parser" where
  "decode_frame_header =
     bindP get_u32 (\<lambda>len.
     bindP get_api_key (\<lambda>key.
     bindP get_u16 (\<lambda>version.
     bindP get_u32 (\<lambda>correlation.
     bindP get_u16 (\<lambda>fl.
     returnP \<lparr> fh_length = len, api_key = key, api_version = version,
               correlation_id = correlation, flags = fl \<rparr>)))))"

definition has_credit_update :: "FrameHeader \<Rightarrow> bool" where
  "has_credit_update h \<longleftrightarrow> flags h AND kFlagCreditUpdate \<noteq> 0"

definition length_for :: "nat \<Rightarrow> 32 word" where
  "length_for payload_size = of_nat (kEncodedSize - 4 + payload_size)"

lemma get_put_api_key [simp, roundtrip]: "get_api_key (put_u16 (api_key_code k) @ r) = Inr (k, r)"
  by (cases k) (simp_all add: get_api_key_def api_keys_def)

lemma defensive_get_api_key [defensive_intros]: "defensive get_api_key"
  by (simp add: get_api_key_def defensive_intros)

interpretation frame_header: element_format encode_frame_header decode_frame_header "\<lambda>_. True"
  by unfold_locales (simp_all add: encode_frame_header_def decode_frame_header_def)

lemma defensive_decode_frame_header [defensive_intros]: "defensive decode_frame_header"
  by (simp add: decode_frame_header_def defensive_intros)

lemma length_encode_frame_header [simp]: "length (encode_frame_header h) = 14"
  by (simp add: encode_frame_header_def)


section \<open>Version negotiation\<close>

record ApiVersionRange =
  range_key :: ApiKey
  range_min :: "16 word"
  range_max :: "16 word"

definition negotiate :: "16 word \<Rightarrow> ApiVersionRange \<Rightarrow> 16 word" where
  "negotiate client_max server =
     (let common = min client_max (range_max server) in
      if common \<ge> range_min server then common else 0)"

lemma negotiate_greatest:
  assumes "range_min server \<le> v" "v \<le> range_max server" "v \<le> client_max"
  shows "v \<le> negotiate client_max server \<and> negotiate client_max server \<le> client_max \<and>
    range_min server \<le> negotiate client_max server \<and> negotiate client_max server \<le> range_max server"
proof -
  have "v \<le> min client_max (range_max server)" using assms by simp
  moreover from this have "range_min server \<le> min client_max (range_max server)" using assms(1) by order
  ultimately show ?thesis by (simp add: negotiate_def Let_def)
qed

lemma negotiate_none:
  assumes "\<nexists>v. range_min server \<le> v \<and> v \<le> range_max server \<and> v \<le> client_max"
  shows "negotiate client_max server = 0"
proof -
  have "\<not> range_min server \<le> min client_max (range_max server)"
    using assms by (metis min.cobounded1 min.cobounded2)
  then show ?thesis by (auto simp: negotiate_def Let_def)
qed


section \<open>Byte streams\<close>

datatype io_outcome = Got nat | IoFailed ErrorCode

record Stream =
  incoming :: bytes
  recv_sched :: "io_outcome list"
  outgoing :: bytes
  send_sched :: "io_outcome list"

definition async_recv :: "Stream \<Rightarrow> nat \<Rightarrow> Stream \<times> bytes expected" where
  "async_recv s n =
     (case recv_sched s of
        [] \<Rightarrow> (s \<lparr> incoming := drop n (incoming s) \<rparr>, Inr (take n (incoming s)))
      | Got m # r \<Rightarrow>
          (s \<lparr> incoming := drop (min m n) (incoming s), recv_sched := r \<rparr>, Inr (take (min m n) (incoming s)))
      | IoFailed e # r \<Rightarrow> (s \<lparr> recv_sched := r \<rparr>, Inl e))"

definition async_send :: "Stream \<Rightarrow> bytes \<Rightarrow> Stream \<times> nat expected" where
  "async_send s d =
     (case send_sched s of
        [] \<Rightarrow> (s \<lparr> outgoing := outgoing s @ d \<rparr>, Inr (length d))
      | Got m # r \<Rightarrow>
          (s \<lparr> outgoing := outgoing s @ take m d, send_sched := r \<rparr>, Inr (min m (length d)))
      | IoFailed e # r \<Rightarrow> (s \<lparr> send_sched := r \<rparr>, Inl e))"


section \<open>FrameReader and FrameWriter\<close>

record Frame =
  fr_header :: FrameHeader
  fr_payload :: bytes

lemma async_recv_bound: "async_recv s n = (s', Inr d) \<Longrightarrow> length d \<le> n \<and> incoming s = d @ incoming s'"
  by (auto simp: async_recv_def split: list.splits io_outcome.splits)

function read_exactly :: "Stream \<Rightarrow> bytes \<Rightarrow> nat \<Rightarrow> Stream \<times> bytes \<times> unit expected" where
  "read_exactly s buf total_bytes =
     (if length buf < total_bytes then
        (case async_recv s (total_bytes - length buf) of
           (s, Inl e) \<Rightarrow> (s, buf, Inl e)
         | (s, Inr d) \<Rightarrow> if d = [] then (s, buf, Inl IoError) else read_exactly s (buf @ d) total_bytes)
      else (s, buf, Inr ()))"
  by auto
termination
  by (relation "measure (\<lambda>(s, buf, total_bytes). total_bytes - length buf)") (auto simp flip: length_greater_0_conv)

declare read_exactly.simps [simp del]

definition read_frame :: "Stream \<Rightarrow> nat \<Rightarrow> Stream \<times> Frame expected" where
  "read_frame s max_frame =
     (case read_exactly s [] 4 of
        (s, buf, Inl e) \<Rightarrow> (s, Inl e)
      | (s, buf, Inr _) \<Rightarrow>
          (case get_u32 buf of
             Inl e \<Rightarrow> (s, Inl e)
           | Inr (len, _) \<Rightarrow>
               if unat len < kEncodedSize - 4 then (s, Inl InvalidArgument)
               else if 4 + unat len > max_frame then (s, Inl InvalidArgument)
               else (case read_exactly s buf (4 + unat len) of
                   (s, buf, Inl e) \<Rightarrow> (s, Inl e)
                 | (s, buf, Inr _) \<Rightarrow>
                     (case decode_frame_header buf of
                        Inl e \<Rightarrow> (s, Inl e)
                      | Inr (h, _) \<Rightarrow> (s, Inr \<lparr> fr_header = h, fr_payload = drop kEncodedSize buf \<rparr>)))))"

lemma async_send_bound: "async_send s d = (s', Inr n) \<Longrightarrow> n \<le> length d"
  by (auto simp: async_send_def split: list.splits io_outcome.splits)

function send_all :: "Stream \<Rightarrow> bytes \<Rightarrow> nat \<Rightarrow> Stream \<times> unit expected" where
  "send_all s d sent =
     (if sent < length d then
        (case async_send s (drop sent d) of
           (s, Inl e) \<Rightarrow> (s, Inl e)
         | (s, Inr n) \<Rightarrow> if n = 0 then (s, Inl IoError) else send_all s d (sent + n))
      else (s, Inr ()))"
  by auto
termination
  by (relation "measure (\<lambda>(s, d, sent). length d - sent)") auto

declare send_all.simps [simp del]

definition write_frame :: "Stream \<Rightarrow> FrameHeader \<Rightarrow> bytes \<Rightarrow> Stream \<times> unit expected" where
  "write_frame s h d =
     (case send_all s (encode_frame_header (h \<lparr> fh_length := length_for (length d) \<rparr>)) 0 of
        (s, Inl e) \<Rightarrow> (s, Inl e)
      | (s, Inr u) \<Rightarrow> if d \<noteq> [] then send_all s d 0 else (s, Inr u))"


section \<open>Reassembly\<close>

text \<open>A schedule without errors in which every call transfers something.\<close>

definition calm :: "io_outcome list \<Rightarrow> bool" where
  "calm sched \<longleftrightarrow> list_all (\<lambda>o'. \<exists>m. o' = Got (Suc m)) sched"

lemma calm_Cons: "calm (o' # r) \<longleftrightarrow> (\<exists>m. o' = Got (Suc m)) \<and> calm r"
  by (simp add: calm_def)

lemma calm_simps [simp]: "calm []" "0 < n \<Longrightarrow> calm (Got n # r) \<longleftrightarrow> calm r"
  by (simp add: calm_def) (cases n; simp add: calm_def)

lemma async_recv_calm:
  assumes "calm (recv_sched s)" "incoming s \<noteq> []" "0 < n"
  obtains s' d where "async_recv s n = (s', Inr d)" "d \<noteq> []" "length d \<le> n" "incoming s = d @ incoming s'"
    "calm (recv_sched s')"
proof (cases "recv_sched s")
  case Nil
  then have "async_recv s n = (s \<lparr> incoming := drop n (incoming s) \<rparr>, Inr (take n (incoming s)))"
    by (simp add: async_recv_def)
  then show thesis by (rule that) (use assms Nil in auto)
next
  case (Cons o' r)
  then obtain m where o': "o' = Got (Suc m)" "calm r" using assms(1) by (auto simp: calm_Cons)
  let ?k = "min (Suc m) n"
  have "async_recv s n = (s \<lparr> incoming := drop ?k (incoming s), recv_sched := r \<rparr>, Inr (take ?k (incoming s)))"
    using Cons o' by (simp add: async_recv_def)
  moreover have "take ?k (incoming s) \<noteq> []" "length (take ?k (incoming s)) \<le> n" using assms(2,3) by auto
  ultimately show thesis by (rule that) (use o'(2) in simp_all)
qed

lemma read_exactly_calm:
  assumes "calm (recv_sched s)" "incoming s = d @ r" "length buf + length d = n"
  shows "\<exists>s'. read_exactly s buf n = (s', buf @ d, Inr ()) \<and> incoming s' = r \<and> calm (recv_sched s')"
  using assms
proof (induction "length d" arbitrary: s buf d rule: less_induct)
  case less
  show ?case
  proof (cases "d = []")
    case True
    then show ?thesis using less.prems by (subst read_exactly.simps) simp
  next
    case False
    then have "incoming s \<noteq> []" "0 < n - length buf" using less.prems(2,3) by auto
    then obtain s1 e where recv: "async_recv s (n - length buf) = (s1, Inr e)" "e \<noteq> []"
      "length e \<le> n - length buf" "incoming s = e @ incoming s1" "calm (recv_sched s1)"
      by (rule async_recv_calm [OF less.prems(1)])
    have "take (length e) d = e" "incoming s1 = drop (length e) d @ r"
      using recv(3,4) less.prems(2,3) by (auto simp: append_eq_append_conv_if split: if_splits)
    then obtain d1 where d: "d = e @ d1" "incoming s1 = d1 @ r" by (metis append_take_drop_id)
    obtain s' where "read_exactly s1 (buf @ e) n = (s', (buf @ e) @ d1, Inr ())" "incoming s' = r"
      "calm (recv_sched s')"
      using less.hyps [of d1 s1 "buf @ e"] recv(2,5) d less.prems(3) by auto
    moreover have "length buf < n" using False less.prems(3) by (cases d) auto
    ultimately show ?thesis using recv(1,2) d by (subst read_exactly.simps) simp
  qed
qed

lemma send_all_calm:
  assumes "calm (send_sched s)" "sent \<le> length d"
  shows "\<exists>s'. send_all s d sent = (s', Inr ()) \<and> outgoing s' = outgoing s @ drop sent d \<and>
    calm (send_sched s') \<and> incoming s' = incoming s \<and> recv_sched s' = recv_sched s"
  using assms
proof (induction "length d - sent" arbitrary: s sent rule: less_induct)
  case less
  show ?case
  proof (cases "sent < length d")
    case False
    then show ?thesis using less.prems by (subst send_all.simps) simp
  next
    case True
    obtain s1 n where snd: "async_send s (drop sent d) = (s1, Inr n)" "0 < n" "n \<le> length d - sent"
      "outgoing s1 = outgoing s @ take n (drop sent d)" "calm (send_sched s1)"
      "incoming s1 = incoming s" "recv_sched s1 = recv_sched s"
      using less.prems True by (cases "send_sched s") (auto simp: async_send_def calm_Cons min_def)
    have "take n (drop sent d) @ drop (sent + n) d = drop sent d"
      by (metis append_take_drop_id drop_drop add.commute)
    with less.hyps [of "sent + n" s1] snd True show ?thesis
      by (subst send_all.simps) auto
  qed
qed

lemma read_exactly_consumes:
  "read_exactly s buf n = (s', buf', r) \<Longrightarrow>
   \<exists>d. buf' = buf @ d \<and> incoming s = d @ incoming s' \<and> (length buf \<le> n \<longrightarrow> length buf' \<le> n)"
proof (induction s buf n rule: read_exactly.induct)
  case (1 s buf n)
  show ?case
  proof (cases "length buf < n")
    case False
    then show ?thesis using 1(2) by (subst (asm) read_exactly.simps) simp
  next
    case True
    obtain s1 q where rc: "async_recv s (n - length buf) = (s1, q)" by fastforce
    show ?thesis
    proof (cases "\<exists>d. q = Inr d \<and> d \<noteq> []")
      case False
      then have "s' = s1" "buf' = buf" using 1(2) rc True
        by (cases q; subst (asm) read_exactly.simps; simp)+
      moreover have "incoming s1 = incoming s"
        using rc False by (cases q) (auto simp: async_recv_def split: list.splits io_outcome.splits dest: async_recv_bound)
      ultimately show ?thesis using True by simp
    next
      case True': True
      then obtain d where d: "q = Inr d" "d \<noteq> []" by blast
      then have "read_exactly s1 (buf @ d) n = (s', buf', r)"
        using 1(2) rc True by (subst (asm) read_exactly.simps) simp
      from 1(1) [OF True rc [symmetric] d(1) d(2) this] async_recv_bound [of s _ s1 d] rc d True
      show ?thesis by fastforce
    qed
  qed
qed


lemma unat_length_for: "length d + 10 < 2 ^ 32 \<Longrightarrow> unat (length_for (length d)) = length d + 10"
  unfolding length_for_def kEncodedSize_def
  by (simp add: unsigned_of_nat take_bit_nat_eq_self del: of_nat_add of_nat_Suc)

lemma write_frame_calm:
  assumes "calm (send_sched s)"
  shows "\<exists>s'. write_frame s h d = (s', Inr ()) \<and>
    outgoing s' = outgoing s @ encode_frame_header (h \<lparr> fh_length := length_for (length d) \<rparr>) @ d"
proof -
  let ?h = "encode_frame_header (h \<lparr> fh_length := length_for (length d) \<rparr>)"
  obtain s1 where s1: "send_all s ?h 0 = (s1, Inr ())" "outgoing s1 = outgoing s @ ?h" "calm (send_sched s1)"
    using send_all_calm [OF assms, of 0 ?h] by auto
  obtain s2 where "send_all s1 d 0 = (s2, Inr ())" "outgoing s2 = outgoing s1 @ d"
    using send_all_calm [OF s1(3), of 0 d] by auto
  with s1 show ?thesis by (cases "d = []") (simp_all add: write_frame_def)
qed

lemma read_frame_calm:
  assumes "calm (recv_sched s)" "incoming s = encode_frame_header h @ d @ r"
    and "fh_length h = length_for (length d)" "length d + 10 < 2 ^ 32" "14 + length d \<le> max_frame"
  shows "\<exists>s'. read_frame s max_frame = (s', Inr \<lparr> fr_header = h, fr_payload = d \<rparr>) \<and> incoming s' = r \<and>
    calm (recv_sched s')"
proof -
  let ?e = "encode_frame_header h"
  have len: "unat (fh_length h) = length d + 10" using unat_length_for [OF assms(4)] assms(3) by simp
  have e: "?e = put_u32 (fh_length h) @ drop 4 ?e" by (simp add: encode_frame_header_def)
  then have "incoming s = put_u32 (fh_length h) @ drop 4 ?e @ d @ r" using assms(2) by (metis append_assoc)
  then obtain s1 where s1: "read_exactly s [] 4 = (s1, put_u32 (fh_length h), Inr ())"
    "incoming s1 = drop 4 ?e @ d @ r" "calm (recv_sched s1)"
    using read_exactly_calm [OF assms(1), of "put_u32 (fh_length h)" _ "[]" 4] by auto
  have "incoming s1 = (drop 4 ?e @ d) @ r" using s1(2) by simp
  moreover have "length (put_u32 (fh_length h)) + length (drop 4 ?e @ d) = 4 + unat (fh_length h)"
    using len by simp
  ultimately obtain s2 where s2: "read_exactly s1 (put_u32 (fh_length h)) (4 + unat (fh_length h)) =
      (s2, put_u32 (fh_length h) @ drop 4 ?e @ d, Inr ())" "incoming s2 = r" "calm (recv_sched s2)"
    using read_exactly_calm [OF s1(3)] by blast
  have buf: "put_u32 (fh_length h) @ drop 4 ?e @ d = ?e @ d" using e by (metis append_assoc)
  have g: "get_u32 (put_u32 (fh_length h)) = Inr (fh_length h, [])"
    using get_put(3) [of "fh_length h" "[]"] by simp
  have dh: "decode_frame_header (?e @ d) = Inr (h, d)" by (simp add: frame_header.dec_enc)
  have "drop kEncodedSize (?e @ d) = d" by (simp add: kEncodedSize_def)
  with s1(1) s2 buf g dh len assms(5) show ?thesis
    by (simp add: read_frame_def kEncodedSize_def)
qed


section \<open>Properties\<close>

text \<open>
  C35: Frames survive the network: whatever pieces the stream delivers and accepts, as long as
  every call transfers something, the reader returns exactly the frame the writer was given (with
  the length field the writer computed) and leaves the stream at the next frame.
\<close>

theorem frame_reassembly:
  assumes "calm (send_sched s)" "outgoing s = []" "calm (recv_sched t)"
    and "length d + 10 < 2 ^ 32" "14 + length d \<le> max_frame"
    and "write_frame s h d = (s', r)" "incoming t = outgoing s' @ rest"
  shows "r = Inr () \<and> (\<exists>t'. read_frame t max_frame =
      (t', Inr \<lparr> fr_header = h \<lparr> fh_length := length_for (length d) \<rparr>, fr_payload = d \<rparr>) \<and>
    incoming t' = rest \<and> calm (recv_sched t'))"
proof -
  let ?h = "h \<lparr> fh_length := length_for (length d) \<rparr>"
  have "r = Inr ()" "outgoing s' = encode_frame_header ?h @ d"
    using write_frame_calm [OF assms(1), of h d] assms(2,6) by auto
  with read_frame_calm [OF assms(3), of ?h d rest max_frame] assms(4,5,7) show ?thesis by simp
qed

definition sample_header :: FrameHeader where
  "sample_header = \<lparr> fh_length = 0, api_key = Fetch, api_version = 1, correlation_id = 77, flags = 1 \<rparr>"

theorem frame_reassembly_witness:
  "\<exists>t'. read_frame \<lparr> incoming = encode_frame_header (sample_header \<lparr> fh_length := 12 \<rparr>) @ [8, 9] @ [1],
        recv_sched = [Got 1, Got 2, Got 5], outgoing = [], send_sched = [] \<rparr> 16 =
     (t', Inr \<lparr> fr_header = sample_header \<lparr> fh_length := 12 \<rparr>, fr_payload = [8, 9] \<rparr>) \<and> incoming t' = [1]"
proof -
  let ?s = "\<lparr> incoming = [], recv_sched = [], outgoing = [], send_sched = [Got 3, Got 9] \<rparr>"
  obtain s' r where w: "write_frame ?s sample_header [8, 9] = (s', r)" by fastforce
  have c: "calm (send_sched ?s)" by simp
  have len: "length_for (Suc (Suc 0)) = 12" by (simp add: length_for_def kEncodedSize_def)
  have o': "outgoing s' = encode_frame_header (sample_header \<lparr> fh_length := 12 \<rparr>) @ [8, 9]"
    using write_frame_calm [OF c, of sample_header "[8, 9]"] w len by auto
  show ?thesis
    using frame_reassembly [OF c _ _ _ _ w, of "\<lparr> incoming = encode_frame_header
        (sample_header \<lparr> fh_length := 12 \<rparr>) @ [8, 9] @ [1], recv_sched = [Got 1, Got 2, Got 5],
        outgoing = [], send_sched = [] \<rparr>" 16 "[1]"] o' len
    by auto
qed

text \<open>
  C36: A hostile length cannot exhaust memory: on every stream, \<open>read_frame\<close> takes at most
  \<open>max_frame\<close> bytes (or the four bytes of the length field) from the connection, and a
  frame it returns has a payload of \<open>max_frame - 14\<close> bytes at most.
\<close>

theorem read_frame_bounded:
  "case read_frame s max_frame of
     (s', r) \<Rightarrow> (\<exists>d. incoming s = d @ incoming s' \<and> length d \<le> max max_frame 4) \<and>
       (case r of Inl e \<Rightarrow> True | Inr f \<Rightarrow> length (fr_payload f) + 14 \<le> max_frame)"
proof -
  obtain s1 buf r1 where x1: "read_exactly s [] 4 = (s1, buf, r1)" by (metis prod_cases3)
  from read_exactly_consumes [OF this] have d1: "incoming s = buf @ incoming s1" "length buf \<le> 4" by auto
  show ?thesis
  proof (cases "\<exists>u len q. r1 = Inr u \<and> get_u32 buf = Inr (len, q) \<and> 10 \<le> unat len \<and> 4 + unat len \<le> max_frame")
    case False
    then have "fst (read_frame s max_frame) = s1" "\<exists>e. snd (read_frame s max_frame) = Inl e"
      using x1 by (auto simp: read_frame_def kEncodedSize_def split: sum.splits)
    then show ?thesis using d1 by (auto split: prod.splits)
  next
    case True
    then obtain len q where t: "r1 = Inr ()" "get_u32 buf = Inr (len, q)" "10 \<le> unat len" "4 + unat len \<le> max_frame"
      by auto
    obtain s2 buf2 r2 where x2: "read_exactly s1 buf (4 + unat len) = (s2, buf2, r2)" by (metis prod_cases3)
    from read_exactly_consumes [OF this] d1(2) obtain e where
      d2: "buf2 = buf @ e" "incoming s1 = e @ incoming s2" "length buf2 \<le> 4 + unat len" by auto
    have fst: "fst (read_frame s max_frame) = s2"
      using x1 t x2 by (simp add: read_frame_def kEncodedSize_def split: sum.splits prod.splits)
    have pay: "length (fr_payload f) + 14 \<le> max_frame" if "snd (read_frame s max_frame) = Inr f" for f
      using that x1 t x2 d2(3)
      by (auto simp: read_frame_def kEncodedSize_def split: sum.splits prod.splits)
    have "incoming s = buf2 @ incoming s2 \<and> length buf2 \<le> max_frame" using d1 d2 t(4) by simp
    with fst pay show ?thesis by (auto split: prod.splits sum.splits)
  qed
qed

end
