(* ===== verification/Wire_Messages.thy ===== *)
theory Wire_Messages
  imports Wire_Frame
begin

text \<open>
  The requests and responses of the native protocol (\<^verbatim>\<open>src/src/protocol/messages.hpp\<close>,
  \<^verbatim>\<open>messages.cpp\<close>), in the order of the source.  Every message is a record with its \<open>encode\<close> and
  \<open>decode\<close>; \<open>wf\<close> says which values the fields of the source can hold (integers within their
  width, lengths within \<^verbatim>\<open>std::size_t\<close>).  Each message interprets \<open>element_format\<close>, hence it
  reads back whatever follows it, and each decoder is \<open>defensive\<close>.
\<close>


section \<open>Fields\<close>

datatype Acks = AcksNone | AcksLeader | AcksQuorum

fun acks_code :: "Acks \<Rightarrow> 8 word" where
  "acks_code AcksNone = 0"
| "acks_code AcksLeader = 1"
| "acks_code AcksQuorum = 2"

definition put_acks :: "Acks \<Rightarrow> bytes" where
  "put_acks a = put_u8 (acks_code a)"

definition get_acks :: "Acks parser" where
  "get_acks = bindP get_u8 (\<lambda>v.
     if v > acks_code AcksQuorum then failP InvalidArgument
     else returnP ([AcksNone, AcksLeader, AcksQuorum] ! unat v))"

definition put_range :: "ApiVersionRange \<Rightarrow> bytes" where
  "put_range r = put_u16 (api_key_code (range_key r)) @ put_u16 (range_min r) @ put_u16 (range_max r)"

definition get_range :: "ApiVersionRange parser" where
  "get_range =
     bindP get_api_key (\<lambda>key.
     bindP get_u16 (\<lambda>a.
     bindP get_u16 (\<lambda>b.
     returnP \<lparr> range_key = key, range_min = a, range_max = b \<rparr>)))"

lemma get_put_acks [simp, roundtrip]: "get_acks (put_acks a @ r) = Inr (a, r)"
  by (cases a) (simp_all add: get_acks_def put_acks_def)

lemma put_acks_nonempty [simp]: "put_acks a \<noteq> []"
  by (simp add: put_acks_def)

lemma defensive_get_fields [defensive_intros]: "defensive get_acks" "defensive get_range"
  by (simp_all add: get_acks_def get_range_def defensive_intros)

interpretation range_format: element_format put_range get_range "\<lambda>_. True"
  by unfold_locales (simp_all add: put_range_def get_range_def)


section \<open>Messages\<close>

record ApiVersionsRequest =
  avq_client_version :: "16 word"

definition encode_ApiVersionsRequest :: "ApiVersionsRequest \<Rightarrow> bytes" where
  "encode_ApiVersionsRequest m =
     put_u16 (avq_client_version m)"

definition decode_ApiVersionsRequest :: "ApiVersionsRequest parser" where
  "decode_ApiVersionsRequest =
     bindP get_u16 (\<lambda>a.
     returnP \<lparr> avq_client_version = a \<rparr>)"

definition wf_ApiVersionsRequest :: "ApiVersionsRequest \<Rightarrow> bool" where
  "wf_ApiVersionsRequest m \<longleftrightarrow> True"

record ApiVersionsResponse =
  avr_ranges :: "ApiVersionRange list"

definition encode_ApiVersionsResponse :: "ApiVersionsResponse \<Rightarrow> bytes" where
  "encode_ApiVersionsResponse m =
     put_list put_range (avr_ranges m)"

definition decode_ApiVersionsResponse :: "ApiVersionsResponse parser" where
  "decode_ApiVersionsResponse =
     bindP (get_list get_range) (\<lambda>a.
     returnP \<lparr> avr_ranges = a \<rparr>)"

definition wf_ApiVersionsResponse :: "ApiVersionsResponse \<Rightarrow> bool" where
  "wf_ApiVersionsResponse m \<longleftrightarrow> fits_size (avr_ranges m)"

record BrokerMeta =
  bm_node_id :: "int"
  bm_host :: "bytes"
  bm_port :: "16 word"

definition encode_BrokerMeta :: "BrokerMeta \<Rightarrow> bytes" where
  "encode_BrokerMeta m =
     put_i32 (bm_node_id m) @
     put_string (bm_host m) @
     put_u16 (bm_port m)"

definition decode_BrokerMeta :: "BrokerMeta parser" where
  "decode_BrokerMeta =
     bindP get_i32 (\<lambda>a.
     bindP get_string (\<lambda>b.
     bindP get_u16 (\<lambda>c.
     returnP \<lparr> bm_node_id = a, bm_host = b, bm_port = c \<rparr>)))"

definition wf_BrokerMeta :: "BrokerMeta \<Rightarrow> bool" where
  "wf_BrokerMeta m \<longleftrightarrow> fits_i32 (bm_node_id m) \<and>
     fits_size (bm_host m)"

record PartitionMeta =
  pm_id :: "int"
  pm_leader_node_id :: "int"
  pm_replicas :: "int list"
  pm_leader_epoch :: "int"

definition encode_PartitionMeta :: "PartitionMeta \<Rightarrow> bytes" where
  "encode_PartitionMeta m =
     put_i32 (pm_id m) @
     put_i32 (pm_leader_node_id m) @
     put_list put_i32 (pm_replicas m) @
     put_i32 (pm_leader_epoch m)"

definition decode_PartitionMeta :: "PartitionMeta parser" where
  "decode_PartitionMeta =
     bindP get_i32 (\<lambda>a.
     bindP get_i32 (\<lambda>b.
     bindP (get_list get_i32) (\<lambda>c.
     bindP get_i32 (\<lambda>d.
     returnP \<lparr> pm_id = a, pm_leader_node_id = b, pm_replicas = c, pm_leader_epoch = d \<rparr>))))"

definition wf_PartitionMeta :: "PartitionMeta \<Rightarrow> bool" where
  "wf_PartitionMeta m \<longleftrightarrow> fits_i32 (pm_id m) \<and>
     fits_i32 (pm_leader_node_id m) \<and>
     (\<forall>x \<in> set (pm_replicas m). fits_i32 x) \<and>
     fits_size (pm_replicas m) \<and>
     fits_i32 (pm_leader_epoch m)"

record TopicMeta =
  tm_name :: "bytes"
  tm_error :: "WireError"
  tm_partitions :: "PartitionMeta list"

definition encode_TopicMeta :: "TopicMeta \<Rightarrow> bytes" where
  "encode_TopicMeta m =
     put_string (tm_name m) @
     put_error (tm_error m) @
     put_list encode_PartitionMeta (tm_partitions m)"

definition decode_TopicMeta :: "TopicMeta parser" where
  "decode_TopicMeta =
     bindP get_string (\<lambda>a.
     bindP get_error (\<lambda>b.
     bindP (get_list decode_PartitionMeta) (\<lambda>c.
     returnP \<lparr> tm_name = a, tm_error = b, tm_partitions = c \<rparr>)))"

definition wf_TopicMeta :: "TopicMeta \<Rightarrow> bool" where
  "wf_TopicMeta m \<longleftrightarrow> fits_size (tm_name m) \<and>
     wf_wire_error (tm_error m) \<and>
     (\<forall>x \<in> set (tm_partitions m). wf_PartitionMeta x) \<and>
     fits_size (tm_partitions m)"

record MetadataRequest =
  mdq_topics :: "bytes list"

definition encode_MetadataRequest :: "MetadataRequest \<Rightarrow> bytes" where
  "encode_MetadataRequest m =
     put_list put_string (mdq_topics m)"

definition decode_MetadataRequest :: "MetadataRequest parser" where
  "decode_MetadataRequest =
     bindP (get_list get_string) (\<lambda>a.
     returnP \<lparr> mdq_topics = a \<rparr>)"

definition wf_MetadataRequest :: "MetadataRequest \<Rightarrow> bool" where
  "wf_MetadataRequest m \<longleftrightarrow> (\<forall>x \<in> set (mdq_topics m). fits_size x) \<and>
     fits_size (mdq_topics m)"

record MetadataResponse =
  mdr_brokers :: "BrokerMeta list"
  mdr_topics :: "TopicMeta list"

definition encode_MetadataResponse :: "MetadataResponse \<Rightarrow> bytes" where
  "encode_MetadataResponse m =
     put_list encode_BrokerMeta (mdr_brokers m) @
     put_list encode_TopicMeta (mdr_topics m)"

definition decode_MetadataResponse :: "MetadataResponse parser" where
  "decode_MetadataResponse =
     bindP (get_list decode_BrokerMeta) (\<lambda>a.
     bindP (get_list decode_TopicMeta) (\<lambda>b.
     returnP \<lparr> mdr_brokers = a, mdr_topics = b \<rparr>))"

definition wf_MetadataResponse :: "MetadataResponse \<Rightarrow> bool" where
  "wf_MetadataResponse m \<longleftrightarrow> (\<forall>x \<in> set (mdr_brokers m). wf_BrokerMeta x) \<and>
     fits_size (mdr_brokers m) \<and>
     (\<forall>x \<in> set (mdr_topics m). wf_TopicMeta x) \<and>
     fits_size (mdr_topics m)"

record ProduceRequest =
  prq_topic :: "bytes"
  prq_partition :: "int"
  prq_acks :: "Acks"
  prq_batch :: "bytes"

definition encode_ProduceRequest :: "ProduceRequest \<Rightarrow> bytes" where
  "encode_ProduceRequest m =
     put_string (prq_topic m) @
     put_i32 (prq_partition m) @
     put_acks (prq_acks m) @
     put_bytes (prq_batch m)"

definition decode_ProduceRequest :: "ProduceRequest parser" where
  "decode_ProduceRequest =
     bindP get_string (\<lambda>a.
     bindP get_i32 (\<lambda>b.
     bindP get_acks (\<lambda>c.
     bindP get_bytes (\<lambda>d.
     returnP \<lparr> prq_topic = a, prq_partition = b, prq_acks = c, prq_batch = d \<rparr>))))"

definition wf_ProduceRequest :: "ProduceRequest \<Rightarrow> bool" where
  "wf_ProduceRequest m \<longleftrightarrow> fits_size (prq_topic m) \<and>
     fits_i32 (prq_partition m) \<and>
     fits_size (prq_batch m)"

record ProduceResponse =
  prr_base_offset :: "int"
  prr_error_code :: "WireError"
  prr_throttle_ms :: "int"

definition encode_ProduceResponse :: "ProduceResponse \<Rightarrow> bytes" where
  "encode_ProduceResponse m =
     put_i64 (prr_base_offset m) @
     put_error (prr_error_code m) @
     put_i32 (prr_throttle_ms m)"

definition decode_ProduceResponse :: "ProduceResponse parser" where
  "decode_ProduceResponse =
     bindP get_i64 (\<lambda>a.
     bindP get_error (\<lambda>b.
     bindP get_i32 (\<lambda>c.
     returnP \<lparr> prr_base_offset = a, prr_error_code = b, prr_throttle_ms = c \<rparr>)))"

definition wf_ProduceResponse :: "ProduceResponse \<Rightarrow> bool" where
  "wf_ProduceResponse m \<longleftrightarrow> fits_i64 (prr_base_offset m) \<and>
     wf_wire_error (prr_error_code m) \<and>
     fits_i32 (prr_throttle_ms m)"

record FetchRequest =
  feq_topic :: "bytes"
  feq_partition :: "int"
  feq_fetch_offset :: "int"
  feq_max_bytes :: "int"
  feq_min_bytes :: "int"
  feq_max_wait_ms :: "int"

definition encode_FetchRequest :: "FetchRequest \<Rightarrow> bytes" where
  "encode_FetchRequest m =
     put_string (feq_topic m) @
     put_i32 (feq_partition m) @
     put_i64 (feq_fetch_offset m) @
     put_i32 (feq_max_bytes m) @
     put_i32 (feq_min_bytes m) @
     put_i32 (feq_max_wait_ms m)"

definition decode_FetchRequest :: "FetchRequest parser" where
  "decode_FetchRequest =
     bindP get_string (\<lambda>a.
     bindP get_i32 (\<lambda>b.
     bindP get_i64 (\<lambda>c.
     bindP get_i32 (\<lambda>d.
     bindP get_i32 (\<lambda>e.
     bindP get_i32 (\<lambda>f.
     returnP \<lparr> feq_topic = a, feq_partition = b, feq_fetch_offset = c, feq_max_bytes = d, feq_min_bytes = e, feq_max_wait_ms = f \<rparr>))))))"

definition wf_FetchRequest :: "FetchRequest \<Rightarrow> bool" where
  "wf_FetchRequest m \<longleftrightarrow> fits_size (feq_topic m) \<and>
     fits_i32 (feq_partition m) \<and>
     fits_i64 (feq_fetch_offset m) \<and>
     fits_i32 (feq_max_bytes m) \<and>
     fits_i32 (feq_min_bytes m) \<and>
     fits_i32 (feq_max_wait_ms m)"

record FetchResponse =
  fer_batches :: "bytes"
  fer_high_watermark :: "int"
  fer_log_start_offset :: "int"
  fer_error_code :: "WireError"

definition encode_FetchResponse :: "FetchResponse \<Rightarrow> bytes" where
  "encode_FetchResponse m =
     put_bytes (fer_batches m) @
     put_i64 (fer_high_watermark m) @
     put_i64 (fer_log_start_offset m) @
     put_error (fer_error_code m)"

definition decode_FetchResponse :: "FetchResponse parser" where
  "decode_FetchResponse =
     bindP get_bytes (\<lambda>a.
     bindP get_i64 (\<lambda>b.
     bindP get_i64 (\<lambda>c.
     bindP get_error (\<lambda>d.
     returnP \<lparr> fer_batches = a, fer_high_watermark = b, fer_log_start_offset = c, fer_error_code = d \<rparr>))))"

definition wf_FetchResponse :: "FetchResponse \<Rightarrow> bool" where
  "wf_FetchResponse m \<longleftrightarrow> fits_size (fer_batches m) \<and>
     fits_i64 (fer_high_watermark m) \<and>
     fits_i64 (fer_log_start_offset m) \<and>
     wf_wire_error (fer_error_code m)"

record CreateTopicRequest =
  ctq_name :: "bytes"
  ctq_partition_count :: "int"
  ctq_replication_factor :: "int"

definition encode_CreateTopicRequest :: "CreateTopicRequest \<Rightarrow> bytes" where
  "encode_CreateTopicRequest m =
     put_string (ctq_name m) @
     put_i32 (ctq_partition_count m) @
     put_i16 (ctq_replication_factor m)"

definition decode_CreateTopicRequest :: "CreateTopicRequest parser" where
  "decode_CreateTopicRequest =
     bindP get_string (\<lambda>a.
     bindP get_i32 (\<lambda>b.
     bindP get_i16 (\<lambda>c.
     returnP \<lparr> ctq_name = a, ctq_partition_count = b, ctq_replication_factor = c \<rparr>)))"

definition wf_CreateTopicRequest :: "CreateTopicRequest \<Rightarrow> bool" where
  "wf_CreateTopicRequest m \<longleftrightarrow> fits_size (ctq_name m) \<and>
     fits_i32 (ctq_partition_count m) \<and>
     fits_i16 (ctq_replication_factor m)"

record CreateTopicResponse =
  ctr_error_code :: "WireError"

definition encode_CreateTopicResponse :: "CreateTopicResponse \<Rightarrow> bytes" where
  "encode_CreateTopicResponse m =
     put_error (ctr_error_code m)"

definition decode_CreateTopicResponse :: "CreateTopicResponse parser" where
  "decode_CreateTopicResponse =
     bindP get_error (\<lambda>a.
     returnP \<lparr> ctr_error_code = a \<rparr>)"

definition wf_CreateTopicResponse :: "CreateTopicResponse \<Rightarrow> bool" where
  "wf_CreateTopicResponse m \<longleftrightarrow> wf_wire_error (ctr_error_code m)"

record DeleteTopicRequest =
  dtq_name :: "bytes"

definition encode_DeleteTopicRequest :: "DeleteTopicRequest \<Rightarrow> bytes" where
  "encode_DeleteTopicRequest m =
     put_string (dtq_name m)"

definition decode_DeleteTopicRequest :: "DeleteTopicRequest parser" where
  "decode_DeleteTopicRequest =
     bindP get_string (\<lambda>a.
     returnP \<lparr> dtq_name = a \<rparr>)"

definition wf_DeleteTopicRequest :: "DeleteTopicRequest \<Rightarrow> bool" where
  "wf_DeleteTopicRequest m \<longleftrightarrow> fits_size (dtq_name m)"

record DeleteTopicResponse =
  dtr_error_code :: "WireError"

definition encode_DeleteTopicResponse :: "DeleteTopicResponse \<Rightarrow> bytes" where
  "encode_DeleteTopicResponse m =
     put_error (dtr_error_code m)"

definition decode_DeleteTopicResponse :: "DeleteTopicResponse parser" where
  "decode_DeleteTopicResponse =
     bindP get_error (\<lambda>a.
     returnP \<lparr> dtr_error_code = a \<rparr>)"

definition wf_DeleteTopicResponse :: "DeleteTopicResponse \<Rightarrow> bool" where
  "wf_DeleteTopicResponse m \<longleftrightarrow> wf_wire_error (dtr_error_code m)"

record OffsetCommitRequest =
  ocq_group :: "bytes"
  ocq_topic :: "bytes"
  ocq_partition :: "int"
  ocq_offset :: "int"
  ocq_metadata :: "bytes"

definition encode_OffsetCommitRequest :: "OffsetCommitRequest \<Rightarrow> bytes" where
  "encode_OffsetCommitRequest m =
     put_string (ocq_group m) @
     put_string (ocq_topic m) @
     put_i32 (ocq_partition m) @
     put_i64 (ocq_offset m) @
     put_string (ocq_metadata m)"

definition decode_OffsetCommitRequest :: "OffsetCommitRequest parser" where
  "decode_OffsetCommitRequest =
     bindP get_string (\<lambda>a.
     bindP get_string (\<lambda>b.
     bindP get_i32 (\<lambda>c.
     bindP get_i64 (\<lambda>d.
     bindP get_string (\<lambda>e.
     returnP \<lparr> ocq_group = a, ocq_topic = b, ocq_partition = c, ocq_offset = d, ocq_metadata = e \<rparr>)))))"

definition wf_OffsetCommitRequest :: "OffsetCommitRequest \<Rightarrow> bool" where
  "wf_OffsetCommitRequest m \<longleftrightarrow> fits_size (ocq_group m) \<and>
     fits_size (ocq_topic m) \<and>
     fits_i32 (ocq_partition m) \<and>
     fits_i64 (ocq_offset m) \<and>
     fits_size (ocq_metadata m)"

record OffsetCommitResponse =
  ocr_error_code :: "WireError"

definition encode_OffsetCommitResponse :: "OffsetCommitResponse \<Rightarrow> bytes" where
  "encode_OffsetCommitResponse m =
     put_error (ocr_error_code m)"

definition decode_OffsetCommitResponse :: "OffsetCommitResponse parser" where
  "decode_OffsetCommitResponse =
     bindP get_error (\<lambda>a.
     returnP \<lparr> ocr_error_code = a \<rparr>)"

definition wf_OffsetCommitResponse :: "OffsetCommitResponse \<Rightarrow> bool" where
  "wf_OffsetCommitResponse m \<longleftrightarrow> wf_wire_error (ocr_error_code m)"

record OffsetFetchRequest =
  ofq_group :: "bytes"
  ofq_topic :: "bytes"
  ofq_partition :: "int"

definition encode_OffsetFetchRequest :: "OffsetFetchRequest \<Rightarrow> bytes" where
  "encode_OffsetFetchRequest m =
     put_string (ofq_group m) @
     put_string (ofq_topic m) @
     put_i32 (ofq_partition m)"

definition decode_OffsetFetchRequest :: "OffsetFetchRequest parser" where
  "decode_OffsetFetchRequest =
     bindP get_string (\<lambda>a.
     bindP get_string (\<lambda>b.
     bindP get_i32 (\<lambda>c.
     returnP \<lparr> ofq_group = a, ofq_topic = b, ofq_partition = c \<rparr>)))"

definition wf_OffsetFetchRequest :: "OffsetFetchRequest \<Rightarrow> bool" where
  "wf_OffsetFetchRequest m \<longleftrightarrow> fits_size (ofq_group m) \<and>
     fits_size (ofq_topic m) \<and>
     fits_i32 (ofq_partition m)"

record OffsetFetchResponse =
  ofr_offset :: "int"
  ofr_error_code :: "WireError"

definition encode_OffsetFetchResponse :: "OffsetFetchResponse \<Rightarrow> bytes" where
  "encode_OffsetFetchResponse m =
     put_i64 (ofr_offset m) @
     put_error (ofr_error_code m)"

definition decode_OffsetFetchResponse :: "OffsetFetchResponse parser" where
  "decode_OffsetFetchResponse =
     bindP get_i64 (\<lambda>a.
     bindP get_error (\<lambda>b.
     returnP \<lparr> ofr_offset = a, ofr_error_code = b \<rparr>))"

definition wf_OffsetFetchResponse :: "OffsetFetchResponse \<Rightarrow> bool" where
  "wf_OffsetFetchResponse m \<longleftrightarrow> fits_i64 (ofr_offset m) \<and>
     wf_wire_error (ofr_error_code m)"

record GroupMember =
  gm_member_id :: "bytes"
  gm_subscription :: "bytes"

definition encode_GroupMember :: "GroupMember \<Rightarrow> bytes" where
  "encode_GroupMember m =
     put_string (gm_member_id m) @
     put_bytes (gm_subscription m)"

definition decode_GroupMember :: "GroupMember parser" where
  "decode_GroupMember =
     bindP get_string (\<lambda>a.
     bindP get_bytes (\<lambda>b.
     returnP \<lparr> gm_member_id = a, gm_subscription = b \<rparr>))"

definition wf_GroupMember :: "GroupMember \<Rightarrow> bool" where
  "wf_GroupMember m \<longleftrightarrow> fits_size (gm_member_id m) \<and>
     fits_size (gm_subscription m)"

record GroupAssignment =
  ga_member_id :: "bytes"
  ga_assignment :: "bytes"

definition encode_GroupAssignment :: "GroupAssignment \<Rightarrow> bytes" where
  "encode_GroupAssignment m =
     put_string (ga_member_id m) @
     put_bytes (ga_assignment m)"

definition decode_GroupAssignment :: "GroupAssignment parser" where
  "decode_GroupAssignment =
     bindP get_string (\<lambda>a.
     bindP get_bytes (\<lambda>b.
     returnP \<lparr> ga_member_id = a, ga_assignment = b \<rparr>))"

definition wf_GroupAssignment :: "GroupAssignment \<Rightarrow> bool" where
  "wf_GroupAssignment m \<longleftrightarrow> fits_size (ga_member_id m) \<and>
     fits_size (ga_assignment m)"

record JoinGroupRequest =
  jgq_group :: "bytes"
  jgq_member_id :: "bytes"
  jgq_session_timeout_ms :: "int"
  jgq_subscription :: "bytes"

definition encode_JoinGroupRequest :: "JoinGroupRequest \<Rightarrow> bytes" where
  "encode_JoinGroupRequest m =
     put_string (jgq_group m) @
     put_string (jgq_member_id m) @
     put_i32 (jgq_session_timeout_ms m) @
     put_bytes (jgq_subscription m)"

definition decode_JoinGroupRequest :: "JoinGroupRequest parser" where
  "decode_JoinGroupRequest =
     bindP get_string (\<lambda>a.
     bindP get_string (\<lambda>b.
     bindP get_i32 (\<lambda>c.
     bindP get_bytes (\<lambda>d.
     returnP \<lparr> jgq_group = a, jgq_member_id = b, jgq_session_timeout_ms = c, jgq_subscription = d \<rparr>))))"

definition wf_JoinGroupRequest :: "JoinGroupRequest \<Rightarrow> bool" where
  "wf_JoinGroupRequest m \<longleftrightarrow> fits_size (jgq_group m) \<and>
     fits_size (jgq_member_id m) \<and>
     fits_i32 (jgq_session_timeout_ms m) \<and>
     fits_size (jgq_subscription m)"

record JoinGroupResponse =
  jgr_error_code :: "WireError"
  jgr_generation :: "int"
  jgr_member_id :: "bytes"
  jgr_leader_id :: "bytes"
  jgr_is_leader :: "bool"
  jgr_members :: "GroupMember list"

definition encode_JoinGroupResponse :: "JoinGroupResponse \<Rightarrow> bytes" where
  "encode_JoinGroupResponse m =
     put_error (jgr_error_code m) @
     put_i32 (jgr_generation m) @
     put_string (jgr_member_id m) @
     put_string (jgr_leader_id m) @
     put_bool (jgr_is_leader m) @
     put_list encode_GroupMember (jgr_members m)"

definition decode_JoinGroupResponse :: "JoinGroupResponse parser" where
  "decode_JoinGroupResponse =
     bindP get_error (\<lambda>a.
     bindP get_i32 (\<lambda>b.
     bindP get_string (\<lambda>c.
     bindP get_string (\<lambda>d.
     bindP get_bool (\<lambda>e.
     bindP (get_list decode_GroupMember) (\<lambda>f.
     returnP \<lparr> jgr_error_code = a, jgr_generation = b, jgr_member_id = c, jgr_leader_id = d, jgr_is_leader = e, jgr_members = f \<rparr>))))))"

definition wf_JoinGroupResponse :: "JoinGroupResponse \<Rightarrow> bool" where
  "wf_JoinGroupResponse m \<longleftrightarrow> wf_wire_error (jgr_error_code m) \<and>
     fits_i32 (jgr_generation m) \<and>
     fits_size (jgr_member_id m) \<and>
     fits_size (jgr_leader_id m) \<and>
     (\<forall>x \<in> set (jgr_members m). wf_GroupMember x) \<and>
     fits_size (jgr_members m)"

record SyncGroupRequest =
  sgq_group :: "bytes"
  sgq_member_id :: "bytes"
  sgq_generation :: "int"
  sgq_assignments :: "GroupAssignment list"

definition encode_SyncGroupRequest :: "SyncGroupRequest \<Rightarrow> bytes" where
  "encode_SyncGroupRequest m =
     put_string (sgq_group m) @
     put_string (sgq_member_id m) @
     put_i32 (sgq_generation m) @
     put_list encode_GroupAssignment (sgq_assignments m)"

definition decode_SyncGroupRequest :: "SyncGroupRequest parser" where
  "decode_SyncGroupRequest =
     bindP get_string (\<lambda>a.
     bindP get_string (\<lambda>b.
     bindP get_i32 (\<lambda>c.
     bindP (get_list decode_GroupAssignment) (\<lambda>d.
     returnP \<lparr> sgq_group = a, sgq_member_id = b, sgq_generation = c, sgq_assignments = d \<rparr>))))"

definition wf_SyncGroupRequest :: "SyncGroupRequest \<Rightarrow> bool" where
  "wf_SyncGroupRequest m \<longleftrightarrow> fits_size (sgq_group m) \<and>
     fits_size (sgq_member_id m) \<and>
     fits_i32 (sgq_generation m) \<and>
     (\<forall>x \<in> set (sgq_assignments m). wf_GroupAssignment x) \<and>
     fits_size (sgq_assignments m)"

record SyncGroupResponse =
  sgr_error_code :: "WireError"
  sgr_assignment :: "bytes"

definition encode_SyncGroupResponse :: "SyncGroupResponse \<Rightarrow> bytes" where
  "encode_SyncGroupResponse m =
     put_error (sgr_error_code m) @
     put_bytes (sgr_assignment m)"

definition decode_SyncGroupResponse :: "SyncGroupResponse parser" where
  "decode_SyncGroupResponse =
     bindP get_error (\<lambda>a.
     bindP get_bytes (\<lambda>b.
     returnP \<lparr> sgr_error_code = a, sgr_assignment = b \<rparr>))"

definition wf_SyncGroupResponse :: "SyncGroupResponse \<Rightarrow> bool" where
  "wf_SyncGroupResponse m \<longleftrightarrow> wf_wire_error (sgr_error_code m) \<and>
     fits_size (sgr_assignment m)"

record HeartbeatRequest =
  hbq_group :: "bytes"
  hbq_member_id :: "bytes"
  hbq_generation :: "int"

definition encode_HeartbeatRequest :: "HeartbeatRequest \<Rightarrow> bytes" where
  "encode_HeartbeatRequest m =
     put_string (hbq_group m) @
     put_string (hbq_member_id m) @
     put_i32 (hbq_generation m)"

definition decode_HeartbeatRequest :: "HeartbeatRequest parser" where
  "decode_HeartbeatRequest =
     bindP get_string (\<lambda>a.
     bindP get_string (\<lambda>b.
     bindP get_i32 (\<lambda>c.
     returnP \<lparr> hbq_group = a, hbq_member_id = b, hbq_generation = c \<rparr>)))"

definition wf_HeartbeatRequest :: "HeartbeatRequest \<Rightarrow> bool" where
  "wf_HeartbeatRequest m \<longleftrightarrow> fits_size (hbq_group m) \<and>
     fits_size (hbq_member_id m) \<and>
     fits_i32 (hbq_generation m)"

record HeartbeatResponse =
  hbr_error_code :: "WireError"

definition encode_HeartbeatResponse :: "HeartbeatResponse \<Rightarrow> bytes" where
  "encode_HeartbeatResponse m =
     put_error (hbr_error_code m)"

definition decode_HeartbeatResponse :: "HeartbeatResponse parser" where
  "decode_HeartbeatResponse =
     bindP get_error (\<lambda>a.
     returnP \<lparr> hbr_error_code = a \<rparr>)"

definition wf_HeartbeatResponse :: "HeartbeatResponse \<Rightarrow> bool" where
  "wf_HeartbeatResponse m \<longleftrightarrow> wf_wire_error (hbr_error_code m)"

record LeaveGroupRequest =
  lgq_group :: "bytes"
  lgq_member_id :: "bytes"

definition encode_LeaveGroupRequest :: "LeaveGroupRequest \<Rightarrow> bytes" where
  "encode_LeaveGroupRequest m =
     put_string (lgq_group m) @
     put_string (lgq_member_id m)"

definition decode_LeaveGroupRequest :: "LeaveGroupRequest parser" where
  "decode_LeaveGroupRequest =
     bindP get_string (\<lambda>a.
     bindP get_string (\<lambda>b.
     returnP \<lparr> lgq_group = a, lgq_member_id = b \<rparr>))"

definition wf_LeaveGroupRequest :: "LeaveGroupRequest \<Rightarrow> bool" where
  "wf_LeaveGroupRequest m \<longleftrightarrow> fits_size (lgq_group m) \<and>
     fits_size (lgq_member_id m)"

record LeaveGroupResponse =
  lgr_error_code :: "WireError"

definition encode_LeaveGroupResponse :: "LeaveGroupResponse \<Rightarrow> bytes" where
  "encode_LeaveGroupResponse m =
     put_error (lgr_error_code m)"

definition decode_LeaveGroupResponse :: "LeaveGroupResponse parser" where
  "decode_LeaveGroupResponse =
     bindP get_error (\<lambda>a.
     returnP \<lparr> lgr_error_code = a \<rparr>)"

definition wf_LeaveGroupResponse :: "LeaveGroupResponse \<Rightarrow> bool" where
  "wf_LeaveGroupResponse m \<longleftrightarrow> wf_wire_error (lgr_error_code m)"


section \<open>Round trips and safety on untrusted input\<close>

interpretation apiVersionsRequest_format: element_format encode_ApiVersionsRequest decode_ApiVersionsRequest wf_ApiVersionsRequest
  by unfold_locales (simp_all add: encode_ApiVersionsRequest_def decode_ApiVersionsRequest_def wf_ApiVersionsRequest_def)

lemma defensive_decode_ApiVersionsRequest [defensive_intros]: "defensive decode_ApiVersionsRequest"
  by (simp add: decode_ApiVersionsRequest_def defensive_intros)

interpretation apiVersionsResponse_format: element_format encode_ApiVersionsResponse decode_ApiVersionsResponse wf_ApiVersionsResponse
  by unfold_locales (simp_all add: encode_ApiVersionsResponse_def decode_ApiVersionsResponse_def wf_ApiVersionsResponse_def range_format.get_put_list)

lemma defensive_decode_ApiVersionsResponse [defensive_intros]: "defensive decode_ApiVersionsResponse"
  by (simp add: decode_ApiVersionsResponse_def defensive_intros)

interpretation brokerMeta_format: element_format encode_BrokerMeta decode_BrokerMeta wf_BrokerMeta
  by unfold_locales (simp_all add: encode_BrokerMeta_def decode_BrokerMeta_def wf_BrokerMeta_def)

lemma defensive_decode_BrokerMeta [defensive_intros]: "defensive decode_BrokerMeta"
  by (simp add: decode_BrokerMeta_def defensive_intros)

interpretation partitionMeta_format: element_format encode_PartitionMeta decode_PartitionMeta wf_PartitionMeta
  by unfold_locales (simp_all add: encode_PartitionMeta_def decode_PartitionMeta_def wf_PartitionMeta_def i32_element.get_put_list)

lemma defensive_decode_PartitionMeta [defensive_intros]: "defensive decode_PartitionMeta"
  by (simp add: decode_PartitionMeta_def defensive_intros)

interpretation topicMeta_format: element_format encode_TopicMeta decode_TopicMeta wf_TopicMeta
  by unfold_locales (simp_all add: encode_TopicMeta_def decode_TopicMeta_def wf_TopicMeta_def partitionMeta_format.get_put_list)

lemma defensive_decode_TopicMeta [defensive_intros]: "defensive decode_TopicMeta"
  by (simp add: decode_TopicMeta_def defensive_intros)

interpretation metadataRequest_format: element_format encode_MetadataRequest decode_MetadataRequest wf_MetadataRequest
  by unfold_locales (simp_all add: encode_MetadataRequest_def decode_MetadataRequest_def wf_MetadataRequest_def bytes_element.get_put_list)

lemma defensive_decode_MetadataRequest [defensive_intros]: "defensive decode_MetadataRequest"
  by (simp add: decode_MetadataRequest_def defensive_intros)

interpretation metadataResponse_format: element_format encode_MetadataResponse decode_MetadataResponse wf_MetadataResponse
  by unfold_locales (simp_all add: encode_MetadataResponse_def decode_MetadataResponse_def wf_MetadataResponse_def brokerMeta_format.get_put_list topicMeta_format.get_put_list)

lemma defensive_decode_MetadataResponse [defensive_intros]: "defensive decode_MetadataResponse"
  by (simp add: decode_MetadataResponse_def defensive_intros)

interpretation produceRequest_format: element_format encode_ProduceRequest decode_ProduceRequest wf_ProduceRequest
  by unfold_locales (simp_all add: encode_ProduceRequest_def decode_ProduceRequest_def wf_ProduceRequest_def)

lemma defensive_decode_ProduceRequest [defensive_intros]: "defensive decode_ProduceRequest"
  by (simp add: decode_ProduceRequest_def defensive_intros)

interpretation produceResponse_format: element_format encode_ProduceResponse decode_ProduceResponse wf_ProduceResponse
  by unfold_locales (simp_all add: encode_ProduceResponse_def decode_ProduceResponse_def wf_ProduceResponse_def)

lemma defensive_decode_ProduceResponse [defensive_intros]: "defensive decode_ProduceResponse"
  by (simp add: decode_ProduceResponse_def defensive_intros)

interpretation fetchRequest_format: element_format encode_FetchRequest decode_FetchRequest wf_FetchRequest
  by unfold_locales (simp_all add: encode_FetchRequest_def decode_FetchRequest_def wf_FetchRequest_def)

lemma defensive_decode_FetchRequest [defensive_intros]: "defensive decode_FetchRequest"
  by (simp add: decode_FetchRequest_def defensive_intros)

interpretation fetchResponse_format: element_format encode_FetchResponse decode_FetchResponse wf_FetchResponse
  by unfold_locales (simp_all add: encode_FetchResponse_def decode_FetchResponse_def wf_FetchResponse_def)

lemma defensive_decode_FetchResponse [defensive_intros]: "defensive decode_FetchResponse"
  by (simp add: decode_FetchResponse_def defensive_intros)

interpretation createTopicRequest_format: element_format encode_CreateTopicRequest decode_CreateTopicRequest wf_CreateTopicRequest
  by unfold_locales (simp_all add: encode_CreateTopicRequest_def decode_CreateTopicRequest_def wf_CreateTopicRequest_def)

lemma defensive_decode_CreateTopicRequest [defensive_intros]: "defensive decode_CreateTopicRequest"
  by (simp add: decode_CreateTopicRequest_def defensive_intros)

interpretation createTopicResponse_format: element_format encode_CreateTopicResponse decode_CreateTopicResponse wf_CreateTopicResponse
  by unfold_locales (simp_all add: encode_CreateTopicResponse_def decode_CreateTopicResponse_def wf_CreateTopicResponse_def)

lemma defensive_decode_CreateTopicResponse [defensive_intros]: "defensive decode_CreateTopicResponse"
  by (simp add: decode_CreateTopicResponse_def defensive_intros)

interpretation deleteTopicRequest_format: element_format encode_DeleteTopicRequest decode_DeleteTopicRequest wf_DeleteTopicRequest
  by unfold_locales (simp_all add: encode_DeleteTopicRequest_def decode_DeleteTopicRequest_def wf_DeleteTopicRequest_def)

lemma defensive_decode_DeleteTopicRequest [defensive_intros]: "defensive decode_DeleteTopicRequest"
  by (simp add: decode_DeleteTopicRequest_def defensive_intros)

interpretation deleteTopicResponse_format: element_format encode_DeleteTopicResponse decode_DeleteTopicResponse wf_DeleteTopicResponse
  by unfold_locales (simp_all add: encode_DeleteTopicResponse_def decode_DeleteTopicResponse_def wf_DeleteTopicResponse_def)

lemma defensive_decode_DeleteTopicResponse [defensive_intros]: "defensive decode_DeleteTopicResponse"
  by (simp add: decode_DeleteTopicResponse_def defensive_intros)

interpretation offsetCommitRequest_format: element_format encode_OffsetCommitRequest decode_OffsetCommitRequest wf_OffsetCommitRequest
  by unfold_locales (simp_all add: encode_OffsetCommitRequest_def decode_OffsetCommitRequest_def wf_OffsetCommitRequest_def)

lemma defensive_decode_OffsetCommitRequest [defensive_intros]: "defensive decode_OffsetCommitRequest"
  by (simp add: decode_OffsetCommitRequest_def defensive_intros)

interpretation offsetCommitResponse_format: element_format encode_OffsetCommitResponse decode_OffsetCommitResponse wf_OffsetCommitResponse
  by unfold_locales (simp_all add: encode_OffsetCommitResponse_def decode_OffsetCommitResponse_def wf_OffsetCommitResponse_def)

lemma defensive_decode_OffsetCommitResponse [defensive_intros]: "defensive decode_OffsetCommitResponse"
  by (simp add: decode_OffsetCommitResponse_def defensive_intros)

interpretation offsetFetchRequest_format: element_format encode_OffsetFetchRequest decode_OffsetFetchRequest wf_OffsetFetchRequest
  by unfold_locales (simp_all add: encode_OffsetFetchRequest_def decode_OffsetFetchRequest_def wf_OffsetFetchRequest_def)

lemma defensive_decode_OffsetFetchRequest [defensive_intros]: "defensive decode_OffsetFetchRequest"
  by (simp add: decode_OffsetFetchRequest_def defensive_intros)

interpretation offsetFetchResponse_format: element_format encode_OffsetFetchResponse decode_OffsetFetchResponse wf_OffsetFetchResponse
  by unfold_locales (simp_all add: encode_OffsetFetchResponse_def decode_OffsetFetchResponse_def wf_OffsetFetchResponse_def)

lemma defensive_decode_OffsetFetchResponse [defensive_intros]: "defensive decode_OffsetFetchResponse"
  by (simp add: decode_OffsetFetchResponse_def defensive_intros)

interpretation groupMember_format: element_format encode_GroupMember decode_GroupMember wf_GroupMember
  by unfold_locales (simp_all add: encode_GroupMember_def decode_GroupMember_def wf_GroupMember_def)

lemma defensive_decode_GroupMember [defensive_intros]: "defensive decode_GroupMember"
  by (simp add: decode_GroupMember_def defensive_intros)

interpretation groupAssignment_format: element_format encode_GroupAssignment decode_GroupAssignment wf_GroupAssignment
  by unfold_locales (simp_all add: encode_GroupAssignment_def decode_GroupAssignment_def wf_GroupAssignment_def)

lemma defensive_decode_GroupAssignment [defensive_intros]: "defensive decode_GroupAssignment"
  by (simp add: decode_GroupAssignment_def defensive_intros)

interpretation joinGroupRequest_format: element_format encode_JoinGroupRequest decode_JoinGroupRequest wf_JoinGroupRequest
  by unfold_locales (simp_all add: encode_JoinGroupRequest_def decode_JoinGroupRequest_def wf_JoinGroupRequest_def)

lemma defensive_decode_JoinGroupRequest [defensive_intros]: "defensive decode_JoinGroupRequest"
  by (simp add: decode_JoinGroupRequest_def defensive_intros)

interpretation joinGroupResponse_format: element_format encode_JoinGroupResponse decode_JoinGroupResponse wf_JoinGroupResponse
  by unfold_locales (simp_all add: encode_JoinGroupResponse_def decode_JoinGroupResponse_def wf_JoinGroupResponse_def groupMember_format.get_put_list)

lemma defensive_decode_JoinGroupResponse [defensive_intros]: "defensive decode_JoinGroupResponse"
  by (simp add: decode_JoinGroupResponse_def defensive_intros)

interpretation syncGroupRequest_format: element_format encode_SyncGroupRequest decode_SyncGroupRequest wf_SyncGroupRequest
  by unfold_locales (simp_all add: encode_SyncGroupRequest_def decode_SyncGroupRequest_def wf_SyncGroupRequest_def groupAssignment_format.get_put_list)

lemma defensive_decode_SyncGroupRequest [defensive_intros]: "defensive decode_SyncGroupRequest"
  by (simp add: decode_SyncGroupRequest_def defensive_intros)

interpretation syncGroupResponse_format: element_format encode_SyncGroupResponse decode_SyncGroupResponse wf_SyncGroupResponse
  by unfold_locales (simp_all add: encode_SyncGroupResponse_def decode_SyncGroupResponse_def wf_SyncGroupResponse_def)

lemma defensive_decode_SyncGroupResponse [defensive_intros]: "defensive decode_SyncGroupResponse"
  by (simp add: decode_SyncGroupResponse_def defensive_intros)

interpretation heartbeatRequest_format: element_format encode_HeartbeatRequest decode_HeartbeatRequest wf_HeartbeatRequest
  by unfold_locales (simp_all add: encode_HeartbeatRequest_def decode_HeartbeatRequest_def wf_HeartbeatRequest_def)

lemma defensive_decode_HeartbeatRequest [defensive_intros]: "defensive decode_HeartbeatRequest"
  by (simp add: decode_HeartbeatRequest_def defensive_intros)

interpretation heartbeatResponse_format: element_format encode_HeartbeatResponse decode_HeartbeatResponse wf_HeartbeatResponse
  by unfold_locales (simp_all add: encode_HeartbeatResponse_def decode_HeartbeatResponse_def wf_HeartbeatResponse_def)

lemma defensive_decode_HeartbeatResponse [defensive_intros]: "defensive decode_HeartbeatResponse"
  by (simp add: decode_HeartbeatResponse_def defensive_intros)

interpretation leaveGroupRequest_format: element_format encode_LeaveGroupRequest decode_LeaveGroupRequest wf_LeaveGroupRequest
  by unfold_locales (simp_all add: encode_LeaveGroupRequest_def decode_LeaveGroupRequest_def wf_LeaveGroupRequest_def)

lemma defensive_decode_LeaveGroupRequest [defensive_intros]: "defensive decode_LeaveGroupRequest"
  by (simp add: decode_LeaveGroupRequest_def defensive_intros)

interpretation leaveGroupResponse_format: element_format encode_LeaveGroupResponse decode_LeaveGroupResponse wf_LeaveGroupResponse
  by unfold_locales (simp_all add: encode_LeaveGroupResponse_def decode_LeaveGroupResponse_def wf_LeaveGroupResponse_def)

lemma defensive_decode_LeaveGroupResponse [defensive_intros]: "defensive decode_LeaveGroupResponse"
  by (simp add: decode_LeaveGroupResponse_def defensive_intros)



section \<open>The bodies of the protocol\<close>

text \<open>
  A body is read with the decoder of its API key (\<^verbatim>\<open>RequestRouter::dispatch\<close> on the server,
  \<^verbatim>\<open>client.cpp\<close> on the other side); the sums below collect the requests and the responses.
\<close>

datatype Request =
    ApiVersionsQ ApiVersionsRequest
  | MetadataQ MetadataRequest
  | ProduceQ ProduceRequest
  | FetchQ FetchRequest
  | CreateTopicQ CreateTopicRequest
  | DeleteTopicQ DeleteTopicRequest
  | OffsetCommitQ OffsetCommitRequest
  | OffsetFetchQ OffsetFetchRequest
  | JoinGroupQ JoinGroupRequest
  | SyncGroupQ SyncGroupRequest
  | HeartbeatQ HeartbeatRequest
  | LeaveGroupQ LeaveGroupRequest

fun request_key :: "Request \<Rightarrow> ApiKey" where
  "request_key (ApiVersionsQ _) = ApiVersions"
| "request_key (MetadataQ _) = Metadata"
| "request_key (ProduceQ _) = Produce"
| "request_key (FetchQ _) = Fetch"
| "request_key (CreateTopicQ _) = CreateTopic"
| "request_key (DeleteTopicQ _) = DeleteTopic"
| "request_key (OffsetCommitQ _) = OffsetCommit"
| "request_key (OffsetFetchQ _) = OffsetFetch"
| "request_key (JoinGroupQ _) = JoinGroup"
| "request_key (SyncGroupQ _) = SyncGroup"
| "request_key (HeartbeatQ _) = Heartbeat"
| "request_key (LeaveGroupQ _) = LeaveGroup"

fun encode_request :: "Request \<Rightarrow> bytes" where
  "encode_request (ApiVersionsQ m) = encode_ApiVersionsRequest m"
| "encode_request (MetadataQ m) = encode_MetadataRequest m"
| "encode_request (ProduceQ m) = encode_ProduceRequest m"
| "encode_request (FetchQ m) = encode_FetchRequest m"
| "encode_request (CreateTopicQ m) = encode_CreateTopicRequest m"
| "encode_request (DeleteTopicQ m) = encode_DeleteTopicRequest m"
| "encode_request (OffsetCommitQ m) = encode_OffsetCommitRequest m"
| "encode_request (OffsetFetchQ m) = encode_OffsetFetchRequest m"
| "encode_request (JoinGroupQ m) = encode_JoinGroupRequest m"
| "encode_request (SyncGroupQ m) = encode_SyncGroupRequest m"
| "encode_request (HeartbeatQ m) = encode_HeartbeatRequest m"
| "encode_request (LeaveGroupQ m) = encode_LeaveGroupRequest m"

fun wf_request :: "Request \<Rightarrow> bool" where
  "wf_request (ApiVersionsQ m) = wf_ApiVersionsRequest m"
| "wf_request (MetadataQ m) = wf_MetadataRequest m"
| "wf_request (ProduceQ m) = wf_ProduceRequest m"
| "wf_request (FetchQ m) = wf_FetchRequest m"
| "wf_request (CreateTopicQ m) = wf_CreateTopicRequest m"
| "wf_request (DeleteTopicQ m) = wf_DeleteTopicRequest m"
| "wf_request (OffsetCommitQ m) = wf_OffsetCommitRequest m"
| "wf_request (OffsetFetchQ m) = wf_OffsetFetchRequest m"
| "wf_request (JoinGroupQ m) = wf_JoinGroupRequest m"
| "wf_request (SyncGroupQ m) = wf_SyncGroupRequest m"
| "wf_request (HeartbeatQ m) = wf_HeartbeatRequest m"
| "wf_request (LeaveGroupQ m) = wf_LeaveGroupRequest m"

fun decode_request :: "ApiKey \<Rightarrow> Request parser" where
  "decode_request ApiVersions = bindP decode_ApiVersionsRequest (\<lambda>m. returnP (ApiVersionsQ m))"
| "decode_request Metadata = bindP decode_MetadataRequest (\<lambda>m. returnP (MetadataQ m))"
| "decode_request Produce = bindP decode_ProduceRequest (\<lambda>m. returnP (ProduceQ m))"
| "decode_request Fetch = bindP decode_FetchRequest (\<lambda>m. returnP (FetchQ m))"
| "decode_request CreateTopic = bindP decode_CreateTopicRequest (\<lambda>m. returnP (CreateTopicQ m))"
| "decode_request DeleteTopic = bindP decode_DeleteTopicRequest (\<lambda>m. returnP (DeleteTopicQ m))"
| "decode_request OffsetCommit = bindP decode_OffsetCommitRequest (\<lambda>m. returnP (OffsetCommitQ m))"
| "decode_request OffsetFetch = bindP decode_OffsetFetchRequest (\<lambda>m. returnP (OffsetFetchQ m))"
| "decode_request JoinGroup = bindP decode_JoinGroupRequest (\<lambda>m. returnP (JoinGroupQ m))"
| "decode_request SyncGroup = bindP decode_SyncGroupRequest (\<lambda>m. returnP (SyncGroupQ m))"
| "decode_request Heartbeat = bindP decode_HeartbeatRequest (\<lambda>m. returnP (HeartbeatQ m))"
| "decode_request LeaveGroup = bindP decode_LeaveGroupRequest (\<lambda>m. returnP (LeaveGroupQ m))"

datatype Response =
    ApiVersionsR ApiVersionsResponse
  | MetadataR MetadataResponse
  | ProduceR ProduceResponse
  | FetchR FetchResponse
  | CreateTopicR CreateTopicResponse
  | DeleteTopicR DeleteTopicResponse
  | OffsetCommitR OffsetCommitResponse
  | OffsetFetchR OffsetFetchResponse
  | JoinGroupR JoinGroupResponse
  | SyncGroupR SyncGroupResponse
  | HeartbeatR HeartbeatResponse
  | LeaveGroupR LeaveGroupResponse

fun response_key :: "Response \<Rightarrow> ApiKey" where
  "response_key (ApiVersionsR _) = ApiVersions"
| "response_key (MetadataR _) = Metadata"
| "response_key (ProduceR _) = Produce"
| "response_key (FetchR _) = Fetch"
| "response_key (CreateTopicR _) = CreateTopic"
| "response_key (DeleteTopicR _) = DeleteTopic"
| "response_key (OffsetCommitR _) = OffsetCommit"
| "response_key (OffsetFetchR _) = OffsetFetch"
| "response_key (JoinGroupR _) = JoinGroup"
| "response_key (SyncGroupR _) = SyncGroup"
| "response_key (HeartbeatR _) = Heartbeat"
| "response_key (LeaveGroupR _) = LeaveGroup"

fun encode_response :: "Response \<Rightarrow> bytes" where
  "encode_response (ApiVersionsR m) = encode_ApiVersionsResponse m"
| "encode_response (MetadataR m) = encode_MetadataResponse m"
| "encode_response (ProduceR m) = encode_ProduceResponse m"
| "encode_response (FetchR m) = encode_FetchResponse m"
| "encode_response (CreateTopicR m) = encode_CreateTopicResponse m"
| "encode_response (DeleteTopicR m) = encode_DeleteTopicResponse m"
| "encode_response (OffsetCommitR m) = encode_OffsetCommitResponse m"
| "encode_response (OffsetFetchR m) = encode_OffsetFetchResponse m"
| "encode_response (JoinGroupR m) = encode_JoinGroupResponse m"
| "encode_response (SyncGroupR m) = encode_SyncGroupResponse m"
| "encode_response (HeartbeatR m) = encode_HeartbeatResponse m"
| "encode_response (LeaveGroupR m) = encode_LeaveGroupResponse m"

fun wf_response :: "Response \<Rightarrow> bool" where
  "wf_response (ApiVersionsR m) = wf_ApiVersionsResponse m"
| "wf_response (MetadataR m) = wf_MetadataResponse m"
| "wf_response (ProduceR m) = wf_ProduceResponse m"
| "wf_response (FetchR m) = wf_FetchResponse m"
| "wf_response (CreateTopicR m) = wf_CreateTopicResponse m"
| "wf_response (DeleteTopicR m) = wf_DeleteTopicResponse m"
| "wf_response (OffsetCommitR m) = wf_OffsetCommitResponse m"
| "wf_response (OffsetFetchR m) = wf_OffsetFetchResponse m"
| "wf_response (JoinGroupR m) = wf_JoinGroupResponse m"
| "wf_response (SyncGroupR m) = wf_SyncGroupResponse m"
| "wf_response (HeartbeatR m) = wf_HeartbeatResponse m"
| "wf_response (LeaveGroupR m) = wf_LeaveGroupResponse m"

fun decode_response :: "ApiKey \<Rightarrow> Response parser" where
  "decode_response ApiVersions = bindP decode_ApiVersionsResponse (\<lambda>m. returnP (ApiVersionsR m))"
| "decode_response Metadata = bindP decode_MetadataResponse (\<lambda>m. returnP (MetadataR m))"
| "decode_response Produce = bindP decode_ProduceResponse (\<lambda>m. returnP (ProduceR m))"
| "decode_response Fetch = bindP decode_FetchResponse (\<lambda>m. returnP (FetchR m))"
| "decode_response CreateTopic = bindP decode_CreateTopicResponse (\<lambda>m. returnP (CreateTopicR m))"
| "decode_response DeleteTopic = bindP decode_DeleteTopicResponse (\<lambda>m. returnP (DeleteTopicR m))"
| "decode_response OffsetCommit = bindP decode_OffsetCommitResponse (\<lambda>m. returnP (OffsetCommitR m))"
| "decode_response OffsetFetch = bindP decode_OffsetFetchResponse (\<lambda>m. returnP (OffsetFetchR m))"
| "decode_response JoinGroup = bindP decode_JoinGroupResponse (\<lambda>m. returnP (JoinGroupR m))"
| "decode_response SyncGroup = bindP decode_SyncGroupResponse (\<lambda>m. returnP (SyncGroupR m))"
| "decode_response Heartbeat = bindP decode_HeartbeatResponse (\<lambda>m. returnP (HeartbeatR m))"
| "decode_response LeaveGroup = bindP decode_LeaveGroupResponse (\<lambda>m. returnP (LeaveGroupR m))"

lemmas request_formats =
  apiVersionsRequest_format.dec_enc metadataRequest_format.dec_enc produceRequest_format.dec_enc
  fetchRequest_format.dec_enc createTopicRequest_format.dec_enc deleteTopicRequest_format.dec_enc
  offsetCommitRequest_format.dec_enc offsetFetchRequest_format.dec_enc joinGroupRequest_format.dec_enc
  syncGroupRequest_format.dec_enc heartbeatRequest_format.dec_enc leaveGroupRequest_format.dec_enc

lemmas response_formats =
  apiVersionsResponse_format.dec_enc metadataResponse_format.dec_enc produceResponse_format.dec_enc
  fetchResponse_format.dec_enc createTopicResponse_format.dec_enc deleteTopicResponse_format.dec_enc
  offsetCommitResponse_format.dec_enc offsetFetchResponse_format.dec_enc joinGroupResponse_format.dec_enc
  syncGroupResponse_format.dec_enc heartbeatResponse_format.dec_enc leaveGroupResponse_format.dec_enc

lemma decode_encode_request [simp]:
  "wf_request q \<Longrightarrow> decode_request (request_key q) (encode_request q @ r) = Inr (q, r)"
  by (cases q) (simp_all add: request_formats)

lemma decode_encode_response [simp]:
  "wf_response s \<Longrightarrow> decode_response (response_key s) (encode_response s @ r) = Inr (s, r)"
  by (cases s) (simp_all add: response_formats)

text \<open>
  C37: every message of the protocol reads back.  A request or a response whose fields fit their
  widths, encoded and followed by any bytes, is returned by the decoder its API key selects, and
  exactly its own bytes are consumed.
\<close>
theorem messages_roundtrip:
  assumes "wf_request q" and "wf_response s"
  shows "decode_request (request_key q) (encode_request q @ rest) = Inr (q, rest) \<and>
         decode_response (response_key s) (encode_response s @ rest) = Inr (s, rest)"
  using assms by simp

definition sample_request :: Request where
  "sample_request = JoinGroupQ \<lparr> jgq_group = [103], jgq_member_id = [], jgq_session_timeout_ms = 30000,
     jgq_subscription = [1, 2] \<rparr>"

definition sample_response :: Response where
  "sample_response = MetadataR \<lparr> mdr_brokers = [\<lparr> bm_node_id = 1, bm_host = [104], bm_port = 9092 \<rparr>],
     mdr_topics = [\<lparr> tm_name = [116], tm_error = WNone,
       tm_partitions = [\<lparr> pm_id = 0, pm_leader_node_id = 1, pm_replicas = [1, 2, 3], pm_leader_epoch = -1 \<rparr>] \<rparr>] \<rparr>"

theorem messages_roundtrip_witness:
  "wf_request sample_request \<and> wf_response sample_response \<and>
   decode_request JoinGroup (encode_request sample_request @ [0, 1]) = Inr (sample_request, [0, 1]) \<and>
   decode_response Metadata (encode_response sample_response @ [0, 1]) = Inr (sample_response, [0, 1])"
proof -
  have q: "wf_request sample_request" by (simp add: sample_request_def wf_JoinGroupRequest_def)
  have s: "wf_response sample_response"
    by (simp add: sample_response_def wf_MetadataResponse_def wf_BrokerMeta_def wf_TopicMeta_def wf_PartitionMeta_def)
  have k: "request_key sample_request = JoinGroup" "response_key sample_response = Metadata"
    by (simp_all add: sample_request_def sample_response_def)
  show ?thesis using messages_roundtrip [OF q s, of "[0, 1]"] q s by (simp add: k)
qed

lemma defensive_decode_request [defensive_intros]: "defensive (decode_request k)"
  by (cases k) (simp_all add: defensive_intros)

lemma defensive_decode_response [defensive_intros]: "defensive (decode_response k)"
  by (cases k) (simp_all add: defensive_intros)


end
