(* ===== verification/Raft_State.thy ===== *)
theory Raft_State
  imports Prelude
begin

text \<open>
  The data of a replica (\<^verbatim>\<open>src/src/consensus/raft_state.hpp\<close>, \<^verbatim>\<open>raft_state.cpp\<close>): its role, the
  entries of its log, a snapshot, the state that survives a restart (term and vote) and the
  volatile state (commit index and, on a leader, the progress of each peer).  The two
  \<^verbatim>\<open>unordered_map\<close>s of the progress are maps; a missing peer reads as 0.
\<close>

datatype RaftRole = Follower | PreCandidate | Candidate | Leader

text \<open>
  The enumeration is stored in one byte; \<^verbatim>\<open>RaftLog::open\<close> does not check the byte it reads, so a value
  may be none of the two constants.
\<close>

datatype RaftEntryType = Data | Config | OtherType byte

record RaftLogEntry =
  le_term :: int
  le_index :: int
  le_type :: RaftEntryType
  le_payload :: bytes

record Snapshot =
  sn_last_included_index :: int
  sn_last_included_term :: int
  sn_last_included_offset :: int
  sn_state :: bytes

definition empty_snapshot :: Snapshot where
  "empty_snapshot = \<lparr> sn_last_included_index = 0, sn_last_included_term = 0, sn_last_included_offset = 0, sn_state = [] \<rparr>"


section \<open>Persistent state\<close>

record RaftPersistentState =
  current_term :: int
  voted_for :: "int option"

definition initial_persistent :: RaftPersistentState where
  "initial_persistent = \<lparr> current_term = 0, voted_for = None \<rparr>"

definition ps_advance_term :: "RaftPersistentState \<Rightarrow> int \<Rightarrow> RaftPersistentState" where
  "ps_advance_term p new_term = p\<lparr> current_term := new_term, voted_for := None \<rparr>"

definition ps_record_vote :: "RaftPersistentState \<Rightarrow> int \<Rightarrow> RaftPersistentState" where
  "ps_record_vote p candidate = p\<lparr> voted_for := Some candidate \<rparr>"

definition ps_restore :: "int \<Rightarrow> int option \<Rightarrow> RaftPersistentState" where
  "ps_restore t v = \<lparr> current_term = t, voted_for = v \<rparr>"

text \<open>
  What a replica may do to its term and vote: the term grows, or it stays and a vote already given
  is kept.
\<close>

definition persistent_le :: "RaftPersistentState \<Rightarrow> RaftPersistentState \<Rightarrow> bool" where
  "persistent_le p q \<longleftrightarrow> current_term p < current_term q \<or>
     current_term p = current_term q \<and> (voted_for p = None \<or> voted_for q = voted_for p)"

lemma persistent_le_refl [simp, intro]: "persistent_le p p"
  by (simp add: persistent_le_def)

lemma persistent_le_trans [trans]: "persistent_le p q \<Longrightarrow> persistent_le q r \<Longrightarrow> persistent_le p r"
  by (auto simp: persistent_le_def)

lemma persistent_le_term: "persistent_le p q \<Longrightarrow> current_term p \<le> current_term q"
  by (auto simp: persistent_le_def)


section \<open>Volatile state\<close>

record RaftVolatileState =
  commit_index :: int
  last_applied :: int
  next_index_map :: "int \<rightharpoonup> int"
  match_index_map :: "int \<rightharpoonup> int"

definition initial_volatile :: RaftVolatileState where
  "initial_volatile = \<lparr> commit_index = 0, last_applied = 0, next_index_map = Map.empty, match_index_map = Map.empty \<rparr>"

definition reset_leader_progress :: "RaftVolatileState \<Rightarrow> int list \<Rightarrow> int \<Rightarrow> RaftVolatileState" where
  "reset_leader_progress v peers last_log_index =
     v\<lparr> next_index_map := map_of (map (\<lambda>p. (p, last_log_index + 1)) peers),
        match_index_map := map_of (map (\<lambda>p. (p, 0)) peers) \<rparr>"

definition clear_leader_progress :: "RaftVolatileState \<Rightarrow> RaftVolatileState" where
  "clear_leader_progress v = v\<lparr> next_index_map := Map.empty, match_index_map := Map.empty \<rparr>"

definition next_index :: "RaftVolatileState \<Rightarrow> int \<Rightarrow> int" where
  "next_index v peer = (case next_index_map v peer of None \<Rightarrow> 0 | Some i \<Rightarrow> i)"

definition match_index :: "RaftVolatileState \<Rightarrow> int \<Rightarrow> int" where
  "match_index v peer = (case match_index_map v peer of None \<Rightarrow> 0 | Some i \<Rightarrow> i)"

definition set_next_index :: "RaftVolatileState \<Rightarrow> int \<Rightarrow> int \<Rightarrow> RaftVolatileState" where
  "set_next_index v peer i = v\<lparr> next_index_map := (next_index_map v)(peer \<mapsto> i) \<rparr>"

definition set_match_index :: "RaftVolatileState \<Rightarrow> int \<Rightarrow> int \<Rightarrow> RaftVolatileState" where
  "set_match_index v peer i = v\<lparr> match_index_map := (match_index_map v)(peer \<mapsto> i) \<rparr>"

lemma map_of_const: "map_of (map (\<lambda>p. (p, c)) ps) x = (if x \<in> set ps then Some c else None)"
  by (induction ps) auto

lemma progress_simps [simp]:
  "match_index (set_match_index v p i) q = (if q = p then i else match_index v q)"
  "match_index (set_next_index v p i) q = match_index v q"
  "next_index (set_next_index v p i) q = (if q = p then i else next_index v q)"
  "next_index (set_match_index v p i) q = next_index v q"
  "match_index (clear_leader_progress v) q = 0"
  "match_index (reset_leader_progress v ps l) q = 0"
  "next_index (reset_leader_progress v ps l) q = (if q \<in> set ps then l + 1 else 0)"
  "commit_index (set_match_index v p i) = commit_index v"
  "commit_index (set_next_index v p i) = commit_index v"
  "commit_index (clear_leader_progress v) = commit_index v"
  "commit_index (reset_leader_progress v ps l) = commit_index v"
  "match_index (v\<lparr>commit_index := i\<rparr>) q = match_index v q"
  "next_index (v\<lparr>commit_index := i\<rparr>) q = next_index v q"
  by (simp_all add: match_index_def next_index_def set_match_index_def set_next_index_def
      clear_leader_progress_def reset_leader_progress_def map_of_const)

end
