(* ===== verification/Raft_Rpc.thy ===== *)
theory Raft_Rpc
  imports Raft_State Wire_Codec
begin

text \<open>
  The messages between replicas (\<^verbatim>\<open>src/src/consensus/raft_rpc.hpp\<close>, \<^verbatim>\<open>raft_rpc.cpp\<close>) and the envelope
  that routes one to a partition (\<^verbatim>\<open>raft_wire.hpp\<close>, \<^verbatim>\<open>raft_wire.cpp\<close>).  The \<^verbatim>\<open>variant\<close> of
  \<^verbatim>\<open>RaftMessage\<close> is a datatype in the same order; its index is the type byte of the envelope.
\<close>


section \<open>Entries and snapshots\<close>

fun entry_type_code :: "RaftEntryType \<Rightarrow> 8 word" where
  "entry_type_code Data = 0"
| "entry_type_code Config = 1"
| "entry_type_code (OtherType b) = b"

definition entry_type_of :: "8 word \<Rightarrow> RaftEntryType" where
  "entry_type_of b = (if b = 0 then Data else if b = 1 then Config else OtherType b)"

definition wf_type :: "RaftEntryType \<Rightarrow> bool" where
  "wf_type t \<longleftrightarrow> t = Data \<or> t = Config"

definition get_entry_type :: "RaftEntryType parser" where
  "get_entry_type = bindP get_u8 (\<lambda>t.
     if t > entry_type_code Config then failP InvalidArgument
     else returnP (entry_type_of t))"

definition encode_entry :: "RaftLogEntry \<Rightarrow> bytes" where
  "encode_entry e = put_i64 (le_term e) @ put_i64 (le_index e) @ put_u8 (entry_type_code (le_type e)) @
     put_bytes (le_payload e)"

definition decode_entry :: "RaftLogEntry parser" where
  "decode_entry =
     bindP get_i64 (\<lambda>a.
     bindP get_i64 (\<lambda>b.
     bindP get_entry_type (\<lambda>c.
     bindP get_bytes (\<lambda>d.
     returnP \<lparr> le_term = a, le_index = b, le_type = c, le_payload = d \<rparr>))))"

definition wf_entry :: "RaftLogEntry \<Rightarrow> bool" where
  "wf_entry e \<longleftrightarrow> fits_i64 (le_term e) \<and> fits_i64 (le_index e) \<and> wf_type (le_type e) \<and>
     fits_size (le_payload e)"

definition encode_snapshot :: "Snapshot \<Rightarrow> bytes" where
  "encode_snapshot s = put_i64 (sn_last_included_index s) @ put_i64 (sn_last_included_term s) @
     put_i64 (sn_last_included_offset s) @ put_bytes (sn_state s)"

definition decode_snapshot :: "Snapshot parser" where
  "decode_snapshot =
     bindP get_i64 (\<lambda>a.
     bindP get_i64 (\<lambda>b.
     bindP get_i64 (\<lambda>c.
     bindP get_bytes (\<lambda>d.
     returnP \<lparr> sn_last_included_index = a, sn_last_included_term = b, sn_last_included_offset = c, sn_state = d \<rparr>))))"

definition wf_snapshot :: "Snapshot \<Rightarrow> bool" where
  "wf_snapshot s \<longleftrightarrow> fits_i64 (sn_last_included_index s) \<and> fits_i64 (sn_last_included_term s) \<and>
     fits_i64 (sn_last_included_offset s) \<and> fits_size (sn_state s)"

lemma get_put_entry_type [simp, roundtrip]:
  "wf_type t \<Longrightarrow> get_entry_type (put_u8 (entry_type_code t) @ r) = Inr (t, r)"
  by (auto simp: wf_type_def get_entry_type_def entry_type_of_def)

lemma entry_type_of_code [simp]: "wf_type t \<Longrightarrow> entry_type_of (entry_type_code t) = t"
  by (auto simp: wf_type_def entry_type_of_def)

lemma defensive_get_entry_type [defensive_intros]: "defensive get_entry_type"
  by (simp add: get_entry_type_def defensive_intros)

interpretation entry_format: element_format encode_entry decode_entry wf_entry
  by unfold_locales (simp_all add: encode_entry_def decode_entry_def wf_entry_def)

interpretation snapshot_format: wire_format encode_snapshot decode_snapshot wf_snapshot
  by unfold_locales (simp add: encode_snapshot_def decode_snapshot_def wf_snapshot_def)

lemma defensive_decode_parts [defensive_intros]: "defensive decode_entry" "defensive decode_snapshot"
  by (simp_all add: decode_entry_def decode_snapshot_def defensive_intros)

lemmas rpc_part_formats [simp] = entry_format.get_put_list snapshot_format.dec_enc


section \<open>The seven RPCs\<close>

record RequestVoteArgs =
  rv_term :: "int"
  rv_candidate_id :: "int"
  rv_last_log_index :: "int"
  rv_last_log_term :: "int"
  rv_pre_vote :: "bool"

definition encode_RequestVoteArgs :: "RequestVoteArgs \<Rightarrow> bytes" where
  "encode_RequestVoteArgs m =
     put_i64 (rv_term m) @
     put_i32 (rv_candidate_id m) @
     put_i64 (rv_last_log_index m) @
     put_i64 (rv_last_log_term m) @
     put_bool (rv_pre_vote m)"

definition decode_RequestVoteArgs :: "RequestVoteArgs parser" where
  "decode_RequestVoteArgs =
     bindP get_i64 (\<lambda>a.
     bindP get_i32 (\<lambda>b.
     bindP get_i64 (\<lambda>c.
     bindP get_i64 (\<lambda>d.
     bindP get_bool (\<lambda>e.
     returnP \<lparr> rv_term = a, rv_candidate_id = b, rv_last_log_index = c, rv_last_log_term = d, rv_pre_vote = e \<rparr>)))))"

definition wf_RequestVoteArgs :: "RequestVoteArgs \<Rightarrow> bool" where
  "wf_RequestVoteArgs m \<longleftrightarrow> fits_i64 (rv_term m) \<and>
     fits_i32 (rv_candidate_id m) \<and>
     fits_i64 (rv_last_log_index m) \<and>
     fits_i64 (rv_last_log_term m)"

record RequestVoteReply =
  vr_term :: "int"
  vr_vote_granted :: "bool"

definition encode_RequestVoteReply :: "RequestVoteReply \<Rightarrow> bytes" where
  "encode_RequestVoteReply m =
     put_i64 (vr_term m) @
     put_bool (vr_vote_granted m)"

definition decode_RequestVoteReply :: "RequestVoteReply parser" where
  "decode_RequestVoteReply =
     bindP get_i64 (\<lambda>a.
     bindP get_bool (\<lambda>b.
     returnP \<lparr> vr_term = a, vr_vote_granted = b \<rparr>))"

definition wf_RequestVoteReply :: "RequestVoteReply \<Rightarrow> bool" where
  "wf_RequestVoteReply m \<longleftrightarrow> fits_i64 (vr_term m)"

record AppendEntriesArgs =
  ae_term :: "int"
  ae_leader_id :: "int"
  ae_prev_log_index :: "int"
  ae_prev_log_term :: "int"
  ae_entries :: "RaftLogEntry list"
  ae_leader_commit :: "int"
  ae_leader_epoch :: "int"

definition encode_AppendEntriesArgs :: "AppendEntriesArgs \<Rightarrow> bytes" where
  "encode_AppendEntriesArgs m =
     put_i64 (ae_term m) @
     put_i32 (ae_leader_id m) @
     put_i64 (ae_prev_log_index m) @
     put_i64 (ae_prev_log_term m) @
     put_list encode_entry (ae_entries m) @
     put_i64 (ae_leader_commit m) @
     put_i32 (ae_leader_epoch m)"

definition decode_AppendEntriesArgs :: "AppendEntriesArgs parser" where
  "decode_AppendEntriesArgs =
     bindP get_i64 (\<lambda>a.
     bindP get_i32 (\<lambda>b.
     bindP get_i64 (\<lambda>c.
     bindP get_i64 (\<lambda>d.
     bindP (get_list decode_entry) (\<lambda>e.
     bindP get_i64 (\<lambda>f.
     bindP get_i32 (\<lambda>g.
     returnP \<lparr> ae_term = a, ae_leader_id = b, ae_prev_log_index = c, ae_prev_log_term = d, ae_entries = e, ae_leader_commit = f, ae_leader_epoch = g \<rparr>)))))))"

definition wf_AppendEntriesArgs :: "AppendEntriesArgs \<Rightarrow> bool" where
  "wf_AppendEntriesArgs m \<longleftrightarrow> fits_i64 (ae_term m) \<and>
     fits_i32 (ae_leader_id m) \<and>
     fits_i64 (ae_prev_log_index m) \<and>
     fits_i64 (ae_prev_log_term m) \<and>
     (\<forall>e \<in> set (ae_entries m). wf_entry e) \<and> fits_size (ae_entries m) \<and>
     fits_i64 (ae_leader_commit m) \<and>
     fits_i32 (ae_leader_epoch m)"

record AppendEntriesReply =
  ar_term :: "int"
  ar_success :: "bool"
  ar_conflict_index :: "int"

definition encode_AppendEntriesReply :: "AppendEntriesReply \<Rightarrow> bytes" where
  "encode_AppendEntriesReply m =
     put_i64 (ar_term m) @
     put_bool (ar_success m) @
     put_i64 (ar_conflict_index m)"

definition decode_AppendEntriesReply :: "AppendEntriesReply parser" where
  "decode_AppendEntriesReply =
     bindP get_i64 (\<lambda>a.
     bindP get_bool (\<lambda>b.
     bindP get_i64 (\<lambda>c.
     returnP \<lparr> ar_term = a, ar_success = b, ar_conflict_index = c \<rparr>)))"

definition wf_AppendEntriesReply :: "AppendEntriesReply \<Rightarrow> bool" where
  "wf_AppendEntriesReply m \<longleftrightarrow> fits_i64 (ar_term m) \<and>
     fits_i64 (ar_conflict_index m)"

record TimeoutNowArgs =
  tn_term :: "int"
  tn_leader_id :: "int"

definition encode_TimeoutNowArgs :: "TimeoutNowArgs \<Rightarrow> bytes" where
  "encode_TimeoutNowArgs m =
     put_i64 (tn_term m) @
     put_i32 (tn_leader_id m)"

definition decode_TimeoutNowArgs :: "TimeoutNowArgs parser" where
  "decode_TimeoutNowArgs =
     bindP get_i64 (\<lambda>a.
     bindP get_i32 (\<lambda>b.
     returnP \<lparr> tn_term = a, tn_leader_id = b \<rparr>))"

definition wf_TimeoutNowArgs :: "TimeoutNowArgs \<Rightarrow> bool" where
  "wf_TimeoutNowArgs m \<longleftrightarrow> fits_i64 (tn_term m) \<and>
     fits_i32 (tn_leader_id m)"

record InstallSnapshotArgs =
  is_term :: "int"
  is_leader_id :: "int"
  is_snapshot :: "Snapshot"

definition encode_InstallSnapshotArgs :: "InstallSnapshotArgs \<Rightarrow> bytes" where
  "encode_InstallSnapshotArgs m =
     put_i64 (is_term m) @
     put_i32 (is_leader_id m) @
     encode_snapshot (is_snapshot m)"

definition decode_InstallSnapshotArgs :: "InstallSnapshotArgs parser" where
  "decode_InstallSnapshotArgs =
     bindP get_i64 (\<lambda>a.
     bindP get_i32 (\<lambda>b.
     bindP decode_snapshot (\<lambda>c.
     returnP \<lparr> is_term = a, is_leader_id = b, is_snapshot = c \<rparr>)))"

definition wf_InstallSnapshotArgs :: "InstallSnapshotArgs \<Rightarrow> bool" where
  "wf_InstallSnapshotArgs m \<longleftrightarrow> fits_i64 (is_term m) \<and>
     fits_i32 (is_leader_id m) \<and>
     wf_snapshot (is_snapshot m)"

record InstallSnapshotReply =
  ir_term :: "int"

definition encode_InstallSnapshotReply :: "InstallSnapshotReply \<Rightarrow> bytes" where
  "encode_InstallSnapshotReply m =
     put_i64 (ir_term m)"

definition decode_InstallSnapshotReply :: "InstallSnapshotReply parser" where
  "decode_InstallSnapshotReply =
     bindP get_i64 (\<lambda>a.
     returnP \<lparr> ir_term = a \<rparr>)"

definition wf_InstallSnapshotReply :: "InstallSnapshotReply \<Rightarrow> bool" where
  "wf_InstallSnapshotReply m \<longleftrightarrow> fits_i64 (ir_term m)"

interpretation requestVoteArgs_format: wire_format encode_RequestVoteArgs decode_RequestVoteArgs wf_RequestVoteArgs
  by unfold_locales (simp add: encode_RequestVoteArgs_def decode_RequestVoteArgs_def wf_RequestVoteArgs_def)

lemma defensive_decode_RequestVoteArgs [defensive_intros]: "defensive decode_RequestVoteArgs"
  by (simp add: decode_RequestVoteArgs_def defensive_intros)

interpretation requestVoteReply_format: wire_format encode_RequestVoteReply decode_RequestVoteReply wf_RequestVoteReply
  by unfold_locales (simp add: encode_RequestVoteReply_def decode_RequestVoteReply_def wf_RequestVoteReply_def)

lemma defensive_decode_RequestVoteReply [defensive_intros]: "defensive decode_RequestVoteReply"
  by (simp add: decode_RequestVoteReply_def defensive_intros)

interpretation appendEntriesArgs_format: wire_format encode_AppendEntriesArgs decode_AppendEntriesArgs wf_AppendEntriesArgs
  by unfold_locales (simp add: encode_AppendEntriesArgs_def decode_AppendEntriesArgs_def wf_AppendEntriesArgs_def)

lemma defensive_decode_AppendEntriesArgs [defensive_intros]: "defensive decode_AppendEntriesArgs"
  by (simp add: decode_AppendEntriesArgs_def defensive_intros)

interpretation appendEntriesReply_format: wire_format encode_AppendEntriesReply decode_AppendEntriesReply wf_AppendEntriesReply
  by unfold_locales (simp add: encode_AppendEntriesReply_def decode_AppendEntriesReply_def wf_AppendEntriesReply_def)

lemma defensive_decode_AppendEntriesReply [defensive_intros]: "defensive decode_AppendEntriesReply"
  by (simp add: decode_AppendEntriesReply_def defensive_intros)

interpretation timeoutNowArgs_format: wire_format encode_TimeoutNowArgs decode_TimeoutNowArgs wf_TimeoutNowArgs
  by unfold_locales (simp add: encode_TimeoutNowArgs_def decode_TimeoutNowArgs_def wf_TimeoutNowArgs_def)

lemma defensive_decode_TimeoutNowArgs [defensive_intros]: "defensive decode_TimeoutNowArgs"
  by (simp add: decode_TimeoutNowArgs_def defensive_intros)

interpretation installSnapshotArgs_format: wire_format encode_InstallSnapshotArgs decode_InstallSnapshotArgs wf_InstallSnapshotArgs
  by unfold_locales (simp add: encode_InstallSnapshotArgs_def decode_InstallSnapshotArgs_def wf_InstallSnapshotArgs_def)

lemma defensive_decode_InstallSnapshotArgs [defensive_intros]: "defensive decode_InstallSnapshotArgs"
  by (simp add: decode_InstallSnapshotArgs_def defensive_intros)

interpretation installSnapshotReply_format: wire_format encode_InstallSnapshotReply decode_InstallSnapshotReply wf_InstallSnapshotReply
  by unfold_locales (simp add: encode_InstallSnapshotReply_def decode_InstallSnapshotReply_def wf_InstallSnapshotReply_def)

lemma defensive_decode_InstallSnapshotReply [defensive_intros]: "defensive decode_InstallSnapshotReply"
  by (simp add: decode_InstallSnapshotReply_def defensive_intros)


section \<open>The envelope\<close>

datatype RaftPayload =
    RequestVote RequestVoteArgs
  | RequestVoteR RequestVoteReply
  | AppendEntries AppendEntriesArgs
  | AppendEntriesR AppendEntriesReply
  | TimeoutNow TimeoutNowArgs
  | InstallSnapshot InstallSnapshotArgs
  | InstallSnapshotR InstallSnapshotReply

record RaftMessage =
  msg_from :: int
  msg_to :: int
  msg_payload :: RaftPayload

record RaftEnvelope =
  env_topic :: bytes
  env_partition :: int
  env_message :: RaftMessage

fun payload_index :: "RaftPayload \<Rightarrow> 8 word" where
  "payload_index (RequestVote _) = 0"
| "payload_index (RequestVoteR _) = 1"
| "payload_index (AppendEntries _) = 2"
| "payload_index (AppendEntriesR _) = 3"
| "payload_index (TimeoutNow _) = 4"
| "payload_index (InstallSnapshot _) = 5"
| "payload_index (InstallSnapshotR _) = 6"

fun encode_payload :: "RaftPayload \<Rightarrow> bytes" where
  "encode_payload (RequestVote m) = encode_RequestVoteArgs m"
| "encode_payload (RequestVoteR m) = encode_RequestVoteReply m"
| "encode_payload (AppendEntries m) = encode_AppendEntriesArgs m"
| "encode_payload (AppendEntriesR m) = encode_AppendEntriesReply m"
| "encode_payload (TimeoutNow m) = encode_TimeoutNowArgs m"
| "encode_payload (InstallSnapshot m) = encode_InstallSnapshotArgs m"
| "encode_payload (InstallSnapshotR m) = encode_InstallSnapshotReply m"

fun wf_payload :: "RaftPayload \<Rightarrow> bool" where
  "wf_payload (RequestVote m) = wf_RequestVoteArgs m"
| "wf_payload (RequestVoteR m) = wf_RequestVoteReply m"
| "wf_payload (AppendEntries m) = wf_AppendEntriesArgs m"
| "wf_payload (AppendEntriesR m) = wf_AppendEntriesReply m"
| "wf_payload (TimeoutNow m) = wf_TimeoutNowArgs m"
| "wf_payload (InstallSnapshot m) = wf_InstallSnapshotArgs m"
| "wf_payload (InstallSnapshotR m) = wf_InstallSnapshotReply m"

definition decode_payload :: "8 word \<Rightarrow> RaftPayload parser" where
  "decode_payload t =
     (if t = 0 then bindP decode_RequestVoteArgs (\<lambda>m. returnP (RequestVote m))
      else if t = 1 then bindP decode_RequestVoteReply (\<lambda>m. returnP (RequestVoteR m))
      else if t = 2 then bindP decode_AppendEntriesArgs (\<lambda>m. returnP (AppendEntries m))
      else if t = 3 then bindP decode_AppendEntriesReply (\<lambda>m. returnP (AppendEntriesR m))
      else if t = 4 then bindP decode_TimeoutNowArgs (\<lambda>m. returnP (TimeoutNow m))
      else if t = 5 then bindP decode_InstallSnapshotArgs (\<lambda>m. returnP (InstallSnapshot m))
      else if t = 6 then bindP decode_InstallSnapshotReply (\<lambda>m. returnP (InstallSnapshotR m))
      else failP InvalidArgument)"

definition encode_envelope :: "RaftEnvelope \<Rightarrow> bytes" where
  "encode_envelope e =
     put_string (env_topic e) @ put_i32 (env_partition e) @
     put_i32 (msg_from (env_message e)) @ put_i32 (msg_to (env_message e)) @
     put_u8 (payload_index (msg_payload (env_message e))) @ encode_payload (msg_payload (env_message e))"

definition decode_envelope :: "RaftEnvelope parser" where
  "decode_envelope =
     bindP get_string (\<lambda>topic.
     bindP get_i32 (\<lambda>partition.
     bindP get_i32 (\<lambda>from.
     bindP get_i32 (\<lambda>to.
     bindP get_u8 (\<lambda>t.
     bindP (decode_payload t) (\<lambda>p.
     returnP \<lparr> env_topic = topic, env_partition = partition,
       env_message = \<lparr> msg_from = from, msg_to = to, msg_payload = p \<rparr> \<rparr>))))))"

definition wf_envelope :: "RaftEnvelope \<Rightarrow> bool" where
  "wf_envelope e \<longleftrightarrow> fits_size (env_topic e) \<and> fits_i32 (env_partition e) \<and>
     fits_i32 (msg_from (env_message e)) \<and> fits_i32 (msg_to (env_message e)) \<and>
     wf_payload (msg_payload (env_message e))"

lemmas rpc_formats = requestVoteArgs_format.dec_enc requestVoteReply_format.dec_enc
  appendEntriesArgs_format.dec_enc appendEntriesReply_format.dec_enc timeoutNowArgs_format.dec_enc
  installSnapshotArgs_format.dec_enc installSnapshotReply_format.dec_enc

lemma decode_encode_payload [simp]:
  "wf_payload p \<Longrightarrow> decode_payload (payload_index p) (encode_payload p @ r) = Inr (p, r)"
  by (cases p) (simp_all add: decode_payload_def rpc_formats)

lemma defensive_decode_payload [defensive_intros]: "defensive (decode_payload t)"
  by (simp add: decode_payload_def defensive_intros)

interpretation envelope_format: wire_format encode_envelope decode_envelope wf_envelope
  by unfold_locales (simp add: encode_envelope_def decode_envelope_def wf_envelope_def)

lemma defensive_decode_envelope [defensive_intros]: "defensive decode_envelope"
  by (simp add: decode_envelope_def defensive_intros)

text \<open>
  The inter-node envelope is faithful and safe.  Every envelope whose fields fit their widths is
  read back from its encoding, whatever follows it; on arbitrary bytes \<open>decode\<close> refuses with
  \<open>InvalidArgument\<close> or leaves a suffix of the input.
\<close>
theorem envelope_contract:
  "(wf_envelope e \<longrightarrow> decode_envelope (encode_envelope e @ rest) = Inr (e, rest)) \<and>
   (case decode_envelope bs of Inl err \<Rightarrow> err = InvalidArgument | Inr (x, r) \<Rightarrow> \<exists>pre. bs = pre @ r)"
  using envelope_format.dec_enc defensive_decode_envelope by (auto simp: defensive_def)

definition sample_envelope :: RaftEnvelope where
  "sample_envelope = \<lparr> env_topic = [116], env_partition = 3, env_message = \<lparr> msg_from = 1, msg_to = 2,
     msg_payload = AppendEntries \<lparr> ae_term = 7, ae_leader_id = 1, ae_prev_log_index = 4, ae_prev_log_term = 6,
       ae_entries = [\<lparr> le_term = 7, le_index = 5, le_type = Data, le_payload = [1, 2, 3] \<rparr>],
       ae_leader_commit = 4, ae_leader_epoch = 7 \<rparr> \<rparr> \<rparr>"

theorem envelope_contract_witness:
  "wf_envelope sample_envelope \<and>
   decode_envelope (encode_envelope sample_envelope @ [9]) = Inr (sample_envelope, [9]) \<and>
   decode_envelope [0, 0, 0, 0, 0, 1, 0, 0, 0, 2, 0, 0, 0, 7] = Inl InvalidArgument"
proof -
  have "wf_envelope sample_envelope"
    by (simp add: sample_envelope_def wf_envelope_def wf_AppendEntriesArgs_def wf_entry_def wf_type_def)
  moreover have "decode_envelope [0, 0, 0, 0, 0, 1, 0, 0, 0, 2, 0, 0, 0, 7] = Inl InvalidArgument"
    by code_simp
  ultimately show ?thesis using envelope_contract [of sample_envelope "[9]" "[]"] by simp
qed

end
