(* ===== verification/Replicated_Log.thy ===== *)
theory Replicated_Log
  imports Partition_Log Raft_Rpc
begin

text \<open>
  What a replica relies on of its log.  \<open>log_ops\<close> are the operations of \<^verbatim>\<open>RaftLog\<close>
  (\<^verbatim>\<open>src/src/consensus/raft_log.hpp\<close>) that \<^verbatim>\<open>RaftNode\<close> and its carrier call.  \<open>abs_log\<close> is the contract of
  that header: a snapshot base and the sequence of the live entries, numbered from the base, with no
  files; a payload is a batch and is stored rebased to the end of the log.  The locale
  \<open>replicated_log\<close> says that an implementation follows the contract; \<open>Raft_Log\<close> proves it for the
  code.
\<close>

record 'l log_ops =
  op_last_index :: "'l \<Rightarrow> int"
  op_last_term :: "'l \<Rightarrow> int"
  op_term_at :: "'l \<Rightarrow> int \<Rightarrow> int expected"
  op_offsets_at :: "'l \<Rightarrow> int \<Rightarrow> (int \<times> int) expected"
  op_entries_from :: "'l \<Rightarrow> int \<Rightarrow> nat \<Rightarrow> RaftLogEntry list expected"
  op_append :: "'l \<Rightarrow> RaftLogEntry list \<Rightarrow> 'l \<times> int expected"
  op_truncate_from :: "'l \<Rightarrow> int \<Rightarrow> 'l \<times> unit expected"
  op_compact_to :: "'l \<Rightarrow> int \<Rightarrow> 'l \<times> unit expected"
  op_install_snapshot :: "'l \<Rightarrow> int \<Rightarrow> int \<Rightarrow> int \<Rightarrow> 'l \<times> unit expected"
  op_snapshot_index :: "'l \<Rightarrow> int"
  op_snapshot_term :: "'l \<Rightarrow> int"
  op_snapshot_last_offset :: "'l \<Rightarrow> int"


section \<open>The contract\<close>

record abs_entry =
  ae_entry_term :: int
  ae_entry_type :: RaftEntryType
  ae_batch :: RecordBatch

record abs_log =
  al_index :: int
  al_term :: int
  al_offset :: int
  al_entries :: "abs_entry list"
  al_end :: int

definition empty_abs_log :: abs_log where
  "empty_abs_log = \<lparr> al_index = 0, al_term = 0, al_offset = 0, al_entries = [], al_end = 0 \<rparr>"

definition al_last_index :: "abs_log \<Rightarrow> int" where
  "al_last_index a = al_index a + int (length (al_entries a))"

definition al_last_term :: "abs_log \<Rightarrow> int" where
  "al_last_term a =
     (if al_entries a \<noteq> [] then ae_entry_term (last (al_entries a))
      else if al_index a > 0 then al_term a else 0)"

definition al_slot :: "abs_log \<Rightarrow> int \<Rightarrow> nat" where
  "al_slot a i = nat (i - al_index a - 1)"

definition al_term_at :: "abs_log \<Rightarrow> int \<Rightarrow> int expected" where
  "al_term_at a i =
     (if i = 0 then Inr 0
      else if i = al_index a then Inr (al_term a)
      else if i < al_index a \<or> i > al_last_index a then Inl OutOfRange
      else Inr (ae_entry_term (al_entries a ! al_slot a i)))"

definition al_offsets_at :: "abs_log \<Rightarrow> int \<Rightarrow> (int \<times> int) expected" where
  "al_offsets_at a i =
     (if i \<le> al_index a \<or> i > al_last_index a then Inl OutOfRange
      else let b = ae_batch (al_entries a ! al_slot a i) in Inr (base_offset (header b), last_offset b))"

fun numbered :: "int \<Rightarrow> abs_entry list \<Rightarrow> RaftLogEntry list" where
  "numbered i [] = []"
| "numbered i (x # xs) =
     \<lparr> le_term = ae_entry_term x, le_index = i, le_type = ae_entry_type x, le_payload = encode (ae_batch x) \<rparr> #
     numbered (i + 1) xs"

definition al_entries_from :: "abs_log \<Rightarrow> int \<Rightarrow> nat \<Rightarrow> RaftLogEntry list expected" where
  "al_entries_from a i n =
     (if i < 1 then Inl InvalidArgument
      else if i \<le> al_index a then Inl OutOfRange
      else Inr (numbered i (take n (drop (al_slot a i) (al_entries a)))))"

definition al_push :: "abs_log \<Rightarrow> RaftLogEntry \<Rightarrow> RecordBatch \<Rightarrow> abs_log" where
  "al_push a e b =
     a\<lparr> al_entries := al_entries a @ [\<lparr> ae_entry_term = le_term e, ae_entry_type = le_type e,
                                         ae_batch = rebase b (al_end a) \<rparr>],
        al_end := al_end a + record_count (header b) \<rparr>"

fun al_append :: "abs_log \<Rightarrow> RaftLogEntry list \<Rightarrow> abs_log \<times> int expected" where
  "al_append a [] = (a, Inr (al_last_index a))"
| "al_append a (e # es) =
     (case decode (le_payload e) of
        Inl err \<Rightarrow> (a, Inl err)
      | Inr b \<Rightarrow> al_append (al_push a e b) es)"

definition al_truncate_from :: "abs_log \<Rightarrow> int \<Rightarrow> abs_log \<times> unit expected" where
  "al_truncate_from a i =
     (if i < 1 \<or> i \<le> al_index a then (a, Inl InvalidArgument)
      else if i > al_last_index a then (a, Inr ())
      else (a\<lparr> al_entries := take (al_slot a i) (al_entries a),
               al_end := base_offset (header (ae_batch (al_entries a ! al_slot a i))) \<rparr>, Inr ()))"

definition al_compact_to :: "abs_log \<Rightarrow> int \<Rightarrow> abs_log \<times> unit expected" where
  "al_compact_to a i =
     (if i \<le> al_index a then (a, Inr ())
      else if i > al_last_index a then (a, Inl InvalidArgument)
      else let x = al_entries a ! al_slot a i in
        (a\<lparr> al_index := i, al_term := ae_entry_term x, al_offset := last_offset (ae_batch x),
            al_entries := drop (al_slot a i + 1) (al_entries a) \<rparr>, Inr ()))"

definition al_install_snapshot :: "abs_log \<Rightarrow> int \<Rightarrow> int \<Rightarrow> int \<Rightarrow> abs_log \<times> unit expected" where
  "al_install_snapshot a i t off =
     (if i \<le> al_index a then (a, Inr ())
      else if i \<le> al_last_index a \<and> al_term_at a i = Inr t then al_compact_to a i
      else if off + 1 < 0 then (a, Inl InvalidArgument)
      else (\<lparr> al_index = i, al_term = t, al_offset = off, al_entries = [], al_end = off + 1 \<rparr>, Inr ()))"

definition abs_log_ops :: "abs_log log_ops" where
  "abs_log_ops =
     \<lparr> op_last_index = al_last_index, op_last_term = al_last_term, op_term_at = al_term_at,
       op_offsets_at = al_offsets_at, op_entries_from = al_entries_from, op_append = al_append,
       op_truncate_from = al_truncate_from, op_compact_to = al_compact_to,
       op_install_snapshot = al_install_snapshot, op_snapshot_index = al_index,
       op_snapshot_term = al_term, op_snapshot_last_offset = al_offset \<rparr>"


section \<open>The interface\<close>

text \<open>
  \<open>rel l a\<close>: the log \<open>l\<close> holds what \<open>a\<close> says; \<open>usable l es\<close>: its files can be read and \<open>es\<close>
  fits in the limits of the storage format.  An operation that succeeds does what the contract says.
\<close>

locale replicated_log =
  fixes ops :: "'l log_ops"
    and rel :: "'l \<Rightarrow> abs_log \<Rightarrow> bool"
    and usable :: "'l \<Rightarrow> RaftLogEntry list \<Rightarrow> bool"
  assumes rel_last_index: "rel l a \<Longrightarrow> op_last_index ops l = al_last_index a"
    and rel_last_term: "rel l a \<Longrightarrow> op_last_term ops l = al_last_term a"
    and rel_term_at: "rel l a \<Longrightarrow> op_term_at ops l i = al_term_at a i"
    and rel_offsets_at: "rel l a \<Longrightarrow> op_offsets_at ops l i = al_offsets_at a i"
    and rel_snapshot: "rel l a \<Longrightarrow> op_snapshot_index ops l = al_index a \<and>
      op_snapshot_term ops l = al_term a \<and> op_snapshot_last_offset ops l = al_offset a"
    and rel_index_nonneg: "rel l a \<Longrightarrow> 0 \<le> al_index a"
    and usable_Nil: "usable l es \<Longrightarrow> usable l []"
    and rel_entries_from: "rel l a \<Longrightarrow> usable l [] \<Longrightarrow> op_entries_from ops l i n = al_entries_from a i n"
    and rel_append: "rel l a \<Longrightarrow> usable l es \<Longrightarrow> op_append ops l es = (l', Inr k) \<Longrightarrow>
      \<exists>a'. al_append a es = (a', Inr k) \<and> rel l' a'"
    and rel_truncate: "rel l a \<Longrightarrow> usable l [] \<Longrightarrow> op_truncate_from ops l i = (l', Inr u) \<Longrightarrow>
      \<exists>a'. al_truncate_from a i = (a', Inr ()) \<and> rel l' a'"
    and rel_compact: "rel l a \<Longrightarrow> usable l [] \<Longrightarrow> op_compact_to ops l i = (l', Inr u) \<Longrightarrow>
      \<exists>a'. al_compact_to a i = (a', Inr ()) \<and> rel l' a'"
    and rel_install: "rel l a \<Longrightarrow> usable l [] \<Longrightarrow> op_install_snapshot ops l i t off = (l', Inr u) \<Longrightarrow>
      \<exists>a'. al_install_snapshot a i t off = (a', Inr ()) \<and> rel l' a'"

text \<open>The contract is an instance of itself; it runs the executions of the later theories.\<close>

lemma al_append_entries: "al_append a es = (a', Inr k) \<Longrightarrow>
  al_index a' = al_index a \<and> al_term a' = al_term a \<and> al_offset a' = al_offset a \<and>
  (\<exists>xs. al_entries a' = al_entries a @ xs \<and> map ae_entry_term xs = map le_term es \<and>
     map ae_entry_type xs = map le_type es) \<and> k = al_last_index a'"
proof (induction es arbitrary: a)
  case (Cons e es)
  then obtain b where "al_append (al_push a e b) es = (a', Inr k)" by (auto split: sum.splits)
  from Cons.IH [OF this] show ?case by (auto simp: al_push_def)
qed simp

interpretation abs_replicated: replicated_log abs_log_ops "\<lambda>l a. l = a \<and> 0 \<le> al_index a" "\<lambda>_ _. True"
proof unfold_locales
  fix l a l' and es and k :: int
  assume "l = a \<and> 0 \<le> al_index a" "op_append abs_log_ops l es = (l', Inr k)"
  then show "\<exists>a'. al_append a es = (a', Inr k) \<and> (l' = a' \<and> 0 \<le> al_index a')"
    using al_append_entries [of a es l' k] by (auto simp: abs_log_ops_def)
qed (auto simp: abs_log_ops_def al_truncate_from_def al_compact_to_def al_install_snapshot_def Let_def split: if_splits)

end
