(* ===== verification/Raft_Log.thy ===== *)
theory Raft_Log
  imports Replicated_Log
begin

text \<open>
  The replicated log of a partition (\<^verbatim>\<open>src/src/consensus/raft_log.hpp\<close>, \<^verbatim>\<open>raft_log.cpp\<close>): the bytes of
  the entries are the batches of a \<open>PartitionLog\<close>; this layer keeps the term, the offsets and the type
  of every live entry in memory and in a sidecar file, and the base of the last snapshot in another.
  \<open>rl_envs\<close> is what the surroundings supply to the coming operations of the partition log, one
  element per call that may create a segment or seal a block.
\<close>


section \<open>State and files\<close>

record EntryMeta =
  em_term :: int
  em_base_offset :: int
  em_last_offset :: int
  em_type :: RaftEntryType

record RaftLog =
  rl_log :: PartitionLog
  rl_meta_file :: File
  rl_snapshot_file :: File
  rl_entries :: "EntryMeta list"
  rl_snapshot_index :: int
  rl_snapshot_term :: int
  rl_snapshot_last_offset :: int
  rl_envs :: "nat \<Rightarrow> log_env"

definition kMetaRecordSize :: nat where
  "kMetaRecordSize = 25"

definition kSnapshotRecordSize :: nat where
  "kSnapshotRecordSize = 28"

definition encode_meta :: "EntryMeta \<Rightarrow> bytes" where
  "encode_meta m = store_le_i64 (em_term m) @ store_le_i64 (em_base_offset m) @
     store_le_i64 (em_last_offset m) @ [entry_type_code (em_type m)]"

definition decode_meta :: "bytes \<Rightarrow> EntryMeta" where
  "decode_meta view =
     \<lparr> em_term = load_le_i64 (take 8 view), em_base_offset = load_le_i64 (take 8 (drop 8 view)),
       em_last_offset = load_le_i64 (take 8 (drop 16 view)), em_type = entry_type_of (view ! 24) \<rparr>"

definition load_snapshot_base :: "File \<Rightarrow> (int \<times> int \<times> int) expected" where
  "load_snapshot_base f =
     bindE (file_size f) (\<lambda>n.
     if n = 0 then Inr (0, 0, 0)
     else if n < kSnapshotRecordSize then Inl Corrupt
     else bindE (read_at f kSnapshotRecordSize 0) (\<lambda>view.
     if length view < kSnapshotRecordSize then Inl Corrupt
     else if load_le (take 4 view) \<noteq> crc32c (drop 4 view) then Inl Corrupt
     else Inr (load_le_i64 (take 8 (drop 4 view)), load_le_i64 (take 8 (drop 12 view)),
               load_le_i64 (take 8 (drop 20 view)))))"

text \<open>The loop of \<^verbatim>\<open>open\<close> over the records of the sidecar, from record \<open>i\<close>.\<close>

fun load_metas :: "File \<Rightarrow> nat \<Rightarrow> nat \<Rightarrow> EntryMeta list expected" where
  "load_metas f i 0 = Inr []"
| "load_metas f i (Suc n) =
     bindE (read_at f kMetaRecordSize (i * kMetaRecordSize)) (\<lambda>view.
     if length view < kMetaRecordSize then Inl Corrupt
     else bindE (load_metas f (Suc i) n) (\<lambda>ms. Inr (decode_meta view # ms)))"

definition rl_open ::
  "PartitionLog \<Rightarrow> File expected \<Rightarrow> File expected \<Rightarrow> (nat \<Rightarrow> log_env) \<Rightarrow> RaftLog expected" where
  "rl_open log opened snap_opened envs =
     bindE opened (\<lambda>f.
     bindE snap_opened (\<lambda>sf.
     bindE (load_snapshot_base sf) (\<lambda>(index, term, last_off).
     bindE (file_size f) (\<lambda>n.
     if n mod kMetaRecordSize \<noteq> 0 then Inl Corrupt
     else bindE (load_metas f 0 (n div kMetaRecordSize)) (\<lambda>es.
     if index > 0 \<and> es \<noteq> [] \<and> em_base_offset (hd es) \<noteq> last_off + 1 then Inl Corrupt
     else let expected_end = (if es \<noteq> [] then em_last_offset (last es) + 1
                              else if index > 0 then last_off + 1
                              else log_start_offset log) in
     if expected_end \<noteq> log_end_offset log then Inl Corrupt
     else Inr \<lparr> rl_log = log, rl_meta_file = f, rl_snapshot_file = sf, rl_entries = es,
                rl_snapshot_index = index, rl_snapshot_term = term, rl_snapshot_last_offset = last_off,
                rl_envs = envs \<rparr>)))))"


section \<open>Operations\<close>

definition last_index :: "RaftLog \<Rightarrow> int" where
  "last_index rl = rl_snapshot_index rl + int (length (rl_entries rl))"

definition last_term :: "RaftLog \<Rightarrow> int" where
  "last_term rl =
     (if rl_entries rl \<noteq> [] then em_term (last (rl_entries rl))
      else if rl_snapshot_index rl > 0 then rl_snapshot_term rl else 0)"

definition slot_of :: "RaftLog \<Rightarrow> int \<Rightarrow> nat" where
  "slot_of rl index = nat (index - rl_snapshot_index rl - 1)"

definition persist_meta :: "RaftLog \<Rightarrow> EntryMeta \<Rightarrow> RaftLog \<times> unit expected" where
  "persist_meta rl m =
     (case write_at (rl_meta_file rl) (encode_meta m) (length (rl_entries rl) * kMetaRecordSize) of
        (f, r) \<Rightarrow> (rl \<lparr> rl_meta_file := f \<rparr>, r))"

definition append_entry :: "crypto_lib \<Rightarrow> RaftLog \<Rightarrow> RaftLogEntry \<Rightarrow> RaftLog \<times> unit expected" where
  "append_entry cr rl e =
     (case decode (le_payload e) of
        Inl err \<Rightarrow> (rl, Inl err)
      | Inr batch \<Rightarrow>
          let base = log_end_offset (rl_log rl) in
          (case plog_append cr (rl_envs rl 0) (rl_log rl) batch of
             (pl, r) \<Rightarrow>
               let rl = rl \<lparr> rl_log := pl, rl_envs := (\<lambda>n. rl_envs rl (Suc n)) \<rparr> in
               (case r of
                  Inl err \<Rightarrow> (rl, Inl err)
                | Inr l \<Rightarrow>
                    let m = \<lparr> em_term = le_term e, em_base_offset = base, em_last_offset = l,
                              em_type = le_type e \<rparr> in
                    (case persist_meta rl m of
                       (rl, Inl err) \<Rightarrow> (rl, Inl err)
                     | (rl, Inr _) \<Rightarrow> (rl \<lparr> rl_entries := rl_entries rl @ [m] \<rparr>, Inr ())))))"

fun rl_append :: "crypto_lib \<Rightarrow> RaftLog \<Rightarrow> RaftLogEntry list \<Rightarrow> RaftLog \<times> int expected" where
  "rl_append cr rl [] = (rl, Inr (last_index rl))"
| "rl_append cr rl (e # es) =
     (case append_entry cr rl e of
        (rl, Inl err) \<Rightarrow> (rl, Inl err)
      | (rl, Inr _) \<Rightarrow> rl_append cr rl es)"

definition truncate_from :: "RaftLog \<Rightarrow> int \<Rightarrow> RaftLog \<times> unit expected" where
  "truncate_from rl index =
     (if index < 1 then (rl, Inl InvalidArgument)
      else if index \<le> rl_snapshot_index rl then (rl, Inl InvalidArgument)
      else if index > last_index rl then (rl, Inr ())
      else let base = em_base_offset (rl_entries rl ! slot_of rl index) in
        (case plog_truncate_to (rl_log rl) base of
           (pl, Inl e) \<Rightarrow> (rl \<lparr> rl_log := pl \<rparr>, Inl e)
         | (pl, Inr _) \<Rightarrow>
             let rl = rl \<lparr> rl_log := pl \<rparr> in
             (case truncate_file (rl_meta_file rl) (slot_of rl index * kMetaRecordSize) of
                (f, Inl e) \<Rightarrow> (rl \<lparr> rl_meta_file := f \<rparr>, Inl e)
              | (f, Inr _) \<Rightarrow>
                  (rl \<lparr> rl_meta_file := f, rl_entries := take (slot_of rl index) (rl_entries rl) \<rparr>, Inr ()))))"

definition term_at :: "RaftLog \<Rightarrow> int \<Rightarrow> int expected" where
  "term_at rl index =
     (if index = 0 then Inr 0
      else if index = rl_snapshot_index rl then Inr (rl_snapshot_term rl)
      else if index < rl_snapshot_index rl then Inl OutOfRange
      else if index > last_index rl then Inl OutOfRange
      else Inr (em_term (rl_entries rl ! slot_of rl index)))"

definition offsets_at :: "RaftLog \<Rightarrow> int \<Rightarrow> (int \<times> int) expected" where
  "offsets_at rl index =
     (if index \<le> rl_snapshot_index rl \<or> index > last_index rl then Inl OutOfRange
      else let m = rl_entries rl ! slot_of rl index in Inr (em_base_offset m, em_last_offset m))"

definition read_payload :: "crypto_lib \<Rightarrow> RaftLog \<Rightarrow> EntryMeta \<Rightarrow> bytes expected" where
  "read_payload cr rl m =
     bindE (plog_read cr (rl_log rl) (em_base_offset m) 1) (\<lambda>fragment.
     if batches fragment = [] then Inl Corrupt else Inr (batches fragment))"

text \<open>The loop of \<^verbatim>\<open>entries_from\<close> over the entries it visits.\<close>

fun read_entries :: "crypto_lib \<Rightarrow> RaftLog \<Rightarrow> int \<Rightarrow> EntryMeta list \<Rightarrow> RaftLogEntry list expected" where
  "read_entries cr rl i [] = Inr []"
| "read_entries cr rl i (m # ms) =
     bindE (read_payload cr rl m) (\<lambda>payload.
     bindE (read_entries cr rl (i + 1) ms) (\<lambda>es.
     Inr (\<lparr> le_term = em_term m, le_index = i, le_type = em_type m, le_payload = payload \<rparr> # es)))"

definition entries_from :: "crypto_lib \<Rightarrow> RaftLog \<Rightarrow> int \<Rightarrow> nat \<Rightarrow> RaftLogEntry list expected" where
  "entries_from cr rl index max_entries =
     (if index < 1 then Inl InvalidArgument
      else if index \<le> rl_snapshot_index rl then Inl OutOfRange
      else read_entries cr rl index (take max_entries (drop (slot_of rl index) (rl_entries rl))))"

definition snapshot_record :: "int \<Rightarrow> int \<Rightarrow> int \<Rightarrow> bytes" where
  "snapshot_record index term last_off =
     (let body = store_le_i64 index @ store_le_i64 term @ store_le_i64 last_off in
      store_le (crc32c body) @ body)"

definition persist_snapshot :: "RaftLog \<Rightarrow> RaftLog \<times> unit expected" where
  "persist_snapshot rl =
     (let record = snapshot_record (rl_snapshot_index rl) (rl_snapshot_term rl) (rl_snapshot_last_offset rl) in
      case write_at (rl_snapshot_file rl) record 0 of
        (f, Inl e) \<Rightarrow> (rl \<lparr> rl_snapshot_file := f \<rparr>, Inl e)
      | (f, Inr _) \<Rightarrow> (case sync_file f of (f, r) \<Rightarrow> (rl \<lparr> rl_snapshot_file := f \<rparr>, r)))"

fun write_metas :: "File \<Rightarrow> nat \<Rightarrow> EntryMeta list \<Rightarrow> File \<times> unit expected" where
  "write_metas f k [] = (f, Inr ())"
| "write_metas f k (m # ms) =
     (case write_at f (encode_meta m) (k * kMetaRecordSize) of
        (f, Inl e) \<Rightarrow> (f, Inl e)
      | (f, Inr _) \<Rightarrow> write_metas f (Suc k) ms)"

definition rewrite_meta :: "RaftLog \<Rightarrow> RaftLog \<times> unit expected" where
  "rewrite_meta rl =
     (case write_metas (rl_meta_file rl) 0 (rl_entries rl) of
        (f, Inl e) \<Rightarrow> (rl \<lparr> rl_meta_file := f \<rparr>, Inl e)
      | (f, Inr _) \<Rightarrow>
          (case truncate_file f (length (rl_entries rl) * kMetaRecordSize) of
             (f, Inl e) \<Rightarrow> (rl \<lparr> rl_meta_file := f \<rparr>, Inl e)
           | (f, Inr _) \<Rightarrow> (case sync_file f of (f, r) \<Rightarrow> (rl \<lparr> rl_meta_file := f \<rparr>, r))))"

definition persist_base :: "RaftLog \<Rightarrow> RaftLog \<times> unit expected" where
  "persist_base rl =
     (case persist_snapshot rl of
        (rl, Inl e) \<Rightarrow> (rl, Inl e)
      | (rl, Inr _) \<Rightarrow> rewrite_meta rl)"

definition compact_to :: "RaftLog \<Rightarrow> int \<Rightarrow> RaftLog \<times> unit expected" where
  "compact_to rl up_to_index =
     (if up_to_index \<le> rl_snapshot_index rl then (rl, Inr ())
      else if up_to_index > last_index rl then (rl, Inl InvalidArgument)
      else let boundary = rl_entries rl ! slot_of rl up_to_index in
        (case truncate_prefix_to (rl_log rl) (em_last_offset boundary + 1) of
           (pl, Inl e) \<Rightarrow> (rl \<lparr> rl_log := pl \<rparr>, Inl e)
         | (pl, Inr _) \<Rightarrow>
             persist_base (rl \<lparr> rl_log := pl, rl_entries := drop (slot_of rl up_to_index + 1) (rl_entries rl),
               rl_snapshot_index := up_to_index, rl_snapshot_term := em_term boundary,
               rl_snapshot_last_offset := em_last_offset boundary \<rparr>)))"

definition rl_install_snapshot :: "crypto_lib \<Rightarrow> RaftLog \<Rightarrow> int \<Rightarrow> int \<Rightarrow> int \<Rightarrow> RaftLog \<times> unit expected" where
  "rl_install_snapshot cr rl index term last_off =
     (if index \<le> rl_snapshot_index rl then (rl, Inr ())
      else if index \<le> last_index rl \<and> term_at rl index = Inr term then compact_to rl index
      else case reset_to cr (rl_envs rl 0) (rl_log rl) (last_off + 1) of
          (pl, Inl e) \<Rightarrow> (rl \<lparr> rl_log := pl, rl_envs := (\<lambda>n. rl_envs rl (Suc n)) \<rparr>, Inl e)
        | (pl, Inr _) \<Rightarrow>
            persist_base (rl \<lparr> rl_log := pl, rl_envs := (\<lambda>n. rl_envs rl (Suc n)), rl_entries := [],
              rl_snapshot_index := index, rl_snapshot_term := term,
              rl_snapshot_last_offset := last_off \<rparr>))"


section \<open>What the log holds\<close>

definition meta_of :: "abs_entry \<Rightarrow> EntryMeta" where
  "meta_of x = \<lparr> em_term = ae_entry_term x, em_base_offset = base_offset (header (ae_batch x)),
     em_last_offset = last_offset (ae_batch x), em_type = ae_entry_type x \<rparr>"

abbreviation abs_batches :: "abs_log \<Rightarrow> RecordBatch list" where
  "abs_batches a \<equiv> map ae_batch (al_entries a)"

text \<open>
  The log in memory holds \<open>a\<close>: the metadata are those of its entries, and the batches of the
  partition log are those the snapshot covers (\<open>pre\<close>, not yet removed), those of the entries and, after
  a failed append, \<open>extra\<close>.
\<close>

definition rl_mem :: "crypto_lib \<Rightarrow> RaftLog \<Rightarrow> abs_log \<Rightarrow> RecordBatch list \<Rightarrow> bool" where
  "rl_mem cr rl a extra \<longleftrightarrow> 0 \<le> al_index a \<and> rl_snapshot_index rl = al_index a \<and>
     rl_snapshot_term rl = al_term a \<and> rl_snapshot_last_offset rl = al_offset a \<and>
     rl_entries rl = map meta_of (al_entries a) \<and>
     (\<exists>bss pre. plog_inv cr (rl_log rl) bss \<and> log_batches bss = pre @ abs_batches a @ extra \<and>
        end_of (log_start_offset (rl_log rl)) (pre @ abs_batches a) = al_end a \<and>
        (if al_index a = 0 then pre = [] \<and> al_term a = 0 \<and> al_offset a = 0 else end_of (log_start_offset (rl_log rl)) pre = al_offset a + 1))"

text \<open>The two sidecar files hold the metadata and the base of the snapshot.\<close>

definition rl_files :: "RaftLog \<Rightarrow> bool" where
  "rl_files rl \<longleftrightarrow> content (rl_meta_file rl) = concat (map encode_meta (rl_entries rl)) \<and>
     content (rl_snapshot_file rl) = (if rl_snapshot_index rl = 0 then []
       else snapshot_record (rl_snapshot_index rl) (rl_snapshot_term rl) (rl_snapshot_last_offset rl))"

text \<open>
  When the storage format can hold what is asked: files readable, every segment below 4 GiB and
  4 G offsets, batches of at least one record, and offsets within 64 bits.
\<close>

fun segs_small :: "int \<Rightarrow> Segment list \<Rightarrow> bool" where
  "segs_small e [] \<longleftrightarrow> True"
| "segs_small e [s] \<longleftrightarrow> size_bytes s < 2 ^ 32 \<and> e - seg_base s < 2 ^ 32"
| "segs_small e (s1 # s2 # ss) \<longleftrightarrow>
     size_bytes s1 < 2 ^ 32 \<and> seg_base s2 - seg_base s1 < 2 ^ 32 \<and> segs_small e (s2 # ss)"

definition log_usable :: "crypto_lib \<Rightarrow> RaftLog \<Rightarrow> bool" where
  "log_usable cr rl \<longleftrightarrow> plog_readable (rl_log rl) \<and> env_ok (rl_envs rl 0) \<and>
     segs_small (log_end_offset (rl_log rl)) (segments (rl_log rl)) \<and>
     (crypto_used (rl_log rl) \<longrightarrow> crypto_ok cr)"

definition entry_fits :: "RaftLog \<Rightarrow> RaftLogEntry \<Rightarrow> bool" where
  "entry_fits rl e \<longleftrightarrow> fits_i64 (log_end_offset (rl_log rl)) \<and>
     (case decode (le_payload e) of Inl _ \<Rightarrow> True | Inr b \<Rightarrow> 1 \<le> record_count (header b))"

fun rl_usable :: "crypto_lib \<Rightarrow> RaftLog \<Rightarrow> RaftLogEntry list \<Rightarrow> bool" where
  "rl_usable cr rl [] \<longleftrightarrow> log_usable cr rl"
| "rl_usable cr rl (e # es) \<longleftrightarrow> log_usable cr rl \<and> entry_fits rl e \<and>
     (case append_entry cr rl e of (rl', Inl _) \<Rightarrow> True | (rl', Inr _) \<Rightarrow> es = [] \<or> rl_usable cr rl' es)"

lemma contiguous_mid:
  "contiguous o' (xs @ b # ys) \<Longrightarrow> base_offset (header b) = end_of o' xs \<and> last_offset b + 1 = end_of o' (xs @ [b])"
  by (simp add: contiguous_append last_offset_def)

lemma segs_small_seg:
  "chain cr o' ss bss \<Longrightarrow> segs_small (end_of o' (log_batches bss)) ss \<Longrightarrow>
   (s, bs) \<in> set (zip ss bss) \<Longrightarrow> seg_small s bs"
proof (induction cr o' ss bss rule: chain.induct)
  case (2 cr o' s1 ss bs1 bss)
  then have "seg_small s1 bs1"
    by (cases ss; cases bss) (auto simp: seg_small_def)
  moreover have "segs_small (end_of (end_of o' (map fst bs1)) (log_batches bss)) ss"
    using 2(3) by (cases ss) (simp_all add: end_of_append)
  ultimately show ?case using 2 by auto
qed simp_all

lemma log_usable_small:
  assumes "log_usable cr rl" "plog_inv cr (rl_log rl) bss"
  shows "\<forall>(s, bs) \<in> set (zip (segments (rl_log rl)) bss). seg_small s bs"
    and "seg_small (active (rl_log rl)) (last bss)"
proof -
  have ch: "chain cr (log_start_offset (rl_log rl)) (segments (rl_log rl)) bss" "segments (rl_log rl) \<noteq> []"
    and sm: "segs_small (end_of (log_start_offset (rl_log rl)) (log_batches bss)) (segments (rl_log rl))"
    using assms by (simp_all add: plog_inv_def log_usable_def)
  show all: "\<forall>(s, bs) \<in> set (zip (segments (rl_log rl)) bss). seg_small s bs"
    using segs_small_seg [OF ch(1) sm] by blast
  have l: "length (segments (rl_log rl)) = length bss" "bss \<noteq> []" using chain_length [OF ch(1)] ch(2) by auto
  have "(active (rl_log rl), last bss) \<in> set (zip (segments (rl_log rl)) bss)"
    using l ch(2) by (auto simp: in_set_conv_nth last_conv_nth intro!: exI [of _ "length bss - 1"])
  with all show "seg_small (active (rl_log rl)) (last bss)" by auto
qed


section \<open>Appending\<close>

lemma length_encode_meta [simp]: "length (encode_meta m) = 25"
  by (simp add: encode_meta_def)

lemma length_metas [simp]: "length (concat (map encode_meta ms)) = 25 * length ms"
  by (induction ms) simp_all

lemma wf_batch_rebase: "decode p = Inr b \<Longrightarrow> fits_i64 o' \<Longrightarrow> wf_batch (rebase b o')"
  using encode_decode [of p b] by (simp add: rebase_def wf_batch_def wf_header_def)

lemma persist_meta_files:
  assumes "persist_meta rl m = (rl', r)"
  obtains f where "rl' = rl \<lparr> rl_meta_file := f \<rparr>"
    "r = Inr () \<longrightarrow> rl_files rl \<longrightarrow> rl_files (rl' \<lparr> rl_entries := rl_entries rl @ [m] \<rparr>)"
proof -
  obtain f r0 where w: "write_at (rl_meta_file rl) (encode_meta m) (length (rl_entries rl) * 25) = (f, r0)" by fastforce
  with assms have rl': "rl' = rl \<lparr> rl_meta_file := f \<rparr>" "r = r0" by (simp_all add: persist_meta_def kMetaRecordSize_def)
  have "rl_files (rl' \<lparr> rl_entries := rl_entries rl @ [m] \<rparr>)" if "r = Inr ()" "rl_files rl"
  proof -
    have "content f = overwrite (content (rl_meta_file rl)) (length (rl_entries rl) * 25) (encode_meta m)"
      using w that(1) rl'(2) by (elim write_at_cases) simp
    then show ?thesis using that(2) rl' by (simp add: rl_files_def overwrite_at_end)
  qed
  with rl' that show thesis by blast
qed

lemma append_entry_refines:
  assumes mem: "rl_mem cr rl a []" and us: "log_usable cr rl" "entry_fits rl e"
    and ap: "append_entry cr rl e = (rl', r)"
  shows "case r of
      Inl _ \<Rightarrow> \<exists>extra. length extra \<le> 1 \<and> rl_mem cr rl' a extra
    | Inr _ \<Rightarrow> \<exists>b. decode (le_payload e) = Inr b \<and> rl_mem cr rl' (al_push a e b) [] \<and> (rl_files rl \<longrightarrow> rl_files rl')"
proof (cases "decode (le_payload e)")
  case (Inl err)
  then have "rl' = rl" "r = Inl err" using ap by (simp_all add: append_entry_def)
  then show ?thesis using mem by (auto intro: exI [of _ "[]"])
next
  case (Inr b)
  let ?pl = "rl_log rl" and ?o = "log_end_offset (rl_log rl)"
  obtain bss pre where inv: "plog_inv cr ?pl bss" "log_batches bss = pre @ abs_batches a"
    "end_of (log_start_offset ?pl) (pre @ abs_batches a) = al_end a"
    "if al_index a = 0 then pre = [] \<and> al_term a = 0 \<and> al_offset a = 0 else end_of (log_start_offset ?pl) pre = al_offset a + 1"
    using mem by (auto simp: rl_mem_def)
  have o: "?o = al_end a" using inv(1-3) by (simp add: plog_inv_def)
  obtain pl rp where p: "plog_append cr (rl_envs rl 0) ?pl b = (pl, rp)" by fastforce
  have "wf_batch (rebase b ?o)" "1 \<le> record_count (header b)" "env_ok (rl_envs rl 0)"
    "crypto_used ?pl \<longrightarrow> crypto_ok cr"
    using Inr us wf_batch_rebase [OF Inr] by (simp_all add: entry_fits_def log_usable_def)
  with plog_append_inv [OF inv(1) _ _ _ _ log_usable_small(2) [OF us(1) inv(1)] p]
  obtain bss' where i': "plog_inv cr pl bss'" "log_start_offset pl = log_start_offset ?pl" and
    c: "case rp of Inr l \<Rightarrow> l = ?o + record_count (header b) - 1 \<and> log_batches bss' = log_batches bss @ [rebase b ?o]
     | Inl e \<Rightarrow> log_batches bss' = log_batches bss \<or> log_batches bss' = log_batches bss @ [rebase b ?o]" by blast
  let ?rl = "rl \<lparr> rl_log := pl, rl_envs := (\<lambda>n. rl_envs rl (Suc n)) \<rparr>"
  have ext: "rl_mem cr rl'' a extra" if "rl_log rl'' = pl" "log_batches bss' = log_batches bss @ extra"
    "rl_snapshot_index rl'' = rl_snapshot_index rl" "rl_snapshot_term rl'' = rl_snapshot_term rl"
    "rl_snapshot_last_offset rl'' = rl_snapshot_last_offset rl" "rl_entries rl'' = rl_entries rl" for extra rl''
    using that inv i' mem unfolding rl_mem_def by (auto intro!: exI [of _ bss'] exI [of _ pre])
  show ?thesis
  proof (cases rp)
    case (Inl err)
    then have "rl' = ?rl" "r = Inl err" using ap Inr p by (simp_all add: append_entry_def)
    moreover have "rl_mem cr ?rl a [] \<or> rl_mem cr ?rl a [rebase b ?o]"
      using c Inl ext [of ?rl "[]"] ext [of ?rl "[rebase b ?o]"] by auto
    ultimately show ?thesis by (auto intro: exI [of _ "[]"] exI [of _ "[rebase b ?o]"])
  next
    case l: (Inr l)
    let ?m = "\<lparr> em_term = le_term e, em_base_offset = ?o, em_last_offset = l, em_type = le_type e \<rparr>"
    obtain rl2 r2 where pm: "persist_meta ?rl ?m = (rl2, r2)" by fastforce
    then obtain f where f: "rl2 = ?rl \<lparr> rl_meta_file := f \<rparr>"
      "r2 = Inr () \<longrightarrow> rl_files ?rl \<longrightarrow> rl_files (rl2 \<lparr> rl_entries := rl_entries ?rl @ [?m] \<rparr>)"
      by (rule persist_meta_files)
    have c': "l = ?o + record_count (header b) - 1" "log_batches bss' = log_batches bss @ [rebase b ?o]"
      using c l by simp_all
    show ?thesis
    proof (cases r2)
      case (Inl err)
      then have "rl' = rl2" "r = Inl err" using ap Inr p l pm by (simp_all add: append_entry_def)
      then show ?thesis using ext [of rl2 "[rebase b ?o]"] c' f(1) by (auto intro: exI [of _ "[rebase b ?o]"])
    next
      case ok: (Inr u)
      then have rl': "rl' = rl2 \<lparr> rl_entries := rl_entries ?rl @ [?m] \<rparr>" "r = Inr ()"
        using ap Inr p l pm f(1) by (simp_all add: append_entry_def)
      have "?m = meta_of \<lparr> ae_entry_term = le_term e, ae_entry_type = le_type e, ae_batch = rebase b (al_end a) \<rparr>"
        using c'(1) o by (simp add: meta_of_def last_offset_def)
      then have "rl_mem cr rl' (al_push a e b) []"
        using mem inv i' c' o unfolding rl_mem_def rl'(1) f(1) al_push_def
        by (auto simp: end_of_append intro!: exI [of _ bss'] exI [of _ pre])
      moreover have "rl_files rl \<longrightarrow> rl_files rl'" using f(2) ok rl' by (simp add: rl_files_def)
      ultimately show ?thesis using Inr rl'(2) by simp
    qed
  qed
qed

lemma rl_append_refines:
  assumes "rl_mem cr rl a []" "es = [] \<or> rl_usable cr rl es" "rl_append cr rl es = (rl', r)"
  shows "case r of
      Inl _ \<Rightarrow> \<exists>k a' extra. k \<le> length es \<and> fst (al_append a (take k es)) = a' \<and> length extra \<le> 1 \<and> rl_mem cr rl' a' extra
    | Inr i \<Rightarrow> \<exists>a'. al_append a es = (a', Inr i) \<and> rl_mem cr rl' a' [] \<and> (rl_files rl \<longrightarrow> rl_files rl')"
  using assms
proof (induction es arbitrary: rl a)
  case Nil
  then have "last_index rl = al_last_index a" by (simp add: last_index_def al_last_index_def rl_mem_def)
  with Nil show ?case by auto
next
  case (Cons e es)
  obtain rl1 r1 where ap: "append_entry cr rl e = (rl1, r1)" by fastforce
  from append_entry_refines [OF Cons.prems(1) _ _ ap] Cons.prems(2)
  have s: "case r1 of
      Inl _ \<Rightarrow> \<exists>extra. length extra \<le> 1 \<and> rl_mem cr rl1 a extra
    | Inr _ \<Rightarrow> \<exists>b. decode (le_payload e) = Inr b \<and> rl_mem cr rl1 (al_push a e b) [] \<and> (rl_files rl \<longrightarrow> rl_files rl1)"
    by simp
  show ?case
  proof (cases r1)
    case (Inl err)
    then have "r = Inl err" "rl' = rl1" using ap Cons.prems(3) by simp_all
    then show ?thesis using s Inl by (auto intro!: exI [of _ "0 :: nat"])
  next
    case (Inr u)
    then obtain b where b: "decode (le_payload e) = Inr b" "rl_mem cr rl1 (al_push a e b) []" "rl_files rl \<longrightarrow> rl_files rl1"
      using s by auto
    have "es = [] \<or> rl_usable cr rl1 es" "rl_append cr rl1 es = (rl', r)" using Cons.prems Inr ap by simp_all
    note ih = Cons.IH [OF b(2) this]
    show ?thesis
    proof (cases r)
      case (Inl err)
      with ih obtain k extra where "k \<le> length es" "length extra \<le> 1"
        "rl_mem cr rl' (fst (al_append (al_push a e b) (take k es))) extra" by auto
      then show ?thesis using b(1) Inl by (auto intro!: exI [of _ "Suc k"])
    qed (use ih b in auto)
  qed
qed


section \<open>Reading\<close>

lemma rl_mem_queries:
  assumes "rl_mem cr rl a extra"
  shows "last_index rl = al_last_index a" "last_term rl = al_last_term a" "term_at rl i = al_term_at a i"
    "offsets_at rl i = al_offsets_at a i" "slot_of rl i = al_slot a i"
proof -
  have m: "rl_snapshot_index rl = al_index a" "rl_snapshot_term rl = al_term a"
    "rl_entries rl = map meta_of (al_entries a)" using assms by (simp_all add: rl_mem_def)
  show i: "last_index rl = al_last_index a" using m by (simp add: last_index_def al_last_index_def)
  show "last_term rl = al_last_term a" using m by (simp add: last_term_def al_last_term_def last_map meta_of_def)
  show s: "slot_of rl i = al_slot a i" using m by (simp add: slot_of_def al_slot_def)
  have n: "rl_entries rl ! slot_of rl i = meta_of (al_entries a ! al_slot a i)"
    if "al_index a < i" "i \<le> al_last_index a"
    using that m s by (simp add: al_slot_def al_last_index_def nat_less_iff)
  show "term_at rl i = al_term_at a i" using m n i by (simp add: term_at_def al_term_at_def meta_of_def)
  show "offsets_at rl i = al_offsets_at a i"
    using m n i by (simp add: offsets_at_def al_offsets_at_def meta_of_def Let_def)
qed

lemma read_payload_entry:
  assumes "rl_mem cr rl a extra" "plog_readable (rl_log rl)" "al_entries a = us @ x # vs"
  shows "read_payload cr rl (meta_of x) = Inr (encode (ae_batch x))"
proof -
  obtain bss pre where inv: "plog_inv cr (rl_log rl) bss" "log_batches bss = pre @ abs_batches a @ extra"
    using assms(1) by (auto simp: rl_mem_def)
  then have "log_batches bss = (pre @ map ae_batch us) @ ae_batch x # map ae_batch vs @ extra"
    using assms(3) by simp
  from plog_read_one [OF inv(1) assms(2) this] show ?thesis
    by (simp add: read_payload_def meta_of_def encoded_size_def flip: length_0_conv)
qed

lemma read_entries_numbered:
  assumes "rl_mem cr rl a extra" "plog_readable (rl_log rl)"
  shows "al_entries a = us @ xs @ vs \<Longrightarrow> read_entries cr rl i (map meta_of xs) = Inr (numbered i xs)"
proof (induction xs arbitrary: us i)
  case (Cons x xs)
  from Cons.IH [of "us @ [x]" "i + 1"] Cons.prems read_payload_entry [OF assms, of us x "xs @ vs"]
  show ?case by (simp add: meta_of_def)
qed simp

lemma entries_from_refines:
  assumes "rl_mem cr rl a extra" "plog_readable (rl_log rl)"
  shows "entries_from cr rl i n = al_entries_from a i n"
proof -
  have "rl_snapshot_index rl = al_index a" "rl_entries rl = map meta_of (al_entries a)"
    using assms(1) by (simp_all add: rl_mem_def)
  moreover have "al_entries a = take (al_slot a i) (al_entries a) @
      take n (drop (al_slot a i) (al_entries a)) @ drop n (drop (al_slot a i) (al_entries a))"
    by (simp only: append_take_drop_id)
  from read_entries_numbered [OF assms this, of i]
  have "read_entries cr rl i (take n (drop (al_slot a i) (map meta_of (al_entries a)))) =
      Inr (numbered i (take n (drop (al_slot a i) (al_entries a))))" by (simp add: take_map drop_map)
  ultimately show ?thesis
    using rl_mem_queries(5) [OF assms(1), of i] by (simp add: entries_from_def al_entries_from_def)
qed


section \<open>Truncating\<close>

lemma take_metas: "take (25 * k) (concat (map encode_meta ms)) = concat (map encode_meta (take k ms))"
proof (induction ms arbitrary: k)
  case (Cons m ms)
  then show ?case by (cases k) simp_all
qed simp

lemma entry_offset:
  assumes "rl_mem cr rl a extra" "al_entries a = us @ x # vs"
  obtains bss pre where "plog_inv cr (rl_log rl) bss"
    "log_batches bss = (pre @ map ae_batch us) @ ae_batch x # map ae_batch vs @ extra"
    "base_offset (header (ae_batch x)) = end_of (log_start_offset (rl_log rl)) (pre @ map ae_batch us)"
    "last_offset (ae_batch x) + 1 = end_of (log_start_offset (rl_log rl)) (pre @ map ae_batch (us @ [x]))"
    "if al_index a = 0 then pre = [] \<and> al_term a = 0 \<and> al_offset a = 0 else end_of (log_start_offset (rl_log rl)) pre = al_offset a + 1"
    "end_of (log_start_offset (rl_log rl)) (pre @ abs_batches a) = al_end a"
proof -
  obtain bss pre where inv: "plog_inv cr (rl_log rl) bss" "log_batches bss = pre @ abs_batches a @ extra"
    "if al_index a = 0 then pre = [] \<and> al_term a = 0 \<and> al_offset a = 0 else end_of (log_start_offset (rl_log rl)) pre = al_offset a + 1"
    "end_of (log_start_offset (rl_log rl)) (pre @ abs_batches a) = al_end a"
    using assms(1) by (auto simp: rl_mem_def)
  have sp: "log_batches bss = (pre @ map ae_batch us) @ ae_batch x # map ae_batch vs @ extra"
    using inv(2) assms(2) by simp
  have "contiguous (log_start_offset (rl_log rl)) (log_batches bss)"
    using inv(1) chain_contiguous by (auto simp: plog_inv_def)
  from contiguous_mid [OF this [unfolded sp]] that [OF inv(1) sp] inv(3,4) show thesis by simp
qed

lemma slot_split:
  assumes "al_index a < i" "i \<le> al_last_index a"
  shows "al_entries a = take (al_slot a i) (al_entries a) @ (al_entries a ! al_slot a i) # drop (Suc (al_slot a i)) (al_entries a)"
    and "al_slot a i < length (al_entries a)"
proof -
  show "al_slot a i < length (al_entries a)"
    using assms by (simp add: al_slot_def al_last_index_def nat_less_iff)
  then show "al_entries a = take (al_slot a i) (al_entries a) @ (al_entries a ! al_slot a i) # drop (Suc (al_slot a i)) (al_entries a)"
    by (rule id_take_nth_drop)
qed

lemma truncate_from_refines:
  assumes mem: "rl_mem cr rl a extra" and us: "log_usable cr rl" and tr: "truncate_from rl i = (rl', Inr u)"
  shows "\<exists>a'. al_truncate_from a i = (a', Inr ()) \<and> rl_mem cr rl' a' (if i \<le> al_last_index a then [] else extra) \<and>
    (rl_files rl \<longrightarrow> rl_files rl')"
proof -
  have m: "rl_snapshot_index rl = al_index a" "rl_entries rl = map meta_of (al_entries a)"
    using mem by (simp_all add: rl_mem_def)
  note q = rl_mem_queries [OF mem]
  have i: "1 \<le> i" "al_index a < i" using tr m by (auto simp: truncate_from_def split: if_splits)
  show ?thesis
  proof (cases "i \<le> al_last_index a")
    case False
    then show ?thesis using tr i mem m q by (auto simp: truncate_from_def al_truncate_from_def)
  next
    case True
    let ?k = "al_slot a i" and ?x = "al_entries a ! al_slot a i"
    note sp = slot_split [OF i(2) True]
    from entry_offset [OF mem sp(1)] obtain bss pre where e: "plog_inv cr (rl_log rl) bss"
      "log_batches bss = (pre @ map ae_batch (take ?k (al_entries a))) @ ae_batch ?x # map ae_batch (drop (Suc ?k) (al_entries a)) @ extra"
      "base_offset (header (ae_batch ?x)) = end_of (log_start_offset (rl_log rl)) (pre @ map ae_batch (take ?k (al_entries a)))"
      "if al_index a = 0 then pre = [] \<and> al_term a = 0 \<and> al_offset a = 0 else end_of (log_start_offset (rl_log rl)) pre = al_offset a + 1" by metis
    have base: "em_base_offset (rl_entries rl ! slot_of rl i) = base_offset (header (ae_batch ?x))"
      using sp(2) m q by (simp add: meta_of_def)
    from tr i True m q base obtain pl f v where t: "plog_truncate_to (rl_log rl) (base_offset (header (ae_batch ?x))) = (pl, Inr v)"
      "truncate_file (rl_meta_file rl) (?k * 25) = (f, Inr ())"
      "rl' = rl \<lparr> rl_log := pl, rl_meta_file := f, rl_entries := take ?k (rl_entries rl) \<rparr>"
      by (auto simp: truncate_from_def Let_def kMetaRecordSize_def slot_of_def split: prod.splits sum.splits)
    have rd: "plog_readable (rl_log rl)" using us by (simp add: log_usable_def)
    from plog_truncate_inv [OF e(1) rd log_usable_small(1) [OF us e(1)] e(2), of pl v] t(1) e(3)
    obtain bss' where b': "plog_inv cr pl bss'" "log_batches bss' = pre @ map ae_batch (take ?k (al_entries a))" by auto
    have start: "log_start_offset pl = log_start_offset (rl_log rl)"
      using t(1) by (auto simp: plog_truncate_to_def Let_def split: if_splits prod.splits sum.splits)
    let ?a = "a\<lparr> al_entries := take ?k (al_entries a), al_end := base_offset (header (ae_batch ?x)) \<rparr>"
    have "rl_mem cr rl' ?a []"
      using mem b' e(3,4) start unfolding rl_mem_def t(3) by (auto simp: take_map intro!: exI [of _ bss'] exI [of _ pre])
    moreover have "rl_files rl'" if "rl_files rl"
    proof -
      have "length (content (rl_meta_file rl)) = 25 * length (rl_entries rl)" using that by (simp add: rl_files_def)
      then have "?k * 25 \<le> length (content (rl_meta_file rl))" using sp(2) m(2) by simp
      with t(2) have "content f = take (?k * 25) (content (rl_meta_file rl))" by (rule truncate_file_ok)
      then show ?thesis using that t(3) by (simp add: rl_files_def mult.commute [of ?k 25] take_metas)
    qed
    moreover have "al_truncate_from a i = (?a, Inr ())" using i True by (simp add: al_truncate_from_def)
    ultimately show ?thesis using True by auto
  qed
qed


section \<open>Snapshots\<close>

lemma length_snapshot_record [simp]: "length (snapshot_record i t l) = 28"
  by (simp add: snapshot_record_def Let_def)

lemma snapshot_record_nonempty [simp]: "snapshot_record i t l \<noteq> []"
  using length_snapshot_record [of i t l] by (metis list.size(3) zero_neq_numeral)

lemma write_metas_content:
  "write_metas f k ms = (f', Inr u) \<Longrightarrow> 25 * k \<le> length (content f) \<Longrightarrow>
   take (25 * (k + length ms)) (content f') = take (25 * k) (content f) @ concat (map encode_meta ms) \<and>
   25 * (k + length ms) \<le> length (content f')"
proof (induction ms arbitrary: f k)
  case (Cons m ms)
  obtain f1 r1 where w: "write_at f (encode_meta m) (k * 25) = (f1, r1)" by fastforce
  with Cons.prems have r1: "r1 = Inr ()" and rest: "write_metas f1 (Suc k) ms = (f', Inr u)"
    by (auto simp: kMetaRecordSize_def split: sum.splits)
  have c: "content f1 = overwrite (content f) (k * 25) (encode_meta m)"
    using w r1 by (elim write_at_cases) simp
  have "take (25 * Suc k) (content f1) = take (25 * k) (content f) @ encode_meta m"
    using take_overwrite [of "k * 25" "content f" "encode_meta m"] Cons.prems(2) by (simp add: c mult.commute add.commute)
  moreover have "25 * Suc k \<le> length (content f1)"
    using length_overwrite [of "encode_meta m" "content f" "k * 25"] by (simp add: c flip: length_greater_0_conv)
  ultimately show ?case using Cons.IH [OF rest] by (simp add: algebra_simps)
qed simp

lemma persist_base_ok:
  assumes "persist_base rl = (rl', r)"
  shows "rl_log rl' = rl_log rl \<and> rl_entries rl' = rl_entries rl \<and> rl_snapshot_index rl' = rl_snapshot_index rl \<and>
    rl_snapshot_term rl' = rl_snapshot_term rl \<and> rl_snapshot_last_offset rl' = rl_snapshot_last_offset rl \<and>
    rl_envs rl' = rl_envs rl"
    and "r = Inr u \<Longrightarrow> length (content (rl_snapshot_file rl)) \<le> 28 \<Longrightarrow> 0 < rl_snapshot_index rl \<Longrightarrow> rl_files rl'"
proof -
  show "rl_log rl' = rl_log rl \<and> rl_entries rl' = rl_entries rl \<and> rl_snapshot_index rl' = rl_snapshot_index rl \<and>
    rl_snapshot_term rl' = rl_snapshot_term rl \<and> rl_snapshot_last_offset rl' = rl_snapshot_last_offset rl \<and>
    rl_envs rl' = rl_envs rl"
    using assms by (auto simp: persist_base_def persist_snapshot_def rewrite_meta_def Let_def split: prod.splits sum.splits)
  assume ok: "r = Inr u" "length (content (rl_snapshot_file rl)) \<le> 28" "0 < rl_snapshot_index rl"
  let ?rec = "snapshot_record (rl_snapshot_index rl) (rl_snapshot_term rl) (rl_snapshot_last_offset rl)"
  from assms ok(1) obtain sf sf' f f1 f2 v1 v2 v3 v4 where s: "write_at (rl_snapshot_file rl) ?rec 0 = (sf, Inr v1)"
    "sync_file sf = (sf', Inr v2)"
    and w: "write_metas (rl_meta_file rl) 0 (rl_entries rl) = (f, Inr v3)"
      "truncate_file f (length (rl_entries rl) * 25) = (f1, Inr v4)" "sync_file f1 = (f2, Inr u)"
    and rl': "rl' = rl \<lparr> rl_snapshot_file := sf', rl_meta_file := f2 \<rparr>"
    by (auto simp: persist_base_def persist_snapshot_def rewrite_meta_def Let_def kMetaRecordSize_def split: prod.splits sum.splits)
  have "content sf = ?rec" using s(1) ok(2) by (elim write_at_cases) (simp add: overwrite_def)
  then have "content sf' = ?rec" using sync_file_content(1) [of sf] s(2) by simp
  moreover have m: "take (25 * length (rl_entries rl)) (content f) = concat (map encode_meta (rl_entries rl))"
    "25 * length (rl_entries rl) \<le> length (content f)" using write_metas_content [OF w(1)] by simp_all
  have "content f1 = take (length (rl_entries rl) * 25) (content f)"
    using w(2) m(2) by (intro truncate_file_ok [of f _ f1 v4]) (simp_all add: mult.commute)
  then have "content f2 = concat (map encode_meta (rl_entries rl))"
    using sync_file_content(1) [of f1] w(3) m(1) by (simp add: mult.commute)
  ultimately show "rl_files rl'" using ok(3) by (simp add: rl_files_def rl')
qed


lemma contiguous_prefix_split:
  assumes "contiguous o' (xs @ ys)" "xs @ ys = ls @ rs" "end_of o' ls \<le> end_of o' xs"
  obtains zs where "xs = ls @ zs" "rs = zs @ ys"
proof -
  have "length ls \<le> length xs"
  proof (rule ccontr)
    assume "\<not> length ls \<le> length xs"
    moreover have "length ls \<le> length (xs @ ys)" using assms(2) by simp
    ultimately have "end_of o' (take (length xs) (xs @ ys)) < end_of o' (take (length ls) (xs @ ys))"
      using assms(1) by (intro end_of_take_mono) simp_all
    moreover have "take (length ls) (xs @ ys) = ls" unfolding assms(2) by simp
    ultimately show False using assms(3) by simp
  qed
  then have "xs = ls @ drop (length ls) xs" "rs = drop (length ls) xs @ ys"
    using arg_cong [OF assms(2), of "take (length ls)"] arg_cong [OF assms(2), of "drop (length ls)"]
    by (simp_all add: append_eq_conv_conj) (metis append_take_drop_id)
  then show thesis using that by blast
qed

lemma compact_to_refines:
  assumes mem: "rl_mem cr rl a extra" and co: "compact_to rl i = (rl', Inr u)"
  shows "\<exists>a'. al_compact_to a i = (a', Inr ()) \<and> rl_mem cr rl' a' extra \<and> (rl_files rl \<longrightarrow> rl_files rl')"
proof -
  have m: "rl_snapshot_index rl = al_index a" "rl_entries rl = map meta_of (al_entries a)" "0 \<le> al_index a"
    using mem by (simp_all add: rl_mem_def)
  note q = rl_mem_queries [OF mem]
  show ?thesis
  proof (cases "i \<le> al_index a")
    case True
    then show ?thesis using co mem m by (auto simp: compact_to_def al_compact_to_def)
  next
    case False
    then have i: "al_index a < i" "i \<le> al_last_index a" using co m q by (auto simp: compact_to_def split: if_splits)
    let ?k = "al_slot a i" and ?x = "al_entries a ! al_slot a i" and ?o = "log_start_offset (rl_log rl)"
    let ?us = "map ae_batch (take ?k (al_entries a) @ [?x])" and ?vs = "map ae_batch (drop (Suc ?k) (al_entries a)) @ extra"
    note sp = slot_split [OF i]
    from entry_offset [OF mem sp(1)] obtain bss pre where e: "plog_inv cr (rl_log rl) bss"
      "log_batches bss = (pre @ map ae_batch (take ?k (al_entries a))) @ ae_batch ?x # ?vs"
      "last_offset (ae_batch ?x) + 1 = end_of ?o (pre @ ?us)" "end_of ?o (pre @ abs_batches a) = al_end a" by metis
    have b: "log_batches bss = (pre @ ?us) @ ?vs" using e(2) by simp
    have bd: "rl_entries rl ! slot_of rl i = meta_of ?x" using sp(2) m q by simp
    from co i m q bd obtain pl v where t: "truncate_prefix_to (rl_log rl) (last_offset (ae_batch ?x) + 1) = (pl, Inr v)"
      and pb: "persist_base (rl \<lparr> rl_log := pl, rl_entries := map meta_of (drop (Suc ?k) (al_entries a)),
                 rl_snapshot_index := i, rl_snapshot_term := ae_entry_term ?x,
                 rl_snapshot_last_offset := last_offset (ae_batch ?x) \<rparr>) = (rl', Inr u)"
      by (auto simp: compact_to_def Let_def meta_of_def drop_map split: prod.splits sum.splits)
    from truncate_prefix_inv [OF e(1) t] obtain n where n: "plog_inv cr pl (drop n bss)"
      "log_end_offset pl = log_end_offset (rl_log rl)" "n = 0 \<or> log_start_offset pl \<le> end_of ?o (pre @ ?us)"
      using e(3) by auto
    let ?L = "log_batches (take n bss)" and ?R = "log_batches (drop n bss)"
    have lr: "log_batches bss = ?L @ ?R" by (metis append_take_drop_id concat_append map_append)
    have start: "log_start_offset pl = end_of ?o ?L"
      using n(1,2) e(1) unfolding plog_inv_def lr by (simp add: end_of_def)
    have cont: "contiguous ?o (log_batches bss)" using e(1) chain_contiguous by (auto simp: plog_inv_def)
    have "?o \<le> end_of ?o (pre @ ?us)"
      using end_of_ge [of ?o "pre @ ?us"] cont b by (simp add: contiguous_append)
    then have "end_of ?o ?L \<le> end_of ?o (pre @ ?us)" using n(3) start by auto
    moreover have "contiguous ?o ((pre @ ?us) @ ?vs)" "(pre @ ?us) @ ?vs = ?L @ ?R" using cont b lr by simp_all
    ultimately obtain zs where z: "pre @ ?us = ?L @ zs" "?R = zs @ ?vs" by (rule_tac contiguous_prefix_split)
    have zend: "end_of (log_start_offset pl) zs = last_offset (ae_batch ?x) + 1"
      using e(3) z(1) start by (simp add: end_of_append del: map_append append.simps)
    have abs: "pre @ abs_batches a = ?L @ zs @ map ae_batch (drop (Suc ?k) (al_entries a))"
    proof -
      have "pre @ abs_batches a = (pre @ ?us) @ map ae_batch (drop (Suc ?k) (al_entries a))"
        by (subst (1) sp(1)) simp
      then show ?thesis unfolding z(1) by simp
    qed
    let ?a = "a\<lparr> al_index := i, al_term := ae_entry_term ?x, al_offset := last_offset (ae_batch ?x),
                 al_entries := drop (Suc ?k) (al_entries a) \<rparr>"
    note p = persist_base_ok [OF pb]
    have "rl_mem cr rl' ?a extra"
      using n(1) z(2) zend e(4) m i start p(1) unfolding rl_mem_def abs
      by (auto simp: end_of_append intro!: exI [of _ "drop n bss"] exI [of _ zs])
    moreover have "rl_files rl'" if "rl_files rl"
      using that i m by (intro p(2) [of u]) (auto simp: rl_files_def)
    moreover have "al_compact_to a i = (?a, Inr ())" using i by (simp add: al_compact_to_def Let_def)
    ultimately show ?thesis by blast
  qed
qed

lemma install_snapshot_refines:
  assumes mem: "rl_mem cr rl a []" and us: "log_usable cr rl" and ins: "rl_install_snapshot cr rl i t off = (rl', Inr u)"
  shows "\<exists>a'. al_install_snapshot a i t off = (a', Inr ()) \<and> rl_mem cr rl' a' [] \<and> (rl_files rl \<longrightarrow> rl_files rl')"
proof -
  have m: "rl_snapshot_index rl = al_index a" "0 \<le> al_index a" using mem by (simp_all add: rl_mem_def)
  note q = rl_mem_queries [OF mem]
  consider "i \<le> al_index a" | "al_index a < i" "i \<le> al_last_index a \<and> al_term_at a i = Inr t"
    | "al_index a < i" "\<not> (i \<le> al_last_index a \<and> al_term_at a i = Inr t)" by linarith
  then show ?thesis
  proof cases
    case 1
    then show ?thesis using ins mem m by (auto simp: rl_install_snapshot_def al_install_snapshot_def)
  next
    case 2
    then show ?thesis
      using ins m q compact_to_refines [OF mem, of i rl' u] by (simp add: rl_install_snapshot_def al_install_snapshot_def)
  next
    case 3
    then obtain pl v where r: "reset_to cr (rl_envs rl 0) (rl_log rl) (off + 1) = (pl, Inr v)"
      and pb: "persist_base (rl \<lparr> rl_log := pl, rl_envs := (\<lambda>n. rl_envs rl (Suc n)), rl_entries := [],
              rl_snapshot_index := i, rl_snapshot_term := t, rl_snapshot_last_offset := off \<rparr>) = (rl', Inr u)"
      using ins m q by (auto simp: rl_install_snapshot_def split: prod.splits sum.splits)
    from r obtain s where s: "create_segment cr (cfg (rl_log rl)) (rl_envs rl 0) (off + 1) = Inr s" "0 \<le> off + 1"
      "segments pl = [s]" "log_start_offset pl = off + 1" "log_end_offset pl = off + 1"
      by (auto simp: reset_to_def split: if_splits sum.splits)
    have "env_ok (rl_envs rl 0)" using us by (simp add: log_usable_def)
    with create_segment_inv [OF s(1)] s have inv: "plog_inv cr pl [[]]" by (simp add: plog_inv_def)
    let ?a = "\<lparr> al_index = i, al_term = t, al_offset = off, al_entries = [], al_end = off + 1 \<rparr>"
    note p = persist_base_ok [OF pb]
    have "rl_mem cr rl' ?a []"
      using inv s p(1) 3(1) m unfolding rl_mem_def by (auto intro!: exI [of _ "[[]]"])
    moreover have "rl_files rl'" if "rl_files rl"
      using that 3(1) m by (intro p(2) [of u]) (auto simp: rl_files_def)
    moreover have "al_install_snapshot a i t off = (?a, Inr ())"
      using 3 s(2) by (auto simp: al_install_snapshot_def)
    ultimately show ?thesis by blast
  qed
qed


section \<open>The interface for the replica\<close>

definition raft_log_ops :: "crypto_lib \<Rightarrow> RaftLog log_ops" where
  "raft_log_ops cr =
     \<lparr> op_last_index = last_index, op_last_term = last_term, op_term_at = term_at,
       op_offsets_at = offsets_at, op_entries_from = entries_from cr, op_append = rl_append cr,
       op_truncate_from = truncate_from, op_compact_to = compact_to,
       op_install_snapshot = rl_install_snapshot cr, op_snapshot_index = rl_snapshot_index,
       op_snapshot_term = rl_snapshot_term, op_snapshot_last_offset = rl_snapshot_last_offset \<rparr>"

lemma rl_usable_log: "rl_usable cr rl es \<Longrightarrow> log_usable cr rl"
  by (cases es) simp_all

lemma log_usable_readable: "log_usable cr rl \<Longrightarrow> plog_readable (rl_log rl)"
  by (simp add: log_usable_def)

interpretation raft_replicated: replicated_log "raft_log_ops cr" "\<lambda>rl a. rl_mem cr rl a []" "rl_usable cr" for cr
proof unfold_locales
  fix l a l' and es and k :: int
  assume "rl_mem cr l a []" "rl_usable cr l es" "op_append (raft_log_ops cr) l es = (l', Inr k)"
  then show "\<exists>a'. al_append a es = (a', Inr k) \<and> rl_mem cr l' a' []"
    using rl_append_refines [of cr l a es l' "Inr k"] by (auto simp: raft_log_ops_def)
next
  fix l a l' i and u :: unit
  assume mem: "rl_mem cr l a []" and us: "rl_usable cr l []"
  show "op_truncate_from (raft_log_ops cr) l i = (l', Inr u) \<Longrightarrow> \<exists>a'. al_truncate_from a i = (a', Inr ()) \<and> rl_mem cr l' a' []"
    using truncate_from_refines [OF mem, of i l' u] us by (auto simp: raft_log_ops_def split: if_splits)
  show "op_compact_to (raft_log_ops cr) l i = (l', Inr u) \<Longrightarrow> \<exists>a'. al_compact_to a i = (a', Inr ()) \<and> rl_mem cr l' a' []"
    using compact_to_refines [OF mem, of i l' u] by (auto simp: raft_log_ops_def)
  show "\<exists>a'. al_install_snapshot a i t off = (a', Inr ()) \<and> rl_mem cr l' a' []"
    if "op_install_snapshot (raft_log_ops cr) l i t off = (l', Inr u)" for t off
    using install_snapshot_refines [OF mem, of i t off l' u] us that by (auto simp: raft_log_ops_def)
qed (simp_all add: raft_log_ops_def rl_mem_queries entries_from_refines rl_usable_log log_usable_readable,
     simp_all add: rl_mem_def)


section \<open>Reopening\<close>

definition wf_meta :: "EntryMeta \<Rightarrow> bool" where
  "wf_meta m \<longleftrightarrow> fits_i64 (em_term m) \<and> fits_i64 (em_base_offset m) \<and> fits_i64 (em_last_offset m) \<and> wf_type (em_type m)"

lemma decode_encode_meta:
  assumes "wf_meta m" shows "decode_meta (encode_meta m) = m"
proof -
  have "decode_meta (encode_meta m) = \<lparr> em_term = em_term m, em_base_offset = em_base_offset m,
      em_last_offset = em_last_offset m, em_type = em_type m \<rparr>"
    using assms load_store_le_int(3) [of _ "[]"] by (simp add: decode_meta_def encode_meta_def wf_meta_def nth_append)
  then show ?thesis by simp
qed

lemma load_metas_ok:
  assumes "readable f"
  shows "content f = concat (map encode_meta (xs @ ys)) \<Longrightarrow> \<forall>m \<in> set ys. wf_meta m \<Longrightarrow>
    load_metas f (length xs) (length ys) = Inr ys"
proof (induction ys arbitrary: xs)
  case (Cons y ys)
  have "take 25 (drop (length xs * 25) (content f)) = encode_meta y"
    using Cons.prems(1) length_metas [of xs] by (simp add: mult.commute)
  then have "read_at f 25 (length xs * 25) = Inr (encode_meta y)"
    using read_at_readable [OF assms] by simp
  with Cons.IH [of "xs @ [y]"] Cons.prems decode_encode_meta [of y] show ?case
    by (simp add: kMetaRecordSize_def)
qed simp

lemma load_snapshot_base_ok:
  assumes "readable f" "content f = (if i = 0 then [] else snapshot_record i t l)" "fits_i64 i" "fits_i64 t" "fits_i64 l"
  shows "load_snapshot_base f = Inr (if i = 0 then (0, 0, 0) else (i, t, l))"
proof (cases "i = 0")
  case False
  let ?b = "store_le_i64 i @ store_le_i64 t @ store_le_i64 l"
  have "read_at f 28 0 = Inr (snapshot_record i t l)" using read_at_readable [OF assms(1)] assms(2) False by simp
  moreover have "take 4 (snapshot_record i t l) = store_le (crc32c ?b)" "drop 4 (snapshot_record i t l) = ?b"
    "take 8 (drop 12 (snapshot_record i t l)) = store_le_i64 t" "take 8 (drop 20 (snapshot_record i t l)) = store_le_i64 l"
    by (simp_all add: snapshot_record_def Let_def)
  moreover have "load_le (store_le (crc32c ?b)) = crc32c ?b" using load_store_le_word(3) [of _ "[]"] by simp
  ultimately show ?thesis
    using False assms load_store_le_int(3) [of _ "[]"] file_size_readable [OF assms(1)]
    by (simp add: load_snapshot_base_def kSnapshotRecordSize_def)
qed (use assms file_size_readable [OF assms(1)] in \<open>simp add: load_snapshot_base_def\<close>)


lemma rl_mem_end:
  assumes "rl_mem cr rl a extra"
  shows "al_end a = (if rl_entries rl \<noteq> [] then em_last_offset (last (rl_entries rl)) + 1
                     else if rl_snapshot_index rl > 0 then rl_snapshot_last_offset rl + 1
                     else log_start_offset (rl_log rl))"
    and "log_end_offset (rl_log rl) = al_end a \<longleftrightarrow> extra = []"
    and "rl_snapshot_index rl > 0 \<Longrightarrow> rl_entries rl \<noteq> [] \<Longrightarrow>
         em_base_offset (hd (rl_entries rl)) = rl_snapshot_last_offset rl + 1"
proof -
  let ?o = "log_start_offset (rl_log rl)"
  obtain bss pre where inv: "plog_inv cr (rl_log rl) bss" "log_batches bss = pre @ abs_batches a @ extra"
    "end_of ?o (pre @ abs_batches a) = al_end a"
    "if al_index a = 0 then pre = [] \<and> al_term a = 0 \<and> al_offset a = 0 else end_of ?o pre = al_offset a + 1"
    and m: "rl_snapshot_index rl = al_index a" "rl_snapshot_last_offset rl = al_offset a"
      "rl_entries rl = map meta_of (al_entries a)" "0 \<le> al_index a"
    using assms by (auto simp: rl_mem_def)
  have cont: "contiguous ?o (pre @ abs_batches a @ extra)" using inv(1,2) chain_contiguous by (fastforce simp: plog_inv_def)
  have e: "log_end_offset (rl_log rl) = end_of (al_end a) extra"
    using inv by (simp add: plog_inv_def end_of_append)
  have "al_end a + int (length extra) \<le> end_of (al_end a) extra"
    using cont inv(3) end_of_ge [of "al_end a" extra] by (simp add: contiguous_append end_of_append)
  then show "log_end_offset (rl_log rl) = al_end a \<longleftrightarrow> extra = []" using e by auto
  show "al_end a = (if rl_entries rl \<noteq> [] then em_last_offset (last (rl_entries rl)) + 1
                     else if rl_snapshot_index rl > 0 then rl_snapshot_last_offset rl + 1 else ?o)"
  proof (cases "al_entries a" rule: rev_cases)
    case Nil
    then show ?thesis using inv(3,4) m by auto
  next
    case (snoc xs x)
    then have "contiguous ?o ((pre @ map ae_batch xs) @ ae_batch x # extra)" using cont by simp
    from contiguous_mid [OF this] snoc inv(3) m(3) show ?thesis by (simp add: meta_of_def)
  qed
  show "em_base_offset (hd (rl_entries rl)) = rl_snapshot_last_offset rl + 1"
    if h: "rl_snapshot_index rl > 0" "rl_entries rl \<noteq> []"
  proof -
    obtain x xs where x: "al_entries a = x # xs" using h(2) m(3) by (cases "al_entries a") auto
    then have "contiguous ?o (pre @ ae_batch x # map ae_batch xs @ extra)" using cont by simp
    from contiguous_mid [OF this] x inv(4) m h show ?thesis by (simp add: meta_of_def)
  qed
qed

lemma rl_reopen:
  assumes mem: "rl_mem cr rl a extra" and files: "rl_files rl" "readable (rl_meta_file rl)" "readable (rl_snapshot_file rl)"
    and wf: "\<forall>m \<in> set (rl_entries rl). wf_meta m" "fits_i64 (rl_snapshot_index rl)" "fits_i64 (rl_snapshot_term rl)"
      "fits_i64 (rl_snapshot_last_offset rl)"
    and pl: "log_start_offset pl = log_start_offset (rl_log rl)" "log_end_offset pl = log_end_offset (rl_log rl)"
  shows "rl_open pl (Inr (rl_meta_file rl)) (Inr (rl_snapshot_file rl)) envs =
    (if extra = [] then Inr (rl \<lparr> rl_log := pl, rl_envs := envs \<rparr>) else Inl Corrupt)"
proof -
  have base: "load_snapshot_base (rl_snapshot_file rl) =
      Inr (rl_snapshot_index rl, rl_snapshot_term rl, rl_snapshot_last_offset rl)"
    using load_snapshot_base_ok [OF files(3) _ wf(2-4)] files(1) mem by (auto simp: rl_files_def rl_mem_def split: if_splits)
  have c: "content (rl_meta_file rl) = concat (map encode_meta (rl_entries rl))" using files(1) by (simp add: rl_files_def)
  have "load_metas (rl_meta_file rl) 0 (length (rl_entries rl)) = Inr (rl_entries rl)"
    using load_metas_ok [OF files(2), of "[]" "rl_entries rl"] c wf(1) by simp
  moreover have "file_size (rl_meta_file rl) = Inr (25 * length (rl_entries rl))"
    using file_size_readable [OF files(2)] c by simp
  moreover have "\<not> (rl_snapshot_index rl > 0 \<and> rl_entries rl \<noteq> [] \<and>
      em_base_offset (hd (rl_entries rl)) \<noteq> rl_snapshot_last_offset rl + 1)"
    using rl_mem_end(3) [OF mem] by auto
  ultimately show ?thesis
    using base pl rl_mem_end(1,2) [OF mem] by (cases rl) (auto simp: rl_open_def kMetaRecordSize_def Let_def)
qed


text \<open>
  C9: the replicated log does what its contract says.  Every query answers as the contract does;
  every append, truncation, compaction and installation of a snapshot that succeeds leaves the log
  that the contract gives, in memory and in the sidecar files; an append that fails leaves a prefix of
  the entries appended, with at most one batch behind them that has no metadata.
\<close>
theorem raft_log_refines:
  assumes "rl_mem cr rl a []" "rl_usable cr rl es"
  shows "last_index rl = al_last_index a \<and> last_term rl = al_last_term a \<and> term_at rl i = al_term_at a i \<and>
    offsets_at rl i = al_offsets_at a i \<and> entries_from cr rl i n = al_entries_from a i n \<and>
    (case rl_append cr rl es of
       (rl', Inr k) \<Rightarrow> \<exists>a'. al_append a es = (a', Inr k) \<and> rl_mem cr rl' a' [] \<and> (rl_files rl \<longrightarrow> rl_files rl')
     | (rl', Inl e) \<Rightarrow> \<exists>k \<le> length es. \<exists>extra. length extra \<le> 1 \<and> rl_mem cr rl' (fst (al_append a (take k es))) extra) \<and>
    (case truncate_from rl i of
       (rl', Inr u) \<Rightarrow> \<exists>a'. al_truncate_from a i = (a', Inr ()) \<and> rl_mem cr rl' a' [] \<and> (rl_files rl \<longrightarrow> rl_files rl')
     | (rl', Inl e) \<Rightarrow> True) \<and>
    (case compact_to rl i of
       (rl', Inr u) \<Rightarrow> \<exists>a'. al_compact_to a i = (a', Inr ()) \<and> rl_mem cr rl' a' [] \<and> (rl_files rl \<longrightarrow> rl_files rl')
     | (rl', Inl e) \<Rightarrow> True) \<and>
    (case rl_install_snapshot cr rl i t off of
       (rl', Inr u) \<Rightarrow> \<exists>a'. al_install_snapshot a i t off = (a', Inr ()) \<and> rl_mem cr rl' a' [] \<and> (rl_files rl \<longrightarrow> rl_files rl')
     | (rl', Inl e) \<Rightarrow> True)"
proof -
  have us: "log_usable cr rl" using assms(2) by (rule rl_usable_log)
  obtain rl1 r1 where ap: "rl_append cr rl es = (rl1, r1)" by fastforce
  have app: "case r1 of
      Inl _ \<Rightarrow> \<exists>k \<le> length es. \<exists>extra. length extra \<le> 1 \<and> rl_mem cr rl1 (fst (al_append a (take k es))) extra
    | Inr i \<Rightarrow> \<exists>a'. al_append a es = (a', Inr i) \<and> rl_mem cr rl1 a' [] \<and> (rl_files rl \<longrightarrow> rl_files rl1)"
    using rl_append_refines [OF assms(1) disjI2 [OF assms(2)] ap] by (cases r1) auto
  show ?thesis
    using rl_mem_queries [OF assms(1)] entries_from_refines [OF assms(1) log_usable_readable [OF us]]
      ap app truncate_from_refines [OF assms(1) us, of i] compact_to_refines [OF assms(1), of i]
      install_snapshot_refines [OF assms(1) us, of i t off]
    by (auto split: prod.split sum.split)
qed

definition sample_abs :: abs_log where
  "sample_abs = \<lparr> al_index = 0, al_term = 0, al_offset = 0, al_entries =
     [\<lparr> ae_entry_term = 1, ae_entry_type = Data, ae_batch = sample_batch \<rparr>,
      \<lparr> ae_entry_term = 2, ae_entry_type = Data, ae_batch = next_batch \<rparr>], al_end = 10 \<rparr>"

definition sample_raft_log :: RaftLog where
  "sample_raft_log = \<lparr> rl_log = sample_log,
     rl_meta_file = empty_file \<lparr> content := concat (map encode_meta (map meta_of (al_entries sample_abs))) \<rparr>,
     rl_snapshot_file = empty_file, rl_entries = map meta_of (al_entries sample_abs),
     rl_snapshot_index = 0, rl_snapshot_term = 0, rl_snapshot_last_offset = 0, rl_envs = (\<lambda>_. sample_env) \<rparr>"

definition sample_entry :: RaftLogEntry where
  "sample_entry = \<lparr> le_term = 2, le_index = 3, le_type = Data, le_payload = encode sample_batch \<rparr>"

lemma sample_raft_log_ok: "rl_mem no_crypto sample_raft_log sample_abs []" "rl_files sample_raft_log"
    "rl_usable no_crypto sample_raft_log [sample_entry]"
proof -
  show "rl_mem no_crypto sample_raft_log sample_abs []"
    unfolding rl_mem_def using sample_log_inv(1)
    by (auto simp: sample_raft_log_def sample_abs_def sample_log_def sample_batch_def next_batch_def default_header_def
        intro!: exI [of _ sample_blocks])
  show "rl_files sample_raft_log" by (simp add: rl_files_def sample_raft_log_def empty_file_def)
  have "segs_small 10 [sample_segment, tail_segment]"
    by (simp add: sample_segment_def tail_segment_def)
  then have "log_usable no_crypto sample_raft_log"
    using sample_log_inv(2)
    by (simp add: log_usable_def sample_raft_log_def env_ok_def sample_env_def empty_file_def readable_def
        crypto_used_def sample_log_def) (simp add: sample_segment_def tail_segment_def)
  moreover have "entry_fits sample_raft_log sample_entry"
    using decode_encode [OF sample_wf(1), of "[]"]
    by (simp add: entry_fits_def sample_entry_def sample_raft_log_def sample_log_def)
      (simp add: sample_batch_def default_header_def)
  ultimately show "rl_usable no_crypto sample_raft_log [sample_entry]"
    by (simp split: prod.split sum.split)
qed

theorem raft_log_refines_witness:
  "last_index sample_raft_log = 2 \<and> term_at sample_raft_log 2 = Inr 2 \<and>
   entries_from no_crypto sample_raft_log 1 1 =
     Inr [\<lparr> le_term = 1, le_index = 1, le_type = Data, le_payload = encode sample_batch \<rparr>] \<and>
   (case rl_append no_crypto sample_raft_log [sample_entry] of
      (rl', Inr k) \<Rightarrow> \<exists>a'. al_append sample_abs [sample_entry] = (a', Inr k) \<and> rl_mem no_crypto rl' a' []
    | (rl', Inl e) \<Rightarrow> \<exists>a' extra. length extra \<le> 1 \<and> rl_mem no_crypto rl' a' extra)"
proof -
  note th = raft_log_refines [OF sample_raft_log_ok(1,3)]
  have "al_last_index sample_abs = 2" "al_term_at sample_abs 2 = Inr 2"
    "al_entries_from sample_abs 1 1 = Inr [\<lparr> le_term = 1, le_index = 1, le_type = Data, le_payload = encode sample_batch \<rparr>]"
    by (simp_all add: sample_abs_def al_last_index_def al_term_at_def al_slot_def al_entries_from_def)
  moreover have "last_index sample_raft_log = al_last_index sample_abs \<and> term_at sample_raft_log 2 = al_term_at sample_abs 2"
    using th [of 2 0 0 0] by (elim conjE) (intro conjI; assumption)
  moreover have "entries_from no_crypto sample_raft_log 1 1 = al_entries_from sample_abs 1 1"
    using th [of 1 1 0 0] by (elim conjE) assumption
  moreover have "case rl_append no_crypto sample_raft_log [sample_entry] of
      (rl', Inr k) \<Rightarrow> \<exists>a'. al_append sample_abs [sample_entry] = (a', Inr k) \<and> rl_mem no_crypto rl' a' [] \<and>
        (rl_files sample_raft_log \<longrightarrow> rl_files rl')
    | (rl', Inl e) \<Rightarrow> \<exists>k \<le> length [sample_entry]. \<exists>extra. length extra \<le> 1 \<and>
        rl_mem no_crypto rl' (fst (al_append sample_abs (take k [sample_entry]))) extra"
    using th [of 0 0 0 0] by (elim conjE) assumption
  then have "case rl_append no_crypto sample_raft_log [sample_entry] of
      (rl', Inr k) \<Rightarrow> \<exists>a'. al_append sample_abs [sample_entry] = (a', Inr k) \<and> rl_mem no_crypto rl' a' []
    | (rl', Inl e) \<Rightarrow> \<exists>a' extra. length extra \<le> 1 \<and> rl_mem no_crypto rl' a' extra"
    by (cases "rl_append no_crypto sample_raft_log [sample_entry]"; cases "snd (rl_append no_crypto sample_raft_log [sample_entry])") auto
  ultimately show ?thesis by simp
qed

text \<open>
  A restart.  The files of a log whose sidecars are up to date open to the same log: terms,
  offsets and snapshot base are those before the restart.  But when the partition log holds a batch
  that has no metadata (the process stopped between the two writes of \<open>append\<close>), \<open>open\<close> refuses
  the log as \<open>Corrupt\<close>.
\<close>
theorem raft_log_reopen:
  assumes "rl_mem cr rl a extra" and "rl_files rl" "readable (rl_meta_file rl)" "readable (rl_snapshot_file rl)"
    and "\<forall>m \<in> set (rl_entries rl). wf_meta m" "fits_i64 (rl_snapshot_index rl)" "fits_i64 (rl_snapshot_term rl)"
      "fits_i64 (rl_snapshot_last_offset rl)"
    and "log_start_offset pl = log_start_offset (rl_log rl)" "log_end_offset pl = log_end_offset (rl_log rl)"
  shows "rl_open pl (Inr (rl_meta_file rl)) (Inr (rl_snapshot_file rl)) envs =
    (if extra = [] then Inr (rl \<lparr> rl_log := pl, rl_envs := envs \<rparr>) else Inl Corrupt)"
  using assms by (rule rl_reopen)

text \<open>The log whose second batch has lost its metadata.\<close>

definition torn_raft_log :: RaftLog where
  "torn_raft_log = sample_raft_log \<lparr> rl_entries := [meta_of \<lparr> ae_entry_term = 1, ae_entry_type = Data, ae_batch = sample_batch \<rparr>],
     rl_meta_file := empty_file \<lparr> content := encode_meta (meta_of \<lparr> ae_entry_term = 1, ae_entry_type = Data, ae_batch = sample_batch \<rparr>) \<rparr> \<rparr>"

theorem raft_log_reopen_witness:
  "rl_open sample_log (Inr (rl_meta_file sample_raft_log)) (Inr empty_file) (\<lambda>_. sample_env) = Inr sample_raft_log \<and>
   rl_open sample_log (Inr (rl_meta_file torn_raft_log)) (Inr empty_file) (\<lambda>_. sample_env) = Inl Corrupt"
proof -
  have wf: "\<forall>m \<in> set (map meta_of (al_entries sample_abs)). wf_meta m"
    by (simp add: sample_abs_def wf_meta_def meta_of_def wf_type_def sample_batch_def next_batch_def
        default_header_def last_offset_def)
  have "rl_open sample_log (Inr (rl_meta_file sample_raft_log)) (Inr (rl_snapshot_file sample_raft_log)) (\<lambda>_. sample_env) =
      Inr (sample_raft_log \<lparr> rl_log := sample_log, rl_envs := (\<lambda>_. sample_env) \<rparr>)"
    using raft_log_reopen [OF sample_raft_log_ok(1,2), of sample_log "\<lambda>_. sample_env"] wf
    by (simp add: sample_raft_log_def readable_def empty_file_def)
  moreover have "rl_mem no_crypto torn_raft_log (sample_abs \<lparr> al_entries := butlast (al_entries sample_abs), al_end := 9 \<rparr>) [next_batch]"
    unfolding rl_mem_def using sample_log_inv(1)
    by (auto simp: torn_raft_log_def sample_raft_log_def sample_abs_def sample_log_def sample_batch_def next_batch_def
        default_header_def intro!: exI [of _ sample_blocks])
  from raft_log_reopen [OF this, of sample_log "\<lambda>_. sample_env"] wf
  have "rl_open sample_log (Inr (rl_meta_file torn_raft_log)) (Inr (rl_snapshot_file torn_raft_log)) (\<lambda>_. sample_env) = Inl Corrupt"
    by (simp add: torn_raft_log_def rl_files_def sample_raft_log_def readable_def empty_file_def sample_abs_def)
  ultimately show ?thesis by (simp add: sample_raft_log_def torn_raft_log_def)
qed

end
