(* ===== verification/Raft_Node.thy ===== *)
theory Raft_Node
  imports Raft_Log
begin

text \<open>
  A replica as a state machine without input or output (\<^verbatim>\<open>src/src/consensus/raft_node.hpp\<close>,
  \<^verbatim>\<open>raft_node.cpp\<close>).  Every handler takes the instant \<open>now\<close> and returns the new state; messages are
  appended to the outbox and a reply is returned beside the state.  The log is any implementation of
  \<open>log_ops\<close>.  Instants are nanoseconds of the monotone clock and the configured durations
  milliseconds; a \<^verbatim>\<open>time_point\<close> starts at 0.
\<close>


section \<open>State\<close>

record RaftConfig =
  election_timeout_min :: int
  election_timeout_max :: int
  heartbeat_interval :: int
  random_seed :: "64 word"

record 'l RaftNode =
  rn_self :: int
  rn_peers :: "int list"
  rn_learners :: "int list"
  rn_log :: 'l
  rn_config :: RaftConfig
  rn_role :: RaftRole
  rn_persistent :: RaftPersistentState
  rn_dirty :: bool
  rn_volatile :: RaftVolatileState
  rn_leader_epoch :: int
  rn_leader_id :: "int option"
  rn_votes :: "int set"
  rn_last_sent :: "int \<rightharpoonup> int"
  rn_transfer_target :: "int option"
  rn_election_deadline :: int
  rn_last_leader_contact :: int
  rn_heartbeat_deadline :: int
  rn_started :: bool
  rn_rng :: int
  rn_outbox :: "RaftMessage list"

definition kMaxEntriesPerAppend :: nat where
  "kMaxEntriesPerAppend = 64"

definition ns :: "int \<Rightarrow> int" where
  "ns ms = ms * 1000000"

text \<open>The generator \<^verbatim>\<open>std::minstd_rand\<close>: its seeding and its step.\<close>

definition seed_rng :: "64 word \<Rightarrow> int" where
  "seed_rng s = (let x = uint s mod 2147483647 in if x = 0 then 1 else x)"

definition next_rng :: "int \<Rightarrow> int" where
  "next_rng x = (48271 * x) mod 2147483647"

definition new_node :: "int \<Rightarrow> int list \<Rightarrow> 'l \<Rightarrow> RaftConfig \<Rightarrow> int list \<Rightarrow> 'l RaftNode" where
  "new_node self peers log config learners =
     \<lparr> rn_self = self, rn_peers = peers, rn_learners = learners, rn_log = log, rn_config = config,
       rn_role = Follower, rn_persistent = initial_persistent, rn_dirty = False,
       rn_volatile = initial_volatile, rn_leader_epoch = 0, rn_leader_id = None, rn_votes = {},
       rn_last_sent = Map.empty, rn_transfer_target = None, rn_election_deadline = 0,
       rn_last_leader_contact = 0, rn_heartbeat_deadline = 0, rn_started = False,
       rn_rng = seed_rng (random_seed config + word_of_int self), rn_outbox = [] \<rparr>"

abbreviation node_term :: "'l RaftNode \<Rightarrow> int" where
  "node_term n \<equiv> current_term (rn_persistent n)"

definition is_voter :: "'l RaftNode \<Rightarrow> int \<Rightarrow> bool" where
  "is_voter n node \<longleftrightarrow> node \<notin> set (rn_learners n)"

definition cluster_size :: "'l RaftNode \<Rightarrow> nat" where
  "cluster_size n = (if is_voter n (rn_self n) then 1 else 0) + length (filter (is_voter n) (rn_peers n))"

definition has_majority :: "'l RaftNode \<Rightarrow> nat \<Rightarrow> bool" where
  "has_majority n votes \<longleftrightarrow> votes * 2 > cluster_size n"

definition advance_term :: "int \<Rightarrow> 'l RaftNode \<Rightarrow> 'l RaftNode" where
  "advance_term t n = n\<lparr> rn_persistent := ps_advance_term (rn_persistent n) t, rn_dirty := True \<rparr>"

definition record_vote :: "int \<Rightarrow> 'l RaftNode \<Rightarrow> 'l RaftNode" where
  "record_vote c n = n\<lparr> rn_persistent := ps_record_vote (rn_persistent n) c, rn_dirty := True \<rparr>"

definition send :: "int \<Rightarrow> RaftPayload \<Rightarrow> 'l RaftNode \<Rightarrow> 'l RaftNode" where
  "send to payload n =
     n\<lparr> rn_outbox := rn_outbox n @ [\<lparr> msg_from = rn_self n, msg_to = to, msg_payload = payload \<rparr>] \<rparr>"

definition clear_persistent_dirty :: "'l RaftNode \<Rightarrow> 'l RaftNode" where
  "clear_persistent_dirty n = n\<lparr> rn_dirty := False \<rparr>"

definition restore_persistent_state :: "RaftPersistentState \<Rightarrow> 'l RaftNode \<Rightarrow> 'l RaftNode" where
  "restore_persistent_state p n = n\<lparr> rn_persistent := p, rn_dirty := False \<rparr>"

definition take_messages :: "'l RaftNode \<Rightarrow> 'l RaftNode \<times> RaftMessage list" where
  "take_messages n = (n\<lparr> rn_outbox := [] \<rparr>, rn_outbox n)"


section \<open>Timers and roles\<close>

definition random_election_timeout :: "'l RaftNode \<Rightarrow> 'l RaftNode \<times> int" where
  "random_election_timeout n =
     (let lo = election_timeout_min (rn_config n); hi = election_timeout_max (rn_config n);
          span = (if hi > lo then hi - lo else 0) in
      if span > 0 then let x = next_rng (rn_rng n) in (n\<lparr> rn_rng := x \<rparr>, lo + x mod (span + 1))
      else (n, lo))"

definition reset_election_timer :: "int \<Rightarrow> 'l RaftNode \<Rightarrow> 'l RaftNode" where
  "reset_election_timer now n =
     (case random_election_timeout n of (n, ms) \<Rightarrow> n\<lparr> rn_election_deadline := now + ns ms \<rparr>)"

definition reset_heartbeat_timer :: "int \<Rightarrow> 'l RaftNode \<Rightarrow> 'l RaftNode" where
  "reset_heartbeat_timer now n = n\<lparr> rn_heartbeat_deadline := now + ns (heartbeat_interval (rn_config n)) \<rparr>"

definition become_follower :: "int \<Rightarrow> int \<Rightarrow> 'l RaftNode \<Rightarrow> 'l RaftNode" where
  "become_follower now t n =
     (let n = (if t > node_term n then advance_term t n else n) in
      reset_election_timer now
        (n\<lparr> rn_role := Follower, rn_volatile := clear_leader_progress (rn_volatile n), rn_votes := {},
            rn_transfer_target := None \<rparr>))"

definition broadcast_request_vote :: "'l log_ops \<Rightarrow> bool \<Rightarrow> 'l RaftNode \<Rightarrow> 'l RaftNode" where
  "broadcast_request_vote ops pre n =
     (let args = \<lparr> rv_term = (if pre then node_term n + 1 else node_term n), rv_candidate_id = rn_self n,
                   rv_last_log_index = op_last_index ops (rn_log n),
                   rv_last_log_term = op_last_term ops (rn_log n), rv_pre_vote = pre \<rparr> in
      fold (\<lambda>peer. send peer (RequestVote args)) (filter (is_voter n) (rn_peers n)) n)"

definition send_snapshot_to :: "'l log_ops \<Rightarrow> int \<Rightarrow> 'l RaftNode \<Rightarrow> 'l RaftNode" where
  "send_snapshot_to ops peer n =
     (let l = rn_log n;
          snapshot = \<lparr> sn_last_included_index = op_snapshot_index ops l, sn_last_included_term = op_snapshot_term ops l,
                       sn_last_included_offset = op_snapshot_last_offset ops l, sn_state = [] \<rparr> in
      send peer (InstallSnapshot \<lparr> is_term = node_term n, is_leader_id = rn_self n, is_snapshot = snapshot \<rparr>)
        (n\<lparr> rn_last_sent := (rn_last_sent n)(peer \<mapsto> op_snapshot_index ops l) \<rparr>))"

definition replicate_to :: "'l log_ops \<Rightarrow> int \<Rightarrow> 'l RaftNode \<Rightarrow> 'l RaftNode" where
  "replicate_to ops peer n =
     (if next_index (rn_volatile n) peer \<le> op_snapshot_index ops (rn_log n) then send_snapshot_to ops peer n
      else let nxt = next_index (rn_volatile n) peer;
               prev_index = nxt - 1;
               payload = (case op_entries_from ops (rn_log n) nxt kMaxEntriesPerAppend of Inl _ \<Rightarrow> [] | Inr es \<Rightarrow> es) in
        send peer (AppendEntries
            \<lparr> ae_term = node_term n, ae_leader_id = rn_self n, ae_prev_log_index = prev_index,
              ae_prev_log_term = (case op_term_at ops (rn_log n) prev_index of Inl _ \<Rightarrow> 0 | Inr t \<Rightarrow> t),
              ae_entries = payload, ae_leader_commit = commit_index (rn_volatile n),
              ae_leader_epoch = rn_leader_epoch n \<rparr>)
          (n\<lparr> rn_last_sent := (rn_last_sent n)(peer \<mapsto> (if payload = [] then prev_index else le_index (last payload))) \<rparr>))"

definition replicate_all :: "'l log_ops \<Rightarrow> 'l RaftNode \<Rightarrow> 'l RaftNode" where
  "replicate_all ops n = fold (replicate_to ops) (rn_peers n) n"

text \<open>
  The match indices of the voters; the entry at half of the descending order is on a majority.  With no
  voter at all the source reads past the end of an empty vector; a leader is a voter.
\<close>

definition voter_matches :: "'l log_ops \<Rightarrow> 'l RaftNode \<Rightarrow> int list" where
  "voter_matches ops n =
     (if is_voter n (rn_self n) then [op_last_index ops (rn_log n)] else []) @
     map (match_index (rn_volatile n)) (filter (is_voter n) (rn_peers n))"

definition advance_commit_index :: "'l log_ops \<Rightarrow> 'l RaftNode \<Rightarrow> 'l RaftNode" where
  "advance_commit_index ops n =
     (let matches = rev (sort (voter_matches ops n));
          candidate = matches ! (length matches div 2) in
      if candidate \<le> commit_index (rn_volatile n) then n
      else if op_term_at ops (rn_log n) candidate = Inr (node_term n)
      then n\<lparr> rn_volatile := (rn_volatile n)\<lparr> commit_index := candidate \<rparr> \<rparr>
      else n)"

definition maybe_transfer_to :: "'l log_ops \<Rightarrow> int \<Rightarrow> 'l RaftNode \<Rightarrow> 'l RaftNode" where
  "maybe_transfer_to ops peer n =
     (if rn_transfer_target n \<noteq> Some peer then n
      else if match_index (rn_volatile n) peer \<ge> op_last_index ops (rn_log n)
      then (send peer (TimeoutNow \<lparr> tn_term = node_term n, tn_leader_id = rn_self n \<rparr>) n)\<lparr> rn_transfer_target := None \<rparr>
      else replicate_to ops peer n)"

definition become_leader :: "'l log_ops \<Rightarrow> int \<Rightarrow> 'l RaftNode \<Rightarrow> 'l RaftNode" where
  "become_leader ops now n =
     replicate_all ops (reset_heartbeat_timer now
       (n\<lparr> rn_role := Leader, rn_leader_id := Some (rn_self n), rn_leader_epoch := rn_leader_epoch n + 1,
           rn_volatile := reset_leader_progress (rn_volatile n) (rn_peers n) (op_last_index ops (rn_log n)),
           rn_last_sent := Map.empty, rn_transfer_target := None \<rparr>))"

definition become_candidate :: "'l log_ops \<Rightarrow> int \<Rightarrow> 'l RaftNode \<Rightarrow> 'l RaftNode" where
  "become_candidate ops now n =
     (let n = record_vote (rn_self n) (advance_term (node_term n + 1) n);
          n = reset_election_timer now (n\<lparr> rn_role := Candidate, rn_leader_id := None, rn_votes := {rn_self n} \<rparr>) in
      if has_majority n (card (rn_votes n)) then become_leader ops now n
      else broadcast_request_vote ops False n)"

definition start_pre_election :: "'l log_ops \<Rightarrow> int \<Rightarrow> 'l RaftNode \<Rightarrow> 'l RaftNode" where
  "start_pre_election ops now n =
     (let n = reset_election_timer now (n\<lparr> rn_role := PreCandidate, rn_leader_id := None, rn_votes := {rn_self n} \<rparr>) in
      if has_majority n (card (rn_votes n)) then become_candidate ops now n
      else broadcast_request_vote ops True n)"


section \<open>Inputs\<close>

definition tick :: "'l log_ops \<Rightarrow> int \<Rightarrow> 'l RaftNode \<Rightarrow> 'l RaftNode" where
  "tick ops now n =
     (if \<not> rn_started n then reset_election_timer now (n\<lparr> rn_started := True \<rparr>)
      else if rn_role n = Leader then
        (if now \<ge> rn_heartbeat_deadline n then replicate_all ops (reset_heartbeat_timer now n) else n)
      else if now \<ge> rn_election_deadline n \<and> is_voter n (rn_self n) then start_pre_election ops now n
      else n)"

definition log_is_up_to_date :: "'l log_ops \<Rightarrow> 'l RaftNode \<Rightarrow> int \<Rightarrow> int \<Rightarrow> bool" where
  "log_is_up_to_date ops n last_log_index last_log_term \<longleftrightarrow>
     (let my_last_term = op_last_term ops (rn_log n) in
      if last_log_term \<noteq> my_last_term then last_log_term > my_last_term
      else last_log_index \<ge> op_last_index ops (rn_log n))"

definition make_pre_vote_reply :: "'l log_ops \<Rightarrow> int \<Rightarrow> RequestVoteArgs \<Rightarrow> 'l RaftNode \<Rightarrow> RequestVoteReply" where
  "make_pre_vote_reply ops now args n =
     (let reply = \<lparr> vr_term = node_term n, vr_vote_granted = False \<rparr> in
      if rv_term args < node_term n then reply
      else if rn_role n = Leader then reply
      else if now - rn_last_leader_contact n < ns (election_timeout_min (rn_config n)) then reply
      else if log_is_up_to_date ops n (rv_last_log_index args) (rv_last_log_term args)
      then reply\<lparr> vr_vote_granted := True \<rparr> else reply)"

definition on_request_vote ::
  "'l log_ops \<Rightarrow> int \<Rightarrow> RequestVoteArgs \<Rightarrow> 'l RaftNode \<Rightarrow> 'l RaftNode \<times> RequestVoteReply" where
  "on_request_vote ops now args n =
     (if rv_pre_vote args then (n, make_pre_vote_reply ops now args n)
      else let n = (if rv_term args > node_term n then become_follower now (rv_term args) n else n);
               reply = \<lparr> vr_term = node_term n, vr_vote_granted = False \<rparr> in
        if rv_term args < node_term n then (n, reply)
        else if (voted_for (rn_persistent n) = None \<or> voted_for (rn_persistent n) = Some (rv_candidate_id args)) \<and>
                log_is_up_to_date ops n (rv_last_log_index args) (rv_last_log_term args)
        then let n = reset_election_timer now (record_vote (rv_candidate_id args) n) in
             (n, \<lparr> vr_term = node_term n, vr_vote_granted = True \<rparr>)
        else (n, reply))"

definition on_request_vote_reply ::
  "'l log_ops \<Rightarrow> int \<Rightarrow> int \<Rightarrow> RequestVoteReply \<Rightarrow> 'l RaftNode \<Rightarrow> 'l RaftNode" where
  "on_request_vote_reply ops now from reply n =
     (if vr_term reply > node_term n then become_follower now (vr_term reply) n
      else if rn_role n = PreCandidate then
        (if vr_term reply = node_term n \<and> vr_vote_granted reply \<and> is_voter n from then
           let n = n\<lparr> rn_votes := insert from (rn_votes n) \<rparr> in
           if has_majority n (card (rn_votes n)) then become_candidate ops now n else n
         else n)
      else if rn_role n \<noteq> Candidate \<or> vr_term reply \<noteq> node_term n then n
      else if vr_vote_granted reply \<and> is_voter n from then
        let n = n\<lparr> rn_votes := insert from (rn_votes n) \<rparr> in
        if has_majority n (card (rn_votes n)) then become_leader ops now n else n
      else n)"

text \<open>
  The loop of \<^verbatim>\<open>append_entries_from\<close>: entries already present are skipped; from the first that is
  missing, or that conflicts and is cut off first, the rest is appended.
\<close>

definition append_suffix :: "'l log_ops \<Rightarrow> 'l \<Rightarrow> RaftLogEntry list \<Rightarrow> 'l \<times> bool" where
  "append_suffix ops l es = (case op_append ops l es of (l, Inl _) \<Rightarrow> (l, False) | (l, Inr _) \<Rightarrow> (l, True))"

fun append_entries_from :: "'l log_ops \<Rightarrow> 'l \<Rightarrow> RaftLogEntry list \<Rightarrow> 'l \<times> bool" where
  "append_entries_from ops l [] = (l, True)"
| "append_entries_from ops l (e # es) =
     (if le_index e > op_last_index ops l then append_suffix ops l (e # es)
      else if op_term_at ops l (le_index e) = Inr (le_term e) then append_entries_from ops l es
      else case op_truncate_from ops l (le_index e) of
          (l, Inl _) \<Rightarrow> (l, False)
        | (l, Inr _) \<Rightarrow> append_suffix ops l (e # es))"

definition accept_leader :: "int \<Rightarrow> int \<Rightarrow> int \<Rightarrow> 'l RaftNode \<Rightarrow> 'l RaftNode" where
  "accept_leader now t leader n =
     (let n = (if t > node_term n \<or> rn_role n \<noteq> Follower then become_follower now t n else n) in
      (reset_election_timer now (n\<lparr> rn_leader_id := Some leader \<rparr>))\<lparr> rn_last_leader_contact := now \<rparr>)"

definition on_append_entries ::
  "'l log_ops \<Rightarrow> int \<Rightarrow> AppendEntriesArgs \<Rightarrow> 'l RaftNode \<Rightarrow> 'l RaftNode \<times> AppendEntriesReply" where
  "on_append_entries ops now args n =
     (if ae_term args < node_term n
      then (n, \<lparr> ar_term = node_term n, ar_success = False, ar_conflict_index = 0 \<rparr>)
      else
        let n = accept_leader now (ae_term args) (ae_leader_id args) n;
            reply = \<lparr> ar_term = node_term n, ar_success = False, ar_conflict_index = 0 \<rparr>;
            last_idx = op_last_index ops (rn_log n) in
        if ae_prev_log_index args > last_idx then (n, reply\<lparr> ar_conflict_index := last_idx + 1 \<rparr>)
        else case op_term_at ops (rn_log n) (ae_prev_log_index args) of
            Inl _ \<Rightarrow> (n, reply\<lparr> ar_conflict_index := last_idx + 1 \<rparr>)
          | Inr prev_term \<Rightarrow>
              if prev_term \<noteq> ae_prev_log_term args then (n, reply\<lparr> ar_conflict_index := ae_prev_log_index args \<rparr>)
              else (case append_entries_from ops (rn_log n) (ae_entries args) of
                  (l, False) \<Rightarrow> (n\<lparr> rn_log := l \<rparr>, reply)
                | (l, True) \<Rightarrow>
                    let n = n\<lparr> rn_log := l \<rparr>;
                        n = (if ae_leader_commit args > commit_index (rn_volatile n)
                             then n\<lparr> rn_volatile := (rn_volatile n)\<lparr> commit_index :=
                                       min (ae_leader_commit args) (op_last_index ops (rn_log n)) \<rparr> \<rparr>
                             else n) in
                    (n, reply\<lparr> ar_success := True \<rparr>)))"

definition record_match :: "'l log_ops \<Rightarrow> int \<Rightarrow> 'l RaftNode \<Rightarrow> 'l RaftNode" where
  "record_match ops from n =
     (let matched = (case rn_last_sent n from of None \<Rightarrow> 0 | Some i \<Rightarrow> i);
          v = set_match_index (rn_volatile n) from (max (match_index (rn_volatile n) from) matched);
          v = set_next_index v from (match_index v from + 1) in
      advance_commit_index ops
        (n\<lparr> rn_last_sent := (rn_last_sent n)(from \<mapsto> matched), rn_volatile := v \<rparr>))"

definition on_append_entries_reply ::
  "'l log_ops \<Rightarrow> int \<Rightarrow> int \<Rightarrow> AppendEntriesReply \<Rightarrow> 'l RaftNode \<Rightarrow> 'l RaftNode" where
  "on_append_entries_reply ops now from reply n =
     (if ar_term reply > node_term n then become_follower now (ar_term reply) n
      else if rn_role n \<noteq> Leader \<or> ar_term reply \<noteq> node_term n then n
      else if ar_success reply then maybe_transfer_to ops from (record_match ops from n)
      else let hint = (if ar_conflict_index reply > 0 then ar_conflict_index reply
                       else next_index (rn_volatile n) from - 1) in
        replicate_to ops from (n\<lparr> rn_volatile := set_next_index (rn_volatile n) from (max 1 hint) \<rparr>))"

definition propose :: "'l log_ops \<Rightarrow> RecordBatch \<Rightarrow> 'l RaftNode \<Rightarrow> 'l RaftNode \<times> int expected" where
  "propose ops batch n =
     (if rn_role n \<noteq> Leader then (n, Inl Unsupported)
      else let entry = \<lparr> le_term = node_term n, le_index = op_last_index ops (rn_log n) + 1, le_type = Data,
                         le_payload = encode batch \<rparr> in
        (case op_append ops (rn_log n) [entry] of
           (l, Inl e) \<Rightarrow> (n\<lparr> rn_log := l \<rparr>, Inl e)
         | (l, Inr i) \<Rightarrow> (advance_commit_index ops (replicate_all ops (n\<lparr> rn_log := l \<rparr>)), Inr i)))"

definition transfer_leadership :: "'l log_ops \<Rightarrow> int \<Rightarrow> 'l RaftNode \<Rightarrow> 'l RaftNode \<times> unit expected" where
  "transfer_leadership ops target n =
     (if rn_role n \<noteq> Leader then (n, Inl Unsupported)
      else if target \<notin> set (rn_peers n) then (n, Inl InvalidArgument)
      else if \<not> is_voter n target then (n, Inl InvalidArgument)
      else (maybe_transfer_to ops target (n\<lparr> rn_transfer_target := Some target \<rparr>), Inr ()))"

definition on_timeout_now :: "'l log_ops \<Rightarrow> int \<Rightarrow> TimeoutNowArgs \<Rightarrow> 'l RaftNode \<Rightarrow> 'l RaftNode" where
  "on_timeout_now ops now args n =
     (if tn_term args < node_term n \<or> \<not> is_voter n (rn_self n) then n
      else become_candidate ops now
             (if tn_term args > node_term n then become_follower now (tn_term args) n else n))"

definition on_install_snapshot ::
  "'l log_ops \<Rightarrow> int \<Rightarrow> InstallSnapshotArgs \<Rightarrow> 'l RaftNode \<Rightarrow> 'l RaftNode \<times> InstallSnapshotReply" where
  "on_install_snapshot ops now args n =
     (if is_term args < node_term n then (n, \<lparr> ir_term = node_term n \<rparr>)
      else let n = accept_leader now (is_term args) (is_leader_id args) n;
               reply = \<lparr> ir_term = node_term n \<rparr>;
               s = is_snapshot args in
        (case op_install_snapshot ops (rn_log n) (sn_last_included_index s) (sn_last_included_term s)
               (sn_last_included_offset s) of
           (l, Inl _) \<Rightarrow> (n\<lparr> rn_log := l \<rparr>, reply)
         | (l, Inr _) \<Rightarrow>
             let n = n\<lparr> rn_log := l \<rparr> in
             (if sn_last_included_index s > commit_index (rn_volatile n)
              then n\<lparr> rn_volatile := (rn_volatile n)\<lparr> commit_index := sn_last_included_index s \<rparr> \<rparr>
              else n, reply)))"

definition on_install_snapshot_reply ::
  "'l log_ops \<Rightarrow> int \<Rightarrow> int \<Rightarrow> InstallSnapshotReply \<Rightarrow> 'l RaftNode \<Rightarrow> 'l RaftNode" where
  "on_install_snapshot_reply ops now from reply n =
     (if ir_term reply > node_term n then become_follower now (ir_term reply) n
      else if rn_role n \<noteq> Leader \<or> ir_term reply \<noteq> node_term n then n
      else replicate_to ops from (record_match ops from n))"


section \<open>What the steps leave alone\<close>

text \<open>\<open>same_core n n'\<close>: identity, members, log, term and vote, role, votes and commit index are those of \<open>n\<close>.\<close>

definition same_members :: "'l RaftNode \<Rightarrow> 'l RaftNode \<Rightarrow> bool" where
  "same_members n n' \<longleftrightarrow> rn_self n' = rn_self n \<and> rn_peers n' = rn_peers n \<and> rn_learners n' = rn_learners n"

definition same_core :: "'l RaftNode \<Rightarrow> 'l RaftNode \<Rightarrow> bool" where
  "same_core n n' \<longleftrightarrow> same_members n n' \<and> rn_log n' = rn_log n \<and> rn_persistent n' = rn_persistent n \<and>
     rn_dirty n' = rn_dirty n \<and> rn_role n' = rn_role n \<and> rn_votes n' = rn_votes n \<and>
     rn_volatile n' = rn_volatile n \<and> rn_leader_id n' = rn_leader_id n"

lemma same_members_refl [simp]: "same_members n n"
  by (simp add: same_members_def)

lemma same_members_trans: "same_members n n1 \<Longrightarrow> same_members n1 n2 \<Longrightarrow> same_members n n2"
  by (simp add: same_members_def)

lemma same_core_refl [simp]: "same_core n n"
  by (simp add: same_core_def)

lemma same_core_trans: "same_core n n1 \<Longrightarrow> same_core n1 n2 \<Longrightarrow> same_core n n2"
  by (simp add: same_core_def same_members_def)

lemma same_coreD:
  assumes "same_core n n'"
  shows "rn_self n' = rn_self n" "rn_peers n' = rn_peers n" "rn_learners n' = rn_learners n"
    "rn_log n' = rn_log n" "rn_persistent n' = rn_persistent n" "rn_dirty n' = rn_dirty n"
    "rn_role n' = rn_role n" "rn_votes n' = rn_votes n" "rn_volatile n' = rn_volatile n"
    "rn_leader_id n' = rn_leader_id n"
  using assms by (simp_all add: same_core_def same_members_def)

lemma same_core_fold: "(\<And>x n. same_core n (f x n)) \<Longrightarrow> same_core n (fold f xs n)"
proof (induction xs arbitrary: n)
  case (Cons x xs)
  then show ?case using same_core_trans [of n "f x n"] by simp
qed simp

lemma same_core_steps:
  "same_core n (reset_election_timer now n)" "same_core n (reset_heartbeat_timer now n)"
  "same_core n (send to p n)" "same_core n (broadcast_request_vote ops pre n)"
  "same_core n (send_snapshot_to ops peer n)" "same_core n (replicate_to ops peer n)"
  "same_core n (replicate_all ops n)" "same_core n (maybe_transfer_to ops peer n)"
proof -
  show s: "same_core n (send to p n)" for to p and n :: "'a RaftNode"
    by (simp add: same_core_def same_members_def send_def)
  show ss: "same_core n (send_snapshot_to ops peer n)" for peer and n :: "'a RaftNode"
    by (simp add: same_core_def same_members_def send_snapshot_to_def send_def Let_def)
  show r: "same_core n (replicate_to ops peer n)" for peer and n :: "'a RaftNode"
    using ss by (simp add: same_core_def same_members_def replicate_to_def send_def Let_def)
  show "same_core n (broadcast_request_vote ops pre n)"
    unfolding broadcast_request_vote_def Let_def by (rule same_core_fold) (rule s)
  show "same_core n (replicate_all ops n)"
    unfolding replicate_all_def by (rule same_core_fold) (rule r)
  show "same_core n (maybe_transfer_to ops peer n)"
    using r s by (auto simp: maybe_transfer_to_def) (simp add: same_core_def same_members_def send_def)
qed (auto simp: same_core_def same_members_def reset_election_timer_def reset_heartbeat_timer_def
    random_election_timeout_def Let_def)

lemmas node_frames [simp] =
  same_coreD [OF same_core_steps(1)] same_coreD [OF same_core_steps(2)] same_coreD [OF same_core_steps(4)]
  same_coreD [OF same_core_steps(6)] same_coreD [OF same_core_steps(7)] same_coreD [OF same_core_steps(8)]

lemma members_cong:
  assumes "same_members n n'"
  shows "is_voter n' = is_voter n" "cluster_size n' = cluster_size n" "has_majority n' = has_majority n"
proof -
  show v: "is_voter n' = is_voter n" using assms by (simp add: fun_eq_iff is_voter_def same_members_def)
  then show c: "cluster_size n' = cluster_size n" using assms by (simp add: cluster_size_def same_members_def)
  then show "has_majority n' = has_majority n" by (simp add: fun_eq_iff has_majority_def)
qed

lemma become_follower_core:
  "same_members n (become_follower now t n)" "rn_log (become_follower now t n) = rn_log n"
  "rn_role (become_follower now t n) = Follower" "rn_votes (become_follower now t n) = {}"
  "rn_persistent (become_follower now t n) =
     (if t > node_term n then \<lparr> current_term = t, voted_for = None \<rparr> else rn_persistent n)"
  "rn_dirty (become_follower now t n) = (rn_dirty n \<or> t > node_term n)"
  "commit_index (rn_volatile (become_follower now t n)) = commit_index (rn_volatile n)"
  by (auto simp: become_follower_def Let_def same_members_def advance_term_def ps_advance_term_def)

lemma become_leader_core:
  "same_members n (become_leader ops now n)" "rn_log (become_leader ops now n) = rn_log n"
  "rn_role (become_leader ops now n) = Leader" "rn_votes (become_leader ops now n) = rn_votes n"
  "rn_persistent (become_leader ops now n) = rn_persistent n" "rn_dirty (become_leader ops now n) = rn_dirty n"
  "commit_index (rn_volatile (become_leader ops now n)) = commit_index (rn_volatile n)"
  by (simp_all add: become_leader_def same_members_def)

lemma become_candidate_core:
  defines "m \<equiv> \<lambda>n :: 'l RaftNode. has_majority n 1"
  shows "same_members n (become_candidate ops now n)" "rn_log (become_candidate ops now n) = rn_log n"
    "rn_role (become_candidate ops now n) = (if m n then Leader else Candidate)"
    "rn_votes (become_candidate ops now n) = {rn_self n}"
    "rn_persistent (become_candidate ops now n) = \<lparr> current_term = node_term n + 1, voted_for = Some (rn_self n) \<rparr>"
    "rn_dirty (become_candidate ops now n)"
    "commit_index (rn_volatile (become_candidate ops now n)) = commit_index (rn_volatile n)"
proof -
  let ?n = "reset_election_timer now ((record_vote (rn_self n) (advance_term (node_term n + 1) n))
    \<lparr> rn_role := Candidate, rn_leader_id := None, rn_votes := {rn_self n} \<rparr>)"
  have c: "same_members n ?n" "rn_log ?n = rn_log n" "rn_role ?n = Candidate" "rn_votes ?n = {rn_self n}"
    "rn_persistent ?n = \<lparr> current_term = node_term n + 1, voted_for = Some (rn_self n) \<rparr>" "rn_dirty ?n"
    "rn_volatile ?n = rn_volatile n"
    by (simp_all add: same_members_def record_vote_def advance_term_def ps_record_vote_def ps_advance_term_def)
  have d: "become_candidate ops now n = (if m n then become_leader ops now ?n else broadcast_request_vote ops False ?n)"
    using members_cong(3) [OF c(1)] unfolding become_candidate_def Let_def m_def by (simp add: record_vote_def advance_term_def)
  have l: "same_members n (become_leader ops now ?n)" using c(1) become_leader_core(1) [where n = ?n] by (rule same_members_trans)
  have b: "same_members n (broadcast_request_vote ops False ?n)" using c(1) by (simp add: same_members_def)
  show "same_members n (become_candidate ops now n)" "rn_log (become_candidate ops now n) = rn_log n"
    "rn_role (become_candidate ops now n) = (if m n then Leader else Candidate)"
    "rn_votes (become_candidate ops now n) = {rn_self n}"
    "rn_persistent (become_candidate ops now n) = \<lparr> current_term = node_term n + 1, voted_for = Some (rn_self n) \<rparr>"
    "rn_dirty (become_candidate ops now n)"
    "commit_index (rn_volatile (become_candidate ops now n)) = commit_index (rn_volatile n)"
    unfolding d using l b c become_leader_core [where n = ?n] by simp_all
qed


text \<open>Replication sends one message to each peer and notes the last index it carries.\<close>

definition replication_payload :: "'l log_ops \<Rightarrow> 'l RaftNode \<Rightarrow> int \<Rightarrow> RaftPayload" where
  "replication_payload ops n peer = msg_payload (last (rn_outbox (replicate_to ops peer n)))"

definition sent_index :: "'l log_ops \<Rightarrow> 'l \<Rightarrow> int \<Rightarrow> int" where
  "sent_index ops l nxt =
     (if nxt \<le> op_snapshot_index ops l then op_snapshot_index ops l
      else case op_entries_from ops l nxt kMaxEntriesPerAppend of
          Inl _ \<Rightarrow> nxt - 1 | Inr es \<Rightarrow> if es = [] then nxt - 1 else le_index (last es))"

lemma replicate_to_effect:
  "rn_last_sent (replicate_to ops peer n) = (rn_last_sent n)(peer \<mapsto> sent_index ops (rn_log n) (next_index (rn_volatile n) peer))"
  "rn_outbox (replicate_to ops peer n) = rn_outbox n @ [\<lparr> msg_from = rn_self n, msg_to = peer, msg_payload = replication_payload ops n peer \<rparr>]"
  by (auto simp: replication_payload_def replicate_to_def send_snapshot_to_def send_def sent_index_def Let_def split: sum.splits)

lemma replicate_to_leader_epoch [simp]: "rn_leader_epoch (replicate_to ops peer n) = rn_leader_epoch n"
  by (simp add: replicate_to_def send_snapshot_to_def send_def Let_def)

lemma replication_payload_cong [simp]:
  "replication_payload ops (replicate_to ops q n) peer = replication_payload ops n peer"
  by (simp add: replication_payload_def replicate_to_def [of ops peer] send_snapshot_to_def send_def Let_def)

lemma replicate_fold_effect:
  "rn_outbox (fold (replicate_to ops) ps n) =
     rn_outbox n @ map (\<lambda>p. \<lparr> msg_from = rn_self n, msg_to = p, msg_payload = replication_payload ops n p \<rparr>) ps"
  "rn_last_sent (fold (replicate_to ops) ps n) p =
     (if p \<in> set ps then Some (sent_index ops (rn_log n) (next_index (rn_volatile n) p)) else rn_last_sent n p)"
  by (induction ps arbitrary: n) (simp_all add: replicate_to_effect)

lemmas replicate_all_effect = replicate_fold_effect [of ops "rn_peers n" n for ops n, folded replicate_all_def]


section \<open>Terms, votes and roles\<close>

text \<open>Only a voter leaves the role of follower, and a candidate or leader has voted for itself.\<close>

definition node_inv :: "'l RaftNode \<Rightarrow> bool" where
  "node_inv n \<longleftrightarrow> (rn_role n \<noteq> Follower \<longrightarrow> is_voter n (rn_self n)) \<and>
     (rn_role n = Candidate \<or> rn_role n = Leader \<longrightarrow> voted_for (rn_persistent n) = Some (rn_self n))"

text \<open>
  What one input may do to a replica: the term grows or the vote in it is kept, a change is marked
  dirty, and the role follows the transitions of \<^verbatim>\<open>raft_state.hpp\<close>: back to follower, to the pre-vote,
  unchanged with its votes, or to an election that starts with the own vote.
\<close>

definition evolves :: "'l RaftNode \<Rightarrow> 'l RaftNode \<Rightarrow> bool" where
  "evolves n n' \<longleftrightarrow> same_members n n' \<and> node_inv n' \<and> persistent_le (rn_persistent n) (rn_persistent n') \<and>
     (rn_dirty n \<or> rn_persistent n' \<noteq> rn_persistent n \<longrightarrow> rn_dirty n') \<and>
     (rn_role n' = Follower \<or> rn_role n' = PreCandidate \<or>
      rn_role n' = rn_role n \<and> rn_persistent n' = rn_persistent n \<and> rn_votes n' = rn_votes n \<or>
      node_term n < node_term n' \<and> rn_votes n' = {rn_self n} \<and> (rn_role n' = Leader \<longrightarrow> has_majority n 1))"

lemma evolves_refl: "node_inv n \<Longrightarrow> evolves n n"
  by (simp add: evolves_def)

lemma evolves_core:
  assumes "node_inv n" "same_members n n'" "rn_persistent n' = rn_persistent n" "rn_dirty n \<longrightarrow> rn_dirty n'"
    "rn_role n' = rn_role n" "rn_votes n' = rn_votes n"
  shows "evolves n n'"
  using assms members_cong [OF assms(2)] by (auto simp: evolves_def node_inv_def same_members_def)

lemma evolves_same_core: "node_inv n \<Longrightarrow> same_core n n' \<Longrightarrow> evolves n n'"
  by (rule evolves_core) (simp_all add: same_core_def)

lemma evolves_follower: "evolves n (become_follower now t n)"
  by (simp add: evolves_def become_follower_core node_inv_def persistent_le_def)

lemma evolves_candidate: "is_voter n (rn_self n) \<Longrightarrow> evolves n (become_candidate ops now n)"
  using members_cong [OF become_candidate_core(1) [of n ops now]] become_candidate_core(1) [of n ops now]
  by (auto simp: evolves_def become_candidate_core(2-) node_inv_def persistent_le_def same_members_def)

lemma evolves_pre_election:
  assumes "is_voter n (rn_self n)" shows "evolves n (start_pre_election ops now n)"
proof -
  let ?n = "reset_election_timer now (n\<lparr> rn_role := PreCandidate, rn_leader_id := None, rn_votes := {rn_self n} \<rparr>)"
  have m: "same_members n ?n" by (simp add: same_members_def)
  note c = members_cong [OF m]
  have v: "is_voter ?n (rn_self ?n)" using c(1) assms by simp
  show ?thesis
  proof (cases "has_majority ?n (card (rn_votes ?n))")
    case True
    then have d: "start_pre_election ops now n = become_candidate ops now ?n"
      by (simp add: start_pre_election_def Let_def)
    have "evolves ?n (become_candidate ops now ?n)" using v by (rule evolves_candidate)
    then show ?thesis unfolding d using m c
      by (auto simp: evolves_def become_candidate_core(2-) same_members_def)
  next
    case False
    then have "start_pre_election ops now n = broadcast_request_vote ops True ?n"
      by (simp add: start_pre_election_def Let_def)
    moreover have "same_members n (broadcast_request_vote ops True ?n)" using m by (simp add: same_members_def)
    ultimately show ?thesis using assms members_cong(1) [of n "broadcast_request_vote ops True ?n"]
      by (simp add: evolves_def node_inv_def)
  qed
qed

lemma evolves_advance_commit: "node_inv n \<Longrightarrow> evolves n (advance_commit_index ops n)"
  by (rule evolves_core) (simp_all add: advance_commit_index_def Let_def same_members_def)

lemma evolves_tick: "node_inv n \<Longrightarrow> evolves n (tick ops now n)"
proof -
  assume i: "node_inv n"
  have a: "evolves n (reset_election_timer now (n\<lparr>rn_started := True\<rparr>))"
    using i by (rule evolves_core) (simp_all add: same_members_def)
  have b: "evolves n (replicate_all ops (reset_heartbeat_timer now n))"
    using i by (rule evolves_core) (simp_all add: same_members_def)
  show ?thesis
    using a b i evolves_pre_election [of n ops now] evolves_refl [of n] by (simp add: tick_def)
qed

lemma evolves_request_vote:
  assumes "node_inv n" shows "evolves n (fst (on_request_vote ops now args n))"
proof (cases "rv_pre_vote args")
  case True
  then show ?thesis using evolves_refl [OF assms] by (simp add: on_request_vote_def)
next
  case False
  define n1 where "n1 = (if rv_term args > node_term n then become_follower now (rv_term args) n else n)"
  have e1: "evolves n n1" using assms evolves_refl evolves_follower by (auto simp: n1_def)
  have f1: "rv_term args > node_term n \<Longrightarrow> rn_role n1 = Follower" by (simp add: n1_def become_follower_core)
  let ?ok = "(voted_for (rn_persistent n1) = None \<or> voted_for (rn_persistent n1) = Some (rv_candidate_id args)) \<and>
      log_is_up_to_date ops n1 (rv_last_log_index args) (rv_last_log_term args)"
  let ?n2 = "reset_election_timer now (record_vote (rv_candidate_id args) n1)"
  have r: "fst (on_request_vote ops now args n) = (if rv_term args < node_term n1 then n1 else if ?ok then ?n2 else n1)"
    using False by (simp add: on_request_vote_def n1_def [symmetric] Let_def)
  have i1: "node_inv n1" using e1 by (simp add: evolves_def)
  have "evolves n ?n2" if "?ok"
  proof -
    have m: "same_members n1 ?n2" by (simp add: same_members_def record_vote_def)
    have p: "rn_persistent ?n2 = \<lparr> current_term = node_term n1, voted_for = Some (rv_candidate_id args) \<rparr>"
      by (simp add: record_vote_def ps_record_vote_def)
    have q: "rn_role ?n2 = rn_role n1" "rn_votes ?n2 = rn_votes n1" "rn_dirty ?n2" by (simp_all add: record_vote_def)
    have s: "rn_persistent ?n2 = rn_persistent n1" if "voted_for (rn_persistent n1) \<noteq> None"
      using that \<open>?ok\<close> p by (cases "rn_persistent n1") auto
    have "node_inv ?n2" using i1 m q p members_cong(1) [OF m] \<open>?ok\<close> by (auto simp: node_inv_def same_members_def)
    moreover have "rn_role n1 = Candidate \<or> rn_role n1 = Leader \<Longrightarrow> rn_persistent ?n2 = rn_persistent n1"
      using i1 s by (auto simp: node_inv_def)
    moreover have "persistent_le (rn_persistent n1) (rn_persistent ?n2)"
      using p \<open>?ok\<close> by (auto simp: persistent_le_def)
    moreover have "node_term ?n2 = node_term n1" using p by simp
    ultimately show ?thesis
      using e1 q same_members_trans [OF _ m] unfolding evolves_def
      by (cases "rn_role n1") (auto intro: persistent_le_trans)
  qed
  then show ?thesis using r e1 by simp
qed

lemma evolves_accept_leader: "evolves n (accept_leader now t leader n)"
  "rn_log (accept_leader now t leader n) = rn_log n" "rn_role (accept_leader now t leader n) = Follower"
  "commit_index (rn_volatile (accept_leader now t leader n)) = commit_index (rn_volatile n)"
  "node_term (accept_leader now t leader n) = max t (node_term n)"
proof -
  let ?n = "if t > node_term n \<or> rn_role n \<noteq> Follower then become_follower now t n else n"
  let ?n' = "accept_leader now t leader n"
  have f: "rn_role ?n = Follower" by (simp add: become_follower_core)
  have c: "same_members ?n ?n'" "rn_persistent ?n' = rn_persistent ?n" "rn_dirty ?n' = rn_dirty ?n" "rn_role ?n' = Follower"
    using f by (simp_all add: accept_leader_def Let_def same_members_def)
  have "evolves n ?n" using evolves_follower [of n now t] by (auto simp: evolves_def node_inv_def)
  with c show "evolves n ?n'" using same_members_trans [OF _ c(1)] by (simp add: evolves_def node_inv_def)
  show "rn_log ?n' = rn_log n" "rn_role ?n' = Follower" "commit_index (rn_volatile ?n') = commit_index (rn_volatile n)"
    "node_term ?n' = max t (node_term n)"
    by (auto simp: accept_leader_def Let_def become_follower_core)
qed


lemma evolves_after_accept:
  assumes "same_members (accept_leader now t leader n) n'" "rn_persistent n' = rn_persistent (accept_leader now t leader n)"
    "rn_dirty n' = rn_dirty (accept_leader now t leader n)" "rn_role n' = Follower"
  shows "evolves n n'"
  using evolves_accept_leader(1) [of n now t leader] assms same_members_trans [OF _ assms(1)]
  by (simp add: evolves_def node_inv_def)

lemma evolves_append_entries:
  assumes "node_inv n" shows "evolves n (fst (on_append_entries ops now args n))"
proof (cases "ae_term args < node_term n")
  case True
  then show ?thesis using evolves_refl [OF assms] by (simp add: on_append_entries_def)
next
  case False
  let ?n = "accept_leader now (ae_term args) (ae_leader_id args) n"
  obtain n' r where r: "on_append_entries ops now args n = (n', r)" by fastforce
  have "same_members ?n n' \<and> rn_persistent n' = rn_persistent ?n \<and> rn_dirty n' = rn_dirty ?n \<and> rn_role n' = Follower"
    using r False evolves_accept_leader(3) [of now "ae_term args" "ae_leader_id args" n]
    by (auto simp: on_append_entries_def Let_def same_members_def split: if_splits sum.splits prod.splits bool.splits)
  then show ?thesis using r evolves_after_accept [of now "ae_term args" "ae_leader_id args" n n'] by simp
qed

lemma evolves_install_snapshot:
  assumes "node_inv n" shows "evolves n (fst (on_install_snapshot ops now args n))"
proof (cases "is_term args < node_term n")
  case True
  then show ?thesis using evolves_refl [OF assms] by (simp add: on_install_snapshot_def)
next
  case False
  let ?n = "accept_leader now (is_term args) (is_leader_id args) n"
  obtain n' r where r: "on_install_snapshot ops now args n = (n', r)" by fastforce
  have "same_members ?n n' \<and> rn_persistent n' = rn_persistent ?n \<and> rn_dirty n' = rn_dirty ?n \<and> rn_role n' = Follower"
    using r False evolves_accept_leader(3) [of now "is_term args" "is_leader_id args" n]
    by (auto simp: on_install_snapshot_def Let_def same_members_def split: if_splits sum.splits prod.splits)
  then show ?thesis using r evolves_after_accept [of now "is_term args" "is_leader_id args" n n'] by simp
qed

lemma advance_commit_frame:
  "same_members n (advance_commit_index ops n)" "rn_persistent (advance_commit_index ops n) = rn_persistent n"
  "rn_dirty (advance_commit_index ops n) = rn_dirty n" "rn_role (advance_commit_index ops n) = rn_role n"
  "rn_votes (advance_commit_index ops n) = rn_votes n" "rn_log (advance_commit_index ops n) = rn_log n"
  by (simp_all add: advance_commit_index_def Let_def same_members_def)

lemma record_match_frame:
  "same_members n (record_match ops from n)" "rn_persistent (record_match ops from n) = rn_persistent n"
  "rn_dirty (record_match ops from n) = rn_dirty n" "rn_role (record_match ops from n) = rn_role n"
  "rn_votes (record_match ops from n) = rn_votes n" "rn_log (record_match ops from n) = rn_log n"
proof -
  show "same_members n (record_match ops from n)"
    unfolding record_match_def Let_def by (rule same_members_trans [OF _ advance_commit_frame(1)]) (simp add: same_members_def)
qed (simp_all add: record_match_def Let_def advance_commit_frame)

lemma evolves_append_entries_reply:
  assumes "node_inv n" shows "evolves n (on_append_entries_reply ops now from reply n)"
proof -
  have a: "evolves n (maybe_transfer_to ops from (record_match ops from n))"
    using assms record_match_frame(1) [where n = n]
    by (intro evolves_core) (simp_all add: record_match_frame same_members_def)
  have b: "evolves n (replicate_to ops from (n\<lparr> rn_volatile := v \<rparr>))" for v
    using assms by (rule evolves_core) (simp_all add: same_members_def)
  show ?thesis
    using a b evolves_refl [OF assms] by (simp add: on_append_entries_reply_def Let_def evolves_follower)
qed

lemma evolves_install_snapshot_reply:
  assumes "node_inv n" shows "evolves n (on_install_snapshot_reply ops now from reply n)"
proof -
  have a: "evolves n (replicate_to ops from (record_match ops from n))"
    using assms record_match_frame(1) [where n = n]
    by (intro evolves_core) (simp_all add: record_match_frame same_members_def)
  show ?thesis
    using a evolves_refl [OF assms] by (simp add: on_install_snapshot_reply_def evolves_follower)
qed

lemma evolves_propose:
  assumes "node_inv n" shows "evolves n (fst (propose ops batch n))"
proof -
  have a: "evolves n (n\<lparr> rn_log := l \<rparr>)" for l
    using assms by (rule evolves_core) (simp_all add: same_members_def)
  have b: "evolves n (advance_commit_index ops (replicate_all ops (n\<lparr> rn_log := l \<rparr>)))" for l
    using assms advance_commit_frame(1) [where n = "replicate_all ops (n\<lparr> rn_log := l \<rparr>)"]
    by (intro evolves_core) (simp_all add: advance_commit_frame same_members_def)
  show ?thesis
    using a b evolves_refl [OF assms] by (auto simp: propose_def Let_def split: prod.split sum.split)
qed

lemma evolves_transfer:
  assumes "node_inv n" shows "evolves n (fst (transfer_leadership ops target n))"
proof -
  have "evolves n (maybe_transfer_to ops target (n\<lparr> rn_transfer_target := Some target \<rparr>))"
    using assms by (rule evolves_core) (simp_all add: same_members_def)
  then show ?thesis using evolves_refl [OF assms] by (simp add: transfer_leadership_def)
qed

lemma evolves_timeout_now:
  assumes "node_inv n" shows "evolves n (on_timeout_now ops now args n)"
proof (cases "tn_term args < node_term n \<or> \<not> is_voter n (rn_self n)")
  case True
  then show ?thesis using evolves_refl [OF assms] by (simp add: on_timeout_now_def)
next
  case False
  let ?n = "if tn_term args > node_term n then become_follower now (tn_term args) n else n"
  have m: "same_members n ?n" and t: "node_term n \<le> node_term ?n" by (auto simp: become_follower_core)
  have v: "is_voter ?n (rn_self ?n)" using False members_cong(1) [OF m] m by (simp add: same_members_def)
  have "on_timeout_now ops now args n = become_candidate ops now ?n"
    using False by (simp add: on_timeout_now_def)
  then show ?thesis
    using evolves_candidate [OF v, of ops now] m t members_cong(3) [OF m] same_members_trans [OF m]
    by (auto simp: evolves_def become_candidate_core(2-) persistent_le_def same_members_def)
qed

text \<open>A granted vote that is counted: the only input that adds to the votes of a candidate.\<close>

definition counts_vote :: "int \<Rightarrow> RequestVoteReply \<Rightarrow> 'l RaftNode \<Rightarrow> 'l RaftNode \<Rightarrow> bool" where
  "counts_vote from reply n n' \<longleftrightarrow> rn_role n = Candidate \<and> vr_vote_granted reply \<and> vr_term reply = node_term n \<and>
     is_voter n from \<and> same_members n n' \<and> rn_persistent n' = rn_persistent n \<and> rn_dirty n' = rn_dirty n \<and>
     rn_votes n' = insert from (rn_votes n) \<and>
     rn_role n' = (if has_majority n (card (rn_votes n')) then Leader else Candidate)"

lemma evolves_request_vote_reply:
  assumes "node_inv n"
  shows "evolves n (on_request_vote_reply ops now from reply n) \<or>
    counts_vote from reply n (on_request_vote_reply ops now from reply n)"
proof -
  let ?n = "n\<lparr> rn_votes := insert from (rn_votes n) \<rparr>"
  have m: "same_members n ?n" by (simp add: same_members_def)
  note c = members_cong [OF m]
  consider "vr_term reply > node_term n" | "vr_term reply \<le> node_term n" "rn_role n = PreCandidate"
    | "vr_term reply \<le> node_term n" "rn_role n = Candidate" | "vr_term reply \<le> node_term n" "rn_role n = Follower \<or> rn_role n = Leader"
    by (cases "rn_role n") force+
  then show ?thesis
  proof cases
    case 1
    then show ?thesis by (simp add: on_request_vote_reply_def evolves_follower)
  next
    case 2
    have v: "is_voter ?n (rn_self ?n)" using assms 2(2) c(1) by (simp add: node_inv_def)
    from evolves_candidate [OF v, of ops now] have "evolves n (become_candidate ops now ?n)"
      using m c by (auto simp: evolves_def become_candidate_core(2-) same_members_def)
    moreover have "evolves n ?n" using assms 2(2) m c(1) by (simp add: evolves_def node_inv_def)
    ultimately show ?thesis using 2 c evolves_refl [OF assms] by (simp add: on_request_vote_reply_def Let_def)
  next
    case 3
    show ?thesis
    proof (cases "vr_term reply = node_term n \<and> vr_vote_granted reply \<and> is_voter n from")
      case True
      then have "on_request_vote_reply ops now from reply n =
          (if has_majority n (card (rn_votes ?n)) then become_leader ops now ?n else ?n)"
        using 3 c by (simp add: on_request_vote_reply_def Let_def)
      then show ?thesis
        using True 3 m same_members_trans [OF m become_leader_core(1)]
        by (simp add: counts_vote_def become_leader_core)
    next
      case False
      then have "on_request_vote_reply ops now from reply n = n" using 3 by (auto simp: on_request_vote_reply_def)
      then show ?thesis using evolves_refl [OF assms] by simp
    qed
  next
    case 4
    then have "on_request_vote_reply ops now from reply n = n" by (auto simp: on_request_vote_reply_def)
    then show ?thesis using evolves_refl [OF assms] by simp
  qed
qed

lemma counts_vote_inv: "node_inv n \<Longrightarrow> counts_vote from reply n n' \<Longrightarrow> node_inv n'"
  using members_cong(1) [of n n'] by (auto simp: counts_vote_def node_inv_def same_members_def)

text \<open>A vote is granted only to the candidate that is then recorded as voted for, in the term of the request.\<close>

lemma request_vote_granted:
  assumes "on_request_vote ops now args n = (n', r)" "vr_vote_granted r" "\<not> rv_pre_vote args"
  shows "voted_for (rn_persistent n') = Some (rv_candidate_id args) \<and> node_term n' = rv_term args \<and>
    vr_term r = rv_term args"
  using assms
  by (auto simp: on_request_vote_def Let_def record_vote_def ps_record_vote_def become_follower_core split: if_splits)


section \<open>The commit rule\<close>

definition on_majority :: "'l log_ops \<Rightarrow> 'l RaftNode \<Rightarrow> int \<Rightarrow> bool" where
  "on_majority ops n i \<longleftrightarrow> 2 * length (filter (\<lambda>m. i \<le> m) (voter_matches ops n)) > cluster_size n"

lemma length_voter_matches [simp]: "length (voter_matches ops n) = cluster_size n"
  by (simp add: voter_matches_def cluster_size_def)

lemma sorted_filter_ge:
  fixes ys :: "int list"
  assumes "sorted_wrt (\<ge>) ys" "k < length ys"
  shows "k < length (filter (\<lambda>m. i \<le> m) ys) \<longleftrightarrow> i \<le> ys ! k"
  using assms
proof (induction ys arbitrary: k)
  case (Cons y ys)
  show ?case
  proof (cases "i \<le> y")
    case True
    then show ?thesis using Cons by (cases k) auto
  next
    case False
    then have "\<forall>m \<in> set (y # ys). \<not> i \<le> m" using Cons.prems(1) by fastforce
    then show ?thesis using Cons.prems(2) nth_mem [of k "y # ys"] by (auto simp: filter_empty_conv)
  qed
qed simp

lemma majority_candidate:
  fixes xs :: "int list"
  assumes "xs \<noteq> []"
  shows "2 * length (filter (\<lambda>m. i \<le> m) xs) > length xs \<longleftrightarrow> i \<le> rev (sort xs) ! (length xs div 2)"
proof -
  have "sorted_wrt (\<ge>) (rev (sort xs))" by (simp add: sorted_wrt_rev)
  moreover have "length (filter (\<lambda>m. i \<le> m) xs) = length (filter (\<lambda>m. i \<le> m) (rev (sort xs)))"
    by (simp add: rev_filter [symmetric] filter_sort)
  ultimately show ?thesis
    using sorted_filter_ge [of "rev (sort xs)" "length xs div 2" i] assms by (simp add: div_less_iff_less_mult) linarith
qed

lemma advance_commit_index_spec:
  assumes "is_voter n (rn_self n)"
  obtains candidate where "\<And>i. on_majority ops n i \<longleftrightarrow> i \<le> candidate"
    "rn_volatile (advance_commit_index ops n) =
      (if commit_index (rn_volatile n) < candidate \<and> op_term_at ops (rn_log n) candidate = Inr (node_term n)
       then (rn_volatile n)\<lparr> commit_index := candidate \<rparr> else rn_volatile n)"
proof -
  let ?xs = "voter_matches ops n"
  let ?c = "rev (sort ?xs) ! (length ?xs div 2)"
  have ne: "?xs \<noteq> []" using assms by (simp add: voter_matches_def)
  have "on_majority ops n i \<longleftrightarrow> i \<le> ?c" for i
    using majority_candidate [OF ne, of i] by (simp add: on_majority_def)
  moreover have "rn_volatile (advance_commit_index ops n) =
      (if commit_index (rn_volatile n) < ?c \<and> op_term_at ops (rn_log n) ?c = Inr (node_term n)
       then (rn_volatile n)\<lparr> commit_index := ?c \<rparr> else rn_volatile n)"
    by (simp add: advance_commit_index_def Let_def)
  ultimately show thesis using that by blast
qed


section \<open>Log matching\<close>

fun consecutive :: "int \<Rightarrow> RaftLogEntry list \<Rightarrow> bool" where
  "consecutive i [] \<longleftrightarrow> True"
| "consecutive i (e # es) \<longleftrightarrow> le_index e = i \<and> consecutive (i + 1) es"

lemma consecutive_nth: "consecutive i es \<Longrightarrow> j < length es \<Longrightarrow> le_index (es ! j) = i + int j"
proof (induction es arbitrary: i j)
  case (Cons e es)
  then show ?case by (cases j) auto
qed simp

lemma consecutive_numbered: "consecutive i (numbered i xs)"
  by (induction i xs rule: numbered.induct) simp_all

lemma al_append_terms:
  assumes "al_append a es = (a', Inr k)" "consecutive (al_last_index a + 1) es" "0 \<le> al_index a" "e \<in> set es"
  shows "al_term_at a' (le_index e) = Inr (le_term e)"
proof -
  obtain xs where x: "al_index a' = al_index a" "al_entries a' = al_entries a @ xs"
    "map ae_entry_term xs = map le_term es" using al_append_entries [OF assms(1)] by auto
  obtain j where j: "j < length es" "e = es ! j" using assms(4) by (auto simp: in_set_conv_nth)
  have l: "length xs = length es" using x(3) by (metis length_map)
  have i: "le_index e = al_last_index a + 1 + int j" using consecutive_nth [OF assms(2) j(1)] j(2) by simp
  then have "al_slot a' (le_index e) = length (al_entries a) + j"
    using x(1) by (simp add: al_slot_def al_last_index_def nat_add_distrib)
  moreover have "ae_entry_term (xs ! j) = le_term e" using x(3) j l by (metis nth_map)
  ultimately show ?thesis
    using i j l x assms(3) by (simp add: al_term_at_def al_last_index_def nth_append)
qed

text \<open>What a follower holds after it accepted \<open>es\<close>, the entries that follow \<open>prev\<close>.\<close>

definition matches_leader :: "abs_log \<Rightarrow> abs_log \<Rightarrow> int \<Rightarrow> RaftLogEntry list \<Rightarrow> bool" where
  "matches_leader a a' prev es \<longleftrightarrow> al_index a' = al_index a \<and> al_term a' = al_term a \<and>
     take (nat (prev - al_index a)) (al_entries a') = take (nat (prev - al_index a)) (al_entries a) \<and>
     (\<forall>e \<in> set es. al_term_at a' (le_index e) = Inr (le_term e)) \<and>
     (a' = a \<and> prev + int (length es) \<le> al_last_index a \<or> al_last_index a' = prev + int (length es)) \<and>
     ((\<forall>e \<in> set es. al_term_at a (le_index e) = Inr (le_term e)) \<longrightarrow> a' = a)"

lemma matches_leader_append:
  assumes "al_append a1 es = (a', Inr k)" "al_index a1 = al_index a" "al_term a1 = al_term a"
    "al_entries a1 = take (nat (prev - al_index a)) (al_entries a)" "0 \<le> al_index a" "al_index a \<le> prev" "prev \<le> al_last_index a"
    "consecutive (prev + 1) es" "e \<in> set es" "al_term_at a (le_index e) \<noteq> Inr (le_term e)"
  shows "matches_leader a a' prev es"
proof -
  obtain xs where x: "al_index a' = al_index a" "al_term a' = al_term a" "al_entries a' = al_entries a1 @ xs"
    "map ae_entry_term xs = map le_term es"
    using al_append_entries [OF assms(1)] assms(2,3) by auto
  have n: "nat (prev - al_index a) \<le> length (al_entries a)" using assms(7) by (simp add: al_last_index_def)
  then have l1: "al_last_index a1 = prev" using assms(2,4,6) by (simp add: al_last_index_def)
  have "\<forall>e \<in> set es. al_term_at a' (le_index e) = Inr (le_term e)"
    using al_append_terms [OF assms(1)] l1 assms(2,5,8) by simp
  moreover have "al_last_index a' = prev + int (length es)"
    using l1 x assms(2) map_eq_imp_length_eq [OF x(4)] by (simp add: al_last_index_def)
  moreover have "take (nat (prev - al_index a)) (al_entries a') = take (nat (prev - al_index a)) (al_entries a)"
    using x(3) assms(4) n by simp
  ultimately show ?thesis using x assms(9,10) by (auto simp: matches_leader_def)
qed

lemma matches_leader_skip:
  assumes "matches_leader a a' (prev + 1) es" "al_term_at a (prev + 1) = Inr (le_term e)" "le_index e = prev + 1"
    "0 \<le> al_index a" "al_index a \<le> prev" "prev < al_last_index a"
  shows "matches_leader a a' prev (e # es)"
proof -
  let ?k = "nat (prev - al_index a)"
  have k: "nat (prev + 1 - al_index a) = Suc ?k" using assms(5) by simp
  have t: "take (Suc ?k) (al_entries a') = take (Suc ?k) (al_entries a)" "al_index a' = al_index a"
    using assms(1) k by (simp_all add: matches_leader_def)
  then have "take ?k (al_entries a') = take ?k (al_entries a)"
    by (metis take_take min.absorb1 lessI less_imp_le_nat)
  moreover have len: "?k < length (al_entries a)" using assms(5,6) by (simp add: al_last_index_def nat_less_iff)
  then have "?k < length (al_entries a')" "al_entries a' ! ?k = al_entries a ! ?k"
    using arg_cong [OF t(1), of length] arg_cong [OF t(1), of "\<lambda>xs. xs ! ?k"] by auto
  then have "al_term_at a' (prev + 1) = Inr (le_term e)"
    using assms(2,4,5) t(2) len by (auto simp: al_term_at_def al_slot_def al_last_index_def split: if_splits)
  ultimately show ?thesis using assms(1,2,3) by (auto simp: matches_leader_def)
qed

text \<open>The limits of the storage are met along the run of \<open>append_entries_from\<close>.\<close>

fun run_usable :: "'l log_ops \<Rightarrow> ('l \<Rightarrow> RaftLogEntry list \<Rightarrow> bool) \<Rightarrow> 'l \<Rightarrow> RaftLogEntry list \<Rightarrow> bool" where
  "run_usable ops usable l [] \<longleftrightarrow> True"
| "run_usable ops usable l (e # es) \<longleftrightarrow> usable l [] \<and>
     (if le_index e > op_last_index ops l then usable l (e # es)
      else if op_term_at ops l (le_index e) = Inr (le_term e) then run_usable ops usable l es
      else case op_truncate_from ops l (le_index e) of (l', Inl _) \<Rightarrow> True | (l', Inr _) \<Rightarrow> usable l' (e # es))"

context replicated_log
begin

lemma append_suffix_rel:
  assumes "append_suffix ops l es = (l', True)" "rel l a" "usable l es"
  obtains a' k where "al_append a es = (a', Inr k)" "rel l' a'"
  using assms rel_append [OF assms(2,3)] by (auto simp: append_suffix_def split: prod.splits sum.splits)

lemma append_entries_from_matches:
  assumes "append_entries_from ops l es = (l', True)" "rel l a" "run_usable ops usable l es" "consecutive (prev + 1) es"
    "al_index a \<le> prev" "prev \<le> al_last_index a"
  shows "\<exists>a'. rel l' a' \<and> matches_leader a a' prev es"
  using assms
proof (induction es arbitrary: prev)
  case Nil
  then show ?case by (auto simp: matches_leader_def)
next
  case (Cons e es)
  have idx: "le_index e = prev + 1" using Cons.prems(4) by simp
  have nn: "0 \<le> al_index a" using Cons.prems(2) by (rule rel_index_nonneg)
  note li = rel_last_index [OF Cons.prems(2)] and ta = rel_term_at [OF Cons.prems(2)]
  consider "prev + 1 > al_last_index a" | "prev + 1 \<le> al_last_index a" "al_term_at a (prev + 1) = Inr (le_term e)"
    | "prev + 1 \<le> al_last_index a" "al_term_at a (prev + 1) \<noteq> Inr (le_term e)" by linarith
  then show ?case
  proof cases
    case 1
    then have "append_suffix ops l (e # es) = (l', True)" "usable l (e # es)"
      using Cons.prems(1,3) idx li by simp_all
    then obtain a' k where a': "al_append a (e # es) = (a', Inr k)" "rel l' a'"
      using Cons.prems(2) by (elim append_suffix_rel)
    have "al_entries a = take (nat (prev - al_index a)) (al_entries a)"
      using 1 Cons.prems(5,6) by (simp add: al_last_index_def)
    moreover have "al_term_at a (le_index e) \<noteq> Inr (le_term e)"
      using 1 idx Cons.prems(5) nn by (auto simp: al_term_at_def)
    ultimately have "matches_leader a a' prev (e # es)"
      using a' nn Cons.prems(4-6) by (intro matches_leader_append [of a "e # es" a' k a prev e]) auto
    with a'(2) show ?thesis by blast
  next
    case 2
    then have "append_entries_from ops l es = (l', True)" "run_usable ops usable l es" "consecutive (prev + 1 + 1) es"
      using Cons.prems(1,3,4) idx li ta by simp_all
    from Cons.IH [OF this(1) Cons.prems(2) this(2,3)] 2 Cons.prems(5)
    obtain a' where "rel l' a'" "matches_leader a a' (prev + 1) es" by auto
    then show ?thesis using matches_leader_skip [of a a' prev es e] 2 idx nn Cons.prems(5) by auto
  next
    case 3
    then obtain l1 u where t: "op_truncate_from ops l (prev + 1) = (l1, Inr u)" "append_suffix ops l1 (e # es) = (l', True)"
      using Cons.prems(1) idx li ta by (auto split: prod.splits sum.splits)
    have us: "usable l []" "usable l1 (e # es)" using Cons.prems(3) idx li ta 3 t(1) by simp_all
    obtain a1 where a1: "al_truncate_from a (prev + 1) = (a1, Inr ())" "rel l1 a1"
      using rel_truncate [OF Cons.prems(2) us(1) t(1)] by blast
    obtain a' k where a': "al_append a1 (e # es) = (a', Inr k)" "rel l' a'"
      using t(2) a1(2) us(2) by (elim append_suffix_rel)
    have "al_index a1 = al_index a" "al_term a1 = al_term a" "al_entries a1 = take (nat (prev - al_index a)) (al_entries a)"
      using a1(1) 3(1) Cons.prems(5) by (auto simp: al_truncate_from_def al_slot_def split: if_splits)
    then have "matches_leader a a' prev (e # es)"
      using a' nn Cons.prems(4-6) 3 idx by (intro matches_leader_append [of a1 "e # es" a' k a prev e]) auto
    with a'(2) show ?thesis by blast
  qed
qed

lemma on_append_entries_matches:
  assumes "on_append_entries ops now args n = (n', r)" "ar_success r"
    "rel (rn_log n) a" "run_usable ops usable (rn_log n) (ae_entries args)" "consecutive (ae_prev_log_index args + 1) (ae_entries args)"
    "al_index a \<le> ae_prev_log_index args"
  shows "\<exists>a'. rel (rn_log n') a' \<and> matches_leader a a' (ae_prev_log_index args) (ae_entries args) \<and>
    al_term_at a (ae_prev_log_index args) = Inr (ae_prev_log_term args)"
proof -
  let ?p = "ae_prev_log_index args" and ?m = "accept_leader now (ae_term args) (ae_leader_id args) n"
  have lg: "rn_log ?m = rn_log n" by (rule evolves_accept_leader(2))
  note li = rel_last_index [OF assms(3)] and ta = rel_term_at [OF assms(3)]
  have h: "?p \<le> al_last_index a" "al_term_at a ?p = Inr (ae_prev_log_term args)"
    "append_entries_from ops (rn_log n) (ae_entries args) = (rn_log n', True)"
    using assms(1,2) li ta lg by (auto simp: on_append_entries_def Let_def split: if_splits sum.splits prod.splits bool.splits)
  with append_entries_from_matches [OF h(3) assms(3-6) h(1)] h(2) show ?thesis by blast
qed

end

end
