(* ===== verification/Raft_State_Store.thy ===== *)
theory Raft_State_Store
  imports Raft_State File_Io Crc32c
begin

text \<open>
  The durable record of term and vote (\<^verbatim>\<open>src/src/consensus/raft_state_store.hpp\<close>,
  \<^verbatim>\<open>raft_state_store.cpp\<close>): 17 bytes at the start of a file, \<^verbatim>\<open>crc | term | has_vote | voted_for\<close>, written
  and synchronised by \<open>store_save\<close> and checked by \<open>store_load\<close>.  The store is its file.
\<close>

definition kRecordSize :: nat where
  "kRecordSize = 17"

definition state_body :: "RaftPersistentState \<Rightarrow> bytes" where
  "state_body p = store_le_i64 (current_term p) @
     (case voted_for p of None \<Rightarrow> [0] @ store_le_i32 0 | Some v \<Rightarrow> [1] @ store_le_i32 v)"

definition state_record :: "RaftPersistentState \<Rightarrow> bytes" where
  "state_record p = store_le (crc32c (state_body p)) @ state_body p"

definition store_load :: "File \<Rightarrow> RaftPersistentState expected" where
  "store_load f =
     bindE (file_size f) (\<lambda>n.
     if n = 0 then Inr initial_persistent
     else if n < kRecordSize then Inl Corrupt
     else bindE (read_at f kRecordSize 0) (\<lambda>view.
     if length view < kRecordSize then Inl Corrupt
     else if load_le (take 4 view) \<noteq> crc32c (drop 4 view) then Inl Corrupt
     else Inr (ps_restore (load_le_i64 (take 8 (drop 4 view)))
                (if view ! 12 \<noteq> 0 then Some (load_le_i32 (take 4 (drop 13 view))) else None))))"

definition store_save :: "File \<Rightarrow> RaftPersistentState \<Rightarrow> File \<times> unit expected" where
  "store_save f p =
     (case write_at f (state_record p) 0 of
        (f, Inl e) \<Rightarrow> (f, Inl e)
      | (f, Inr _) \<Rightarrow> sync_file f)"

definition wf_state :: "RaftPersistentState \<Rightarrow> bool" where
  "wf_state p \<longleftrightarrow> fits_i64 (current_term p) \<and> (case voted_for p of None \<Rightarrow> True | Some v \<Rightarrow> fits_i32 v)"

text \<open>The file holds the record of \<open>p\<close>.\<close>

definition holds_state :: "File \<Rightarrow> RaftPersistentState \<Rightarrow> bool" where
  "holds_state f p \<longleftrightarrow> (p = initial_persistent \<and> content f = []) \<or> take 17 (content f) = state_record p"

lemma length_state_body [simp]: "length (state_body p) = 13"
  by (simp add: state_body_def split: option.split)

lemma length_state_record [simp]: "length (state_record p) = 17"
  by (simp add: state_record_def)

lemma load_state_fields:
  assumes "wf_state p"
  shows "load_le (take 4 (state_record p)) = crc32c (drop 4 (state_record p))"
    "ps_restore (load_le_i64 (take 8 (drop 4 (state_record p))))
       (if state_record p ! 12 \<noteq> 0 then Some (load_le_i32 (take 4 (drop 13 (state_record p)))) else None) = p"
proof -
  show "load_le (take 4 (state_record p)) = crc32c (drop 4 (state_record p))"
    using load_store_le_word(3) [of _ "[]"] by (simp add: state_record_def)
  have "load_le_i64 (take 8 (drop 4 (state_record p))) = current_term p"
    using assms load_store_le_int(3) [of "current_term p" "[]"] by (simp add: state_record_def state_body_def wf_state_def)
  moreover have "(if state_record p ! 12 \<noteq> 0 then Some (load_le_i32 (take 4 (drop 13 (state_record p)))) else None) = voted_for p"
    using assms load_store_le_int(2) [of _ "[]"]
    by (auto simp: state_record_def state_body_def wf_state_def nth_append split: option.splits)
  ultimately show "ps_restore (load_le_i64 (take 8 (drop 4 (state_record p))))
       (if state_record p ! 12 \<noteq> 0 then Some (load_le_i32 (take 4 (drop 13 (state_record p)))) else None) = p"
    unfolding ps_restore_def by simp
qed

lemma store_load_record:
  assumes "readable f" "take 17 (content f) = v" "length v = 17"
  shows "store_load f = (if load_le (take 4 v) \<noteq> crc32c (drop 4 v) then Inl Corrupt
     else Inr (ps_restore (load_le_i64 (take 8 (drop 4 v)))
                (if v ! 12 \<noteq> 0 then Some (load_le_i32 (take 4 (drop 13 v))) else None)))"
proof -
  have "17 \<le> length (content f)" using assms(2,3) by (metis length_take min_def nat_le_linear)
  then have "content f \<noteq> []" "\<not> length (content f) < 17" by auto
  then show ?thesis
    using assms read_at_readable [OF assms(1)] file_size_readable [OF assms(1)]
    by (simp add: store_load_def kRecordSize_def)
qed

lemma store_load_holds:
  assumes "readable f" "wf_state p" "holds_state f p"
  shows "store_load f = Inr p"
proof (cases "take 17 (content f) = state_record p")
  case True
  then show ?thesis using store_load_record [OF assms(1) True] load_state_fields [OF assms(2)] by simp
next
  case False
  then show ?thesis using assms file_size_readable [OF assms(1)] by (simp add: holds_state_def store_load_def)
qed

lemma store_save_cases:
  assumes "store_save f p = (f', r)"
  shows "bad f' = bad f \<and> stat_bad f' = stat_bad f \<and> (r = Inr () \<longrightarrow> holds_state f' p) \<and>
    (\<exists>k \<le> 17. content f' = overwrite (content f) 0 (take k (state_record p)))"
proof -
  obtain f1 r1 where w: "write_at f (state_record p) 0 = (f1, r1)" by fastforce
  then obtain k where k: "k \<le> 17" "content f1 = overwrite (content f) 0 (take k (state_record p))"
    "r1 = Inr () \<Longrightarrow> k = 17" "r1 = Inr () \<or> r1 = Inl IoError" "bad f1 = bad f" "stat_bad f1 = stat_bad f"
    by (elim write_at_cases) simp
  obtain f2 r2 where sy: "sync_file f1 = (f2, r2)" by fastforce
  note sc = sync_file_content [of f1, unfolded sy fst_conv]
  have s: "content f' = content f1 \<and> bad f' = bad f1 \<and> stat_bad f' = stat_bad f1 \<and> (r = Inr () \<longrightarrow> r1 = Inr ())"
    using assms w sy sc by (auto simp: store_save_def split: sum.splits)
  have "take 17 (content f') = state_record p" if "r = Inr ()"
    using that s k take_overwrite [of 0 "content f" "state_record p"] by simp
  then show ?thesis using s k by (auto simp: holds_state_def)
qed

lemma store_save_healthy:
  "sched f = [] \<Longrightarrow> store_save f p = (f\<lparr> content := overwrite (content f) 0 (state_record p) \<rparr>, Inr ())"
  by (simp add: store_save_def write_at_healthy sync_file_healthy)

lemma store_damage:
  assumes "readable f" "take 17 (content f) = take 4 (state_record p) @ a @ y @ s" "state_body p = a @ x @ s"
    "length y = length x" "length x \<le> 4" "y \<noteq> x"
  shows "store_load f = Inl Corrupt"
proof -
  have "load_le (take 4 (state_record p)) = crc32c (a @ x @ s)"
    using load_store_le_word(3) [of _ "[]"] assms(3) by (simp add: state_record_def)
  moreover have "crc32c (a @ y @ s) \<noteq> crc32c (a @ x @ s)"
    using crc32c_detects_window [of y x a s 0] assms(4-6) by simp
  moreover have "length (a @ y @ s) = 13" using assms(3,4) length_state_body [of p] by simp
  ultimately show ?thesis using store_load_record [OF assms(1,2)] by simp
qed

text \<open>
  C23: term and vote survive a restart.  After a \<open>save\<close> that returned success, \<open>load\<close> gives the state
  back; an empty file is the initial state; a save succeeds when the operating system does; and damage of
  up to four consecutive bytes of the stored term and vote is reported as \<open>Corrupt\<close>, never as
  another vote.
\<close>
theorem state_store_durable:
  assumes "readable f" "wf_state p"
  shows "(\<forall>f' u. store_save f p = (f', Inr u) \<longrightarrow> store_load f' = Inr p) \<and>
    (sched f = [] \<longrightarrow> (\<exists>f'. store_save f p = (f', Inr ()))) \<and>
    (content f = [] \<longrightarrow> store_load f = Inr initial_persistent) \<and>
    (\<forall>a x y s. content f = take 4 (state_record p) @ a @ y @ s \<and> state_body p = a @ x @ s \<and>
       length y = length x \<and> length x \<le> 4 \<and> y \<noteq> x \<longrightarrow> store_load f = Inl Corrupt)"
proof (intro conjI allI impI)
  fix f' u
  assume s: "store_save f p = (f', Inr u)"
  have "readable f'" using store_save_cases [OF s] assms(1) by (simp add: readable_def)
  then show "store_load f' = Inr p" using store_save_cases [OF s] assms(2) store_load_holds by simp
next
  assume "sched f = []"
  then show "\<exists>f'. store_save f p = (f', Inr ())" by (simp add: store_save_healthy)
next
  assume "content f = []"
  then show "store_load f = Inr initial_persistent"
    using file_size_readable [OF assms(1)] by (simp add: store_load_def)
next
  fix a x y s
  assume h: "content f = take 4 (state_record p) @ a @ y @ s \<and> state_body p = a @ x @ s \<and>
       length y = length x \<and> length x \<le> 4 \<and> y \<noteq> x"
  then have "length (a @ y @ s) = 13" using length_state_body [of p] by simp
  with h show "store_load f = Inl Corrupt" using store_damage [OF assms(1), of p a y s x] by simp
qed

theorem state_store_durable_witness:
  "(\<exists>f'. store_save empty_file \<lparr> current_term = 5, voted_for = Some 2 \<rparr> = (f', Inr ()) \<and>
     store_load f' = Inr \<lparr> current_term = 5, voted_for = Some 2 \<rparr>)"
proof -
  have "readable empty_file" "wf_state \<lparr> current_term = 5, voted_for = Some 2 \<rparr>" "sched empty_file = []"
    by (simp_all add: readable_def empty_file_def wf_state_def)
  from state_store_durable [OF this(1,2)] this(3) show ?thesis by blast
qed

end
