(* ===== verification/Raft_Carrier.thy ===== *)
theory Raft_Carrier
  imports Raft_Node Raft_State_Store
begin

text \<open>
  The driver of one replica (\<^verbatim>\<open>src/src/consensus/raft_carrier.hpp\<close>, \<^verbatim>\<open>raft_carrier.cpp\<close>): it feeds ticks and
  received messages to the node, saves term and vote when they changed, and hands the outgoing messages
  to the transport.  An operation returns the envelopes it gives to the sink, in order.  \<open>rc_store\<close> is
  the file of the state store, if there is one; \<open>rc_compacts\<close> says that the carrier was given the log
  for automatic compaction.  The metrics are not part of the model.
\<close>


section \<open>Operations\<close>

record 'l RaftCarrier =
  rc_topic :: bytes
  rc_partition :: int
  rc_node :: "'l RaftNode"
  rc_store :: "File option"
  rc_compacts :: bool
  rc_threshold :: int

record RaftObservation =
  ob_topic :: bytes
  ob_partition :: int
  ob_role :: RaftRole
  ob_term :: int
  ob_commit_index :: int
  ob_last_log_index :: int
  ob_leader_epoch :: int
  ob_leader_hint :: "int option"
  ob_peers :: "(int \<times> int) list"

definition observe :: "'l log_ops \<Rightarrow> 'l RaftCarrier \<Rightarrow> RaftObservation" where
  "observe ops c =
     (let n = rc_node c in
      \<lparr> ob_topic = rc_topic c, ob_partition = rc_partition c, ob_role = rn_role n, ob_term = node_term n,
        ob_commit_index = commit_index (rn_volatile n), ob_last_log_index = op_last_index ops (rn_log n),
        ob_leader_epoch = rn_leader_epoch n, ob_leader_hint = rn_leader_id n,
        ob_peers = map (\<lambda>p. (p, match_index (rn_volatile n) p)) (rn_peers n) \<rparr>)"

definition recover :: "'l RaftCarrier \<Rightarrow> 'l RaftCarrier \<times> unit expected" where
  "recover c =
     (case rc_store c of
        None \<Rightarrow> (c, Inr ())
      | Some f \<Rightarrow>
          (case store_load f of
             Inl e \<Rightarrow> (c, Inl e)
           | Inr p \<Rightarrow> (c\<lparr> rc_node := restore_persistent_state p (rc_node c) \<rparr>, Inr ())))"

definition emit :: "'l RaftCarrier \<Rightarrow> RaftMessage \<Rightarrow> RaftEnvelope" where
  "emit c m = \<lparr> env_topic = rc_topic c, env_partition = rc_partition c, env_message = m \<rparr>"

definition drain :: "'l RaftCarrier \<Rightarrow> 'l RaftCarrier \<times> RaftEnvelope list" where
  "drain c = (case take_messages (rc_node c) of (n, ms) \<Rightarrow> (c\<lparr> rc_node := n \<rparr>, map (emit c) ms))"

definition flush_outbox :: "'l RaftCarrier \<Rightarrow> 'l RaftCarrier \<times> RaftEnvelope list" where
  "flush_outbox c =
     (case rc_store c of
        None \<Rightarrow> drain c
      | Some f \<Rightarrow>
          if rn_dirty (rc_node c) then
            (case store_save f (rn_persistent (rc_node c)) of
               (f, Inl _) \<Rightarrow> (c\<lparr> rc_store := Some f \<rparr>, [])
             | (f, Inr _) \<Rightarrow> drain (c\<lparr> rc_store := Some f, rc_node := clear_persistent_dirty (rc_node c) \<rparr>))
          else drain c)"

definition maybe_compact :: "'l log_ops \<Rightarrow> 'l RaftCarrier \<Rightarrow> 'l RaftCarrier" where
  "maybe_compact ops c =
     (let n = rc_node c; commit = commit_index (rn_volatile n); base = op_snapshot_index ops (rn_log n) in
      if \<not> rc_compacts c \<or> rc_threshold c = 0 then c
      else if commit \<le> base \<or> commit - base < rc_threshold c then c
      else c\<lparr> rc_node := n\<lparr> rn_log := fst (op_compact_to ops (rn_log n) commit) \<rparr> \<rparr>)"

definition on_tick :: "'l log_ops \<Rightarrow> int \<Rightarrow> 'l RaftCarrier \<Rightarrow> 'l RaftCarrier \<times> RaftEnvelope list" where
  "on_tick ops now c =
     (case flush_outbox (c\<lparr> rc_node := tick ops now (rc_node c) \<rparr>) of
        (c, out) \<Rightarrow> (maybe_compact ops c, out))"

text \<open>The handler that a message selects, and the reply when it is a request.\<close>

definition handle :: "'l log_ops \<Rightarrow> int \<Rightarrow> RaftMessage \<Rightarrow> 'l RaftNode \<Rightarrow> 'l RaftNode \<times> RaftPayload list" where
  "handle ops now m n =
     (case msg_payload m of
        RequestVote args \<Rightarrow> (case on_request_vote ops now args n of (n, r) \<Rightarrow> (n, [RequestVoteR r]))
      | AppendEntries args \<Rightarrow> (case on_append_entries ops now args n of (n, r) \<Rightarrow> (n, [AppendEntriesR r]))
      | InstallSnapshot args \<Rightarrow> (case on_install_snapshot ops now args n of (n, r) \<Rightarrow> (n, [InstallSnapshotR r]))
      | TimeoutNow args \<Rightarrow> (on_timeout_now ops now args n, [])
      | RequestVoteR r \<Rightarrow> (on_request_vote_reply ops now (msg_from m) r n, [])
      | AppendEntriesR r \<Rightarrow> (on_append_entries_reply ops now (msg_from m) r n, [])
      | InstallSnapshotR r \<Rightarrow> (on_install_snapshot_reply ops now (msg_from m) r n, []))"

definition on_message :: "'l log_ops \<Rightarrow> int \<Rightarrow> RaftMessage \<Rightarrow> 'l RaftCarrier \<Rightarrow> 'l RaftCarrier \<times> RaftEnvelope list" where
  "on_message ops now m c =
     (case handle ops now m (rc_node c) of
        (n, replies) \<Rightarrow>
          let out = map (\<lambda>p. emit c \<lparr> msg_from = rn_self n, msg_to = msg_from m, msg_payload = p \<rparr>) replies in
          (case flush_outbox (c\<lparr> rc_node := n \<rparr>) of
             (c, sent) \<Rightarrow> (maybe_compact ops c, out @ sent)))"


section \<open>Every input obeys the rules of votes and roles\<close>

lemma handle_evolves:
  assumes "node_inv n"
  shows "evolves n (fst (handle ops now m n)) \<or>
    (\<exists>r. msg_payload m = RequestVoteR r \<and> counts_vote (msg_from m) r n (fst (handle ops now m n)))"
  using assms evolves_request_vote_reply [OF assms]
  by (cases "msg_payload m")
    (auto simp: handle_def case_prod_beta evolves_request_vote evolves_append_entries evolves_timeout_now
      evolves_append_entries_reply evolves_install_snapshot evolves_install_snapshot_reply)

lemma handle_frame:
  assumes "node_inv n" "handle ops now m n = (n', ps)"
  shows "same_members n n'" "node_inv n'" "persistent_le (rn_persistent n) (rn_persistent n')"
    "rn_dirty n \<or> rn_persistent n' \<noteq> rn_persistent n \<Longrightarrow> rn_dirty n'"
  using handle_evolves [OF assms(1), of ops now m] assms counts_vote_inv [OF assms(1)]
  by (auto simp: evolves_def counts_vote_def)

text \<open>
  C22: the discipline of terms and votes, for every input of a replica.  Whatever tick, message,
  proposal or transfer a node handles: its term never decreases; within a term a vote once given is
  never changed; a change of either is marked for saving; its identity and members stay; only a voter
  stands for election and a candidate or leader has voted for itself; and a request for a vote is
  granted only with the candidate recorded as voted for in the term of the reply.
\<close>
theorem raft_vote_discipline:
  assumes "node_inv n"
    and "n' = tick ops now n \<or> n' = fst (handle ops now m n) \<or> n' = fst (propose ops b n) \<or>
      n' = fst (transfer_leadership ops target n)"
  shows "node_inv n' \<and> same_members n n' \<and> persistent_le (rn_persistent n) (rn_persistent n') \<and>
    (rn_persistent n' \<noteq> rn_persistent n \<longrightarrow> rn_dirty n') \<and>
    (\<forall>args r. msg_payload m = RequestVote args \<and> \<not> rv_pre_vote args \<and> n' = fst (handle ops now m n) \<and>
       snd (handle ops now m n) = [RequestVoteR r] \<and> vr_vote_granted r \<longrightarrow>
       voted_for (rn_persistent n') = Some (rv_candidate_id args) \<and> current_term (rn_persistent n') = vr_term r)"
proof -
  have "node_inv n' \<and> same_members n n' \<and> persistent_le (rn_persistent n) (rn_persistent n') \<and>
    (rn_persistent n' \<noteq> rn_persistent n \<longrightarrow> rn_dirty n')"
    using assms(2)
  proof (elim disjE)
    assume "n' = fst (handle ops now m n)"
    then show ?thesis using handle_frame [OF assms(1), of ops now m n' "snd (handle ops now m n)"] by auto
  qed (use evolves_tick [OF assms(1), of ops now] evolves_propose [OF assms(1), of ops b]
      evolves_transfer [OF assms(1), of ops target] in \<open>auto simp: evolves_def\<close>)
  moreover have "voted_for (rn_persistent n') = Some (rv_candidate_id args) \<and> current_term (rn_persistent n') = vr_term r"
    if "msg_payload m = RequestVote args" "\<not> rv_pre_vote args" "n' = fst (handle ops now m n)"
      "snd (handle ops now m n) = [RequestVoteR r]" "vr_vote_granted r" for args r
    using that request_vote_granted [of ops now args n n' r] by (auto simp: handle_def split: prod.splits)
  ultimately show ?thesis by blast
qed


definition sample_config :: RaftConfig where
  "sample_config = \<lparr> election_timeout_min = 1000, election_timeout_max = 1500, heartbeat_interval = 150, random_seed = 0 \<rparr>"

definition member :: "int \<Rightarrow> abs_log RaftNode" where
  "member i = new_node i (remove1 i [1, 2, 3]) empty_abs_log sample_config []"

definition vote_request :: "int \<Rightarrow> int \<Rightarrow> int \<Rightarrow> RaftMessage" where
  "vote_request candidate voter t = \<lparr> msg_from = candidate, msg_to = voter, msg_payload = RequestVote
     \<lparr> rv_term = t, rv_candidate_id = candidate, rv_last_log_index = 0, rv_last_log_term = 0, rv_pre_vote = False \<rparr> \<rparr>"

lemma member_inv [simp]: "node_inv (member i)"
  by (simp add: member_def new_node_def node_inv_def)

theorem raft_vote_discipline_witness:
  "voted_for (rn_persistent (fst (handle abs_log_ops 7 (vote_request 2 1 1) (member 1)))) = Some 2 \<and>
   current_term (rn_persistent (fst (handle abs_log_ops 7 (vote_request 2 1 1) (member 1)))) = 1 \<and>
   rn_dirty (fst (handle abs_log_ops 7 (vote_request 2 1 1) (member 1)))"
proof -
  let ?m = "vote_request 2 1 1" and ?h = "handle abs_log_ops 7 (vote_request 2 1 1) (member 1)"
  have r: "snd ?h = [RequestVoteR \<lparr> vr_term = 1, vr_vote_granted = True \<rparr>]" by code_simp
  have p: "rn_persistent (member 1) = \<lparr> current_term = 0, voted_for = None \<rparr>"
    by (simp add: member_def new_node_def initial_persistent_def)
  have th: "node_inv (fst ?h) \<and> same_members (member 1) (fst ?h) \<and> persistent_le (rn_persistent (member 1)) (rn_persistent (fst ?h)) \<and>
    (rn_persistent (fst ?h) \<noteq> rn_persistent (member 1) \<longrightarrow> rn_dirty (fst ?h)) \<and>
    (\<forall>args r. msg_payload ?m = RequestVote args \<and> \<not> rv_pre_vote args \<and> fst ?h = fst ?h \<and>
       snd ?h = [RequestVoteR r] \<and> vr_vote_granted r \<longrightarrow>
       voted_for (rn_persistent (fst ?h)) = Some (rv_candidate_id args) \<and> current_term (rn_persistent (fst ?h)) = vr_term r)"
    by (rule raft_vote_discipline [OF member_inv]) simp
  then have v: "voted_for (rn_persistent (fst ?h)) = Some 2" "current_term (rn_persistent (fst ?h)) = 1"
    using r by (auto simp: vote_request_def)
  moreover have "rn_dirty (fst ?h)" using th v p by auto
  ultimately show ?thesis by simp
qed


section \<open>Durability\<close>

text \<open>The store holds the term and vote of the node unless a change waits to be saved.\<close>

definition carrier_inv :: "'l RaftCarrier \<Rightarrow> bool" where
  "carrier_inv c \<longleftrightarrow> (case rc_store c of None \<Rightarrow> False
     | Some f \<Rightarrow> readable f \<and> (\<not> rn_dirty (rc_node c) \<longrightarrow> holds_state f (rn_persistent (rc_node c))))"

lemma drain_simps:
  "drain c = (c\<lparr> rc_node := (rc_node c)\<lparr> rn_outbox := [] \<rparr> \<rparr>, map (emit c) (rn_outbox (rc_node c)))"
  by (simp add: drain_def take_messages_def)

lemma flush_outbox_durable:
  assumes "carrier_inv c" "flush_outbox c = (c', out)"
  shows "carrier_inv c'" "rc_node c' = (rc_node c)\<lparr> rn_dirty := rn_dirty (rc_node c'), rn_outbox := rn_outbox (rc_node c') \<rparr>"
    "out = [] \<and> rc_node c' = rc_node c \<and> rn_dirty (rc_node c) \<or>
     out = map (emit c) (rn_outbox (rc_node c)) \<and> rn_outbox (rc_node c') = [] \<and> \<not> rn_dirty (rc_node c')"
    "rc_topic c' = rc_topic c \<and> rc_partition c' = rc_partition c"
proof -
  obtain f where f: "rc_store c = Some f" "readable f" "\<not> rn_dirty (rc_node c) \<longrightarrow> holds_state f (rn_persistent (rc_node c))"
    using assms(1) by (auto simp: carrier_inv_def split: option.splits)
  have main: "carrier_inv c' \<and> rc_node c' = (rc_node c)\<lparr> rn_dirty := rn_dirty (rc_node c'), rn_outbox := rn_outbox (rc_node c') \<rparr> \<and>
    (out = [] \<and> rc_node c' = rc_node c \<and> rn_dirty (rc_node c) \<or>
     out = map (emit c) (rn_outbox (rc_node c)) \<and> rn_outbox (rc_node c') = [] \<and> \<not> rn_dirty (rc_node c')) \<and>
    rc_topic c' = rc_topic c \<and> rc_partition c' = rc_partition c"
  proof (cases "rn_dirty (rc_node c)")
    case False
    then have "(c', out) = drain c" using assms(2) f(1) by (simp add: flush_outbox_def)
    then show ?thesis using f False by (simp add: drain_simps carrier_inv_def)
  next
    case True
    obtain f1 r where s: "store_save f (rn_persistent (rc_node c)) = (f1, r)" by fastforce
    note sc = store_save_cases [OF s]
    have rd: "readable f1" using sc f(2) by (simp add: readable_def)
    show ?thesis
    proof (cases r)
      case (Inl e)
      then show ?thesis using assms(2) f(1) True s rd by (auto simp: flush_outbox_def carrier_inv_def)
    next
      case (Inr u)
      then have "c' = c\<lparr> rc_store := Some f1, rc_node := (rc_node c)\<lparr> rn_dirty := False, rn_outbox := [] \<rparr> \<rparr>"
        "out = map (emit c) (rn_outbox (rc_node c))"
        using assms(2) f(1) True s
        by (auto simp: flush_outbox_def drain_simps clear_persistent_dirty_def emit_def)
      then show ?thesis using sc rd Inr by (simp add: carrier_inv_def)
    qed
  qed
  then show "carrier_inv c'" "rc_node c' = (rc_node c)\<lparr> rn_dirty := rn_dirty (rc_node c'), rn_outbox := rn_outbox (rc_node c') \<rparr>"
    "out = [] \<and> rc_node c' = rc_node c \<and> rn_dirty (rc_node c) \<or>
     out = map (emit c) (rn_outbox (rc_node c)) \<and> rn_outbox (rc_node c') = [] \<and> \<not> rn_dirty (rc_node c')"
    "rc_topic c' = rc_topic c \<and> rc_partition c' = rc_partition c" by blast+
qed

lemma node_inv_frame [simp]:
  "node_inv (n\<lparr> rn_dirty := d \<rparr>) = node_inv n" "node_inv (n\<lparr> rn_outbox := out \<rparr>) = node_inv n"
  "node_inv (n\<lparr> rn_log := l \<rparr>) = node_inv n"
  by (simp_all add: node_inv_def is_voter_def)

lemma maybe_compact_frame:
  "rc_store (maybe_compact ops c) = rc_store c" "rn_dirty (rc_node (maybe_compact ops c)) = rn_dirty (rc_node c)"
  "rn_persistent (rc_node (maybe_compact ops c)) = rn_persistent (rc_node c)"
  "node_inv (rc_node (maybe_compact ops c)) = node_inv (rc_node c)"
  "carrier_inv (maybe_compact ops c) = carrier_inv c"
  by (simp_all add: maybe_compact_def Let_def carrier_inv_def split: option.splits)

definition persisted :: "'l RaftCarrier \<Rightarrow> bool" where
  "persisted c \<longleftrightarrow> (case rc_store c of None \<Rightarrow> False | Some f \<Rightarrow>
     wf_state (rn_persistent (rc_node c)) \<longrightarrow> store_load f = Inr (rn_persistent (rc_node c)))"

lemma persisted_compact [simp]: "persisted (maybe_compact ops c) = persisted c"
  by (simp add: persisted_def maybe_compact_def Let_def split: option.splits)

lemma flush_after_input:
  assumes "carrier_inv c" "node_inv n" "rn_dirty (rc_node c) \<or> rn_persistent n \<noteq> rn_persistent (rc_node c) \<longrightarrow> rn_dirty n"
    "flush_outbox (c\<lparr> rc_node := n \<rparr>) = (c2, sent)"
  shows "carrier_inv (maybe_compact ops c2) \<and> node_inv (rc_node (maybe_compact ops c2)) \<and>
    (sent \<noteq> [] \<longrightarrow> persisted (maybe_compact ops c2))"
proof -
  have "carrier_inv (c\<lparr> rc_node := n \<rparr>)"
    using assms(1,3) by (auto simp: carrier_inv_def split: option.splits)
  note fl = flush_outbox_durable [OF this assms(4)]
  have "node_inv (rc_node c2)"
    using assms(2) by (subst fl(2)) simp
  moreover have "persisted c2" if "sent \<noteq> []"
    using that fl(1,3) store_load_holds by (auto simp: persisted_def carrier_inv_def split: option.splits)
  ultimately show ?thesis using fl(1) by (simp add: maybe_compact_frame)
qed

text \<open>
  C21: the rule of durability.  Through every tick and message the store keeps the term and vote of
  the node, unless a change of them could not be saved yet; and then nothing queued by the node leaves:
  whatever is sent besides the direct reply to the message is sent with the term and vote on disk, so
  that a restart restores them.
\<close>
theorem carrier_durable:
  assumes "carrier_inv c" "node_inv (rc_node c)"
  shows "(case on_tick ops now c of (c', out) \<Rightarrow>
       carrier_inv c' \<and> node_inv (rc_node c') \<and> (out \<noteq> [] \<longrightarrow> persisted c')) \<and>
    (case on_message ops now m c of (c', out) \<Rightarrow>
       carrier_inv c' \<and> node_inv (rc_node c') \<and>
       (drop (length (snd (handle ops now m (rc_node c)))) out \<noteq> [] \<longrightarrow> persisted c'))"
proof
  let ?n = "tick ops now (rc_node c)"
  obtain c2 sent where f: "flush_outbox (c\<lparr> rc_node := ?n \<rparr>) = (c2, sent)" by fastforce
  from evolves_tick [OF assms(2), of ops now] have "node_inv ?n"
    "rn_dirty (rc_node c) \<or> rn_persistent ?n \<noteq> rn_persistent (rc_node c) \<longrightarrow> rn_dirty ?n" by (simp_all add: evolves_def)
  from flush_after_input [OF assms(1) this f, of ops] f
  show "case on_tick ops now c of (c', out) \<Rightarrow> carrier_inv c' \<and> node_inv (rc_node c') \<and> (out \<noteq> [] \<longrightarrow> persisted c')"
    by (simp add: on_tick_def)
next
  obtain n ps where h: "handle ops now m (rc_node c) = (n, ps)" by fastforce
  obtain c2 sent where f: "flush_outbox (c\<lparr> rc_node := n \<rparr>) = (c2, sent)" by fastforce
  from handle_frame(2,4) [OF assms(2) h] have "node_inv n"
    "rn_dirty (rc_node c) \<or> rn_persistent n \<noteq> rn_persistent (rc_node c) \<longrightarrow> rn_dirty n" by blast+
  from flush_after_input [OF assms(1) this f, of ops] f h
  show "case on_message ops now m c of (c', out) \<Rightarrow> carrier_inv c' \<and> node_inv (rc_node c') \<and>
       (drop (length (snd (handle ops now m (rc_node c)))) out \<noteq> [] \<longrightarrow> persisted c')"
    by (simp add: on_message_def)
qed

definition sample_carrier :: "File \<Rightarrow> abs_log RaftCarrier" where
  "sample_carrier f = \<lparr> rc_topic = [116], rc_partition = 0, rc_node = member 1, rc_store = Some f,
     rc_compacts = False, rc_threshold = 0 \<rparr>"

lemma sample_carrier_inv: "readable f \<Longrightarrow> content f = [] \<Longrightarrow> carrier_inv (sample_carrier f)"
  by (simp add: carrier_inv_def sample_carrier_def member_def new_node_def holds_state_def)

theorem carrier_durable_witness:
  "carrier_inv (sample_carrier empty_file) \<and>
   (case on_message abs_log_ops 7 (vote_request 2 1 1) (sample_carrier empty_file) of
      (c', out) \<Rightarrow> carrier_inv c' \<and> node_inv (rc_node c'))"
proof -
  have i: "carrier_inv (sample_carrier empty_file)"
    by (rule sample_carrier_inv) (simp_all add: readable_def empty_file_def)
  have n: "node_inv (rc_node (sample_carrier empty_file))" by (simp add: sample_carrier_def)
  from carrier_durable [OF i n, of abs_log_ops 7 "vote_request 2 1 1"] i show ?thesis
    by (auto split: prod.splits)
qed

text \<open>
  The direct reply is the exception, and a vote can be lost: member 1 grants its vote to member 2 in term
  1, the save fails, the process restarts with what the store holds, and member 1 grants its vote in
  term 1 to member 3.
\<close>
lemma store_save_failed:
  assumes "sched f = Failed # s" shows "store_save f p = (f\<lparr> sched := s \<rparr>, Inl IoError)"
proof -
  have "state_record p \<noteq> []" using length_state_record [of p] by (metis list.size(3) zero_neq_numeral)
  then show ?thesis using assms by (simp add: store_save_def write_at_def write_loop.simps)
qed

lemma flush_empty_outbox: "rn_outbox (rc_node c) = [] \<Longrightarrow> snd (flush_outbox c) = []"
  by (auto simp: flush_outbox_def drain_simps clear_persistent_dirty_def split: option.split prod.split sum.split)

lemma member_grants:
  "snd (handle abs_log_ops 7 (vote_request 2 1 1) (member 1)) = [RequestVoteR \<lparr> vr_term = 1, vr_vote_granted = True \<rparr>]"
  "snd (handle abs_log_ops 9 (vote_request 3 1 1) (member 1)) = [RequestVoteR \<lparr> vr_term = 1, vr_vote_granted = True \<rparr>]"
  "rn_outbox (fst (handle abs_log_ops 7 (vote_request 2 1 1) (member 1))) = []"
  "rn_outbox (fst (handle abs_log_ops 9 (vote_request 3 1 1) (member 1))) = []"
  "rn_dirty (fst (handle abs_log_ops 7 (vote_request 2 1 1) (member 1)))"
  by code_simp+

lemma vote_granted_before_saved:
  defines "f \<equiv> empty_file\<lparr> sched := [Failed] \<rparr>"
  defines "first \<equiv> on_message abs_log_ops 7 (vote_request 2 1 1) (sample_carrier f)"
  defines "restarted \<equiv> fst (recover ((sample_carrier f)\<lparr> rc_store := rc_store (fst first) \<rparr>))"
  defines "second \<equiv> on_message abs_log_ops 9 (vote_request 3 1 1) restarted"
  shows "map (\<lambda>e. (msg_to (env_message e), msg_payload (env_message e))) (snd first) =
      [(2, RequestVoteR \<lparr> vr_term = 1, vr_vote_granted = True \<rparr>)]"
    and "map (\<lambda>e. (msg_to (env_message e), msg_payload (env_message e))) (snd second) =
      [(3, RequestVoteR \<lparr> vr_term = 1, vr_vote_granted = True \<rparr>)]"
proof -
  obtain n1 where h1: "handle abs_log_ops 7 (vote_request 2 1 1) (member 1) = (n1, [RequestVoteR \<lparr> vr_term = 1, vr_vote_granted = True \<rparr>])"
    and n1: "rn_outbox n1 = []" "rn_dirty n1"
    using member_grants(1,3,5) by (metis prod.collapse)
  obtain n2 where h2: "handle abs_log_ops 9 (vote_request 3 1 1) (member 1) = (n2, [RequestVoteR \<lparr> vr_term = 1, vr_vote_granted = True \<rparr>])"
    and n2: "rn_outbox n2 = []"
    using member_grants(2,4) by (metis prod.collapse)
  have fl: "flush_outbox ((sample_carrier f)\<lparr> rc_node := n1 \<rparr>) = ((sample_carrier f)\<lparr> rc_node := n1, rc_store := Some empty_file \<rparr>, [])"
    using n1 store_save_failed [of f "[]"] by (simp add: flush_outbox_def sample_carrier_def f_def empty_file_def)
  have c: "rc_node (sample_carrier f) = member 1" by (simp add: sample_carrier_def)
  have first: "first = ((sample_carrier f)\<lparr> rc_node := n1, rc_store := Some empty_file \<rparr>,
      [emit (sample_carrier f) \<lparr> msg_from = rn_self n1, msg_to = 2, msg_payload = RequestVoteR \<lparr> vr_term = 1, vr_vote_granted = True \<rparr> \<rparr>])"
    unfolding first_def on_message_def c h1
    by (simp add: fl maybe_compact_def Let_def) (simp add: sample_carrier_def vote_request_def)
  then show "map (\<lambda>e. (msg_to (env_message e), msg_payload (env_message e))) (snd first) =
      [(2, RequestVoteR \<lparr> vr_term = 1, vr_vote_granted = True \<rparr>)]" by (simp add: emit_def)
  have "store_load empty_file = Inr initial_persistent"
    by (simp add: store_load_def file_size_def empty_file_def)
  moreover have "restore_persistent_state initial_persistent (member 1) = member 1"
    by (simp add: restore_persistent_state_def member_def new_node_def)
  ultimately have r: "restarted = (sample_carrier f)\<lparr> rc_store := Some empty_file \<rparr>"
    by (simp add: restarted_def first recover_def sample_carrier_def)
  obtain c2 where "flush_outbox (restarted\<lparr> rc_node := n2 \<rparr>) = (c2, [])"
    using flush_empty_outbox [of "restarted\<lparr> rc_node := n2 \<rparr>"] n2 by (metis RaftCarrier.select_convs(3) RaftCarrier.surjective RaftCarrier.update_convs(3) prod.collapse)
  then show "map (\<lambda>e. (msg_to (env_message e), msg_payload (env_message e))) (snd second) =
      [(3, RequestVoteR \<lparr> vr_term = 1, vr_vote_granted = True \<rparr>)]"
    unfolding second_def on_message_def using c h2 by (simp add: r Let_def emit_def) (simp add: vote_request_def)
qed


section \<open>Commitment\<close>

text \<open>
  C14: the commit rule.  \<open>advance_commit_index\<close> moves the commit index exactly to the greatest index
  that a majority of the voters is recorded to hold, and only when that is beyond the commit index
  and its entry is of the leader's current term.
\<close>
theorem leader_commit_rule:
  assumes "is_voter n (rn_self n)"
  shows "\<exists>candidate. (\<forall>i. on_majority ops n i \<longleftrightarrow> i \<le> candidate) \<and>
    rn_volatile (advance_commit_index ops n) =
      (if commit_index (rn_volatile n) < candidate \<and> op_term_at ops (rn_log n) candidate = Inr (node_term n)
       then (rn_volatile n)\<lparr> commit_index := candidate \<rparr> else rn_volatile n)"
  using advance_commit_index_spec [OF assms, of ops] by metis

definition leader_node :: "abs_log RaftNode" where
  "leader_node = (member 1)\<lparr> rn_role := Leader, rn_persistent := \<lparr> current_term = 1, voted_for = Some 1 \<rparr>,
     rn_volatile := reset_leader_progress initial_volatile [2, 3] 0, rn_leader_id := Some 1 \<rparr>"

definition held :: "abs_log RaftNode" where
  "held = leader_node\<lparr> rn_log := empty_abs_log\<lparr> al_entries :=
       replicate 2 \<lparr> ae_entry_term = 1, ae_entry_type = Data, ae_batch = sample_batch \<rparr> \<rparr>,
     rn_volatile := set_match_index (rn_volatile leader_node) 2 2 \<rparr>"

theorem leader_commit_rule_witness:
  "is_voter held (rn_self held) \<and> commit_index (rn_volatile (advance_commit_index abs_log_ops held)) = 2"
proof -
  have v: "is_voter held (rn_self held)" by (simp add: is_voter_def held_def leader_node_def member_def new_node_def)
  have m: "voter_matches abs_log_ops held = [2, 2, 0]"
    by (simp add: voter_matches_def is_voter_def held_def leader_node_def member_def new_node_def abs_log_ops_def
        al_last_index_def empty_abs_log_def)
  have maj: "on_majority abs_log_ops held 2" "\<not> on_majority abs_log_ops held 3"
    by (simp_all add: on_majority_def m flip: length_voter_matches [of abs_log_ops])
  from leader_commit_rule [OF v, of abs_log_ops] obtain c where c: "\<forall>i. on_majority abs_log_ops held i \<longleftrightarrow> i \<le> c"
    "rn_volatile (advance_commit_index abs_log_ops held) =
      (if commit_index (rn_volatile held) < c \<and> op_term_at abs_log_ops (rn_log held) c = Inr (node_term held)
       then (rn_volatile held)\<lparr> commit_index := c \<rparr> else rn_volatile held)" by blast
  have "2 \<le> c" "\<not> 3 \<le> c" using c(1) maj by blast+
  then have "c = 2" by linarith
  then show ?thesis
    using c(2) v by (simp add: held_def leader_node_def member_def new_node_def abs_log_ops_def initial_volatile_def
        al_term_at_def al_last_index_def al_slot_def empty_abs_log_def numeral_2_eq_2)
qed

text \<open>
  C8: log matching.  When a follower answers \<open>AppendEntries\<close> with success, its log had the entry
  before the sent ones in the term the leader said; afterwards it holds every sent entry in its term,
  unchanged up to the entry before them; it was cut only at a conflict, so that a repeated or
  outdated message leaves it as it is.
\<close>
theorem follower_log_matching:
  assumes "on_append_entries (raft_log_ops cr) now args n = (n', r)" "ar_success r"
    and "rl_mem cr (rn_log n) a []" "run_usable (raft_log_ops cr) (rl_usable cr) (rn_log n) (ae_entries args)"
    and "consecutive (ae_prev_log_index args + 1) (ae_entries args)" "al_index a \<le> ae_prev_log_index args"
  shows "\<exists>a'. rl_mem cr (rn_log n') a' [] \<and> matches_leader a a' (ae_prev_log_index args) (ae_entries args) \<and>
    al_term_at a (ae_prev_log_index args) = Inr (ae_prev_log_term args)"
  using assms by (rule raft_replicated.on_append_entries_matches)

definition storing_node :: "RaftLog RaftNode" where
  "storing_node = new_node 1 [2, 3] sample_raft_log sample_config []"

definition repeated_append :: AppendEntriesArgs where
  "repeated_append = \<lparr> ae_term = 2, ae_leader_id = 2, ae_prev_log_index = 1, ae_prev_log_term = 1,
     ae_entries = [\<lparr> le_term = 2, le_index = 2, le_type = Data, le_payload = encode next_batch \<rparr>],
     ae_leader_commit = 2, ae_leader_epoch = 1 \<rparr>"

theorem follower_log_matching_witness:
  "\<exists>a'. rl_mem no_crypto (rn_log (fst (on_append_entries (raft_log_ops no_crypto) 7 repeated_append storing_node))) a' [] \<and>
     al_term_at a' 2 = Inr 2 \<and> al_last_index a' = 2 \<and> al_term_at sample_abs 1 = Inr 1"
proof -
  let ?ops = "raft_log_ops no_crypto"
  obtain n' r where r: "on_append_entries ?ops 7 repeated_append storing_node = (n', r)" by fastforce
  have q: "op_last_index ?ops sample_raft_log = 2" "op_term_at ?ops sample_raft_log 1 = Inr 1"
    "op_term_at ?ops sample_raft_log 2 = Inr 2"
    by (simp_all add: raft_log_ops_def last_index_def term_at_def slot_of_def sample_raft_log_def sample_abs_def meta_of_def)
  have l: "rn_log storing_node = sample_raft_log" by (simp add: storing_node_def new_node_def)
  have t: "node_term storing_node = 0" by (simp add: storing_node_def new_node_def initial_persistent_def)
  have "ar_success r"
    using r q l t by (auto simp: on_append_entries_def repeated_append_def Let_def evolves_accept_leader)
  moreover have "run_usable ?ops (rl_usable no_crypto) (rn_log storing_node) (ae_entries repeated_append)"
    using q sample_raft_log_ok(3) rl_usable_log by (auto simp: l repeated_append_def)
  moreover have "rl_mem no_crypto (rn_log storing_node) sample_abs []" using sample_raft_log_ok(1) l by simp
  ultimately obtain a' where a': "rl_mem no_crypto (rn_log n') a' []"
    "matches_leader sample_abs a' 1 (ae_entries repeated_append)" "al_term_at sample_abs 1 = Inr 1"
    using follower_log_matching [OF r, of sample_abs] by (auto simp: repeated_append_def sample_abs_def)
  moreover have "al_last_index sample_abs = 2" by (simp add: sample_abs_def al_last_index_def)
  ultimately show ?thesis using r by (auto simp: matches_leader_def repeated_append_def intro!: exI [of _ a'])
qed

text \<open>
  A reply does not say which message it answers, and the leader credits the follower with the last
  index it has sent.  Leader 1 proposes two entries; follower 2 receives only the message with the first
  and answers; the leader then takes both for committed, although the second is on no other member.
\<close>

definition first_entry :: RaftLogEntry where
  "first_entry = \<lparr> le_term = 1, le_index = 1, le_type = Data, le_payload = encode sample_batch \<rparr>"

definition one_entry :: abs_log where
  "one_entry = fst (al_append empty_abs_log [first_entry])"

lemma one_entry_log:
  "al_append empty_abs_log [first_entry] = (one_entry, Inr 1)" "al_last_index one_entry = 1" "al_term_at one_entry 1 = Inr 1"
  "al_index one_entry = 0"
proof -
  have "decode (encode sample_batch) = Inr sample_batch" using decode_encode [OF sample_wf(1), of "[]"] by simp
  then have "al_append empty_abs_log [first_entry] = (al_push empty_abs_log first_entry sample_batch, Inr 1)"
    by (simp add: first_entry_def al_last_index_def al_push_def empty_abs_log_def)
  then show "al_append empty_abs_log [first_entry] = (one_entry, Inr 1)" "al_last_index one_entry = 1" "al_term_at one_entry 1 = Inr 1"
    "al_index one_entry = 0"
    by (simp_all add: one_entry_def al_last_index_def al_push_def empty_abs_log_def al_term_at_def al_slot_def first_entry_def)
qed


definition second_entry :: RaftLogEntry where
  "second_entry = \<lparr> le_term = 1, le_index = 2, le_type = Data, le_payload = encode next_batch \<rparr>"

definition two_entries :: abs_log where
  "two_entries = fst (al_append one_entry [second_entry])"

lemma two_entries_log:
  "al_append one_entry [second_entry] = (two_entries, Inr 2)" "al_last_index two_entries = 2" "al_term_at two_entries 2 = Inr 1"
  "al_index two_entries = 0"
proof -
  have "decode (encode next_batch) = Inr next_batch" using decode_encode [OF sample_wf(2), of "[]"] by simp
  then have e: "al_append one_entry [second_entry] = (al_push one_entry second_entry next_batch, Inr 2)"
    using one_entry_log(2) by (simp add: second_entry_def al_last_index_def al_push_def)
  then show "al_append one_entry [second_entry] = (two_entries, Inr 2)" by (simp add: two_entries_def)
  show "al_last_index two_entries = 2" "al_index two_entries = 0" "al_term_at two_entries 2 = Inr 1"
    using e one_entry_log(2,4)
    by (simp_all add: two_entries_def al_last_index_def al_push_def al_term_at_def al_slot_def second_entry_def nth_append)
qed

lemma abs_op_simps [simp]:
  "op_last_index abs_log_ops = al_last_index" "op_term_at abs_log_ops = al_term_at" "op_append abs_log_ops = al_append"
  "op_snapshot_index abs_log_ops = al_index" "op_entries_from abs_log_ops = al_entries_from" "op_last_term abs_log_ops = al_last_term"
  by (simp_all add: abs_log_ops_def)

lemma leader_node_simps [simp]:
  "rn_self leader_node = 1" "rn_peers leader_node = [2, 3]" "rn_log leader_node = empty_abs_log" "rn_role leader_node = Leader"
  "rn_persistent leader_node = \<lparr> current_term = 1, voted_for = Some 1 \<rparr>" "rn_outbox leader_node = []"
  "rn_volatile leader_node = reset_leader_progress initial_volatile [2, 3] 0" "rn_learners leader_node = []"
  by (simp_all add: leader_node_def member_def new_node_def)

lemma advance_commit_more_frame [simp]:
  "rn_outbox (advance_commit_index ops n) = rn_outbox n" "rn_last_sent (advance_commit_index ops n) = rn_last_sent n"
  "rn_self (advance_commit_index ops n) = rn_self n" "rn_peers (advance_commit_index ops n) = rn_peers n"
  "rn_learners (advance_commit_index ops n) = rn_learners n"
  "rn_transfer_target (advance_commit_index ops n) = rn_transfer_target n"
  by (simp_all add: advance_commit_index_def Let_def)

lemma replicate_all_target [simp]: "rn_transfer_target (replicate_all ops n) = rn_transfer_target n"
proof -
  have "rn_transfer_target (replicate_to ops p n) = rn_transfer_target n" for p and n :: "'a RaftNode"
    by (simp add: replicate_to_def send_snapshot_to_def send_def Let_def)
  then have "rn_transfer_target (fold (replicate_to ops) ps n) = rn_transfer_target n" for ps and n :: "'a RaftNode"
    by (induction ps arbitrary: n) simp_all
  then show ?thesis by (simp add: replicate_all_def)
qed

lemma commit_without_replication:
  defines "L1 \<equiv> fst (propose abs_log_ops sample_batch leader_node)"
  defines "L2 \<equiv> fst (propose abs_log_ops next_batch L1)"
  defines "F \<equiv> handle abs_log_ops 7 (hd (rn_outbox L1)) (member 2)"
  defines "L3 \<equiv> fst (handle abs_log_ops 7 \<lparr> msg_from = 2, msg_to = 1, msg_payload = hd (snd F) \<rparr> L2)"
  shows "msg_to (hd (rn_outbox L1)) = 2" "al_last_index (rn_log (fst F)) = 1" "commit_index (rn_volatile L3) = 2"
proof -
  let ?N1 = "leader_node\<lparr> rn_log := one_entry \<rparr>"
  have L1: "L1 = advance_commit_index abs_log_ops (replicate_all abs_log_ops ?N1)"
    using one_entry_log(1) by (simp add: L1_def propose_def Let_def first_entry_def empty_abs_log_def al_last_index_def)
  let ?e = "\<lparr> le_term = 1, le_index = 1, le_type = Data, le_payload = encode (rebase sample_batch 0) \<rparr>"
  have e1: "al_entries one_entry = [\<lparr> ae_entry_term = 1, ae_entry_type = Data, ae_batch = rebase sample_batch 0 \<rparr>]"
    using decode_encode [OF sample_wf(1), of "[]"] by (simp add: one_entry_def first_entry_def al_push_def empty_abs_log_def)
  have next1: "next_index (rn_volatile ?N1) 2 = 1" by simp
  have vol1: "rn_volatile L1 = reset_leader_progress initial_volatile [2, 3] 0"
    unfolding L1 by (simp add: advance_commit_index_def voter_matches_def is_voter_def Let_def one_entry_log initial_volatile_def)
  have out1: "hd (rn_outbox L1) = \<lparr> msg_from = 1, msg_to = 2, msg_payload = replication_payload abs_log_ops ?N1 2 \<rparr>"
    unfolding L1 by (simp add: replicate_all_effect)
  then show "msg_to (hd (rn_outbox L1)) = 2" by simp
  have pay: "replication_payload abs_log_ops ?N1 2 = AppendEntries \<lparr> ae_term = 1, ae_leader_id = 1, ae_prev_log_index = 0,
      ae_prev_log_term = 0, ae_entries = [?e], ae_leader_commit = 0, ae_leader_epoch = rn_leader_epoch leader_node \<rparr>"
    by (simp add: replication_payload_def replicate_to_def send_def Let_def one_entry_log al_entries_from_def al_slot_def
        e1 kMaxEntriesPerAppend_def al_term_at_def initial_volatile_def)
  have wf: "wf_batch (rebase sample_batch 0)"
    by (simp add: rebase_def sample_batch_def default_header_def wf_batch_def wf_header_def)
  have dec: "decode (encode (rebase sample_batch 0)) = Inr (rebase sample_batch 0)" using decode_encode [OF wf, of "[]"] by simp
  have m2: "rn_log (member 2) = empty_abs_log" "node_term (member 2) = 0" "commit_index (rn_volatile (member 2)) = 0"
    by (simp_all add: member_def new_node_def initial_persistent_def initial_volatile_def)
  have emp: "al_last_index empty_abs_log = 0" "al_term_at empty_abs_log 0 = Inr 0"
    by (simp_all add: al_last_index_def al_term_at_def empty_abs_log_def)
  have ap: "append_entries_from abs_log_ops empty_abs_log [?e] = (al_push empty_abs_log ?e (rebase sample_batch 0), True)"
    by (simp add: append_suffix_def dec al_last_index_def empty_abs_log_def)
  have F: "snd F = [AppendEntriesR \<lparr> ar_term = 1, ar_success = True, ar_conflict_index = 0 \<rparr>]"
    "rn_log (fst F) = al_push empty_abs_log ?e (rebase sample_batch 0)"
    unfolding F_def out1 pay handle_def
    by (simp_all add: on_append_entries_def Let_def m2 emp evolves_accept_leader ap del: append_entries_from.simps)
  show "al_last_index (rn_log (fst F)) = 1" unfolding F(2) by (simp add: al_last_index_def al_push_def empty_abs_log_def)
  have l1: "rn_log L1 = one_entry" "rn_role L1 = Leader" "rn_persistent L1 = \<lparr> current_term = 1, voted_for = Some 1 \<rparr>"
    "rn_peers L1 = [2, 3]" "rn_self L1 = 1" "rn_learners L1 = []" "rn_transfer_target L1 = None"
    unfolding L1 by (simp_all add: advance_commit_frame) (simp add: leader_node_def member_def new_node_def)
  let ?N2 = "L1\<lparr> rn_log := two_entries \<rparr>"
  have L2: "L2 = advance_commit_index abs_log_ops (replicate_all abs_log_ops ?N2)"
    using two_entries_log(1) l1 by (simp add: L2_def propose_def Let_def second_entry_def one_entry_log)
  have l2: "rn_log L2 = two_entries" "rn_role L2 = Leader" "rn_persistent L2 = \<lparr> current_term = 1, voted_for = Some 1 \<rparr>"
    "rn_peers L2 = [2, 3]" "rn_self L2 = 1" "rn_learners L2 = []" "rn_transfer_target L2 = None"
    unfolding L2 by (simp_all add: advance_commit_frame l1)
  have vol2: "rn_volatile L2 = reset_leader_progress initial_volatile [2, 3] 0"
    unfolding L2 by (simp add: advance_commit_index_def voter_matches_def is_voter_def Let_def two_entries_log initial_volatile_def vol1 l1)
  have "length (al_entries two_entries) = 2" using two_entries_log(2,4) by (simp add: al_last_index_def)
  then obtain x y where xy: "al_entries two_entries = [x, y]" by (auto simp: numeral_2_eq_2 length_Suc_conv)
  have "sent_index abs_log_ops two_entries 1 = 2"
    by (simp add: sent_index_def two_entries_log al_entries_from_def al_slot_def xy kMaxEntriesPerAppend_def)
  then have sent: "rn_last_sent L2 2 = Some 2"
    unfolding L2 by (simp add: replicate_all_effect l1 vol1)
  show "commit_index (rn_volatile L3) = 2"
    unfolding L3_def F(1) handle_def
    by (simp add: on_append_entries_reply_def l2 record_match_def sent Let_def vol2)
      (simp add: advance_commit_index_def voter_matches_def is_voter_def Let_def l2 two_entries_log initial_volatile_def)
qed

end
