(* ===== verification/Raft_System.thy ===== *)
theory Raft_System
  imports Raft_Carrier
begin

text \<open>
  A group of replicas and the network between them.  Every member runs its carrier
  (\<^verbatim>\<open>src/src/consensus/raft_carrier.cpp\<close>) with a store; messages once sent stay deliverable for ever, in any
  order and any number of times, so that loss, delay, reordering and duplication are all executions.
  A restart keeps the file of the store and loses the rest.  \<open>sys_voted\<close> and \<open>sys_elected\<close> record the
  history: who voted for whom in which term, and who has led which term.
\<close>


section \<open>What a node queues\<close>

text \<open>
  The outbox holds requests only, in the name of the node; replies are returned by the handlers.
\<close>

fun own_request :: "int \<Rightarrow> RaftPayload \<Rightarrow> bool" where
  "own_request self (RequestVoteR _) = False"
| "own_request self (AppendEntriesR _) = False"
| "own_request self (InstallSnapshotR _) = False"
| "own_request self (RequestVote args) = (rv_candidate_id args = self)"
| "own_request self _ = True"

definition outbox_ok :: "'l RaftNode \<Rightarrow> bool" where
  "outbox_ok n \<longleftrightarrow> (\<forall>m \<in> set (rn_outbox n). msg_from m = rn_self n \<and> own_request (rn_self n) (msg_payload m))"

lemma outbox_ok_send: "outbox_ok n \<Longrightarrow> own_request (rn_self n) p \<Longrightarrow> outbox_ok (send to p n)"
  by (auto simp: outbox_ok_def send_def)

lemma outbox_ok_fold: "outbox_ok n \<Longrightarrow> (\<And>x n. outbox_ok n \<Longrightarrow> outbox_ok (f x n)) \<Longrightarrow> outbox_ok (fold f xs n)"
  by (induction xs arbitrary: n) simp_all

lemma outbox_frames [simp]:
  "rn_outbox (reset_election_timer now n) = rn_outbox n" "rn_outbox (reset_heartbeat_timer now n) = rn_outbox n"
  "rn_outbox (become_follower now t n) = rn_outbox n" "rn_outbox (record_vote v n) = rn_outbox n"
  "rn_outbox (advance_term t n) = rn_outbox n" "rn_outbox (accept_leader now t leader n) = rn_outbox n"
  "rn_outbox (record_match ops p n) = rn_outbox n"
proof -
  show r: "rn_outbox (reset_election_timer now n) = rn_outbox n" for n :: "'a RaftNode"
    by (simp add: reset_election_timer_def random_election_timeout_def Let_def)
  show b: "rn_outbox (become_follower now t n) = rn_outbox n" for n :: "'a RaftNode"
    by (simp add: become_follower_def advance_term_def r Let_def)
  show "rn_outbox (accept_leader now t leader n) = rn_outbox n"
    by (simp add: accept_leader_def r b Let_def)
qed (simp_all add: reset_heartbeat_timer_def record_vote_def advance_term_def record_match_def Let_def)

lemma become_follower_self [simp]: "rn_self (become_follower now t n) = rn_self n"
  using become_follower_core(1) [of n now t] by (simp add: same_members_def)

lemma outbox_ok_updates [simp]:
  "outbox_ok (reset_election_timer now n) = outbox_ok n" "outbox_ok (reset_heartbeat_timer now n) = outbox_ok n"
  "outbox_ok (become_follower now t n) = outbox_ok n" "outbox_ok (record_vote v n) = outbox_ok n"
  "outbox_ok (advance_term t n) = outbox_ok n" "outbox_ok (accept_leader now t leader n) = outbox_ok n"
  "outbox_ok (record_match ops p n) = outbox_ok n" "outbox_ok (advance_commit_index ops n) = outbox_ok n"
  "outbox_ok (n\<lparr> rn_role := role \<rparr>) = outbox_ok n" "outbox_ok (n\<lparr> rn_votes := vs \<rparr>) = outbox_ok n"
  "outbox_ok (n\<lparr> rn_leader_id := lid \<rparr>) = outbox_ok n" "outbox_ok (n\<lparr> rn_leader_epoch := ep \<rparr>) = outbox_ok n"
  "outbox_ok (n\<lparr> rn_volatile := vol \<rparr>) = outbox_ok n" "outbox_ok (n\<lparr> rn_last_sent := ls \<rparr>) = outbox_ok n"
  "outbox_ok (n\<lparr> rn_transfer_target := tt \<rparr>) = outbox_ok n" "outbox_ok (n\<lparr> rn_log := l \<rparr>) = outbox_ok n"
  "outbox_ok (n\<lparr> rn_started := st \<rparr>) = outbox_ok n" "outbox_ok (n\<lparr> rn_dirty := d \<rparr>) = outbox_ok n"
  by (simp_all add: outbox_ok_def record_vote_def advance_term_def accept_leader_def
      record_match_def Let_def)

lemma outbox_ok_replicate_to: "outbox_ok n \<Longrightarrow> outbox_ok (replicate_to ops p n)"
  by (auto simp: outbox_ok_def replicate_to_def send_snapshot_to_def send_def Let_def)

lemma outbox_ok_replicate_all: "outbox_ok n \<Longrightarrow> outbox_ok (replicate_all ops n)"
  unfolding replicate_all_def by (rule outbox_ok_fold) (simp_all add: outbox_ok_replicate_to)

lemma outbox_ok_broadcast: "outbox_ok n \<Longrightarrow> outbox_ok (broadcast_request_vote ops pre n)"
proof -
  have "outbox_ok (fold (\<lambda>p. send p (RequestVote args)) ps n) \<and> rn_self (fold (\<lambda>p. send p (RequestVote args)) ps n) = rn_self n"
    if "outbox_ok n" "rv_candidate_id args = rn_self n" for args ps and n :: "'a RaftNode"
    using that by (induction ps arbitrary: n) (simp_all add: outbox_ok_send same_coreD(1) [OF same_core_steps(3)])
  then show "outbox_ok n \<Longrightarrow> outbox_ok (broadcast_request_vote ops pre n)"
    by (simp add: broadcast_request_vote_def)
qed

lemma outbox_ok_transfer: "outbox_ok n \<Longrightarrow> outbox_ok (maybe_transfer_to ops p n)"
  by (auto simp: maybe_transfer_to_def outbox_ok_replicate_to) (auto simp: outbox_ok_def send_def)

lemma outbox_ok_leader: "outbox_ok n \<Longrightarrow> outbox_ok (become_leader ops now n)"
  unfolding become_leader_def by (rule outbox_ok_replicate_all) simp

lemma outbox_ok_candidate: "outbox_ok n \<Longrightarrow> outbox_ok (become_candidate ops now n)"
  unfolding become_candidate_def Let_def by (auto intro!: outbox_ok_leader outbox_ok_broadcast)

lemma outbox_ok_pre_election: "outbox_ok n \<Longrightarrow> outbox_ok (start_pre_election ops now n)"
  unfolding start_pre_election_def Let_def by (auto intro!: outbox_ok_candidate outbox_ok_broadcast)

lemmas outbox_ok_steps = outbox_ok_replicate_to outbox_ok_replicate_all outbox_ok_broadcast outbox_ok_transfer
  outbox_ok_leader outbox_ok_candidate outbox_ok_pre_election

lemma outbox_ok_tick: "outbox_ok n \<Longrightarrow> outbox_ok (tick ops now n)"
  unfolding tick_def by (auto intro!: outbox_ok_steps)

lemma outbox_ok_propose: "outbox_ok n \<Longrightarrow> outbox_ok (fst (propose ops b n))"
  by (auto simp: propose_def Let_def split: prod.split sum.split intro!: outbox_ok_steps)

lemma outbox_ok_transfer_leadership: "outbox_ok n \<Longrightarrow> outbox_ok (fst (transfer_leadership ops p n))"
  by (auto simp: transfer_leadership_def intro!: outbox_ok_steps)

lemma outbox_ok_handle: "outbox_ok n \<Longrightarrow> outbox_ok (fst (handle ops now m n))"
  by (cases "msg_payload m")
    (auto simp: handle_def on_request_vote_def on_append_entries_def on_install_snapshot_def on_timeout_now_def
      on_request_vote_reply_def on_append_entries_reply_def on_install_snapshot_reply_def Let_def
      split: prod.split sum.split bool.split intro!: outbox_ok_steps)


section \<open>The group\<close>

record 'l sys =
  sys_members :: "int set"
  sys_learners :: "int set"
  sys_nodes :: "int \<Rightarrow> 'l RaftCarrier"
  sys_net :: "(bool \<times> RaftMessage) set"
  sys_voted :: "(int \<times> int \<times> int) set"
  sys_elected :: "(int \<times> int) set"

abbreviation sys_node :: "'l sys \<Rightarrow> int \<Rightarrow> 'l RaftNode" where
  "sys_node s i \<equiv> rc_node (sys_nodes s i)"

text \<open>
  A message in the network carries a mark that the code does not send: whether it answers the question
  of a pre-vote.  The direct reply is the first envelope that \<open>on_message\<close> emits.
\<close>

definition is_pre_vote :: "RaftMessage \<Rightarrow> bool" where
  "is_pre_vote m \<longleftrightarrow> (case msg_payload m of RequestVote a \<Rightarrow> rv_pre_vote a | _ \<Rightarrow> False)"

fun marked :: "bool \<Rightarrow> RaftEnvelope list \<Rightarrow> (bool \<times> RaftMessage) set" where
  "marked pre [] = {}"
| "marked pre (e # es) = insert (pre, env_message e) (marked False es)"

definition new_votes :: "int \<Rightarrow> 'l RaftNode \<Rightarrow> (int \<times> int \<times> int) set" where
  "new_votes i n = (case voted_for (rn_persistent n) of None \<Rightarrow> {} | Some v \<Rightarrow> {(i, node_term n, v)})"

definition settle :: "'l sys \<Rightarrow> int \<Rightarrow> 'l RaftCarrier \<Rightarrow> (bool \<times> RaftMessage) set \<Rightarrow> 'l sys" where
  "settle s i c ms = s\<lparr> sys_nodes := (sys_nodes s)(i := c), sys_net := sys_net s \<union> ms,
     sys_voted := sys_voted s \<union> new_votes i (rc_node c),
     sys_elected := sys_elected s \<union> (if rn_role (rc_node c) = Leader then {(i, node_term (rc_node c))} else {}) \<rparr>"

text \<open>
  The executions.  With \<open>strict\<close>, no answer to a pre-vote reaches a node that has become a candidate.
  A restart may find any log; terms and ids are within the widths of the record.
\<close>

inductive sys_step :: "'l log_ops \<Rightarrow> bool \<Rightarrow> 'l sys \<Rightarrow> 'l sys \<Rightarrow> bool" for ops strict where
  step_tick: "i \<in> sys_members s \<Longrightarrow> on_tick ops now (sys_nodes s i) = (c, out) \<Longrightarrow>
    sys_step ops strict s (settle s i c (marked False out))"
| step_deliver: "(pre, m) \<in> sys_net s \<Longrightarrow> msg_to m \<in> sys_members s \<Longrightarrow>
    \<not> (strict \<and> pre \<and> rn_role (sys_node s (msg_to m)) = Candidate) \<Longrightarrow>
    on_message ops now m (sys_nodes s (msg_to m)) = (c, out) \<Longrightarrow>
    sys_step ops strict s (settle s (msg_to m) c (marked (is_pre_vote m) out))"
| step_propose: "i \<in> sys_members s \<Longrightarrow> n = fst (propose ops b (sys_node s i)) \<Longrightarrow>
    sys_step ops strict s (settle s i ((sys_nodes s i)\<lparr> rc_node := n \<rparr>) {})"
| step_transfer: "i \<in> sys_members s \<Longrightarrow> n = fst (transfer_leadership ops target (sys_node s i)) \<Longrightarrow>
    sys_step ops strict s (settle s i ((sys_nodes s i)\<lparr> rc_node := n \<rparr>) {})"
| step_restart: "i \<in> sys_members s \<Longrightarrow> wf_state (rn_persistent (sys_node s i)) \<Longrightarrow>
    n = new_node i (rn_peers (sys_node s i)) l (rn_config (sys_node s i)) (rn_learners (sys_node s i)) \<Longrightarrow>
    recover ((sys_nodes s i)\<lparr> rc_node := n \<rparr>) = (c, Inr u) \<Longrightarrow>
    sys_step ops strict s (settle s i c {})"

inductive reachable :: "'l log_ops \<Rightarrow> bool \<Rightarrow> 'l sys \<Rightarrow> 'l sys \<Rightarrow> bool" for ops strict s where
  reachable_refl: "reachable ops strict s s"
| reachable_step: "reachable ops strict s t \<Longrightarrow> sys_step ops strict t u \<Longrightarrow> reachable ops strict s u"

inductive_cases sys_stepE: "sys_step ops strict s s'"

text \<open>The start: new nodes that know each other, with empty stores.\<close>

definition knows :: "'l sys \<Rightarrow> int \<Rightarrow> 'l RaftNode \<Rightarrow> bool" where
  "knows s i n \<longleftrightarrow> rn_self n = i \<and> distinct (i # rn_peers n) \<and> set (i # rn_peers n) = sys_members s \<and>
     set (rn_learners n) = sys_learners s"

definition store_ok :: "'l RaftCarrier \<Rightarrow> bool" where
  "store_ok c \<longleftrightarrow> (case rc_store c of None \<Rightarrow> False
     | Some f \<Rightarrow> readable f \<and> sched f = [] \<and> \<not> rn_dirty (rc_node c) \<and> holds_state f (rn_persistent (rc_node c)))"

definition fresh :: "'l sys \<Rightarrow> bool" where
  "fresh s \<longleftrightarrow> sys_net s = {} \<and> sys_voted s = {} \<and> sys_elected s = {} \<and>
     (\<forall>i \<in> sys_members s. knows s i (sys_node s i) \<and> store_ok (sys_nodes s i) \<and> rn_role (sys_node s i) = Follower \<and>
        rn_persistent (sys_node s i) = initial_persistent \<and> rn_outbox (sys_node s i) = [])"

abbreviation voters :: "'l sys \<Rightarrow> int set" where
  "voters s \<equiv> sys_members s - sys_learners s"

definition quorum :: "'l sys \<Rightarrow> int set \<Rightarrow> bool" where
  "quorum s Q \<longleftrightarrow> Q \<subseteq> voters s \<and> 2 * card Q > card (voters s)"

lemma knows_majority:
  assumes "knows s i n"
  shows "is_voter n v \<longleftrightarrow> v \<notin> sys_learners s" "cluster_size n = card (voters s)" "finite (voters s)"
proof -
  have k: "rn_self n = i" "distinct (i # rn_peers n)" "set (i # rn_peers n) = sys_members s"
    "set (rn_learners n) = sys_learners s"
    using assms by (simp_all add: knows_def)
  show v: "is_voter n v \<longleftrightarrow> v \<notin> sys_learners s" for v using k(4) by (simp add: is_voter_def)
  have "cluster_size n = length (filter (is_voter n) (i # rn_peers n))" using k(1) by (simp add: cluster_size_def)
  also have "\<dots> = card (set (filter (is_voter n) (i # rn_peers n)))" using k(2) by (metis distinct_card distinct_filter)
  also have "set (filter (is_voter n) (i # rn_peers n)) = voters s"
    unfolding set_filter k(3) v by blast
  finally show "cluster_size n = card (voters s)" .
  show "finite (voters s)" using k(3) by (metis List.finite_set finite_Diff)
qed

lemma quorums_meet:
  assumes "quorum s P" "quorum s Q" "finite (voters s)"
  obtains v where "v \<in> P" "v \<in> Q"
proof -
  have "card (P \<union> Q) \<le> card (voters s)"
    using assms by (intro card_mono) (auto simp: quorum_def)
  moreover have "finite P" "finite Q" using assms by (auto simp: quorum_def intro: finite_subset)
  moreover have "card P + card Q > card (voters s)" using assms(1,2) by (simp add: quorum_def)
  ultimately have "P \<inter> Q \<noteq> {}" using card_Un_disjoint [of P Q] by linarith
  then show thesis using that by blast
qed


section \<open>The invariant\<close>

definition member_ok :: "'l sys \<Rightarrow> int \<Rightarrow> bool" where
  "member_ok s i \<longleftrightarrow> (let n = sys_node s i in
     knows s i n \<and> node_inv n \<and> outbox_ok n \<and> store_ok (sys_nodes s i) \<and> new_votes i n \<subseteq> sys_voted s \<and>
     (rn_role n = Candidate \<or> rn_role n = Leader \<longrightarrow>
        (\<forall>v \<in> rn_votes n. v \<in> voters s \<and> (v, node_term n, i) \<in> sys_voted s)) \<and>
     (rn_role n = Leader \<longrightarrow> (i, node_term n) \<in> sys_elected s))"

definition backed :: "(int \<times> int \<times> int) set \<Rightarrow> bool \<times> RaftMessage \<Rightarrow> bool" where
  "backed voted x \<longleftrightarrow> (case x of (pre, m) \<Rightarrow> (case msg_payload m of
       RequestVote args \<Rightarrow> rv_candidate_id args = msg_from m
     | RequestVoteR r \<Rightarrow> \<not> pre \<and> vr_vote_granted r \<longrightarrow> (msg_from m, vr_term r, msg_to m) \<in> voted
     | _ \<Rightarrow> True))"

definition sys_inv :: "'l sys \<Rightarrow> bool" where
  "sys_inv s \<longleftrightarrow> (\<forall>i \<in> sys_members s. member_ok s i) \<and>
     (\<forall>(v, t, c) \<in> sys_voted s. v \<in> sys_members s \<and> persistent_le \<lparr> current_term = t, voted_for = Some c \<rparr> (rn_persistent (sys_node s v))) \<and>
     (\<forall>v t c d. (v, t, c) \<in> sys_voted s \<and> (v, t, d) \<in> sys_voted s \<longrightarrow> c = d) \<and>
     (\<forall>x \<in> sys_net s. backed (sys_voted s) x) \<and>
     (\<forall>(i, t) \<in> sys_elected s. \<exists>Q. quorum s Q \<and> (\<forall>v \<in> Q. (v, t, i) \<in> sys_voted s))"

lemma sys_invD:
  assumes "sys_inv s"
  shows "i \<in> sys_members s \<Longrightarrow> member_ok s i" "(v, t, c) \<in> sys_voted s \<Longrightarrow> v \<in> sys_members s"
    "(v, t, c) \<in> sys_voted s \<Longrightarrow> persistent_le \<lparr> current_term = t, voted_for = Some c \<rparr> (rn_persistent (sys_node s v))"
    "(v, t, c) \<in> sys_voted s \<Longrightarrow> (v, t, d) \<in> sys_voted s \<Longrightarrow> c = d"
    "x \<in> sys_net s \<Longrightarrow> backed (sys_voted s) x"
    "(i, t) \<in> sys_elected s \<Longrightarrow> \<exists>Q. quorum s Q \<and> (\<forall>v \<in> Q. (v, t, i) \<in> sys_voted s)"
  using assms unfolding sys_inv_def by (simp, fastforce, fastforce, metis, simp, fastforce)

lemma sys_invI:
  assumes "\<And>i. i \<in> sys_members s \<Longrightarrow> member_ok s i"
    "\<And>v t c. (v, t, c) \<in> sys_voted s \<Longrightarrow>
       v \<in> sys_members s \<and> persistent_le \<lparr> current_term = t, voted_for = Some c \<rparr> (rn_persistent (sys_node s v))"
    "\<And>v t c d. (v, t, c) \<in> sys_voted s \<Longrightarrow> (v, t, d) \<in> sys_voted s \<Longrightarrow> c = d"
    "\<And>x. x \<in> sys_net s \<Longrightarrow> backed (sys_voted s) x"
    "\<And>i t. (i, t) \<in> sys_elected s \<Longrightarrow> \<exists>Q. quorum s Q \<and> (\<forall>v \<in> Q. (v, t, i) \<in> sys_voted s)"
  shows "sys_inv s"
  unfolding sys_inv_def by (intro conjI ballI allI impI; clarsimp?) (use assms in blast)+

lemma sys_inv_elected:
  assumes "sys_inv s" "(i, t) \<in> sys_elected s" "(j, t) \<in> sys_elected s" "k \<in> sys_members s"
  shows "i = j"
proof -
  obtain P Q where P: "quorum s P" "\<forall>v \<in> P. (v, t, i) \<in> sys_voted s" and Q: "quorum s Q" "\<forall>v \<in> Q. (v, t, j) \<in> sys_voted s"
    using sys_invD(6) [OF assms(1)] assms(2,3) by meson
  have "knows s k (sys_node s k)" using sys_invD(1) [OF assms(1,4)] by (simp add: member_ok_def Let_def)
  then obtain v where "v \<in> P" "v \<in> Q" using quorums_meet [OF P(1) Q(1) knows_majority(3)] by blast
  with P Q have "(v, t, i) \<in> sys_voted s" "(v, t, j) \<in> sys_voted s" by blast+
  then show ?thesis by (rule sys_invD(4) [OF assms(1)])
qed

lemma fresh_inv: "fresh s \<Longrightarrow> sys_inv s"
  by (auto simp: sys_inv_def fresh_def member_ok_def Let_def node_inv_def outbox_ok_def new_votes_def initial_persistent_def)


text \<open>What a member that takes one step owes to the group.\<close>

lemma backed_mono: "backed voted x \<Longrightarrow> voted \<subseteq> voted' \<Longrightarrow> backed voted' x"
  by (auto simp: backed_def split: prod.splits RaftPayload.splits)

lemma settle_simps [simp]:
  "sys_members (settle s i c ms) = sys_members s" "sys_learners (settle s i c ms) = sys_learners s"
  "sys_nodes (settle s i c ms) = (sys_nodes s)(i := c)" "sys_net (settle s i c ms) = sys_net s \<union> ms"
  "sys_voted (settle s i c ms) = sys_voted s \<union> new_votes i (rc_node c)"
  "sys_elected (settle s i c ms) =
     sys_elected s \<union> (if rn_role (rc_node c) = Leader then {(i, node_term (rc_node c))} else {})"
  "knows (settle s i c ms) = knows s" "quorum (settle s i c ms) = quorum s"
  by (simp_all add: settle_def knows_def quorum_def fun_eq_iff)

lemma new_votesD: "(v, t, c) \<in> new_votes i n \<Longrightarrow> v = i \<and> rn_persistent n = \<lparr> current_term = t, voted_for = Some c \<rparr>"
  by (cases "rn_persistent n") (auto simp: new_votes_def split: option.splits)

lemma settle_inv:
  assumes inv: "sys_inv s" and i: "i \<in> sys_members s"
    and kn: "knows s i (rc_node c)" "node_inv (rc_node c)" "outbox_ok (rc_node c)" "store_ok c"
    and le: "persistent_le (rn_persistent (sys_node s i)) (rn_persistent (rc_node c))"
    and votes: "rn_role (rc_node c) = Candidate \<or> rn_role (rc_node c) = Leader \<Longrightarrow>
      \<forall>v \<in> rn_votes (rc_node c). v \<in> voters s \<and> (v, node_term (rc_node c), i) \<in> sys_voted s \<union> new_votes i (rc_node c)"
    and lead: "rn_role (rc_node c) = Leader \<Longrightarrow>
      (i, node_term (rc_node c)) \<in> sys_elected s \<or> quorum s (rn_votes (rc_node c))"
    and msgs: "\<forall>x \<in> ms. backed (sys_voted s \<union> new_votes i (rc_node c)) x"
  shows "sys_inv (settle s i c ms)"
proof -
  let ?s = "settle s i c ms" and ?n = "rc_node c"
  note D = sys_invD [OF inv]
  have old: "persistent_le \<lparr> current_term = t, voted_for = Some d \<rparr> (rn_persistent (sys_node ?s v))"
    if "(v, t, d) \<in> sys_voted s" for v t d
    using D(3) [OF that] persistent_le_trans [OF _ le] by (cases "v = i") auto
  have m: "member_ok ?s j" if "j \<in> sys_members s" for j
    using D(1) [OF that] kn votes by (cases "j = i") (auto simp: member_ok_def Let_def)
  have v: "d \<in> sys_members s \<and> persistent_le \<lparr> current_term = t, voted_for = Some e \<rparr> (rn_persistent (sys_node ?s d))"
    if "(d, t, e) \<in> sys_voted ?s" for d t e
  proof (cases "(d, t, e) \<in> sys_voted s")
    case True
    then show ?thesis using old [OF True] D(2) [OF True] by blast
  next
    case False
    then have "(d, t, e) \<in> new_votes i ?n" using that by simp
    then show ?thesis using i new_votesD [of d t e i ?n] by simp
  qed
  have "d = e" if "(v, t, d) \<in> sys_voted s" "(v, t, e) \<in> new_votes i ?n" for v t d e
    using old [OF that(1)] new_votesD [OF that(2)] by (simp add: persistent_le_def)
  moreover have "d = e" if "(v, t, d) \<in> new_votes i ?n" "(v, t, e) \<in> new_votes i ?n" for v t d e
    using new_votesD [OF that(1)] new_votesD [OF that(2)] by simp
  ultimately have f: "d = e" if "(v, t, d) \<in> sys_voted ?s" "(v, t, e) \<in> sys_voted ?s" for v t d e
    using that D(4) by (metis Un_iff settle_simps(5))
  have b: "backed (sys_voted ?s) x" if "x \<in> sys_net ?s" for x
    using that msgs D(5) [of x] backed_mono [of "sys_voted s" x "sys_voted ?s"] by auto
  have "\<exists>Q. quorum s Q \<and> (\<forall>v \<in> Q. (v, t, j) \<in> sys_voted ?s)" if "(j, t) \<in> sys_elected s" for j t
    using D(6) [OF that] by auto
  then have e: "\<exists>Q. quorum s Q \<and> (\<forall>v \<in> Q. (v, t, j) \<in> sys_voted ?s)" if "(j, t) \<in> sys_elected ?s" for j t
    using that lead votes by (auto split: if_splits)
  show ?thesis
  proof (rule sys_invI)
    show "member_ok ?s j" if "j \<in> sys_members ?s" for j using that by (intro m) simp
    show "\<exists>Q. quorum ?s Q \<and> (\<forall>v \<in> Q. (v, t, j) \<in> sys_voted ?s)" if "(j, t) \<in> sys_elected ?s" for j t
      using e [OF that] by simp
  qed (use v f b in \<open>simp_all only: settle_simps(1)\<close>)
qed

text \<open>The votes and the leadership that an ordinary input leaves behind.\<close>

lemma evolves_votes:
  assumes inv: "sys_inv s" "i \<in> sys_members s" and e: "evolves (sys_node s i) n"
  shows "knows s i n"
    "rn_role n = Candidate \<or> rn_role n = Leader \<Longrightarrow>
      \<forall>v \<in> rn_votes n. v \<in> voters s \<and> (v, node_term n, i) \<in> sys_voted s \<union> new_votes i n"
    "rn_role n = Leader \<Longrightarrow> (i, node_term n) \<in> sys_elected s \<or> quorum s (rn_votes n)"
proof -
  have m: "member_ok s i" using sys_invD(1) [OF inv] .
  then have k: "knows s i (sys_node s i)" by (simp add: member_ok_def Let_def)
  then show kn: "knows s i n" using e by (simp add: knows_def evolves_def same_members_def)
  have self: "rn_self n = i" "rn_self (sys_node s i) = i" using k kn by (simp_all add: knows_def)
  have voter: "i \<in> voters s" if "rn_role n \<noteq> Follower"
    using e that self inv(2) knows_majority(1) [OF kn] by (auto simp: evolves_def node_inv_def)
  have own: "(i, node_term n, i) \<in> new_votes i n" if "rn_role n = Candidate \<or> rn_role n = Leader"
    using e that self by (auto simp: evolves_def node_inv_def new_votes_def)
  show "\<forall>v \<in> rn_votes n. v \<in> voters s \<and> (v, node_term n, i) \<in> sys_voted s \<union> new_votes i n"
    if r: "rn_role n = Candidate \<or> rn_role n = Leader"
  proof (cases "rn_votes n = {i}")
    case True
    then show ?thesis using own [OF r] voter r by auto
  next
    case False
    then have "rn_role n = rn_role (sys_node s i)" "rn_persistent n = rn_persistent (sys_node s i)"
      "rn_votes n = rn_votes (sys_node s i)"
      using e r self by (auto simp: evolves_def)
    then show ?thesis using m r by (auto simp: member_ok_def Let_def)
  qed
  show "(i, node_term n) \<in> sys_elected s \<or> quorum s (rn_votes n)" if r: "rn_role n = Leader"
  proof (cases "rn_votes n = {i} \<and> has_majority (sys_node s i) 1")
    case True
    then have "2 * card (rn_votes n) > card (voters s)" using knows_majority(2) [OF k] by (simp add: has_majority_def)
    then show ?thesis using voter r True by (simp add: quorum_def)
  next
    case False
    then have "rn_role n = rn_role (sys_node s i) \<and> rn_persistent n = rn_persistent (sys_node s i)"
      using e r self unfolding evolves_def by (metis RaftRole.distinct(5,9,12))
    then show ?thesis using m r by (simp add: member_ok_def Let_def)
  qed
qed

lemma counts_votes:
  assumes inv: "sys_inv s" "i \<in> sys_members s" and e: "counts_vote from reply (sys_node s i) n"
    and b: "(from, vr_term reply, i) \<in> sys_voted s"
  shows "knows s i n"
    "\<forall>v \<in> rn_votes n. v \<in> voters s \<and> (v, node_term n, i) \<in> sys_voted s \<union> new_votes i n"
    "rn_role n = Leader \<Longrightarrow> (i, node_term n) \<in> sys_elected s \<or> quorum s (rn_votes n)"
proof -
  have m: "member_ok s i" using sys_invD(1) [OF inv] .
  then have k: "knows s i (sys_node s i)" by (simp add: member_ok_def Let_def)
  then show kn: "knows s i n" using e by (simp add: knows_def counts_vote_def same_members_def)
  have "from \<in> voters s"
    using e sys_invD(2) [OF inv(1) b] knows_majority(1) [OF k] by (simp add: counts_vote_def)
  then show v: "\<forall>v \<in> rn_votes n. v \<in> voters s \<and> (v, node_term n, i) \<in> sys_voted s \<union> new_votes i n"
    using m e b by (auto simp: member_ok_def Let_def counts_vote_def)
  show "(i, node_term n) \<in> sys_elected s \<or> quorum s (rn_votes n)" if "rn_role n = Leader"
    using that v e knows_majority(2) [OF k]
    by (auto simp: quorum_def counts_vote_def has_majority_def split: if_splits)
qed


section \<open>Every step keeps the invariant\<close>

lemma store_ok_flush:
  assumes "store_ok c" "rn_persistent n \<noteq> rn_persistent (rc_node c) \<longrightarrow> rn_dirty n"
    "flush_outbox (c\<lparr> rc_node := n \<rparr>) = (c', sent)"
  shows "store_ok c'" "rc_node c' = n\<lparr> rn_dirty := False, rn_outbox := [] \<rparr>" "map env_message sent = rn_outbox n"
proof -
  obtain f where f: "rc_store c = Some f" "readable f" "sched f = []" "holds_state f (rn_persistent (rc_node c))"
    using assms(1) by (auto simp: store_ok_def split: option.splits)
  have "store_ok c' \<and> rc_node c' = n\<lparr> rn_dirty := False, rn_outbox := [] \<rparr> \<and> map env_message sent = rn_outbox n"
  proof (cases "rn_dirty n")
    case True
    obtain f1 where sv: "store_save f (rn_persistent n) = (f1, Inr ())" "sched f1 = []"
      using store_save_healthy [OF f(3), of "rn_persistent n"] f(3) by simp
    have "readable f1" "holds_state f1 (rn_persistent n)"
      using store_save_cases [OF sv(1)] f(2) by (simp_all add: readable_def)
    then show ?thesis using assms(3) f(1) True sv
      by (auto simp: flush_outbox_def drain_simps clear_persistent_dirty_def store_ok_def emit_def o_def)
  next
    case False
    then show ?thesis using assms(2,3) f
      by (auto simp: flush_outbox_def drain_simps store_ok_def emit_def o_def)
  qed
  then show "store_ok c'" "rc_node c' = n\<lparr> rn_dirty := False, rn_outbox := [] \<rparr>" "map env_message sent = rn_outbox n"
    by blast+
qed

lemma marked_False: "marked False es = Pair False ` env_message ` set es"
  by (induction es) simp_all

lemma outbox_backed: "outbox_ok n \<Longrightarrow> m \<in> set (rn_outbox n) \<Longrightarrow> backed voted (False, m)"
  by (cases "msg_payload m") (auto simp: outbox_ok_def backed_def)

text \<open>The node after the flush and the compaction differs from the handled one in nothing that counts here.\<close>

definition same_votes :: "'l RaftNode \<Rightarrow> 'l RaftNode \<Rightarrow> bool" where
  "same_votes n n' \<longleftrightarrow> same_members n n' \<and> rn_persistent n' = rn_persistent n \<and> rn_role n' = rn_role n \<and> rn_votes n' = rn_votes n"

lemma same_votes_compact: "rc_node c = n\<lparr> rn_dirty := d, rn_outbox := out \<rparr> \<Longrightarrow> same_votes n (rc_node (maybe_compact ops c))"
  by (simp add: same_votes_def same_members_def maybe_compact_def Let_def)

lemma same_votesD:
  assumes "same_votes n n'"
  shows "rn_role n' = rn_role n" "rn_votes n' = rn_votes n" "rn_persistent n' = rn_persistent n"
    "knows s i n' = knows s i n" "node_inv n' = node_inv n" "new_votes i n' = new_votes i n"
  using assms members_cong(1) [of n n']
  by (auto simp: same_votes_def knows_def same_members_def node_inv_def new_votes_def split: option.splits)

lemma outbox_store_compact:
  "rn_outbox (rc_node (maybe_compact ops c)) = rn_outbox (rc_node c)" "store_ok (maybe_compact ops c) = store_ok c"
  by (simp_all add: maybe_compact_def Let_def store_ok_def split: option.splits)

lemma input_inv:
  assumes inv: "sys_inv s" "i \<in> sys_members s"
    and n: "evolves (sys_node s i) n \<or> counts_vote from reply (sys_node s i) n \<and> (from, vr_term reply, i) \<in> sys_voted s"
    and out: "outbox_ok n" and fl: "flush_outbox ((sys_nodes s i)\<lparr> rc_node := n \<rparr>) = (c2, sent)"
    and ms: "\<forall>x \<in> ms. backed (sys_voted s \<union> new_votes i n) x"
  shows "sys_inv (settle s i (maybe_compact ops c2) (ms \<union> marked False sent))"
proof -
  let ?c = "maybe_compact ops c2"
  have m: "member_ok s i" using sys_invD(1) [OF inv] .
  have ev: "same_members (sys_node s i) n" "node_inv n" "persistent_le (rn_persistent (sys_node s i)) (rn_persistent n)"
    "rn_persistent n \<noteq> rn_persistent (sys_node s i) \<longrightarrow> rn_dirty n"
    using n m counts_vote_inv [of "sys_node s i" "from" reply n]
    by (auto simp: evolves_def counts_vote_def member_ok_def Let_def)
  have st: "store_ok (sys_nodes s i)" using m by (simp add: member_ok_def Let_def)
  note f = store_ok_flush [OF st ev(4) fl]
  have sv: "same_votes n (rc_node ?c)" using f(2) by (rule same_votes_compact)
  note D = same_votesD [OF sv]
  have k: "knows s i n"
    "rn_role n = Candidate \<or> rn_role n = Leader \<Longrightarrow>
      \<forall>v \<in> rn_votes n. v \<in> voters s \<and> (v, node_term n, i) \<in> sys_voted s \<union> new_votes i n"
    "rn_role n = Leader \<Longrightarrow> (i, node_term n) \<in> sys_elected s \<or> quorum s (rn_votes n)"
    using n evolves_votes [OF inv, of n] counts_votes [OF inv, of "from" reply n] by blast+
  have b: "backed v (False, x)" if "x \<in> env_message ` set sent" for x v
    using that f(3) outbox_backed [OF out] by (metis image_set)
  show ?thesis
  proof (rule settle_inv [OF inv])
    show "outbox_ok (rc_node ?c)" by (simp add: outbox_ok_def outbox_store_compact f(2))
    show "\<forall>x \<in> ms \<union> marked False sent. backed (sys_voted s \<union> new_votes i (rc_node ?c)) x"
      using ms b by (auto simp: D marked_False)
  qed (use k ev f(1) in \<open>simp_all add: D outbox_store_compact\<close>)
qed


lemma handle_replies:
  assumes "handle ops now m n = (n', ps)" "rn_self n' = i" "backed voted (pre, m)"
  shows "ps = [] \<and> \<not> is_pre_vote m \<or>
    (\<exists>p. ps = [p] \<and> backed (voted \<union> new_votes i n') (is_pre_vote m, \<lparr> msg_from = i, msg_to = msg_from m, msg_payload = p \<rparr>))"
proof (cases "msg_payload m")
  case (RequestVote args)
  obtain r where r: "on_request_vote ops now args n = (n', r)" "ps = [RequestVoteR r]"
    using assms(1) RequestVote by (auto simp: handle_def split: prod.splits)
  have "rv_candidate_id args = msg_from m" using assms(3) RequestVote by (simp add: backed_def)
  then show ?thesis
    using r RequestVote request_vote_granted [OF r(1)] by (auto simp: backed_def is_pre_vote_def new_votes_def)
qed (use assms(1) in \<open>auto simp: handle_def is_pre_vote_def backed_def split: prod.splits\<close>)

lemma deliver_inv:
  assumes inv: "sys_inv s" and m: "(pre, m) \<in> sys_net s" "msg_to m \<in> sys_members s"
    and strict: "\<not> (pre \<and> rn_role (sys_node s (msg_to m)) = Candidate)"
    and out: "on_message ops now m (sys_nodes s (msg_to m)) = (c, out)"
  shows "sys_inv (settle s (msg_to m) c (marked (is_pre_vote m) out))"
proof -
  let ?i = "msg_to m"
  have ok: "member_ok s ?i" using sys_invD(1) [OF inv m(2)] .
  have b: "backed (sys_voted s) (pre, m)" by (rule sys_invD(5) [OF inv m(1)])
  obtain n ps where h: "handle ops now m (sys_node s ?i) = (n, ps)" by fastforce
  obtain c2 sent where fl: "flush_outbox ((sys_nodes s ?i)\<lparr> rc_node := n \<rparr>) = (c2, sent)" by fastforce
  have self: "rn_self n = ?i"
    using ok handle_frame(1) [OF _ h] by (simp add: member_ok_def Let_def knows_def same_members_def)
  have o: "outbox_ok n" using ok outbox_ok_handle [of "sys_node s ?i" ops now m] h by (simp add: member_ok_def Let_def)
  let ?e = "\<lambda>p. emit (sys_nodes s ?i) \<lparr> msg_from = ?i, msg_to = msg_from m, msg_payload = p \<rparr>"
  have co: "c = maybe_compact ops c2" "out = map ?e ps @ sent"
    using out h fl self by (simp_all add: on_message_def)
  have "evolves (sys_node s ?i) n \<or>
    (\<exists>r. counts_vote (msg_from m) r (sys_node s ?i) n \<and> (msg_from m, vr_term r, ?i) \<in> sys_voted s)"
    using handle_evolves [of "sys_node s ?i" ops now m] ok b strict h
    by (auto simp: member_ok_def Let_def backed_def counts_vote_def)
  then obtain r where ev: "evolves (sys_node s ?i) n \<or>
    counts_vote (msg_from m) r (sys_node s ?i) n \<and> (msg_from m, vr_term r, ?i) \<in> sys_voted s" by blast
  obtain ms where ms: "marked (is_pre_vote m) out = ms \<union> marked False sent"
    "\<forall>x \<in> ms. backed (sys_voted s \<union> new_votes ?i n) x"
  proof (cases ps)
    case Nil
    then have "\<not> is_pre_vote m" using handle_replies [OF h self b] by simp
    then show thesis using that [of "{}"] Nil co(2) by simp
  next
    case (Cons p qs)
    then have "qs = []" "backed (sys_voted s \<union> new_votes ?i n) (is_pre_vote m, env_message (?e p))"
      using handle_replies [OF h self b] by (simp_all add: emit_def)
    then show thesis using that [of "{(is_pre_vote m, env_message (?e p))}"] Cons co(2) by simp
  qed
  show ?thesis unfolding ms(1) co(1) by (rule input_inv [OF inv m(2) ev o fl ms(2)])
qed

lemma quiet_inv:
  assumes inv: "sys_inv s" "i \<in> sys_members s" and e: "evolves (sys_node s i) n"
    and n: "outbox_ok n" "rn_persistent n = rn_persistent (sys_node s i)" "rn_dirty n = rn_dirty (sys_node s i)"
  shows "sys_inv (settle s i ((sys_nodes s i)\<lparr> rc_node := n \<rparr>) {})"
proof (rule settle_inv [OF inv])
  have "store_ok (sys_nodes s i)" using sys_invD(1) [OF inv] by (simp add: member_ok_def Let_def)
  then show "store_ok ((sys_nodes s i)\<lparr> rc_node := n \<rparr>)" using n by (simp add: store_ok_def split: option.splits)
qed (use n e evolves_votes [OF inv e] in \<open>simp_all add: evolves_def\<close>)

lemma quiet_inputs:
  "rn_persistent (fst (propose ops b n)) = rn_persistent n" "rn_dirty (fst (propose ops b n)) = rn_dirty n"
  "rn_persistent (fst (transfer_leadership ops p n)) = rn_persistent n" "rn_dirty (fst (transfer_leadership ops p n)) = rn_dirty n"
  by (auto simp: propose_def transfer_leadership_def advance_commit_index_def Let_def split: prod.split sum.split)

lemma restart_inv:
  assumes inv: "sys_inv s" "i \<in> sys_members s" and wf: "wf_state (rn_persistent (sys_node s i))"
    and n: "n = new_node i (rn_peers (sys_node s i)) l (rn_config (sys_node s i)) (rn_learners (sys_node s i))"
    and r: "recover ((sys_nodes s i)\<lparr> rc_node := n \<rparr>) = (c, Inr u)"
  shows "sys_inv (settle s i c {})"
proof -
  have m: "member_ok s i" using sys_invD(1) [OF inv] .
  then obtain f where f: "rc_store (sys_nodes s i) = Some f" "readable f" "sched f = []" "holds_state f (rn_persistent (sys_node s i))"
    by (auto simp: member_ok_def Let_def store_ok_def split: option.splits)
  have ld: "store_load f = Inr (rn_persistent (sys_node s i))" by (rule store_load_holds [OF f(2) wf f(4)])
  have c: "c = (sys_nodes s i)\<lparr> rc_node := restore_persistent_state (rn_persistent (sys_node s i)) n \<rparr>"
    using r f(1) ld by (simp add: recover_def)
  have k: "knows s i (sys_node s i)" using m by (simp add: member_ok_def Let_def)
  show ?thesis
    by (rule settle_inv [OF inv])
      (use k f in \<open>simp_all add: c n restore_persistent_state_def new_node_def knows_def node_inv_def outbox_ok_def store_ok_def\<close>)
qed

lemma step_inv:
  assumes "sys_step ops True s s'" "sys_inv s" shows "sys_inv s'"
  using assms
proof (cases rule: sys_step.cases)
  case (step_tick i now c out)
  have m: "member_ok s i" using sys_invD(1) [OF assms(2) step_tick(2)] .
  let ?n = "tick ops now (sys_node s i)"
  obtain c2 where fl: "flush_outbox ((sys_nodes s i)\<lparr> rc_node := ?n \<rparr>) = (c2, out)" "c = maybe_compact ops c2"
    using step_tick(3) by (auto simp: on_tick_def split: prod.splits)
  have "evolves (sys_node s i) ?n" "outbox_ok ?n"
    using m evolves_tick outbox_ok_tick by (auto simp: member_ok_def Let_def)
  then have "sys_inv (settle s i c ({} \<union> marked False out))"
    unfolding fl(2) by (intro input_inv [OF assms(2) step_tick(2) _ _ fl(1)]) simp_all
  then show ?thesis using step_tick(1) by simp
next
  case (step_propose i n b)
  have "member_ok s i" using sys_invD(1) [OF assms(2) step_propose(2)] .
  then show ?thesis unfolding step_propose(1,3) using step_propose(2) assms(2)
    by (intro quiet_inv) (simp_all add: quiet_inputs evolves_propose outbox_ok_propose member_ok_def Let_def)
next
  case (step_transfer i n target)
  have "member_ok s i" using sys_invD(1) [OF assms(2) step_transfer(2)] .
  then show ?thesis unfolding step_transfer(1,3) using step_transfer(2) assms(2)
    by (intro quiet_inv) (simp_all add: quiet_inputs evolves_transfer outbox_ok_transfer_leadership member_ok_def Let_def)
next
  case (step_deliver pre m now c out)
  then show ?thesis using deliver_inv [OF assms(2), of pre m ops now c out] by simp
next
  case (step_restart i n l c u)
  then show ?thesis using restart_inv [OF assms(2)] by blast
qed

lemma reachable_inv: "reachable ops True s t \<Longrightarrow> sys_inv s \<Longrightarrow> sys_inv t"
  by (induction rule: reachable.induct) (auto intro: step_inv)


section \<open>Election safety\<close>

text \<open>
  C2: election safety.  From new nodes that know each other and whose stores work, through any
  sequence of ticks, proposals, transfers of leadership, restarts and deliveries of messages in any
  order, any number of times or never, provided that no answer to a pre-vote reaches a node that has
  become a candidate: no term has two leaders, and whoever leads is counted as having led its term.
\<close>
theorem election_safety:
  assumes "fresh s" "reachable ops True s t"
  shows "((i, T) \<in> sys_elected t \<and> (j, T) \<in> sys_elected t \<longrightarrow> i = j) \<and>
    (k \<in> sys_members t \<and> rn_role (sys_node t k) = Leader \<longrightarrow> (k, node_term (sys_node t k)) \<in> sys_elected t)"
proof (intro conjI impI; (elim conjE)?)
  have inv: "sys_inv t" by (rule reachable_inv [OF assms(2) fresh_inv [OF assms(1)]])
  show "i = j" if e: "(i, T) \<in> sys_elected t" "(j, T) \<in> sys_elected t"
  proof -
    obtain Q where Q: "quorum t Q" using sys_invD(6) [OF inv e(1)] by metis
    then obtain v where "v \<in> Q" by (fastforce simp: quorum_def)
    then have "v \<in> sys_members t" using Q by (auto simp: quorum_def)
    then show "i = j" by (rule sys_inv_elected [OF inv e])
  qed
  show "(k, node_term (sys_node t k)) \<in> sys_elected t" if "k \<in> sys_members t" "rn_role (sys_node t k) = Leader"
    using sys_invD(1) [OF inv that(1)] that(2) by (simp add: member_ok_def Let_def)
qed

definition lone_carrier :: "abs_log RaftCarrier" where
  "lone_carrier = (sample_carrier empty_file)\<lparr> rc_node := new_node 1 [] empty_abs_log sample_config [] \<rparr>"

definition lone_group :: "abs_log sys" where
  "lone_group = \<lparr> sys_members = {1}, sys_learners = {}, sys_nodes = (\<lambda>i. lone_carrier), sys_net = {}, sys_voted = {}, sys_elected = {} \<rparr>"

lemma lone_fresh: "fresh lone_group"
  by (simp add: fresh_def lone_group_def lone_carrier_def sample_carrier_def knows_def store_ok_def new_node_def
      readable_def empty_file_def holds_state_def)

lemma tick_step:
  assumes "sys_inv s" "i \<in> sys_members s" "\<not> rc_compacts (sys_nodes s i)"
  obtains s' where "sys_step ops strict s s'" "sys_node s' i = (tick ops now (sys_node s i))\<lparr> rn_dirty := False, rn_outbox := [] \<rparr>"
    "sys_members s' = sys_members s" "\<not> rc_compacts (sys_nodes s' i)"
    "rn_role (tick ops now (sys_node s i)) = Leader \<longrightarrow> (i, node_term (tick ops now (sys_node s i))) \<in> sys_elected s'"
proof -
  let ?c = "(sys_nodes s i)\<lparr> rc_node := tick ops now (sys_node s i) \<rparr>"
  obtain c2 out where f: "flush_outbox ?c = (c2, out)" by fastforce
  have m: "node_inv (sys_node s i)" "store_ok (sys_nodes s i)" using sys_invD(1) [OF assms(1,2)] by (simp_all add: member_ok_def Let_def)
  have n: "rc_node c2 = (tick ops now (sys_node s i))\<lparr> rn_dirty := False, rn_outbox := [] \<rparr>"
    using evolves_tick [OF m(1), of ops now] by (intro store_ok_flush(2) [OF m(2) _ f]) (simp add: evolves_def)
  have "rc_compacts c2 = rc_compacts ?c"
    using f by (auto simp: flush_outbox_def drain_simps split: option.splits if_splits prod.splits sum.splits)
  then have t: "on_tick ops now (sys_nodes s i) = (c2, out)" "\<not> rc_compacts c2"
    using f assms(3) by (simp_all add: on_tick_def maybe_compact_def)
  show thesis
    by (rule that [OF step_tick [OF assms(2) t(1)]]) (simp_all add: n t(2))
qed

theorem election_safety_witness:
  "\<exists>t. fresh lone_group \<and> reachable abs_log_ops True lone_group t \<and> {i. (i, 1) \<in> sys_elected t} = {1}"
proof -
  let ?n0 = "new_node 1 [] empty_abs_log sample_config []"
  let ?n1 = "(tick abs_log_ops 0 ?n0)\<lparr> rn_dirty := False, rn_outbox := [] \<rparr>"
  have "sys_inv lone_group" by (rule fresh_inv [OF lone_fresh])
  then obtain s1 where s1: "sys_step abs_log_ops True lone_group s1" "sys_node s1 1 = ?n1" "1 \<in> sys_members s1" "\<not> rc_compacts (sys_nodes s1 1)"
    using tick_step [of lone_group 1 abs_log_ops True 0] by (auto simp: lone_group_def lone_carrier_def sample_carrier_def)
  have "sys_inv s1" using step_inv [OF s1(1)] fresh_inv [OF lone_fresh] by blast
  moreover have "rn_role (tick abs_log_ops 10000000000 ?n1) = Leader \<and> node_term (tick abs_log_ops 10000000000 ?n1) = 1" by code_simp
  ultimately obtain s2 where s2: "sys_step abs_log_ops True s1 s2" "(1, 1) \<in> sys_elected s2"
    using tick_step [of s1 1 abs_log_ops True 10000000000] s1 by metis
  have r: "reachable abs_log_ops True lone_group s2"
    by (rule reachable_step [OF reachable_step [OF reachable_refl s1(1)] s2(1)])
  then have "{i. (i, 1) \<in> sys_elected s2} = {1}"
    using election_safety [OF lone_fresh r, of _ 1 1 1] s2(2) by blast
  then show ?thesis using lone_fresh r by blast
qed


text \<open>
  Without the proviso a term can have two leaders, because a granted pre-vote and a granted vote are the
  same message.  Members 1 and 3 win their pre-votes and both stand in term 1; member 2 votes for 3,
  which becomes leader; the pre-vote question of member 1 then reaches member 2, whose answer carries
  term 1, and member 1 counts it as a vote.
\<close>

definition newest_to :: "int \<Rightarrow> 'l RaftNode \<Rightarrow> RaftMessage" where
  "newest_to i n = last (filter (\<lambda>m. msg_to m = i) (rn_outbox n))"

definition answer :: "int \<Rightarrow> abs_log RaftNode \<Rightarrow> RaftMessage \<Rightarrow> RaftMessage" where
  "answer now n m = \<lparr> msg_from = rn_self n, msg_to = msg_from m, msg_payload = hd (snd (handle abs_log_ops now m n)) \<rparr>"

definition hears :: "int \<Rightarrow> abs_log RaftNode \<Rightarrow> RaftMessage \<Rightarrow> abs_log RaftNode" where
  "hears now n m = fst (handle abs_log_ops now m n)"

lemma two_leaders:
  "let t = 10000000000;
       a = tick abs_log_ops t (tick abs_log_ops 0 (member 1));
       b = member 2;
       c = tick abs_log_ops t (tick abs_log_ops 0 (member 3));
       delayed = newest_to 2 a;
       a = hears t a (answer t c (newest_to 3 a));
       c = hears t c (answer t b (newest_to 2 c));
       request = newest_to 2 c;
       c = hears t c (answer t b request);
       b = hears t b request;
       a = hears t a (answer t b delayed) in
     rn_role a = Leader \<and> node_term a = 1 \<and> rn_role c = Leader \<and> node_term c = 1"
  by code_simp

end
