(* ===== verification/Producer_Session.thy ===== *)
theory Producer_Session
  imports Partition_Log
begin

text \<open>
  Idempotent producers (\<^verbatim>\<open>src/src/broker/producer_session.hpp\<close>) and the part of \<open>produce\<close> that both kinds
  of partition share (\<^verbatim>\<open>partition.cpp\<close>, \<^verbatim>\<open>replicated_partition.cpp\<close>): a batch is classified by epoch and sequence
  number, appended when it is the next one, and then recorded in the session.  The log is reached
  through the interface \<open>producer_log\<close>; the two partitions are its instances.  The lemmas show that
  whatever is sent, repeated or reordered, each epoch of a producer is stored in order, without gap
  and once.
\<close>


section \<open>The session of a producer\<close>

record ProducerSession =
  sess_producer_id :: int
  sess_epoch :: int
  last_sequence :: int
  last_base_sequence :: int
  last_base_offset :: int

datatype SeqCheck = Accept | Duplicate | Gap | FencedEpoch

definition kNoSequence :: int where
  "kNoSequence = -1"

definition new_session :: "int \<Rightarrow> int \<Rightarrow> ProducerSession" where
  "new_session pid epoch = \<lparr> sess_producer_id = pid, sess_epoch = epoch, last_sequence = kNoSequence,
     last_base_sequence = kNoSequence, last_base_offset = -1 \<rparr>"

definition session_check :: "ProducerSession \<Rightarrow> int \<Rightarrow> int \<Rightarrow> int \<Rightarrow> SeqCheck" where
  "session_check s epoch base_seq count =
     (if epoch < sess_epoch s then FencedEpoch
      else if epoch > sess_epoch s then (if base_seq = 0 then Accept else Gap)
      else let expected_seq = last_sequence s + 1 in
        if base_seq = expected_seq then Accept
        else if base_seq > expected_seq then Gap
        else if base_seq + count \<le> expected_seq then Duplicate else Gap)"

definition session_accept :: "ProducerSession \<Rightarrow> int \<Rightarrow> int \<Rightarrow> int \<Rightarrow> int \<Rightarrow> ProducerSession" where
  "session_accept s epoch base_seq count base_off =
     s\<lparr> sess_epoch := epoch, last_sequence := base_seq + count - 1, last_base_sequence := base_seq,
        last_base_offset := base_off \<rparr>"

definition duplicate_base_offset :: "ProducerSession \<Rightarrow> int \<Rightarrow> int" where
  "duplicate_base_offset s base_seq = (if base_seq = last_base_sequence s then last_base_offset s else -1)"


section \<open>Produce over a log\<close>

type_synonym sessions = "int \<rightharpoonup> ProducerSession"

text \<open>\<open>try_emplace\<close>: the session of the producer, created with the epoch of the batch if there is none.\<close>

definition session_for :: "sessions \<Rightarrow> RecordBatchHeader \<Rightarrow> ProducerSession" where
  "session_for ss h =
     (case ss (producer_id h) of None \<Rightarrow> new_session (producer_id h) (producer_epoch h) | Some s \<Rightarrow> s)"

definition idempotent_produce ::
  "('l \<Rightarrow> RecordBatch \<Rightarrow> 'l \<times> int expected) \<Rightarrow> ('l \<Rightarrow> int) \<Rightarrow> RecordBatch \<Rightarrow> 'l \<times> sessions \<Rightarrow>
   ('l \<times> sessions) \<times> int expected" where
  "idempotent_produce app end_off batch st =
     (case st of (l, ss) \<Rightarrow>
      let h = header batch in
      if producer_id h < 0 then (case app l batch of (l, r) \<Rightarrow> ((l, ss), r))
      else let s = session_for ss h; ss = ss(producer_id h \<mapsto> s) in
        case session_check s (producer_epoch h) (base_sequence h) (record_count h) of
          FencedEpoch \<Rightarrow> ((l, ss), Inl Fenced)
        | Duplicate \<Rightarrow>
            let dup = duplicate_base_offset s (base_sequence h) in
            ((l, ss), Inr (if dup \<ge> 0 then dup + record_count h - 1 else end_off l - 1))
        | Gap \<Rightarrow> ((l, ss), Inl OutOfRange)
        | Accept \<Rightarrow>
            (case app l batch of
               (l, Inl e) \<Rightarrow> ((l, ss), Inl e)
             | (l, Inr last_off) \<Rightarrow>
                 ((l, ss(producer_id h \<mapsto> session_accept s (producer_epoch h) (base_sequence h) (record_count h)
                                             (last_off - record_count h + 1))), Inr last_off)))"


section \<open>What the sessions know about the log\<close>

definition of_producer :: "int \<Rightarrow> int \<Rightarrow> RecordBatch \<Rightarrow> bool" where
  "of_producer pid epoch b \<longleftrightarrow> producer_id (header b) = pid \<and> producer_epoch (header b) = epoch"

text \<open>The batches carry consecutive sequence numbers from \<open>q\<close>; \<open>seq_end\<close> is the number after the last.\<close>

fun sequenced :: "int \<Rightarrow> RecordBatch list \<Rightarrow> bool" where
  "sequenced q [] \<longleftrightarrow> True"
| "sequenced q (b # bs) \<longleftrightarrow> base_sequence (header b) = q \<and> sequenced (q + record_count (header b)) bs"

fun seq_end :: "int \<Rightarrow> RecordBatch list \<Rightarrow> int" where
  "seq_end q [] = q"
| "seq_end q (b # bs) = seq_end (q + record_count (header b)) bs"

lemma sequenced_append: "sequenced q (xs @ ys) \<longleftrightarrow> sequenced q xs \<and> sequenced (seq_end q xs) ys"
  by (induction xs arbitrary: q) auto

lemma seq_end_append: "seq_end q (xs @ ys) = seq_end (seq_end q xs) ys"
  by (induction xs arbitrary: q) auto

lemma seq_end_ge: "\<forall>b \<in> set xs. 1 \<le> record_count (header b) \<Longrightarrow> q \<le> seq_end q xs"
proof (induction xs arbitrary: q)
  case (Cons b xs)
  then have "q + record_count (header b) \<le> seq_end (q + record_count (header b)) xs" "1 \<le> record_count (header b)" by simp_all
  then show ?case by (simp only: seq_end.simps)
qed simp

text \<open>
  \<open>tracks ss bs\<close>: the batches \<open>bs\<close> appended since the sessions began are those that the sessions record:
  every epoch of a producer is stored from sequence number 0 in order, and the session expects the
  number after the last of its epoch.
\<close>

definition tracks :: "sessions \<Rightarrow> RecordBatch list \<Rightarrow> bool" where
  "tracks ss bs \<longleftrightarrow> (\<forall>pid \<ge> 0.
     (\<forall>e. sequenced 0 (filter (of_producer pid e) bs)) \<and>
     (case ss pid of
        None \<Rightarrow> \<forall>b \<in> set bs. producer_id (header b) \<noteq> pid
      | Some s \<Rightarrow> (\<forall>b \<in> set bs. producer_id (header b) = pid \<longrightarrow> producer_epoch (header b) \<le> sess_epoch s) \<and>
          last_sequence s + 1 = seq_end 0 (filter (of_producer pid (sess_epoch s)) bs)))"

lemma tracks_empty [simp]: "tracks Map.empty []"
  by (simp add: tracks_def)

lemma tracks_emplace:
  assumes "tracks ss bs" shows "tracks (ss(producer_id h \<mapsto> session_for ss h)) bs"
proof (cases "ss (producer_id h)")
  case None
  have "seq_end 0 (filter (of_producer pid e) bs) = 0" if "\<forall>b \<in> set bs. producer_id (header b) \<noteq> pid" for pid e
    using that by (simp add: of_producer_def filter_False)
  then show ?thesis
    using assms None by (auto simp: tracks_def session_for_def new_session_def kNoSequence_def)
next
  case (Some s)
  then have "ss(producer_id h \<mapsto> session_for ss h) = ss" by (auto simp: session_for_def)
  then show ?thesis using assms by simp
qed

text \<open>A batch of no idempotent producer concerns no session.\<close>

lemma tracks_plain:
  "tracks ss bs \<Longrightarrow> producer_id (header b) < 0 \<Longrightarrow> tracks ss (bs @ [b])"
  by (auto simp: tracks_def of_producer_def split: option.splits)

lemma tracks_accept:
  assumes t: "tracks ss bs" and s: "ss (producer_id (header b)) = Some s" and pid: "0 \<le> producer_id (header b)"
    and ok: "session_check s (producer_epoch (header b)) (base_sequence (header b)) (record_count (header b)) = Accept"
  shows "tracks (ss(producer_id (header b) \<mapsto>
      session_accept s (producer_epoch (header b)) (base_sequence (header b)) (record_count (header b)) off)) (bs @ [b])"
proof -
  let ?p = "producer_id (header b)" and ?e = "producer_epoch (header b)"
  have old: "\<forall>b' \<in> set bs. producer_id (header b') = ?p \<longrightarrow> producer_epoch (header b') \<le> sess_epoch s"
    "last_sequence s + 1 = seq_end 0 (filter (of_producer ?p (sess_epoch s)) bs)"
    using t s pid by (auto simp: tracks_def)
  have base: "base_sequence (header b) = seq_end 0 (filter (of_producer ?p ?e) bs)"
  proof (cases "?e > sess_epoch s")
    case True
    then have "filter (of_producer ?p ?e) bs = []" using old(1) by (auto simp: filter_empty_conv of_producer_def)
    then show ?thesis using ok True by (auto simp: session_check_def split: if_splits)
  next
    case False
    then show ?thesis using ok old(2) by (auto simp: session_check_def Let_def split: if_splits)
  qed
  have le: "sess_epoch s \<le> ?e" using ok by (auto simp: session_check_def split: if_splits)
  have sq: "sequenced 0 (filter (of_producer pid e) (bs @ [b]))" if "pid \<ge> 0" for pid e
    using t that base by (auto simp: tracks_def sequenced_append of_producer_def)
  have mine: "of_producer ?p ?e b" by (simp add: of_producer_def)
  show ?thesis
    unfolding tracks_def
  proof (intro allI impI conjI)
    fix pid :: int
    assume "0 \<le> pid"
    show "case (ss(?p \<mapsto> session_accept s ?e (base_sequence (header b)) (record_count (header b)) off)) pid of
        None \<Rightarrow> \<forall>b' \<in> set (bs @ [b]). producer_id (header b') \<noteq> pid
      | Some s \<Rightarrow> (\<forall>b' \<in> set (bs @ [b]). producer_id (header b') = pid \<longrightarrow> producer_epoch (header b') \<le> sess_epoch s) \<and>
          last_sequence s + 1 = seq_end 0 (filter (of_producer pid (sess_epoch s)) (bs @ [b]))"
    proof (cases "pid = ?p")
      case True
      then show ?thesis
        using old(1) le base mine by (force simp: session_accept_def seq_end_append)
    next
      case False
      then have "filter (of_producer pid e) (bs @ [b]) = filter (of_producer pid e) bs" for e by (simp add: of_producer_def)
      then show ?thesis using t False \<open>0 \<le> pid\<close> by (auto simp: tracks_def split: option.splits)
    qed
  qed (rule sq)
qed



section \<open>The log behind a partition\<close>

text \<open>
  What \<open>produce\<close> relies on: \<open>holds l bs\<close> says that the log holds exactly the batches \<open>bs\<close>; a
  successful append adds the batch at the end of the log and returns its last offset.  \<open>fit l b\<close>
  says that the format can hold one more batch \<open>b\<close>.
\<close>

locale producer_log =
  fixes app :: "'l \<Rightarrow> RecordBatch \<Rightarrow> 'l \<times> int expected"
    and end_off :: "'l \<Rightarrow> int"
    and holds :: "'l \<Rightarrow> RecordBatch list \<Rightarrow> bool"
    and fit :: "'l \<Rightarrow> RecordBatch \<Rightarrow> bool"
  assumes append_holds: "holds l bs \<Longrightarrow> fit l b \<Longrightarrow> app l b = (l', Inr k) \<Longrightarrow>
      holds l' (bs @ [rebase b (end_off l)]) \<and> k = end_off l + record_count (header b) - 1"
    and fit_count: "fit l b \<Longrightarrow> 1 \<le> record_count (header b)"

text \<open>One call, and a sequence of calls in which no append of the storage fails.\<close>

definition appends :: "sessions \<Rightarrow> RecordBatch \<Rightarrow> bool" where
  "appends ss b \<longleftrightarrow> producer_id (header b) < 0 \<or>
     session_check (session_for ss (header b)) (producer_epoch (header b)) (base_sequence (header b)) (record_count (header b)) = Accept"

fun produce_all ::
  "('l \<Rightarrow> RecordBatch \<Rightarrow> 'l \<times> int expected) \<Rightarrow> ('l \<Rightarrow> int) \<Rightarrow> RecordBatch list \<Rightarrow> 'l \<times> sessions \<Rightarrow>
   ('l \<times> sessions) \<times> int expected list" where
  "produce_all app end_off [] st = (st, [])"
| "produce_all app end_off (b # bs) st =
     (case idempotent_produce app end_off b st of (st, r) \<Rightarrow>
      case produce_all app end_off bs st of (st, rs) \<Rightarrow> (st, r # rs))"

fun storage_works ::
  "('l \<Rightarrow> RecordBatch \<Rightarrow> 'l \<times> int expected) \<Rightarrow> ('l \<Rightarrow> int) \<Rightarrow> ('l \<Rightarrow> RecordBatch \<Rightarrow> bool) \<Rightarrow>
   RecordBatch list \<Rightarrow> 'l \<times> sessions \<Rightarrow> bool" where
  "storage_works app end_off fit [] st \<longleftrightarrow> True"
| "storage_works app end_off fit (b # bs) st \<longleftrightarrow>
     (appends (snd st) b \<longrightarrow> fit (fst st) b \<and> \<not> isl (snd (app (fst st) b))) \<and>
     storage_works app end_off fit bs (fst (idempotent_produce app end_off b st))"

text \<open>The sequence numbers of a batch are stored.\<close>

definition covered :: "RecordBatch list \<Rightarrow> RecordBatch \<Rightarrow> bool" where
  "covered bs b \<longleftrightarrow> base_sequence (header b) + record_count (header b) \<le>
     seq_end 0 (filter (of_producer (producer_id (header b)) (producer_epoch (header b))) bs)"

lemma covered_append:
  assumes "covered bs b" "\<forall>x \<in> set xs. 1 \<le> record_count (header x)" shows "covered (bs @ xs) b"
proof -
  have "q \<le> seq_end q (filter P xs)" for q P using assms(2) by (intro seq_end_ge) simp
  then show ?thesis using assms(1) order_trans by (fastforce simp: covered_def seq_end_append)
qed

context producer_log
begin

lemma produce_step:
  assumes h: "holds l (old @ bs)" "tracks ss bs"
    and fits: "appends ss b \<longrightarrow> fit l b \<and> \<not> isl (snd (app l b))"
    and p: "idempotent_produce app end_off b (l, ss) = ((l', ss'), r)"
  shows "\<exists>bs'. holds l' (old @ bs @ bs') \<and> tracks ss' (bs @ bs') \<and>
    (bs' = [] \<and> l' = l \<and> \<not> appends ss b \<or> bs' = [rebase b (end_off l)] \<and> 1 \<le> record_count (header b) \<and> appends ss b \<and>
       r = Inr (end_off l + record_count (header b) - 1)) \<and>
    (\<not> isl r \<and> 0 \<le> producer_id (header b) \<longrightarrow> covered (bs @ bs') b)"
proof (cases "appends ss b")
  case True
  let ?b = "rebase b (end_off l)"
  have hd: "producer_id (header ?b) = producer_id (header b)" "producer_epoch (header ?b) = producer_epoch (header b)"
    "base_sequence (header ?b) = base_sequence (header b)" "record_count (header ?b) = record_count (header b)"
    by (simp_all add: rebase_def)
  obtain l1 k where a: "app l b = (l1, Inr k)" "fit l b" using fits True by (cases "app l b"; cases "snd (app l b)") auto
  have ah: "holds l1 ((old @ bs) @ [?b])" "k = end_off l + record_count (header b) - 1"
    using append_holds [OF h(1) a(2,1)] by simp_all
  have c: "1 \<le> record_count (header b)" by (rule fit_count [OF a(2)])
  have t: "l' = l1 \<and> r = Inr k \<and> tracks ss' (bs @ [?b])"
  proof (cases "producer_id (header b) < 0")
    case True
    then show ?thesis using p a tracks_plain [OF h(2), of ?b] by (auto simp: idempotent_produce_def hd)
  next
    case False
    let ?s = "session_for ss (header b)"
    have ok: "session_check ?s (producer_epoch (header b)) (base_sequence (header b)) (record_count (header b)) = Accept"
      using \<open>appends ss b\<close> False by (simp add: appends_def)
    have "tracks (ss(producer_id (header b) \<mapsto> ?s)) bs" using h(2) by (rule tracks_emplace)
    from tracks_accept [OF this, of ?b ?s "k - record_count (header b) + 1"] ok False hd p a show ?thesis
      by (auto simp: idempotent_produce_def Let_def)
  qed
  moreover have "covered (bs @ [?b]) b" if "0 \<le> producer_id (header b)"
  proof -
    let ?own = "filter (of_producer (producer_id (header b)) (producer_epoch (header b)))"
    have "sequenced 0 (?own (bs @ [?b]))" using t that by (auto simp: tracks_def)
    then show ?thesis by (simp add: covered_def sequenced_append seq_end_append of_producer_def hd)
  qed
  ultimately show ?thesis using ah True c by (intro exI [of _ "[?b]"]) simp
next
  case False
  let ?s = "session_for ss (header b)"
  have pid: "0 \<le> producer_id (header b)" using False by (simp add: appends_def)
  have e: "tracks (ss(producer_id (header b) \<mapsto> ?s)) bs" using h(2) by (rule tracks_emplace)
  have r: "l' = l" "ss' = ss(producer_id (header b) \<mapsto> ?s)"
    "\<not> isl r \<Longrightarrow> session_check ?s (producer_epoch (header b)) (base_sequence (header b)) (record_count (header b)) = Duplicate"
    using p False by (auto simp: idempotent_produce_def appends_def Let_def split: SeqCheck.splits if_splits)
  have "covered bs b" if "\<not> isl r"
    using r(3) [OF that] e pid by (auto simp: session_check_def Let_def covered_def tracks_def split: if_splits)
  then show ?thesis using h e r False by (intro exI [of _ "[]"]) simp
qed

lemma produce_all_exactly_once:
  assumes "holds l (old @ bs0)" "tracks ss bs0" "storage_works app end_off fit bs (l, ss)"
    "produce_all app end_off bs (l, ss) = ((l', ss'), rs)"
  shows "\<exists>new. holds l' (old @ bs0 @ new) \<and> tracks ss' (bs0 @ new) \<and> (\<forall>b \<in> set new. 1 \<le> record_count (header b)) \<and>
    (\<forall>(b, r) \<in> set (zip bs rs). \<not> isl r \<and> 0 \<le> producer_id (header b) \<longrightarrow> covered (bs0 @ new) b)"
  using assms
proof (induction bs arbitrary: l ss bs0 rs)
  case Nil
  then show ?case by (auto intro!: exI [of _ "[]"])
next
  case (Cons b bs)
  obtain l1 ss1 r where p: "idempotent_produce app end_off b (l, ss) = ((l1, ss1), r)" by (metis surj_pair)
  obtain rs1 where q: "produce_all app end_off bs (l1, ss1) = ((l', ss'), rs1)" "rs = r # rs1"
    using Cons.prems(4) p by (auto split: prod.splits)
  have f: "appends ss b \<longrightarrow> fit l b \<and> \<not> isl (snd (app l b))" using Cons.prems(3) by simp
  from produce_step [OF Cons.prems(1,2) f p] obtain b1 where
    b: "holds l1 (old @ bs0 @ b1)" "tracks ss1 (bs0 @ b1)" "b1 = [] \<or> b1 = [rebase b (end_off l)] \<and> 1 \<le> record_count (header b)"
      "\<not> isl r \<and> 0 \<le> producer_id (header b) \<longrightarrow> covered (bs0 @ b1) b" by blast
  have "\<forall>x \<in> set b1. 1 \<le> record_count (header x)" using b(3) by (auto simp: rebase_def)
  then have b1: "holds l1 (old @ bs0 @ b1)" "tracks ss1 (bs0 @ b1)" "\<forall>x \<in> set b1. 1 \<le> record_count (header x)"
    "\<not> isl r \<and> 0 \<le> producer_id (header b) \<longrightarrow> covered (bs0 @ b1) b" using b by blast+
  have "storage_works app end_off fit bs (l1, ss1)" using Cons.prems(3) p by simp
  from Cons.IH [of l1 "bs0 @ b1" ss1 rs1] b1(1,2) this q(1) obtain new where n: "holds l' (old @ (bs0 @ b1) @ new)" "tracks ss' ((bs0 @ b1) @ new)"
    "\<forall>x \<in> set new. 1 \<le> record_count (header x)"
    "\<forall>(b, r) \<in> set (zip bs rs1). \<not> isl r \<and> 0 \<le> producer_id (header b) \<longrightarrow> covered ((bs0 @ b1) @ new) b" by blast
  have "covered (bs0 @ b1 @ new) b" if "\<not> isl r \<and> 0 \<le> producer_id (header b)"
    using covered_append [OF _ n(3)] b1(4) that by fastforce
  then show ?case using n b1(3) q(2) by (intro exI [of _ "b1 @ new"]) auto
qed

text \<open>A batch that was stored is acknowledged again with its offset, and nothing is appended.\<close>

lemma produce_retry:
  assumes h: "holds l (old @ bs)" "tracks ss bs" and fits: "fit l b" "0 \<le> end_off l" "0 \<le> producer_id (header b)"
    and p: "idempotent_produce app end_off b (l, ss) = ((l', ss'), Inr k)" "appends ss b"
  shows "idempotent_produce app end_off b (l', ss') = ((l', ss'), Inr k)"
proof -
  let ?s = "session_for ss (header b)" and ?h = "header b"
  have ok: "session_check ?s (producer_epoch ?h) (base_sequence ?h) (record_count ?h) = Accept"
    using p(2) fits(3) by (simp add: appends_def)
  have a: "app l b = (l', Inr k)" and
    s': "ss' = ss(producer_id ?h \<mapsto> session_accept ?s (producer_epoch ?h) (base_sequence ?h) (record_count ?h) (k - record_count ?h + 1))"
    using p(1) ok fits(3) by (auto simp: idempotent_produce_def Let_def split: prod.splits sum.splits)
  have k: "k = end_off l + record_count ?h - 1" using append_holds [OF h(1) fits(1) a] by simp
  have c: "1 \<le> record_count ?h" by (rule fit_count [OF fits(1)])
  let ?t = "session_accept ?s (producer_epoch ?h) (base_sequence ?h) (record_count ?h) (k - record_count ?h + 1)"
  have f: "session_for ss' ?h = ?t" by (simp add: s' session_for_def)
  have d: "session_check ?t (producer_epoch ?h) (base_sequence ?h) (record_count ?h) = Duplicate"
    using c by (simp add: session_check_def session_accept_def)
  have o: "duplicate_base_offset ?t (base_sequence ?h) = end_off l"
    using k by (simp add: duplicate_base_offset_def session_accept_def)
  have u: "ss'(producer_id ?h \<mapsto> ?t) = ss'" by (simp add: s')
  show ?thesis using fits(2,3) d o k u by (simp add: idempotent_produce_def f Let_def)
qed

end

end
