(* ===== verification/Broker_Partition.thy ===== *)
theory Broker_Partition
  imports Raft_Node Producer_Session
begin

text \<open>
  The partitions that the broker serves (\<^verbatim>\<open>src/src/broker/partition_base.hpp\<close>, \<^verbatim>\<open>partition.cpp\<close>,
  \<^verbatim>\<open>replicated_partition.cpp\<close>): one over its own log, acknowledged locally, and one over a replica of Raft,
  whose high watermark follows the commit index.  Both offer the log to idempotent producers; what
  the surroundings supply to the appends (new files, random bytes) is a stream.
\<close>


section \<open>The interface of a partition\<close>

datatype WireProtocol = Unset | Native | Kafka

text \<open>The owner of the record format after a write by \<open>proto\<close>, or the refusal.\<close>

definition claim_protocol :: "WireProtocol \<Rightarrow> WireProtocol \<Rightarrow> WireProtocol \<times> unit expected" where
  "claim_protocol proto current =
     (if current = Unset \<or> current = proto then (proto, Inr ()) else (current, Inl InvalidArgument))"

record Partition =
  pt_log :: PartitionLog
  pt_envs :: "nat \<Rightarrow> log_env"
  pt_producers :: sessions
  pt_leader_epoch :: int
  pt_protocol :: WireProtocol

definition new_partition :: "PartitionLog \<Rightarrow> (nat \<Rightarrow> log_env) \<Rightarrow> Partition" where
  "new_partition l envs = \<lparr> pt_log = l, pt_envs = envs, pt_producers = Map.empty, pt_leader_epoch = 0, pt_protocol = Unset \<rparr>"

definition plog_append_next ::
  "crypto_lib \<Rightarrow> PartitionLog \<times> (nat \<Rightarrow> log_env) \<Rightarrow> RecordBatch \<Rightarrow> (PartitionLog \<times> (nat \<Rightarrow> log_env)) \<times> int expected" where
  "plog_append_next cr le b =
     (case plog_append cr (snd le 0) (fst le) b of (l, r) \<Rightarrow> ((l, \<lambda>n. snd le (Suc n)), r))"

definition partition_produce :: "crypto_lib \<Rightarrow> RecordBatch \<Rightarrow> Partition \<Rightarrow> Partition \<times> int expected" where
  "partition_produce cr b p =
     (case idempotent_produce (plog_append_next cr) (\<lambda>le. log_end_offset (fst le)) b ((pt_log p, pt_envs p), pt_producers p) of
        (((l, envs), ss), r) \<Rightarrow> (p\<lparr> pt_log := l, pt_envs := envs, pt_producers := ss \<rparr>, r))"

definition partition_fetch :: "crypto_lib \<Rightarrow> Partition \<Rightarrow> int \<Rightarrow> nat \<Rightarrow> FetchResult expected" where
  "partition_fetch cr p offset max_bytes = plog_read cr (pt_log p) offset max_bytes"

definition partition_sync :: "Partition \<Rightarrow> Partition \<times> unit expected" where
  "partition_sync p = (case plog_sync (pt_log p) of (l, r) \<Rightarrow> (p\<lparr> pt_log := l \<rparr>, r))"

definition partition_retention :: "RetentionPolicy \<Rightarrow> (int \<Rightarrow> int option) \<Rightarrow> Partition \<Rightarrow> Partition" where
  "partition_retention policy age p = p\<lparr> pt_log := enforce_retention (pt_log p) policy age \<rparr>"

definition partition_high_watermark :: "Partition \<Rightarrow> int" where
  "partition_high_watermark p = log_end_offset (pt_log p)"


section \<open>The replicated partition\<close>

record ReplicatedPartition =
  rp_raft :: "RaftLog RaftNode"
  rp_producers :: sessions
  rp_protocol :: WireProtocol

abbreviation rp_rlog :: "ReplicatedPartition \<Rightarrow> RaftLog" where
  "rp_rlog p \<equiv> rn_log (rp_raft p)"

abbreviation rp_log :: "ReplicatedPartition \<Rightarrow> PartitionLog" where
  "rp_log p \<equiv> rl_log (rp_rlog p)"

definition replicated_create ::
  "int \<Rightarrow> int list \<Rightarrow> PartitionLog \<Rightarrow> RaftConfig \<Rightarrow> int list \<Rightarrow> File expected \<Rightarrow> File expected \<Rightarrow> (nat \<Rightarrow> log_env) \<Rightarrow>
   ReplicatedPartition expected" where
  "replicated_create self peers l config learners meta_file snap_file envs =
     bindE (rl_open l meta_file snap_file envs) (\<lambda>rl.
     Inr \<lparr> rp_raft = new_node self peers rl config learners, rp_producers = Map.empty, rp_protocol = Unset \<rparr>)"

definition propose_offset :: "crypto_lib \<Rightarrow> RaftLog RaftNode \<Rightarrow> RecordBatch \<Rightarrow> RaftLog RaftNode \<times> int expected" where
  "propose_offset cr n b =
     (case propose (raft_log_ops cr) b n of
        (n, Inl e) \<Rightarrow> (n, Inl e)
      | (n, Inr index) \<Rightarrow> (n, bindE (offsets_at (rn_log n) index) (\<lambda>(first_off, last_off). Inr last_off)))"

definition replicated_produce :: "crypto_lib \<Rightarrow> RecordBatch \<Rightarrow> ReplicatedPartition \<Rightarrow> ReplicatedPartition \<times> int expected" where
  "replicated_produce cr b p =
     (if rn_role (rp_raft p) \<noteq> Leader then (p, Inl Unsupported)
      else case idempotent_produce (propose_offset cr) (\<lambda>n. log_end_offset (rl_log (rn_log n))) b (rp_raft p, rp_producers p) of
             ((n, ss), r) \<Rightarrow> (p\<lparr> rp_raft := n, rp_producers := ss \<rparr>, r))"

definition replicated_fetch :: "crypto_lib \<Rightarrow> ReplicatedPartition \<Rightarrow> int \<Rightarrow> nat \<Rightarrow> FetchResult expected" where
  "replicated_fetch cr p offset max_bytes = plog_read cr (rp_log p) offset max_bytes"

definition replicated_high_watermark :: "ReplicatedPartition \<Rightarrow> int" where
  "replicated_high_watermark p =
     (let commit = commit_index (rn_volatile (rp_raft p)) in
      if commit = 0 then log_start_offset (rp_log p)
      else case offsets_at (rp_rlog p) commit of
             Inl _ \<Rightarrow> log_start_offset (rp_log p)
           | Inr (first_off, last_off) \<Rightarrow> last_off + 1)"


section \<open>Dynamic dispatch\<close>

datatype PartitionBase = LocalPartition Partition | RaftPartition ReplicatedPartition

fun part_produce :: "crypto_lib \<Rightarrow> RecordBatch \<Rightarrow> PartitionBase \<Rightarrow> PartitionBase \<times> int expected" where
  "part_produce cr b (LocalPartition p) = (case partition_produce cr b p of (p, r) \<Rightarrow> (LocalPartition p, r))"
| "part_produce cr b (RaftPartition p) = (case replicated_produce cr b p of (p, r) \<Rightarrow> (RaftPartition p, r))"

fun part_fetch :: "crypto_lib \<Rightarrow> PartitionBase \<Rightarrow> int \<Rightarrow> nat \<Rightarrow> FetchResult expected" where
  "part_fetch cr (LocalPartition p) offset max_bytes = partition_fetch cr p offset max_bytes"
| "part_fetch cr (RaftPartition p) offset max_bytes = replicated_fetch cr p offset max_bytes"

fun part_high_watermark :: "PartitionBase \<Rightarrow> int" where
  "part_high_watermark (LocalPartition p) = partition_high_watermark p"
| "part_high_watermark (RaftPartition p) = replicated_high_watermark p"

fun part_log :: "PartitionBase \<Rightarrow> PartitionLog" where
  "part_log (LocalPartition p) = pt_log p"
| "part_log (RaftPartition p) = rp_log p"

fun part_protocol :: "PartitionBase \<Rightarrow> WireProtocol" where
  "part_protocol (LocalPartition p) = pt_protocol p"
| "part_protocol (RaftPartition p) = rp_protocol p"

fun part_claim :: "WireProtocol \<Rightarrow> PartitionBase \<Rightarrow> PartitionBase \<times> unit expected" where
  "part_claim proto (LocalPartition p) =
     (case claim_protocol proto (pt_protocol p) of (c, r) \<Rightarrow> (LocalPartition (p\<lparr> pt_protocol := c \<rparr>), r))"
| "part_claim proto (RaftPartition p) =
     (case claim_protocol proto (rp_protocol p) of (c, r) \<Rightarrow> (RaftPartition (p\<lparr> rp_protocol := c \<rparr>), r))"

text \<open>A replicated partition leaves its prefix to the compaction of Raft.\<close>

fun part_retention :: "RetentionPolicy \<Rightarrow> (int \<Rightarrow> int option) \<Rightarrow> PartitionBase \<Rightarrow> PartitionBase" where
  "part_retention policy age (LocalPartition p) = LocalPartition (partition_retention policy age p)"
| "part_retention policy age (RaftPartition p) = RaftPartition p"


section \<open>Both logs serve producers\<close>

definition local_holds :: "crypto_lib \<Rightarrow> PartitionLog \<times> (nat \<Rightarrow> log_env) \<Rightarrow> RecordBatch list \<Rightarrow> bool" where
  "local_holds cr le bs \<longleftrightarrow> (\<exists>bss. plog_inv cr (fst le) bss \<and> log_batches bss = bs)"

definition local_fit :: "crypto_lib \<Rightarrow> PartitionLog \<times> (nat \<Rightarrow> log_env) \<Rightarrow> RecordBatch \<Rightarrow> bool" where
  "local_fit cr le b \<longleftrightarrow> env_ok (snd le 0) \<and> (crypto_used (fst le) \<longrightarrow> crypto_ok cr) \<and>
     wf_batch (rebase b (log_end_offset (fst le))) \<and> 1 \<le> record_count (header b) \<and>
     segs_small (log_end_offset (fst le)) (segments (fst le))"

lemma segs_small_active:
  assumes "plog_inv cr pl bss" "segs_small (log_end_offset pl) (segments pl)"
  shows "seg_small (active pl) (last bss)"
proof -
  have ch: "chain cr (log_start_offset pl) (segments pl) bss" "segments pl \<noteq> []"
    and sm: "segs_small (end_of (log_start_offset pl) (log_batches bss)) (segments pl)"
    using assms by (simp_all add: plog_inv_def)
  have l: "length (segments pl) = length bss" "bss \<noteq> []" using chain_length [OF ch(1)] ch(2) by auto
  have "(active pl, last bss) \<in> set (zip (segments pl) bss)"
    using l ch(2) by (auto simp: in_set_conv_nth last_conv_nth intro!: exI [of _ "length bss - 1"])
  then show ?thesis by (rule segs_small_seg [OF ch(1) sm])
qed

interpretation local_log: producer_log "plog_append_next cr" "\<lambda>le. log_end_offset (fst le)" "local_holds cr" "local_fit cr" for cr
proof unfold_locales
  fix l l' :: "PartitionLog \<times> (nat \<Rightarrow> log_env)" and bs b k
  assume h: "local_holds cr l bs" "local_fit cr l b" "plog_append_next cr l b = (l', Inr k)"
  obtain bss where i: "plog_inv cr (fst l) bss" "log_batches bss = bs" using h(1) by (auto simp: local_holds_def)
  have a: "plog_append cr (snd l 0) (fst l) b = (fst l', Inr k)"
    using h(3) by (auto simp: plog_append_next_def split: prod.splits)
  have f: "env_ok (snd l 0)" "crypto_used (fst l) \<longrightarrow> crypto_ok cr" "wf_batch (rebase b (log_end_offset (fst l)))"
    "1 \<le> record_count (header b)" "seg_small (active (fst l)) (last bss)"
    using h(2) segs_small_active [OF i(1)] by (simp_all add: local_fit_def)
  from plog_append_inv [OF i(1) f a] obtain bss' where
    "plog_inv cr (fst l') bss'" "k = log_end_offset (fst l) + record_count (header b) - 1"
    "log_batches bss' = log_batches bss @ [rebase b (log_end_offset (fst l))]" by auto
  then show "local_holds cr l' (bs @ [rebase b (log_end_offset (fst l))]) \<and>
      k = log_end_offset (fst l) + record_count (header b) - 1"
    using i(2) by (auto simp: local_holds_def)
qed (simp add: local_fit_def)

definition raft_holds :: "crypto_lib \<Rightarrow> RaftLog RaftNode \<Rightarrow> RecordBatch list \<Rightarrow> bool" where
  "raft_holds cr n bs \<longleftrightarrow> (\<exists>a. rl_mem cr (rn_log n) a [] \<and> abs_batches a = bs)"

definition raft_fit :: "crypto_lib \<Rightarrow> RaftLog RaftNode \<Rightarrow> RecordBatch \<Rightarrow> bool" where
  "raft_fit cr n b \<longleftrightarrow> wf_batch b \<and> 1 \<le> record_count (header b) \<and> log_usable cr (rn_log n) \<and>
     fits_i64 (log_end_offset (rl_log (rn_log n)))"


lemma abs_batches_push: "abs_batches (al_push a e b) = abs_batches a @ [rebase b (al_end a)]"
  by (simp add: al_push_def)

lemma advance_commit_log [simp]: "rn_log (advance_commit_index ops n) = rn_log n"
  by (simp add: advance_commit_index_def Let_def)

interpretation raft_log: producer_log "propose_offset cr" "\<lambda>n. log_end_offset (rl_log (rn_log n))" "raft_holds cr" "raft_fit cr" for cr
proof unfold_locales
  fix n n' bs b k
  assume h: "raft_holds cr n bs" "raft_fit cr n b" "propose_offset cr n b = (n', Inr k)"
  obtain a where a: "rl_mem cr (rn_log n) a []" "abs_batches a = bs" using h(1) by (auto simp: raft_holds_def)
  define e where "e = \<lparr> le_term = node_term n, le_index = op_last_index (raft_log_ops cr) (rn_log n) + 1, le_type = Data, le_payload = encode b \<rparr>"
  obtain l i where ap: "rl_append cr (rn_log n) [e] = (l, Inr i)" "rn_log n' = l" "bindE (offsets_at l i) (\<lambda>(x, y). Inr y) = Inr k"
    using h(3) by (auto simp: propose_offset_def propose_def e_def Let_def raft_log_ops_def split: prod.splits sum.splits if_splits)
  have d: "decode (le_payload e) = Inr b" using h(2) decode_encode [of b "[]"] by (simp add: raft_fit_def e_def)
  have "rl_usable cr (rn_log n) [e]"
    using h(2) d by (simp add: raft_fit_def entry_fits_def split: prod.split sum.split)
  from raft_replicated.rel_append [OF a(1) this] ap(1) obtain a' where
    a': "al_append a [e] = (a', Inr i)" "rl_mem cr l a' []" by (auto simp: raft_log_ops_def)
  have p: "a' = al_push a e b" "i = al_last_index a'" using a'(1) d by auto
  have en: "log_end_offset (rl_log (rn_log n)) = al_end a" using rl_mem_end(2) [OF a(1)] by simp
  have "offsets_at l i = al_offsets_at a' i" using raft_replicated.rel_offsets_at [OF a'(2)] by (simp add: raft_log_ops_def)
  moreover have "al_offsets_at a' i = Inr (al_end a, al_end a + record_count (header b) - 1)"
    using p by (simp add: al_offsets_at_def al_last_index_def al_slot_def al_push_def nth_append rebase_def last_offset_def)
  ultimately have "k = al_end a + record_count (header b) - 1" using ap(3) by simp
  moreover have "raft_holds cr n' (bs @ [rebase b (al_end a)])"
    using a' p(1) a(2) ap(2) by (auto simp: raft_holds_def abs_batches_push intro!: exI [of _ a'])
  ultimately show "raft_holds cr n' (bs @ [rebase b (log_end_offset (rl_log (rn_log n)))]) \<and>
      k = log_end_offset (rl_log (rn_log n)) + record_count (header b) - 1"
    using en by simp
qed (simp add: raft_fit_def)



section \<open>Exactly once\<close>

fun partition_run :: "crypto_lib \<Rightarrow> RecordBatch list \<Rightarrow> Partition \<Rightarrow> Partition \<times> int expected list" where
  "partition_run cr [] p = (p, [])"
| "partition_run cr (b # bs) p =
     (case partition_produce cr b p of (p, r) \<Rightarrow> case partition_run cr bs p of (p, rs) \<Rightarrow> (p, r # rs))"

definition local_works :: "crypto_lib \<Rightarrow> RecordBatch list \<Rightarrow> Partition \<Rightarrow> bool" where
  "local_works cr bs p \<longleftrightarrow> storage_works (plog_append_next cr) (\<lambda>le. log_end_offset (fst le)) (local_fit cr) bs
     ((pt_log p, pt_envs p), pt_producers p)"

lemma partition_run_all:
  "partition_run cr bs p = (p', rs) \<Longrightarrow>
   produce_all (plog_append_next cr) (\<lambda>le. log_end_offset (fst le)) bs ((pt_log p, pt_envs p), pt_producers p) =
     (((pt_log p', pt_envs p'), pt_producers p'), rs)"
proof (induction bs arbitrary: p rs)
  case (Cons b bs)
  obtain p1 r where p1: "partition_produce cr b p = (p1, r)" by fastforce
  obtain rs1 where rs1: "partition_run cr bs p1 = (p', rs1)" "rs = r # rs1" using Cons.prems p1 by (auto split: prod.splits)
  have "idempotent_produce (plog_append_next cr) (\<lambda>le. log_end_offset (fst le)) b ((pt_log p, pt_envs p), pt_producers p) =
      (((pt_log p1, pt_envs p1), pt_producers p1), r)"
    using p1 by (auto simp: partition_produce_def split: prod.splits)
  then show ?case using Cons.IH [OF rs1(1)] rs1(2) by simp
qed simp


definition roomy_partition :: Partition where
  "roomy_partition = new_partition (sample_log\<lparr> cfg := (cfg sample_log)\<lparr> segment_bytes := 1000 \<rparr> \<rparr>) (\<lambda>_. sample_env)"

definition numbered_batch :: "int \<Rightarrow> RecordBatch" where
  "numbered_batch q = \<lparr> header = default_header\<lparr> producer_id := 5, producer_epoch := 0, base_sequence := q, record_count := 2 \<rparr>,
     records = [1, 2, 3] \<rparr>"

lemma roomy_partition_inv: "plog_inv no_crypto (pt_log roomy_partition) sample_blocks"
  using sample_log_inv(1) by (simp add: plog_inv_def roomy_partition_def new_partition_def)

lemma roomy_append:
  obtains pl' where "plog_append_next no_crypto (pt_log roomy_partition, pt_envs roomy_partition) (numbered_batch 0) = ((pl', \<lambda>_. sample_env), Inr 11)"
    "local_fit no_crypto (pt_log roomy_partition, pt_envs roomy_partition) (numbered_batch 0)"
proof -
  let ?pl = "pt_log roomy_partition"
  have "active ?pl = tail_segment" by (simp add: roomy_partition_def new_partition_def sample_log_def)
  then have "\<exists>pl'. plog_append no_crypto sample_env ?pl (numbered_batch 0) = (pl', Inr (log_end_offset ?pl + record_count (header (numbered_batch 0)) - 1))"
    by (intro plog_append_healthy)
      (simp_all add: tail_segment_def is_full_def empty_file_def roomy_partition_def new_partition_def sample_log_def)
  then obtain pl' where "plog_append no_crypto sample_env ?pl (numbered_batch 0) = (pl', Inr 11)"
    by (auto simp: roomy_partition_def new_partition_def sample_log_def numbered_batch_def)
  then have "plog_append_next no_crypto (?pl, pt_envs roomy_partition) (numbered_batch 0) = ((pl', \<lambda>_. sample_env), Inr 11)"
    by (simp add: plog_append_next_def roomy_partition_def new_partition_def)
  moreover have "local_fit no_crypto (?pl, pt_envs roomy_partition) (numbered_batch 0)"
    by (simp add: local_fit_def roomy_partition_def new_partition_def sample_env_def env_ok_def empty_file_def readable_def
        crypto_used_def sample_log_def sample_segment_def tail_segment_def numbered_batch_def default_header_def wf_batch_def
        wf_header_def rebase_def)
  ultimately show thesis by (rule that)
qed

lemma roomy_produces:
  obtains p1 where "idempotent_produce (plog_append_next no_crypto) (\<lambda>le. log_end_offset (fst le)) (numbered_batch 0)
      ((pt_log roomy_partition, pt_envs roomy_partition), pt_producers roomy_partition) = (((pt_log p1, pt_envs p1), pt_producers p1), Inr 11)"
    "partition_produce no_crypto (numbered_batch 0) roomy_partition = (p1, Inr 11)"
    "pt_producers p1 = [5 \<mapsto> \<lparr> sess_producer_id = 5, sess_epoch = 0, last_sequence = 1, last_base_sequence = 0, last_base_offset = 10 \<rparr>]"
proof -
  obtain pl' where pl: "plog_append_next no_crypto (pt_log roomy_partition, pt_envs roomy_partition) (numbered_batch 0) = ((pl', \<lambda>_. sample_env), Inr 11)"
    by (rule roomy_append)
  let ?ss = "[5 \<mapsto> \<lparr> sess_producer_id = 5, sess_epoch = 0, last_sequence = 1, last_base_sequence = 0, last_base_offset = 10 \<rparr>]"
  have "idempotent_produce (plog_append_next no_crypto) (\<lambda>le. log_end_offset (fst le)) (numbered_batch 0)
      ((pt_log roomy_partition, pt_envs roomy_partition), pt_producers roomy_partition) = (((pl', \<lambda>_. sample_env), ?ss), Inr 11)"
    using pl by (simp add: idempotent_produce_def Let_def session_for_def session_check_def session_accept_def)
      (simp add: numbered_batch_def roomy_partition_def new_partition_def new_session_def kNoSequence_def)
  then show thesis
    using that [of "roomy_partition\<lparr> pt_log := pl', pt_envs := (\<lambda>_. sample_env), pt_producers := ?ss \<rparr>"]
    by (simp add: partition_produce_def)
qed



text \<open>
  A failure of the storage breaks the promise: when the bytes of a batch are written and the sync after
  them fails, \<open>produce\<close> returns the error and the session does not know the batch, which stays in the log; the
  retry of the producer stores it a second time.
\<close>

definition flaky_partition :: Partition where
  "flaky_partition = roomy_partition\<lparr> pt_log := set_active (pt_log roomy_partition)
     (tail_segment\<lparr> seg_log := (seg_log tail_segment)\<lparr> sched := [Done 1000, Failed] \<rparr> \<rparr>) \<rparr>"

lemma write_at_done:
  "sched f = Done n # sch \<Longrightarrow> d \<noteq> [] \<Longrightarrow> length d \<le> n \<Longrightarrow>
   write_at f d off = (f\<lparr> content := overwrite (content f) off d, sched := sch \<rparr>, Inr ())"
  by (simp add: write_at_def write_loop.simps)

lemma encode_nonempty [simp]: "encode b \<noteq> []"
proof -
  have "0 < length (encode b)" unfolding length_encode by (simp add: encoded_size_def)
  then show ?thesis by (rule length_greater_0_conv [THEN iffD1])
qed

lemma plog_append_commit:
  fixes pl b
  defines "b' \<equiv> rebase b (log_end_offset pl)" and "s \<equiv> active pl"
  assumes "\<not> is_full s (segment_bytes (cfg pl))" "seg_state s \<noteq> Closed" "seg_cipher s = None" "fsync_policy (cfg pl) = FsyncCommit"
    "write_at (seg_log s) (encode b') (size_bytes s) = (fw, Inr ())"
    "index_flush (maybe_append (seg_index s) (base_offset (header b')) (size_bytes s) (encoded_size b')) = (ix, Inr ())"
    "sync_file fw = (fs, r)"
  shows "\<exists>pl'. plog_append cr env pl b = (pl', case r of Inl e \<Rightarrow> Inl e | Inr _ \<Rightarrow> Inr (last_offset b')) \<and>
    segments pl' = butlast (segments pl) @ [s\<lparr> seg_log := fs, seg_index := ix, size_bytes := size_bytes s + encoded_size b' \<rparr>] \<and>
    log_end_offset pl' = last_offset b' + 1 \<and> cfg pl' = cfg pl"
  using assms by (cases r) (simp_all add: plog_append_def append_rolled_def segment_append_def maybe_sync_def plog_sync_def segment_sync_def set_active_def Let_def)

lemma stored_twice:
  "case partition_run no_crypto [numbered_batch 0, numbered_batch 0] flaky_partition of (p', rs) \<Rightarrow>
     rs = [Inl IoError, Inr 13] \<and>
     content (seg_log (active (pt_log p'))) =
       encode next_batch @ encode (rebase (numbered_batch 0) 10) @ encode (rebase (numbered_batch 0) 12)"
proof -
  let ?b = "numbered_batch 0" and ?l = "pt_log flaky_partition"
  let ?f = "seg_log tail_segment" and ?c1 = "encode next_batch @ encode (rebase (numbered_batch 0) 10)"
  let ?c2 = "encode next_batch @ encode (rebase (numbered_batch 0) 10) @ encode (rebase (numbered_batch 0) 12)"
  have l: "active ?l = tail_segment\<lparr> seg_log := ?f\<lparr> sched := [Done 1000, Failed] \<rparr> \<rparr>" "log_end_offset ?l = 10"
    "cfg ?l = (cfg sample_log)\<lparr> segment_bytes := 1000 \<rparr>"
    by (simp_all add: flaky_partition_def set_active_def roomy_partition_def new_partition_def sample_log_def)
  have sz: "encoded_size (rebase ?b o') = 39" "encoded_size next_batch = 37" "last_offset (rebase ?b o') = o' + 1" "base_offset (header (rebase ?b o')) = o'"
    "record_count (header ?b) = 2" for o'
    by (simp_all add: encoded_size_def rebase_def numbered_batch_def next_batch_def kHeaderSize_def last_offset_def)
  have t: "seg_log tail_segment = empty_file\<lparr> content := encode next_batch \<rparr>" "seg_cipher tail_segment = None" "size_bytes tail_segment = 37"
    "seg_state tail_segment = Active" by (simp_all add: tail_segment_def)
  let ?s1 = "tail_segment\<lparr> seg_log := ?f\<lparr> content := ?c1, sched := [] \<rparr>,
      seg_index := (seg_index tail_segment)\<lparr> bytes_since := 76 \<rparr>, size_bytes := 76 \<rparr>"
  have ix: "index_flush (maybe_append (seg_index tail_segment) 10 37 39) = ((seg_index tail_segment)\<lparr> bytes_since := 76 \<rparr>, Inr ())"
    "index_flush (maybe_append ((seg_index tail_segment)\<lparr> bytes_since := 76 \<rparr>) 12 76 39) = ((seg_index tail_segment)\<lparr> bytes_since := 115 \<rparr>, Inr ())"
    by (simp_all add: index_flush_def maybe_append_def tail_segment_def Let_def sync_file_def empty_file_def)
  have w1: "write_at (?f\<lparr> sched := [Done 1000, Failed] \<rparr>) (encode (rebase ?b 10)) 37 = (?f\<lparr> content := ?c1, sched := [Failed] \<rparr>, Inr ())"
    using write_at_done [of "?f\<lparr> sched := [Done 1000, Failed] \<rparr>" 1000 "[Failed]" "encode (rebase ?b 10)" 37] by (simp add: sz t overwrite_at_end)
  have "\<exists>pl1. plog_append no_crypto sample_env ?l ?b = (pl1, case (Inl IoError :: unit expected) of Inl e \<Rightarrow> Inl e | Inr _ \<Rightarrow> Inr (last_offset (rebase ?b (log_end_offset ?l)))) \<and>
      segments pl1 = butlast (segments ?l) @ [(active ?l)\<lparr> seg_log := ?f\<lparr> content := ?c1, sched := [] \<rparr>,
        seg_index := (seg_index tail_segment)\<lparr> bytes_since := 76 \<rparr>, size_bytes := size_bytes (active ?l) + encoded_size (rebase ?b (log_end_offset ?l)) \<rparr>] \<and>
      log_end_offset pl1 = last_offset (rebase ?b (log_end_offset ?l)) + 1 \<and> cfg pl1 = cfg ?l"
    by (rule plog_append_commit [where fw = "?f\<lparr> content := ?c1, sched := [Failed] \<rparr>"])
      (simp_all add: l t sz is_full_def sample_log_def w1 [unfolded t] ix sync_file_def)
  then obtain pl1 where p1: "plog_append no_crypto sample_env ?l ?b = (pl1, Inl IoError)" "active pl1 = ?s1" "log_end_offset pl1 = 12" "cfg pl1 = cfg ?l"
    by (auto simp: l t sz)
  have w2: "write_at (empty_file\<lparr> content := ?c1, sched := [] \<rparr>) (encode (rebase ?b 12)) 76 = (empty_file\<lparr> content := ?c2, sched := [] \<rparr>, Inr ())"
    by (subst write_at_healthy) (simp_all add: sz overwrite_at_end)
  have "\<exists>pl2. plog_append no_crypto sample_env pl1 ?b = (pl2, case (Inr () :: unit expected) of Inl e \<Rightarrow> Inl e | Inr _ \<Rightarrow> Inr (last_offset (rebase ?b (log_end_offset pl1)))) \<and>
      segments pl2 = butlast (segments pl1) @ [(active pl1)\<lparr> seg_log := ?f\<lparr> content := ?c2, sched := [] \<rparr>,
        seg_index := (seg_index tail_segment)\<lparr> bytes_since := 115 \<rparr>, size_bytes := size_bytes (active pl1) + encoded_size (rebase ?b (log_end_offset pl1)) \<rparr>] \<and>
      log_end_offset pl2 = last_offset (rebase ?b (log_end_offset pl1)) + 1 \<and> cfg pl2 = cfg pl1"
    by (rule plog_append_commit [where fw = "?f\<lparr> content := ?c2, sched := [] \<rparr>"])
      (simp_all add: l p1 t sz is_full_def sample_log_def w2 ix sync_file_def)
  then obtain pl2 where p2: "plog_append no_crypto sample_env pl1 ?b = (pl2, Inr 13)" "content (seg_log (active pl2)) = ?c2"
    by (auto simp: p1 sz)
  have e: "pt_envs flaky_partition = (\<lambda>_. sample_env)" "pt_producers flaky_partition = Map.empty"
    by (simp_all add: flaky_partition_def roomy_partition_def new_partition_def)
  let ?ss = "[5 \<mapsto> new_session 5 0]"
  have h: "producer_id (header ?b) = 5" "producer_epoch (header ?b) = 0" "base_sequence (header ?b) = 0" "record_count (header ?b) = 2"
    by (simp_all add: numbered_batch_def)
  have n: "session_check (new_session 5 0) 0 0 2 = Accept" by (simp add: session_check_def new_session_def kNoSequence_def)
  have r1: "partition_produce no_crypto ?b flaky_partition = (flaky_partition\<lparr> pt_log := pl1, pt_producers := ?ss \<rparr>, Inl IoError)"
    using p1(1) n e by (simp add: partition_produce_def idempotent_produce_def Let_def session_for_def h plog_append_next_def)
  show ?thesis
    using p2 n e by (simp add: r1) (simp add: partition_produce_def idempotent_produce_def Let_def session_for_def h plog_append_next_def)
qed



section \<open>The replicated partition\<close>

fun replicated_run :: "crypto_lib \<Rightarrow> RecordBatch list \<Rightarrow> ReplicatedPartition \<Rightarrow> ReplicatedPartition \<times> int expected list" where
  "replicated_run cr [] p = (p, [])"
| "replicated_run cr (b # bs) p =
     (case replicated_produce cr b p of (p, r) \<Rightarrow> case replicated_run cr bs p of (p, rs) \<Rightarrow> (p, r # rs))"

definition raft_works :: "crypto_lib \<Rightarrow> RecordBatch list \<Rightarrow> ReplicatedPartition \<Rightarrow> bool" where
  "raft_works cr bs p \<longleftrightarrow> storage_works (propose_offset cr) (\<lambda>n. log_end_offset (rl_log (rn_log n))) (raft_fit cr) bs
     (rp_raft p, rp_producers p)"

lemma propose_role: "rn_role (fst (propose_offset cr n b)) = rn_role n"
  by (auto simp: propose_offset_def propose_def advance_commit_index_def Let_def split: prod.split sum.split)

lemma replicated_produce_leader:
  assumes "rn_role (rp_raft p) = Leader" "replicated_produce cr b p = (p', r)"
  shows "idempotent_produce (propose_offset cr) (\<lambda>n. log_end_offset (rl_log (rn_log n))) b (rp_raft p, rp_producers p) =
      ((rp_raft p', rp_producers p'), r)"
    and "rn_role (rp_raft p') = Leader"
proof -
  show i: "idempotent_produce (propose_offset cr) (\<lambda>n. log_end_offset (rl_log (rn_log n))) b (rp_raft p, rp_producers p) =
      ((rp_raft p', rp_producers p'), r)"
    using assms by (auto simp: replicated_produce_def split: prod.splits)
  have "rp_raft p' = rp_raft p \<or> rp_raft p' = fst (propose_offset cr (rp_raft p) b)"
    using i by (auto simp: idempotent_produce_def Let_def split: prod.splits if_splits SeqCheck.splits sum.splits)
  then show "rn_role (rp_raft p') = Leader" using assms(1) by (auto simp: propose_role)
qed

lemma replicated_run_all:
  "rn_role (rp_raft p) = Leader \<Longrightarrow> replicated_run cr bs p = (p', rs) \<Longrightarrow>
   produce_all (propose_offset cr) (\<lambda>n. log_end_offset (rl_log (rn_log n))) bs (rp_raft p, rp_producers p) =
     ((rp_raft p', rp_producers p'), rs)"
proof (induction bs arbitrary: p rs)
  case (Cons b bs)
  obtain p1 r where p1: "replicated_produce cr b p = (p1, r)" by fastforce
  obtain rs1 where rs1: "replicated_run cr bs p1 = (p', rs1)" "rs = r # rs1" using Cons.prems(2) p1 by (auto split: prod.splits)
  note l = replicated_produce_leader [OF Cons.prems(1) p1]
  show ?case using Cons.IH [OF l(2) rs1(1)] l(1) rs1(2) by simp
qed simp

text \<open>
  The high watermark in terms of the log of the contract.  When the commit index is not above the
  base of the snapshot, as after every compaction up to the commit index, the watermark is the start
  of the log.
\<close>

lemma replicated_watermark:
  assumes "rl_mem cr (rp_rlog p) a []"
  defines "commit \<equiv> commit_index (rn_volatile (rp_raft p))"
  shows "replicated_high_watermark p =
      (if commit \<le> al_index a \<or> al_last_index a < commit then log_start_offset (rp_log p)
       else last_offset (ae_batch (al_entries a ! al_slot a commit)) + 1)"
    and "log_start_offset (rp_log p) \<le> replicated_high_watermark p \<and> replicated_high_watermark p \<le> log_end_offset (rp_log p)"
proof -
  have o: "offsets_at (rp_rlog p) i = al_offsets_at a i" for i
    using raft_replicated.rel_offsets_at [OF assms(1)] by (simp add: raft_log_ops_def)
  have "0 \<le> al_index a" using assms(1) by (simp add: rl_mem_def)
  then show hw: "replicated_high_watermark p =
      (if commit \<le> al_index a \<or> al_last_index a < commit then log_start_offset (rp_log p)
       else last_offset (ae_batch (al_entries a ! al_slot a commit)) + 1)"
    by (auto simp: replicated_high_watermark_def Let_def o al_offsets_at_def commit_def)
  obtain bss pre where inv: "plog_inv cr (rp_log p) bss" "log_batches bss = pre @ abs_batches a"
    using assms(1) by (auto simp: rl_mem_def)
  have c: "contiguous (log_start_offset (rp_log p)) (log_batches bss)"
    and e: "log_end_offset (rp_log p) = end_of (log_start_offset (rp_log p)) (log_batches bss)"
    using inv(1) chain_contiguous by (auto simp: plog_inv_def)
  have "ae_batch (al_entries a ! al_slot a commit) \<in> set (log_batches bss)" if "\<not> (commit \<le> al_index a \<or> al_last_index a < commit)"
  proof -
    have "al_slot a commit < length (al_entries a)" using that by (simp add: al_slot_def al_last_index_def nat_less_iff)
    then show ?thesis using inv(2) nth_mem by auto
  qed
  then show "log_start_offset (rp_log p) \<le> replicated_high_watermark p \<and> replicated_high_watermark p \<le> log_end_offset (rp_log p)"
    using contiguous_offsets [OF c] end_of_ge [OF c] e unfolding hw by fastforce
qed



definition roomy_replica :: ReplicatedPartition where
  "roomy_replica = \<lparr> rp_raft = (new_node 1 [] (sample_raft_log\<lparr> rl_log := pt_log roomy_partition \<rparr>)
       \<lparr> election_timeout_min = 1000, election_timeout_max = 1500, heartbeat_interval = 150, random_seed = 0 \<rparr> [])
       \<lparr> rn_role := Leader, rn_persistent := \<lparr> current_term = 2, voted_for = Some 1 \<rparr> \<rparr>,
     rp_producers = Map.empty, rp_protocol = Unset \<rparr>"

lemma roomy_replica_ok:
  "rl_mem no_crypto (rp_rlog roomy_replica) sample_abs []" "raft_fit no_crypto (rp_raft roomy_replica) (numbered_batch 0)"
proof -
  show "rl_mem no_crypto (rp_rlog roomy_replica) sample_abs []"
    using sample_raft_log_ok(1) roomy_partition_inv
    by (auto simp: rl_mem_def roomy_replica_def new_node_def roomy_partition_def new_partition_def plog_inv_def sample_raft_log_def)
  show "raft_fit no_crypto (rp_raft roomy_replica) (numbered_batch 0)"
    using sample_raft_log_ok(3)
    by (simp add: raft_fit_def roomy_replica_def new_node_def numbered_batch_def default_header_def wf_batch_def wf_header_def
        log_usable_def roomy_partition_def new_partition_def sample_raft_log_def sample_log_def plog_readable_def crypto_used_def)
qed

lemma roomy_replica_proposes: "\<exists>n'. propose_offset no_crypto (rp_raft roomy_replica) (numbered_batch 0) = (n', Inr 11)"
proof -
  let ?n = "rp_raft roomy_replica" and ?b = "numbered_batch 0"
  let ?e = "\<lparr> le_term = node_term ?n, le_index = op_last_index (raft_log_ops no_crypto) (rn_log ?n) + 1, le_type = Data, le_payload = encode ?b \<rparr>"
  have d: "decode (encode ?b) = Inr ?b" using roomy_replica_ok(2) decode_encode [of ?b "[]"] by (simp add: raft_fit_def)
  obtain pl' where "plog_append_next no_crypto (pt_log roomy_partition, pt_envs roomy_partition) ?b = ((pl', \<lambda>_. sample_env), Inr 11)"
    by (rule roomy_append)
  then have pl: "plog_append no_crypto sample_env (pt_log roomy_partition) ?b = (pl', Inr 11)"
    by (auto simp: plog_append_next_def roomy_partition_def new_partition_def split: prod.splits)
  have "\<exists>l. rl_append no_crypto (rn_log ?n) [?e] = (l, Inr (last_index l)) \<and> 0 \<le> rl_snapshot_index l \<and> rl_entries l \<noteq> []"
    by (simp add: append_entry_def d roomy_replica_def new_node_def pl sample_raft_log_def persist_meta_def write_at_healthy empty_file_def Let_def)
  then obtain l where l: "rl_append no_crypto (rn_log ?n) [?e] = (l, Inr (last_index l))" "0 \<le> rl_snapshot_index l" "rl_entries l \<noteq> []" by blast
  have ro: "rn_role ?n = Leader" by (simp add: roomy_replica_def)
  have "\<exists>k. offsets_at l (last_index l) = Inr k"
    using l(2,3) by (simp add: offsets_at_def last_index_def Let_def)
  then obtain n' k where "propose_offset no_crypto ?n ?b = (n', Inr k)"
    using l(1) ro by (auto simp: propose_offset_def propose_def Let_def raft_log_ops_def)
  moreover have "raft_holds no_crypto ?n (abs_batches sample_abs)" using roomy_replica_ok(1) by (auto simp: raft_holds_def)
  ultimately have "k = log_end_offset (rl_log (rn_log ?n)) + record_count (header ?b) - 1" "propose_offset no_crypto ?n ?b = (n', Inr k)"
    using raft_log.append_holds [OF _ roomy_replica_ok(2)] by blast+
  then show ?thesis
    by (simp add: roomy_replica_def new_node_def roomy_partition_def new_partition_def sample_log_def numbered_batch_def)
qed


end
