(* ===== verification/Txn_Index.thy ===== *)
theory Txn_Index
  imports Record_Codec "HOL-Library.Multiset"
begin

text \<open>
  The transactional index of a partition (\<^verbatim>\<open>src/src/broker/partition_txn_index.hpp\<close>,
  \<^verbatim>\<open>partition_txn_index.cpp\<close>): the last stable offset, the aborted transactions, and the filter that gives a
  \<open>read_committed\<close> consumer the batches of committed transactions only.  The hash maps of the code are
  association lists and functions; no result depends on their order.
\<close>


section \<open>The index\<close>

record AbortedRange =
  ab_producer :: int
  ab_first :: int
  ab_marker :: int

record PartitionTxnIndex =
  open_txns :: "(int \<times> int) list"
  aborted_ranges :: "AbortedRange list"

definition empty_index :: PartitionTxnIndex where
  "empty_index = \<lparr> open_txns = [], aborted_ranges = [] \<rparr>"

definition on_data :: "int \<Rightarrow> int \<Rightarrow> PartitionTxnIndex \<Rightarrow> PartitionTxnIndex" where
  "on_data pid base ix =
     (case map_of (open_txns ix) pid of
        None \<Rightarrow> ix\<lparr> open_txns := (pid, base) # open_txns ix \<rparr>
      | Some _ \<Rightarrow> ix)"

definition on_marker :: "int \<Rightarrow> ControlRecordType \<Rightarrow> int \<Rightarrow> PartitionTxnIndex \<Rightarrow> PartitionTxnIndex" where
  "on_marker pid decision marker ix =
     (case map_of (open_txns ix) pid of
        None \<Rightarrow> ix
      | Some first \<Rightarrow>
          let ix = (if decision = Abort
                    then ix\<lparr> aborted_ranges := aborted_ranges ix @ [\<lparr> ab_producer = pid, ab_first = first, ab_marker = marker \<rparr>] \<rparr>
                    else ix) in
          ix\<lparr> open_txns := filter (\<lambda>(p, _). p \<noteq> pid) (open_txns ix) \<rparr>)"

definition last_stable_offset :: "PartitionTxnIndex \<Rightarrow> int \<Rightarrow> int" where
  "last_stable_offset ix high_watermark = fold (\<lambda>(_, first) lso. min lso first) (open_txns ix) high_watermark"

definition aborted_transactions :: "PartitionTxnIndex \<Rightarrow> int \<Rightarrow> (int \<times> int) list" where
  "aborted_transactions ix fetch_offset =
     sort_key snd (map (\<lambda>r. (ab_producer r, ab_first r)) (filter (\<lambda>r. ab_marker r > fetch_offset) (aborted_ranges ix)))"

definition evict_below :: "int \<Rightarrow> PartitionTxnIndex \<Rightarrow> PartitionTxnIndex" where
  "evict_below log_start ix = ix\<lparr> aborted_ranges := filter (\<lambda>r. \<not> ab_marker r < log_start) (aborted_ranges ix) \<rparr>"


section \<open>The filter of a committed read\<close>

record AbortedTracker =
  firsts :: "int \<Rightarrow> int list"
  next_txn :: "int \<Rightarrow> nat"
  active_txns :: "int set"

definition new_tracker :: "(int \<times> int) list \<Rightarrow> AbortedTracker" where
  "new_tracker aborted =
     \<lparr> firsts = (\<lambda>pid. sort (map snd (filter (\<lambda>(p, _). p = pid) aborted))), next_txn = (\<lambda>_. 0), active_txns = {} \<rparr>"

definition tracker_marker :: "int \<Rightarrow> AbortedTracker \<Rightarrow> AbortedTracker" where
  "tracker_marker pid t =
     (if pid \<in> active_txns t
      then t\<lparr> active_txns := active_txns t - {pid}, next_txn := (next_txn t)(pid := next_txn t pid + 1) \<rparr> else t)"

definition is_aborted :: "int \<Rightarrow> int \<Rightarrow> AbortedTracker \<Rightarrow> AbortedTracker \<times> bool" where
  "is_aborted pid base t =
     (let t = (if pid \<notin> active_txns t \<and> next_txn t pid < length (firsts t pid) \<and> firsts t pid ! next_txn t pid \<le> base
               then t\<lparr> active_txns := insert pid (active_txns t) \<rparr> else t) in
      (t, pid \<in> active_txns t))"

fun filter_loop :: "AbortedTracker \<Rightarrow> RecordBatch list \<Rightarrow> RecordBatch list" where
  "filter_loop t [] = []"
| "filter_loop t (b # bs) =
     (let pid = producer_id (header b) in
      if is_control (attrs (header b)) then filter_loop (tracker_marker pid t) bs
      else if is_transactional (attrs (header b)) then
        (case is_aborted pid (base_offset (header b)) t of
           (t, True) \<Rightarrow> filter_loop t bs
         | (t, False) \<Rightarrow> b # filter_loop t bs)
      else b # filter_loop t bs)"

definition filter_committed :: "RecordBatch list \<Rightarrow> (int \<times> int) list \<Rightarrow> RecordBatch list" where
  "filter_committed bs aborted = filter_loop (new_tracker aborted) bs"


section \<open>The outcome of a transaction\<close>

text \<open>
  The index follows the log: a transactional batch opens the transaction of its producer, a
  control batch closes it with the decision \<open>dec\<close> that its record carries.
\<close>

abbreviation bpid :: "RecordBatch \<Rightarrow> int" where
  "bpid b \<equiv> producer_id (header b)"

abbreviation boff :: "RecordBatch \<Rightarrow> int" where
  "boff b \<equiv> base_offset (header b)"

abbreviation control :: "RecordBatch \<Rightarrow> bool" where
  "control b \<equiv> is_control (attrs (header b))"

abbreviation transactional :: "RecordBatch \<Rightarrow> bool" where
  "transactional b \<equiv> is_transactional (attrs (header b))"

definition feed :: "(RecordBatch \<Rightarrow> ControlRecordType) \<Rightarrow> RecordBatch \<Rightarrow> PartitionTxnIndex \<Rightarrow> PartitionTxnIndex" where
  "feed dec b ix =
     (if control b then on_marker (bpid b) (dec b) (boff b) ix
      else if transactional b then on_data (bpid b) (boff b) ix else ix)"

text \<open>The transaction of \<open>pid\<close> that is open before \<open>bs\<close>, or that its first batch opens, is aborted.\<close>

fun doomed :: "(RecordBatch \<Rightarrow> ControlRecordType) \<Rightarrow> int \<Rightarrow> RecordBatch list \<Rightarrow> bool" where
  "doomed dec pid [] = False"
| "doomed dec pid (b # bs) = (if bpid b = pid \<and> control b then dec b = Abort else doomed dec pid bs)"

text \<open>What a \<open>read_committed\<close> consumer is to get of a stretch of the log that is followed by \<open>post\<close>.\<close>

fun committed_view :: "(RecordBatch \<Rightarrow> ControlRecordType) \<Rightarrow> RecordBatch list \<Rightarrow> RecordBatch list \<Rightarrow> RecordBatch list" where
  "committed_view dec post [] = []"
| "committed_view dec post (b # bs) =
     (if control b \<or> transactional b \<and> doomed dec (bpid b) (bs @ post) then committed_view dec post bs
      else b # committed_view dec post bs)"

text \<open>The first offsets of the transactions of \<open>pid\<close> that are aborted in a list of batches.\<close>

fun aborts :: "(RecordBatch \<Rightarrow> ControlRecordType) \<Rightarrow> int \<Rightarrow> int option \<Rightarrow> RecordBatch list \<Rightarrow> int list" where
  "aborts dec pid op [] = []"
| "aborts dec pid op (b # bs) =
     (if bpid b \<noteq> pid then aborts dec pid op bs
      else if control b then
        (case op of Some f \<Rightarrow> (if dec b = Abort then [f] else []) | None \<Rightarrow> []) @ aborts dec pid None bs
      else if transactional b then aborts dec pid (case op of None \<Rightarrow> Some (boff b) | Some f \<Rightarrow> Some f) bs
      else aborts dec pid op bs)"

text \<open>The first batch of \<open>pid\<close>'s transactions in the stretch, if any, carries data.\<close>

fun data_first :: "int \<Rightarrow> RecordBatch list \<Rightarrow> bool" where
  "data_first pid [] = True"
| "data_first pid (b # bs) =
     (if bpid b = pid \<and> control b then False else if bpid b = pid \<and> transactional b then True else data_first pid bs)"

abbreviation open_at :: "PartitionTxnIndex \<Rightarrow> int \<Rightarrow> int option" where
  "open_at ix pid \<equiv> map_of (open_txns ix) pid"

lemma map_of_filter_key: "map_of (filter (\<lambda>(p, _). p \<noteq> q) xs) p = (if p = q then None else map_of xs p)"
  by (induction xs) auto

lemma feed_open:
  "open_at (feed dec b ix) pid =
     (if bpid b \<noteq> pid then open_at ix pid
      else if control b then None
      else if transactional b then (case open_at ix pid of None \<Rightarrow> Some (boff b) | Some f \<Rightarrow> Some f)
      else open_at ix pid)"
  by (auto simp: feed_def on_marker_def on_data_def map_of_filter_key Let_def split: option.split)

text \<open>The ranges that feeding a list of batches adds for \<open>pid\<close>.\<close>

lemma feed_ranges:
  "map ab_first (filter (\<lambda>r. ab_producer r = pid) (aborted_ranges (fold (feed dec) bs ix))) =
     map ab_first (filter (\<lambda>r. ab_producer r = pid) (aborted_ranges ix)) @ aborts dec pid (open_at ix pid) bs"
proof (induction bs arbitrary: ix)
  case (Cons b bs)
  have "map ab_first (filter (\<lambda>r. ab_producer r = pid) (aborted_ranges (feed dec b ix))) =
     map ab_first (filter (\<lambda>r. ab_producer r = pid) (aborted_ranges ix)) @
     (if bpid b = pid \<and> control b then case open_at ix pid of Some f \<Rightarrow> (if dec b = Abort then [f] else []) | None \<Rightarrow> [] else [])"
    by (auto simp: feed_def on_marker_def on_data_def Let_def split: option.split)
  then show ?case using Cons.IH [of "feed dec b ix"] by (auto simp: feed_open)
qed simp

text \<open>Every range ends at a marker of the log, in the order of the log.\<close>

lemma feed_markers:
  "\<exists>rs. aborted_ranges (fold (feed dec) bs ix) = aborted_ranges ix @ rs \<and> (\<forall>r \<in> set rs. \<exists>b \<in> set bs. control b \<and> ab_marker r = boff b)"
proof (induction bs arbitrary: ix)
  case (Cons b bs)
  have "\<exists>rs. aborted_ranges (feed dec b ix) = aborted_ranges ix @ rs \<and> (\<forall>r \<in> set rs. control b \<and> ab_marker r = boff b)"
    by (auto simp: feed_def on_marker_def on_data_def Let_def split: option.split)
  then show ?case using Cons.IH [of "feed dec b ix"] by fastforce
qed simp



section \<open>The filter is exact\<close>

lemma doomed_aborts: "doomed dec pid bs \<Longrightarrow> \<exists>fs. aborts dec pid (Some f) bs = f # fs"
  by (induction dec pid bs rule: doomed.induct) (auto split: if_splits)

lemma aborts_range: "set (aborts dec pid op bs) \<subseteq> set_option op \<union> boff ` set bs"
  by (induction bs arbitrary: op) (fastforce split: option.splits if_splits)+

lemma aborts_starts: "\<not> doomed dec pid bs \<Longrightarrow> set (aborts dec pid (Some f) bs) \<subseteq> boff ` set bs"
proof (induction dec pid bs rule: doomed.induct)
  case (2 dec pid b bs)
  then show ?case using aborts_range [of dec pid None bs] by auto
qed simp

lemma aborts_sorted:
  "sorted_wrt (\<lambda>a b. boff a < boff b) bs \<Longrightarrow> (\<And>f b. op = Some f \<Longrightarrow> b \<in> set bs \<Longrightarrow> f \<le> boff b) \<Longrightarrow>
   sorted (aborts dec pid op bs)"
proof (induction bs arbitrary: op)
  case (Cons b bs)
  have n: "sorted (aborts dec pid None bs)" using Cons.prems(1) by (intro Cons.IH) auto
  have f: "f \<le> x" if "op = Some f" "x \<in> set (aborts dec pid None bs)" for f x
    using aborts_range [of dec pid None bs] Cons.prems(2) [OF that(1)] that(2) by fastforce
  have s: "sorted (aborts dec pid (Some f) bs)" if "f \<le> boff b" for f
    using Cons.prems(1) that by (intro Cons.IH) force+
  have o: "sorted (aborts dec pid op bs)" using Cons.prems by (intro Cons.IH) auto
  have "sorted (aborts dec pid (case op of None \<Rightarrow> Some (boff b) | Some f \<Rightarrow> Some f) bs)"
    using s Cons.prems(2) by (force split: option.split)
  then show ?case using n f o by (auto split: option.split)
qed simp

text \<open>
  The state of the tracker before the stretch \<open>bs\<close>: its remaining starts are those of the transactions that
  will be aborted, and a producer is active only inside such a transaction.
\<close>

definition in_step ::
  "(RecordBatch \<Rightarrow> ControlRecordType) \<Rightarrow> RecordBatch list \<Rightarrow> (int \<Rightarrow> int option) \<Rightarrow> AbortedTracker \<Rightarrow> RecordBatch list \<Rightarrow> bool" where
  "in_step dec post op t bs \<longleftrightarrow> (\<forall>pid.
     drop (next_txn t pid) (firsts t pid) = aborts dec pid (op pid) (bs @ post) \<and>
     (pid \<in> active_txns t \<longrightarrow> op pid \<noteq> None \<and> doomed dec pid (bs @ post)) \<and>
     (op pid \<noteq> None \<and> doomed dec pid (bs @ post) \<and> pid \<notin> active_txns t \<longrightarrow> data_first pid bs) \<and>
     (\<forall>f. op pid = Some f \<longrightarrow> (\<forall>b \<in> set (bs @ post). f \<le> boff b)))"

lemma in_stepD:
  assumes "in_step dec post op t bs"
  shows "drop (next_txn t pid) (firsts t pid) = aborts dec pid (op pid) (bs @ post)"
    "pid \<in> active_txns t \<Longrightarrow> op pid \<noteq> None \<and> doomed dec pid (bs @ post)"
    "op pid = Some f \<Longrightarrow> doomed dec pid (bs @ post) \<Longrightarrow> pid \<notin> active_txns t \<Longrightarrow> data_first pid bs"
    "op pid = Some f \<Longrightarrow> b \<in> set (bs @ post) \<Longrightarrow> f \<le> boff b"
  using assms by (auto simp: in_step_def)

lemma in_step_marker:
  assumes i: "in_step dec post op t (b # bs)" and c: "control b"
  shows "in_step dec post (op(bpid b := None)) (tracker_marker (bpid b) t) bs"
  unfolding in_step_def
proof (intro allI conjI)
  fix pid
  note D = in_stepD [OF i]
  let ?t = "tracker_marker (bpid b) t" and ?op = "op(bpid b := None)"
  show "drop (next_txn ?t pid) (firsts ?t pid) = aborts dec pid (?op pid) (bs @ post)"
  proof (cases "pid = bpid b")
    case True
    show ?thesis
    proof (cases "pid \<in> active_txns t")
      case a: True
      then obtain f where "op pid = Some f" "dec b = Abort" using D(2) [OF a] True c by auto
      then have "drop (next_txn t pid) (firsts t pid) = f # aborts dec pid None (bs @ post)" using D(1) [of pid] True c by simp
      then have "drop (Suc (next_txn t pid)) (firsts t pid) = aborts dec pid None (bs @ post)"
        by (metis drop_Suc list.sel(3) tl_drop)
      then show ?thesis using a True by (simp add: tracker_marker_def)
    next
      case False
      have "op pid = None \<or> dec b \<noteq> Abort" using D(3) [of pid] False True c by auto
      then show ?thesis using D(1) [of pid] False True c by (auto simp: tracker_marker_def split: option.splits)
    qed
  next
    case False
    then show ?thesis using D(1) [of pid] c by (simp add: tracker_marker_def)
  qed
qed (use in_stepD(2,3,4) [OF i] c in \<open>auto simp: tracker_marker_def\<close>)


lemma in_step_data:
  assumes i: "in_step dec post op t (b # bs)" and d: "\<not> control b" "transactional b"
    and s: "\<forall>x \<in> set (bs @ post). boff b < boff x"
    and t': "is_aborted (bpid b) (boff b) t = (t', r)"
  shows "r \<longleftrightarrow> doomed dec (bpid b) (bs @ post)"
    and "in_step dec post (op(bpid b := Some (case op (bpid b) of None \<Rightarrow> boff b | Some f \<Rightarrow> f))) t' bs"
proof -
  note D = in_stepD [OF i]
  let ?p = "bpid b" and ?rest = "bs @ post"
  define f where "f = (case op ?p of None \<Rightarrow> boff b | Some f \<Rightarrow> f)"
  have f: "f \<le> boff b" using D(4) [of ?p _ b] by (auto simp: f_def split: option.split)
  have rem: "drop (next_txn t ?p) (firsts t ?p) = aborts dec ?p (Some f) ?rest"
    using D(1) [of ?p] d by (auto simp: f_def split: option.splits)
  have hd: "next_txn t ?p < length (firsts t ?p) \<and> firsts t ?p ! next_txn t ?p \<le> boff b \<longleftrightarrow> doomed dec ?p ?rest"
  proof (cases "doomed dec ?p ?rest")
    case True
    then obtain fs where "drop (next_txn t ?p) (firsts t ?p) = f # fs" using doomed_aborts [OF True, of f] rem by auto
    then have "next_txn t ?p < length (firsts t ?p)" "firsts t ?p ! next_txn t ?p = f"
      by (metis drop_all list.distinct(1) not_le_imp_less, metis hd_drop_conv_nth drop_all list.distinct(1) list.sel(1) not_le_imp_less)
    then show ?thesis using f True by simp
  next
    case False
    have "boff b < firsts t ?p ! next_txn t ?p" if "next_txn t ?p < length (firsts t ?p)"
    proof -
      have "firsts t ?p ! next_txn t ?p \<in> set (drop (next_txn t ?p) (firsts t ?p))"
        using that by (metis Cons_nth_drop_Suc list.set_intros(1))
      then show ?thesis using aborts_starts [OF False, of f] s rem by auto
    qed
    then show ?thesis using False by auto
  qed
  have act: "?p \<in> active_txns t \<longrightarrow> doomed dec ?p ?rest" using D(2) [of ?p] d by auto
  show r: "r \<longleftrightarrow> doomed dec ?p ?rest" using t' hd act by (auto simp: is_aborted_def Let_def split: if_splits)
  have t: "next_txn t' = next_txn t" "firsts t' = firsts t"
    "active_txns t' = (if doomed dec ?p ?rest then insert ?p (active_txns t) else active_txns t)"
    using t' hd act by (auto simp: is_aborted_def Let_def split: if_splits)
  show "in_step dec post (op(?p := Some (case op ?p of None \<Rightarrow> boff b | Some f \<Rightarrow> f))) t' bs"
    unfolding in_step_def f_def [symmetric]
  proof (rule allI, intro conjI)
    fix pid
    show "drop (next_txn t' pid) (firsts t' pid) = aborts dec pid ((op(?p := Some f)) pid) ?rest"
      using rem D(1) [of pid] d by (auto simp: t)
    show "pid \<in> active_txns t' \<longrightarrow> (op(?p := Some f)) pid \<noteq> None \<and> doomed dec pid ?rest"
      using D(2) [of pid] d act by (auto simp: t split: if_splits)
    show "(op(?p := Some f)) pid \<noteq> None \<and> doomed dec pid ?rest \<and> pid \<notin> active_txns t' \<longrightarrow> data_first pid bs"
      using D(3) [of pid] d by (auto simp: t split: if_splits)
    show "\<forall>g. (op(?p := Some f)) pid = Some g \<longrightarrow> (\<forall>b \<in> set (bs @ post). g \<le> boff b)"
    proof (intro allI impI ballI)
      fix g x
      assume g: "(op(?p := Some f)) pid = Some g" and x: "x \<in> set (bs @ post)"
      show "g \<le> boff x"
      proof (cases "pid = ?p")
        case True
        then show ?thesis using g f s x by fastforce
      next
        case False
        then show ?thesis using g x D(4) [of pid g x] by simp
      qed
    qed
  qed
qed

lemma in_step_other:
  assumes "in_step dec post op t (b # bs)" "\<not> control b" "\<not> transactional b"
  shows "in_step dec post op t bs"
  using in_stepD [OF assms(1)] assms(2,3) by (auto simp: in_step_def split: if_splits)

lemma filter_loop_exact:
  "in_step dec post op t bs \<Longrightarrow> sorted_wrt (\<lambda>a b. boff a < boff b) (bs @ post) \<Longrightarrow>
   filter_loop t bs = committed_view dec post bs"
proof (induction bs arbitrary: t op)
  case (Cons b bs)
  have s: "sorted_wrt (\<lambda>a b. boff a < boff b) (bs @ post)" "\<forall>x \<in> set (bs @ post). boff b < boff x"
    using Cons.prems(2) by auto
  consider "control b" | "\<not> control b" "transactional b" | "\<not> control b" "\<not> transactional b" by blast
  then show ?case
  proof cases
    case 1
    then show ?thesis using Cons.IH [OF in_step_marker [OF Cons.prems(1) 1] s(1)] by simp
  next
    case 2
    obtain t' r where t': "is_aborted (bpid b) (boff b) t = (t', r)" by fastforce
    note d = in_step_data [OF Cons.prems(1) 2 s(2) t']
    show ?thesis using Cons.IH [OF d(2) s(1)] d(1) 2 t' by (cases r) simp_all
  next
    case 3
    then show ?thesis using Cons.IH [OF in_step_other [OF Cons.prems(1) 3] s(1)] by simp
  qed
qed simp


lemma filter_markers: "\<forall>b \<in> set ms. control b \<Longrightarrow> active_txns t = {} \<Longrightarrow> filter_loop t (ms @ bs) = filter_loop t bs"
  by (induction ms) (auto simp: tracker_marker_def)

lemma open_before:
  "sorted_wrt (\<lambda>a b. boff a < boff b) (pre @ bs) \<Longrightarrow> (\<And>pid f b. open_at ix pid = Some f \<Longrightarrow> b \<in> set (pre @ bs) \<Longrightarrow> f \<le> boff b) \<Longrightarrow>
   open_at (fold (feed dec) pre ix) pid = Some f \<Longrightarrow> b \<in> set bs \<Longrightarrow> f \<le> boff b"
proof (induction pre arbitrary: ix)
  case (Cons c pre)
  have "g \<le> boff x" if g: "open_at (feed dec c ix) q = Some g" and x: "x \<in> set (pre @ bs)" for q g x
  proof -
    have "open_at ix q = Some g \<or> g = boff c" using g by (auto simp: feed_open split: if_splits option.splits)
    moreover have "boff c \<le> boff x" using Cons.prems(1) x by (auto simp: less_imp_le)
    moreover have "open_at ix q = Some g \<longrightarrow> g \<le> boff x" using Cons.prems(2) [of q g x] x by auto
    ultimately show ?thesis by auto
  qed
  then show ?case using Cons.IH [of "feed dec c ix"] Cons.prems(1,3,4) by auto
qed auto

text \<open>The starts that the tracker of a fetch at \<open>fo\<close> is built with.\<close>

lemma aborted_of_fetch:
  assumes s: "sorted_wrt (\<lambda>a b. boff a < boff b) (pre @ bs)"
    and lo: "\<forall>b \<in> set pre. control b \<longrightarrow> boff b \<le> fo" and hi: "\<forall>b \<in> set bs. control b \<longrightarrow> fo < boff b"
  shows "firsts (new_tracker (aborted_transactions (fold (feed dec) (pre @ bs) empty_index) fo)) pid =
    aborts dec pid (open_at (fold (feed dec) pre empty_index) pid) bs"
proof -
  let ?i = "fold (feed dec) pre empty_index" and ?P = "\<lambda>r. ab_producer r = pid"
  obtain rs where rs: "aborted_ranges (fold (feed dec) bs ?i) = aborted_ranges ?i @ rs" "\<forall>r \<in> set rs. fo < ab_marker r"
    using feed_markers [of dec bs ?i] hi by fastforce
  have "\<forall>r \<in> set (aborted_ranges ?i). ab_marker r \<le> fo"
    using feed_markers [of dec pre empty_index] lo by (fastforce simp: empty_index_def)
  then have late: "filter (\<lambda>r. ab_marker r > fo) (aborted_ranges (fold (feed dec) bs ?i)) = rs"
    using rs by (auto simp: filter_empty_conv filter_id_conv)
  have mine: "map ab_first (filter ?P rs) = aborts dec pid (open_at ?i pid) bs"
    using feed_ranges [of pid dec bs ?i] rs(1) by simp
  have "mset (map snd (filter (\<lambda>(p, _). p = pid) (aborted_transactions (fold (feed dec) (pre @ bs) empty_index) fo))) =
      mset (map ab_first (filter ?P rs))"
    by (simp add: aborted_transactions_def late filter_mset_image_mset case_prod_beta comp_def image_mset.compositionality)
  moreover have "sorted (aborts dec pid (open_at ?i pid) bs)"
    using s open_before [OF s, of empty_index dec pid] by (intro aborts_sorted) (auto simp: sorted_wrt_append empty_index_def)
  ultimately show ?thesis unfolding mine by (simp add: new_tracker_def properties_for_sort)
qed

text \<open>
  C18: a consumer that reads with \<open>read_committed\<close> gets exactly the batches outside transactions and those of committed ones.  The log is
  \<open>pre @ mk @ win @ post\<close>, in offset order; the index has seen all of it; the fetch at \<open>fo\<close> returns \<open>mk @ win\<close>, where \<open>mk\<close> is the marker at
  \<open>fo\<close>, if there is one.  The filter keeps a batch of \<open>win\<close> iff it is no marker and, when it belongs to a transaction, the next
  marker of its producer, in \<open>win\<close> or after it, does not abort it.  The hypothesis on \<open>data_first\<close> excludes the
  fetch that starts between the last data and the marker of a transaction that is aborted.
\<close>

theorem read_committed_exact:
  assumes sorted: "sorted_wrt (\<lambda>a b. boff a < boff b) (pre @ mk @ win @ post)"
    and before: "\<forall>b \<in> set (pre @ mk). control b \<longrightarrow> boff b \<le> fo" and markers: "\<forall>b \<in> set mk. control b"
    and after: "\<forall>b \<in> set (win @ post). control b \<longrightarrow> fo < boff b"
    and inside: "\<forall>pid. open_at (fold (feed dec) (pre @ mk) empty_index) pid \<noteq> None \<and> doomed dec pid (win @ post) \<longrightarrow> data_first pid win"
  shows "filter_committed (mk @ win) (aborted_transactions (fold (feed dec) (pre @ mk @ win @ post) empty_index) fo) =
    committed_view dec post win"
proof -
  let ?i = "fold (feed dec) (pre @ mk) empty_index"
  let ?t = "new_tracker (aborted_transactions (fold (feed dec) ((pre @ mk) @ win @ post) empty_index) fo)"
  have s: "sorted_wrt (\<lambda>a b. boff a < boff b) ((pre @ mk) @ win @ post)" using sorted by simp
  have t: "next_txn ?t = (\<lambda>_. 0)" "active_txns ?t = {}" by (simp_all add: new_tracker_def)
  have "in_step dec post (open_at ?i) ?t win"
    unfolding in_step_def
  proof (rule allI, intro conjI)
    fix pid
    show "drop (next_txn ?t pid) (firsts ?t pid) = aborts dec pid (open_at ?i pid) (win @ post)"
      unfolding t aborted_of_fetch [OF s before after] by simp
    show "\<forall>f. open_at ?i pid = Some f \<longrightarrow> (\<forall>b \<in> set (win @ post). f \<le> boff b)"
      using open_before [OF s, of empty_index dec pid] by (simp add: empty_index_def)
  qed (use inside t in auto)
  then have "filter_loop ?t win = committed_view dec post win"
    using s by (intro filter_loop_exact) (auto simp: sorted_wrt_append)
  then show ?thesis using filter_markers [OF markers t(2), of win] by (simp add: filter_committed_def)
qed


definition txn_batch :: "int \<Rightarrow> int \<Rightarrow> 16 word \<Rightarrow> RecordBatch" where
  "txn_batch pid base a =
     \<lparr> header = default_header\<lparr> base_offset := base, attrs := a, producer_id := pid, producer_epoch := 0 \<rparr>, records = [] \<rparr>"

definition txn_log :: "RecordBatch list" where
  "txn_log = [txn_batch 5 1 kTransactionalAttr, txn_batch 6 2 kTransactionalAttr, txn_batch 5 3 (kControlAttr OR kTransactionalAttr),
     txn_batch 6 4 (kControlAttr OR kTransactionalAttr), txn_batch 5 5 kTransactionalAttr, txn_batch 5 6 (kControlAttr OR kTransactionalAttr)]"

definition txn_decisions :: "RecordBatch \<Rightarrow> ControlRecordType" where
  "txn_decisions b = (if boff b = 3 then Abort else Commit)"

text \<open>Two interleaved transactions, one of them aborted, and a third one of the producer of the aborted transaction.\<close>

theorem read_committed_exact_witness:
  "filter_committed txn_log
     (aborted_transactions (fold (feed txn_decisions) (txn_batch (-1) 0 0 # txn_log @ [txn_batch (-1) 7 0]) empty_index) 1) =
   [txn_batch 6 2 kTransactionalAttr, txn_batch 5 5 kTransactionalAttr]"
proof -
  have c: "committed_view txn_decisions [txn_batch (-1) 7 0] txn_log = [txn_batch 6 2 kTransactionalAttr, txn_batch 5 5 kTransactionalAttr]"
    by code_simp
  have i: "open_txns (fold (feed txn_decisions) [txn_batch (-1) 0 0] empty_index) = []" by code_simp
  have s: "sorted_wrt (\<lambda>a b. boff a < boff b) ([txn_batch (-1) 0 0] @ [] @ txn_log @ [txn_batch (-1) 7 0])"
    by (simp add: txn_log_def txn_batch_def)
  have h: "\<forall>b \<in> set (txn_log @ [txn_batch (-1) 7 0]). control b \<longrightarrow> 1 < boff b" by code_simp
  have l: "\<forall>b \<in> set ([txn_batch (-1) 0 0] @ []). control b \<longrightarrow> boff b \<le> 1" by code_simp
  show ?thesis using read_committed_exact [OF s l _ h, of txn_decisions] i c by simp
qed

text \<open>
  A fetch that starts after the data of an aborted transaction and before its marker (at offset 2 of this log) leaves the start of
  that transaction in the tracker: the next transaction of the producer is dropped although it was committed.
\<close>

lemma committed_data_dropped:
  "let bs = [txn_batch (-1) 2 0, txn_batch 5 3 (kControlAttr OR kTransactionalAttr), txn_batch 5 4 kTransactionalAttr,
             txn_batch 5 5 (kControlAttr OR kTransactionalAttr)] in
   filter_committed bs (aborted_transactions (fold (feed txn_decisions) (txn_batch 5 1 kTransactionalAttr # bs) empty_index) 2) =
     [txn_batch (-1) 2 0] \<and>
   committed_view txn_decisions [] bs = [txn_batch (-1) 2 0, txn_batch 5 4 kTransactionalAttr]"
  by code_simp


section \<open>The last stable offset\<close>

lemma lso_bounds: "last_stable_offset ix hw \<le> hw" "open_at ix pid = Some f \<Longrightarrow> last_stable_offset ix hw \<le> f"
proof -
  have "fold (\<lambda>(_, first) lso. min lso first) xs (h :: int) \<le> h \<and> (\<forall>(p, f) \<in> set xs. fold (\<lambda>(_, first) lso. min lso first) xs h \<le> f)"
    for xs :: "(int \<times> int) list" and h by (induction xs arbitrary: h) fastforce+
  then show "last_stable_offset ix hw \<le> hw" "open_at ix pid = Some f \<Longrightarrow> last_stable_offset ix hw \<le> f"
    by (auto simp: last_stable_offset_def) (fastforce dest: map_of_SomeD)
qed

lemma still_open:
  "open_at ix pid = Some f \<Longrightarrow> \<forall>m \<in> set bs. \<not> (control m \<and> bpid m = pid) \<Longrightarrow> open_at (fold (feed dec) bs ix) pid = Some f"
  by (induction bs arbitrary: ix) (auto simp: feed_open)

text \<open>
  The last stable offset never exceeds the high watermark, and below it every batch of a transaction is decided: the log
  holds a marker of its producer after the batch.
\<close>

theorem below_lso_decided:
  assumes sorted: "sorted_wrt (\<lambda>a b. boff a < boff b) (pre @ b # post)" and data: "transactional b" "\<not> control b"
    and below: "boff b < last_stable_offset (fold (feed dec) (pre @ b # post) empty_index) hw"
  shows "boff b < hw \<and> (\<exists>m \<in> set post. control m \<and> bpid m = bpid b)"
proof -
  let ?i = "fold (feed dec) pre empty_index" and ?j = "fold (feed dec) (pre @ b # post) empty_index"
  obtain f where f: "open_at (feed dec b ?i) (bpid b) = Some f" "f \<le> boff b"
    using data open_before [OF sorted, of empty_index dec "bpid b" _ b] by (cases "open_at ?i (bpid b)") (auto simp: feed_open empty_index_def)
  have "open_at ?j (bpid b) \<noteq> Some f" using below f(2) lso_bounds(2) [of ?j "bpid b" f hw] by auto
  then show ?thesis using still_open [OF f(1), of post dec] lso_bounds(1) [of ?j hw] below by auto
qed

theorem below_lso_decided_witness:
  "boff (hd txn_log) < 100 \<and> (\<exists>m \<in> set (tl txn_log). control m \<and> bpid m = bpid (hd txn_log))"
proof -
  have t: "[] @ hd txn_log # tl txn_log = txn_log" by (simp add: txn_log_def)
  have s: "sorted_wrt (\<lambda>a b. boff a < boff b) txn_log" by (simp add: txn_log_def txn_batch_def)
  have l: "last_stable_offset (fold (feed txn_decisions) txn_log empty_index) 100 = 100" "boff (hd txn_log) = 1" by code_simp+
  have d: "transactional (hd txn_log)" "\<not> control (hd txn_log)" by code_simp+
  show ?thesis using below_lso_decided [of "[]" "hd txn_log" "tl txn_log" txn_decisions 100] l s d unfolding t by simp
qed

end
