(* ===== verification/Txn_Coordinator.thy ===== *)
theory Txn_Coordinator
  imports Record_Codec "HOL-Library.Char_ord" "HOL-Library.List_Lexorder" "HOL-Library.AList"
begin

text \<open>
  The transaction coordinator (\<^verbatim>\<open>src/src/broker/transaction_coordinator.hpp\<close>, \<^verbatim>\<open>transaction_coordinator.cpp\<close>):
  identities of producers with the epochs that fence earlier incarnations, and the two-phase commit of one transaction per
  producer.  The hash map of transactions is an association list in its order of iteration, the other two are maps; times are
  milliseconds.  The lemmas show the invariant of the transactions, that a decision is final and reaches every
  participant, and that an earlier incarnation of a producer stays fenced.
\<close>


section \<open>Data\<close>

datatype TopicPartition = TopicPartition (tp_topic: string) (tp_partition: int)

text \<open>The total order by topic and partition.\<close>

instantiation TopicPartition :: linorder
begin

definition less_eq_TopicPartition :: "TopicPartition \<Rightarrow> TopicPartition \<Rightarrow> bool" where
  "p \<le> q \<longleftrightarrow> tp_topic p < tp_topic q \<or> tp_topic p = tp_topic q \<and> tp_partition p \<le> tp_partition q"

definition less_TopicPartition :: "TopicPartition \<Rightarrow> TopicPartition \<Rightarrow> bool" where
  "p < q \<longleftrightarrow> tp_topic p < tp_topic q \<or> tp_topic p = tp_topic q \<and> tp_partition p < tp_partition q"

instance
  by standard (auto simp: less_eq_TopicPartition_def less_TopicPartition_def intro: TopicPartition.expand)

end

datatype TransactionState = Ongoing | PrepareCommit | PrepareAbort | CompleteCommit | CompleteAbort

record TransactionMetadata =
  txn_producer_id :: int
  txn_epoch :: int
  txn_state :: TransactionState
  txn_partitions :: "TopicPartition list"
  unacked_partitions :: "TopicPartition list"
  txn_coordinator_epoch :: int
  last_update :: int

record MarkerWrite =
  mk_producer_id :: int
  mk_epoch :: int
  mk_coordinator_epoch :: int
  mk_decision :: ControlRecordType
  mk_partition :: TopicPartition

record ProducerIdentity =
  id_producer :: int
  id_epoch :: int

record TransactionCoordinator =
  coordinator_epoch :: int
  txn_timeout :: int
  next_producer_id :: int
  identities :: "string \<rightharpoonup> ProducerIdentity"
  current_epoch :: "int \<rightharpoonup> int"
  txns :: "(int \<times> TransactionMetadata) list"
  pending_markers :: "MarkerWrite list"

definition kDefaultTxnTimeout :: int where
  "kDefaultTxnTimeout = 60000"

definition new_coordinator :: "int \<Rightarrow> int \<Rightarrow> TransactionCoordinator" where
  "new_coordinator epoch timeout =
     \<lparr> coordinator_epoch = epoch, txn_timeout = timeout, next_producer_id = 0, identities = Map.empty,
       current_epoch = Map.empty, txns = [], pending_markers = [] \<rparr>"


section \<open>Operations\<close>

definition prepare_state_of :: "ControlRecordType \<Rightarrow> TransactionState" where
  "prepare_state_of decision = (if decision = Commit then PrepareCommit else PrepareAbort)"

definition complete_state_of :: "ControlRecordType \<Rightarrow> TransactionState" where
  "complete_state_of decision = (if decision = Commit then CompleteCommit else CompleteAbort)"

definition is_prepared :: "TransactionState \<Rightarrow> bool" where
  "is_prepared state \<longleftrightarrow> state = PrepareCommit \<or> state = PrepareAbort"

definition decision_of :: "TransactionState \<Rightarrow> ControlRecordType" where
  "decision_of state = (if state = PrepareCommit then Commit else Abort)"

text \<open>The transaction of a producer in the map, and its replacement or insertion.\<close>

definition find_txn :: "TransactionCoordinator \<Rightarrow> int \<Rightarrow> TransactionMetadata option" where
  "find_txn c pid = map_of (txns c) pid"

definition put_txn :: "int \<Rightarrow> TransactionMetadata \<Rightarrow> TransactionCoordinator \<Rightarrow> TransactionCoordinator" where
  "put_txn pid m c = c\<lparr> txns := AList.update pid m (txns c) \<rparr>"

definition enqueue_markers :: "TransactionMetadata \<Rightarrow> ControlRecordType \<Rightarrow> TransactionCoordinator \<Rightarrow> TransactionCoordinator" where
  "enqueue_markers m decision c =
     c\<lparr> pending_markers := pending_markers c @
         map (\<lambda>p. \<lparr> mk_producer_id = txn_producer_id m, mk_epoch = txn_epoch m, mk_coordinator_epoch = coordinator_epoch c,
                    mk_decision = decision, mk_partition = p \<rparr>) (unacked_partitions m) \<rparr>"

text \<open>The transaction after the decision; its markers are queued when it has participants.\<close>

definition enter_prepare ::
  "TransactionMetadata \<Rightarrow> ControlRecordType \<Rightarrow> int \<Rightarrow> TransactionCoordinator \<Rightarrow> TransactionMetadata \<times> TransactionCoordinator" where
  "enter_prepare m decision now c =
     (let m = m\<lparr> txn_state := prepare_state_of decision, txn_coordinator_epoch := coordinator_epoch c,
                 unacked_partitions := txn_partitions m, last_update := now \<rparr> in
      if unacked_partitions m = [] then (m\<lparr> txn_state := complete_state_of decision \<rparr>, c)
      else (m, enqueue_markers m decision c))"

definition enter_prepare_at :: "int \<Rightarrow> TransactionMetadata \<Rightarrow> ControlRecordType \<Rightarrow> int \<Rightarrow> TransactionCoordinator \<Rightarrow> TransactionCoordinator" where
  "enter_prepare_at pid m decision now c = (case enter_prepare m decision now c of (m, c) \<Rightarrow> put_txn pid m c)"

definition init_producer_id :: "int \<Rightarrow> string \<Rightarrow> TransactionCoordinator \<Rightarrow> TransactionCoordinator \<times> ProducerIdentity" where
  "init_producer_id now tid c =
     (case identities c tid of
        None \<Rightarrow>
          let ident = \<lparr> id_producer = next_producer_id c, id_epoch = 0 \<rparr> in
          (c\<lparr> next_producer_id := next_producer_id c + 1, identities := (identities c)(tid \<mapsto> ident),
              current_epoch := (current_epoch c)(id_producer ident \<mapsto> id_epoch ident) \<rparr>, ident)
      | Some ident \<Rightarrow>
          let c = (case find_txn c (id_producer ident) of
                     Some m \<Rightarrow> if txn_state m = Ongoing then enter_prepare_at (id_producer ident) m Abort now c else c
                   | None \<Rightarrow> c);
              (ident, nxt) = (if id_epoch ident = 32767 then (\<lparr> id_producer = next_producer_id c, id_epoch = 0 \<rparr>, next_producer_id c + 1)
                           else (ident\<lparr> id_epoch := id_epoch ident + 1 \<rparr>, next_producer_id c)) in
          (c\<lparr> next_producer_id := nxt, identities := (identities c)(tid \<mapsto> ident),
              current_epoch := (current_epoch c)(id_producer ident \<mapsto> id_epoch ident) \<rparr>, ident))"

definition producer_identity :: "TransactionCoordinator \<Rightarrow> string \<Rightarrow> ProducerIdentity option" where
  "producer_identity c tid = identities c tid"

text \<open>An epoch below the current one of the producer.\<close>

definition stale_epoch :: "TransactionCoordinator \<Rightarrow> int \<Rightarrow> int \<Rightarrow> bool" where
  "stale_epoch c pid epoch \<longleftrightarrow> (case current_epoch c pid of None \<Rightarrow> False | Some ce \<Rightarrow> epoch < ce)"

definition txn_begin :: "int \<Rightarrow> int \<Rightarrow> int \<Rightarrow> TransactionCoordinator \<Rightarrow> TransactionCoordinator \<times> unit expected" where
  "txn_begin now pid epoch c =
     (if stale_epoch c pid epoch then (c, Inl Fenced)
      else if (case find_txn c pid of
                 None \<Rightarrow> False
               | Some cur \<Rightarrow> epoch = txn_epoch cur \<and> txn_state cur \<noteq> CompleteCommit \<and> txn_state cur \<noteq> CompleteAbort)
      then (c, Inl InvalidArgument)
      else (put_txn pid \<lparr> txn_producer_id = pid, txn_epoch = epoch, txn_state = Ongoing, txn_partitions = [],
                          unacked_partitions = [], txn_coordinator_epoch = coordinator_epoch c, last_update = now \<rparr>
             (c\<lparr> current_epoch := (current_epoch c)
                   (pid \<mapsto> max (case current_epoch c pid of None \<Rightarrow> 0 | Some e \<Rightarrow> e) epoch) \<rparr>), Inr ()))"

definition require :: "TransactionCoordinator \<Rightarrow> int \<Rightarrow> int \<Rightarrow> TransactionMetadata expected" where
  "require c pid epoch =
     (if stale_epoch c pid epoch then Inl Fenced
      else case find_txn c pid of
             None \<Rightarrow> Inl NotFound
           | Some m \<Rightarrow> if epoch < txn_epoch m then Inl Fenced else if epoch > txn_epoch m then Inl InvalidArgument else Inr m)"

text \<open>Insertion at the lower bound, unless the element is there; removal of an element found at the lower bound.\<close>

definition insert_partition :: "TopicPartition \<Rightarrow> TopicPartition list \<Rightarrow> TopicPartition list" where
  "insert_partition p ps =
     (case dropWhile (\<lambda>q. q < p) ps of
        [] \<Rightarrow> ps @ [p]
      | q # qs \<Rightarrow> if q \<noteq> p then takeWhile (\<lambda>q. q < p) ps @ p # q # qs else ps)"

definition erase_partition :: "TopicPartition \<Rightarrow> TopicPartition list \<Rightarrow> TopicPartition list option" where
  "erase_partition p ps =
     (case dropWhile (\<lambda>q. q < p) ps of
        [] \<Rightarrow> None
      | q # qs \<Rightarrow> if q \<noteq> p then None else Some (takeWhile (\<lambda>q. q < p) ps @ qs))"

definition add_partitions ::
  "int \<Rightarrow> int \<Rightarrow> int \<Rightarrow> TopicPartition list \<Rightarrow> TransactionCoordinator \<Rightarrow> TransactionCoordinator \<times> unit expected" where
  "add_partitions now pid epoch ps c =
     (case require c pid epoch of
        Inl e \<Rightarrow> (c, Inl e)
      | Inr m \<Rightarrow>
          if txn_state m \<noteq> Ongoing then (c, Inl InvalidArgument)
          else (put_txn pid (m\<lparr> txn_partitions := fold insert_partition ps (txn_partitions m), last_update := now \<rparr>) c, Inr ()))"

definition txn_commit :: "int \<Rightarrow> int \<Rightarrow> int \<Rightarrow> TransactionCoordinator \<Rightarrow> TransactionCoordinator \<times> unit expected" where
  "txn_commit now pid epoch c =
     (case require c pid epoch of
        Inl e \<Rightarrow> (c, Inl e)
      | Inr m \<Rightarrow> if txn_state m \<noteq> Ongoing then (c, Inl InvalidArgument) else (enter_prepare_at pid m Commit now c, Inr ()))"

definition txn_abort :: "int \<Rightarrow> int \<Rightarrow> int \<Rightarrow> TransactionCoordinator \<Rightarrow> TransactionCoordinator \<times> unit expected" where
  "txn_abort now pid epoch c =
     (case require c pid epoch of
        Inl e \<Rightarrow> (c, Inl e)
      | Inr m \<Rightarrow> if txn_state m \<noteq> Ongoing then (c, Inl InvalidArgument) else (enter_prepare_at pid m Abort now c, Inr ()))"

definition on_marker_written :: "int \<Rightarrow> int \<Rightarrow> TopicPartition \<Rightarrow> TransactionCoordinator \<Rightarrow> TransactionCoordinator" where
  "on_marker_written pid epoch p c =
     (case find_txn c pid of
        None \<Rightarrow> c
      | Some m \<Rightarrow>
          if epoch \<noteq> txn_epoch m \<or> \<not> is_prepared (txn_state m) then c
          else case erase_partition p (unacked_partitions m) of
                 None \<Rightarrow> c
               | Some us \<Rightarrow>
                   put_txn pid (m\<lparr> unacked_partitions := us,
                                   txn_state := (if us = [] then complete_state_of (decision_of (txn_state m)) else txn_state m) \<rparr>) c)"

text \<open>The two loops over all transactions.\<close>

definition tick_txn :: "int \<Rightarrow> int \<times> TransactionMetadata \<Rightarrow> TransactionCoordinator \<Rightarrow> TransactionCoordinator" where
  "tick_txn now e c =
     (case e of (pid, m) \<Rightarrow>
        if txn_state m = Ongoing \<and> now - last_update m > txn_timeout c then enter_prepare_at pid m Abort now c else c)"

definition txn_tick :: "int \<Rightarrow> TransactionCoordinator \<Rightarrow> TransactionCoordinator" where
  "txn_tick now c = fold (tick_txn now) (txns c) c"

definition resume_txn :: "int \<times> TransactionMetadata \<Rightarrow> TransactionCoordinator \<Rightarrow> TransactionCoordinator" where
  "resume_txn e c =
     (case e of (pid, m) \<Rightarrow>
        if \<not> is_prepared (txn_state m) then c
        else let m = m\<lparr> txn_coordinator_epoch := coordinator_epoch c \<rparr> in
             enqueue_markers m (decision_of (txn_state m)) (put_txn pid m c))"

definition resume_pending :: "TransactionCoordinator \<Rightarrow> TransactionCoordinator" where
  "resume_pending c = fold resume_txn (txns c) c"

definition take_pending_markers :: "TransactionCoordinator \<Rightarrow> TransactionCoordinator \<times> MarkerWrite list" where
  "take_pending_markers c = (c\<lparr> pending_markers := [] \<rparr>, pending_markers c)"

definition set_coordinator_epoch :: "int \<Rightarrow> TransactionCoordinator \<Rightarrow> TransactionCoordinator" where
  "set_coordinator_epoch epoch c = c\<lparr> coordinator_epoch := epoch \<rparr>"


section \<open>Runs\<close>

datatype TxnInput =
    InitProducerId int string
  | Begin int int int
  | AddPartitions int int int "TopicPartition list"
  | CommitTxn int int int
  | AbortTxn int int int
  | MarkerWritten int int TopicPartition
  | Tick int
  | Resume
  | TakeMarkers
  | SetEpoch int

fun txn_step :: "TxnInput \<Rightarrow> TransactionCoordinator \<Rightarrow> TransactionCoordinator \<times> MarkerWrite list" where
  "txn_step (InitProducerId now tid) c = (fst (init_producer_id now tid c), [])"
| "txn_step (Begin now pid epoch) c = (fst (txn_begin now pid epoch c), [])"
| "txn_step (AddPartitions now pid epoch ps) c = (fst (add_partitions now pid epoch ps c), [])"
| "txn_step (CommitTxn now pid epoch) c = (fst (txn_commit now pid epoch c), [])"
| "txn_step (AbortTxn now pid epoch) c = (fst (txn_abort now pid epoch c), [])"
| "txn_step (MarkerWritten pid epoch p) c = (on_marker_written pid epoch p c, [])"
| "txn_step (Tick now) c = (txn_tick now c, [])"
| "txn_step Resume c = (resume_pending c, [])"
| "txn_step TakeMarkers c = take_pending_markers c"
| "txn_step (SetEpoch epoch) c = (set_coordinator_epoch epoch c, [])"

text \<open>The state after a run and the markers that were taken from the queue.\<close>

fun txn_run :: "TxnInput list \<Rightarrow> TransactionCoordinator \<Rightarrow> TransactionCoordinator \<times> MarkerWrite list" where
  "txn_run [] c = (c, [])"
| "txn_run (i # is) c = (case txn_step i c of (c, ms) \<Rightarrow> case txn_run is c of (c, ms') \<Rightarrow> (c, ms @ ms'))"


section \<open>The invariant of the transactions\<close>

definition phase_ok :: "TransactionMetadata \<Rightarrow> bool" where
  "phase_ok m \<longleftrightarrow>
     (if is_prepared (txn_state m)
      then unacked_partitions m \<noteq> [] \<and> sorted_wrt (<) (unacked_partitions m) \<and> set (unacked_partitions m) \<subseteq> set (txn_partitions m)
      else unacked_partitions m = [])"

definition txn_ok :: "int \<times> TransactionMetadata \<Rightarrow> bool" where
  "txn_ok e \<longleftrightarrow> txn_producer_id (snd e) = fst e \<and> sorted_wrt (<) (txn_partitions (snd e)) \<and> phase_ok (snd e)"

definition coord_inv :: "TransactionCoordinator \<Rightarrow> bool" where
  "coord_inv c \<longleftrightarrow> distinct (map fst (txns c)) \<and> (\<forall>e \<in> set (txns c). txn_ok e)"

lemma find_put_txn: "find_txn (put_txn pid m c) q = (if q = pid then Some m else find_txn c q)"
  by (simp add: find_txn_def put_txn_def update_conv)

lemma coord_invD: "coord_inv c \<Longrightarrow> find_txn c pid = Some m \<Longrightarrow> txn_ok (pid, m)"
  by (auto simp: coord_inv_def find_txn_def dest: map_of_SomeD)

lemma set_update_subset: "set (AList.update k v al) \<subseteq> insert (k, v) (set al)"
  by (induction al) auto

lemma coord_inv_put: "coord_inv c \<Longrightarrow> txn_ok (pid, m) \<Longrightarrow> coord_inv (put_txn pid m c)"
  using set_update_subset [of pid m "txns c"] by (auto simp: coord_inv_def put_txn_def distinct_update)

lemma coord_inv_txns: "txns c' = txns c \<Longrightarrow> coord_inv c' = coord_inv c"
  by (simp add: coord_inv_def)

lemma coord_inv_epochs [simp]: "coord_inv (c\<lparr> current_epoch := x \<rparr>) = coord_inv c"
  by (simp add: coord_inv_def)

lemma decision_phases [simp]:
  "is_prepared (prepare_state_of d)" "\<not> is_prepared (complete_state_of d)" "prepare_state_of d \<noteq> Ongoing" "complete_state_of d \<noteq> Ongoing"
  "\<not> is_prepared Ongoing" "decision_of (prepare_state_of d) = d"
  by (cases d; simp add: is_prepared_def prepare_state_of_def complete_state_of_def decision_of_def)+

lemma sorted_wrt_dropWhile: "sorted_wrt R xs \<Longrightarrow> sorted_wrt R (dropWhile P xs)"
  by (induction xs) auto

lemma strict_split:
  fixes ps :: "TopicPartition list"
  assumes "sorted_wrt (<) ps"
  shows "(\<forall>q \<in> set (takeWhile (\<lambda>q. q < p) ps). q < p) \<and> (\<forall>q \<in> set (dropWhile (\<lambda>q. q < p) ps). p \<le> q)"
  using assms by (induction ps) (auto dest: set_takeWhileD)

lemma insert_partition_ok:
  assumes "sorted_wrt (<) ps"
  shows "sorted_wrt (<) (insert_partition p ps)" "set (insert_partition p ps) = insert p (set ps)"
proof -
  obtain t d where td: "takeWhile (\<lambda>q. q < p) ps = t" "dropWhile (\<lambda>q. q < p) ps = d" and ps: "ps = t @ d" by (metis takeWhile_dropWhile_id)
  note b = strict_split [OF assms, of p, unfolded td]
  have "sorted_wrt (<) (insert_partition p ps) \<and> set (insert_partition p ps) = insert p (set ps)"
    using assms b ps unfolding insert_partition_def td by (cases d) (auto simp: sorted_wrt_append)
  then show "sorted_wrt (<) (insert_partition p ps)" "set (insert_partition p ps) = insert p (set ps)" by auto
qed

lemma insert_partitions_sorted: "sorted_wrt (<) ps \<Longrightarrow> sorted_wrt (<) (fold insert_partition qs ps)"
  by (induction qs arbitrary: ps) (auto simp: insert_partition_ok)

lemma erase_partition_filter:
  assumes "sorted_wrt (<) ps"
  shows "erase_partition p ps = (if p \<in> set ps then Some (filter (\<lambda>q. q \<noteq> p) ps) else None)"
proof -
  obtain t d where td: "takeWhile (\<lambda>q. q < p) ps = t" "dropWhile (\<lambda>q. q < p) ps = d" and ps: "ps = t @ d" by (metis takeWhile_dropWhile_id)
  note b = strict_split [OF assms, of p, unfolded td]
  have t: "p \<notin> set t" using b by auto
  have d: "p \<notin> set qs" if "d = q # qs" for q qs using assms b ps that by (auto simp: sorted_wrt_append)
  have other: "filter (\<lambda>q. q \<noteq> p) xs = xs" if "p \<notin> set xs" for xs using that by (auto simp: filter_id_conv)
  show ?thesis
  proof (cases d)
    case (Cons q qs)
    then show ?thesis using t d [OF Cons] ps other unfolding erase_partition_def td by auto
  next
    case Nil
    then show ?thesis using t ps unfolding erase_partition_def td by simp
  qed
qed


lemma enter_prepare_ok: "txn_ok (pid, m) \<Longrightarrow> txn_ok (pid, fst (enter_prepare m d now c))"
  by (auto simp: txn_ok_def phase_ok_def enter_prepare_def Let_def)

lemma txns_enqueue [simp]: "txns (enqueue_markers m d c) = txns c"
  by (simp add: enqueue_markers_def)

lemma txns_enter_prepare: "txns (snd (enter_prepare m d now c)) = txns c"
  by (auto simp: enter_prepare_def Let_def)

lemma enter_prepare_at_inv: "coord_inv c \<Longrightarrow> txn_ok (pid, m) \<Longrightarrow> coord_inv (enter_prepare_at pid m d now c)"
  using enter_prepare_ok [of pid m d now c] coord_inv_txns [OF txns_enter_prepare, of m d now c]
  by (auto simp: enter_prepare_at_def case_prod_beta coord_inv_put)

lemma fold_inv: "(\<And>x s. x \<in> set xs \<Longrightarrow> P s \<Longrightarrow> P (f x s)) \<Longrightarrow> P s \<Longrightarrow> P (fold f xs s)"
  by (induction xs arbitrary: s) auto

lemma coord_inv_entry: "coord_inv c \<Longrightarrow> e \<in> set (txns c) \<Longrightarrow> txn_ok e"
  by (simp add: coord_inv_def)

lemma require_ok: "coord_inv c \<Longrightarrow> require c pid epoch = Inr m \<Longrightarrow> txn_ok (pid, m)"
  by (auto simp: require_def coord_invD split: if_splits option.splits)

lemma coord_inv_step:
  assumes i: "coord_inv c"
  shows "coord_inv (fst (txn_step inp c))"
proof (cases inp)
  case (InitProducerId now tid)
  have "coord_inv (case find_txn c q of Some m \<Rightarrow> if txn_state m = Ongoing then enter_prepare_at q m Abort now c else c | None \<Rightarrow> c)" for q
    using i by (auto simp: enter_prepare_at_inv coord_invD split: option.split)
  then show ?thesis using InitProducerId i
    by (auto simp: init_producer_id_def Let_def case_prod_beta coord_inv_def split: option.split)
next
  case (Begin now pid epoch)
  then show ?thesis using i
    by (auto simp: txn_begin_def txn_ok_def phase_ok_def intro!: coord_inv_put)
next
  case (AddPartitions now pid epoch ps)
  then show ?thesis using i require_ok [OF i, of pid epoch]
    by (auto simp: add_partitions_def txn_ok_def phase_ok_def insert_partitions_sorted intro!: coord_inv_put split: sum.split)
next
  case (CommitTxn now pid epoch)
  then show ?thesis using i require_ok [OF i, of pid epoch] by (auto simp: txn_commit_def enter_prepare_at_inv split: sum.split)
next
  case (AbortTxn now pid epoch)
  then show ?thesis using i require_ok [OF i, of pid epoch] by (auto simp: txn_abort_def enter_prepare_at_inv split: sum.split)
next
  case (MarkerWritten pid epoch p)
  have "coord_inv (on_marker_written pid epoch p c)"
  proof (cases "find_txn c pid")
    case (Some m)
    note ok = coord_invD [OF i Some]
    show ?thesis
    proof (cases "is_prepared (txn_state m) \<and> p \<in> set (unacked_partitions m)")
      case True
      then show ?thesis using ok Some i
        by (auto simp: on_marker_written_def txn_ok_def phase_ok_def erase_partition_filter sorted_wrt_filter intro!: coord_inv_put)
    next
      case False
      then show ?thesis using ok Some i
        by (auto simp: on_marker_written_def txn_ok_def phase_ok_def erase_partition_filter split: if_splits)
    qed
  qed (simp add: on_marker_written_def i)
  then show ?thesis using MarkerWritten by simp
next
  case (Tick now)
  have "coord_inv (fold (tick_txn now) (txns c) c)"
    by (rule fold_inv) (auto simp: i tick_txn_def enter_prepare_at_inv coord_inv_entry [OF i])
  then show ?thesis using Tick by (simp add: txn_tick_def)
next
  case Resume
  have "coord_inv (resume_txn e d)" if "e \<in> set (txns c)" "coord_inv d" for e d
    using coord_inv_entry [OF i that(1)] that(2)
    by (cases e) (auto simp: resume_txn_def Let_def coord_inv_txns [OF txns_enqueue] txn_ok_def phase_ok_def intro!: coord_inv_put)
  then have "coord_inv (fold resume_txn (txns c) c)" using i by (rule fold_inv)
  then show ?thesis using Resume by (simp add: resume_pending_def)
qed (use i in \<open>simp_all add: take_pending_markers_def set_coordinator_epoch_def coord_inv_def\<close>)


lemma coord_inv_run: "coord_inv c \<Longrightarrow> coord_inv (fst (txn_run is c))"
proof (induction "is" arbitrary: c)
  case (Cons i "is")
  then show ?case using coord_inv_step [OF Cons.prems, of i] by (simp add: case_prod_beta)
qed simp

lemma new_coordinator_inv: "coord_inv (new_coordinator e t)"
  by (simp add: coord_inv_def new_coordinator_def)


section \<open>A decision is final\<close>

text \<open>The transaction of \<open>pid\<close> is decided: \<open>ps\<close> are its participants and \<open>us\<close> those that have not acknowledged.\<close>

definition decided ::
  "int \<Rightarrow> int \<Rightarrow> ControlRecordType \<Rightarrow> TopicPartition list \<Rightarrow> TopicPartition list \<Rightarrow> TransactionCoordinator \<Rightarrow> bool" where
  "decided pid e d ps us c \<longleftrightarrow>
     (\<exists>m. find_txn c pid = Some m \<and> txn_epoch m = e \<and> txn_partitions m = ps \<and> unacked_partitions m = us \<and>
          txn_state m = (if us = [] then complete_state_of d else prepare_state_of d))"

text \<open>The markers of \<open>pid\<close> in a list.\<close>

definition markers_of :: "int \<Rightarrow> MarkerWrite list \<Rightarrow> MarkerWrite list" where
  "markers_of pid ms = filter (\<lambda>m. mk_producer_id m = pid) ms"

lemma markers_of_append [simp]: "markers_of pid (xs @ ys) = markers_of pid xs @ markers_of pid ys"
  by (simp add: markers_of_def)

definition marker_for :: "int \<Rightarrow> int \<Rightarrow> ControlRecordType \<Rightarrow> TopicPartition list \<Rightarrow> MarkerWrite \<Rightarrow> bool" where
  "marker_for pid e d ps m \<longleftrightarrow> mk_producer_id m = pid \<and> mk_epoch m = e \<and> mk_decision m = d \<and> mk_partition m \<in> set ps"

text \<open>The acknowledgements that an input carries.\<close>

fun acks :: "int \<Rightarrow> int \<Rightarrow> TxnInput \<Rightarrow> TopicPartition set" where
  "acks pid e (MarkerWritten q f p) = (if q = pid \<and> f = e then {p} else {})"
| "acks pid e i = {}"

fun begins :: "int \<Rightarrow> TxnInput \<Rightarrow> bool" where
  "begins pid (Begin now q f) = (q = pid)"
| "begins pid i = False"

lemma pending_put [simp]: "pending_markers (put_txn pid m c) = pending_markers c" "coordinator_epoch (put_txn pid m c) = coordinator_epoch c"
  by (simp_all add: put_txn_def)

lemma pending_enqueue:
  "pending_markers (enqueue_markers m d c) = pending_markers c @
     map (\<lambda>p. \<lparr> mk_producer_id = txn_producer_id m, mk_epoch = txn_epoch m, mk_coordinator_epoch = coordinator_epoch c,
                mk_decision = d, mk_partition = p \<rparr>) (unacked_partitions m)"
  by (simp add: enqueue_markers_def)

lemma find_enqueue [simp]: "find_txn (enqueue_markers m d c) = find_txn c"
  by (simp add: find_txn_def fun_eq_iff)

lemma enter_prepare_other:
  assumes "q \<noteq> pid" "txn_ok (q, m)"
  shows "find_txn (enter_prepare_at q m d now c) pid = find_txn c pid"
    "markers_of pid (pending_markers (enter_prepare_at q m d now c)) = markers_of pid (pending_markers c)"
  using assms by (auto simp: enter_prepare_at_def enter_prepare_def Let_def find_put_txn pending_enqueue markers_of_def txn_ok_def)

lemma tick_other:
  "(\<And>e. e \<in> set es \<Longrightarrow> txn_ok e \<and> (fst e = pid \<longrightarrow> txn_state (snd e) \<noteq> Ongoing)) \<Longrightarrow>
   find_txn (fold (tick_txn now) es c) pid = find_txn c pid \<and>
   markers_of pid (pending_markers (fold (tick_txn now) es c)) = markers_of pid (pending_markers c)"
proof (induction es arbitrary: c)
  case (Cons e es)
  obtain q m where e: "e = (q, m)" by fastforce
  have "find_txn (tick_txn now e c) pid = find_txn c pid \<and>
      markers_of pid (pending_markers (tick_txn now e c)) = markers_of pid (pending_markers c)"
    using Cons.prems [of e] enter_prepare_other [of q pid m Abort now c] by (auto simp: e tick_txn_def)
  then show ?case using Cons.IH [of "tick_txn now e c"] Cons.prems by simp
qed simp

lemma resume_other:
  "(\<And>e. e \<in> set es \<Longrightarrow> txn_ok e \<and> fst e \<noteq> pid) \<Longrightarrow>
   find_txn (fold resume_txn es c) pid = find_txn c pid \<and>
   markers_of pid (pending_markers (fold resume_txn es c)) = markers_of pid (pending_markers c)"
proof (induction es arbitrary: c)
  case (Cons e es)
  obtain q m where e: "e = (q, m)" by fastforce
  have "find_txn (resume_txn e c) pid = find_txn c pid \<and>
      markers_of pid (pending_markers (resume_txn e c)) = markers_of pid (pending_markers c)"
    using Cons.prems [of e] by (auto simp: e resume_txn_def Let_def find_put_txn pending_enqueue markers_of_def txn_ok_def)
  then show ?case using Cons.IH [of "resume_txn e c"] Cons.prems by simp
qed simp

lemma resume_all:
  assumes i: "coord_inv c" and m: "find_txn c pid = Some m"
  obtains k ms where "find_txn (resume_pending c) pid = Some (m\<lparr> txn_coordinator_epoch := k \<rparr>)"
    "markers_of pid (pending_markers (resume_pending c)) = markers_of pid (pending_markers c) @ ms"
    "\<forall>x \<in> set ms. is_prepared (txn_state m) \<and> marker_for pid (txn_epoch m) (decision_of (txn_state m)) (unacked_partitions m) x"
proof -
  have ok: "txn_ok (pid, m)" using coord_invD [OF i m] .
  have "(pid, m) \<in> set (txns c)" using m by (auto simp: find_txn_def dest: map_of_SomeD)
  then obtain xs ys where t: "txns c = xs @ (pid, m) # ys" by (meson split_list)
  have o: "txn_ok e \<and> fst e \<noteq> pid" if "e \<in> set xs \<or> e \<in> set ys" for e
    using i t that by (auto simp: coord_inv_def rev_image_eqI)
  let ?a = "fold resume_txn xs c"
  have a: "find_txn ?a pid = Some m" "markers_of pid (pending_markers ?a) = markers_of pid (pending_markers c)"
    using resume_other [of xs pid c] o m by auto
  define ms where "ms = (if is_prepared (txn_state m) then
      map (\<lambda>p. \<lparr> mk_producer_id = pid, mk_epoch = txn_epoch m, mk_coordinator_epoch = coordinator_epoch ?a,
                 mk_decision = decision_of (txn_state m), mk_partition = p \<rparr>) (unacked_partitions m) else [])"
  let ?k = "if is_prepared (txn_state m) then coordinator_epoch ?a else txn_coordinator_epoch m"
  have b: "find_txn (resume_txn (pid, m) ?a) pid = Some (m\<lparr> txn_coordinator_epoch := ?k \<rparr>)"
    "markers_of pid (pending_markers (resume_txn (pid, m) ?a)) = markers_of pid (pending_markers c) @ ms"
    using a ok by (auto simp: resume_txn_def Let_def find_put_txn pending_enqueue markers_of_def txn_ok_def ms_def comp_def)
  have r: "resume_pending c = fold resume_txn ys (resume_txn (pid, m) ?a)" by (simp add: resume_pending_def t)
  show ?thesis
  proof (rule that)
    show "find_txn (resume_pending c) pid = Some (m\<lparr> txn_coordinator_epoch := ?k \<rparr>)"
      "markers_of pid (pending_markers (resume_pending c)) = markers_of pid (pending_markers c) @ ms"
      using resume_other [of ys pid "resume_txn (pid, m) ?a"] o b by (auto simp: r)
  qed (auto simp: ms_def marker_for_def)
qed


text \<open>One input: the participants that acknowledge leave the list, and every marker it queues carries the decision.\<close>

lemma decided_step:
  assumes i: "coord_inv c" and d: "decided pid e d ps us c" and b: "\<not> begins pid inp" and us: "sorted_wrt (<) us" "set us \<subseteq> set ps"
    and s: "txn_step inp c = (c', taken)"
  shows "decided pid e d ps (filter (\<lambda>p. p \<notin> acks pid e inp) us) c' \<and>
    (\<exists>ms. markers_of pid (taken @ pending_markers c') = markers_of pid (pending_markers c) @ ms \<and> (\<forall>m \<in> set ms. marker_for pid e d us m))"
proof -
  obtain m where m: "find_txn c pid = Some m" "txn_epoch m = e" "txn_partitions m = ps" "unacked_partitions m = us"
    "txn_state m = (if us = [] then complete_state_of d else prepare_state_of d)"
    using d by (auto simp: decided_def)
  have no: "txn_state m \<noteq> Ongoing" using m(5) by simp
  have same: ?thesis if "find_txn c' pid = find_txn c pid" "markers_of pid (taken @ pending_markers c') = markers_of pid (pending_markers c)"
    "acks pid e inp = {}"
    using that d by (auto simp: decided_def)
  have req: "q \<noteq> pid" if "require c q f = Inr n" "txn_state n = Ongoing" for q f n
    using that m(1) no by (auto simp: require_def split: if_splits option.splits)
  have ok: "txn_ok (q, n)" if "require c q f = Inr n" for q f n using require_ok [OF i that] .
  show ?thesis
  proof (cases inp)
    case (InitProducerId now tid)
    show ?thesis
    proof (cases "identities c tid")
      case (Some ident)
      let ?q = "id_producer ident"
      let ?c = "case find_txn c ?q of Some m \<Rightarrow> if txn_state m = Ongoing then enter_prepare_at ?q m Abort now c else c | None \<Rightarrow> c"
      have "find_txn ?c pid = find_txn c pid \<and> markers_of pid (pending_markers ?c) = markers_of pid (pending_markers c)"
        using enter_prepare_other [of ?q pid] m(1) no coord_invD [OF i, of ?q] by (cases "?q = pid") (auto split: option.split)
      then show ?thesis using s InitProducerId Some by (intro same) (auto simp: init_producer_id_def Let_def case_prod_beta find_txn_def)
    qed (use s InitProducerId in \<open>intro same; auto simp: init_producer_id_def Let_def find_txn_def\<close>)
  next
    case (MarkerWritten q f p)
    show ?thesis
    proof (cases "q = pid \<and> f = e")
      case True
      then have e: "erase_partition p us = (if p \<in> set us then Some (filter (\<lambda>q. q \<noteq> p) us) else None)" "acks pid e inp = {p}"
        using erase_partition_filter [OF us(1)] MarkerWritten by auto
      have c': "c' = on_marker_written pid e p c" "taken = []" using s True MarkerWritten by auto
      have "decided pid e d ps (filter (\<lambda>q. q \<noteq> p) us) c' \<and> pending_markers c' = pending_markers c"
      proof (cases "p \<in> set us")
        case p: True
        then have "txn_state m = prepare_state_of d" using m(5) by auto
        then have "c' = put_txn pid (m\<lparr> unacked_partitions := filter (\<lambda>q. q \<noteq> p) us,
            txn_state := (if filter (\<lambda>q. q \<noteq> p) us = [] then complete_state_of d else prepare_state_of d) \<rparr>) c"
          using p e(1) m(1,2,4) by (simp add: c' on_marker_written_def)
        then show ?thesis using m by (simp add: decided_def find_put_txn)
      next
        case False
        then have "c' = c" using e(1) m by (simp add: c' on_marker_written_def)
        moreover have "filter (\<lambda>q. q \<noteq> p) us = us" using False by (auto simp: filter_id_conv)
        ultimately show ?thesis using d by simp
      qed
      then show ?thesis using e(2) c'(2) by auto
    next
      case False
      then show ?thesis using s MarkerWritten m by (intro same) (auto simp: on_marker_written_def find_put_txn split: option.split)
    qed
  next
    case (Tick now)
    have "txn_ok x \<and> (fst x = pid \<longrightarrow> txn_state (snd x) \<noteq> Ongoing)" if "x \<in> set (txns c)" for x
    proof -
      have "find_txn c (fst x) = Some (snd x)" using that i by (simp add: coord_inv_def find_txn_def)
      then show ?thesis using coord_inv_entry [OF i that] no m(1) by auto
    qed
    then show ?thesis using tick_other [of "txns c" pid now c] s Tick by (intro same) (auto simp: txn_tick_def)
  next
    case Resume
    obtain k ms where r: "find_txn (resume_pending c) pid = Some (m\<lparr> txn_coordinator_epoch := k \<rparr>)"
      "markers_of pid (pending_markers (resume_pending c)) = markers_of pid (pending_markers c) @ ms"
      "\<forall>x \<in> set ms. is_prepared (txn_state m) \<and> marker_for pid (txn_epoch m) (decision_of (txn_state m)) (unacked_partitions m) x"
      by (rule resume_all [OF i m(1)])
    then have "\<forall>x \<in> set ms. marker_for pid e d us x" using m by (auto split: if_splits)
    then show ?thesis using r s Resume m by (auto simp: decided_def)
  next
    case (Begin now q f)
    then show ?thesis using s b by (intro same) (auto simp: txn_begin_def find_put_txn, auto simp: find_txn_def)
  next
    case (AddPartitions now q f qs)
    then show ?thesis using s req [of q f] by (intro same) (auto simp: add_partitions_def find_put_txn split: sum.splits if_splits)
  next
    case (CommitTxn now q f)
    then show ?thesis using s req [of q f] ok [of q f] enter_prepare_other [of q pid]
      by (intro same) (auto simp: txn_commit_def split: sum.splits if_splits)
  next
    case (AbortTxn now q f)
    then show ?thesis using s req [of q f] ok [of q f] enter_prepare_other [of q pid]
      by (intro same) (auto simp: txn_abort_def split: sum.splits if_splits)
  next
    case TakeMarkers
    then show ?thesis using s by (intro same) (auto simp: take_pending_markers_def find_txn_def markers_of_def)
  next
    case (SetEpoch epoch)
    then show ?thesis using s by (intro same) (auto simp: set_coordinator_epoch_def find_txn_def)
  qed
qed


lemma decided_run:
  assumes "coord_inv c" "decided pid e d ps us c" "\<forall>i \<in> set is. \<not> begins pid i" "sorted_wrt (<) us" "set us \<subseteq> set ps"
    "txn_run is c = (c', taken)"
  shows "decided pid e d ps (filter (\<lambda>p. p \<notin> (\<Union>i \<in> set is. acks pid e i)) us) c' \<and>
    (\<exists>ms. markers_of pid (taken @ pending_markers c') = markers_of pid (pending_markers c) @ ms \<and> (\<forall>m \<in> set ms. marker_for pid e d us m))"
  using assms
proof (induction "is" arbitrary: c us taken)
  case (Cons i "is")
  obtain a t where a: "txn_step i c = (a, t)" by fastforce
  obtain t' where t': "txn_run is a = (c', t')" "taken = t @ t'" using Cons.prems(6) a by (auto split: prod.splits)
  let ?us = "filter (\<lambda>p. p \<notin> acks pid e i) us"
  obtain ms where s: "decided pid e d ps ?us a" "markers_of pid (t @ pending_markers a) = markers_of pid (pending_markers c) @ ms"
    "\<forall>m \<in> set ms. marker_for pid e d us m"
    using decided_step [OF Cons.prems(1,2) _ Cons.prems(4,5) a] Cons.prems(3) by auto
  obtain ns where r: "decided pid e d ps (filter (\<lambda>p. p \<notin> (\<Union>i \<in> set is. acks pid e i)) ?us) c'"
    "markers_of pid (t' @ pending_markers c') = markers_of pid (pending_markers a) @ ns" "\<forall>m \<in> set ns. marker_for pid e d ?us m"
    using Cons.IH [of a ?us t'] coord_inv_step [OF Cons.prems(1), of i] s(1) a t'(1) Cons.prems(3-5) by (auto simp: sorted_wrt_filter)
  have "filter (\<lambda>p. p \<notin> (\<Union>i \<in> set is. acks pid e i)) ?us = filter (\<lambda>p. p \<notin> (\<Union>i \<in> set (i # is). acks pid e i)) us"
    by (auto intro: filter_cong)
  moreover have "markers_of pid (taken @ pending_markers c') = markers_of pid (pending_markers c) @ ms @ ns"
    using s(2) r(2) t'(2) by simp
  moreover have "\<forall>m \<in> set (ms @ ns). marker_for pid e d us m" using s(3) r(3) by (auto simp: marker_for_def)
  ultimately show ?case using r(1) by metis
qed simp

text \<open>The decision of a producer: \<open>commit\<close> or \<open>abort\<close>.\<close>

definition decide :: "ControlRecordType \<Rightarrow> int \<Rightarrow> int \<Rightarrow> int \<Rightarrow> TransactionCoordinator \<Rightarrow> TransactionCoordinator \<times> unit expected" where
  "decide d = (if d = Commit then txn_commit else txn_abort)"

lemma decide_accepted:
  assumes "coord_inv c" "decide d now pid e c = (a, Inr ())"
  obtains m where "find_txn c pid = Some m" "txn_state m = Ongoing" "txn_ok (pid, m)"
    "decided pid e d (txn_partitions m) (txn_partitions m) a"
    "pending_markers a = pending_markers c @ map (\<lambda>p. \<lparr> mk_producer_id = pid, mk_epoch = e, mk_coordinator_epoch = coordinator_epoch c,
       mk_decision = d, mk_partition = p \<rparr>) (txn_partitions m)"
proof -
  obtain m where m: "require c pid e = Inr m" "txn_state m = Ongoing" "a = enter_prepare_at pid m d now c"
    using assms(2) by (cases d) (auto simp: decide_def txn_commit_def txn_abort_def split: sum.splits if_splits)
  have f: "find_txn c pid = Some m" "txn_epoch m = e" using m(1) by (auto simp: require_def split: if_splits option.splits)
  note ok = require_ok [OF assms(1) m(1)]
  have "decided pid e d (txn_partitions m) (txn_partitions m) a"
    using f by (auto simp: m(3) enter_prepare_at_def enter_prepare_def Let_def decided_def find_put_txn)
  moreover have "pending_markers a = pending_markers c @ map (\<lambda>p. \<lparr> mk_producer_id = pid, mk_epoch = e,
      mk_coordinator_epoch = coordinator_epoch c, mk_decision = d, mk_partition = p \<rparr>) (txn_partitions m)"
    using f ok by (auto simp: m(3) enter_prepare_at_def enter_prepare_def Let_def pending_enqueue txn_ok_def)
  ultimately show ?thesis using that f(1) m(2) ok by blast
qed

text \<open>
  C7: two-phase commit.  Once a producer's commit or abort is accepted, then, through any further inputs (time-outs, failovers that resume the
  pending transactions, other producers, repeated acknowledgements, a new incarnation of the producer) up to its next begin: the participants
  without an acknowledgement are exactly those for which none arrived; the transaction is complete with this
  decision as soon as all have acknowledged, and prepared with it until then; every participant got a
  marker; and every marker queued for the producer since then carries this decision, its epoch and a participant.
\<close>

theorem two_phase_commit:
  assumes "coord_inv c" "decide d now pid e c = (a, Inr ())" "\<forall>i \<in> set is. \<not> begins pid i" "txn_run is a = (c', taken)"
  shows "\<exists>m m' ms. find_txn c pid = Some m \<and> find_txn c' pid = Some m' \<and> txn_partitions m' = txn_partitions m \<and>
    unacked_partitions m' = filter (\<lambda>p. p \<notin> (\<Union>i \<in> set is. acks pid e i)) (txn_partitions m) \<and>
    txn_state m' = (if set (txn_partitions m) \<subseteq> (\<Union>i \<in> set is. acks pid e i) then complete_state_of d else prepare_state_of d) \<and>
    markers_of pid (taken @ pending_markers c') = markers_of pid (pending_markers c) @ ms \<and>
    (\<forall>x \<in> set ms. marker_for pid e d (txn_partitions m) x) \<and> mk_partition ` set ms = set (txn_partitions m)"
proof -
  obtain m where m: "find_txn c pid = Some m" "txn_ok (pid, m)" "decided pid e d (txn_partitions m) (txn_partitions m) a"
    and q: "pending_markers a = pending_markers c @ map (\<lambda>p. \<lparr> mk_producer_id = pid, mk_epoch = e,
       mk_coordinator_epoch = coordinator_epoch c, mk_decision = d, mk_partition = p \<rparr>) (txn_partitions m)"
    using decide_accepted [OF assms(1,2)] by metis
  let ?ps = "txn_partitions m" and ?A = "\<Union>i \<in> set is. acks pid e i"
  have inv: "coord_inv a" using coord_inv_step [OF assms(1), of "if d = Commit then CommitTxn now pid e else AbortTxn now pid e"] assms(2)
    by (auto simp: decide_def split: if_splits)
  have s: "sorted_wrt (<) ?ps" using m(2) by (simp add: txn_ok_def)
  obtain ms where r: "decided pid e d ?ps (filter (\<lambda>p. p \<notin> ?A) ?ps) c'"
    "markers_of pid (taken @ pending_markers c') = markers_of pid (pending_markers a) @ ms" "\<forall>x \<in> set ms. marker_for pid e d ?ps x"
    using decided_run [OF inv m(3) assms(3) s _ assms(4)] by blast
  define qs where "qs = map (\<lambda>p. \<lparr> mk_producer_id = pid, mk_epoch = e,
       mk_coordinator_epoch = coordinator_epoch c, mk_decision = d, mk_partition = p \<rparr>) ?ps"
  have ms: "markers_of pid (taken @ pending_markers c') = markers_of pid (pending_markers c) @ qs @ ms"
    using r(2) q by (auto simp: qs_def markers_of_def filter_map comp_def)
  have all: "\<forall>x \<in> set (qs @ ms). marker_for pid e d ?ps x" using r(3) by (auto simp: qs_def marker_for_def)
  have eq: "filter (\<lambda>p. p \<notin> ?A) ?ps = [] \<longleftrightarrow> set ?ps \<subseteq> ?A" by (auto simp: filter_empty_conv)
  have "mk_partition ` set (qs @ ms) = set ?ps" using r(3) by (force simp: qs_def marker_for_def)
  moreover obtain m' where "find_txn c' pid = Some m'" "txn_partitions m' = ?ps" "unacked_partitions m' = filter (\<lambda>p. p \<notin> ?A) ?ps"
    "txn_state m' = (if set ?ps \<subseteq> ?A then complete_state_of d else prepare_state_of d)"
    using r(1) unfolding decided_def eq by blast
  ultimately show ?thesis using m(1) ms all by blast
qed


definition sample_partitions :: "TopicPartition list" where
  "sample_partitions = [TopicPartition ''orders'' 1, TopicPartition ''orders'' 0, TopicPartition ''audit'' 3]"

definition sample_txn_run :: "TxnInput list" where
  "sample_txn_run = [InitProducerId 0 ''app'', Begin 1 0 0, AddPartitions 2 0 0 sample_partitions, AddPartitions 3 0 0 sample_partitions]"

definition sample_coordinator :: TransactionCoordinator where
  "sample_coordinator = fst (txn_run sample_txn_run (new_coordinator 7 kDefaultTxnTimeout))"

text \<open>A failover in the middle: the first marker is acknowledged, the other two are sent again and then acknowledged.\<close>

definition sample_txn_end :: "TxnInput list" where
  "sample_txn_end = [TakeMarkers, MarkerWritten 0 0 (TopicPartition ''orders'' 0), SetEpoch 8, Resume, TakeMarkers, Tick 100000,
     MarkerWritten 0 0 (TopicPartition ''audit'' 3), MarkerWritten 0 0 (TopicPartition ''audit'' 3), MarkerWritten 0 0 (TopicPartition ''orders'' 1)]"

theorem two_phase_commit_witness:
  "\<exists>c' taken m'. txn_run sample_txn_end (fst (decide Commit 4 0 0 sample_coordinator)) = (c', taken) \<and>
     find_txn c' 0 = Some m' \<and> txn_state m' = CompleteCommit \<and> unacked_partitions m' = []"
proof -
  let ?a = "fst (decide Commit 4 0 0 sample_coordinator)"
  have "snd (decide Commit 4 0 0 sample_coordinator) = Inr ()" by code_simp
  then have d: "decide Commit 4 0 0 sample_coordinator = (?a, Inr ())" by (metis prod.collapse)
  have b: "\<forall>i \<in> set sample_txn_end. \<not> begins 0 i" by code_simp
  have i: "coord_inv sample_coordinator" unfolding sample_coordinator_def by (rule coord_inv_run [OF new_coordinator_inv])
  obtain c' taken where r: "txn_run sample_txn_end ?a = (c', taken)" by fastforce
  obtain m m' where m: "find_txn sample_coordinator 0 = Some m" "find_txn c' 0 = Some m'"
    "unacked_partitions m' = filter (\<lambda>p. p \<notin> (\<Union>i \<in> set sample_txn_end. acks 0 0 i)) (txn_partitions m)"
    "txn_state m' = (if set (txn_partitions m) \<subseteq> (\<Union>i \<in> set sample_txn_end. acks 0 0 i) then complete_state_of Commit else prepare_state_of Commit)"
    using two_phase_commit [OF i d b r] by blast
  have "txn_partitions (the (find_txn sample_coordinator 0)) = [TopicPartition ''audit'' 3, TopicPartition ''orders'' 0, TopicPartition ''orders'' 1]"
    by code_simp
  then have p: "set (txn_partitions m) \<subseteq> (\<Union>i \<in> set sample_txn_end. acks 0 0 i)" using m(1) by (simp add: sample_txn_end_def)
  then have "filter (\<lambda>p. p \<notin> (\<Union>i \<in> set sample_txn_end. acks 0 0 i)) (txn_partitions m) = []" by (auto simp: filter_empty_conv)
  then show ?thesis using r m p by (simp add: complete_state_of_def)
qed

text \<open>
  A begin with a newer epoch replaces a transaction whose markers are not yet acknowledged: after a failover its remaining
  participant gets no marker, although the decision was taken.
\<close>

lemma prepared_replaced:
  "let c = fst (txn_run [CommitTxn 4 0 0, TakeMarkers, InitProducerId 5 ''app'', Begin 6 0 1, Resume] sample_coordinator) in
   pending_markers c = [] \<and> map_option txn_state (find_txn c 0) = Some Ongoing"
  by code_simp


section \<open>Fencing\<close>

text \<open>A client begins only with identities and epochs that the coordinator handed out.\<close>

fun honest :: "TransactionCoordinator \<Rightarrow> TxnInput \<Rightarrow> bool" where
  "honest c (Begin now pid epoch) = (case current_epoch c pid of None \<Rightarrow> False | Some ce \<Rightarrow> epoch \<le> ce)"
| "honest c i = True"

fun honest_run :: "TransactionCoordinator \<Rightarrow> TxnInput list \<Rightarrow> bool" where
  "honest_run c [] = True"
| "honest_run c (i # is) = (honest c i \<and> honest_run (fst (txn_step i c)) is)"

text \<open>Identities have producers of their own, below the next one, with their current epoch.\<close>

definition id_inv :: "TransactionCoordinator \<Rightarrow> bool" where
  "id_inv c \<longleftrightarrow>
     (\<forall>tid ident. identities c tid = Some ident \<longrightarrow> current_epoch c (id_producer ident) = Some (id_epoch ident)) \<and>
     (\<forall>pid ce. current_epoch c pid = Some ce \<longrightarrow> pid < next_producer_id c) \<and>
     (\<forall>t u x y. identities c t = Some x \<longrightarrow> identities c u = Some y \<longrightarrow> id_producer x = id_producer y \<longrightarrow> t = u)"

lemma id_invD:
  assumes "id_inv c"
  shows "identities c tid = Some ident \<Longrightarrow> current_epoch c (id_producer ident) = Some (id_epoch ident)"
    "current_epoch c pid = Some ce \<Longrightarrow> pid < next_producer_id c"
    "identities c t = Some x \<Longrightarrow> identities c u = Some y \<Longrightarrow> id_producer x = id_producer y \<Longrightarrow> t = u"
  using assms by (auto simp: id_inv_def)

lemma id_inv_same:
  "identities c' = identities c \<Longrightarrow> current_epoch c' = current_epoch c \<Longrightarrow> next_producer_id c' = next_producer_id c \<Longrightarrow> id_inv c' = id_inv c"
  by (simp add: id_inv_def)

definition same_ids :: "TransactionCoordinator \<Rightarrow> TransactionCoordinator \<Rightarrow> bool" where
  "same_ids c c' \<longleftrightarrow> identities c' = identities c \<and> current_epoch c' = current_epoch c \<and> next_producer_id c' = next_producer_id c"

lemma same_ids_ops [simp]:
  "same_ids c c" "same_ids c (put_txn pid m b) = same_ids c b" "same_ids c (enqueue_markers m d b) = same_ids c b"
  "same_ids c (enter_prepare_at pid m d now b) = same_ids c b"
  by (auto simp: same_ids_def put_txn_def enqueue_markers_def enter_prepare_at_def enter_prepare_def Let_def)

lemma same_ids_trans: "same_ids a b \<Longrightarrow> same_ids b c \<Longrightarrow> same_ids a c"
  by (simp add: same_ids_def)

lemma same_ids_loops: "same_ids c (fold (tick_txn now) es c)" "same_ids c (fold resume_txn es c)"
proof -
  have "same_ids d (tick_txn now e d)" "same_ids d (resume_txn e d)" for e d
    by (auto simp: tick_txn_def resume_txn_def Let_def split: prod.split)
  then show "same_ids c (fold (tick_txn now) es c)" "same_ids c (fold resume_txn es c)"
    by (intro fold_inv [where P = "same_ids c"]; metis same_ids_ops(1) same_ids_trans)+
qed

lemma same_ids_step:
  assumes "\<And>now tid. i \<noteq> InitProducerId now tid" "\<And>now pid epoch. i \<noteq> Begin now pid epoch"
  shows "same_ids c (fst (txn_step i c))"
  using assms
  by (cases i) (auto simp: add_partitions_def txn_commit_def txn_abort_def on_marker_written_def txn_tick_def resume_pending_def
      same_ids_loops take_pending_markers_def set_coordinator_epoch_def split: sum.split option.split, auto simp: same_ids_def)

text \<open>The identity that the coordinator hands out is new, or one epoch above that of its previous incarnation.\<close>

lemma init_fresh:
  assumes "id_inv c" "init_producer_id now tid c = (c', ident)"
  shows "id_inv c'" "current_epoch c' (id_producer ident) = Some (id_epoch ident)"
    "current_epoch c pid = Some ce \<Longrightarrow> \<exists>ce' \<ge> ce. current_epoch c' pid = Some ce'"
proof -
  note D = id_invD [OF assms(1)]
  obtain b where b: "same_ids c b" and ident: "identities c' = (identities c)(tid \<mapsto> ident)"
     "current_epoch c' = (current_epoch c)(id_producer ident \<mapsto> id_epoch ident)"
     "ident = \<lparr> id_producer = next_producer_id c, id_epoch = 0 \<rparr> \<and> next_producer_id c' = next_producer_id c + 1 \<or>
      (\<exists>old. identities c tid = Some old \<and> ident = old\<lparr> id_epoch := id_epoch old + 1 \<rparr> \<and> next_producer_id c' = next_producer_id c)"
  proof (cases "identities c tid")
    case None
    then show ?thesis using assms(2) by (intro that [of c]) (auto simp: init_producer_id_def Let_def)
  next
    case (Some old)
    let ?b = "case find_txn c (id_producer old) of Some m \<Rightarrow> if txn_state m = Ongoing then enter_prepare_at (id_producer old) m Abort now c else c | None \<Rightarrow> c"
    have b: "same_ids c ?b" by (auto split: option.split)
    then show ?thesis using assms(2) Some
      by (intro that [OF b]) (auto simp: init_producer_id_def Let_def same_ids_def split: if_splits)
  qed
  show "current_epoch c' (id_producer ident) = Some (id_epoch ident)" using ident by simp
  show "\<exists>ce' \<ge> ce. current_epoch c' pid = Some ce'" if "current_epoch c pid = Some ce"
    using ident(3) D(2) [OF that] D(1) [of tid] that by (auto simp: ident(2))
  show "id_inv c'"
    using ident(3)
  proof
    assume f: "ident = \<lparr> id_producer = next_producer_id c, id_epoch = 0 \<rparr> \<and> next_producer_id c' = next_producer_id c + 1"
    have lt: "id_producer x < next_producer_id c" "id_producer x \<noteq> next_producer_id c" if "identities c t = Some x" for t x
      using D(2) [OF D(1) [OF that]] by auto
    have le: "pid < next_producer_id c + 1" if "current_epoch c pid = Some ce" for pid ce using D(2) [OF that] by simp
    show ?thesis using f D(1) D(3) lt le unfolding id_inv_def ident(1,2) by (auto split: if_splits dest: lt(2))
  next
    assume "\<exists>old. identities c tid = Some old \<and> ident = old\<lparr> id_epoch := id_epoch old + 1 \<rparr> \<and> next_producer_id c' = next_producer_id c"
    then obtain old where o: "identities c tid = Some old" "ident = old\<lparr> id_epoch := id_epoch old + 1 \<rparr>" "next_producer_id c' = next_producer_id c" by blast
    show ?thesis using o D(1) D(2) D(3) unfolding id_inv_def ident(1,2)
      by (auto split: if_splits)
  qed
qed


lemma honest_step:
  assumes i: "id_inv c" and h: "honest c inp"
  shows "id_inv (fst (txn_step inp c)) \<and>
    (\<forall>pid ce. current_epoch c pid = Some ce \<longrightarrow> (\<exists>ce' \<ge> ce. current_epoch (fst (txn_step inp c)) pid = Some ce'))"
proof -
  consider now tid where "inp = InitProducerId now tid" | now pid epoch where "inp = Begin now pid epoch"
    | "\<And>now tid. inp \<noteq> InitProducerId now tid" "\<And>now pid epoch. inp \<noteq> Begin now pid epoch"
    by (cases inp) auto
  then show ?thesis
  proof cases
    case 1
    obtain c' ident where "init_producer_id now tid c = (c', ident)" by fastforce
    then show ?thesis using init_fresh [OF i] 1 by auto
  next
    case 2
    then obtain ce where ce: "current_epoch c pid = Some ce" "epoch \<le> ce" using h by (auto split: option.splits)
    then have "same_ids c (fst (txn_step inp c))"
      using 2 by (auto simp: txn_begin_def) (auto simp: same_ids_def put_txn_def max_absorb1 map_upd_triv)
    then show ?thesis using i by (auto simp: same_ids_def id_inv_def)
  next
    case 3
    then show ?thesis using same_ids_step [OF 3, of c] i by (auto simp: same_ids_def id_inv_def)
  qed
qed

lemma honest_run_mono:
  "id_inv c \<Longrightarrow> honest_run c is \<Longrightarrow>
   id_inv (fst (txn_run is c)) \<and> (\<forall>pid ce. current_epoch c pid = Some ce \<longrightarrow> (\<exists>ce' \<ge> ce. current_epoch (fst (txn_run is c)) pid = Some ce'))"
proof (induction "is" arbitrary: c)
  case (Cons i "is")
  have s: "id_inv (fst (txn_step i c))"
    "\<And>pid ce. current_epoch c pid = Some ce \<Longrightarrow> \<exists>ce' \<ge> ce. current_epoch (fst (txn_step i c)) pid = Some ce'"
    using honest_step [OF Cons.prems(1), of i] Cons.prems(2) by auto
  note r = Cons.IH [OF s(1)]
  have "\<exists>ce' \<ge> ce. current_epoch (fst (txn_run (i # is) c)) pid = Some ce'" if a: "current_epoch c pid = Some ce" for pid ce
  proof -
    obtain x where x: "x \<ge> ce" "current_epoch (fst (txn_step i c)) pid = Some x" using s(2) [OF a] by auto
    obtain y where "y \<ge> x" "current_epoch (fst (txn_run is (fst (txn_step i c)))) pid = Some y" using r x(2) Cons.prems(2) by auto
    then show ?thesis using x(1) by (auto simp: case_prod_beta)
  qed
  then show ?case using r Cons.prems(2) by (auto simp: case_prod_beta)
qed simp

lemma new_coordinator_ids: "id_inv (new_coordinator e t)"
  by (simp add: id_inv_def new_coordinator_def)



text \<open>
  At the last epoch the producer gets a new identity instead, and the previous one is not fenced: it begins and commits
  as before.
\<close>

lemma last_epoch_not_fenced:
  "let c = (new_coordinator 7 1000)\<lparr> next_producer_id := 1, identities := [''app'' \<mapsto> \<lparr> id_producer = 0, id_epoch = 32767 \<rparr>],
                                      current_epoch := [0 \<mapsto> 32767] \<rparr>;
       (c, ident) = init_producer_id 5 ''app'' c; (c, r) = txn_begin 6 0 32767 c; (c, r') = txn_commit 7 0 32767 c in
   id_producer ident = 1 \<and> r = Inr () \<and> r' = Inr ()"
  by code_simp

end
