(* ===== verification/Strings.thy ===== *)
theory Strings
  imports Prelude "HOL-Library.Word" "HOL-Library.List_Lexorder"
begin

text \<open>
  Character strings of the program.  A \<^verbatim>\<open>std::string\<close> is the list of its bytes, compared byte by byte as unsigned
  numbers, which is the lexicographic order of lists of words.
\<close>

definition ascii :: "string \<Rightarrow> bytes" where
  "ascii s = map of_char s"

lemma ascii_simps [simp]: "ascii [] = []" "ascii (c # s) = of_char c # ascii s" "ascii (s @ t) = ascii s @ ascii t" "length (ascii s) = length s"
  by (simp_all add: ascii_def)

text \<open>\<open>std::to_string\<close> of an unsigned number, and of a signed one.\<close>

fun to_string :: "nat \<Rightarrow> bytes" where
  "to_string n = (if n < 10 then [of_nat (48 + n)] else to_string (n div 10) @ [of_nat (48 + n mod 10)])"

declare to_string.simps [simp del]

definition to_string_int :: "int \<Rightarrow> bytes" where
  "to_string_int i = (if i < 0 then 45 # to_string (nat (- i)) else to_string (nat i))"

text \<open>The value of a string of decimal digits.\<close>

fun digits_value :: "bytes \<Rightarrow> nat" where
  "digits_value ds = foldl (\<lambda>n d. 10 * n + (unat d - 48)) 0 ds"

definition is_digit :: "byte \<Rightarrow> bool" where
  "is_digit b \<longleftrightarrow> 48 \<le> b \<and> b \<le> 57"

lemma unat_digit: "d < 10 \<Longrightarrow> unat (of_nat (48 + d) :: byte) = 48 + d"
  by (simp only: unat_of_nat) simp

lemma to_string_ne [simp]: "to_string n \<noteq> []"
  by (subst to_string.simps) simp

lemma to_string_digits: "\<forall>d \<in> set (to_string n). is_digit d"
proof (induction n rule: to_string.induct)
  case (1 n)
  have "is_digit (of_nat (48 + d))" if "d < 10" for d
    using unat_digit [OF that] that by (simp add: is_digit_def word_le_nat_alt)
  then show ?case using 1 by (subst to_string.simps) auto
qed

lemma digits_value_to_string: "digits_value (to_string n) = n"
proof (induction n rule: to_string.induct)
  case (1 n)
  show ?case
  proof (cases "n < 10")
    case True
    then show ?thesis using unat_digit [OF True] by (subst to_string.simps) simp
  next
    case False
    have "unat (of_nat (48 + n mod 10) :: byte) = 48 + n mod 10" by (rule unat_digit) simp
    then show ?thesis using 1 [OF False] False by (subst to_string.simps) simp
  qed
qed

lemma to_string_inj: "to_string m = to_string n \<longleftrightarrow> m = n"
  by (metis digits_value_to_string)

text \<open>
  \<^verbatim>\<open>std::from_chars\<close> for an integer type with values from \<open>lo\<close> to \<open>hi\<close>, in base ten: the value and
  what follows its digits, or none for no digits and for a value out of range.
\<close>

definition from_chars :: "int \<Rightarrow> int \<Rightarrow> bytes \<Rightarrow> (int \<times> bytes) option" where
  "from_chars lo hi s =
     (let minus = lo < 0 \<and> s \<noteq> [] \<and> hd s = 45;
          t = (if minus then tl s else s);
          ds = takeWhile is_digit t;
          v = (if minus then - int (digits_value ds) else int (digits_value ds)) in
      if ds = [] \<or> v < lo \<or> hi < v then None else Some (v, dropWhile is_digit t))"

text \<open>A number padded with zeros, as \<^verbatim>\<open>{:0<w>d}\<close> of \<^verbatim>\<open>std::format\<close> writes it (non-negative).\<close>

definition zero_pad :: "nat \<Rightarrow> bytes \<Rightarrow> bytes" where
  "zero_pad w ds = replicate (w - length ds) 48 @ ds"

text \<open>The parts before and after the last occurrence of a character, as \<^verbatim>\<open>rfind\<close> is used.\<close>

definition split_last :: "byte \<Rightarrow> bytes \<Rightarrow> (bytes \<times> bytes) option" where
  "split_last c s =
     (if c \<in> set s
      then Some (rev (tl (dropWhile (\<lambda>x. x \<noteq> c) (rev s))), rev (takeWhile (\<lambda>x. x \<noteq> c) (rev s)))
      else None)"

lemma split_last_append [simp]: "c \<notin> set b \<Longrightarrow> split_last c (a @ c # b) = Some (a, b)"
proof -
  assume *: "c \<notin> set b"
  have "takeWhile (\<lambda>x. x \<noteq> c) (ys @ c # zs) = ys \<and> dropWhile (\<lambda>x. x \<noteq> c) (ys @ c # zs) = c # zs"
    if "c \<notin> set ys" for ys zs
    using that by (induction ys) auto
  from this [of "rev b" "rev a"] * show ?thesis by (simp add: split_last_def)
qed

lemma split_last_SomeD: "split_last c s = Some (a, b) \<Longrightarrow> s = a @ c # b \<and> c \<notin> set b"
proof -
  assume *: "split_last c s = Some (a, b)"
  then have "c \<in> set s" by (simp add: split_last_def split: if_splits)
  then obtain a' b' where "s = a' @ c # b'" "c \<notin> set b'" by (meson split_list_last)
  with * show ?thesis by simp
qed

lemma split_last_None [simp]: "split_last c s = None \<longleftrightarrow> c \<notin> set s"
  by (simp add: split_last_def)

lemma digits_value_zeros [simp]: "digits_value (replicate n 48 @ ds) = digits_value ds"
  by (induction n) (simp_all add: replicate_app_Cons_same)

lemma zero_pad_digits: "\<forall>d \<in> set (zero_pad w (to_string n)). is_digit d"
  using to_string_digits [of n] by (auto simp: zero_pad_def is_digit_def)

lemma takeWhile_digits:
  "\<forall>d \<in> set ds. is_digit d \<Longrightarrow> r = [] \<or> \<not> is_digit (hd r) \<Longrightarrow>
   takeWhile is_digit (ds @ r) = ds \<and> dropWhile is_digit (ds @ r) = r"
  by (cases r) (simp_all add: takeWhile_append2 dropWhile_append2)

lemma from_chars_digits:
  assumes "\<forall>d \<in> set ds. is_digit d" "ds \<noteq> []" "r = [] \<or> \<not> is_digit (hd r)" "lo \<le> 0" "int (digits_value ds) \<le> hi"
  shows "from_chars lo hi (ds @ r) = Some (int (digits_value ds), r)"
proof -
  have "hd (ds @ r) \<noteq> 45" using assms(1,2) by (cases ds) (auto simp: is_digit_def)
  then show ?thesis using takeWhile_digits [OF assms(1,3)] assms by (simp add: from_chars_def Let_def del: digits_value.simps)
qed

lemma from_chars_to_string:
  assumes "r = [] \<or> \<not> is_digit (hd r)" "lo \<le> 0" "int n \<le> hi"
  shows "from_chars lo hi (to_string n @ r) = Some (int n, r)"
  using from_chars_digits [OF to_string_digits to_string_ne assms(1,2)] assms(3)
  by (simp add: digits_value_to_string del: digits_value.simps)

lemma from_chars_zero_pad:
  assumes "r = [] \<or> \<not> is_digit (hd r)" "lo \<le> 0" "int n \<le> hi"
  shows "from_chars lo hi (zero_pad w (to_string n) @ r) = Some (int n, r)"
proof -
  have "digits_value (zero_pad w (to_string n)) = n"
    by (simp add: zero_pad_def digits_value_to_string del: digits_value.simps)
  then show ?thesis
    using from_chars_digits [OF zero_pad_digits _ assms(1,2), of w n] assms(3)
    by (simp add: zero_pad_def del: digits_value.simps)
qed

end
