(* ===== verification/Topic_Manager.thy ===== *)
theory Topic_Manager
  imports Strings Record_Codec Broker_Partition Raft_Carrier Wire_Messages "HOL-Library.AList"
begin

text \<open>
  Topics and their partitions (\<^verbatim>\<open>src/src/broker/topic.hpp\<close>, \<^verbatim>\<open>topic_manager.cpp\<close>, \<^verbatim>\<open>topic_catalog.cpp\<close>, \<^verbatim>\<open>topic_cluster.cpp\<close>,
  \<^verbatim>\<open>src/src/reactor/partition_router.hpp\<close>).  Each core of the node has a manager that knows all topics and opens the
  partitions that belong to the core; creation and deletion go to all cores in turn.  What the file system holds for a
  partition and what it answers is the parameter \<open>disk\<close>; whether it removes a directory is \<open>rm\<close>.  The node of a replica is kept
  in its partition, the rest of its carrier in the manager, as in the code, where the carrier refers to
  the partition.  The mutex, the metrics and tiered storage are not part of the model.
\<close>


section \<open>Topics\<close>

record TopicConfig =
  tc_segment_bytes :: nat
  tc_retention_ms :: int
  tc_retention_bytes :: int
  tc_compaction :: bool
  tc_compression :: Codec

definition default_topic_config :: TopicConfig where
  "default_topic_config = \<lparr> tc_segment_bytes = 64 * 1024 * 1024, tc_retention_ms = -1, tc_retention_bytes = -1,
     tc_compaction = False, tc_compression = CodecNone \<rparr>"

record TopicMetadata =
  tmd_name :: bytes
  tmd_partition_count :: int
  tmd_replication_factor :: int
  tmd_config :: TopicConfig
  tmd_created_at_ms :: int

record Topic =
  topic_meta :: TopicMetadata
  topic_partitions :: "int \<rightharpoonup> PartitionBase"

definition new_topic :: "TopicMetadata \<Rightarrow> Topic" where
  "new_topic m = \<lparr> topic_meta = m, topic_partitions = Map.empty \<rparr>"

definition add_partition :: "int \<Rightarrow> PartitionBase \<Rightarrow> Topic \<Rightarrow> Topic" where
  "add_partition pid p t = t\<lparr> topic_partitions := (topic_partitions t)(pid \<mapsto> p) \<rparr>"

definition set_retention :: "int \<Rightarrow> int \<Rightarrow> Topic \<Rightarrow> Topic" where
  "set_retention ms bs t =
     t\<lparr> topic_meta := (topic_meta t)\<lparr> tmd_config := (tmd_config (topic_meta t))\<lparr> tc_retention_ms := ms, tc_retention_bytes := bs \<rparr> \<rparr> \<rparr>"


section \<open>The manager of a core\<close>

record ReplicaContext =
  rx_topic :: bytes
  rx_partition :: int
  rx_store :: "File option"

record TopicManager =
  num_cores :: nat
  owner_core :: nat
  tm_node_id :: int
  tm_raft_config :: RaftConfig
  voter_peers :: "int list"
  tm_compaction :: int
  tm_encryption_key :: "EncryptionKey option"
  topics :: "(bytes \<times> Topic) list"
  replicas :: "ReplicaContext list"

definition new_manager :: "int \<Rightarrow> int \<Rightarrow> int \<Rightarrow> RaftConfig \<Rightarrow> int list \<Rightarrow> int \<Rightarrow> EncryptionKey option \<Rightarrow> TopicManager" where
  "new_manager cores core node_id config peers compaction key =
     (let n = (if cores < 1 then 1 else cores) in
      \<lparr> num_cores = nat n, owner_core = (if core < 0 \<or> core \<ge> n then 0 else nat core), tm_node_id = node_id, tm_raft_config = config,
        voter_peers = peers, tm_compaction = compaction, tm_encryption_key = key, topics = [], replicas = [] \<rparr>)"

definition kMaxTopicNameLength :: nat where
  "kMaxTopicNameLength = 249"

definition is_allowed :: "byte \<Rightarrow> bool" where
  "is_allowed ch \<longleftrightarrow> (97 \<le> ch \<and> ch \<le> 122) \<or> (65 \<le> ch \<and> ch \<le> 90) \<or> (48 \<le> ch \<and> ch \<le> 57) \<or> ch = 46 \<or> ch = 95 \<or> ch = 45"

definition validate_topic_name :: "bytes \<Rightarrow> unit expected" where
  "validate_topic_name name =
     (if name = [] then Inl InvalidArgument
      else if length name > kMaxTopicNameLength then Inl InvalidArgument
      else if name = ascii ''.'' \<or> name = ascii ''..'' then Inl InvalidArgument
      else if \<not> list_all is_allowed name then Inl InvalidArgument
      else Inr ())"

text \<open>A partition identifier converted to \<^verbatim>\<open>size_t\<close>, modulo the number of cores.\<close>

definition core_of :: "nat \<Rightarrow> int \<Rightarrow> nat" where
  "core_of cores pid = nat (pid mod 2 ^ 64) mod cores"

definition owns_partition :: "TopicManager \<Rightarrow> int \<Rightarrow> bool" where
  "owns_partition tm pid \<longleftrightarrow> core_of (num_cores tm) pid = owner_core tm"

text \<open>What the file system holds and answers for a partition of a topic.\<close>

record PartitionFiles =
  pf_dir :: directory
  pf_env :: log_env
  pf_envs :: "nat \<Rightarrow> log_env"
  pf_raft_meta :: "File expected"
  pf_raft_snapshot :: "File expected"
  pf_raft_state :: "File expected"

type_synonym disk = "bytes \<Rightarrow> int \<Rightarrow> PartitionFiles"

definition log_config :: "TopicManager \<Rightarrow> TopicConfig \<Rightarrow> LogConfig" where
  "log_config tm c = \<lparr> segment_bytes = tc_segment_bytes c, index_interval_bytes = 4096, fsync_policy = FsyncInterval,
     fsync_interval_bytes = 1024 * 1024, encryption_key = tm_encryption_key tm \<rparr>"


text \<open>One partition of a new topic, and the rest of its carrier when it is replicated.\<close>

definition open_partition ::
  "crypto_lib \<Rightarrow> disk \<Rightarrow> TopicManager \<Rightarrow> bytes \<Rightarrow> TopicConfig \<Rightarrow> bool \<Rightarrow> int \<Rightarrow> (PartitionBase \<times> ReplicaContext list) expected" where
  "open_partition cr dk tm name c replicated pid =
     (let f = dk name pid in
      bindE (plog_open cr (log_config tm c) (pf_env f) (pf_dir f)) (\<lambda>log.
      if \<not> replicated then Inr (LocalPartition (new_partition log (pf_envs f)), [])
      else bindE (replicated_create (tm_node_id tm) (voter_peers tm) log (tm_raft_config tm) [] (pf_raft_meta f) (pf_raft_snapshot f) (pf_envs f)) (\<lambda>rp.
           bindE (pf_raft_state f) (\<lambda>store.
           case recover \<lparr> rc_topic = name, rc_partition = pid, rc_node = rp_raft rp, rc_store = Some store, rc_compacts = True,
                          rc_threshold = tm_compaction tm \<rparr> of
             (carrier, Inl e) \<Rightarrow> Inl e
           | (carrier, Inr _) \<Rightarrow>
               Inr (RaftPartition (rp\<lparr> rp_raft := rc_node carrier \<rparr>),
                    [\<lparr> rx_topic = name, rx_partition = pid, rx_store = rc_store carrier \<rparr>])))))"

fun open_partitions ::
  "crypto_lib \<Rightarrow> disk \<Rightarrow> TopicManager \<Rightarrow> bytes \<Rightarrow> TopicConfig \<Rightarrow> bool \<Rightarrow> int list \<Rightarrow> Topic \<Rightarrow> ReplicaContext list \<Rightarrow>
   (Topic \<times> ReplicaContext list) expected" where
  "open_partitions cr dk tm name c replicated [] topic new_replicas = Inr (topic, new_replicas)"
| "open_partitions cr dk tm name c replicated (pid # pids) topic new_replicas =
     (if \<not> owns_partition tm pid then open_partitions cr dk tm name c replicated pids topic new_replicas
      else bindE (open_partition cr dk tm name c replicated pid) (\<lambda>(p, ctx).
           open_partitions cr dk tm name c replicated pids (add_partition pid p topic) (new_replicas @ ctx)))"

definition partition_ids :: "int \<Rightarrow> int list" where
  "partition_ids n = [0..n - 1]"

definition create_topic ::
  "crypto_lib \<Rightarrow> disk \<Rightarrow> int \<Rightarrow> bytes \<Rightarrow> int \<Rightarrow> TopicConfig \<Rightarrow> int \<Rightarrow> TopicManager \<Rightarrow> TopicManager \<times> TopicMetadata expected" where
  "create_topic cr dk now name partition_count c replication_factor tm =
     (case validate_topic_name name of
        Inl e \<Rightarrow> (tm, Inl e)
      | Inr _ \<Rightarrow>
          if partition_count < 1 then (tm, Inl InvalidArgument)
          else if map_of (topics tm) name \<noteq> None then (tm, Inl InvalidArgument)
          else
            let m = \<lparr> tmd_name = name, tmd_partition_count = partition_count, tmd_replication_factor = replication_factor,
                      tmd_config = c, tmd_created_at_ms = now \<rparr> in
            case open_partitions cr dk tm name c (replication_factor > 1) (partition_ids partition_count) (new_topic m) [] of
              Inl e \<Rightarrow> (tm, Inl e)
            | Inr (topic, new_replicas) \<Rightarrow>
                (tm\<lparr> topics := (name, topic) # topics tm, replicas := replicas tm @ new_replicas \<rparr>, Inr m))"

text \<open>The second result are the directories that are removed, or whose removal is tried.\<close>

definition delete_topic :: "(bytes \<Rightarrow> int \<Rightarrow> bool) \<Rightarrow> bytes \<Rightarrow> TopicManager \<Rightarrow> TopicManager \<times> (bytes \<times> int) list \<times> unit expected" where
  "delete_topic rm name tm =
     (case map_of (topics tm) name of
        None \<Rightarrow> (tm, [], Inl NotFound)
      | Some topic \<Rightarrow>
          let owned = filter (owns_partition tm) (partition_ids (tmd_partition_count (topic_meta topic))) in
          (tm\<lparr> replicas := filter (\<lambda>x. rx_topic x \<noteq> name) (replicas tm), topics := AList.delete name (topics tm) \<rparr>,
           map (Pair name) owned, if list_all (rm name) owned then Inr () else Inl IoError))"

definition get_topic :: "TopicManager \<Rightarrow> bytes \<Rightarrow> Topic option" where
  "get_topic tm name = map_of (topics tm) name"

definition update_config :: "bytes \<Rightarrow> int option \<Rightarrow> int option \<Rightarrow> TopicManager \<Rightarrow> TopicManager \<times> TopicMetadata expected" where
  "update_config name ms bs tm =
     (case map_of (topics tm) name of
        None \<Rightarrow> (tm, Inl NotFound)
      | Some topic \<Rightarrow>
          let c = tmd_config (topic_meta topic);
              topic = set_retention (case ms of Some v \<Rightarrow> v | None \<Rightarrow> tc_retention_ms c) (case bs of Some v \<Rightarrow> v | None \<Rightarrow> tc_retention_bytes c) topic in
          (tm\<lparr> topics := AList.update name topic (topics tm) \<rparr>, Inr (topic_meta topic)))"

definition describe :: "TopicManager \<Rightarrow> int \<Rightarrow> TopicMeta list" where
  "describe tm leader =
     map (\<lambda>(name, topic). \<lparr> tm_name = name, tm_error = WNone,
            tm_partitions = map (\<lambda>pid. \<lparr> pm_id = pid, pm_leader_node_id = leader, pm_replicas = [leader], pm_leader_epoch = 0 \<rparr>)
              (partition_ids (tmd_partition_count (topic_meta topic))) \<rparr>) (topics tm)"

definition list_metadata :: "TopicManager \<Rightarrow> TopicMetadata list" where
  "list_metadata tm = map (\<lambda>(name, topic). topic_meta topic) (topics tm)"

text \<open>\<open>age\<close> is the age of a segment of a partition, by topic, partition and base offset.\<close>

definition retain_topic :: "(bytes \<Rightarrow> int \<Rightarrow> int \<Rightarrow> int option) \<Rightarrow> bytes \<times> Topic \<Rightarrow> bytes \<times> Topic" where
  "retain_topic age nt =
     (case nt of (name, topic) \<Rightarrow>
      let c = tmd_config (topic_meta topic) in
      if tc_retention_ms c < 0 \<and> tc_retention_bytes c < 0 then (name, topic)
      else let policy = \<lparr> retention_bytes = tc_retention_bytes c, retention_ms = tc_retention_ms c \<rparr> in
        (name, topic\<lparr> topic_partitions := (\<lambda>pid.
           if 0 \<le> pid \<and> pid < tmd_partition_count (topic_meta topic)
           then map_option (part_retention policy (age name pid)) (topic_partitions topic pid)
           else topic_partitions topic pid) \<rparr>))"

definition enforce_retention_all :: "(bytes \<Rightarrow> int \<Rightarrow> int \<Rightarrow> int option) \<Rightarrow> TopicManager \<Rightarrow> TopicManager" where
  "enforce_retention_all age tm = tm\<lparr> topics := map (retain_topic age) (topics tm) \<rparr>"

text \<open>The carrier of a replica, put together from its context and the node of its partition.\<close>

definition carrier_for :: "TopicManager \<Rightarrow> bytes \<Rightarrow> int \<Rightarrow> RaftLog RaftCarrier option" where
  "carrier_for tm name pid =
     (case List.find (\<lambda>x. rx_partition x = pid \<and> rx_topic x = name) (replicas tm) of
        None \<Rightarrow> None
      | Some x \<Rightarrow>
          (case map_of (topics tm) name of
             None \<Rightarrow> None
           | Some topic \<Rightarrow>
               (case topic_partitions topic pid of
                  Some (RaftPartition rp) \<Rightarrow>
                    Some \<lparr> rc_topic = name, rc_partition = pid, rc_node = rp_raft rp, rc_store = rx_store x, rc_compacts = True,
                           rc_threshold = tm_compaction tm \<rparr>
                | _ \<Rightarrow> None)))"


section \<open>All cores\<close>

definition new_catalog :: "int \<Rightarrow> int \<Rightarrow> RaftConfig \<Rightarrow> int list \<Rightarrow> int \<Rightarrow> EncryptionKey option \<Rightarrow> TopicManager list" where
  "new_catalog cores node_id config peers compaction key =
     (let n = (if cores < 1 then 1 else cores) in
      map (\<lambda>core. new_manager n core node_id config peers compaction key) [0..n - 1])"

text \<open>
  The creation on all cores, in order; when one fails, the cores before it delete the topic again, in
  reverse order.  The result is that of the first core.
\<close>

fun create_on_cores ::
  "crypto_lib \<Rightarrow> disk \<Rightarrow> (bytes \<Rightarrow> int \<Rightarrow> bool) \<Rightarrow> int \<Rightarrow> bytes \<Rightarrow> int \<Rightarrow> TopicConfig \<Rightarrow> int \<Rightarrow> TopicManager list \<Rightarrow>
   TopicManager list \<times> (bytes \<times> int) list \<times> TopicMetadata option expected" where
  "create_on_cores cr dk rm now name count c rf [] = ([], [], Inr None)"
| "create_on_cores cr dk rm now name count c rf (tm # tms) =
     (case create_topic cr dk now name count c rf tm of
        (tm, Inl e) \<Rightarrow> (tm # tms, [], Inl e)
      | (tm, Inr m) \<Rightarrow>
          (case create_on_cores cr dk rm now name count c rf tms of
             (tms, dirs, Inr _) \<Rightarrow> (tm # tms, dirs, Inr (Some m))
           | (tms, dirs, Inl e) \<Rightarrow>
               (case delete_topic rm name tm of (tm, dirs', _) \<Rightarrow> (tm # tms, dirs @ dirs', Inl e))))"

definition catalog_create_topic ::
  "crypto_lib \<Rightarrow> disk \<Rightarrow> (bytes \<Rightarrow> int \<Rightarrow> bool) \<Rightarrow> int \<Rightarrow> bytes \<Rightarrow> int \<Rightarrow> TopicConfig \<Rightarrow> int \<Rightarrow> TopicManager list \<Rightarrow>
   TopicManager list \<times> (bytes \<times> int) list \<times> TopicMetadata option expected" where
  "catalog_create_topic cr dk rm now name count c rf tms = create_on_cores cr dk rm now name count c rf tms"

definition create_topic_on_cluster ::
  "crypto_lib \<Rightarrow> disk \<Rightarrow> (bytes \<Rightarrow> int \<Rightarrow> bool) \<Rightarrow> int \<Rightarrow> bytes \<Rightarrow> int \<Rightarrow> TopicConfig \<Rightarrow> TopicManager list \<Rightarrow>
   TopicManager list \<times> (bytes \<times> int) list \<times> TopicMetadata option expected" where
  "create_topic_on_cluster cr dk rm now name count c tms = create_on_cores cr dk rm now name count c 1 tms"

fun delete_topic_on_cluster ::
  "(bytes \<Rightarrow> int \<Rightarrow> bool) \<Rightarrow> bytes \<Rightarrow> TopicManager list \<Rightarrow> TopicManager list \<times> (bytes \<times> int) list \<times> unit expected" where
  "delete_topic_on_cluster rm name [] = ([], [], Inr ())"
| "delete_topic_on_cluster rm name (tm # tms) =
     (case delete_topic rm name tm of (tm, dirs, r) \<Rightarrow>
      case delete_topic_on_cluster rm name tms of (tms, dirs', _) \<Rightarrow> (tm # tms, dirs @ dirs', r))"

fun update_topic_config_on_cluster ::
  "bytes \<Rightarrow> int option \<Rightarrow> int option \<Rightarrow> TopicManager list \<Rightarrow> TopicManager list \<times> TopicMetadata expected" where
  "update_topic_config_on_cluster name ms bs [] = ([], Inl NotFound)"
| "update_topic_config_on_cluster name ms bs (tm # tms) =
     (case update_config name ms bs tm of (tm, r) \<Rightarrow> (tm # fst (update_topic_config_on_cluster name ms bs tms), r))"


section \<open>Every partition has one owner\<close>

text \<open>The partition of a topic on a core, as the router looks it up.\<close>

definition find_partition :: "TopicManager \<Rightarrow> bytes \<Rightarrow> int \<Rightarrow> PartitionBase option" where
  "find_partition tm name pid =
     (case get_topic tm name of None \<Rightarrow> None | Some topic \<Rightarrow> topic_partitions topic pid)"

text \<open>The managers of a node, one per core.\<close>

definition per_core :: "TopicManager list \<Rightarrow> bool" where
  "per_core tms \<longleftrightarrow> tms \<noteq> [] \<and> (\<forall>i < length tms. num_cores (tms ! i) = length tms \<and> owner_core (tms ! i) = i)"

text \<open>Every replica belongs to a topic of its manager.\<close>

definition manager_inv :: "TopicManager \<Rightarrow> bool" where
  "manager_inv tm \<longleftrightarrow> (\<forall>x \<in> set (replicas tm). map_of (topics tm) (rx_topic x) \<noteq> None)"

lemma open_partition_replicas: "open_partition cr dk tm name c rep pid = Inr (p, ctx) \<Longrightarrow> x \<in> set ctx \<Longrightarrow> rx_topic x = name"
  by (auto simp: open_partition_def Let_def bindE_def split: if_splits sum.splits prod.splits)

lemma open_partitions_spec:
  "open_partitions cr dk tm name c rep pids topic rs = Inr (topic', rs') \<Longrightarrow>
   topic_meta topic' = topic_meta topic \<and>
   (\<forall>pid. (topic_partitions topic' pid \<noteq> None) = (pid \<in> set pids \<and> owns_partition tm pid \<or> topic_partitions topic pid \<noteq> None)) \<and>
   (\<exists>new. rs' = rs @ new \<and> (\<forall>x \<in> set new. rx_topic x = name))"
proof (induction pids arbitrary: topic rs)
  case (Cons pid pids)
  show ?case
  proof (cases "owns_partition tm pid")
    case True
    then obtain p ctx where o: "open_partition cr dk tm name c rep pid = Inr (p, ctx)"
      "open_partitions cr dk tm name c rep pids (add_partition pid p topic) (rs @ ctx) = Inr (topic', rs')"
      using Cons.prems by (auto simp: bindE_def split: sum.splits)
    show ?thesis using Cons.IH [OF o(2)] open_partition_replicas [OF o(1)] True
      by (auto simp: add_partition_def)
  next
    case False
    then show ?thesis using Cons.IH [of topic rs] Cons.prems by auto
  qed
qed auto

lemma create_topic_spec:
  assumes "create_topic cr dk now name count c rf tm = (tm', Inr m)"
  shows "num_cores tm' = num_cores tm" "owner_core tm' = owner_core tm" "tmd_partition_count m = count" "get_topic tm name = None"
    "\<exists>topic new. topics tm' = (name, topic) # topics tm \<and> replicas tm' = replicas tm @ new \<and> topic_meta topic = m \<and>
       (\<forall>x \<in> set new. rx_topic x = name) \<and>
       (\<forall>pid. (topic_partitions topic pid \<noteq> None) = (0 \<le> pid \<and> pid < count \<and> owns_partition tm pid))"
proof -
  let ?m = "\<lparr> tmd_name = name, tmd_partition_count = count, tmd_replication_factor = rf, tmd_config = c, tmd_created_at_ms = now \<rparr>"
  obtain topic new where o: "open_partitions cr dk tm name c (rf > 1) (partition_ids count) (new_topic ?m) [] = Inr (topic, new)"
    and r: "tm' = tm\<lparr> topics := (name, topic) # topics tm, replicas := replicas tm @ new \<rparr>" "m = ?m" "map_of (topics tm) name = None"
    using assms by (auto simp: create_topic_def Let_def split: sum.splits if_splits)
  show "num_cores tm' = num_cores tm" "owner_core tm' = owner_core tm" "tmd_partition_count m = count" "get_topic tm name = None"
    using r by (simp_all add: get_topic_def)
  show "\<exists>topic new. topics tm' = (name, topic) # topics tm \<and> replicas tm' = replicas tm @ new \<and> topic_meta topic = m \<and>
       (\<forall>x \<in> set new. rx_topic x = name) \<and>
       (\<forall>pid. (topic_partitions topic pid \<noteq> None) = (0 \<le> pid \<and> pid < count \<and> owns_partition tm pid))"
    using open_partitions_spec [OF o] r by (auto simp: new_topic_def partition_ids_def)
qed

lemma create_topic_fails: "create_topic cr dk now name count c rf tm = (tm', Inl e) \<Longrightarrow> tm' = tm"
  by (auto simp: create_topic_def Let_def split: sum.splits if_splits)

text \<open>Deleting the topic that was just created gives the manager back.\<close>

lemma delete_created:
  assumes i: "manager_inv tm" and c: "create_topic cr dk now name count c rf tm = (tm', Inr m)"
    and d: "delete_topic rm name tm' = (tm'', dirs, r)"
  shows "tm'' = tm" "dirs = map (Pair name) (filter (owns_partition tm) (partition_ids count))"
proof -
  obtain topic new where s: "topics tm' = (name, topic) # topics tm" "replicas tm' = replicas tm @ new" "topic_meta topic = m"
    "\<forall>x \<in> set new. rx_topic x = name" using create_topic_spec(5) [OF c] by blast
  have n: "map_of (topics tm) name = None" using create_topic_spec(4) [OF c] by (simp add: get_topic_def)
  have t: "tm' = tm\<lparr> topics := topics tm', replicas := replicas tm' \<rparr>"
    using c by (auto simp: create_topic_def Let_def split: sum.splits if_splits)
  have "rx_topic x \<noteq> name" if "x \<in> set (replicas tm)" for x using i that n by (auto simp: manager_inv_def)
  then have "filter (\<lambda>x. rx_topic x \<noteq> name) (replicas tm') = replicas tm"
    using s(2,4) by (auto simp: filter_id_conv filter_empty_conv)
  moreover have "AList.delete name (topics tm') = topics tm"
    using s(1) n by (simp add: delete_idem map_of_eq_None_iff)
  ultimately have "tm'' = tm'\<lparr> replicas := replicas tm, topics := topics tm \<rparr>"
    using d s(1) by (auto simp: delete_topic_def Let_def)
  also have "\<dots> = tm" by (subst t) (cases tm, simp)
  finally show "tm'' = tm" .
  have "owns_partition tm' = owns_partition tm" using create_topic_spec(1,2) [OF c] by (simp add: owns_partition_def fun_eq_iff)
  then show "dirs = map (Pair name) (filter (owns_partition tm) (partition_ids count))"
    using d s(1,3) create_topic_spec(3) [OF c] by (auto simp: delete_topic_def Let_def)
qed


lemma create_on_cores_ok:
  "create_on_cores cr dk rm now name count c rf tms = (tms', dirs, Inr m) \<Longrightarrow>
   length tms' = length tms \<and> dirs = [] \<and>
   (\<forall>i < length tms. \<exists>m. create_topic cr dk now name count c rf (tms ! i) = (tms' ! i, Inr m))"
proof (induction tms arbitrary: tms' dirs m)
  case (Cons tm tms)
  obtain a n b ds x where s: "create_topic cr dk now name count c rf tm = (a, Inr n)"
    "create_on_cores cr dk rm now name count c rf tms = (b, ds, Inr x)" "tms' = a # b" "dirs = ds"
    using Cons.prems by (auto split: prod.splits sum.splits)
  show ?case using Cons.IH [OF s(2)] s(1,3,4) by (auto simp: nth_Cons split: nat.split)
qed simp

lemma create_on_cores_fails:
  "create_on_cores cr dk rm now name count c rf tms = (tms', dirs, Inl e) \<Longrightarrow> \<forall>tm \<in> set tms. manager_inv tm \<Longrightarrow> tms' = tms"
proof (induction tms arbitrary: tms' dirs)
  case (Cons tm tms)
  obtain a r where a: "create_topic cr dk now name count c rf tm = (a, r)" by fastforce
  show ?case
  proof (cases r)
    case (Inl x)
    then show ?thesis using Cons.prems(1) a create_topic_fails [of cr dk now name count c rf tm a x] by auto
  next
    case (Inr m)
    obtain b ds where b: "create_on_cores cr dk rm now name count c rf tms = (b, ds, Inl e)"
      using Cons.prems(1) a Inr by (auto split: prod.splits sum.splits)
    obtain k ds' q where k: "delete_topic rm name a = (k, ds', q)" by (metis prod_cases3)
    have "k = tm" using delete_created(1) [OF _ _ k] Cons.prems(2) a Inr by simp
    then show ?thesis using Cons.prems a Inr b k Cons.IH [OF b] by auto
  qed
qed simp

text \<open>
  Creating a topic on all cores is all or nothing, and gives every partition one owner.  When a core refuses or fails, the managers of all
  cores are as before.  Otherwise every partition of the topic, and no other, is open on exactly one core, the one to which the router sends
  its requests (\<open>core_of\<close>), and the partitions of other topics are untouched.
\<close>

theorem create_on_all_cores:
  assumes "per_core tms" "\<forall>tm \<in> set tms. manager_inv tm" "create_on_cores cr dk rm now name count c rf tms = (tms', dirs, r)"
  shows "case r of
      Inl e \<Rightarrow> tms' = tms
    | Inr _ \<Rightarrow> per_core tms' \<and> length tms' = length tms \<and> dirs = [] \<and> (\<forall>i pid. i < length tms \<longrightarrow>
        (find_partition (tms' ! i) name pid \<noteq> None) = (0 \<le> pid \<and> pid < count \<and> i = core_of (length tms) pid) \<and>
        (\<forall>other. other \<noteq> name \<longrightarrow> find_partition (tms' ! i) other pid = find_partition (tms ! i) other pid))"
proof (cases r)
  case (Inl e)
  then show ?thesis using create_on_cores_fails assms(2,3) by auto
next
  case (Inr m)
  have ok: "length tms' = length tms" "dirs = []" "\<And>i. i < length tms \<Longrightarrow> \<exists>m. create_topic cr dk now name count c rf (tms ! i) = (tms' ! i, Inr m)"
    using create_on_cores_ok assms(3) Inr by blast+
  have core: "num_cores (tms' ! i) = length tms \<and> owner_core (tms' ! i) = i \<and>
      (find_partition (tms' ! i) name pid \<noteq> None) = (0 \<le> pid \<and> pid < count \<and> i = core_of (length tms) pid) \<and>
      (other \<noteq> name \<longrightarrow> find_partition (tms' ! i) other pid = find_partition (tms ! i) other pid)" if i: "i < length tms" for i pid other
  proof -
    obtain m where m: "create_topic cr dk now name count c rf (tms ! i) = (tms' ! i, Inr m)" using ok(3) [OF i] by blast
    obtain topic where t: "topics (tms' ! i) = (name, topic) # topics (tms ! i)"
      "\<forall>pid. (topic_partitions topic pid \<noteq> None) = (0 \<le> pid \<and> pid < count \<and> owns_partition (tms ! i) pid)"
      using create_topic_spec(5) [OF m] by blast
    have "num_cores (tms ! i) = length tms" "owner_core (tms ! i) = i" using assms(1) i by (auto simp: per_core_def)
    then show ?thesis using t create_topic_spec(1,2) [OF m]
      by (auto simp: find_partition_def get_topic_def owns_partition_def)
  qed
  then show ?thesis using Inr ok(1,2) assms(1) by (auto simp: per_core_def)
qed

text \<open>New managers; a topic of three partitions on two cores.\<close>

definition fresh_files :: disk where
  "fresh_files = (\<lambda>name pid. \<lparr> pf_dir = [], pf_env = sample_env, pf_envs = (\<lambda>_. sample_env), pf_raft_meta = Inr empty_file,
     pf_raft_snapshot = Inr empty_file, pf_raft_state = Inr empty_file \<rparr>)"

definition sample_managers :: "TopicManager list" where
  "sample_managers = new_catalog 2 0 sample_config [] 0 None"

lemma sample_managers_ok: "per_core sample_managers" "\<forall>tm \<in> set sample_managers. manager_inv tm" "length sample_managers = 2"
proof -
  have m: "sample_managers = [new_manager 2 0 0 sample_config [] 0 None, new_manager 2 1 0 sample_config [] 0 None]"
    by (simp add: sample_managers_def new_catalog_def upto.simps)
  show "per_core sample_managers" "\<forall>tm \<in> set sample_managers. manager_inv tm" "length sample_managers = 2"
    unfolding m by (auto simp: per_core_def new_manager_def manager_inv_def less_Suc_eq numeral_2_eq_2)
qed

lemma open_fresh:
  "tm_encryption_key tm = None \<Longrightarrow> \<exists>l. open_partition no_crypto fresh_files tm name c False pid = Inr (LocalPartition (new_partition l (\<lambda>_. sample_env)), [])"
  by (simp add: open_partition_def fresh_files_def plog_open_def create_segment_def segment_create_def log_config_def sample_env_def
      index_open_def file_size_def empty_file_def) (rule exI, rule refl)

lemma create_fresh:
  assumes "tm_encryption_key tm = None" "validate_topic_name name = Inr ()" "0 < count" "map_of (topics tm) name = None"
  shows "\<exists>tm' m. create_topic no_crypto fresh_files now name count c 1 tm = (tm', Inr m)"
proof -
  have "\<exists>r. open_partitions no_crypto fresh_files tm name c False pids t rs = Inr r" for pids t rs
  proof (induction pids arbitrary: t rs)
    case (Cons pid pids)
    then show ?case using open_fresh [OF assms(1), of name c pid] by auto
  qed simp
  then obtain t rs where "open_partitions no_crypto fresh_files tm name c False (partition_ids count)
      (new_topic \<lparr> tmd_name = name, tmd_partition_count = count, tmd_replication_factor = 1, tmd_config = c, tmd_created_at_ms = now \<rparr>) [] = Inr (t, rs)"
    by fastforce
  then show ?thesis using assms by (simp add: create_topic_def Let_def)
qed

lemma create_on_cores_fresh:
  "\<forall>tm \<in> set tms. tm_encryption_key tm = None \<and> map_of (topics tm) name = None \<Longrightarrow> validate_topic_name name = Inr () \<Longrightarrow> 0 < count \<Longrightarrow>
   \<exists>tms' dirs m. create_on_cores no_crypto fresh_files rm now name count c 1 tms = (tms', dirs, Inr m)"
proof (induction tms)
  case (Cons tm tms)
  then show ?case using create_fresh [of tm name count now c] by auto
qed simp

theorem create_on_all_cores_witness:
  "\<exists>tms' r. create_on_cores no_crypto fresh_files (\<lambda>_ _. True) 0 (ascii ''jobs'') 3 default_topic_config 1 sample_managers = (tms', [], Inr r) \<and>
     find_partition (tms' ! 1) (ascii ''jobs'') 1 \<noteq> None \<and> find_partition (tms' ! 0) (ascii ''jobs'') 1 = None \<and>
     find_partition (tms' ! 0) (ascii ''jobs'') 2 \<noteq> None"
proof -
  let ?c = "create_on_cores no_crypto fresh_files (\<lambda>_ _. True) 0 (ascii ''jobs'') 3 default_topic_config 1 sample_managers"
  obtain tms' dirs r where c: "?c = (tms', dirs, r)" by (metis prod_cases3)
  have v: "validate_topic_name (ascii ''jobs'') = Inr ()" by code_simp
  have "\<forall>tm \<in> set sample_managers. tm_encryption_key tm = None \<and> map_of (topics tm) (ascii ''jobs'') = None"
    by (auto simp: sample_managers_def new_catalog_def new_manager_def Let_def)
  from create_on_cores_fresh [OF this v, of 3 "\<lambda>_ _. True" 0 default_topic_config] obtain x where r: "r = Inr x" using c by auto
  have k: "core_of 2 1 = 1" "core_of 2 2 = 0" by (simp_all add: core_of_def)
  have "dirs = []" and o: "\<And>i pid. i < 2 \<Longrightarrow> (find_partition (tms' ! i) (ascii ''jobs'') pid \<noteq> None) = (0 \<le> pid \<and> pid < 3 \<and> i = core_of 2 pid)"
    using create_on_all_cores [OF sample_managers_ok(1,2) c] unfolding r sample_managers_ok(3) by (simp_all del: ascii_simps)
  have "find_partition (tms' ! 1) (ascii ''jobs'') 1 \<noteq> None" "find_partition (tms' ! 0) (ascii ''jobs'') 1 = None"
    "find_partition (tms' ! 0) (ascii ''jobs'') 2 \<noteq> None"
    using o [of 1 1] o [of 0 1] o [of 0 2] k by (simp_all del: ascii_simps not_None_eq)
  then show ?thesis using c r \<open>dirs = []\<close> by blast
qed


text \<open>
  The directories that the rollback removes are those of the cores before the one that failed, whatever they held: a topic with data on disk,
  created again when the node starts, loses the data of those cores when another core cannot open its partitions.
\<close>

lemma rollback_removes_data:
  assumes "create_on_cores cr dk rm now name count c rf (tm # tms) = (tms', dirs, Inl e)" "manager_inv tm"
    "create_topic cr dk now name count c rf tm = (tm', Inr m)" "0 \<le> pid" "pid < count" "owns_partition tm pid"
  shows "(name, pid) \<in> set dirs"
proof -
  obtain b ds where b: "create_on_cores cr dk rm now name count c rf tms = (b, ds, Inl e)"
    using assms(1,3) by (auto split: prod.splits sum.splits)
  obtain k ds' q where k: "delete_topic rm name tm' = (k, ds', q)" by (metis prod_cases3)
  show ?thesis using assms(1,3-6) b k delete_created(2) [OF assms(2,3) k] by (auto simp: partition_ids_def)
qed

text \<open>Deleting a topic on all cores removes each of its directories once.\<close>

lemma delete_on_cores:
  "\<forall>tm \<in> set tms. \<exists>topic. map_of (topics tm) name = Some topic \<and> tmd_partition_count (topic_meta topic) = count \<Longrightarrow>
   delete_topic_on_cluster rm name tms = (tms', dirs, r) \<Longrightarrow>
   dirs = concat (map (\<lambda>tm. map (Pair name) (filter (owns_partition tm) (partition_ids count))) tms) \<and>
   (\<forall>tm \<in> set tms'. get_topic tm name = None)"
proof (induction tms arbitrary: tms' dirs r)
  case (Cons tm tms)
  obtain a ds q where a: "delete_topic rm name tm = (a, ds, q)" by (metis prod_cases3)
  obtain b es p where b: "delete_topic_on_cluster rm name tms = (b, es, p)" by (metis prod_cases3)
  have "ds = map (Pair name) (filter (owns_partition tm) (partition_ids count))" "get_topic a name = None"
    using a Cons.prems(1) by (auto simp: delete_topic_def Let_def get_topic_def delete_conv)
  then show ?case using Cons.IH [OF _ b] Cons.prems a b by auto
qed simp

lemma delete_once:
  assumes "per_core tms" "\<forall>tm \<in> set tms. \<exists>topic. map_of (topics tm) name = Some topic \<and> tmd_partition_count (topic_meta topic) = count"
    "delete_topic_on_cluster rm name tms = (tms', dirs, r)"
  shows "distinct dirs" "set dirs = {(name, pid) |pid. 0 \<le> pid \<and> pid < count}"
proof -
  have d: "dirs = concat (map (\<lambda>tm. map (Pair name) (filter (owns_partition tm) (partition_ids count))) tms)"
    using delete_on_cores [OF assms(2,3)] by simp
  have o: "owns_partition (tms ! i) pid \<longleftrightarrow> core_of (length tms) pid = i" if "i < length tms" for i pid
    using assms(1) that by (auto simp: per_core_def owns_partition_def)
  have ps: "distinct (partition_ids count)" "set (partition_ids count) = {0..<count}" by (auto simp: partition_ids_def)
  have inj: "distinct (map (Pair name) (filter (owns_partition tm) (partition_ids count)))" for tm
    using ps(1) by (simp add: distinct_map inj_on_def)
  have c: "core_of (length tms) pid < length tms" for pid using assms(1) by (simp add: per_core_def core_of_def)
  show "set dirs = {(name, pid) |pid. 0 \<le> pid \<and> pid < count}"
  proof -
    have "(\<exists>tm \<in> set tms. owns_partition tm pid)" for pid
      using c [of pid] o [OF c [of pid], of pid] by (intro bexI [of _ "tms ! core_of (length tms) pid"]) auto
    then show ?thesis using ps(2) by (fastforce simp: d)
  qed
  have disj: "set (map (Pair name) (filter (owns_partition (tms ! i)) (partition_ids count))) \<inter>
      set (map (Pair name) (filter (owns_partition (tms ! j)) (partition_ids count))) = {}" if "i < length tms" "j < length tms" "i \<noteq> j" for i j
    using o [OF that(1)] o [OF that(2)] that(3) by auto
  have "distinct (concat (map (\<lambda>tm. map (Pair name) (filter (owns_partition tm) (partition_ids count))) ts))"
    if "\<And>i j. i < length ts \<Longrightarrow> j < length ts \<Longrightarrow> i \<noteq> j \<Longrightarrow>
      set (map (Pair name) (filter (owns_partition (ts ! i)) (partition_ids count))) \<inter>
      set (map (Pair name) (filter (owns_partition (ts ! j)) (partition_ids count))) = {}" for ts
    using that
  proof (induction ts)
    case (Cons t ts)
    have "set (map (Pair name) (filter (owns_partition t) (partition_ids count))) \<inter>
      set (map (Pair name) (filter (owns_partition u) (partition_ids count))) = {}" if "u \<in> set ts" for u
      using that Cons.prems [of 0 "Suc _"] by (auto simp: in_set_conv_nth)
    moreover have "distinct (concat (map (\<lambda>tm. map (Pair name) (filter (owns_partition tm) (partition_ids count))) ts))"
      by (rule Cons.IH) (use Cons.prems [of "Suc _" "Suc _"] in auto)
    ultimately show ?case using inj [of t] by auto
  qed simp
  then show "distinct dirs" using disj unfolding d by blast
qed

end
