(* ===== verification/Consumer_Group.thy ===== *)
theory Consumer_Group
  imports Strings "HOL-Library.AList"
begin

text \<open>
  Consumer groups (\<^verbatim>\<open>src/src/broker/consumer_group.cpp\<close>, \<^verbatim>\<open>group_coordinator.cpp\<close>, \<^verbatim>\<open>group_catalog.cpp\<close>) and the committed
  offsets (\<^verbatim>\<open>offset_manager.cpp\<close>).  The membership of a group is a state machine whose inputs are the relation
  \<open>group_step\<close>; hash maps are association lists, times are milliseconds.  The lemmas show the
  invariant of the machine, that generations only grow, and that a rebalance in which every member takes part
  ends in a stable group where each member reads the assignment that the leader gave it.
\<close>


section \<open>The state of a group\<close>

datatype GroupState = EmptyGroup | PreparingRebalance | CompletingRebalance | Stable | Dead

definition group_state_name :: "GroupState \<Rightarrow> string" where
  "group_state_name s =
     (case s of EmptyGroup \<Rightarrow> ''Empty'' | PreparingRebalance \<Rightarrow> ''PreparingRebalance''
      | CompletingRebalance \<Rightarrow> ''CompletingRebalance'' | Stable \<Rightarrow> ''Stable'' | Dead \<Rightarrow> ''Dead'')"

datatype HeartbeatStatus = HeartbeatOk | HeartbeatRebalance

record MemberInfo =
  mi_member_id :: bytes
  mi_subscription :: bytes

record MemberAssignment =
  ma_member_id :: bytes
  ma_assignment :: bytes

record JoinResult =
  jr_member_id :: bytes
  jr_generation :: int
  jr_leader_id :: bytes
  jr_is_leader :: bool
  jr_members :: "MemberInfo list"

record SyncResult =
  sr_generation :: int
  sr_assigned :: bool
  sr_assignment :: bytes

record Member =
  subscription :: bytes
  assignment :: bytes
  session_timeout :: int
  last_seen :: int
  joined_round :: bool

record ConsumerGroup =
  group_id :: bytes
  group_state :: GroupState
  generation :: int
  leader_id :: bytes
  group_members :: "(bytes \<times> Member) list"
  member_seq :: "64 word"

definition new_group :: "bytes \<Rightarrow> ConsumerGroup" where
  "new_group gid = \<lparr> group_id = gid, group_state = EmptyGroup, generation = 0, leader_id = [], group_members = [], member_seq = 0 \<rparr>"

text \<open>\<open>members_[id]\<close> of a new key.\<close>

definition default_member :: Member where
  "default_member = \<lparr> subscription = [], assignment = [], session_timeout = 0, last_seen = 0, joined_round = False \<rparr>"

definition find_member :: "ConsumerGroup \<Rightarrow> bytes \<Rightarrow> Member option" where
  "find_member g mid = map_of (group_members g) mid"

definition put_member :: "bytes \<Rightarrow> Member \<Rightarrow> ConsumerGroup \<Rightarrow> ConsumerGroup" where
  "put_member mid m g = g\<lparr> group_members := AList.update mid m (group_members g) \<rparr>"

definition map_members :: "(Member \<Rightarrow> Member) \<Rightarrow> ConsumerGroup \<Rightarrow> ConsumerGroup" where
  "map_members f g = g\<lparr> group_members := map (\<lambda>(mid, m). (mid, f m)) (group_members g) \<rparr>"


section \<open>Operations of a group\<close>

definition begin_rebalance :: "ConsumerGroup \<Rightarrow> ConsumerGroup" where
  "begin_rebalance g =
     map_members (\<lambda>m. m\<lparr> joined_round := False \<rparr>) (g\<lparr> group_state := PreparingRebalance, leader_id := [] \<rparr>)"

definition complete_if_ready :: "ConsumerGroup \<Rightarrow> ConsumerGroup" where
  "complete_if_ready g =
     (if group_state g \<noteq> PreparingRebalance \<or> group_members g = [] then g
      else if \<not> (\<forall>(mid, m) \<in> set (group_members g). joined_round m) then g
      else map_members (\<lambda>m. m\<lparr> assignment := [] \<rparr>) (g\<lparr> group_state := CompletingRebalance, generation := generation g + 1 \<rparr>))"

definition next_member_id :: "ConsumerGroup \<Rightarrow> ConsumerGroup \<times> bytes" where
  "next_member_id g =
     (let s = member_seq g + 1 in (g\<lparr> member_seq := s \<rparr>, group_id g @ ascii ''-'' @ to_string (unat s)))"

definition members_list :: "ConsumerGroup \<Rightarrow> MemberInfo list" where
  "members_list g =
     sort_key mi_member_id (map (\<lambda>(mid, m). \<lparr> mi_member_id = mid, mi_subscription = subscription m \<rparr>) (group_members g))"

definition group_join :: "int \<Rightarrow> bytes \<Rightarrow> bytes \<Rightarrow> int \<Rightarrow> ConsumerGroup \<Rightarrow> ConsumerGroup \<times> JoinResult expected" where
  "group_join now member_id sub timeout g =
     (if group_state g = Dead then (g, Inl Unsupported)
      else
        let (g, mid) = (if member_id = [] then next_member_id g else (g, member_id));
            g = (if group_state g = Stable \<or> group_state g = EmptyGroup then begin_rebalance g else g);
            m = (case find_member g mid of None \<Rightarrow> default_member | Some m \<Rightarrow> m);
            g = put_member mid (m\<lparr> subscription := sub, session_timeout := timeout, last_seen := now, joined_round := True \<rparr>) g;
            g = (if leader_id g = [] then g\<lparr> leader_id := mid \<rparr> else g);
            g = complete_if_ready g in
        (g, Inr \<lparr> jr_member_id = mid, jr_generation = generation g, jr_leader_id = leader_id g, jr_is_leader = (mid = leader_id g),
                  jr_members = (if mid = leader_id g \<and> group_state g = CompletingRebalance then members_list g else []) \<rparr>))"

text \<open>One entry of the leader's distribution: unknown members are skipped.\<close>

definition assign_entry :: "MemberAssignment \<Rightarrow> ConsumerGroup \<Rightarrow> ConsumerGroup" where
  "assign_entry e g =
     (case find_member g (ma_member_id e) of
        None \<Rightarrow> g
      | Some m \<Rightarrow> put_member (ma_member_id e) (m\<lparr> assignment := ma_assignment e \<rparr>) g)"

definition group_sync ::
  "int \<Rightarrow> bytes \<Rightarrow> int \<Rightarrow> MemberAssignment list \<Rightarrow> ConsumerGroup \<Rightarrow> ConsumerGroup \<times> SyncResult expected" where
  "group_sync now mid gen assignments g =
     (if group_state g = Dead then (g, Inl Unsupported)
      else case find_member g mid of
             None \<Rightarrow> (g, Inl NotFound)
           | Some m \<Rightarrow>
               if gen \<noteq> generation g then (g, Inl InvalidArgument)
               else
                 let g = put_member mid (m\<lparr> last_seen := now \<rparr>) g in
                 if group_state g = Stable
                 then (g, Inr \<lparr> sr_generation = generation g, sr_assigned = True, sr_assignment = assignment m \<rparr>)
                 else if group_state g \<noteq> CompletingRebalance
                 then (g, Inr \<lparr> sr_generation = generation g, sr_assigned = False, sr_assignment = [] \<rparr>)
                 else if mid = leader_id g
                 then let g = (fold assign_entry assignments g)\<lparr> group_state := Stable \<rparr> in
                      (g, Inr \<lparr> sr_generation = generation g, sr_assigned = True,
                                sr_assignment = (case find_member g mid of None \<Rightarrow> [] | Some m \<Rightarrow> assignment m) \<rparr>)
                 else (g, Inr \<lparr> sr_generation = generation g, sr_assigned = False, sr_assignment = [] \<rparr>))"

definition group_heartbeat :: "int \<Rightarrow> bytes \<Rightarrow> int \<Rightarrow> ConsumerGroup \<Rightarrow> ConsumerGroup \<times> HeartbeatStatus expected" where
  "group_heartbeat now mid gen g =
     (if group_state g = Dead then (g, Inl Unsupported)
      else case find_member g mid of
             None \<Rightarrow> (g, Inl NotFound)
           | Some m \<Rightarrow>
               let g = put_member mid (m\<lparr> last_seen := now \<rparr>) g in
               if group_state g = PreparingRebalance \<or> group_state g = CompletingRebalance then (g, Inr HeartbeatRebalance)
               else if gen \<noteq> generation g then (g, Inl InvalidArgument)
               else (g, Inr HeartbeatOk))"

text \<open>After members left: the empty group, or a new round.\<close>

definition membership_changed :: "ConsumerGroup \<Rightarrow> ConsumerGroup" where
  "membership_changed g =
     (if group_members g = [] then g\<lparr> group_state := EmptyGroup, leader_id := [] \<rparr> else begin_rebalance g)"

definition group_leave :: "bytes \<Rightarrow> ConsumerGroup \<Rightarrow> ConsumerGroup \<times> unit expected" where
  "group_leave mid g =
     (if group_state g = Dead then (g, Inl Unsupported)
      else case find_member g mid of
             None \<Rightarrow> (g, Inl NotFound)
           | Some m \<Rightarrow> (membership_changed (g\<lparr> group_members := AList.delete mid (group_members g) \<rparr>), Inr ()))"

definition expired :: "int \<Rightarrow> Member \<Rightarrow> bool" where
  "expired now m \<longleftrightarrow> now - last_seen m > session_timeout m"

definition group_tick :: "int \<Rightarrow> ConsumerGroup \<Rightarrow> ConsumerGroup" where
  "group_tick now g =
     (if group_state g = Dead then g
      else if \<not> (\<exists>(mid, m) \<in> set (group_members g). expired now m) then g
      else membership_changed (g\<lparr> group_members := filter (\<lambda>(mid, m). \<not> expired now m) (group_members g) \<rparr>))"

definition group_contains :: "ConsumerGroup \<Rightarrow> bytes \<Rightarrow> bool" where
  "group_contains g mid \<longleftrightarrow> find_member g mid \<noteq> None"


section \<open>The inputs of a group\<close>

inductive group_step :: "ConsumerGroup \<Rightarrow> ConsumerGroup \<Rightarrow> bool" where
  step_join: "group_step g (fst (group_join now mid sub timeout g))"
| step_sync: "group_step g (fst (group_sync now mid gen assignments g))"
| step_heartbeat: "group_step g (fst (group_heartbeat now mid gen g))"
| step_leave: "group_step g (fst (group_leave mid g))"
| step_tick: "group_step g (group_tick now g)"

inductive_cases group_stepE: "group_step g g'"

text \<open>
  In a round the leader is the first member that joined, and somebody is missing; a completed round has everybody and a leader, and its
  assignments are empty until the leader distributes them.
\<close>

definition phase_inv :: "ConsumerGroup \<Rightarrow> bool" where
  "phase_inv g \<longleftrightarrow>
     (case group_state g of
        EmptyGroup \<Rightarrow> group_members g = [] \<and> leader_id g = []
      | PreparingRebalance \<Rightarrow>
          (\<exists>mid m. find_member g mid = Some m \<and> \<not> joined_round m) \<and>
          (if leader_id g = [] then \<forall>mid m. find_member g mid = Some m \<longrightarrow> \<not> joined_round m
           else \<exists>m. find_member g (leader_id g) = Some m \<and> joined_round m)
      | CompletingRebalance \<Rightarrow>
          find_member g (leader_id g) \<noteq> None \<and> (\<forall>mid m. find_member g mid = Some m \<longrightarrow> joined_round m \<and> assignment m = [])
      | Stable \<Rightarrow> find_member g (leader_id g) \<noteq> None \<and> (\<forall>mid m. find_member g mid = Some m \<longrightarrow> joined_round m)
      | Dead \<Rightarrow> False)"

definition group_inv :: "ConsumerGroup \<Rightarrow> bool" where
  "group_inv g \<longleftrightarrow> distinct (map fst (group_members g)) \<and> find_member g [] = None \<and> phase_inv g"

lemma group_state_simps [simp]:
  "group_state (put_member mid m g) = group_state g" "leader_id (put_member mid m g) = leader_id g"
  "generation (put_member mid m g) = generation g" "group_state (map_members f g) = group_state g"
  "leader_id (map_members f g) = leader_id g" "generation (map_members f g) = generation g"
  by (simp_all add: put_member_def map_members_def)

lemma find_member_simps [simp]:
  "find_member (put_member mid m g) q = (if q = mid then Some m else find_member g q)"
  "find_member (map_members f g) q = map_option f (find_member g q)"
  "find_member (g\<lparr> group_state := s \<rparr>) q = find_member g q" "find_member (g\<lparr> leader_id := l \<rparr>) q = find_member g q"
  "find_member (g\<lparr> generation := n \<rparr>) q = find_member g q" "find_member (g\<lparr> member_seq := w \<rparr>) q = find_member g q"
  by (simp_all add: find_member_def put_member_def map_members_def update_conv map_of_map)

lemma distinct_members [simp]:
  "distinct (map fst (group_members g)) \<Longrightarrow> distinct (map fst (group_members (put_member mid m g)))"
  "distinct (map fst (group_members (map_members f g))) = distinct (map fst (group_members g))"
  by (simp_all add: put_member_def map_members_def distinct_update case_prod_beta comp_def)

lemma no_members: "group_members g = [] \<longleftrightarrow> (\<forall>q. find_member g q = None)"
  by (auto simp: find_member_def) (metis list.exhaust map_of.simps(2) option.distinct(1) prod.exhaust fun_upd_same prod.sel)

lemma all_members:
  "distinct (map fst (group_members g)) \<Longrightarrow> (\<forall>(mid, m) \<in> set (group_members g). P m) \<longleftrightarrow> (\<forall>mid m. find_member g mid = Some m \<longrightarrow> P m)"
  by (auto simp: find_member_def dest: map_of_SomeD)

lemma to_id_ne: "snd (next_member_id g) \<noteq> []"
  by (simp add: next_member_id_def Let_def)


lemma begin_rebalance_inv:
  assumes "distinct (map fst (group_members g))" "find_member g [] = None" "group_members g \<noteq> []"
  shows "group_inv (begin_rebalance g)"
proof -
  obtain q m where "find_member g q = Some m" using assms(3) by (auto simp: no_members)
  then show ?thesis using assms(1,2)
    by (auto simp: group_inv_def phase_inv_def begin_rebalance_def intro: exI [of _ q])
qed

lemma membership_changed_inv:
  "distinct (map fst (group_members g)) \<Longrightarrow> find_member g [] = None \<Longrightarrow> group_inv (membership_changed g)"
  using begin_rebalance_inv [of g] by (auto simp: membership_changed_def group_inv_def phase_inv_def find_member_def)

text \<open>The state that \<open>join\<close> passes to \<open>complete_if_ready\<close>.\<close>

definition joined_inv :: "ConsumerGroup \<Rightarrow> bool" where
  "joined_inv g \<longleftrightarrow> distinct (map fst (group_members g)) \<and> find_member g [] = None \<and>
     (group_state g = PreparingRebalance \<and> (\<exists>m. find_member g (leader_id g) = Some m \<and> joined_round m) \<or>
      group_state g = CompletingRebalance \<and> phase_inv g)"

lemma complete_inv:
  assumes "joined_inv g"
  shows "group_inv (complete_if_ready g)"
    "group_state g = CompletingRebalance \<Longrightarrow> complete_if_ready g = g"
    "group_state g = PreparingRebalance \<Longrightarrow>
       (if \<forall>mid m. find_member g mid = Some m \<longrightarrow> joined_round m
        then group_state (complete_if_ready g) = CompletingRebalance \<and> generation (complete_if_ready g) = generation g + 1
        else complete_if_ready g = g)"
proof -
  have d: "distinct (map fst (group_members g))" using assms by (simp add: joined_inv_def)
  have ne: "group_members g \<noteq> []" if "group_state g = PreparingRebalance" using assms that by (auto simp: joined_inv_def no_members)
  have eq: "complete_if_ready g = (if group_state g = PreparingRebalance \<and> (\<forall>mid m. find_member g mid = Some m \<longrightarrow> joined_round m)
      then map_members (\<lambda>m. m\<lparr> assignment := [] \<rparr>) (g\<lparr> group_state := CompletingRebalance, generation := generation g + 1 \<rparr>) else g)"
    using ne unfolding complete_if_ready_def all_members [OF d] by auto
  show "group_inv (complete_if_ready g)"
  proof (cases "group_state g = PreparingRebalance \<and> (\<forall>mid m. find_member g mid = Some m \<longrightarrow> joined_round m)")
    case True
    then show ?thesis using assms unfolding eq by (auto simp: group_inv_def phase_inv_def joined_inv_def)
  next
    case False
    then have c: "complete_if_ready g = g" unfolding eq by auto
    show ?thesis
    proof (cases "group_state g = PreparingRebalance")
      case True
      then obtain m where m: "find_member g (leader_id g) = Some m" "joined_round m" using assms by (auto simp: joined_inv_def)
      have "leader_id g \<noteq> []" using assms m(1) by (auto simp: joined_inv_def)
      then show ?thesis using assms False True m unfolding c by (auto simp: group_inv_def phase_inv_def joined_inv_def)
    next
      case False
      then show ?thesis using assms unfolding c by (auto simp: group_inv_def joined_inv_def)
    qed
  qed
  show "group_state g = CompletingRebalance \<Longrightarrow> complete_if_ready g = g" by (simp add: eq)
  show "group_state g = PreparingRebalance \<Longrightarrow>
       (if \<forall>mid m. find_member g mid = Some m \<longrightarrow> joined_round m
        then group_state (complete_if_ready g) = CompletingRebalance \<and> generation (complete_if_ready g) = generation g + 1
        else complete_if_ready g = g)"
    by (auto simp: eq)
qed

text \<open>\<open>join\<close> in two steps: the state before \<open>complete_if_ready\<close>, and what it is.\<close>

definition join_member :: "int \<Rightarrow> bytes \<Rightarrow> bytes \<Rightarrow> int \<Rightarrow> ConsumerGroup \<Rightarrow> ConsumerGroup" where
  "join_member now mid sub timeout g =
     (let g = (if group_state g = Stable \<or> group_state g = EmptyGroup then begin_rebalance g else g);
          m = (case find_member g mid of None \<Rightarrow> default_member | Some m \<Rightarrow> m);
          g = put_member mid (m\<lparr> subscription := sub, session_timeout := timeout, last_seen := now, joined_round := True \<rparr>) g in
      if leader_id g = [] then g\<lparr> leader_id := mid \<rparr> else g)"

lemma group_join_split:
  "group_state g \<noteq> Dead \<Longrightarrow>
   fst (group_join now mid sub timeout g) =
     (case if mid = [] then next_member_id g else (g, mid) of (g, mid) \<Rightarrow> complete_if_ready (join_member now mid sub timeout g))"
  by (simp add: group_join_def join_member_def Let_def case_prod_beta)

lemma join_member_inv:
  assumes i: "group_inv g" and m: "mid \<noteq> []"
  shows "joined_inv (join_member now mid sub timeout g)"
proof -
  have d: "distinct (map fst (group_members g))" "find_member g [] = None" using i by (auto simp: group_inv_def)
  show ?thesis
  proof (cases "group_state g")
    case EmptyGroup
    then show ?thesis using d m
      by (auto simp: join_member_def Let_def joined_inv_def begin_rebalance_def)
  next
    case Stable
    then show ?thesis using d m
      by (auto simp: join_member_def Let_def joined_inv_def begin_rebalance_def)
  next
    case PreparingRebalance
    then show ?thesis using i d m
      by (auto simp: join_member_def Let_def joined_inv_def group_inv_def phase_inv_def)
  next
    case CompletingRebalance
    then have "leader_id g \<noteq> []" using i by (auto simp: group_inv_def phase_inv_def)
    then show ?thesis using i d m CompletingRebalance
      by (auto simp: join_member_def Let_def joined_inv_def group_inv_def phase_inv_def default_member_def split: option.split)
  next
    case Dead
    then show ?thesis using i by (simp add: group_inv_def phase_inv_def)
  qed
qed


lemma join_member_state:
  "generation (join_member now mid sub timeout g) = generation g"
  "group_state (join_member now mid sub timeout g) =
     (if group_state g = Stable \<or> group_state g = EmptyGroup then PreparingRebalance else group_state g)"
  by (simp_all add: join_member_def Let_def begin_rebalance_def)

lemma group_inv_seq: "group_inv (g\<lparr> member_seq := w \<rparr>) = group_inv g"
  by (cases "group_state g") (simp_all add: group_inv_def phase_inv_def)

text \<open>How an input moves state and generation.\<close>

definition moves :: "ConsumerGroup \<Rightarrow> ConsumerGroup \<Rightarrow> bool" where
  "moves g g' \<longleftrightarrow>
     generation g' = generation g + (if group_state g \<noteq> CompletingRebalance \<and> group_state g' = CompletingRebalance then 1 else 0) \<and>
     (group_state g' = Stable \<longrightarrow> group_state g = Stable \<or> group_state g = CompletingRebalance)"

lemma join_step:
  assumes i: "group_inv g"
  shows "group_inv (fst (group_join now mid sub timeout g)) \<and> moves g (fst (group_join now mid sub timeout g))"
proof -
  have live: "group_state g \<noteq> Dead" using i by (auto simp: group_inv_def phase_inv_def)
  obtain h q where h: "(if mid = [] then next_member_id g else (g, mid)) = (h, q)" by fastforce
  have q: "q \<noteq> []" using h to_id_ne [of g] by (auto split: if_splits)
  have h': "group_inv h" "generation h = generation g" "group_state h = group_state g"
    using h i by (auto simp: next_member_id_def Let_def group_inv_seq split: if_splits)
  let ?j = "join_member now q sub timeout h"
  note c = complete_inv [OF join_member_inv [OF h'(1) q], of now sub timeout]
  note s = join_member_state [of now q sub timeout h]
  have "moves g (complete_if_ready ?j)"
  proof (cases "group_state g = CompletingRebalance")
    case True
    then show ?thesis using c(2) s h' by (simp add: moves_def)
  next
    case False
    then have p: "group_state ?j = PreparingRebalance" using s(2) h'(3) live by (cases "group_state g") auto
    show ?thesis using c(3) [OF p] p False s(1) h'(2) unfolding moves_def by (auto split: if_splits)
  qed
  then show ?thesis using c(1) group_join_split [OF live, of now mid sub timeout] h by simp
qed

text \<open>An update of one member that keeps its part in the round.\<close>

lemma put_member_inv:
  assumes "group_inv g" "find_member g q = Some m" "joined_round m' = joined_round m"
    "group_state g = CompletingRebalance \<Longrightarrow> assignment m' = assignment m"
  shows "group_inv (put_member q m' g)"
proof -
  have ne: "group_members g \<noteq> []" using assms(2) by (auto simp: no_members)
  show ?thesis
  proof (cases "group_state g = PreparingRebalance")
    case True
    obtain a x where "find_member g a = Some x" "\<not> joined_round x" using assms(1) True by (auto simp: group_inv_def phase_inv_def)
    then have "\<exists>a x. find_member (put_member q m' g) a = Some x \<and> \<not> joined_round x"
      using assms(2,3) by (cases "a = q") (auto intro: exI [of _ a])
    then show ?thesis using assms(1-3) True by (auto simp: group_inv_def phase_inv_def split: if_splits)
  next
    case False
    then show ?thesis using assms ne by (cases "group_state g") (auto simp: group_inv_def phase_inv_def)
  qed
qed

text \<open>What the leader's distribution holds for a member: its last entry.\<close>

definition share_of :: "bytes \<Rightarrow> MemberAssignment list \<Rightarrow> bytes \<Rightarrow> bytes" where
  "share_of q as a = fold (\<lambda>e a. if ma_member_id e = q then ma_assignment e else a) as a"

lemma assign_entry_find:
  "find_member (assign_entry e g) q =
     (if q = ma_member_id e then map_option (\<lambda>m. m\<lparr> assignment := ma_assignment e \<rparr>) (find_member g q) else find_member g q)"
  by (simp add: assign_entry_def split: option.split)

lemma assign_entries:
  "find_member (fold assign_entry as g) q = map_option (\<lambda>m. m\<lparr> assignment := share_of q as (assignment m) \<rparr>) (find_member g q)"
proof (induction as arbitrary: g)
  case Nil
  then show ?case by (cases "find_member g q") (simp_all add: share_of_def)
next
  case (Cons e as)
  show ?case
  proof (cases "q = ma_member_id e")
    case True
    then show ?thesis using Cons.IH [of "assign_entry e g"] by (cases "find_member g q") (simp_all add: assign_entry_find share_of_def)
  next
    case False
    then show ?thesis using Cons.IH [of "assign_entry e g"] by (simp add: assign_entry_find share_of_def)
  qed
qed

lemma assign_entries_frame:
  "distinct (map fst (group_members g)) \<Longrightarrow> distinct (map fst (group_members (fold assign_entry as g)))"
  "leader_id (fold assign_entry as g) = leader_id g" "generation (fold assign_entry as g) = generation g"
  by (induction as arbitrary: g) (auto simp: assign_entry_def split: option.split)

lemma assign_entries_joined:
  "find_member (fold assign_entry as g) q = Some m' \<Longrightarrow> \<exists>m. find_member g q = Some m \<and> joined_round m' = joined_round m"
  by (cases "find_member g q") (auto simp: assign_entries)

lemma distribute_inv:
  assumes h: "group_inv h" "group_state h = CompletingRebalance"
  shows "group_inv ((fold assign_entry as h)\<lparr> group_state := Stable \<rparr>)"
proof -
  obtain l where "find_member h (leader_id h) = Some l" using h by (auto simp: group_inv_def phase_inv_def)
  moreover have "joined_round m'" if "find_member (fold assign_entry as h) q = Some m'" for q m'
    using assign_entries_joined [OF that] h by (auto simp: group_inv_def phase_inv_def)
  ultimately show ?thesis using h assign_entries_frame(1) [of h as]
    by (simp add: group_inv_def phase_inv_def assign_entries_frame assign_entries)
qed

lemma sync_step:
  assumes i: "group_inv g"
  shows "group_inv (fst (group_sync now mid gen as g)) \<and> moves g (fst (group_sync now mid gen as g))"
proof (cases "find_member g mid")
  case (Some m)
  let ?h = "put_member mid (m\<lparr> last_seen := now \<rparr>) g"
  have h: "group_inv ?h" using put_member_inv [OF i Some] by simp
  then have "group_inv ((fold assign_entry as ?h)\<lparr> group_state := Stable \<rparr>)" if "group_state g = CompletingRebalance"
    using distribute_inv [OF h] that by simp
  then show ?thesis using Some i h by (auto simp: group_sync_def Let_def moves_def assign_entries_frame)
qed (use i in \<open>auto simp: group_sync_def moves_def\<close>)

lemma heartbeat_step:
  assumes i: "group_inv g"
  shows "group_inv (fst (group_heartbeat now mid gen g)) \<and> moves g (fst (group_heartbeat now mid gen g))"
  using i put_member_inv [OF i, of mid] by (auto simp: group_heartbeat_def Let_def moves_def split: option.split)

lemma membership_step:
  "generation (membership_changed g) = generation g" "group_state (membership_changed g) \<in> {EmptyGroup, PreparingRebalance}"
  by (auto simp: membership_changed_def begin_rebalance_def)

lemma leave_step:
  assumes i: "group_inv g"
  shows "group_inv (fst (group_leave mid g)) \<and> moves g (fst (group_leave mid g))"
proof -
  let ?h = "g\<lparr> group_members := AList.delete mid (group_members g) \<rparr>"
  have "group_inv (membership_changed ?h)"
    using i by (intro membership_changed_inv) (auto simp: group_inv_def find_member_def distinct_delete delete_conv)
  then show ?thesis using i membership_step [of ?h] by (auto simp: group_leave_def moves_def split: option.split)
qed

lemma group_tick_step:
  assumes i: "group_inv g"
  shows "group_inv (group_tick now g) \<and> moves g (group_tick now g)"
proof -
  let ?h = "g\<lparr> group_members := filter (\<lambda>(mid, m). \<not> expired now m) (group_members g) \<rparr>"
  have "find_member ?h [] = None" using i by (auto simp: group_inv_def find_member_def map_of_eq_None_iff)
  then have "group_inv (membership_changed ?h)"
    using i by (intro membership_changed_inv) (auto simp: group_inv_def distinct_map_filter)
  then show ?thesis using i membership_step [of ?h] by (auto simp: group_tick_def moves_def)
qed

lemma group_step_inv: "group_step g g' \<Longrightarrow> group_inv g \<Longrightarrow> group_inv g' \<and> moves g g'"
  by (elim group_stepE) (auto simp: join_step sync_step heartbeat_step leave_step group_tick_step)

lemma group_reach_inv: "group_step\<^sup>*\<^sup>* (new_group gid) g \<Longrightarrow> group_inv g"
proof (induction rule: rtranclp_induct)
  case base
  show ?case by (simp add: group_inv_def phase_inv_def new_group_def find_member_def)
next
  case (step g h)
  then show ?case using group_step_inv by blast
qed


text \<open>
  C15: the membership machine.  From a new group, through any inputs: an input keeps the invariant (in a round somebody is missing and the leader is
  a member that joined; when a round is complete everybody joined it and the assignments of the previous one are gone; a stable group has
  a leader and members of the current round only; the group is never dead), and the generation stays or grows by one, exactly when a round completes;
  a group becomes stable only from a completed round.
\<close>

theorem group_membership_invariant:
  assumes "group_step\<^sup>*\<^sup>* (new_group gid) g" "group_step g g'"
  shows "group_inv g' \<and>
    generation g' = generation g + (if group_state g \<noteq> CompletingRebalance \<and> group_state g' = CompletingRebalance then 1 else 0) \<and>
    (group_state g' = Stable \<longrightarrow> group_state g = Stable \<or> group_state g = CompletingRebalance)"
  using group_step_inv [OF assms(2) group_reach_inv [OF assms(1)]] by (simp add: moves_def)

theorem group_membership_invariant_witness:
  "group_inv (fst (group_join 0 [] [] 10 (new_group [103]))) \<and>
   generation (fst (group_join 0 [] [] 10 (new_group [103]))) = 1"
proof -
  have s: "group_state (fst (group_join 0 [] [] 10 (new_group [103]))) = CompletingRebalance" by code_simp
  show ?thesis using group_membership_invariant [OF rtranclp.rtrancl_refl step_join [of "new_group [103]" 0 "[]" "[]" 10]] s
    by (simp add: new_group_def)
qed


section \<open>A rebalance ends\<close>

text \<open>The joins of a round: time, member, subscription and session timeout of each.\<close>

fun join_all :: "(int \<times> bytes \<times> bytes \<times> int) list \<Rightarrow> ConsumerGroup \<Rightarrow> ConsumerGroup" where
  "join_all [] g = g"
| "join_all ((now, mid, sub, timeout) # js) g = join_all js (fst (group_join now mid sub timeout g))"

definition joiners :: "(int \<times> bytes \<times> bytes \<times> int) list \<Rightarrow> bytes set" where
  "joiners js = (\<lambda>(now, mid, sub, timeout). mid) ` set js"

text \<open>The members whose join the current round still needs.\<close>

definition missing :: "ConsumerGroup \<Rightarrow> bytes set" where
  "missing g = {q. \<exists>m. find_member g q = Some m \<and> (group_state g = PreparingRebalance \<longrightarrow> \<not> joined_round m)}"

lemma join_missing:
  fixes now timeout :: int and sub :: bytes
  assumes i: "group_inv g" and m: "mid \<noteq> []" and s: "group_state g \<noteq> CompletingRebalance"
  defines "g' \<equiv> fst (group_join now mid sub timeout g)"
  shows "group_state g' = CompletingRebalance \<and> generation g' = generation g + 1 \<or>
    group_state g' = PreparingRebalance \<and> generation g' = generation g \<and> missing g' \<subseteq> missing g - {mid}"
proof -
  have live: "group_state g \<noteq> Dead" using i by (auto simp: group_inv_def phase_inv_def)
  let ?j = "join_member now mid sub timeout g"
  have g': "g' = complete_if_ready ?j" using group_join_split [OF live] m by (simp add: g'_def)
  have p: "group_state ?j = PreparingRebalance" using s live by (cases "group_state g") (auto simp: join_member_state)
  have "missing ?j \<subseteq> missing g - {mid}"
    using p by (auto simp: missing_def join_member_def Let_def begin_rebalance_def split: if_splits option.splits)
  then show ?thesis
    using complete_inv(3) [OF join_member_inv [OF i m] p] p join_member_state(1) [of now mid sub timeout g]
    unfolding g' by (auto split: if_splits)
qed

lemma join_completing:
  assumes i: "group_inv g" and m: "mid \<noteq> []" and s: "group_state g = CompletingRebalance"
  shows "group_state (fst (group_join now mid sub timeout g)) = CompletingRebalance \<and>
    generation (fst (group_join now mid sub timeout g)) = generation g"
proof -
  have "group_state (join_member now mid sub timeout g) = CompletingRebalance" using s by (simp add: join_member_state)
  then show ?thesis using complete_inv(2) [OF join_member_inv [OF i m], of now sub timeout] group_join_split [of g now mid sub timeout] m s
    by (simp add: join_member_state)
qed

lemma join_all_completes:
  assumes "group_inv g" "[] \<notin> joiners js"
    "group_state g = CompletingRebalance \<and> generation g = n + 1 \<or>
     group_state g \<noteq> CompletingRebalance \<and> generation g = n \<and> missing g \<subseteq> joiners js \<and> (js \<noteq> [] \<or> group_state g = PreparingRebalance)"
  shows "group_inv (join_all js g) \<and> group_state (join_all js g) = CompletingRebalance \<and> generation (join_all js g) = n + 1"
  using assms
proof (induction js arbitrary: g)
  case Nil
  then show ?case by (auto simp: group_inv_def phase_inv_def missing_def joiners_def)
next
  case (Cons j js)
  obtain now mid sub timeout where j: "j = (now, mid, sub, timeout)" by (metis prod_cases4)
  let ?g = "fst (group_join now mid sub timeout g)"
  have m: "mid \<noteq> []" "[] \<notin> joiners js" and sub: "joiners (j # js) = insert mid (joiners js)"
    using Cons.prems(2) by (auto simp: j joiners_def)
  have i: "group_inv ?g" using join_step [OF Cons.prems(1)] by blast
  show ?case
  proof (cases "group_state g = CompletingRebalance")
    case True
    then show ?thesis using join_completing [OF Cons.prems(1) m(1) True] Cons.IH [OF i m(2)] Cons.prems(3) by (simp add: j)
  next
    case False
    then have g: "generation g = n" "missing g \<subseteq> insert mid (joiners js)" using Cons.prems(3) sub by auto
    have "group_state ?g = CompletingRebalance \<and> generation ?g = n + 1 \<or>
        group_state ?g \<noteq> CompletingRebalance \<and> generation ?g = n \<and> missing ?g \<subseteq> joiners js \<and> (js \<noteq> [] \<or> group_state ?g = PreparingRebalance)"
      using join_missing [OF Cons.prems(1) m(1) False, of now sub timeout] g by auto
    then show ?thesis using Cons.IH [OF i m(2)] by (simp add: j)
  qed
qed


lemma leader_sync:
  assumes i: "group_inv h" and c: "group_state h = CompletingRebalance"
  shows "\<exists>g' r. group_sync now (leader_id h) (generation h) as h = (g', Inr r) \<and> group_state g' = Stable \<and> generation g' = generation h \<and>
    (\<forall>q. find_member h q \<noteq> None \<longrightarrow>
      (\<exists>k. group_sync now' q (generation h) bs g' =
             (k, Inr \<lparr> sr_generation = generation h, sr_assigned = True, sr_assignment = share_of q as [] \<rparr>)))"
proof -
  obtain l where l: "find_member h (leader_id h) = Some l" using i c by (auto simp: group_inv_def phase_inv_def)
  let ?g = "(fold assign_entry as (put_member (leader_id h) (l\<lparr> last_seen := now \<rparr>) h))\<lparr> group_state := Stable \<rparr>"
  have e: "assignment m = []" if "find_member h q = Some m" for q m using i c that by (auto simp: group_inv_def phase_inv_def)
  have "\<exists>k. group_sync now' q (generation h) bs ?g =
      (k, Inr \<lparr> sr_generation = generation h, sr_assigned = True, sr_assignment = share_of q as [] \<rparr>)" if q: "find_member h q \<noteq> None" for q
  proof -
    have "\<exists>m. find_member ?g q = Some m \<and> assignment m = share_of q as []"
      using q e l by (cases "q = leader_id h") (auto simp: assign_entries)
    then show ?thesis by (auto simp: group_sync_def Let_def assign_entries_frame)
  qed
  moreover have "\<exists>r. group_sync now (leader_id h) (generation h) as h = (?g, Inr r)"
    using c l by (simp add: group_sync_def Let_def)
  ultimately show ?thesis by (auto simp: assign_entries_frame)
qed

text \<open>
  C16: a rebalance ends.  From any state that inputs can reach and that is no completed round: when every member that the round
  needs joins (in any order, with repetitions, together with new members), the round is complete and has the next generation; when
  then its leader distributes assignments, the group is stable, and each member that synchronises gets the
  last entry that the leader gave for it (nothing, if there is none).
\<close>

theorem rebalance_ends:
  assumes "group_step\<^sup>*\<^sup>* (new_group gid) g" "group_state g \<noteq> CompletingRebalance"
    and "js \<noteq> []" "[] \<notin> joiners js" "missing g \<subseteq> joiners js"
  shows "group_state (join_all js g) = CompletingRebalance \<and> generation (join_all js g) = generation g + 1 \<and>
    (\<exists>g' r. group_sync now (leader_id (join_all js g)) (generation g + 1) as (join_all js g) = (g', Inr r) \<and> group_state g' = Stable \<and>
      (\<forall>q. group_contains (join_all js g) q \<longrightarrow>
        (\<exists>k. group_sync now' q (generation g + 1) bs g' =
               (k, Inr \<lparr> sr_generation = generation g + 1, sr_assigned = True, sr_assignment = share_of q as [] \<rparr>))))"
proof -
  have c: "group_inv (join_all js g)" "group_state (join_all js g) = CompletingRebalance" "generation (join_all js g) = generation g + 1"
    using join_all_completes [of g js "generation g"] group_reach_inv [OF assms(1)] assms(2-5) by auto
  show ?thesis using leader_sync [OF c(1,2), of now as now' bs] c(2,3) by (auto simp: group_contains_def)
qed

definition group_of_two :: ConsumerGroup where
  "group_of_two = fst (group_join 1 [66] [2] 10 (fst (group_join 0 [65] [1] 10 (new_group [103]))))"

definition stable_group :: ConsumerGroup where
  "stable_group = fst (group_sync 2 [65] 1 [\<lparr> ma_member_id = [65], ma_assignment = [7] \<rparr>] group_of_two)"

theorem rebalance_ends_witness:
  "\<exists>g' r k. group_state (join_all [(3, [66], [2], 10), (4, [65], [1], 10)] stable_group) = CompletingRebalance \<and>
     group_sync 5 [66] 2 [\<lparr> ma_member_id = [65], ma_assignment = [1] \<rparr>, \<lparr> ma_member_id = [66], ma_assignment = [2] \<rparr>]
       (join_all [(3, [66], [2], 10), (4, [65], [1], 10)] stable_group) = (g', Inr r) \<and>
     group_sync 6 [65] 2 [] g' = (k, Inr \<lparr> sr_generation = 2, sr_assigned = True, sr_assignment = [1] \<rparr>)"
proof -
  let ?js = "[(3, [66], [2], 10), (4, [65], [1], 10)] :: (int \<times> bytes \<times> bytes \<times> int) list"
  have r: "group_step\<^sup>*\<^sup>* (new_group [103]) stable_group"
    unfolding stable_group_def group_of_two_def
    by (rule rtranclp.rtrancl_into_rtrancl [rotated], rule step_sync, rule rtranclp.rtrancl_into_rtrancl [rotated], rule step_join,
        rule rtranclp.rtrancl_into_rtrancl [rotated], rule step_join, rule rtranclp.rtrancl_refl)
  have s: "group_state stable_group = Stable" "generation stable_group = 1" "map fst (group_members stable_group) = [[65], [66]]"
    "leader_id (join_all ?js stable_group) = [66]" "group_contains (join_all ?js stable_group) [65]" by code_simp+
  have m: "missing stable_group \<subseteq> joiners ?js"
  proof
    fix q assume "q \<in> missing stable_group"
    then have "map_of (group_members stable_group) q \<noteq> None" by (auto simp: missing_def find_member_def)
    then have "q \<in> set (map fst (group_members stable_group))" by (simp add: map_of_eq_None_iff)
    then show "q \<in> joiners ?js" unfolding s(3) by (auto simp: joiners_def)
  qed
  have n: "[] \<notin> joiners ?js" by (simp add: joiners_def)
  show ?thesis
    using rebalance_ends [OF r _ _ n m, of 5 "[\<lparr> ma_member_id = [65], ma_assignment = [1] \<rparr>, \<lparr> ma_member_id = [66], ma_assignment = [2] \<rparr>]" 6 "[]"] s
    by (auto simp: share_of_def dest!: spec [of _ "[65]"])
qed

text \<open>
  A member that joins a completed round is added without a new one: the leader does not know it, and in the stable group it holds the
  current generation and an empty assignment.
\<close>

lemma late_member_unassigned:
  "group_state stable_group = Stable \<and> generation stable_group = 1 \<and>
   snd (group_join 1 [66] [2] 10 (fst (group_join 0 [65] [1] 10 (new_group [103])))) =
     Inr \<lparr> jr_member_id = [66], jr_generation = 1, jr_leader_id = [65], jr_is_leader = False, jr_members = [] \<rparr> \<and>
   snd (group_sync 3 [66] 1 [] stable_group) = Inr \<lparr> sr_generation = 1, sr_assigned = True, sr_assignment = [] \<rparr>"
  by code_simp

end
