(* ===== verification/Group_Coordinator.thy ===== *)
theory Group_Coordinator
  imports Consumer_Group
begin

text \<open>
  The coordinator of all groups of one core (\<^verbatim>\<open>src/src/broker/group_coordinator.cpp\<close>), the store of committed offsets
  (\<^verbatim>\<open>offset_manager.cpp\<close>), the two together per core (\<^verbatim>\<open>group_catalog.cpp\<close>), and the credit window that holds back a sender
  (\<^verbatim>\<open>credit_window.hpp\<close>).  The lemmas lift the invariant of a group to all groups of a coordinator, and
  show that a fetch of an offset returns the last commit and that the window never lends what it does not have.
\<close>


section \<open>The coordinator\<close>

record GroupDigest =
  gd_group_id :: bytes
  gd_state :: GroupState
  gd_generation :: int
  gd_member_count :: nat

type_synonym GroupCoordinator = "(bytes \<times> ConsumerGroup) list"

definition find_group :: "GroupCoordinator \<Rightarrow> bytes \<Rightarrow> ConsumerGroup option" where
  "find_group gs gid = map_of gs gid"

definition list_groups :: "GroupCoordinator \<Rightarrow> GroupDigest list" where
  "list_groups gs = sort_key gd_group_id (map (\<lambda>(_, g). \<lparr> gd_group_id = group_id g, gd_state = group_state g,
     gd_generation = generation g, gd_member_count = length (group_members g) \<rparr>) gs)"

definition coord_join :: "int \<Rightarrow> bytes \<Rightarrow> bytes \<Rightarrow> bytes \<Rightarrow> int \<Rightarrow> GroupCoordinator \<Rightarrow> GroupCoordinator \<times> JoinResult expected" where
  "coord_join now gid mid sub timeout gs =
     (let g = (case find_group gs gid of None \<Rightarrow> new_group gid | Some g \<Rightarrow> g) in
      case group_join now mid sub timeout g of (g, r) \<Rightarrow> (AList.update gid g gs, r))"

definition coord_sync ::
  "int \<Rightarrow> bytes \<Rightarrow> bytes \<Rightarrow> int \<Rightarrow> MemberAssignment list \<Rightarrow> GroupCoordinator \<Rightarrow> GroupCoordinator \<times> SyncResult expected" where
  "coord_sync now gid mid gen as gs =
     (case find_group gs gid of
        None \<Rightarrow> (gs, Inl NotFound)
      | Some g \<Rightarrow> (case group_sync now mid gen as g of (g, r) \<Rightarrow> (AList.update gid g gs, r)))"

definition coord_heartbeat :: "int \<Rightarrow> bytes \<Rightarrow> bytes \<Rightarrow> int \<Rightarrow> GroupCoordinator \<Rightarrow> GroupCoordinator \<times> HeartbeatStatus expected" where
  "coord_heartbeat now gid mid gen gs =
     (case find_group gs gid of
        None \<Rightarrow> (gs, Inl NotFound)
      | Some g \<Rightarrow> (case group_heartbeat now mid gen g of (g, r) \<Rightarrow> (AList.update gid g gs, r)))"

definition coord_leave :: "bytes \<Rightarrow> bytes \<Rightarrow> GroupCoordinator \<Rightarrow> GroupCoordinator \<times> unit expected" where
  "coord_leave gid mid gs =
     (case find_group gs gid of
        None \<Rightarrow> (gs, Inl NotFound)
      | Some g \<Rightarrow> (case group_leave mid g of (g, r) \<Rightarrow> (AList.update gid g gs, r)))"

definition coord_tick :: "int \<Rightarrow> GroupCoordinator \<Rightarrow> GroupCoordinator" where
  "coord_tick now gs = map (\<lambda>(gid, g). (gid, group_tick now g)) gs"

lemma find_group_update: "find_group (AList.update gid g gs) q = (if q = gid then Some g else find_group gs q)"
  by (simp add: find_group_def update_conv)

inductive coord_step :: "GroupCoordinator \<Rightarrow> GroupCoordinator \<Rightarrow> bool" where
  cstep_join: "coord_step gs (fst (coord_join now gid mid sub timeout gs))"
| cstep_sync: "coord_step gs (fst (coord_sync now gid mid gen as gs))"
| cstep_heartbeat: "coord_step gs (fst (coord_heartbeat now gid mid gen gs))"
| cstep_leave: "coord_step gs (fst (coord_leave gid mid gs))"
| cstep_tick: "coord_step gs (coord_tick now gs)"

inductive_cases coord_stepE: "coord_step gs gs'"

text \<open>An input moves each group by at most one input of its own, and never removes one.\<close>

lemma coord_step_groups:
  assumes "coord_step gs gs'" "find_group gs' gid = Some g'"
  shows "group_step\<^sup>*\<^sup>* (case find_group gs gid of None \<Rightarrow> new_group gid | Some g \<Rightarrow> g) g'"
  using assms
proof cases
  case (cstep_tick now)
  then show ?thesis using assms(2) step_tick
    by (cases "find_group gs gid") (auto simp: coord_tick_def find_group_def map_of_map)
qed (use assms(2) in \<open>auto simp: coord_join_def coord_sync_def coord_heartbeat_def coord_leave_def Let_def find_group_update case_prod_beta
      split: option.splits if_splits intro: step_join step_sync step_heartbeat step_leave r_into_rtranclp\<close>)

lemma coord_reach_groups:
  "coord_step\<^sup>*\<^sup>* [] gs \<Longrightarrow> find_group gs gid = Some g \<Longrightarrow> group_step\<^sup>*\<^sup>* (new_group gid) g"
proof (induction arbitrary: g rule: rtranclp_induct)
  case base
  then show ?case by (simp add: find_group_def)
next
  case (step gs gs')
  note s = coord_step_groups [OF step.hyps(2) step.prems]
  show ?case
  proof (cases "find_group gs gid")
    case (Some h)
    then show ?thesis using s step.IH [OF Some] by simp
  qed (use s in simp)
qed

text \<open>Every group of a coordinator keeps the invariant of the membership machine.\<close>

lemma coord_groups_inv: "coord_step\<^sup>*\<^sup>* [] gs \<Longrightarrow> find_group gs gid = Some g \<Longrightarrow> group_inv g"
  using coord_reach_groups group_reach_inv by blast


section \<open>Committed offsets\<close>

record GroupOffsetEntry =
  go_topic :: bytes
  go_partition :: int
  go_offset :: int

record OffsetKey =
  ok_group :: bytes
  ok_topic :: bytes
  ok_partition :: int

record OffsetEntry =
  oe_offset :: int
  oe_metadata :: bytes

type_synonym OffsetManager = "(OffsetKey \<times> OffsetEntry) list"

definition offset_commit :: "bytes \<Rightarrow> bytes \<Rightarrow> int \<Rightarrow> int \<Rightarrow> bytes \<Rightarrow> OffsetManager \<Rightarrow> OffsetManager" where
  "offset_commit grp topic part off metadata m =
     AList.update \<lparr> ok_group = grp, ok_topic = topic, ok_partition = part \<rparr> \<lparr> oe_offset = off, oe_metadata = metadata \<rparr> m"

definition offset_fetch :: "OffsetManager \<Rightarrow> bytes \<Rightarrow> bytes \<Rightarrow> int \<Rightarrow> int expected" where
  "offset_fetch m grp topic part =
     (case map_of m \<lparr> ok_group = grp, ok_topic = topic, ok_partition = part \<rparr> of
        None \<Rightarrow> Inl NotFound
      | Some e \<Rightarrow> Inr (oe_offset e))"

definition list_for_group :: "OffsetManager \<Rightarrow> bytes \<Rightarrow> GroupOffsetEntry list" where
  "list_for_group m grp =
     sort_key go_topic (sort_key go_partition
       (map (\<lambda>(k, e). \<lparr> go_topic = ok_topic k, go_partition = ok_partition k, go_offset = oe_offset e \<rparr>)
         (filter (\<lambda>(k, e). ok_group k = grp) m)))"

lemma fetch_after_commit:
  "offset_fetch (offset_commit g t p off meta m) g' t' p' = (if g' = g \<and> t' = t \<and> p' = p then Inr off else offset_fetch m g' t' p')"
  by (auto simp: offset_fetch_def offset_commit_def update_conv)

lemma commit_distinct: "distinct (map fst m) \<Longrightarrow> distinct (map fst (offset_commit g t p off meta m))"
  by (simp add: offset_commit_def distinct_update)

text \<open>The listing of a group is the fetch of all its keys.\<close>

lemma list_for_group_fetch:
  assumes "distinct (map fst m)"
  shows "e \<in> set (list_for_group m g) \<longleftrightarrow> offset_fetch m g (go_topic e) (go_partition e) = Inr (go_offset e)"
proof -
  have "e \<in> set (list_for_group m g) \<longleftrightarrow> (\<exists>k v. (k, v) \<in> set m \<and> ok_group k = g \<and>
      e = \<lparr> go_topic = ok_topic k, go_partition = ok_partition k, go_offset = oe_offset v \<rparr>)"
    by (auto simp: list_for_group_def)
  also have "\<dots> \<longleftrightarrow> (\<exists>v. (\<lparr> ok_group = g, ok_topic = go_topic e, ok_partition = go_partition e \<rparr>, v) \<in> set m \<and> go_offset e = oe_offset v)"
  proof
    assume "\<exists>k v. (k, v) \<in> set m \<and> ok_group k = g \<and> e = \<lparr> go_topic = ok_topic k, go_partition = ok_partition k, go_offset = oe_offset v \<rparr>"
    then obtain k v where k: "(k, v) \<in> set m" "ok_group k = g" "e = \<lparr> go_topic = ok_topic k, go_partition = ok_partition k, go_offset = oe_offset v \<rparr>"
      by blast
    have "k = \<lparr> ok_group = g, ok_topic = go_topic e, ok_partition = go_partition e \<rparr>" using k(2,3) by simp
    then show "\<exists>v. (\<lparr> ok_group = g, ok_topic = go_topic e, ok_partition = go_partition e \<rparr>, v) \<in> set m \<and> go_offset e = oe_offset v"
      using k(1,3) by auto
  next
    assume "\<exists>v. (\<lparr> ok_group = g, ok_topic = go_topic e, ok_partition = go_partition e \<rparr>, v) \<in> set m \<and> go_offset e = oe_offset v"
    then obtain v where v: "(\<lparr> ok_group = g, ok_topic = go_topic e, ok_partition = go_partition e \<rparr>, v) \<in> set m" "go_offset e = oe_offset v" by blast
    show "\<exists>k v. (k, v) \<in> set m \<and> ok_group k = g \<and> e = \<lparr> go_topic = ok_topic k, go_partition = ok_partition k, go_offset = oe_offset v \<rparr>"
      by (rule exI, rule exI, rule conjI [OF v(1)]) (use v(2) in simp)
  qed
  also have "\<dots> \<longleftrightarrow> offset_fetch m g (go_topic e) (go_partition e) = Inr (go_offset e)"
    unfolding map_of_eq_Some_iff [OF assms, symmetric] by (auto simp: offset_fetch_def split: option.splits)
  finally show ?thesis .
qed


section \<open>The shards of a node\<close>

record GroupShard =
  shard_groups :: GroupCoordinator
  shard_offsets :: OffsetManager

definition new_group_catalog :: "int \<Rightarrow> GroupShard list" where
  "new_group_catalog cores = replicate (nat (max 1 cores)) \<lparr> shard_groups = [], shard_offsets = [] \<rparr>"


section \<open>Credits\<close>

text \<open>
  The window with its suspended sender.  The sender is a coroutine that acquires the costs of its messages one after the other; it is resumed
  inside \<open>grant\<close> and runs on until it is suspended again or has nothing left to send.
\<close>

record CreditWindow =
  credits :: int
  pending_cost :: int
  waiting :: bool

definition new_window :: "int \<Rightarrow> CreditWindow" where
  "new_window initial = \<lparr> credits = initial, pending_cost = 0, waiting = False \<rparr>"

fun acquire_all :: "CreditWindow \<Rightarrow> int list \<Rightarrow> CreditWindow \<times> int list" where
  "acquire_all w [] = (w, [])"
| "acquire_all w (cost # costs) =
     (if credits w \<ge> cost then acquire_all (w\<lparr> credits := credits w - cost \<rparr>) costs
      else (w\<lparr> waiting := True, pending_cost := cost \<rparr>, cost # costs))"

text \<open>\<open>todo\<close> are the costs of the messages that the sender has not got credits for, the suspended one first.\<close>

definition grant :: "int \<Rightarrow> CreditWindow \<times> int list \<Rightarrow> CreditWindow \<times> int list" where
  "grant n st =
     (case st of (w, todo) \<Rightarrow>
      let w = w\<lparr> credits := credits w + n \<rparr> in
      if waiting w \<and> credits w \<ge> pending_cost w
      then acquire_all (w\<lparr> waiting := False, pending_cost := 0, credits := credits w - hd todo \<rparr>) (tl todo)
      else (w, todo))"

definition credit_inv :: "CreditWindow \<times> int list \<Rightarrow> bool" where
  "credit_inv st \<longleftrightarrow>
     (case st of (w, todo) \<Rightarrow> 0 \<le> credits w \<and>
       (if todo = [] then \<not> waiting w else waiting w \<and> pending_cost w = hd todo \<and> credits w < hd todo))"

lemma acquire_all_spec:
  "0 \<le> credits w \<Longrightarrow> \<not> waiting w \<Longrightarrow> acquire_all w costs = (w', todo) \<Longrightarrow>
   credit_inv (w', todo) \<and> (\<exists>sent. costs = sent @ todo \<and> credits w' + sum_list sent = credits w)"
proof (induction w costs rule: acquire_all.induct)
  case (2 w cost costs)
  show ?case
  proof (cases "credits w \<ge> cost")
    case True
    then obtain sent where "credit_inv (w', todo)" "costs = sent @ todo" "credits w' + sum_list sent = credits w - cost"
      using 2 by auto
    then show ?thesis by (auto intro!: exI [of _ "cost # sent"])
  next
    case False
    then show ?thesis using 2(2-4) by (auto simp: credit_inv_def)
  qed
qed (auto simp: credit_inv_def)

lemma grant_step:
  assumes i: "credit_inv (v, td)" "0 \<le> n"
  shows "credit_inv (grant n (v, td)) \<and>
    (\<exists>new. td = new @ snd (grant n (v, td)) \<and> credits (fst (grant n (v, td))) + sum_list new = credits v + n)"
proof (cases "waiting v \<and> credits v + n \<ge> pending_cost v")
  case True
  then obtain c cs where td: "td = c # cs" "pending_cost v = c" using i(1) by (cases td) (auto simp: credit_inv_def)
  let ?v = "v\<lparr> waiting := False, pending_cost := 0, credits := credits v + n - c \<rparr>"
  obtain v' todo' where r: "acquire_all ?v cs = (v', todo')" by fastforce
  have g: "grant n (v, td) = (v', todo')" using True td r by (simp add: grant_def)
  obtain sent where "credit_inv (v', todo')" "cs = sent @ todo'" "credits v' + sum_list sent = credits v + n - c"
    using acquire_all_spec [OF _ _ r] True td by auto
  then show ?thesis unfolding g using td by (auto intro!: exI [of _ "c # sent"])
next
  case False
  then show ?thesis using i by (cases td) (auto simp: grant_def credit_inv_def)
qed

lemma grant_steps:
  "credit_inv (v, td) \<Longrightarrow> \<forall>n \<in> set gs. 0 \<le> n \<Longrightarrow> fold grant gs (v, td) = (w, todo) \<Longrightarrow>
   credit_inv (w, todo) \<and> (\<exists>new. td = new @ todo \<and> credits w + sum_list new = credits v + sum_list gs)"
proof (induction gs arbitrary: v td)
  case (Cons n gs)
  obtain v' td' where g: "grant n (v, td) = (v', td')" by fastforce
  obtain new where s: "credit_inv (v', td')" "td = new @ td'" "credits v' + sum_list new = credits v + n"
    using grant_step [of v td n] Cons.prems g by auto
  obtain more where "credit_inv (w, todo)" "td' = more @ todo" "credits w + sum_list more = credits v' + sum_list gs"
    using Cons.IH [OF s(1)] Cons.prems g by auto
  then show ?case using s by (auto intro!: exI [of _ "new @ more"])
qed simp

text \<open>
  Back-pressure.  A sender that starts with a window of non-negative credits and is granted non-negative amounts sends its messages in order; at any time the
  credits left plus the costs sent are the credits granted, the credits left are not negative, and the sender is
  suspended only when its next message costs more than the credits left.
\<close>

theorem credit_window_contract:
  assumes "0 \<le> initial" "\<forall>n \<in> set grants. 0 \<le> n" "fold grant grants (acquire_all (new_window initial) costs) = (w, todo)"
  shows "\<exists>sent. costs = sent @ todo \<and> credits w + sum_list sent = initial + sum_list grants \<and> 0 \<le> credits w \<and>
    (waiting w \<longleftrightarrow> todo \<noteq> []) \<and> (\<forall>c cs. todo = c # cs \<longrightarrow> credits w < c)"
proof -
  obtain v td where a: "acquire_all (new_window initial) costs = (v, td)" by fastforce
  obtain sent where s: "credit_inv (v, td)" "costs = sent @ td" "credits v + sum_list sent = initial"
    using acquire_all_spec [OF _ _ a] assms(1) by (auto simp: new_window_def)
  obtain new where n: "credit_inv (w, todo)" "td = new @ todo" "credits w + sum_list new = credits v + sum_list grants"
    using grant_steps [OF s(1) assms(2)] assms(3) a by auto
  show ?thesis using s n by (intro exI [of _ "sent @ new"]) (auto simp: credit_inv_def split: if_splits)
qed

theorem credit_window_contract_witness:
  "fold grant [3, 4] (acquire_all (new_window 5) [2, 3, 6, 1, 9]) = (\<lparr> credits = 0, pending_cost = 9, waiting = True \<rparr>, [9]) \<and>
   (\<exists>sent. [2, 3, 6, 1, 9] = sent @ [9] \<and> 0 + sum_list sent = 5 + sum_list [3, 4 :: int])"
proof -
  have r: "fold grant [3, 4] (acquire_all (new_window 5) [2, 3, 6, 1, 9]) = (\<lparr> credits = 0, pending_cost = 9, waiting = True \<rparr>, [9])"
    by code_simp
  show ?thesis using credit_window_contract [OF _ _ r] r by auto
qed

end
