(* ===== verification/Request_Router.thy ===== *)
theory Request_Router
  imports Topic_Manager Group_Coordinator
begin

text \<open>
  The request router (\<^verbatim>\<open>src/src/broker/request_router.hpp\<close>, \<^verbatim>\<open>request_router.cpp\<close>): it decodes the body of a request, runs the operation on the
  core that owns the partition or the group, and encodes the response.  The state of the node is that of all cores; a call
  on another core is the operation on its part of the state, since a core runs one operation at a time and the
  caller waits.  The metrics are not modelled, except for the count of records that feeds them.
\<close>


section \<open>The node and its surroundings\<close>

record Node =
  nd_id :: int
  nd_host :: bytes
  nd_port :: "16 word"
  nd_managers :: "TopicManager list"
  nd_shards :: "GroupShard list"

text \<open>What a request meets: the core that serves its connection, cryptography, the file system, the wall clock and the steady clock.\<close>

record Surroundings =
  su_core :: nat
  su_crypto :: crypto_lib
  su_disk :: disk
  su_remove :: "bytes \<Rightarrow> int \<Rightarrow> bool"
  su_wall_ms :: int
  su_now :: int


section \<open>Handlers\<close>

definition kDefaultFetchBytes :: nat where
  "kDefaultFetchBytes = 1024 * 1024"

function count_batch_records :: "bytes \<Rightarrow> 64 word" where
  "count_batch_records blob =
     (if blob = [] then 0
      else case peek blob of
             Inl _ \<Rightarrow> 0
           | Inr view \<Rightarrow>
               if view_encoded_size view = 0 then 0
               else word_of_int (view_record_count view) + count_batch_records (drop (view_encoded_size view) blob))"
  by pat_completeness auto
termination
  by (relation "measure length") auto

definition put_partition :: "bytes \<Rightarrow> int \<Rightarrow> PartitionBase \<Rightarrow> TopicManager \<Rightarrow> TopicManager" where
  "put_partition name pid p tm =
     (case get_topic tm name of
        None \<Rightarrow> tm
      | Some topic \<Rightarrow> tm\<lparr> topics := AList.update name (add_partition pid p topic) (topics tm) \<rparr>)"

definition produce_response :: "int \<Rightarrow> WireError \<Rightarrow> ProduceResponse" where
  "produce_response base e = \<lparr> prr_base_offset = base, prr_error_code = e, prr_throttle_ms = 0 \<rparr>"

definition handle_produce :: "crypto_lib \<Rightarrow> ProduceRequest \<Rightarrow> TopicManager \<Rightarrow> TopicManager \<times> ProduceResponse" where
  "handle_produce cr req tm =
     (case find_partition tm (prq_topic req) (prq_partition req) of
        None \<Rightarrow> (tm, produce_response (-1) UnknownTopicOrPartition)
      | Some part \<Rightarrow>
          (case decode (prq_batch req) of
             Inl e \<Rightarrow> (tm, produce_response (-1) (from_error e))
           | Inr batch \<Rightarrow>
               (case part_claim Native part of
                  (part, Inl e) \<Rightarrow> (put_partition (prq_topic req) (prq_partition req) part tm, produce_response (-1) (from_error e))
                | (part, Inr _) \<Rightarrow>
                    (case part_produce cr batch part of
                       (part, Inl e) \<Rightarrow> (put_partition (prq_topic req) (prq_partition req) part tm, produce_response (-1) (from_error e))
                     | (part, Inr last_off) \<Rightarrow>
                         (put_partition (prq_topic req) (prq_partition req) part tm,
                          produce_response (last_off - record_count (header batch) + 1) WNone)))))"

record FetchOutcome =
  fo_error :: WireError
  fo_result :: FetchResult
  fo_high_watermark :: int
  fo_log_start_offset :: int

definition no_outcome :: "WireError \<Rightarrow> FetchOutcome" where
  "no_outcome e = \<lparr> fo_error = e, fo_result = \<lparr> batches = [], next_offset = 0 \<rparr>, fo_high_watermark = 0, fo_log_start_offset = 0 \<rparr>"

definition handle_fetch :: "crypto_lib \<Rightarrow> TopicManager \<Rightarrow> FetchRequest \<Rightarrow> FetchOutcome" where
  "handle_fetch cr tm req =
     (case find_partition tm (feq_topic req) (feq_partition req) of
        None \<Rightarrow> no_outcome UnknownTopicOrPartition
      | Some part \<Rightarrow>
          if part_protocol part \<noteq> Unset \<and> part_protocol part \<noteq> Native then no_outcome InvalidRequest
          else
            let max_bytes = (if feq_max_bytes req > 0 then nat (feq_max_bytes req) else kDefaultFetchBytes) in
            (case part_fetch cr part (feq_fetch_offset req) max_bytes of
               Inl e \<Rightarrow> no_outcome (from_error e)
             | Inr r \<Rightarrow> \<lparr> fo_error = WNone, fo_result = r, fo_high_watermark = part_high_watermark part,
                          fo_log_start_offset = log_start_offset (part_log part) \<rparr>))"

definition handle_offset_commit :: "OffsetCommitRequest \<Rightarrow> OffsetManager \<Rightarrow> OffsetManager \<times> OffsetCommitResponse" where
  "handle_offset_commit req m =
     (offset_commit (ocq_group req) (ocq_topic req) (ocq_partition req) (ocq_offset req) (ocq_metadata req) m, \<lparr> ocr_error_code = WNone \<rparr>)"

definition handle_offset_fetch :: "OffsetManager \<Rightarrow> OffsetFetchRequest \<Rightarrow> OffsetFetchResponse" where
  "handle_offset_fetch m req =
     \<lparr> ofr_offset = (case offset_fetch m (ofq_group req) (ofq_topic req) (ofq_partition req) of Inr off \<Rightarrow> off | Inl _ \<Rightarrow> -1),
       ofr_error_code = WNone \<rparr>"

definition join_response :: "WireError \<Rightarrow> JoinGroupResponse" where
  "join_response e = \<lparr> jgr_error_code = e, jgr_generation = 0, jgr_member_id = [], jgr_leader_id = [], jgr_is_leader = False, jgr_members = [] \<rparr>"

definition handle_join_group :: "int \<Rightarrow> JoinGroupRequest \<Rightarrow> GroupCoordinator \<Rightarrow> GroupCoordinator \<times> JoinGroupResponse" where
  "handle_join_group now req gs =
     (case coord_join now (jgq_group req) (jgq_member_id req) (jgq_subscription req) (jgq_session_timeout_ms req) gs of
        (gs, Inl e) \<Rightarrow> (gs, join_response (from_error e))
      | (gs, Inr r) \<Rightarrow>
          (gs, \<lparr> jgr_error_code = WNone, jgr_generation = jr_generation r, jgr_member_id = jr_member_id r, jgr_leader_id = jr_leader_id r,
                 jgr_is_leader = jr_is_leader r,
                 jgr_members = map (\<lambda>m. \<lparr> gm_member_id = mi_member_id m, gm_subscription = mi_subscription m \<rparr>) (jr_members r) \<rparr>))"

definition handle_sync_group :: "int \<Rightarrow> SyncGroupRequest \<Rightarrow> GroupCoordinator \<Rightarrow> GroupCoordinator \<times> SyncGroupResponse" where
  "handle_sync_group now req gs =
     (let as = map (\<lambda>e. \<lparr> ma_member_id = ga_member_id e, ma_assignment = ga_assignment e \<rparr>) (sgq_assignments req) in
      case coord_sync now (sgq_group req) (sgq_member_id req) (sgq_generation req) as gs of
        (gs, Inl e) \<Rightarrow> (gs, \<lparr> sgr_error_code = from_error e, sgr_assignment = [] \<rparr>)
      | (gs, Inr r) \<Rightarrow>
          (gs, if \<not> sr_assigned r then \<lparr> sgr_error_code = RebalanceInProgress, sgr_assignment = [] \<rparr>
               else \<lparr> sgr_error_code = WNone, sgr_assignment = sr_assignment r \<rparr>))"

definition handle_heartbeat :: "int \<Rightarrow> HeartbeatRequest \<Rightarrow> GroupCoordinator \<Rightarrow> GroupCoordinator \<times> HeartbeatResponse" where
  "handle_heartbeat now req gs =
     (case coord_heartbeat now (hbq_group req) (hbq_member_id req) (hbq_generation req) gs of
        (gs, Inl e) \<Rightarrow> (gs, \<lparr> hbr_error_code = from_error e \<rparr>)
      | (gs, Inr HeartbeatRebalance) \<Rightarrow> (gs, \<lparr> hbr_error_code = RebalanceInProgress \<rparr>)
      | (gs, Inr HeartbeatOk) \<Rightarrow> (gs, \<lparr> hbr_error_code = WNone \<rparr>))"

definition handle_leave_group :: "LeaveGroupRequest \<Rightarrow> GroupCoordinator \<Rightarrow> GroupCoordinator \<times> LeaveGroupResponse" where
  "handle_leave_group req gs =
     (case coord_leave (lgq_group req) (lgq_member_id req) gs of
        (gs, Inl e) \<Rightarrow> (gs, \<lparr> lgr_error_code = from_error e \<rparr>)
      | (gs, Inr _) \<Rightarrow> (gs, \<lparr> lgr_error_code = WNone \<rparr>))"

definition handle_metadata :: "TopicManager \<Rightarrow> int \<Rightarrow> bytes \<Rightarrow> 16 word \<Rightarrow> MetadataRequest \<Rightarrow> MetadataResponse" where
  "handle_metadata tm node_id host port req =
     (let all = describe tm node_id in
      \<lparr> mdr_brokers = [\<lparr> bm_node_id = node_id, bm_host = host, bm_port = port \<rparr>],
        mdr_topics =
          (if mdq_topics req = [] then all
           else map (\<lambda>wanted. case List.find (\<lambda>m. tm_name m = wanted) all of
                                Some m \<Rightarrow> m
                              | None \<Rightarrow> \<lparr> tm_name = wanted, tm_error = UnknownTopicOrPartition, tm_partitions = [] \<rparr>) (mdq_topics req)) \<rparr>)"

definition supported_versions :: "ApiVersionRange list" where
  "supported_versions =
     map (\<lambda>k. \<lparr> range_key = k, range_min = 0, range_max = 0 \<rparr>)
       [ApiVersions, Metadata, Produce, Fetch, CreateTopic, DeleteTopic, OffsetCommit, OffsetFetch, JoinGroup, SyncGroup, Heartbeat, LeaveGroup]"


section \<open>Dispatch\<close>

abbreviation cores :: "Node \<Rightarrow> nat" where
  "cores nd \<equiv> length (nd_managers nd)"

text \<open>The operation on the manager that owns the partition.\<close>

definition on_owner :: "int \<Rightarrow> (TopicManager \<Rightarrow> TopicManager \<times> 'r) \<Rightarrow> Node \<Rightarrow> Node \<times> 'r" where
  "on_owner pid f nd =
     (let owner = core_of (cores nd) pid in
      case f (nd_managers nd ! owner) of (tm, r) \<Rightarrow> (nd\<lparr> nd_managers := (nd_managers nd)[owner := tm] \<rparr>, r))"

text \<open>The operation on the shard of the group.\<close>

definition group_core :: "Node \<Rightarrow> bytes \<Rightarrow> nat" where
  "group_core nd grp = unat (fnv1a_64 grp) mod cores nd"

definition on_group_owner :: "bytes \<Rightarrow> (GroupShard \<Rightarrow> GroupShard \<times> 'r) \<Rightarrow> Node \<Rightarrow> Node \<times> 'r" where
  "on_group_owner grp f nd =
     (let owner = group_core nd grp in
      case f (nd_shards nd ! owner) of (s, r) \<Rightarrow> (nd\<lparr> nd_shards := (nd_shards nd)[owner := s] \<rparr>, r))"

definition on_groups :: "(GroupCoordinator \<Rightarrow> GroupCoordinator \<times> 'r) \<Rightarrow> GroupShard \<Rightarrow> GroupShard \<times> 'r" where
  "on_groups f s = (case f (shard_groups s) of (gs, r) \<Rightarrow> (s\<lparr> shard_groups := gs \<rparr>, r))"

definition on_offsets :: "(OffsetManager \<Rightarrow> OffsetManager \<times> 'r) \<Rightarrow> GroupShard \<Rightarrow> GroupShard \<times> 'r" where
  "on_offsets f s = (case f (shard_offsets s) of (m, r) \<Rightarrow> (s\<lparr> shard_offsets := m \<rparr>, r))"

definition create_topic_cluster :: "Surroundings \<Rightarrow> bytes \<Rightarrow> int \<Rightarrow> Node \<Rightarrow> Node \<times> unit expected" where
  "create_topic_cluster su name count nd =
     (case create_topic_on_cluster (su_crypto su) (su_disk su) (su_remove su) (su_wall_ms su) name count default_topic_config (nd_managers nd) of
        (tms, _, Inl e) \<Rightarrow> (nd\<lparr> nd_managers := tms \<rparr>, Inl e)
      | (tms, _, Inr _) \<Rightarrow> (nd\<lparr> nd_managers := tms \<rparr>, Inr ()))"

definition delete_topic_cluster :: "Surroundings \<Rightarrow> bytes \<Rightarrow> Node \<Rightarrow> Node \<times> unit expected" where
  "delete_topic_cluster su name nd =
     (case delete_topic_on_cluster (su_remove su) name (nd_managers nd) of (tms, _, r) \<Rightarrow> (nd\<lparr> nd_managers := tms \<rparr>, r))"

definition dispatch_produce :: "Surroundings \<Rightarrow> bytes \<Rightarrow> Node \<Rightarrow> Node \<times> ProduceResponse" where
  "dispatch_produce su body nd =
     (case decode_ProduceRequest body of
        Inl _ \<Rightarrow> (nd, produce_response (-1) InvalidRequest)
      | Inr (req, _) \<Rightarrow> on_owner (prq_partition req) (handle_produce (su_crypto su) req) nd)"

definition fetch_response :: "WireError \<Rightarrow> FetchResponse" where
  "fetch_response e = \<lparr> fer_batches = [], fer_high_watermark = 0, fer_log_start_offset = 0, fer_error_code = e \<rparr>"

definition dispatch_fetch :: "Surroundings \<Rightarrow> bytes \<Rightarrow> Node \<Rightarrow> Node \<times> FetchResponse" where
  "dispatch_fetch su body nd =
     (case decode_FetchRequest body of
        Inl _ \<Rightarrow> (nd, fetch_response InvalidRequest)
      | Inr (req, _) \<Rightarrow>
          (case on_owner (feq_partition req) (\<lambda>tm. (tm, handle_fetch (su_crypto su) tm req)) nd of
             (nd, outcome) \<Rightarrow>
               (nd, if fo_error outcome = WNone
                    then \<lparr> fer_batches = batches (fo_result outcome), fer_high_watermark = fo_high_watermark outcome,
                           fer_log_start_offset = fo_log_start_offset outcome, fer_error_code = WNone \<rparr>
                    else fetch_response (fo_error outcome))))"

definition dispatch_offset_commit :: "bytes \<Rightarrow> Node \<Rightarrow> Node \<times> OffsetCommitResponse" where
  "dispatch_offset_commit body nd =
     (case decode_OffsetCommitRequest body of
        Inl _ \<Rightarrow> (nd, \<lparr> ocr_error_code = InvalidRequest \<rparr>)
      | Inr (req, _) \<Rightarrow> on_group_owner (ocq_group req) (on_offsets (handle_offset_commit req)) nd)"

definition dispatch_offset_fetch :: "bytes \<Rightarrow> Node \<Rightarrow> Node \<times> OffsetFetchResponse" where
  "dispatch_offset_fetch body nd =
     (case decode_OffsetFetchRequest body of
        Inl _ \<Rightarrow> (nd, \<lparr> ofr_offset = -1, ofr_error_code = InvalidRequest \<rparr>)
      | Inr (req, _) \<Rightarrow> on_group_owner (ofq_group req) (on_offsets (\<lambda>m. (m, handle_offset_fetch m req))) nd)"

definition dispatch_join_group :: "Surroundings \<Rightarrow> bytes \<Rightarrow> Node \<Rightarrow> Node \<times> JoinGroupResponse" where
  "dispatch_join_group su body nd =
     (case decode_JoinGroupRequest body of
        Inl _ \<Rightarrow> (nd, join_response InvalidRequest)
      | Inr (req, _) \<Rightarrow> on_group_owner (jgq_group req) (on_groups (handle_join_group (su_now su) req)) nd)"

definition dispatch_sync_group :: "Surroundings \<Rightarrow> bytes \<Rightarrow> Node \<Rightarrow> Node \<times> SyncGroupResponse" where
  "dispatch_sync_group su body nd =
     (case decode_SyncGroupRequest body of
        Inl _ \<Rightarrow> (nd, \<lparr> sgr_error_code = InvalidRequest, sgr_assignment = [] \<rparr>)
      | Inr (req, _) \<Rightarrow> on_group_owner (sgq_group req) (on_groups (handle_sync_group (su_now su) req)) nd)"

definition dispatch_heartbeat :: "Surroundings \<Rightarrow> bytes \<Rightarrow> Node \<Rightarrow> Node \<times> HeartbeatResponse" where
  "dispatch_heartbeat su body nd =
     (case decode_HeartbeatRequest body of
        Inl _ \<Rightarrow> (nd, \<lparr> hbr_error_code = InvalidRequest \<rparr>)
      | Inr (req, _) \<Rightarrow> on_group_owner (hbq_group req) (on_groups (handle_heartbeat (su_now su) req)) nd)"

definition dispatch_leave_group :: "bytes \<Rightarrow> Node \<Rightarrow> Node \<times> LeaveGroupResponse" where
  "dispatch_leave_group body nd =
     (case decode_LeaveGroupRequest body of
        Inl _ \<Rightarrow> (nd, \<lparr> lgr_error_code = InvalidRequest \<rparr>)
      | Inr (req, _) \<Rightarrow> on_group_owner (lgq_group req) (on_groups (handle_leave_group req)) nd)"

text \<open>The response of a key; the code writes its encoding into the output buffer.\<close>

fun respond :: "Surroundings \<Rightarrow> ApiKey \<Rightarrow> bytes \<Rightarrow> Node \<Rightarrow> Node \<times> Response" where
  "respond su ApiVersions body nd = (nd, ApiVersionsR \<lparr> avr_ranges = supported_versions \<rparr>)"
| "respond su Metadata body nd =
     (nd, MetadataR (case decode_MetadataRequest body of
                       Inl _ \<Rightarrow> \<lparr> mdr_brokers = [], mdr_topics = [] \<rparr>
                     | Inr (req, _) \<Rightarrow> handle_metadata (nd_managers nd ! su_core su) (nd_id nd) (nd_host nd) (nd_port nd) req))"
| "respond su Produce body nd = map_prod id ProduceR (dispatch_produce su body nd)"
| "respond su Fetch body nd = map_prod id FetchR (dispatch_fetch su body nd)"
| "respond su CreateTopic body nd =
     (case decode_CreateTopicRequest body of
        Inl _ \<Rightarrow> (nd, CreateTopicR \<lparr> ctr_error_code = InvalidRequest \<rparr>)
      | Inr (req, _) \<Rightarrow>
          (case create_topic_cluster su (ctq_name req) (ctq_partition_count req) nd of
             (nd, Inl e) \<Rightarrow> (nd, CreateTopicR \<lparr> ctr_error_code = from_error e \<rparr>)
           | (nd, Inr _) \<Rightarrow> (nd, CreateTopicR \<lparr> ctr_error_code = WNone \<rparr>)))"
| "respond su DeleteTopic body nd =
     (case decode_DeleteTopicRequest body of
        Inl _ \<Rightarrow> (nd, DeleteTopicR \<lparr> dtr_error_code = InvalidRequest \<rparr>)
      | Inr (req, _) \<Rightarrow>
          (case delete_topic_cluster su (dtq_name req) nd of
             (nd, Inl e) \<Rightarrow> (nd, DeleteTopicR \<lparr> dtr_error_code = from_error e \<rparr>)
           | (nd, Inr _) \<Rightarrow> (nd, DeleteTopicR \<lparr> dtr_error_code = WNone \<rparr>)))"
| "respond su OffsetCommit body nd = map_prod id OffsetCommitR (dispatch_offset_commit body nd)"
| "respond su OffsetFetch body nd = map_prod id OffsetFetchR (dispatch_offset_fetch body nd)"
| "respond su JoinGroup body nd = map_prod id JoinGroupR (dispatch_join_group su body nd)"
| "respond su SyncGroup body nd = map_prod id SyncGroupR (dispatch_sync_group su body nd)"
| "respond su Heartbeat body nd = map_prod id HeartbeatR (dispatch_heartbeat su body nd)"
| "respond su LeaveGroup body nd = map_prod id LeaveGroupR (dispatch_leave_group body nd)"

definition dispatch :: "Surroundings \<Rightarrow> ApiKey \<Rightarrow> bytes \<Rightarrow> Node \<Rightarrow> Node \<times> bytes" where
  "dispatch su key body nd = map_prod id encode_response (respond su key body nd)"



section \<open>Produce and fetch through the router\<close>
lemma from_error_not_none [simp]: "from_error e \<noteq> WNone"
  by (cases e) simp_all

lemma find_put_partition:
  "find_partition tm name pid \<noteq> None \<Longrightarrow>
   find_partition (put_partition name pid p tm) name' pid' = (if name' = name \<and> pid' = pid then Some p else find_partition tm name' pid')"
  by (auto simp: find_partition_def put_partition_def get_topic_def add_partition_def update_conv split: option.splits)

text \<open>The storage of a partition is sound, it can store the batch, and the batch is the next one of its producer.\<close>

fun part_inv :: "crypto_lib \<Rightarrow> PartitionBase \<Rightarrow> bool" where
  "part_inv cr (LocalPartition p) \<longleftrightarrow> (\<exists>bss. plog_inv cr (pt_log p) bss)"
| "part_inv cr (RaftPartition p) \<longleftrightarrow> (\<exists>a. rl_mem cr (rp_rlog p) a [])"

fun part_fit :: "crypto_lib \<Rightarrow> PartitionBase \<Rightarrow> RecordBatch \<Rightarrow> bool" where
  "part_fit cr (LocalPartition p) b \<longleftrightarrow> local_fit cr (pt_log p, pt_envs p) b"
| "part_fit cr (RaftPartition p) b \<longleftrightarrow> raft_fit cr (rp_raft p) b"

fun part_sessions :: "PartitionBase \<Rightarrow> sessions" where
  "part_sessions (LocalPartition p) = pt_producers p"
| "part_sessions (RaftPartition p) = rp_producers p"

text \<open>A produce call that appends calls the log once.\<close>

lemma idempotent_appends:
  assumes "appends ss b" "idempotent_produce app en b (l, ss) = ((l', ss'), Inr k)"
  shows "app l b = (l', Inr k)"
  using assms by (auto simp: appends_def idempotent_produce_def Let_def split: if_splits prod.splits sum.splits SeqCheck.splits)

lemma part_produce_stores:
  assumes i: "part_inv cr p" "part_fit cr p b" "appends (part_sessions p) b" and pr: "part_produce cr b p = (p', Inr k)"
  shows "part_inv cr p' \<and> part_protocol p' = part_protocol p \<and> k = log_end_offset (part_log p) + record_count (header b) - 1 \<and>
    (\<exists>bss xs. plog_inv cr (part_log p') bss \<and> log_batches bss = xs @ [rebase b (log_end_offset (part_log p))])"
proof (cases p)
  case (LocalPartition q)
  obtain bss where h: "local_holds cr (pt_log q, pt_envs q) (log_batches bss)" using i(1) LocalPartition by (auto simp: local_holds_def)
  obtain l envs ss where x: "idempotent_produce (plog_append_next cr) (\<lambda>le. log_end_offset (fst le)) b ((pt_log q, pt_envs q), pt_producers q) = (((l, envs), ss), Inr k)"
    and p': "p' = LocalPartition (q\<lparr> pt_log := l, pt_envs := envs, pt_producers := ss \<rparr>)"
    using pr LocalPartition by (auto simp: partition_produce_def split: prod.splits)
  have a: "plog_append_next cr (pt_log q, pt_envs q) b = ((l, envs), Inr k)" using idempotent_appends [OF _ x] i(3) LocalPartition by simp
  show ?thesis using local_log.append_holds [OF h _ a] i(2) LocalPartition p' by (auto simp: local_holds_def)
next
  case (RaftPartition q)
  obtain a where h: "raft_holds cr (rp_raft q) (abs_batches a)" using i(1) RaftPartition by (auto simp: raft_holds_def)
  obtain n ss where x: "idempotent_produce (propose_offset cr) (\<lambda>n. log_end_offset (rl_log (rn_log n))) b (rp_raft q, rp_producers q) = ((n, ss), Inr k)"
    and p': "p' = RaftPartition (q\<lparr> rp_raft := n, rp_producers := ss \<rparr>)"
    using pr RaftPartition by (auto simp: replicated_produce_def split: prod.splits if_splits)
  have ap: "propose_offset cr (rp_raft q) b = (n, Inr k)" using idempotent_appends [OF _ x] i(3) RaftPartition by simp
  obtain a' where a': "rl_mem cr (rn_log n) a' []" "abs_batches a' = abs_batches a @ [rebase b (log_end_offset (rl_log (rn_log (rp_raft q))))]"
    "k = log_end_offset (rl_log (rn_log (rp_raft q))) + record_count (header b) - 1"
    using raft_log.append_holds [OF h _ ap] i(2) RaftPartition by (auto simp: raft_holds_def)
  obtain bss pre where "plog_inv cr (rl_log (rn_log n)) bss" "log_batches bss = pre @ abs_batches a'" using a'(1) by (auto simp: rl_mem_def)
  then show ?thesis using a' p' RaftPartition by auto
qed

text \<open>A read from the last batch of a log.\<close>

lemma plog_read_last:
  assumes inv: "plog_inv cr pl bss" "plog_readable pl" and b: "log_batches bss = xs @ [b]" and m: "0 < m"
  shows "plog_read cr pl (base_offset (header b)) m = Inr \<lparr> batches = encode b, next_offset = last_offset b + 1 \<rparr>"
proof -
  let ?o = "log_start_offset pl" and ?f = "base_offset (header b)"
  have cont: "contiguous ?o (xs @ [b])" using inv(1) chain_contiguous b by (fastforce simp: plog_inv_def)
  obtain us x where us: "concat bss = us @ [(b, x)]" "map fst us = xs"
    using b by (auto simp: map_eq_append_conv map_eq_Cons_conv)
  have f: "?f = end_of ?o xs" "?o \<le> ?f" "?f \<le> last_offset b"
    using cont end_of_ge [of ?o xs] by (simp_all add: contiguous_append last_offset_def)
  have "last_offset (fst z) < ?f" if "z \<in> set us" for z
    using contiguous_offsets [of ?o xs "fst z"] cont us(2) that f(1) by (force simp: contiguous_append)
  then have "dropWhile (\<lambda>(b, x). last_offset b < ?f) (concat bss) = [(b, x)]"
    unfolding us(1) using f(3) by (subst dropWhile_append2) auto
  moreover have "take_until m [(b, x)] = [(b, x)]" using m by (cases m) (simp_all add: encoded_size_def)
  ultimately show ?thesis
    unfolding plog_read_spec [OF inv] using f(2) by (simp add: Let_def)
qed


text \<open>Appending does not make a readable log unreadable.\<close>

lemma write_at_readable: "write_at f d off = (f', r) \<Longrightarrow> readable f \<Longrightarrow> readable f'"
  by (auto simp: write_at_def readable_def split: prod.splits if_splits)

lemma segment_append_readable: "segment_append cr s b rnd = (s', r) \<Longrightarrow> readable (seg_log s) \<Longrightarrow> readable (seg_log s')"
  by (auto simp: segment_append_def Let_def write_at_readable split: if_splits sum.splits prod.splits)

lemma segment_sync_readable: "segment_sync s = (s', r) \<Longrightarrow> readable (seg_log s) \<Longrightarrow> readable (seg_log s')"
  by (auto simp: segment_sync_def sync_file_def readable_def split: sum.splits prod.splits)

lemma segment_seal_readable: "segment_seal s = (s', r) \<Longrightarrow> readable (seg_log s) \<Longrightarrow> readable (seg_log s')"
  using segment_sync_readable by (fastforce simp: segment_seal_def split: sum.splits prod.splits)

lemma set_active_readable:
  "plog_readable pl \<Longrightarrow> segments pl \<noteq> [] \<Longrightarrow> readable (seg_log s) \<Longrightarrow> plog_readable (set_active pl s) \<and> segments (set_active pl s) \<noteq> []"
  by (auto simp: plog_readable_def set_active_def dest: in_set_butlastD)

lemma active_readable: "plog_readable pl \<Longrightarrow> segments pl \<noteq> [] \<Longrightarrow> readable (seg_log (active pl))"
  by (simp add: plog_readable_def)

lemmas keeps_readable = segment_append_readable segment_sync_readable segment_seal_readable set_active_readable active_readable

lemma plog_readable_cong [simp]:
  "plog_readable (pl\<lparr> recovery_point := x \<rparr>) = plog_readable pl" "plog_readable (pl\<lparr> bytes_since_sync := y \<rparr>) = plog_readable pl"
  "plog_readable (pl\<lparr> log_end_offset := z \<rparr>) = plog_readable pl"
  by (simp_all add: plog_readable_def)

lemma roll_segment_readable:
  assumes "roll_segment cr env pl = (pl', r)" "env_ok env" "plog_readable pl" "segments pl \<noteq> []"
  shows "plog_readable pl' \<and> segments pl' \<noteq> []"
proof -
  obtain s r' where s: "segment_seal (active pl) = (s, r')" by fastforce
  have k: "plog_readable (set_active pl s) \<and> segments (set_active pl s) \<noteq> []"
    using s assms(3,4) keeps_readable by blast
  show ?thesis
    using assms(1) k create_segment_inv [OF _ assms(2)]
    by (auto simp: roll_segment_def s Let_def plog_readable_def split: sum.splits)
qed

lemma maybe_sync_readable:
  assumes "maybe_sync pl n = (pl', r)" "plog_readable pl" "segments pl \<noteq> []"
  shows "plog_readable pl' \<and> segments pl' \<noteq> []"
proof -
  have s: "plog_readable p' \<and> segments p' \<noteq> []" if "plog_sync p = (p', q)" "plog_readable p" "segments p \<noteq> []" for p p' q
    using that by (auto simp: plog_sync_def keeps_readable split: sum.splits prod.splits)
  show ?thesis using assms by (auto simp: maybe_sync_def Let_def dest!: s split: FsyncPolicy.splits if_splits)
qed

lemma plog_append_readable:
  assumes "plog_append cr env pl b = (pl', r)" "env_ok env" "plog_readable pl" "segments pl \<noteq> []"
  shows "plog_readable pl'"
proof -
  let ?rolled = "if \<not> is_empty (active pl) \<and> is_full (active pl) (segment_bytes (cfg pl)) then roll_segment cr env pl else (pl, Inr ())"
  obtain p1 r1 where r1: "?rolled = (p1, r1)" by fastforce
  then have k1: "plog_readable p1" "segments p1 \<noteq> []"
    using roll_segment_readable assms by (auto split: if_splits)
  obtain s r2 where s: "segment_append cr (active p1) (rebase b (log_end_offset p1)) (nonce_random env) = (s, r2)" by fastforce
  then have k2: "plog_readable (set_active p1 s) \<and> segments (set_active p1 s) \<noteq> []"
    using k1 keeps_readable by blast
  show ?thesis
    using assms(1) k1 k2 maybe_sync_readable
    by (fastforce simp: plog_append_def append_rolled_def r1 s Let_def split: sum.splits prod.splits)
qed


lemma propose_offset_readable:
  assumes "propose_offset cr n b = (n', Inr k)" "raft_fit cr n b" "segments (rl_log (rn_log n)) \<noteq> []"
  shows "plog_readable (rl_log (rn_log n'))"
proof -
  define e where "e = \<lparr> le_term = node_term n, le_index = op_last_index (raft_log_ops cr) (rn_log n) + 1, le_type = Data, le_payload = encode b \<rparr>"
  obtain i where ap: "rl_append cr (rn_log n) [e] = (rn_log n', Inr i)"
    using assms(1) by (auto simp: propose_offset_def propose_def e_def Let_def raft_log_ops_def split: prod.splits sum.splits if_splits)
  have u: "plog_readable (rl_log (rn_log n))" "env_ok (rl_envs (rn_log n) 0)" using assms(2) by (simp_all add: raft_fit_def log_usable_def)
  have "plog_readable (rl_log l)" if "append_entry cr (rn_log n) e = (l, Inr x)" for l x
    using that plog_append_readable [OF _ u(2,1) assms(3)]
    by (auto simp: append_entry_def persist_meta_def Let_def split: sum.splits prod.splits)
  then show ?thesis using ap by (auto split: prod.splits sum.splits)
qed

lemma part_produce_readable:
  assumes i: "part_inv cr p" "part_fit cr p b" "appends (part_sessions p) b" and pr: "part_produce cr b p = (p', Inr k)"
    and rd: "plog_readable (part_log p)"
  shows "plog_readable (part_log p')"
proof (cases p)
  case (LocalPartition q)
  obtain l envs ss where x: "idempotent_produce (plog_append_next cr) (\<lambda>le. log_end_offset (fst le)) b ((pt_log q, pt_envs q), pt_producers q) = (((l, envs), ss), Inr k)"
    and p': "p' = LocalPartition (q\<lparr> pt_log := l, pt_envs := envs, pt_producers := ss \<rparr>)"
    using pr LocalPartition by (auto simp: partition_produce_def split: prod.splits)
  have "plog_append_next cr (pt_log q, pt_envs q) b = ((l, envs), Inr k)" using idempotent_appends [OF _ x] i(3) LocalPartition by simp
  then have "plog_append cr (pt_envs q 0) (pt_log q) b = (l, Inr k)" by (auto simp: plog_append_next_def split: prod.splits)
  then show ?thesis
    using plog_append_readable i(1,2) rd p' LocalPartition by (auto simp: local_fit_def plog_inv_def)
next
  case (RaftPartition q)
  obtain n ss where x: "idempotent_produce (propose_offset cr) (\<lambda>n. log_end_offset (rl_log (rn_log n))) b (rp_raft q, rp_producers q) = ((n, ss), Inr k)"
    and p': "p' = RaftPartition (q\<lparr> rp_raft := n, rp_producers := ss \<rparr>)"
    using pr RaftPartition by (auto simp: replicated_produce_def split: prod.splits if_splits)
  have "propose_offset cr (rp_raft q) b = (n, Inr k)" using idempotent_appends [OF _ x] i(3) RaftPartition by simp
  moreover have "segments (rp_log q) \<noteq> []" using i(1) RaftPartition by (auto simp: rl_mem_def plog_inv_def)
  ultimately show ?thesis using propose_offset_readable i(2) p' RaftPartition by simp
qed


text \<open>The partition of a topic on the node, held by the core that owns it.\<close>

definition node_partition :: "Node \<Rightarrow> bytes \<Rightarrow> int \<Rightarrow> PartitionBase option" where
  "node_partition nd topic pid = find_partition (nd_managers nd ! core_of (cores nd) pid) topic pid"

lemma part_claim_native:
  assumes "part_protocol p \<noteq> Kafka"
  shows "\<exists>p'. part_claim Native p = (p', Inr ()) \<and> part_protocol p' = Native \<and> part_log p' = part_log p \<and>
    part_sessions p' = part_sessions p \<and> part_inv cr p' = part_inv cr p \<and> part_fit cr p' b = part_fit cr p b"
proof -
  have "claim_protocol Native (part_protocol p) = (Native, Inr ())" using assms by (cases "part_protocol p") (simp_all add: claim_protocol_def)
  then show ?thesis by (cases p) simp_all
qed

lemma produce_succeeds:
  assumes q: "wf_ProduceRequest q" "prq_batch q = encode b" "wf_batch b" "0 < cores nd"
    and part: "node_partition nd (prq_topic q) (prq_partition q) = Some p" "part_protocol p \<noteq> Kafka"
    and ok: "respond su Produce (encode_ProduceRequest q) nd = (nd', ProduceR r)" "prr_error_code r = WNone"
  obtains p1 p2 k where "part_claim Native p = (p1, Inr ())" "part_produce (su_crypto su) b p1 = (p2, Inr k)"
    "prr_base_offset r = k - record_count (header b) + 1" "cores nd' = cores nd" "nd_shards nd' = nd_shards nd"
    "\<forall>t i. node_partition nd' t i = (if t = prq_topic q \<and> i = prq_partition q then Some p2 else node_partition nd t i)"
proof -
  let ?o = "core_of (cores nd) (prq_partition q)" and ?i = "prq_partition q"
  have o: "?o < cores nd" using assms(4) by (simp add: core_of_def)
  have d: "decode (prq_batch q) = Inr b" using decode_encode [of b "[]"] q by simp
  have f: "find_partition (nd_managers nd ! ?o) (prq_topic q) ?i = Some p" using part(1) by (simp add: node_partition_def)
  obtain p1 where p1: "part_claim Native p = (p1, Inr ())" using part_claim_native [OF part(2)] by blast
  obtain p2 w where p2: "part_produce (su_crypto su) b p1 = (p2, w)" by fastforce
  have di: "dispatch_produce su (encode_ProduceRequest q) nd = (nd', r)" using ok(1) by (cases "dispatch_produce su (encode_ProduceRequest q) nd") auto
  obtain k where w: "w = Inr k"
    using di ok(2) produceRequest_format.dec_enc [OF q(1), of "[]"]
    by (cases w) (auto simp: dispatch_produce_def on_owner_def handle_produce_def f d p1 p2 produce_response_def Let_def)
  let ?tm = "put_partition (prq_topic q) ?i p2 (nd_managers nd ! ?o)"
  have nd': "nd' = nd\<lparr> nd_managers := (nd_managers nd)[?o := ?tm] \<rparr>" "r = produce_response (k - record_count (header b) + 1) WNone"
    using di ok(2) produceRequest_format.dec_enc [OF q(1), of "[]"]
    by (auto simp: dispatch_produce_def on_owner_def handle_produce_def f d p1 p2 w Let_def)
  have "node_partition nd' t i = (if t = prq_topic q \<and> i = ?i then Some p2 else node_partition nd t i)" for t i
    using o f by (auto simp: node_partition_def nd' nth_list_update find_put_partition)
  with that [OF p1 p2 [unfolded w]] nd' show ?thesis by (simp add: produce_response_def)
qed

lemma fetch_answers:
  assumes f: "wf_FetchRequest f" "0 < cores nd"
    and part: "node_partition nd (feq_topic f) (feq_partition f) = Some p" "part_protocol p = Native"
    and r: "part_fetch (su_crypto su) p (feq_fetch_offset f) (if feq_max_bytes f > 0 then nat (feq_max_bytes f) else kDefaultFetchBytes) = Inr fr"
  shows "respond su Fetch (encode_FetchRequest f) nd =
    (nd, FetchR \<lparr> fer_batches = batches fr, fer_high_watermark = part_high_watermark p, fer_log_start_offset = log_start_offset (part_log p), fer_error_code = WNone \<rparr>)"
proof -
  have p: "find_partition (nd_managers nd ! core_of (cores nd) (feq_partition f)) (feq_topic f) (feq_partition f) = Some p"
    using part(1) by (simp add: node_partition_def)
  have h: "handle_fetch (su_crypto su) (nd_managers nd ! core_of (cores nd) (feq_partition f)) f = \<lparr> fo_error = WNone, fo_result = fr,
      fo_high_watermark = part_high_watermark p, fo_log_start_offset = log_start_offset (part_log p) \<rparr>"
    unfolding handle_fetch_def p option.case Let_def r by (simp add: part(2))
  show ?thesis
    using fetchRequest_format.dec_enc [OF f(1), of "[]"] by (simp add: dispatch_fetch_def on_owner_def Let_def h)
qed




definition sample_node :: Node where
  "sample_node = \<lparr> nd_id = 1, nd_host = [], nd_port = 9092,
     nd_managers = [(new_manager 1 0 1 sample_config [] 0 None)\<lparr> topics := [(ascii ''jobs'',
       add_partition 0 (LocalPartition roomy_partition) (new_topic \<lparr> tmd_name = ascii ''jobs'', tmd_partition_count = 1,
         tmd_replication_factor = 1, tmd_config = default_topic_config, tmd_created_at_ms = 0 \<rparr>))] \<rparr>],
     nd_shards = new_group_catalog 1 \<rparr>"


definition sample_surroundings :: Surroundings where
  "sample_surroundings = \<lparr> su_core = 0, su_crypto = no_crypto, su_disk = fresh_files, su_remove = (\<lambda>_ _. True), su_wall_ms = 0, su_now = 0 \<rparr>"

definition sample_produce :: ProduceRequest where
  "sample_produce = \<lparr> prq_topic = ascii ''jobs'', prq_partition = 0, prq_acks = AcksQuorum, prq_batch = encode (numbered_batch 0) \<rparr>"

definition sample_fetch :: FetchRequest where
  "sample_fetch = \<lparr> feq_topic = ascii ''jobs'', feq_partition = 0, feq_fetch_offset = 10, feq_max_bytes = 1, feq_min_bytes = 0, feq_max_wait_ms = 0 \<rparr>"

lemma wf_numbered_batch: "wf_batch (numbered_batch 0)"
  by (simp add: wf_batch_def wf_header_def numbered_batch_def default_header_def)

lemma sample_requests_ok: "wf_ProduceRequest sample_produce" "wf_FetchRequest sample_fetch"
proof -
  have "length (encode (numbered_batch 0)) < 2 ^ 64"
    using decode_encode [OF wf_numbered_batch, of "[]"] length_encode [of "numbered_batch 0"] by (simp add: encoded_size_def numbered_batch_def)
  then show "wf_ProduceRequest sample_produce" "wf_FetchRequest sample_fetch"
    by (simp_all add: wf_ProduceRequest_def wf_FetchRequest_def sample_produce_def sample_fetch_def)
qed

lemma sample_partition: "node_partition sample_node (ascii ''jobs'') 0 = Some (LocalPartition roomy_partition)"
  by (simp add: node_partition_def sample_node_def find_partition_def get_topic_def add_partition_def new_topic_def core_of_def)

lemma roomy_appends: "appends (pt_producers roomy_partition) (numbered_batch 0)"
  by (simp add: appends_def session_for_def session_check_def)
    (simp add: numbered_batch_def roomy_partition_def new_partition_def new_session_def kNoSequence_def)

lemma sample_produced:
  "\<exists>nd' r. respond sample_surroundings Produce (encode_ProduceRequest sample_produce) sample_node = (nd', ProduceR r) \<and> prr_error_code r = WNone \<and> prr_base_offset r = 10"
proof -
  let ?p = "roomy_partition\<lparr> pt_protocol := Native \<rparr>" and ?tm = "nd_managers sample_node ! 0"
  obtain p1 :: Partition where p1: "idempotent_produce (plog_append_next no_crypto) (\<lambda>le. log_end_offset (fst le)) (numbered_batch 0)
      ((pt_log roomy_partition, pt_envs roomy_partition), pt_producers roomy_partition) = (((pt_log p1, pt_envs p1), pt_producers p1), Inr 11)"
    using roomy_produces by blast
  then obtain p2 where p2: "part_produce no_crypto (numbered_batch 0) (LocalPartition ?p) = (p2, Inr 11)"
    by (simp add: partition_produce_def)
  have c: "part_claim Native (LocalPartition roomy_partition) = (LocalPartition ?p, Inr ())"
    by (simp add: roomy_partition_def new_partition_def claim_protocol_def)
  have q: "prq_topic sample_produce = ascii ''jobs''" "prq_partition sample_produce = 0" "decode (prq_batch sample_produce) = Inr (numbered_batch 0)"
    using decode_encode [OF wf_numbered_batch, of "[]"] by (simp_all add: sample_produce_def)
  have f: "find_partition ?tm (prq_topic sample_produce) (prq_partition sample_produce) = Some (LocalPartition roomy_partition)" "cores sample_node = 1"
    unfolding q using sample_partition by (simp_all add: node_partition_def sample_node_def core_of_def del: ascii_simps)
  have h: "snd (handle_produce no_crypto sample_produce ?tm) = produce_response 10 WNone"
    unfolding handle_produce_def f(1) option.case q(3) sum.case c prod.case p2 snd_conv by (simp add: numbered_batch_def)
  have d: "dispatch_produce sample_surroundings (encode_ProduceRequest sample_produce) sample_node =
      on_owner (prq_partition sample_produce) (handle_produce no_crypto sample_produce) sample_node"
    using produceRequest_format.dec_enc [OF sample_requests_ok(1), of "[]"] by (simp add: dispatch_produce_def sample_surroundings_def)
  have "snd (on_owner (prq_partition sample_produce) (handle_produce no_crypto sample_produce) sample_node) = produce_response 10 WNone"
    using h f(2) by (simp add: on_owner_def core_of_def q(2) case_prod_unfold)
  then show ?thesis
    by (cases "on_owner (prq_partition sample_produce) (handle_produce no_crypto sample_produce) sample_node") (simp add: d produce_response_def)
qed



text \<open>
  The answer to a fetch is not cut at the high watermark: a replica that has committed nothing serves the last batch of
  its log, with a watermark at or below the offset of that batch.
\<close>

lemma fetch_uncommitted:
  assumes "wf_FetchRequest f" "0 < cores nd" "node_partition nd (feq_topic f) (feq_partition f) = Some (RaftPartition p)" "rp_protocol p = Native"
    and "rl_mem (su_crypto su) (rp_rlog p) a []" "plog_readable (rp_log p)" "commit_index (rn_volatile (rp_raft p)) = 0"
    and "plog_inv (su_crypto su) (rp_log p) bss" "log_batches bss = xs @ [b]" "feq_fetch_offset f = base_offset (header b)"
  shows "\<exists>r. respond su Fetch (encode_FetchRequest f) nd = (nd, FetchR r) \<and> fer_batches r = encode b \<and>
    fer_error_code r = WNone \<and> fer_high_watermark r \<le> base_offset (header b)"
proof -
  let ?m = "if feq_max_bytes f > 0 then nat (feq_max_bytes f) else kDefaultFetchBytes"
  have m: "0 < ?m" by (simp add: kDefaultFetchBytes_def)
  have "part_fetch (su_crypto su) (RaftPartition p) (feq_fetch_offset f) ?m = Inr \<lparr> batches = encode b, next_offset = last_offset b + 1 \<rparr>"
    using plog_read_last [OF assms(8,6,9) m] assms(10) by (simp add: replicated_fetch_def)
  note r = fetch_answers [OF assms(1-3) _ this]
  have "replicated_high_watermark p = log_start_offset (rp_log p)" using assms(7) by (simp add: replicated_high_watermark_def)
  moreover have "log_start_offset (rp_log p) \<le> base_offset (header b)"
    using assms(8,9) chain_contiguous [of "su_crypto su" "log_start_offset (rp_log p)" "segments (rp_log p)" bss]
      end_of_ge [of "log_start_offset (rp_log p)" xs] by (auto simp: plog_inv_def contiguous_append)
  ultimately show ?thesis using r assms(4) by simp
qed


section \<open>Offsets of groups through the router\<close>

definition committed :: "Node \<Rightarrow> bytes \<Rightarrow> bytes \<Rightarrow> int \<Rightarrow> int expected" where
  "committed nd grp topic pid = offset_fetch (shard_offsets (nd_shards nd ! group_core nd grp)) grp topic pid"

text \<open>
  C40: A consumer resumes where its group committed.  An \<^verbatim>\<open>OffsetCommit\<close> is acknowledged and reaches the core that owns
  the group; afterwards the node has that offset for that group, topic and partition, every
  other committed offset of every group is as before, no partition changed, and an \<^verbatim>\<open>OffsetFetch\<close> of any group and partition
  answers with what is committed for it, or -1 when nothing is.
\<close>

theorem offset_commit_served:
  assumes "wf_OffsetCommitRequest c" "wf_OffsetFetchRequest f" "0 < cores nd" "cores nd = length (nd_shards nd)"
  shows "\<exists>nd'. respond su OffsetCommit (encode_OffsetCommitRequest c) nd = (nd', OffsetCommitR \<lparr> ocr_error_code = WNone \<rparr>) \<and>
    nd_managers nd' = nd_managers nd \<and>
    (\<forall>g t i. committed nd' g t i = (if g = ocq_group c \<and> t = ocq_topic c \<and> i = ocq_partition c then Inr (ocq_offset c) else committed nd g t i)) \<and>
    respond su OffsetFetch (encode_OffsetFetchRequest f) nd' = (nd', OffsetFetchR
      \<lparr> ofr_offset = (case committed nd' (ofq_group f) (ofq_topic f) (ofq_partition f) of Inr off \<Rightarrow> off | Inl _ \<Rightarrow> -1), ofr_error_code = WNone \<rparr>)"
proof -
  let ?o = "group_core nd (ocq_group c)" and ?s = "\<lambda>i. nd_shards nd ! i"
  have o: "group_core nd g < length (nd_shards nd)" for g
    using assms(3) unfolding group_core_def assms(4) [symmetric] by simp
  define nd' where "nd' = nd\<lparr> nd_shards := (nd_shards nd)[?o := (?s ?o)\<lparr> shard_offsets :=
    offset_commit (ocq_group c) (ocq_topic c) (ocq_partition c) (ocq_offset c) (ocq_metadata c) (shard_offsets (?s ?o)) \<rparr>] \<rparr>"
  have gc: "group_core nd' g = group_core nd g" for g by (simp add: group_core_def nd'_def)
  have "respond su OffsetCommit (encode_OffsetCommitRequest c) nd = (nd', OffsetCommitR \<lparr> ocr_error_code = WNone \<rparr>)"
    using offsetCommitRequest_format.dec_enc [OF assms(1), of "[]"]
    by (simp add: dispatch_offset_commit_def on_group_owner_def on_offsets_def handle_offset_commit_def nd'_def Let_def)
  moreover have "committed nd' g t i = (if g = ocq_group c \<and> t = ocq_topic c \<and> i = ocq_partition c then Inr (ocq_offset c) else committed nd g t i)" for g t i
    unfolding committed_def gc using o by (auto simp: nd'_def nth_list_update fetch_after_commit)
  moreover have "respond su OffsetFetch (encode_OffsetFetchRequest f) nd' = (nd', OffsetFetchR
      \<lparr> ofr_offset = (case committed nd' (ofq_group f) (ofq_topic f) (ofq_partition f) of Inr off \<Rightarrow> off | Inl _ \<Rightarrow> -1), ofr_error_code = WNone \<rparr>)"
    using offsetFetchRequest_format.dec_enc [OF assms(2), of "[]"]
    by (simp add: dispatch_offset_fetch_def on_group_owner_def on_offsets_def handle_offset_fetch_def committed_def Let_def)
  moreover have "nd_managers nd' = nd_managers nd" by (simp add: nd'_def)
  ultimately show ?thesis by blast
qed

definition sample_commit :: OffsetCommitRequest where
  "sample_commit = \<lparr> ocq_group = ascii ''g'', ocq_topic = ascii ''jobs'', ocq_partition = 0, ocq_offset = 12, ocq_metadata = [] \<rparr>"

definition sample_offset_fetch :: OffsetFetchRequest where
  "sample_offset_fetch = \<lparr> ofq_group = ascii ''g'', ofq_topic = ascii ''jobs'', ofq_partition = 0 \<rparr>"

theorem offset_commit_served_witness:
  "\<exists>nd'. respond sample_surroundings OffsetCommit (encode_OffsetCommitRequest sample_commit) sample_node = (nd', OffsetCommitR \<lparr> ocr_error_code = WNone \<rparr>) \<and>
     respond sample_surroundings OffsetFetch (encode_OffsetFetchRequest sample_offset_fetch) nd' = (nd', OffsetFetchR \<lparr> ofr_offset = 12, ofr_error_code = WNone \<rparr>)"
proof -
  have "wf_OffsetCommitRequest sample_commit" "wf_OffsetFetchRequest sample_offset_fetch"
    by (simp_all add: wf_OffsetCommitRequest_def wf_OffsetFetchRequest_def sample_commit_def sample_offset_fetch_def)
  moreover have "0 < cores sample_node" "cores sample_node = length (nd_shards sample_node)"
    by (simp_all add: sample_node_def new_group_catalog_def)
  ultimately obtain nd' where n: "respond sample_surroundings OffsetCommit (encode_OffsetCommitRequest sample_commit) sample_node = (nd', OffsetCommitR \<lparr> ocr_error_code = WNone \<rparr>)"
    "committed nd' (ascii ''g'') (ascii ''jobs'') 0 = Inr 12"
    "respond sample_surroundings OffsetFetch (encode_OffsetFetchRequest sample_offset_fetch) nd' = (nd', OffsetFetchR
      \<lparr> ofr_offset = (case committed nd' (ofq_group sample_offset_fetch) (ofq_topic sample_offset_fetch) (ofq_partition sample_offset_fetch) of Inr off \<Rightarrow> off | Inl _ \<Rightarrow> -1),
        ofr_error_code = WNone \<rparr>)"
    using offset_commit_served [of sample_commit sample_offset_fetch sample_node sample_surroundings]
    by (force simp: sample_commit_def simp del: respond.simps ascii_simps)
  show ?thesis
    by (rule exI [of _ nd']) (use n in \<open>simp add: sample_offset_fetch_def del: respond.simps ascii_simps\<close>)
qed



section \<open>Every request is answered\<close>

text \<open>What a body that does not decode is answered with.\<close>

fun refusal :: "ApiKey \<Rightarrow> Response" where
  "refusal ApiVersions = ApiVersionsR \<lparr> avr_ranges = supported_versions \<rparr>"
| "refusal Metadata = MetadataR \<lparr> mdr_brokers = [], mdr_topics = [] \<rparr>"
| "refusal Produce = ProduceR (produce_response (-1) InvalidRequest)"
| "refusal Fetch = FetchR (fetch_response InvalidRequest)"
| "refusal CreateTopic = CreateTopicR \<lparr> ctr_error_code = InvalidRequest \<rparr>"
| "refusal DeleteTopic = DeleteTopicR \<lparr> dtr_error_code = InvalidRequest \<rparr>"
| "refusal OffsetCommit = OffsetCommitR \<lparr> ocr_error_code = InvalidRequest \<rparr>"
| "refusal OffsetFetch = OffsetFetchR \<lparr> ofr_offset = -1, ofr_error_code = InvalidRequest \<rparr>"
| "refusal JoinGroup = JoinGroupR (join_response InvalidRequest)"
| "refusal SyncGroup = SyncGroupR \<lparr> sgr_error_code = InvalidRequest, sgr_assignment = [] \<rparr>"
| "refusal Heartbeat = HeartbeatR \<lparr> hbr_error_code = InvalidRequest \<rparr>"
| "refusal LeaveGroup = LeaveGroupR \<lparr> lgr_error_code = InvalidRequest \<rparr>"

text \<open>
  The cores of a node agree: each manager knows its core, all managers have the same topics with the same number of partitions, the open
  partitions of a topic on a core are those whose requests are routed to it, and every group keeps its invariant.
\<close>

definition partition_count :: "TopicManager \<Rightarrow> bytes \<Rightarrow> int option" where
  "partition_count tm name = map_option (\<lambda>t. tmd_partition_count (topic_meta t)) (get_topic tm name)"

definition manager_ok :: "nat \<Rightarrow> nat \<Rightarrow> TopicManager \<Rightarrow> bool" where
  "manager_ok n i tm \<longleftrightarrow> num_cores tm = n \<and> owner_core tm = i \<and> manager_inv tm \<and>
     (\<forall>name topic pid. get_topic tm name = Some topic \<longrightarrow>
        (topic_partitions topic pid \<noteq> None) = (0 \<le> pid \<and> pid < tmd_partition_count (topic_meta topic) \<and> core_of n pid = i))"

definition managers_ok :: "TopicManager list \<Rightarrow> bool" where
  "managers_ok tms \<longleftrightarrow> tms \<noteq> [] \<and> (\<forall>i < length tms. manager_ok (length tms) i (tms ! i) \<and> partition_count (tms ! i) = partition_count (hd tms))"

definition shard_ok :: "GroupShard \<Rightarrow> bool" where
  "shard_ok s \<longleftrightarrow> (\<forall>gid g. find_group (shard_groups s) gid = Some g \<longrightarrow> group_inv g) \<and> distinct (map fst (shard_offsets s))"

definition node_ok :: "Node \<Rightarrow> bool" where
  "node_ok nd \<longleftrightarrow> managers_ok (nd_managers nd) \<and> length (nd_shards nd) = cores nd \<and> (\<forall>s \<in> set (nd_shards nd). shard_ok s)"

lemma manager_ok_put:
  assumes "manager_ok n i tm" "find_partition tm name pid \<noteq> None"
  shows "manager_ok n i (put_partition name pid p tm)" "partition_count (put_partition name pid p tm) = partition_count tm"
proof -
  obtain t where t: "get_topic tm name = Some t" "topic_partitions t pid \<noteq> None"
    using assms(2) by (auto simp: find_partition_def split: option.splits)
  have g: "get_topic (put_partition name pid p tm) x = (if x = name then Some (add_partition pid p t) else get_topic tm x)" for x
    using t(1) by (auto simp: put_partition_def get_topic_def update_conv)
  have "num_cores (put_partition name pid p tm) = num_cores tm" "owner_core (put_partition name pid p tm) = owner_core tm"
    "replicas (put_partition name pid p tm) = replicas tm" using t(1) by (simp_all add: put_partition_def)
  moreover have "manager_inv (put_partition name pid p tm)"
    using assms(1) g t(1) calculation(3) by (auto simp: manager_ok_def manager_inv_def get_topic_def split: if_splits)
  moreover have "(topic_partitions (add_partition pid p t) q \<noteq> None) = (topic_partitions t q \<noteq> None)" for q
    using t(2) by (simp add: add_partition_def)
  moreover have "topic_meta (add_partition pid p t) = topic_meta t" by (simp add: add_partition_def)
  ultimately show "manager_ok n i (put_partition name pid p tm)" "partition_count (put_partition name pid p tm) = partition_count tm"
    using assms(1) t(1) by (auto simp: manager_ok_def partition_count_def g fun_eq_iff)
qed

lemma managers_ok_update:
  assumes "managers_ok tms" "i < length tms" "manager_ok (length tms) i tm" "partition_count tm = partition_count (tms ! i)"
  shows "managers_ok (tms[i := tm])"
proof -
  have "partition_count (hd (tms[i := tm])) = partition_count (hd tms)"
    using assms by (cases tms) (auto simp: managers_ok_def nth_Cons split: nat.splits)
  then show ?thesis using assms by (auto simp: managers_ok_def nth_list_update)
qed

lemma handle_produce_ok:
  assumes "manager_ok n i tm" "handle_produce cr req tm = (tm', r)"
  shows "manager_ok n i tm'" "partition_count tm' = partition_count tm"
proof -
  have "tm' = tm \<or> (\<exists>p. tm' = put_partition (prq_topic req) (prq_partition req) p tm \<and> find_partition tm (prq_topic req) (prq_partition req) \<noteq> None)"
    using assms(2) by (auto simp: handle_produce_def split: option.splits sum.splits prod.splits)
  then show "manager_ok n i tm'" "partition_count tm' = partition_count tm" using assms(1) manager_ok_put by auto
qed

lemma create_ok:
  assumes ok: "managers_ok tms" and c: "create_on_cores cr dk rm now name count c rf tms = (tms', dirs, r)"
  shows "managers_ok tms' \<and> length tms' = length tms"
proof (cases r)
  case (Inl e)
  have "\<forall>tm \<in> set tms. manager_inv tm" using ok by (auto simp: managers_ok_def manager_ok_def in_set_conv_nth)
  then have "tms' = tms" using create_on_cores_fails [OF c [unfolded Inl]] by blast
  then show ?thesis using ok by simp
next
  case (Inr m)
  note k = create_on_cores_ok [OF c [unfolded Inr]]
  have s: "manager_ok (length tms) i (tms' ! i) \<and> partition_count (tms' ! i) = (partition_count (tms ! i))(name \<mapsto> count)" if i: "i < length tms" for i
  proof -
    have o: "manager_ok (length tms) i (tms ! i)" using ok i by (simp add: managers_ok_def)
    obtain m where m: "create_topic cr dk now name count c rf (tms ! i) = (tms' ! i, Inr m)" using k i by blast
    obtain topic new where t: "topics (tms' ! i) = (name, topic) # topics (tms ! i)" "replicas (tms' ! i) = replicas (tms ! i) @ new"
      "topic_meta topic = m" "\<forall>x \<in> set new. rx_topic x = name"
      "\<forall>pid. (topic_partitions topic pid \<noteq> None) = (0 \<le> pid \<and> pid < count \<and> owns_partition (tms ! i) pid)"
      using create_topic_spec(5) [OF m] by blast
    have "manager_inv (tms' ! i)" using o t(1,2,4) by (auto simp: manager_ok_def manager_inv_def)
    then show ?thesis
      using o t create_topic_spec(1-3) [OF m] by (auto simp: manager_ok_def partition_count_def get_topic_def owns_partition_def fun_eq_iff)
  qed
  have l: "0 < length tms" "length tms' = length tms" using ok k by (auto simp: managers_ok_def)
  then have h: "hd tms' = tms' ! 0" "hd tms = tms ! 0" by (cases tms; cases tms'; simp)+
  have "partition_count (tms' ! i) = partition_count (tms' ! 0)" if "i < length tms" for i
    using ok s [OF that] s [OF l(1)] that unfolding managers_ok_def h by metis
  moreover have "tms' \<noteq> []" using l by auto
  ultimately show ?thesis using s l(2) unfolding managers_ok_def h l(2) by blast
qed

lemma delete_each:
  "delete_topic_on_cluster rm name tms = (tms', dirs, r) \<Longrightarrow> tms' = map (\<lambda>tm. fst (delete_topic rm name tm)) tms"
  by (induction tms arbitrary: tms' dirs r) (auto split: prod.splits)

lemma delete_ok:
  assumes ok: "managers_ok tms" and d: "delete_topic_on_cluster rm name tms = (tms', dirs, r)"
  shows "managers_ok tms' \<and> length tms' = length tms"
proof -
  note t = delete_each [OF d]
  have s: "manager_ok n i (fst (delete_topic rm name tm)) \<and> partition_count (fst (delete_topic rm name tm)) = (partition_count tm)(name := None)"
    if o: "manager_ok n i tm" for n i tm
  proof (cases "map_of (topics tm) name")
    case None
    then show ?thesis using o by (auto simp: delete_topic_def partition_count_def get_topic_def)
  next
    case (Some x)
    then show ?thesis using o
      by (auto simp: delete_topic_def manager_ok_def manager_inv_def partition_count_def get_topic_def delete_conv fun_eq_iff Let_def)
  qed
  have l: "0 < length tms" "length tms' = length tms" using ok t by (auto simp: managers_ok_def)
  then have h: "hd tms' = tms' ! 0" "hd tms = tms ! 0" by (cases tms; cases tms'; simp)+
  have m: "manager_ok (length tms) i (tms ! i)" "partition_count (tms ! i) = partition_count (tms ! 0)" if "i < length tms" for i
    using ok that unfolding managers_ok_def h by blast+
  have "partition_count (tms' ! i) = partition_count (tms' ! 0)" "manager_ok (length tms) i (tms' ! i)" if "i < length tms" for i
    using s [OF m(1) [OF that]] s [OF m(1) [OF l(1)]] m(2) [OF that] that l by (simp_all add: t)
  moreover have "tms' \<noteq> []" using l by auto
  ultimately show ?thesis using l(2) unfolding managers_ok_def h l(2) by blast
qed


lemma node_ok_owner:
  assumes ok: "node_ok nd" and f: "\<And>n i tm tm' r. manager_ok n i tm \<Longrightarrow> f tm = (tm', r) \<Longrightarrow> manager_ok n i tm' \<and> partition_count tm' = partition_count tm"
  shows "node_ok (fst (on_owner pid f nd))"
proof -
  let ?o = "core_of (cores nd) pid"
  obtain tm r where t: "f (nd_managers nd ! ?o) = (tm, r)" by fastforce
  have m: "managers_ok (nd_managers nd)" "0 < cores nd" using ok by (auto simp: node_ok_def managers_ok_def)
  then have o: "?o < cores nd" by (simp add: core_of_def)
  then have "manager_ok (cores nd) ?o (nd_managers nd ! ?o)" using m by (simp add: managers_ok_def)
  then have "managers_ok ((nd_managers nd)[?o := tm])" using managers_ok_update [OF m(1) o] f [OF _ t] by blast
  then show ?thesis using ok t by (simp add: on_owner_def Let_def node_ok_def)
qed

lemma node_ok_group:
  assumes ok: "node_ok nd" and f: "\<And>s s' r. shard_ok s \<Longrightarrow> f s = (s', r) \<Longrightarrow> shard_ok s'"
  shows "node_ok (fst (on_group_owner grp f nd))"
proof -
  let ?o = "group_core nd grp"
  obtain s r where t: "f (nd_shards nd ! ?o) = (s, r)" by fastforce
  have "?o < length (nd_shards nd)" using ok by (auto simp: node_ok_def managers_ok_def group_core_def)
  then have "shard_ok s" using ok f [OF _ t] by (auto simp: node_ok_def)
  then show ?thesis using ok t by (auto simp: on_group_owner_def Let_def node_ok_def dest!: set_update_subset_insert [THEN subsetD])
qed

lemma shard_ok_groups:
  assumes "shard_ok s" "on_groups f s = (s', r)" "coord_step (shard_groups s) (fst (f (shard_groups s)))"
  shows "shard_ok s'"
proof -
  obtain gs q where f: "f (shard_groups s) = (gs, q)" by fastforce
  have "group_inv g" if "find_group gs gid = Some g" for gid g
  proof -
    have st: "group_step\<^sup>*\<^sup>* (case find_group (shard_groups s) gid of None \<Rightarrow> new_group gid | Some g \<Rightarrow> g) g"
      using coord_step_groups [OF assms(3), of gid g] f that by simp
    have "group_inv (case find_group (shard_groups s) gid of None \<Rightarrow> new_group gid | Some g \<Rightarrow> g)"
      using assms(1) group_reach_inv [OF rtranclp.rtrancl_refl, of gid] by (auto simp: shard_ok_def split: option.split)
    with st show ?thesis by (induction rule: rtranclp_induct) (auto dest: group_step_inv)
  qed
  then show ?thesis using assms(1,2) f by (auto simp: shard_ok_def on_groups_def)
qed

lemma handle_group_steps:
  "coord_step gs (fst (handle_join_group now jq gs))" "coord_step gs (fst (handle_sync_group now sq gs))"
  "coord_step gs (fst (handle_heartbeat now hq gs))" "coord_step gs (fst (handle_leave_group lq gs))"
proof -
  have "fst (handle_join_group now jq gs) = fst (coord_join now (jgq_group jq) (jgq_member_id jq) (jgq_subscription jq) (jgq_session_timeout_ms jq) gs)"
    by (simp add: handle_join_group_def split: prod.splits sum.splits)
  then show "coord_step gs (fst (handle_join_group now jq gs))" by (simp add: cstep_join)
  have "fst (handle_sync_group now sq gs) = fst (coord_sync now (sgq_group sq) (sgq_member_id sq) (sgq_generation sq)
      (map (\<lambda>e. \<lparr> ma_member_id = ga_member_id e, ma_assignment = ga_assignment e \<rparr>) (sgq_assignments sq)) gs)"
    by (simp add: handle_sync_group_def Let_def split: prod.splits sum.splits)
  then show "coord_step gs (fst (handle_sync_group now sq gs))" by (simp add: cstep_sync)
  have "fst (handle_heartbeat now hq gs) = fst (coord_heartbeat now (hbq_group hq) (hbq_member_id hq) (hbq_generation hq) gs)"
    by (simp add: handle_heartbeat_def split: prod.splits sum.splits HeartbeatStatus.splits)
  then show "coord_step gs (fst (handle_heartbeat now hq gs))" by (simp add: cstep_heartbeat)
  have "fst (handle_leave_group lq gs) = fst (coord_leave (lgq_group lq) (lgq_member_id lq) gs)"
    by (simp add: handle_leave_group_def split: prod.splits sum.splits)
  then show "coord_step gs (fst (handle_leave_group lq gs))" by (simp add: cstep_leave)
qed


lemma node_ok_groups:
  assumes "node_ok nd" "\<And>gs. coord_step gs (fst (f gs))"
  shows "node_ok (fst (on_group_owner grp (on_groups f) nd))"
  using node_ok_group [OF assms(1)] shard_ok_groups assms(2) by metis

lemma node_ok_offsets:
  assumes ok: "node_ok nd" and f: "\<And>m. distinct (map fst m) \<Longrightarrow> distinct (map fst (fst (f m)))"
  shows "node_ok (fst (on_group_owner grp (on_offsets f) nd))"
proof (rule node_ok_group [OF ok])
  fix s s' r
  assume "shard_ok s" "on_offsets f s = (s', r)"
  then show "shard_ok s'" using f [of "shard_offsets s"] by (auto simp: shard_ok_def on_offsets_def split: prod.splits)
qed

lemma dispatch_groups_ok:
  assumes ok: "node_ok nd"
  shows "node_ok (fst (dispatch_join_group su body nd))" "node_ok (fst (dispatch_sync_group su body nd))"
    "node_ok (fst (dispatch_heartbeat su body nd))" "node_ok (fst (dispatch_leave_group body nd))"
    "node_ok (fst (dispatch_offset_commit body nd))" "node_ok (fst (dispatch_offset_fetch body nd))"
  unfolding dispatch_join_group_def dispatch_sync_group_def dispatch_heartbeat_def dispatch_leave_group_def
    dispatch_offset_commit_def dispatch_offset_fetch_def
  by (auto simp: ok handle_offset_commit_def intro!: node_ok_groups node_ok_offsets handle_group_steps commit_distinct split: sum.split)

lemma dispatch_topics_ok:
  assumes ok: "node_ok nd"
  shows "node_ok (fst (create_topic_cluster su name count nd))" "node_ok (fst (delete_topic_cluster su name nd))"
proof -
  obtain tms dirs r where c: "create_topic_on_cluster (su_crypto su) (su_disk su) (su_remove su) (su_wall_ms su) name count default_topic_config (nd_managers nd) = (tms, dirs, r)"
    by (metis prod_cases3)
  show "node_ok (fst (create_topic_cluster su name count nd))"
    using create_ok [OF _ c [unfolded create_topic_on_cluster_def]] ok c by (auto simp: create_topic_cluster_def node_ok_def split: sum.splits)
  obtain tms dirs r where d: "delete_topic_on_cluster (su_remove su) name (nd_managers nd) = (tms, dirs, r)" by (metis prod_cases3)
  show "node_ok (fst (delete_topic_cluster su name nd))"
    using delete_ok [OF _ d] ok d by (auto simp: delete_topic_cluster_def node_ok_def)
qed

lemma respond_ok:
  assumes ok: "node_ok nd"
  shows "node_ok (fst (respond su key body nd))"
proof (cases key)
  case Produce
  have "node_ok (fst (on_owner pid (handle_produce cr req) nd))" for pid cr req
    by (rule node_ok_owner [OF ok]) (simp add: handle_produce_ok)
  then show ?thesis using Produce ok by (auto simp: dispatch_produce_def split: sum.splits)
next
  case Fetch
  have "node_ok (fst (on_owner pid (\<lambda>tm. (tm, handle_fetch cr tm req)) nd))" for pid cr req
    by (rule node_ok_owner [OF ok]) simp
  then show ?thesis using Fetch ok by (auto simp: dispatch_fetch_def case_prod_unfold split: sum.splits)
next
  case CreateTopic
  then show ?thesis using ok dispatch_topics_ok(1) [OF ok, of su] by (auto simp: split_beta split: sum.splits prod.splits)
next
  case DeleteTopic
  then show ?thesis using ok dispatch_topics_ok(2) [OF ok, of su] by (auto simp: split_beta split: sum.splits prod.splits)
qed (use ok dispatch_groups_ok [OF ok] in simp_all)


lemma respond_key: "response_key (snd (respond su key body nd)) = key"
  by (cases key) (auto split: sum.split prod.split)

lemma node_ok_partitions:
  assumes "node_ok nd"
  shows "(node_partition nd name pid \<noteq> None) = (\<exists>n. partition_count (hd (nd_managers nd)) name = Some n \<and> 0 \<le> pid \<and> pid < n)"
proof -
  let ?o = "core_of (cores nd) pid"
  have m: "managers_ok (nd_managers nd)" "0 < cores nd" using assms by (auto simp: node_ok_def managers_ok_def)
  then have o: "?o < cores nd" by (simp add: core_of_def)
  have k: "manager_ok (cores nd) ?o (nd_managers nd ! ?o)" "partition_count (nd_managers nd ! ?o) = partition_count (hd (nd_managers nd))"
    using m(1) o unfolding managers_ok_def by blast+
  show ?thesis
    unfolding k(2) [symmetric] using k(1)
    by (auto simp: node_partition_def find_partition_def partition_count_def manager_ok_def split: option.split)
qed

text \<open>A sequence of requests, each with the surroundings it meets.\<close>

fun serve :: "(Surroundings \<times> ApiKey \<times> bytes) list \<Rightarrow> Node \<Rightarrow> Node \<times> Response list" where
  "serve [] nd = (nd, [])"
| "serve ((su, key, body) # reqs) nd =
     (case respond su key body nd of (nd, r) \<Rightarrow> case serve reqs nd of (nd, rs) \<Rightarrow> (nd, r # rs))"

definition new_node_state :: "int \<Rightarrow> int \<Rightarrow> bytes \<Rightarrow> 16 word \<Rightarrow> RaftConfig \<Rightarrow> int list \<Rightarrow> int \<Rightarrow> EncryptionKey option \<Rightarrow> Node" where
  "new_node_state n node_id host port config peers compaction key =
     \<lparr> nd_id = node_id, nd_host = host, nd_port = port, nd_managers = new_catalog n node_id config peers compaction key,
       nd_shards = new_group_catalog n \<rparr>"

lemma new_node_ok: "node_ok (new_node_state n node_id host port config peers compaction key)"
proof -
  have l: "length (new_catalog n node_id config peers compaction key) = nat (max 1 n)" by (auto simp: new_catalog_def Let_def)
  have e: "new_catalog n node_id config peers compaction key ! i = new_manager (max 1 n) (int i) node_id config peers compaction key"
    if "i < nat (max 1 n)" for i
    using that by (auto simp: new_catalog_def Let_def max_def)
  have m: "manager_ok (nat (max 1 n)) i (new_manager (max 1 n) (int i) node_id config peers compaction key) \<and>
      partition_count (new_manager (max 1 n) (int i) node_id config peers compaction key) = Map.empty" if "i < nat (max 1 n)" for i
    using that by (auto simp: new_manager_def manager_ok_def manager_inv_def get_topic_def partition_count_def fun_eq_iff Let_def)
  have "new_catalog n node_id config peers compaction key \<noteq> []" using l by auto
  moreover from this have "hd (new_catalog n node_id config peers compaction key) = new_catalog n node_id config peers compaction key ! 0" by (rule hd_conv_nth)
  ultimately have "managers_ok (new_catalog n node_id config peers compaction key)"
    using l e m m [of 0] by (simp add: managers_ok_def)
  then show ?thesis
    using l by (auto simp: node_ok_def new_node_state_def new_group_catalog_def shard_ok_def find_group_def)
qed

lemma serve_ok: "node_ok nd \<Longrightarrow> serve reqs nd = (nd', rs) \<Longrightarrow> node_ok nd' \<and> map response_key rs = map (\<lambda>(su, key, body). key) reqs"
proof (induction reqs arbitrary: nd rs)
  case (Cons q reqs)
  obtain su key body where q: "q = (su, key, body)" by (cases q)
  obtain n1 r where r: "respond su key body nd = (n1, r)" by fastforce
  obtain rs' where s: "serve reqs n1 = (nd', rs')" "rs = r # rs'" using Cons.prems(2) q r by (auto split: prod.splits)
  have "node_ok n1" using respond_ok [OF Cons.prems(1), of su key body] r by simp
  from Cons.IH [OF this s(1)] show ?case using s(2) respond_key [of su key body nd] q r by simp
qed simp




text \<open>A body that does not decode changes nothing and is answered with the refusal of its key.\<close>

lemma malformed_refused: "decode_request key body = Inl e \<Longrightarrow> respond su key body nd = (nd, refusal key)"
  by (cases key) (auto simp: bindP_def returnP_def bindE_def dispatch_produce_def dispatch_fetch_def dispatch_offset_commit_def dispatch_offset_fetch_def
      dispatch_join_group_def dispatch_sync_group_def dispatch_heartbeat_def dispatch_leave_group_def split: sum.splits)

text \<open>The number of records in a run of batches, as the metrics count it.\<close>

lemma count_batch_records_run:
  "\<forall>b \<in> set bs. wf_batch b \<Longrightarrow> count_batch_records (concat (map encode bs)) = word_of_int (\<Sum>b \<leftarrow> bs. record_count (header b))"
proof (induction bs)
  case (Cons b bs)
  have "peek (encode b @ concat (map encode bs)) = Inr (view_of b)" using Cons.prems by (simp add: peek_encode)
  moreover have "view_encoded_size (view_of b) = length (encode b)" "0 < length (encode b)" "view_record_count (view_of b) = record_count (header b)"
    by (simp_all add: view_of_def encoded_size_def)
  ultimately show ?case
    using Cons by (subst count_batch_records.simps) (simp del: length_encode)
qed (simp add: count_batch_records.simps)

end
