(* ===== verification/Reactor_Queue.thy ===== *)
theory Reactor_Queue
  imports Prelude "HOL-Library.Word"
begin

unbundle bit_operations_syntax

text \<open>
  The lock-free queues between the cores (\<^verbatim>\<open>src/src/reactor/spsc_queue.hpp\<close>, \<^verbatim>\<open>mpmc_queue.hpp\<close>), the mailbox built on the first
  (\<^verbatim>\<open>cross_core.cpp\<close>) and the periodic timers (\<^verbatim>\<open>periodic_timers.cpp\<close>).  A queue has \<open>2 ^ k\<close> cells; its counters are 64-bit words that wrap.
  The concurrent execution is a step relation in which every atomic access of a thread is a step of its own.  In the queue with one producer
  and one consumer a load of the counter of the other thread may return an old value, as the memory model allows, but never
  one older than the value it returned before.  The lemmas show that values come out once, unchanged and in the order in which they went in.
\<close>


section \<open>Positions\<close>

text \<open>The physical index of a position, \<^verbatim>\<open>pos & kMask\<close>.\<close>

definition slot :: "nat \<Rightarrow> 64 word \<Rightarrow> nat" where
  "slot k pos = unat (pos AND (2 ^ k - 1))"

lemma slot_of_nat: "k \<le> 64 \<Longrightarrow> slot k (of_nat n) = n mod 2 ^ k"
proof -
  assume k: "k \<le> 64"
  have "slot k (of_nat n) = unat (take_bit k (of_nat n :: 64 word))"
    by (simp add: slot_def take_bit_eq_mask mask_eq_exp_minus_1)
  also have "\<dots> = n mod 2 ^ k"
    unfolding unsigned_take_bit_eq using k by (simp add: unsigned_of_nat) (simp add: take_bit_eq_mod min_absorb1)
  finally show ?thesis .
qed

lemma slot_less: "k \<le> 64 \<Longrightarrow> slot k pos < 2 ^ k"
  using slot_of_nat [of k "unat pos"] by simp

lemma mod_window_inj:
  fixes i j :: nat
  assumes "i mod n = j mod n" "i < j + n" "j < i + n"
  shows "i = j"
proof (cases "i \<le> j")
  case True
  then have "n dvd j - i" using assms(1) by (metis mod_eq_dvd_iff_nat)
  then show ?thesis using assms True by (auto dest!: dvd_imp_le)
next
  case False
  then have "n dvd i - j" using assms(1) by (metis mod_eq_dvd_iff_nat nat_le_linear)
  then show ?thesis using assms False by (auto dest!: dvd_imp_le)
qed

lemma of_nat_word_inj: "m < 2 ^ 64 \<Longrightarrow> n < 2 ^ 64 \<Longrightarrow> (of_nat m :: 64 word) = of_nat n \<longleftrightarrow> m = n"
proof -
  have u: "unat (of_nat x :: 64 word) = x" if "x < 2 ^ 64" for x using that by (simp add: unsigned_of_nat take_bit_eq_mod)
  assume "m < 2 ^ 64" "n < 2 ^ 64"
  then show ?thesis using u by metis
qed

text \<open>The difference of two wrapping counters is exact while they are less than \<open>2 ^ 64\<close> apart.\<close>

lemma of_nat_diff_eq: "m \<le> n \<Longrightarrow> n - m < 2 ^ 64 \<Longrightarrow> d < 2 ^ 64 \<Longrightarrow> (of_nat n - of_nat m :: 64 word) = of_nat d \<longleftrightarrow> n - m = d"
  by (simp add: of_nat_word_inj flip: of_nat_diff)



section \<open>One producer, one consumer\<close>

record 'a Spsc =
  sq_head :: "64 word"
  sq_tail :: "64 word"
  sq_buf :: "'a list"

definition new_spsc :: "nat \<Rightarrow> 'a \<Rightarrow> 'a Spsc" where
  "new_spsc k d = \<lparr> sq_head = 0, sq_tail = 0, sq_buf = replicate (2 ^ k) d \<rparr>"

text \<open>The operations as one thread sees them when no other runs.\<close>

definition spsc_try_push :: "nat \<Rightarrow> 'a \<Rightarrow> 'a Spsc \<Rightarrow> 'a Spsc \<times> bool" where
  "spsc_try_push k v q =
     (let tail = sq_tail q; head = sq_head q in
      if tail - head = 2 ^ k then (q, False)
      else (q\<lparr> sq_buf := (sq_buf q)[slot k tail := v], sq_tail := tail + 1 \<rparr>, True))"

definition spsc_try_pop :: "nat \<Rightarrow> 'a Spsc \<Rightarrow> 'a Spsc \<times> 'a option" where
  "spsc_try_pop k q =
     (let head = sq_head q; tail = sq_tail q in
      if head = tail then (q, None)
      else (q\<lparr> sq_head := head + 1 \<rparr>, Some (sq_buf q ! slot k head)))"

definition size_approx :: "'a Spsc \<Rightarrow> 64 word" where
  "size_approx q = sq_tail q - sq_head q"

text \<open>Where the threads are: before a call, after the loads, after the access to the cell.\<close>

datatype 'a producer = PushIdle | PushLoaded 'a "64 word" "64 word" | PushStored 'a "64 word"
datatype 'a consumer = PopIdle | PopLoaded "64 word" "64 word" | PopTaken 'a "64 word"

text \<open>
  Both threads on one queue.  The last four components are for the specification: the values that were published and those that
  were given out, and the number of published pops and pushes that the last load of the other thread's counter showed.
\<close>

record 'a SpscRun =
  sr_queue :: "'a Spsc"
  sr_producer :: "'a producer"
  sr_consumer :: "'a consumer"
  sr_pushed :: "'a list"
  sr_popped :: "'a list"
  sr_saw_popped :: nat
  sr_saw_pushed :: nat

definition new_spsc_run :: "nat \<Rightarrow> 'a \<Rightarrow> 'a SpscRun" where
  "new_spsc_run k d = \<lparr> sr_queue = new_spsc k d, sr_producer = PushIdle, sr_consumer = PopIdle,
     sr_pushed = [], sr_popped = [], sr_saw_popped = 0, sr_saw_pushed = 0 \<rparr>"

text \<open>
  \<open>n\<close> is the number of pops (pushes) whose effect the load of the head (tail) sees.
\<close>

inductive spsc_step :: "nat \<Rightarrow> 'a SpscRun \<Rightarrow> 'a SpscRun \<Rightarrow> bool" for k where
  push_load: "sr_producer r = PushIdle \<Longrightarrow> sr_saw_popped r \<le> n \<Longrightarrow> n \<le> length (sr_popped r) \<Longrightarrow>
    spsc_step k r (r\<lparr> sr_producer := PushLoaded v (sq_tail (sr_queue r)) (of_nat n), sr_saw_popped := n \<rparr>)"
| push_full: "sr_producer r = PushLoaded v tail head \<Longrightarrow> tail - head = 2 ^ k \<Longrightarrow>
    spsc_step k r (r\<lparr> sr_producer := PushIdle \<rparr>)"
| push_store: "sr_producer r = PushLoaded v tail head \<Longrightarrow> tail - head \<noteq> 2 ^ k \<Longrightarrow>
    spsc_step k r (r\<lparr> sr_queue := (sr_queue r)\<lparr> sq_buf := (sq_buf (sr_queue r))[slot k tail := v] \<rparr>, sr_producer := PushStored v tail \<rparr>)"
| push_publish: "sr_producer r = PushStored v tail \<Longrightarrow>
    spsc_step k r (r\<lparr> sr_queue := (sr_queue r)\<lparr> sq_tail := tail + 1 \<rparr>, sr_producer := PushIdle, sr_pushed := sr_pushed r @ [v] \<rparr>)"
| pop_load: "sr_consumer r = PopIdle \<Longrightarrow> sr_saw_pushed r \<le> n \<Longrightarrow> n \<le> length (sr_pushed r) \<Longrightarrow>
    spsc_step k r (r\<lparr> sr_consumer := PopLoaded (sq_head (sr_queue r)) (of_nat n), sr_saw_pushed := n \<rparr>)"
| pop_empty: "sr_consumer r = PopLoaded head tail \<Longrightarrow> head = tail \<Longrightarrow>
    spsc_step k r (r\<lparr> sr_consumer := PopIdle \<rparr>)"
| pop_take: "sr_consumer r = PopLoaded head tail \<Longrightarrow> head \<noteq> tail \<Longrightarrow>
    spsc_step k r (r\<lparr> sr_consumer := PopTaken (sq_buf (sr_queue r) ! slot k head) head \<rparr>)"
| pop_release: "sr_consumer r = PopTaken v head \<Longrightarrow>
    spsc_step k r (r\<lparr> sr_queue := (sr_queue r)\<lparr> sq_head := head + 1 \<rparr>, sr_consumer := PopIdle, sr_popped := sr_popped r @ [v] \<rparr>)"

inductive_cases spsc_stepE: "spsc_step k r r'"

definition spsc_inv :: "nat \<Rightarrow> 'a SpscRun \<Rightarrow> bool" where
  "spsc_inv k r \<longleftrightarrow>
     (let q = sr_queue r; n = length (sr_pushed r); m = length (sr_popped r); sm = sr_saw_popped r; sn = sr_saw_pushed r in
      sq_tail q = of_nat n \<and> sq_head q = of_nat m \<and> length (sq_buf q) = 2 ^ k \<and>
      sm \<le> m \<and> m \<le> sn \<and> sn \<le> n \<and> n \<le> sm + 2 ^ k \<and> sr_popped r = take m (sr_pushed r) \<and>
      (\<forall>i. m \<le> i \<and> i < n \<longrightarrow> sq_buf q ! (i mod 2 ^ k) = sr_pushed r ! i) \<and>
      (case sr_producer r of
         PushIdle \<Rightarrow> True
       | PushLoaded v tail head \<Rightarrow> tail = of_nat n \<and> head = of_nat sm
       | PushStored v tail \<Rightarrow> tail = of_nat n \<and> n < sm + 2 ^ k \<and> sq_buf q ! (n mod 2 ^ k) = v) \<and>
      (case sr_consumer r of
         PopIdle \<Rightarrow> True
       | PopLoaded head tail \<Rightarrow> head = of_nat m \<and> tail = of_nat sn
       | PopTaken v head \<Rightarrow> head = of_nat m \<and> m < sn \<and> v = sr_pushed r ! m))"


lemma full_iff: "k < 64 \<Longrightarrow> m \<le> n \<Longrightarrow> n \<le> m + 2 ^ k \<Longrightarrow> (of_nat n - of_nat m :: 64 word) = 2 ^ k \<longleftrightarrow> n = m + 2 ^ k"
proof -
  assume a: "k < 64" "m \<le> n" "n \<le> m + 2 ^ k"
  have k: "(2 :: nat) ^ k < 2 ^ 64" using a(1) by (intro power_strict_increasing) simp_all
  then have "(of_nat n - of_nat m :: 64 word) = of_nat (2 ^ k) \<longleftrightarrow> n - m = 2 ^ k"
    using a by (intro of_nat_diff_eq) auto
  then show ?thesis using a by auto
qed

lemma empty_iff_words: "k < 64 \<Longrightarrow> m \<le> n \<Longrightarrow> n \<le> m + 2 ^ k \<Longrightarrow> (of_nat m :: 64 word) = of_nat n \<longleftrightarrow> m = n"
proof -
  assume a: "k < 64" "m \<le> n" "n \<le> m + 2 ^ k"
  have "(2 :: nat) ^ k < 2 ^ 64" using a(1) by (intro power_strict_increasing) simp_all
  then have "(of_nat n - of_nat m :: 64 word) = of_nat 0 \<longleftrightarrow> n - m = 0" using a by (intro of_nat_diff_eq) auto
  then show ?thesis using a by auto
qed

lemma spsc_step_inv:
  assumes k: "k < 64" and inv: "spsc_inv k r" and st: "spsc_step k r r'"
  shows "spsc_inv k r'"
proof -
  let ?n = "length (sr_pushed r)" and ?m = "length (sr_popped r)" and ?sm = "sr_saw_popped r" and ?sn = "sr_saw_pushed r"
  have i: "sq_tail (sr_queue r) = of_nat ?n" "sq_head (sr_queue r) = of_nat ?m" "length (sq_buf (sr_queue r)) = 2 ^ k"
    "?sm \<le> ?m" "?m \<le> ?sn" "?sn \<le> ?n" "?n \<le> ?sm + 2 ^ k" "sr_popped r = take ?m (sr_pushed r)"
    "\<And>i. ?m \<le> i \<Longrightarrow> i < ?n \<Longrightarrow> sq_buf (sr_queue r) ! (i mod 2 ^ k) = sr_pushed r ! i"
    using inv by (auto simp: spsc_inv_def Let_def)
  have sl: "slot k (of_nat x) = x mod 2 ^ k" for x using k by (intro slot_of_nat) simp
  show ?thesis using st
  proof cases
    case (push_store v tail head)
    then have h: "tail = of_nat ?n" "head = of_nat ?sm" using inv by (auto simp: spsc_inv_def Let_def)
    then have lt: "?n < ?sm + 2 ^ k" using full_iff [OF k, of ?sm ?n] i push_store by auto
    have "(sq_buf (sr_queue r))[?n mod 2 ^ k := v] ! (j mod 2 ^ k) = sr_pushed r ! j" if j: "?m \<le> j" "j < ?n" for j
    proof -
      have "?n mod 2 ^ k \<noteq> j mod 2 ^ k" using mod_window_inj [of j "2 ^ k" ?n] j lt i(4) by auto
      then show ?thesis using i(9) [OF j] by simp
    qed
    then show ?thesis using inv push_store h lt i(3) by (auto simp: spsc_inv_def Let_def sl split: consumer.splits)
  next
    case (push_publish v tail)
    then have h: "tail = of_nat ?n" "?n < ?sm + 2 ^ k" "sq_buf (sr_queue r) ! (?n mod 2 ^ k) = v" using inv by (auto simp: spsc_inv_def Let_def)
    show ?thesis using inv push_publish h i by (auto simp: spsc_inv_def Let_def nth_append less_Suc_eq split: consumer.splits)
  next
    case (pop_take head tail)
    then have h: "head = of_nat ?m" "tail = of_nat ?sn" using inv by (auto simp: spsc_inv_def Let_def)
    have "?m \<noteq> ?sn" using pop_take h by auto
    then have "?m < ?sn" using i(5) by simp
    then show ?thesis using inv pop_take h i(6) i(9) [of ?m] by (auto simp: spsc_inv_def Let_def sl split: producer.splits)
  next
    case (pop_release v head)
    then have h: "head = of_nat ?m" "?m < ?sn" "v = sr_pushed r ! ?m" using inv by (auto simp: spsc_inv_def Let_def)
    have "sr_popped r @ [v] = take (Suc ?m) (sr_pushed r)" using h i(6,8) by (simp add: take_Suc_conv_app_nth)
    then show ?thesis using inv pop_release h i(4-7) by (auto simp: spsc_inv_def Let_def split: producer.splits)
  qed (use inv i in \<open>auto simp: spsc_inv_def Let_def split: producer.splits consumer.splits\<close>)
qed

lemma spsc_reach_inv: "k < 64 \<Longrightarrow> (spsc_step k)\<^sup>*\<^sup>* (new_spsc_run k d) r \<Longrightarrow> spsc_inv k r"
  by (erule rtranclp_induct) (auto simp: spsc_step_inv, simp add: spsc_inv_def new_spsc_run_def new_spsc_def Let_def)


text \<open>
  C11: The queue between two cores is first in, first out, under any interleaving of the accesses of producer and consumer, with counters that wrap and with
  loads that see old values.  What was given out is a prefix of what was published, so no value is lost, repeated, changed or
  reordered; at most \<open>2 ^ k\<close> values are in flight; producer and consumer never access the same cell at the same time; a push is refused
  only when the queue is full by what the producer has seen of the consumer, and a pop only when it is empty by what the consumer has seen.
\<close>

theorem spsc_fifo:
  assumes k: "k < 64" and reach: "(spsc_step k)\<^sup>*\<^sup>* (new_spsc_run k d) r"
  shows "(\<exists>rest. sr_pushed r = sr_popped r @ rest \<and> length rest \<le> 2 ^ k) \<and>
    (\<forall>v tail head head' tail'. sr_producer r = PushLoaded v tail head \<and> tail - head \<noteq> 2 ^ k \<and> sr_consumer r = PopLoaded head' tail' \<and> head' \<noteq> tail' \<longrightarrow>
       slot k tail \<noteq> slot k head') \<and>
    (\<forall>v tail head. sr_producer r = PushLoaded v tail head \<and> tail - head = 2 ^ k \<longrightarrow> length (sr_pushed r) = sr_saw_popped r + 2 ^ k) \<and>
    (\<forall>head tail. sr_consumer r = PopLoaded head tail \<and> head = tail \<longrightarrow> length (sr_popped r) = sr_saw_pushed r)"
proof -
  let ?n = "length (sr_pushed r)" and ?m = "length (sr_popped r)"
  have inv: "spsc_inv k r" using spsc_reach_inv [OF k reach] .
  have i: "sr_saw_popped r \<le> ?m" "?m \<le> sr_saw_pushed r" "sr_saw_pushed r \<le> ?n" "?n \<le> sr_saw_popped r + 2 ^ k" "sr_popped r = take ?m (sr_pushed r)"
    using inv by (auto simp: spsc_inv_def Let_def)
  have p: "tail = of_nat ?n \<and> head = of_nat (sr_saw_popped r)" if "sr_producer r = PushLoaded v tail head" for v tail head
    using inv that by (auto simp: spsc_inv_def Let_def)
  have c: "head = of_nat ?m \<and> tail = of_nat (sr_saw_pushed r)" if "sr_consumer r = PopLoaded head tail" for head tail
    using inv that by (auto simp: spsc_inv_def Let_def)
  have full: "(of_nat ?n - of_nat (sr_saw_popped r) :: 64 word) = 2 ^ k \<longleftrightarrow> ?n = sr_saw_popped r + 2 ^ k"
    using i by (intro full_iff [OF k]) auto
  have empty: "(of_nat ?m :: 64 word) = of_nat (sr_saw_pushed r) \<longleftrightarrow> ?m = sr_saw_pushed r"
    using i by (intro empty_iff_words [OF k]) auto
  have "slot k tail \<noteq> slot k head'"
    if a: "sr_producer r = PushLoaded v tail head" "tail - head \<noteq> 2 ^ k" "sr_consumer r = PopLoaded head' tail'" "head' \<noteq> tail'" for v tail head head' tail'
  proof -
    have "?n < ?m + 2 ^ k" "?m < ?n" using p [OF a(1)] c [OF a(3)] a(2,4) full empty i by auto
    then have "?n mod 2 ^ k \<noteq> ?m mod 2 ^ k" using mod_window_inj [of ?n "2 ^ k" ?m] by auto
    then show ?thesis using p [OF a(1)] c [OF a(3)] k by (simp add: slot_of_nat)
  qed
  moreover have "\<exists>rest. sr_pushed r = sr_popped r @ rest \<and> length rest \<le> 2 ^ k"
    using i append_take_drop_id [of ?m "sr_pushed r"] by (intro exI [of _ "drop ?m (sr_pushed r)"]) auto
  ultimately show ?thesis using p c full empty by blast
qed

text \<open>A push and a pop that overlap.\<close>

theorem spsc_fifo_witness:
  "\<exists>r. (spsc_step 1)\<^sup>*\<^sup>* (new_spsc_run 1 (0 :: nat)) r \<and> sr_pushed r = [7] \<and> sr_popped r = [7] \<and>
     (\<exists>rest. sr_pushed r = sr_popped r @ rest \<and> length rest \<le> 2 ^ 1)"
proof -
  let ?r0 = "new_spsc_run 1 (0 :: nat)"
  define r1 where "r1 = ?r0\<lparr> sr_producer := PushLoaded 7 (sq_tail (sr_queue ?r0)) (of_nat 0), sr_saw_popped := 0 \<rparr>"
  define r2 where "r2 = r1\<lparr> sr_queue := (sr_queue r1)\<lparr> sq_buf := (sq_buf (sr_queue r1))[slot 1 0 := 7] \<rparr>, sr_producer := PushStored 7 0 \<rparr>"
  define r3 where "r3 = r2\<lparr> sr_queue := (sr_queue r2)\<lparr> sq_tail := 0 + 1 \<rparr>, sr_producer := PushIdle, sr_pushed := sr_pushed r2 @ [7] \<rparr>"
  define r4 where "r4 = r3\<lparr> sr_consumer := PopLoaded (sq_head (sr_queue r3)) (of_nat 1), sr_saw_pushed := 1 \<rparr>"
  define r5 where "r5 = r4\<lparr> sr_consumer := PopTaken (sq_buf (sr_queue r4) ! slot 1 0) 0 \<rparr>"
  define r6 where "r6 = r5\<lparr> sr_queue := (sr_queue r5)\<lparr> sq_head := 0 + 1 \<rparr>, sr_consumer := PopIdle,
    sr_popped := sr_popped r5 @ [sq_buf (sr_queue r4) ! slot 1 0] \<rparr>"
  have s1: "spsc_step 1 ?r0 r1" unfolding r1_def by (rule push_load) (simp_all add: new_spsc_run_def)
  have s2: "spsc_step 1 r1 r2" unfolding r2_def by (rule push_store [where head = 0]) (simp_all add: r1_def new_spsc_run_def new_spsc_def)
  have s3: "spsc_step 1 r2 r3" unfolding r3_def by (rule push_publish) (simp add: r2_def)
  have s4: "spsc_step 1 r3 r4" unfolding r4_def by (rule pop_load) (simp_all add: r3_def r2_def r1_def new_spsc_run_def)
  have s5: "spsc_step 1 r4 r5" unfolding r5_def
    by (rule pop_take [where tail = 1]) (simp_all add: r4_def r3_def r2_def r1_def new_spsc_run_def new_spsc_def)
  have s6: "spsc_step 1 r5 r6" unfolding r6_def by (rule pop_release) (simp add: r5_def)
  note into = rtranclp.rtrancl_into_rtrancl
  have s: "(spsc_step 1)\<^sup>*\<^sup>* ?r0 r6"
    by (rule into [OF into [OF into [OF into [OF into [OF r_into_rtranclp [of "spsc_step 1", OF s1] s2] s3] s4] s5] s6])
  have v: "sr_pushed r6 = [7]" "sr_popped r6 = [7]"
    by (simp_all add: r6_def r5_def r4_def r3_def r2_def r1_def new_spsc_run_def new_spsc_def slot_def)
  show ?thesis using spsc_fifo [OF _ s] s v by auto
qed


text \<open>A call that is not interleaved is a run of the steps.\<close>

lemma try_push_steps:
  assumes "spsc_inv k r" "sr_producer r = PushIdle" "spsc_try_push k v (sr_queue r) = (q, b)"
  shows "(spsc_step k)\<^sup>*\<^sup>* r (r\<lparr> sr_queue := q, sr_saw_popped := length (sr_popped r), sr_pushed := sr_pushed r @ (if b then [v] else []) \<rparr>)"
proof -
  let ?t = "sq_tail (sr_queue r)" and ?h = "of_nat (length (sr_popped r)) :: 64 word"
  have h: "sq_head (sr_queue r) = ?h" "sr_saw_popped r \<le> length (sr_popped r)" using assms(1) by (auto simp: spsc_inv_def Let_def)
  define r1 where "r1 = r\<lparr> sr_producer := PushLoaded v ?t ?h, sr_saw_popped := length (sr_popped r) \<rparr>"
  have s1: "spsc_step k r r1" unfolding r1_def using h(2) assms(2) by (intro push_load) auto
  show ?thesis
  proof (cases "?t - ?h = 2 ^ k")
    case True
    have "spsc_step k r1 (r1\<lparr> sr_producer := PushIdle \<rparr>)" using True by (intro push_full [where tail = ?t and head = ?h and v = v]) (simp_all add: r1_def)
    moreover have "r1\<lparr> sr_producer := PushIdle \<rparr> = r\<lparr> sr_queue := q, sr_saw_popped := length (sr_popped r), sr_pushed := sr_pushed r @ (if b then [v] else []) \<rparr>"
      using assms(2,3) True h(1) by (simp add: r1_def spsc_try_push_def Let_def)
    ultimately show ?thesis using s1 by (metis r_into_rtranclp rtranclp.rtrancl_into_rtrancl)
  next
    case False
    define r2 where "r2 = r1\<lparr> sr_queue := (sr_queue r1)\<lparr> sq_buf := (sq_buf (sr_queue r1))[slot k ?t := v] \<rparr>, sr_producer := PushStored v ?t \<rparr>"
    have s2: "spsc_step k r1 r2" unfolding r2_def using False by (intro push_store [where head = ?h]) (simp_all add: r1_def)
    have "spsc_step k r2 (r2\<lparr> sr_queue := (sr_queue r2)\<lparr> sq_tail := ?t + 1 \<rparr>, sr_producer := PushIdle, sr_pushed := sr_pushed r2 @ [v] \<rparr>)"
      by (rule push_publish) (simp add: r2_def)
    moreover have "r2\<lparr> sr_queue := (sr_queue r2)\<lparr> sq_tail := ?t + 1 \<rparr>, sr_producer := PushIdle, sr_pushed := sr_pushed r2 @ [v] \<rparr> =
        r\<lparr> sr_queue := q, sr_saw_popped := length (sr_popped r), sr_pushed := sr_pushed r @ (if b then [v] else []) \<rparr>"
      using assms(2,3) False h(1) by (cases r) (auto simp: r2_def r1_def spsc_try_push_def Let_def)
    ultimately show ?thesis using s1 s2 by (metis (no_types) r_into_rtranclp rtranclp.rtrancl_into_rtrancl)
  qed
qed


section \<open>A bounded queue\<close>

text \<open>The contract of a queue that one thread uses at a time, and what follows for emptying it.\<close>

locale bounded_queue =
  fixes push :: "'a \<Rightarrow> 'q \<Rightarrow> 'q \<times> bool" and pop :: "'q \<Rightarrow> 'q \<times> 'a option"
    and items :: "'q \<Rightarrow> 'a list" and ok :: "'q \<Rightarrow> bool" and cap :: nat
  assumes push_law: "ok q \<Longrightarrow> push v q = (q', b) \<Longrightarrow>
      ok q' \<and> b = (length (items q) < cap) \<and> items q' = (if b then items q @ [v] else items q)"
    and pop_law: "ok q \<Longrightarrow> pop q = (q', r) \<Longrightarrow>
      ok q' \<and> r = (case items q of [] \<Rightarrow> None | v # vs \<Rightarrow> Some v) \<and> items q' = tl (items q)"
begin

fun push_all :: "'a list \<Rightarrow> 'q \<Rightarrow> 'q \<times> bool" where
  "push_all [] q = (q, True)"
| "push_all (v # vs) q = (case push v q of (q, b) \<Rightarrow> case push_all vs q of (q, c) \<Rightarrow> (q, b \<and> c))"

lemma push_all_fits:
  "ok q \<Longrightarrow> length (items q) + length vs \<le> cap \<Longrightarrow> \<exists>q'. push_all vs q = (q', True) \<and> ok q' \<and> items q' = items q @ vs"
proof (induction vs arbitrary: q)
  case (Cons v vs)
  obtain q1 b where p: "push v q = (q1, b)" by fastforce
  have "b" "ok q1" "items q1 = items q @ [v]" using push_law [OF Cons.prems(1) p] Cons.prems(2) by auto
  then show ?case using Cons.IH [of q1] Cons.prems(2) p by auto
qed simp

end

definition spsc_items :: "nat \<Rightarrow> 'a Spsc \<Rightarrow> 'a list" where
  "spsc_items k q = map (\<lambda>i. sq_buf q ! slot k (sq_head q + of_nat i)) [0..<unat (size_approx q)]"

definition spsc_ok :: "nat \<Rightarrow> 'a Spsc \<Rightarrow> bool" where
  "spsc_ok k q \<longleftrightarrow> k < 64 \<and> length (sq_buf q) = 2 ^ k \<and> unat (size_approx q) \<le> 2 ^ k"

lemma slot_add: "k < 64 \<Longrightarrow> slot k (h + of_nat i) = (unat h + i) mod 2 ^ k"
  using slot_of_nat [of k "unat h + i"] by simp

lemma spsc_size:
  assumes "spsc_ok k q"
  obtains n where "sq_tail q = sq_head q + of_nat n" "unat (size_approx q) = n" "n \<le> 2 ^ k" "n < 2 ^ 64" "(2 :: nat) ^ k < 2 ^ 64"
proof -
  have "(2 :: nat) ^ k < 2 ^ 64" using assms by (intro power_strict_increasing) (simp_all add: spsc_ok_def)
  moreover have "sq_tail q = sq_head q + of_nat (unat (size_approx q))" by (simp add: size_approx_def)
  ultimately show ?thesis using that [of "unat (size_approx q)"] assms by (simp add: spsc_ok_def)
qed

lemma unat_of_small: "n < 2 ^ 64 \<Longrightarrow> unat (of_nat n :: 64 word) = n"
  by (simp add: unsigned_of_nat take_bit_eq_mod)

interpretation spsc: bounded_queue "spsc_try_push k" "spsc_try_pop k" "spsc_items k" "spsc_ok k" "2 ^ k" for k
proof unfold_locales
  fix v :: 'a and q q' b
  assume ok: "spsc_ok k q" and p: "spsc_try_push k v q = (q', b)"
  obtain n where n: "sq_tail q = sq_head q + of_nat n" "unat (size_approx q) = n" "n \<le> 2 ^ k" "n < 2 ^ 64" "(2 :: nat) ^ k < 2 ^ 64"
    by (rule spsc_size [OF ok])
  have k: "k < 64" "length (sq_buf q) = 2 ^ k" using ok by (simp_all add: spsc_ok_def)
  have len: "length (spsc_items k q) = n" by (simp add: spsc_items_def n(2))
  have full: "sq_tail q - sq_head q = 2 ^ k \<longleftrightarrow> n = 2 ^ k"
    using of_nat_word_inj [OF n(4,5)] n(1) by simp
  show "spsc_ok k q' \<and> b = (length (spsc_items k q) < 2 ^ k) \<and> spsc_items k q' = (if b then spsc_items k q @ [v] else spsc_items k q)"
  proof (cases "n = 2 ^ k")
    case True
    then show ?thesis using p full ok len by (auto simp: spsc_try_push_def Let_def)
  next
    case False
    then have lt: "n < 2 ^ k" using n(3) by simp
    have q': "q' = q\<lparr> sq_buf := (sq_buf q)[slot k (sq_tail q) := v], sq_tail := sq_tail q + 1 \<rparr>" "b"
      using p full False by (auto simp: spsc_try_push_def Let_def)
    have "size_approx q' = of_nat (Suc n)" by (simp add: size_approx_def q' n(1))
    then have sz: "unat (size_approx q') = Suc n" using unat_of_small [of "Suc n"] lt n(5) by simp
    have "(sq_buf q)[slot k (sq_tail q) := v] ! slot k (sq_head q + of_nat i) = sq_buf q ! slot k (sq_head q + of_nat i)" if "i < n" for i
    proof -
      have "(unat (sq_head q) + n) mod 2 ^ k \<noteq> (unat (sq_head q) + i) mod 2 ^ k"
        using mod_window_inj [of "unat (sq_head q) + n" "2 ^ k" "unat (sq_head q) + i"] that lt by auto
      then show ?thesis by (simp add: n(1) slot_add k)
    qed
    moreover have "slot k (sq_tail q) < 2 ^ k" using slot_less k by simp
    ultimately have "spsc_items k q' = spsc_items k q @ [v]"
      unfolding spsc_items_def sz n(2) by (simp add: q'(1) n(1) k(2))
    then show ?thesis using q' sz lt k len by (simp add: spsc_ok_def)
  qed
next
  fix q q' :: "'a Spsc" and r
  assume ok: "spsc_ok k q" and p: "spsc_try_pop k q = (q', r)"
  obtain n where n: "sq_tail q = sq_head q + of_nat n" "unat (size_approx q) = n" "n \<le> 2 ^ k" "n < 2 ^ 64" "(2 :: nat) ^ k < 2 ^ 64"
    by (rule spsc_size [OF ok])
  have k: "k < 64" "length (sq_buf q) = 2 ^ k" using ok by (simp_all add: spsc_ok_def)
  have e: "sq_head q = sq_tail q \<longleftrightarrow> n = 0" using of_nat_word_inj [OF n(4), of 0] n(1) by auto
  show "spsc_ok k q' \<and> r = (case spsc_items k q of [] \<Rightarrow> None | v # vs \<Rightarrow> Some v) \<and> spsc_items k q' = tl (spsc_items k q)"
  proof (cases n)
    case 0
    then show ?thesis using p e ok n(2) by (auto simp: spsc_try_pop_def Let_def spsc_items_def)
  next
    case (Suc m)
    have q': "q' = q\<lparr> sq_head := sq_head q + 1 \<rparr>" "r = Some (sq_buf q ! slot k (sq_head q))"
      using p e Suc by (auto simp: spsc_try_pop_def Let_def)
    have "size_approx q' = of_nat m" by (simp add: size_approx_def q' n(1) Suc)
    then have sz: "unat (size_approx q') = m" using unat_of_small [of m] Suc n(4) by simp
    have "spsc_items k q = sq_buf q ! slot k (sq_head q) # spsc_items k q'"
      unfolding spsc_items_def sz n(2) Suc map_upt_Suc by (simp add: q'(1) ac_simps)
    then show ?thesis using q' sz n(3) Suc k by (simp add: spsc_ok_def)
  qed
qed



section \<open>The mailbox of a core\<close>

text \<open>One queue per sending core; messages are work for the owner, represented by what they carry.\<close>

definition kInboxBits :: nat where
  "kInboxBits = 10"

definition new_mailbox :: "nat \<Rightarrow> 'm \<Rightarrow> 'm Spsc list" where
  "new_mailbox num_cores d = replicate num_cores (new_spsc kInboxBits d)"

text \<open>Posting waits (\<open>None\<close>) until the owner has made room; otherwise the result of the push is what the code asserts.\<close>

definition mailbox_post :: "nat \<Rightarrow> 'm \<Rightarrow> 'm Spsc list \<Rightarrow> ('m Spsc list \<times> bool) option" where
  "mailbox_post from_core msg inboxes =
     (let inbox = inboxes ! from_core in
      if size_approx inbox \<ge> 2 ^ kInboxBits then None
      else case spsc_try_push kInboxBits msg inbox of (inbox, pushed) \<Rightarrow> Some (inboxes[from_core := inbox], pushed))"

function drain_inbox :: "nat \<Rightarrow> 'm Spsc \<Rightarrow> 'm Spsc \<times> 'm list" where
  "drain_inbox k q =
     (case spsc_try_pop k q of
        (q, None) \<Rightarrow> (q, [])
      | (q, Some m) \<Rightarrow> (case drain_inbox k q of (q, ms) \<Rightarrow> (q, m # ms)))"
  by pat_completeness auto
termination
proof (relation "measure (\<lambda>(k, q). unat (size_approx q))")
  fix k :: nat and q x q' m
  assume "(q', x) = spsc_try_pop k q" "x = Some (m :: 'm)"
  then have q: "q' = q\<lparr> sq_head := sq_head q + 1 \<rparr>" "sq_head q \<noteq> sq_tail q" by (auto simp: spsc_try_pop_def Let_def split: if_splits)
  have "size_approx q \<noteq> 0" using q(2) by (simp add: size_approx_def)
  then have "unat (size_approx q - 1) < unat (size_approx q)" 
    by (simp add: unat_minus_one unat_gt_0)
  then show "((k, q'), k, q) \<in> measure (\<lambda>(k, q). unat (size_approx q))"
    by (simp add: q(1) size_approx_def algebra_simps)
qed simp

declare drain_inbox.simps [simp del]

fun mailbox_drain :: "'m Spsc list \<Rightarrow> 'm Spsc list \<times> 'm list" where
  "mailbox_drain [] = ([], [])"
| "mailbox_drain (inbox # inboxes) =
     (case drain_inbox kInboxBits inbox of (inbox, ms) \<Rightarrow>
      case mailbox_drain inboxes of (inboxes, ms') \<Rightarrow> (inbox # inboxes, ms @ ms'))"

definition mailbox_ok :: "'m Spsc list \<Rightarrow> bool" where
  "mailbox_ok inboxes \<longleftrightarrow> (\<forall>q \<in> set inboxes. spsc_ok kInboxBits q)"

lemma drain_inbox_spec: "spsc_ok k q \<Longrightarrow> drain_inbox k q = (q', ms) \<Longrightarrow> spsc_ok k q' \<and> ms = spsc_items k q \<and> spsc_items k q' = []"
proof (induction k q arbitrary: q' ms rule: drain_inbox.induct)
  case (1 k q)
  obtain q1 x where p: "spsc_try_pop k q = (q1, x)" by fastforce
  note l = spsc.pop_law [OF 1(2) p]
  show ?case
  proof (cases x)
    case None
    then show ?thesis using l 1(3) p by (auto simp: drain_inbox.simps [of k q] split: list.splits)
  next
    case (Some m)
    obtain q2 ns where r: "drain_inbox k q1 = (q2, ns)" by fastforce
    show ?thesis using 1(1) [OF p [symmetric] Some _ r] l 1(3) p Some r by (auto simp: drain_inbox.simps [of k q] split: list.splits)
  qed
qed

text \<open>The owner gets the messages of each core in the order in which they were posted, and leaves nothing behind.\<close>

lemma mailbox_drain_spec:
  "mailbox_ok inboxes \<Longrightarrow> mailbox_drain inboxes = (inboxes', ms) \<Longrightarrow>
   mailbox_ok inboxes' \<and> ms = concat (map (spsc_items kInboxBits) inboxes) \<and> (\<forall>q \<in> set inboxes'. spsc_items kInboxBits q = [])"
proof (induction inboxes arbitrary: inboxes' ms)
  case (Cons q qs)
  obtain q1 m1 where d: "drain_inbox kInboxBits q = (q1, m1)" by fastforce
  obtain qs1 m2 where e: "mailbox_drain qs = (qs1, m2)" by fastforce
  show ?case using Cons.IH [OF _ e] drain_inbox_spec [OF _ d] Cons.prems d e by (auto simp: mailbox_ok_def)
qed simp

text \<open>A push after the check for room succeeds.\<close>

lemma mailbox_post_succeeds:
  assumes "mailbox_ok inboxes" "from_core < length inboxes" "mailbox_post from_core msg inboxes = Some (inboxes', pushed)"
  shows "pushed \<and> mailbox_ok inboxes' \<and> inboxes' = inboxes[from_core := inboxes' ! from_core] \<and>
    spsc_items kInboxBits (inboxes' ! from_core) = spsc_items kInboxBits (inboxes ! from_core) @ [msg]"
proof -
  let ?q = "inboxes ! from_core"
  have ok: "spsc_ok kInboxBits ?q" using assms(1,2) by (simp add: mailbox_ok_def)
  obtain q where p: "spsc_try_push kInboxBits msg ?q = (q, pushed)" "inboxes' = inboxes[from_core := q]" "\<not> size_approx ?q \<ge> 2 ^ kInboxBits"
    using assms(3) by (auto simp: mailbox_post_def Let_def split: if_splits prod.splits)
  have "unat (size_approx ?q) < unat (2 ^ kInboxBits :: 64 word)" using p(3) by (simp add: word_less_nat_alt not_le)
  then have "length (spsc_items kInboxBits ?q) < 2 ^ kInboxBits" by (simp add: spsc_items_def kInboxBits_def)
  then show ?thesis using spsc.push_law [OF ok p(1)] p(2) assms(1,2)
    by (auto simp: mailbox_ok_def dest!: set_update_subset_insert [THEN subsetD])
qed

text \<open>A core can post a full inbox to one that is not looking, without waiting.\<close>

lemma inbox_holds:
  "length ms \<le> 1024 \<Longrightarrow> \<exists>q. bounded_queue.push_all (spsc_try_push kInboxBits) ms (new_spsc kInboxBits d) = (q, True) \<and> spsc_items kInboxBits q = ms"
  using spsc.push_all_fits [of kInboxBits "new_spsc kInboxBits d" ms]
  by (auto simp: spsc_ok_def new_spsc_def size_approx_def spsc_items_def kInboxBits_def)



section \<open>Periodic timers\<close>

record 'c Timer =
  tmr_id :: "64 word"
  tmr_interval :: int
  tmr_next_due :: int
  tmr_callback :: 'c

record 'c PeriodicTimers =
  pt_timers :: "'c Timer list"
  pt_next_id :: "64 word"

definition new_timers :: "'c PeriodicTimers" where
  "new_timers = \<lparr> pt_timers = [], pt_next_id = 1 \<rparr>"

definition timers_add :: "int \<Rightarrow> int \<Rightarrow> 'c \<Rightarrow> 'c PeriodicTimers \<Rightarrow> 'c PeriodicTimers \<times> 64 word" where
  "timers_add now interval callback t =
     (let i = pt_next_id t in
      (t\<lparr> pt_next_id := i + 1,
          pt_timers := pt_timers t @ [\<lparr> tmr_id = i, tmr_interval = interval, tmr_next_due = now + interval, tmr_callback = callback \<rparr>] \<rparr>, i))"

definition timers_cancel :: "64 word \<Rightarrow> 'c PeriodicTimers \<Rightarrow> 'c PeriodicTimers" where
  "timers_cancel i t = t\<lparr> pt_timers := filter (\<lambda>x. tmr_id x \<noteq> i) (pt_timers t) \<rparr>"

definition next_deadline :: "int \<Rightarrow> 'c PeriodicTimers \<Rightarrow> int" where
  "next_deadline cap t = fold (\<lambda>x earliest. min earliest (tmr_next_due x)) (pt_timers t) cap"

text \<open>The second result are the callbacks in the order in which they run.\<close>

definition fire_due :: "int \<Rightarrow> 'c PeriodicTimers \<Rightarrow> 'c PeriodicTimers \<times> 'c list" where
  "fire_due now t =
     (t\<lparr> pt_timers := map (\<lambda>x. if tmr_next_due x \<le> now then x\<lparr> tmr_next_due := now + tmr_interval x \<rparr> else x) (pt_timers t) \<rparr>,
      map tmr_callback (filter (\<lambda>x. tmr_next_due x \<le> now) (pt_timers t)))"

lemma next_deadline_min: "next_deadline cap t = Min (insert cap (tmr_next_due ` set (pt_timers t)))"
proof -
  have "fold (\<lambda>x earliest. min earliest (tmr_next_due x)) xs c = Min (insert c (tmr_next_due ` set xs))" for xs :: "'a Timer list" and c
  proof (induction xs arbitrary: c)
    case (Cons x xs)
    have "Min (insert (min c (tmr_next_due x)) (tmr_next_due ` set xs)) = min c (Min (insert (tmr_next_due x) (tmr_next_due ` set xs)))"
      by (cases "set xs = {}") (simp_all add: min.assoc)
    then show ?case using Cons.IH [of "min c (tmr_next_due x)"] by simp
  qed simp
  then show ?thesis by (simp add: next_deadline_def)
qed

text \<open>A late round fires each timer once, and what it fired is not due again before its interval has passed.\<close>

lemma fire_due_once:
  assumes "\<forall>x \<in> set (pt_timers t). 0 < tmr_interval x" "fire_due now t = (t', fired)"
  shows "\<forall>x \<in> set (pt_timers t'). now < tmr_next_due x" "snd (fire_due now t') = []" "now < next_deadline (now + 1) t'"
proof -
  show d: "\<forall>x \<in> set (pt_timers t'). now < tmr_next_due x" using assms by (auto simp: fire_due_def)
  then show "snd (fire_due now t') = []" by (auto simp: fire_due_def filter_empty_conv)
  show "now < next_deadline (now + 1) t'" using d by (auto simp: next_deadline_min)
qed

text \<open>A cancelled timer does not fire; the others are not touched.\<close>

lemma cancel_fires: "snd (fire_due now (timers_cancel i t)) = map tmr_callback (filter (\<lambda>x. tmr_id x \<noteq> i \<and> tmr_next_due x \<le> now) (pt_timers t))"
  by (simp add: fire_due_def timers_cancel_def)

end
