(* ===== verification/Mpmc_Queue.thy ===== *)
theory Mpmc_Queue
  imports Reactor_Queue
begin

text \<open>
  The queue for several producers and consumers (\<^verbatim>\<open>src/src/reactor/mpmc_queue.hpp\<close>), with any number of threads.  Every cell has a sequence number that tells whose turn
  it is: \<open>p\<close> when the cell waits for the value of position \<open>p\<close>, \<open>p + 1\<close> when it holds it.  Each atomic access is a step; loads of the position
  counters and of sequence numbers may return old values, a compare-and-exchange may fail for no reason.  The lemmas show that the position a thread reserved
  belongs to it alone until it has published its access, and that the consumer of a position gets the value of its producer.
\<close>


section \<open>The queue and its threads\<close>

record 'a Cell =
  cl_sequence :: "64 word"
  cl_storage :: 'a

record 'a Mpmc =
  mq_cells :: "'a Cell list"
  mq_enqueue_pos :: "64 word"
  mq_dequeue_pos :: "64 word"

definition new_mpmc :: "nat \<Rightarrow> 'a \<Rightarrow> 'a Mpmc" where
  "new_mpmc k d = \<lparr> mq_cells = map (\<lambda>i. \<lparr> cl_sequence = of_nat i, cl_storage = d \<rparr>) [0..<2 ^ k], mq_enqueue_pos = 0, mq_dequeue_pos = 0 \<rparr>"

text \<open>
  Where a thread is: before the load of the sequence number, before the compare-and-exchange, before loading the position again, and then, with a
  position of its own, before the access to the storage and before the store of the new sequence number.
\<close>

datatype 'a mthread =
    Idle
  | PushAt 'a "64 word" | PushCas 'a "64 word" | PushReload 'a | PushWrite 'a "64 word" | PushPublish 'a "64 word"
  | PopAt "64 word" | PopCas "64 word" | PopReload | PopRead "64 word" | PopFree 'a "64 word"

text \<open>
  For the specification: the values in the order in which their positions were reserved, the number of positions reserved by consumers, and the values given out, with
  their positions.
\<close>

record 'a MpmcRun =
  mr_queue :: "'a Mpmc"
  mr_threads :: "nat \<Rightarrow> 'a mthread"
  mr_enq :: "'a list"
  mr_deq :: nat
  mr_out :: "(nat \<times> 'a) list"

definition new_mpmc_run :: "nat \<Rightarrow> 'a \<Rightarrow> 'a MpmcRun" where
  "new_mpmc_run k d = \<lparr> mr_queue = new_mpmc k d, mr_threads = (\<lambda>_. Idle), mr_enq = [], mr_deq = 0, mr_out = [] \<rparr>"

abbreviation cell_of :: "nat \<Rightarrow> 64 word \<Rightarrow> 'a MpmcRun \<Rightarrow> 'a Cell" where
  "cell_of k pos r \<equiv> mq_cells (mr_queue r) ! slot k pos"

definition set_thread :: "nat \<Rightarrow> 'a mthread \<Rightarrow> 'a MpmcRun \<Rightarrow> 'a MpmcRun" where
  "set_thread t x r = r\<lparr> mr_threads := (mr_threads r)(t := x) \<rparr>"

definition set_cell :: "nat \<Rightarrow> 64 word \<Rightarrow> 'a Cell \<Rightarrow> 'a MpmcRun \<Rightarrow> 'a MpmcRun" where
  "set_cell k pos c r = r\<lparr> mr_queue := (mr_queue r)\<lparr> mq_cells := (mq_cells (mr_queue r))[slot k pos := c] \<rparr> \<rparr>"

text \<open>A value that a load of the sequence number of a cell can return: the cell has had it before, or has it now.\<close>

definition seq_value :: "nat \<Rightarrow> 'a MpmcRun \<Rightarrow> 64 word \<Rightarrow> 64 word \<Rightarrow> bool" where
  "seq_value k r pos s \<longleftrightarrow> unat s \<le> unat (cl_sequence (cell_of k pos r)) \<and>
     (\<exists>g. unat s = slot k pos + g * 2 ^ k \<or> unat s = Suc (slot k pos + g * 2 ^ k))"

inductive mpmc_step :: "nat \<Rightarrow> 'a MpmcRun \<Rightarrow> 'a MpmcRun \<Rightarrow> bool" for k where
  mpush_start: "mr_threads r t = Idle \<Longrightarrow> n \<le> length (mr_enq r) \<Longrightarrow> mpmc_step k r (set_thread t (PushAt v (of_nat n)) r)"
| mpush_free: "mr_threads r t = PushAt v pos \<Longrightarrow> seq_value k r pos s \<Longrightarrow> sint s - sint pos = 0 \<Longrightarrow> mpmc_step k r (set_thread t (PushCas v pos) r)"
| mpush_full: "mr_threads r t = PushAt v pos \<Longrightarrow> seq_value k r pos s \<Longrightarrow> sint s - sint pos < 0 \<Longrightarrow> mpmc_step k r (set_thread t Idle r)"
| mpush_behind: "mr_threads r t = PushAt v pos \<Longrightarrow> seq_value k r pos s \<Longrightarrow> sint s - sint pos > 0 \<Longrightarrow> mpmc_step k r (set_thread t (PushReload v) r)"
| mpush_reload: "mr_threads r t = PushReload v \<Longrightarrow> n \<le> length (mr_enq r) \<Longrightarrow> mpmc_step k r (set_thread t (PushAt v (of_nat n)) r)"
| mpush_reserve: "mr_threads r t = PushCas v pos \<Longrightarrow> mq_enqueue_pos (mr_queue r) = pos \<Longrightarrow>
    mpmc_step k r (set_thread t (PushWrite v pos) (r\<lparr> mr_queue := (mr_queue r)\<lparr> mq_enqueue_pos := pos + 1 \<rparr>, mr_enq := mr_enq r @ [v] \<rparr>))"
| mpush_retry: "mr_threads r t = PushCas v pos \<Longrightarrow> mpmc_step k r (set_thread t (PushAt v (mq_enqueue_pos (mr_queue r))) r)"
| mpush_write: "mr_threads r t = PushWrite v pos \<Longrightarrow>
    mpmc_step k r (set_thread t (PushPublish v pos) (set_cell k pos ((cell_of k pos r)\<lparr> cl_storage := v \<rparr>) r))"
| mpush_publish: "mr_threads r t = PushPublish v pos \<Longrightarrow>
    mpmc_step k r (set_thread t Idle (set_cell k pos ((cell_of k pos r)\<lparr> cl_sequence := pos + 1 \<rparr>) r))"
| mpop_start: "mr_threads r t = Idle \<Longrightarrow> n \<le> mr_deq r \<Longrightarrow> mpmc_step k r (set_thread t (PopAt (of_nat n)) r)"
| mpop_ready: "mr_threads r t = PopAt pos \<Longrightarrow> seq_value k r pos s \<Longrightarrow> sint s - sint (pos + 1) = 0 \<Longrightarrow> mpmc_step k r (set_thread t (PopCas pos) r)"
| mpop_empty: "mr_threads r t = PopAt pos \<Longrightarrow> seq_value k r pos s \<Longrightarrow> sint s - sint (pos + 1) < 0 \<Longrightarrow> mpmc_step k r (set_thread t Idle r)"
| mpop_behind: "mr_threads r t = PopAt pos \<Longrightarrow> seq_value k r pos s \<Longrightarrow> sint s - sint (pos + 1) > 0 \<Longrightarrow> mpmc_step k r (set_thread t PopReload r)"
| mpop_reload: "mr_threads r t = PopReload \<Longrightarrow> n \<le> mr_deq r \<Longrightarrow> mpmc_step k r (set_thread t (PopAt (of_nat n)) r)"
| mpop_reserve: "mr_threads r t = PopCas pos \<Longrightarrow> mq_dequeue_pos (mr_queue r) = pos \<Longrightarrow>
    mpmc_step k r (set_thread t (PopRead pos) (r\<lparr> mr_queue := (mr_queue r)\<lparr> mq_dequeue_pos := pos + 1 \<rparr>, mr_deq := Suc (mr_deq r) \<rparr>))"
| mpop_retry: "mr_threads r t = PopCas pos \<Longrightarrow> mpmc_step k r (set_thread t (PopAt (mq_dequeue_pos (mr_queue r))) r)"
| mpop_read: "mr_threads r t = PopRead pos \<Longrightarrow> mpmc_step k r (set_thread t (PopFree (cl_storage (cell_of k pos r)) pos) r)"
| mpop_free: "mr_threads r t = PopFree v pos \<Longrightarrow>
    mpmc_step k r (set_thread t Idle (set_cell k pos ((cell_of k pos r)\<lparr> cl_sequence := pos + 2 ^ k \<rparr>) (r\<lparr> mr_out := mr_out r @ [(unat pos, v)] \<rparr>)))"

inductive_cases mpmc_stepE: "mpmc_step k r r'"


section \<open>The invariant\<close>

fun writes :: "'a mthread \<Rightarrow> nat option" where
  "writes (PushWrite v pos) = Some (unat pos)"
| "writes (PushPublish v pos) = Some (unat pos)"
| "writes _ = None"

fun reads :: "'a mthread \<Rightarrow> nat option" where
  "reads (PopRead pos) = Some (unat pos)"
| "reads (PopFree v pos) = Some (unat pos)"
| "reads _ = None"

abbreviation seqn :: "'a MpmcRun \<Rightarrow> nat \<Rightarrow> nat" where
  "seqn r c \<equiv> unat (cl_sequence (mq_cells (mr_queue r) ! c))"

definition cell_inv :: "nat \<Rightarrow> 'a MpmcRun \<Rightarrow> nat \<Rightarrow> nat \<Rightarrow> bool" where
  "cell_inv k r c p \<longleftrightarrow> p mod 2 ^ k = c \<and> p < mr_deq r + 2 ^ k \<and> length (mr_enq r) \<le> p + 2 ^ k \<and>
     (seqn r c = p \<and> mr_deq r \<le> p \<and> (length (mr_enq r) \<le> p \<or> (\<exists>t. writes (mr_threads r t) = Some p)) \<or>
      seqn r c = Suc p \<and> p < length (mr_enq r) \<and> cl_storage (mq_cells (mr_queue r) ! c) = mr_enq r ! p \<and>
        (mr_deq r \<le> p \<or> (\<exists>t. reads (mr_threads r t) = Some p)))"

fun thread_inv :: "nat \<Rightarrow> 'a MpmcRun \<Rightarrow> 'a mthread \<Rightarrow> bool" where
  "thread_inv k r (PushCas v pos) \<longleftrightarrow> unat pos \<le> seqn r (slot k pos)"
| "thread_inv k r (PushWrite v pos) \<longleftrightarrow> unat pos < length (mr_enq r) \<and> mr_enq r ! unat pos = v \<and> seqn r (slot k pos) = unat pos"
| "thread_inv k r (PushPublish v pos) \<longleftrightarrow> unat pos < length (mr_enq r) \<and> mr_enq r ! unat pos = v \<and> seqn r (slot k pos) = unat pos \<and>
     cl_storage (mq_cells (mr_queue r) ! slot k pos) = v"
| "thread_inv k r (PopCas pos) \<longleftrightarrow> unat pos < seqn r (slot k pos)"
| "thread_inv k r (PopRead pos) \<longleftrightarrow> unat pos < mr_deq r \<and> seqn r (slot k pos) = Suc (unat pos)"
| "thread_inv k r (PopFree v pos) \<longleftrightarrow> unat pos < mr_deq r \<and> seqn r (slot k pos) = Suc (unat pos) \<and> mr_enq r ! unat pos = v"
| "thread_inv k r (PushAt v pos) \<longleftrightarrow> unat pos \<le> length (mr_enq r)"
| "thread_inv k r (PopAt pos) \<longleftrightarrow> unat pos \<le> mr_deq r"
| "thread_inv k r _ \<longleftrightarrow> True"

definition mpmc_inv :: "nat \<Rightarrow> 'a MpmcRun \<Rightarrow> bool" where
  "mpmc_inv k r \<longleftrightarrow> length (mq_cells (mr_queue r)) = 2 ^ k \<and> mr_deq r \<le> length (mr_enq r) \<and>
     mq_enqueue_pos (mr_queue r) = of_nat (length (mr_enq r)) \<and> mq_dequeue_pos (mr_queue r) = of_nat (mr_deq r) \<and>
     (\<forall>c < 2 ^ k. \<exists>p. cell_inv k r c p) \<and> (\<forall>t. thread_inv k r (mr_threads r t)) \<and>
     (\<forall>t u p. writes (mr_threads r t) = Some p \<and> writes (mr_threads r u) = Some p \<longrightarrow> t = u) \<and>
     (\<forall>t u p. reads (mr_threads r t) = Some p \<and> reads (mr_threads r u) = Some p \<longrightarrow> t = u) \<and>
     distinct (map fst (mr_out r)) \<and> (\<forall>(p, v) \<in> set (mr_out r). p < mr_deq r \<and> mr_enq r ! p = v) \<and>
     (\<forall>p < mr_deq r. p \<in> fst ` set (mr_out r) \<longleftrightarrow> (\<forall>t. reads (mr_threads r t) \<noteq> Some p))"

text \<open>Far from the end of the counters; a queue that passes a billion values a second gets there in more than a hundred years.\<close>

definition in_range :: "nat \<Rightarrow> 'a MpmcRun \<Rightarrow> bool" where
  "in_range k r \<longleftrightarrow> 1 \<le> k \<and> k < 62 \<and> length (mr_enq r) < 2 ^ 62"


lemma sint_small: "unat (w :: 64 word) < 2 ^ 63 \<Longrightarrow> sint w = int (unat w)"
proof -
  assume "unat w < 2 ^ 63"
  then have "int (unat w) < int (2 ^ 63)" by (simp only: of_nat_less_iff)
  then have "uint w < 2 ^ 63" by simp
  then have "signed_take_bit 63 (uint w) = uint w" by (simp add: signed_take_bit_int_eq_self_iff order_trans [OF _ uint_ge_0])
  then show ?thesis by (simp add: sint_uint)
qed

lemma slot_unat: "k < 64 \<Longrightarrow> slot k pos = unat pos mod 2 ^ k"
  using slot_of_nat [of k "unat pos"] by simp

lemma set_thread_simps [simp]:
  "mr_queue (set_thread t x r) = mr_queue r" "mr_enq (set_thread t x r) = mr_enq r" "mr_deq (set_thread t x r) = mr_deq r"
  "mr_out (set_thread t x r) = mr_out r" "mr_threads (set_thread t x r) = (mr_threads r)(t := x)"
  by (simp_all add: set_thread_def)

lemma set_cell_simps [simp]:
  "mr_threads (set_cell k pos c r) = mr_threads r" "mr_enq (set_cell k pos c r) = mr_enq r" "mr_deq (set_cell k pos c r) = mr_deq r"
  "mr_out (set_cell k pos c r) = mr_out r" "mq_enqueue_pos (mr_queue (set_cell k pos c r)) = mq_enqueue_pos (mr_queue r)"
  "mq_dequeue_pos (mr_queue (set_cell k pos c r)) = mq_dequeue_pos (mr_queue r)"
  "mq_cells (mr_queue (set_cell k pos c r)) = (mq_cells (mr_queue r))[slot k pos := c]"
  by (simp_all add: set_cell_def)

text \<open>The parts of the invariant.\<close>

lemma mpmc_invD:
  assumes "mpmc_inv k r"
  shows "length (mq_cells (mr_queue r)) = 2 ^ k" "mr_deq r \<le> length (mr_enq r)"
    "mq_enqueue_pos (mr_queue r) = of_nat (length (mr_enq r))" "mq_dequeue_pos (mr_queue r) = of_nat (mr_deq r)"
    "\<And>c. c < 2 ^ k \<Longrightarrow> \<exists>p. cell_inv k r c p" "\<And>t. thread_inv k r (mr_threads r t)"
    "\<And>t u p. writes (mr_threads r t) = Some p \<Longrightarrow> writes (mr_threads r u) = Some p \<Longrightarrow> t = u"
    "\<And>t u p. reads (mr_threads r t) = Some p \<Longrightarrow> reads (mr_threads r u) = Some p \<Longrightarrow> t = u"
    "distinct (map fst (mr_out r))" "\<And>p v. (p, v) \<in> set (mr_out r) \<Longrightarrow> p < mr_deq r \<and> mr_enq r ! p = v"
    "\<And>p. p < mr_deq r \<Longrightarrow> p \<in> fst ` set (mr_out r) \<longleftrightarrow> (\<forall>t. reads (mr_threads r t) \<noteq> Some p)"
  using assms by (auto simp: mpmc_inv_def)

lemma mpmc_invI:
  assumes "length (mq_cells (mr_queue r)) = 2 ^ k" "mr_deq r \<le> length (mr_enq r)"
    "mq_enqueue_pos (mr_queue r) = of_nat (length (mr_enq r))" "mq_dequeue_pos (mr_queue r) = of_nat (mr_deq r)"
    "\<And>c. c < 2 ^ k \<Longrightarrow> \<exists>p. cell_inv k r c p" "\<And>t. thread_inv k r (mr_threads r t)"
    "\<And>t u p. writes (mr_threads r t) = Some p \<Longrightarrow> writes (mr_threads r u) = Some p \<Longrightarrow> t = u"
    "\<And>t u p. reads (mr_threads r t) = Some p \<Longrightarrow> reads (mr_threads r u) = Some p \<Longrightarrow> t = u"
    "distinct (map fst (mr_out r))" "\<And>p v. (p, v) \<in> set (mr_out r) \<Longrightarrow> p < mr_deq r \<and> mr_enq r ! p = v"
    "\<And>p. p < mr_deq r \<Longrightarrow> p \<in> fst ` set (mr_out r) \<longleftrightarrow> (\<forall>t. reads (mr_threads r t) \<noteq> Some p)"
  shows "mpmc_inv k r"
  unfolding mpmc_inv_def using assms by (intro conjI allI impI ballI) (auto simp del: split_paired_All)

lemma mpmc_small:
  assumes "mpmc_inv k r" "in_range k r"
  shows "(2 :: nat) ^ k \<ge> 2" "(2 :: nat) ^ k < 2 ^ 62" "c < 2 ^ k \<Longrightarrow> seqn r c < 2 ^ 63"
    "unat (mq_enqueue_pos (mr_queue r)) = length (mr_enq r)" "unat (mq_dequeue_pos (mr_queue r)) = mr_deq r"
proof -
  have k: "1 \<le> k" "k < 62" "length (mr_enq r) < 2 ^ 62" using assms(2) by (auto simp: in_range_def)
  show two: "(2 :: nat) ^ k \<ge> 2" using power_increasing [of 1 k "2 :: nat"] k(1) by simp
  show cap: "(2 :: nat) ^ k < 2 ^ 62" using k(2) by (intro power_strict_increasing) simp_all
  show "unat (mq_enqueue_pos (mr_queue r)) = length (mr_enq r)" "unat (mq_dequeue_pos (mr_queue r)) = mr_deq r"
    using mpmc_invD(2-4) [OF assms(1)] k(3) by (simp_all add: unat_of_small)
  show "seqn r c < 2 ^ 63" if "c < 2 ^ k"
  proof -
    obtain p where "cell_inv k r c p" using mpmc_invD(5) [OF assms(1) \<open>c < 2 ^ k\<close>] by blast
    then have "seqn r c \<le> Suc p" "p < mr_deq r + 2 ^ k" by (auto simp: cell_inv_def)
    then show ?thesis using mpmc_invD(2) [OF assms(1)] k(3) cap by simp
  qed
qed

lemma cell_position_unique:
  fixes p q :: nat
  assumes "p mod n = q mod n" "s = p \<or> s = Suc p" "s = q \<or> s = Suc q" "2 \<le> n"
  shows "p = q"
  using assms mod_window_inj [of p n q] by (auto simp: mod_Suc)

text \<open>A step that changes only where a thread is, with no position reserved or released.\<close>

lemma mpmc_inv_thread:
  assumes inv: "mpmc_inv k r" and x: "thread_inv k r x" "writes x = writes (mr_threads r t)" "reads x = reads (mr_threads r t)"
  shows "mpmc_inv k (set_thread t x r)"
proof -
  have w: "writes (((mr_threads r)(t := x)) u) = writes (mr_threads r u)" "reads (((mr_threads r)(t := x)) u) = reads (mr_threads r u)" for u
    using x by simp_all
  have c: "cell_inv k (set_thread t x r) = cell_inv k r" by (simp add: cell_inv_def w fun_eq_iff del: fun_upd_apply)
  have th: "thread_inv k (set_thread t x r) y = thread_inv k r y" for y by (cases y) simp_all
  have "thread_inv k (set_thread t x r) (((mr_threads r)(t := x)) u)" for u
    unfolding th using x(1) mpmc_invD(6) [OF inv] by simp
  then show ?thesis using inv unfolding mpmc_inv_def by (simp add: w c del: fun_upd_apply)
qed


lemma cell_waiting:
  assumes "p mod 2 ^ k = c" "p < mr_deq r + 2 ^ k" "length (mr_enq r) \<le> p + 2 ^ k" "seqn r c = p" "mr_deq r \<le> p"
    and "length (mr_enq r) \<le> p \<or> writes (mr_threads r t) = Some p"
  shows "cell_inv k r c p"
  using assms unfolding cell_inv_def by blast

lemma cell_holding:
  assumes "p mod 2 ^ k = c" "p < mr_deq r + 2 ^ k" "length (mr_enq r) \<le> p + 2 ^ k" "seqn r c = Suc p" "p < length (mr_enq r)"
    and "cl_storage (mq_cells (mr_queue r) ! c) = mr_enq r ! p" "mr_deq r \<le> p \<or> reads (mr_threads r t) = Some p"
  shows "cell_inv k r c p"
  using assms unfolding cell_inv_def by blast

lemma cell_inv_keep:
  assumes "cell_inv k r c p" "mq_cells (mr_queue r') ! c = mq_cells (mr_queue r) ! c"
    and "length (mr_enq r) \<le> length (mr_enq r')" "\<And>i. i < length (mr_enq r) \<Longrightarrow> mr_enq r' ! i = mr_enq r ! i" "mr_deq r \<le> mr_deq r'"
    and "length (mr_enq r') \<le> p + 2 ^ k" "mr_deq r \<le> p \<Longrightarrow> mr_deq r' \<le> p" "length (mr_enq r) \<le> p \<Longrightarrow> length (mr_enq r') \<le> p"
    and "\<And>u. writes (mr_threads r u) = Some p \<Longrightarrow> writes (mr_threads r' u) = Some p" "\<And>u. reads (mr_threads r u) = Some p \<Longrightarrow> reads (mr_threads r' u) = Some p"
  shows "cell_inv k r' c p"
proof -
  have c: "p mod 2 ^ k = c" "p < mr_deq r + 2 ^ k" using assms(1) by (auto simp: cell_inv_def)
  consider (waiting) t where "seqn r c = p" "mr_deq r \<le> p" "length (mr_enq r) \<le> p \<or> writes (mr_threads r t) = Some p"
    | (holding) t where "seqn r c = Suc p" "p < length (mr_enq r)" "cl_storage (mq_cells (mr_queue r) ! c) = mr_enq r ! p"
      "mr_deq r \<le> p \<or> reads (mr_threads r t) = Some p"
    using assms(1) unfolding cell_inv_def by blast
  then show ?thesis
  proof cases
    case waiting
    then show ?thesis using assms(2-9) c by (intro cell_waiting [where t = t]) auto
  next
    case holding
    then show ?thesis using assms(2-8,10) c by (intro cell_holding [where t = t]) auto
  qed
qed

text \<open>The cell of the next position of the producers, when its sequence number has reached that position, is free; likewise for the consumers.\<close>

lemma next_cell_free:
  assumes inv: "mpmc_inv k r" and rg: "in_range k r" and c: "cell_inv k r (length (mr_enq r) mod 2 ^ k) p"
    and s: "length (mr_enq r) \<le> seqn r (length (mr_enq r) mod 2 ^ k)"
  shows "p = length (mr_enq r)" "seqn r (length (mr_enq r) mod 2 ^ k) = length (mr_enq r)"
proof -
  let ?E = "length (mr_enq r)"
  note two = mpmc_small(1) [OF inv rg]
  have m: "p mod 2 ^ k = ?E mod 2 ^ k" "p < mr_deq r + 2 ^ k" using c by (auto simp: cell_inv_def)
  have lt: "p < ?E + 2 ^ k" using m(2) mpmc_invD(2) [OF inv] by simp
  show "p = ?E"
  proof (cases "?E \<le> p")
    case True
    then show ?thesis using mod_window_inj [OF m(1) lt] two by linarith
  next
    case False
    then have "seqn r (?E mod 2 ^ k) = Suc p" "p < ?E" using c s by (auto simp: cell_inv_def)
    then show ?thesis using s two mod_window_inj [OF m(1) lt] by linarith
  qed
  then show "seqn r (?E mod 2 ^ k) = ?E" using c by (auto simp: cell_inv_def)
qed

lemma next_cell_full:
  assumes inv: "mpmc_inv k r" and rg: "in_range k r" and c: "cell_inv k r (mr_deq r mod 2 ^ k) p"
    and s: "mr_deq r < seqn r (mr_deq r mod 2 ^ k)"
  shows "p = mr_deq r" "seqn r (mr_deq r mod 2 ^ k) = Suc (mr_deq r)" "mr_deq r < length (mr_enq r)"
proof -
  let ?D = "mr_deq r"
  note two = mpmc_small(1) [OF inv rg]
  have m: "p mod 2 ^ k = ?D mod 2 ^ k" "p < ?D + 2 ^ k" using c by (auto simp: cell_inv_def)
  have "?D \<le> p" using c s by (auto simp: cell_inv_def)
  then show "p = ?D" using mod_window_inj [OF m] two by linarith
  then show "seqn r (?D mod 2 ^ k) = Suc ?D" "?D < length (mr_enq r)" using c s by (auto simp: cell_inv_def)
qed

lemma reserve_push_inv:
  assumes inv: "mpmc_inv k r" and rg: "in_range k r" and th: "mr_threads r t = PushCas v pos" "mq_enqueue_pos (mr_queue r) = pos"
  shows "mpmc_inv k (set_thread t (PushWrite v pos) (r\<lparr> mr_queue := (mr_queue r)\<lparr> mq_enqueue_pos := pos + 1 \<rparr>, mr_enq := mr_enq r @ [v] \<rparr>))"
    (is "mpmc_inv k ?r'")
proof -
  let ?E = "length (mr_enq r)" and ?q = "mr_queue r"
  note d = mpmc_invD [OF inv] and sm = mpmc_small [OF inv rg]
  have pos: "unat pos = ?E" "slot k pos = ?E mod 2 ^ k" using sm(4) th(2) rg by (auto simp: slot_unat in_range_def)
  have s: "?E \<le> seqn r (?E mod 2 ^ k)" using d(6) [of t] th(1) pos by simp
  have cs: "\<exists>p. cell_inv k ?r' c p" if c: "c < 2 ^ k" for c
  proof -
    obtain p where p: "cell_inv k r c p" using d(5) [OF c] by blast
    have m: "p mod 2 ^ k = c" using p by (simp add: cell_inv_def)
    show ?thesis
    proof (cases "c = ?E mod 2 ^ k")
      case True
      note n = next_cell_free [OF inv rg p [unfolded True] s]
      have "?E < mr_deq r + 2 ^ k" using p n(1) by (simp add: cell_inv_def)
      then have "cell_inv k ?r' c ?E" using n(2) True d(2) sm(1) pos by (intro cell_waiting [where t = t]) simp_all
      then show ?thesis ..
    next
      case False
      then have ne: "p \<noteq> ?E" "p + 2 ^ k \<noteq> ?E" using m mod_add_self2 by metis+
      have "length (mr_enq r) \<le> p + 2 ^ k" using p by (simp add: cell_inv_def)
      then have "cell_inv k ?r' c p" using th(1) ne by (intro cell_inv_keep [OF p]) (auto simp: nth_append)
      then show ?thesis ..
    qed
  qed
  have ths: "thread_inv k ?r' (mr_threads ?r' u)" for u
  proof (cases "u = t")
    case True
    obtain p where "cell_inv k r (?E mod 2 ^ k) p" using d(5) [of "?E mod 2 ^ k"] by auto
    then have "seqn r (?E mod 2 ^ k) = ?E" using next_cell_free(2) [OF inv rg _ s] by blast
    then show ?thesis using pos True by simp
  next
    case False
    have "thread_inv k ?r' x" if "thread_inv k r x" for x using that d(2) by (cases x) (auto simp: nth_append)
    then show ?thesis using False d(6) [of u] by simp
  qed
  have uw: "a = b" if "writes (mr_threads ?r' a) = Some p" "writes (mr_threads ?r' b) = Some p" for a b p
  proof -
    have "p < ?E" if "writes (mr_threads r u) = Some p" for u using that d(6) [of u] by (cases "mr_threads r u") auto
    then show ?thesis using that d(7) [of a p b] pos by (auto split: if_splits)
  qed
  have ur: "reads (mr_threads ?r' u) = reads (mr_threads r u)" for u using th(1) by simp
  show ?thesis
  proof (rule mpmc_invI)
    show "\<exists>p. cell_inv k ?r' c p" if "c < 2 ^ k" for c using cs that .
    show "thread_inv k ?r' (mr_threads ?r' u)" for u using ths .
    show "a = b" if "writes (mr_threads ?r' a) = Some p" "writes (mr_threads ?r' b) = Some p" for a b p using uw that .
    show "a = b" if "reads (mr_threads ?r' a) = Some p" "reads (mr_threads ?r' b) = Some p" for a b p using d(8) that unfolding ur .
    show "p < mr_deq ?r' \<and> mr_enq ?r' ! p = v" if "(p, v) \<in> set (mr_out ?r')" for p v
      using d(10) [of p v] that d(2) by (simp add: nth_append)
    show "p \<in> fst ` set (mr_out ?r') \<longleftrightarrow> (\<forall>u. reads (mr_threads ?r' u) \<noteq> Some p)" if "p < mr_deq ?r'" for p
      using d(11) [of p] that unfolding ur by simp
  qed (use d th(2) in simp_all)
qed


lemma slot_cell:
  assumes "mpmc_inv k r" "in_range k r"
  shows "slot k pos < 2 ^ k" "slot k pos = unat pos mod 2 ^ k" "slot k pos < length (mq_cells (mr_queue r))"
  using assms mpmc_invD(1) [OF assms(1)] by (simp_all add: in_range_def slot_unat)

text \<open>The cell of a position that a thread has reserved.\<close>

lemma written_cell:
  assumes inv: "mpmc_inv k r" and rg: "in_range k r" and s: "seqn r (slot k pos) = unat pos"
  shows "cell_inv k r (slot k pos) (unat pos)" "mr_deq r \<le> unat pos" "unat pos < mr_deq r + 2 ^ k" "length (mr_enq r) \<le> unat pos + 2 ^ k"
proof -
  note sl = slot_cell [OF inv rg, of pos]
  obtain p where p: "cell_inv k r (slot k pos) p" using mpmc_invD(5) [OF inv sl(1)] by blast
  have "p mod 2 ^ k = unat pos mod 2 ^ k" "seqn r (slot k pos) = p \<or> seqn r (slot k pos) = Suc p" using p sl(2) by (auto simp: cell_inv_def)
  then have "p = unat pos" using cell_position_unique [of p "2 ^ k" "unat pos"] s mpmc_small(1) [OF inv rg] by blast
  then show "cell_inv k r (slot k pos) (unat pos)" "mr_deq r \<le> unat pos" "unat pos < mr_deq r + 2 ^ k" "length (mr_enq r) \<le> unat pos + 2 ^ k"
    using p s by (auto simp: cell_inv_def)
qed

lemma read_cell:
  assumes inv: "mpmc_inv k r" and rg: "in_range k r" and s: "seqn r (slot k pos) = Suc (unat pos)"
  shows "cl_storage (cell_of k pos r) = mr_enq r ! unat pos" "length (mr_enq r) \<le> unat pos + 2 ^ k" "unat pos < length (mr_enq r)"
proof -
  note sl = slot_cell [OF inv rg, of pos]
  obtain p where p: "cell_inv k r (slot k pos) p" using mpmc_invD(5) [OF inv sl(1)] by blast
  have "p mod 2 ^ k = unat pos mod 2 ^ k" "seqn r (slot k pos) = p \<or> seqn r (slot k pos) = Suc p" using p sl(2) by (auto simp: cell_inv_def)
  then have "p = unat pos" using cell_position_unique [of p "2 ^ k" "unat pos"] s mpmc_small(1) [OF inv rg] by blast
  then show "cl_storage (cell_of k pos r) = mr_enq r ! unat pos" "length (mr_enq r) \<le> unat pos + 2 ^ k" "unat pos < length (mr_enq r)"
    using p s by (auto simp: cell_inv_def)
qed

text \<open>Two positions whose cell is the same and that both hold a reservation.\<close>

lemma reserved_same_cell:
  assumes inv: "mpmc_inv k r" and rg: "in_range k r" and c: "slot k pos = slot k q"
  shows "seqn r (slot k pos) = unat pos \<Longrightarrow> seqn r (slot k q) = unat q \<Longrightarrow> unat q = unat pos"
    "seqn r (slot k pos) = unat pos \<Longrightarrow> seqn r (slot k q) \<noteq> Suc (unat q)"
    "seqn r (slot k pos) = Suc (unat pos) \<Longrightarrow> seqn r (slot k q) = Suc (unat q) \<Longrightarrow> unat q = unat pos"
    "seqn r (slot k pos) = Suc (unat pos) \<Longrightarrow> seqn r (slot k q) \<noteq> unat q"
proof -
  have m: "unat pos mod 2 ^ k = unat q mod 2 ^ k" using slot_cell(2) [OF inv rg] c by metis
  have u: "unat pos = unat q" if "s = unat pos \<or> s = Suc (unat pos)" "s = unat q \<or> s = Suc (unat q)" for s
    using cell_position_unique [OF m that] mpmc_small(1) [OF inv rg] by simp
  show "seqn r (slot k pos) = unat pos \<Longrightarrow> seqn r (slot k q) = unat q \<Longrightarrow> unat q = unat pos"
    "seqn r (slot k pos) = Suc (unat pos) \<Longrightarrow> seqn r (slot k q) = Suc (unat q) \<Longrightarrow> unat q = unat pos" using c by auto
  show "seqn r (slot k pos) = unat pos \<Longrightarrow> seqn r (slot k q) \<noteq> Suc (unat q)" "seqn r (slot k pos) = Suc (unat pos) \<Longrightarrow> seqn r (slot k q) \<noteq> unat q"
    using u [of "seqn r (slot k pos)"] c by auto
qed

lemma push_write_inv:
  assumes inv: "mpmc_inv k r" and rg: "in_range k r" and th: "mr_threads r t = PushWrite v pos"
  shows "mpmc_inv k (set_thread t (PushPublish v pos) (set_cell k pos ((cell_of k pos r)\<lparr> cl_storage := v \<rparr>) r))" (is "mpmc_inv k ?r'")
proof -
  note d = mpmc_invD [OF inv] and sl = slot_cell [OF inv rg]
  let ?r1 = "set_cell k pos ((cell_of k pos r)\<lparr> cl_storage := v \<rparr>) r"
  have t: "unat pos < length (mr_enq r)" "mr_enq r ! unat pos = v" "seqn r (slot k pos) = unat pos" using d(6) [of t] th by simp_all
  note w = written_cell [OF inv rg t(3)]
  have wr: "writes (mr_threads ?r' u) = writes (mr_threads r u)" "reads (mr_threads ?r' u) = reads (mr_threads r u)" for u using th by simp_all
  have sq: "seqn ?r1 c = seqn r c" for c using sl(3) [of pos] by (cases "c = slot k pos") simp_all
  have cs: "\<exists>p. cell_inv k ?r' c p" if c: "c < 2 ^ k" for c
  proof (cases "c = slot k pos")
    case True
    have "cell_inv k ?r' c (unat pos)"
      using True t w sl(2) [of pos, symmetric] by (intro cell_waiting [where t = t]) (simp_all add: sq del: set_cell_simps(7))
    then show ?thesis ..
  next
    case False
    obtain p where p: "cell_inv k r c p" using d(5) [OF c] by blast
    have "cell_inv k ?r' c p" using p False wr by (intro cell_inv_keep [OF p]) (auto simp: cell_inv_def)
    then show ?thesis ..
  qed
  have ths: "thread_inv k ?r' (mr_threads ?r' u)" for u
  proof (cases "u = t")
    case True
    have "cl_storage (mq_cells (mr_queue ?r') ! slot k pos) = v" using sl(3) [of pos] by simp
    then show ?thesis using t True by (simp add: sq del: set_cell_simps(7))
  next
    case False
    have n: "slot k q \<noteq> slot k pos" if "mr_threads r u = PushPublish x q" for x q
    proof
      assume e: "slot k q = slot k pos"
      have "seqn r (slot k q) = unat q" using d(6) [of u] that by simp
      then have "unat q = unat pos" using reserved_same_cell(1) [OF inv rg e [symmetric] t(3)] by simp
      then show False using d(7) [of u "unat pos" t] th that False by simp
    qed
    have "cl_storage (mq_cells (mr_queue ?r1) ! c) = cl_storage (mq_cells (mr_queue r) ! c)" if "c \<noteq> slot k pos" for c using that by simp
    then have "thread_inv k ?r' (mr_threads r u)" using d(6) [of u] n by (cases "mr_threads r u") (auto simp: sq simp del: set_cell_simps(7))
    then show ?thesis using False by simp
  qed
  show ?thesis
  proof (rule mpmc_invI)
    show "a = b" if "writes (mr_threads ?r' a) = Some p" "writes (mr_threads ?r' b) = Some p" for a b p using d(7) that unfolding wr .
    show "a = b" if "reads (mr_threads ?r' a) = Some p" "reads (mr_threads ?r' b) = Some p" for a b p using d(8) that unfolding wr .
    show "p \<in> fst ` set (mr_out ?r') \<longleftrightarrow> (\<forall>u. reads (mr_threads ?r' u) \<noteq> Some p)" if "p < mr_deq ?r'" for p
      using d(11) [of p] that unfolding wr by simp
  qed (use d cs ths in simp_all)
qed


text \<open>A store of a higher sequence number into a cell does not concern the threads that hold other cells.\<close>

lemma threads_keep:
  assumes x: "thread_inv k r x" and s: "\<And>q. slot k q \<noteq> slot k pos \<Longrightarrow> mq_cells (mr_queue r') ! slot k q = mq_cells (mr_queue r) ! slot k q"
    and up: "seqn r (slot k pos) \<le> seqn r' (slot k pos)" and e: "mr_enq r' = mr_enq r" "mr_deq r' = mr_deq r"
    and w: "\<And>q. writes x = Some (unat q) \<Longrightarrow> slot k q \<noteq> slot k pos" "\<And>q. reads x = Some (unat q) \<Longrightarrow> slot k q \<noteq> slot k pos"
  shows "thread_inv k r' x"
proof (cases x)
  case (PushCas v q)
  then show ?thesis using x s [of q] up by (cases "slot k q = slot k pos") auto
next
  case (PopCas q)
  then show ?thesis using x s [of q] up by (cases "slot k q = slot k pos") auto
qed (use x s w e in auto)

lemma push_publish_inv:
  assumes inv: "mpmc_inv k r" and rg: "in_range k r" and th: "mr_threads r t = PushPublish v pos"
  shows "mpmc_inv k (set_thread t Idle (set_cell k pos ((cell_of k pos r)\<lparr> cl_sequence := pos + 1 \<rparr>) r))" (is "mpmc_inv k ?r'")
proof -
  note d = mpmc_invD [OF inv] and sl = slot_cell [OF inv rg]
  have t: "unat pos < length (mr_enq r)" "mr_enq r ! unat pos = v" "seqn r (slot k pos) = unat pos" "cl_storage (cell_of k pos r) = v"
    using d(6) [of t] th by simp_all
  note w = written_cell [OF inv rg t(3)]
  have "unat (of_nat (Suc (unat pos)) :: 64 word) = Suc (unat pos)" using t(1) rg by (intro unat_of_small) (simp add: in_range_def)
  then have p1: "unat (pos + 1) = Suc (unat pos)" by (simp add: add.commute)
  have sq: "seqn ?r' (slot k pos) = Suc (unat pos)" using sl(3) [of pos] p1 by simp
  have cs: "\<exists>p. cell_inv k ?r' c p" if c: "c < 2 ^ k" for c
  proof (cases "c = slot k pos")
    case True
    have "cell_inv k ?r' c (unat pos)"
      using True t w sl(2) [of pos, symmetric] sl(3) [of pos] p1 by (intro cell_holding [where t = t]) simp_all
    then show ?thesis ..
  next
    case False
    obtain p where p: "cell_inv k r c p" using d(5) [OF c] by blast
    then have ne: "p \<noteq> unat pos" using False sl(2) [of pos] by (auto simp: cell_inv_def)
    have "cell_inv k ?r' c p" using p False ne th by (intro cell_inv_keep [OF p]) (auto simp: cell_inv_def)
    then show ?thesis ..
  qed
  have ths: "thread_inv k ?r' (mr_threads ?r' u)" for u
  proof (cases "u = t")
    case False
    have a: "slot k q \<noteq> slot k pos" if "writes (mr_threads r u) = Some (unat q)" for q
    proof
      assume e: "slot k q = slot k pos"
      have "seqn r (slot k q) = unat q" using d(6) [of u] that by (cases "mr_threads r u") (auto simp flip: word_unat_eq_iff)
      then have "unat q = unat pos" using reserved_same_cell(1) [OF inv rg e [symmetric] t(3)] by simp
      then show False using d(7) [of u "unat pos" t] th that False by simp
    qed
    have b: "slot k q \<noteq> slot k pos" if "reads (mr_threads r u) = Some (unat q)" for q
    proof
      assume e: "slot k q = slot k pos"
      have "seqn r (slot k q) = Suc (unat q)" using d(6) [of u] that by (cases "mr_threads r u") (auto simp flip: word_unat_eq_iff)
      then show False using reserved_same_cell(2) [OF inv rg e [symmetric] t(3)] by simp
    qed
    have "thread_inv k ?r' (mr_threads r u)"
      by (rule threads_keep [OF d(6) [of u], where pos = pos]) (use t(3) sq a b in simp_all)
    then show ?thesis using False by simp
  qed simp
  have uw: "a = b" if "writes (mr_threads ?r' a) = Some p" "writes (mr_threads ?r' b) = Some p" for a b p
    using that d(7) [of a p b] by (simp split: if_splits)
  have ur: "reads (mr_threads ?r' u) = reads (mr_threads r u)" for u using th by simp
  show ?thesis
  proof (rule mpmc_invI)
    show "a = b" if "writes (mr_threads ?r' a) = Some p" "writes (mr_threads ?r' b) = Some p" for a b p using uw that .
    show "a = b" if "reads (mr_threads ?r' a) = Some p" "reads (mr_threads ?r' b) = Some p" for a b p using d(8) that unfolding ur .
    show "p \<in> fst ` set (mr_out ?r') \<longleftrightarrow> (\<forall>u. reads (mr_threads ?r' u) \<noteq> Some p)" if "p < mr_deq ?r'" for p
      using d(11) [of p] that unfolding ur by simp
  qed (use d cs ths in simp_all)
qed

lemma reserve_pop_inv:
  assumes inv: "mpmc_inv k r" and rg: "in_range k r" and th: "mr_threads r t = PopCas pos" "mq_dequeue_pos (mr_queue r) = pos"
  shows "mpmc_inv k (set_thread t (PopRead pos) (r\<lparr> mr_queue := (mr_queue r)\<lparr> mq_dequeue_pos := pos + 1 \<rparr>, mr_deq := Suc (mr_deq r) \<rparr>))"
    (is "mpmc_inv k ?r'")
proof -
  let ?D = "mr_deq r"
  note d = mpmc_invD [OF inv] and sm = mpmc_small [OF inv rg]
  have pos: "unat pos = ?D" "slot k pos = ?D mod 2 ^ k" using sm(5) th(2) rg by (auto simp: slot_unat in_range_def)
  have s: "?D < seqn r (?D mod 2 ^ k)" using d(6) [of t] th(1) pos by simp
  obtain p0 where p0: "cell_inv k r (?D mod 2 ^ k) p0" using d(5) [of "?D mod 2 ^ k"] by auto
  note n = next_cell_full [OF inv rg p0 s]
  have c0: "cl_storage (mq_cells (mr_queue r) ! (?D mod 2 ^ k)) = mr_enq r ! ?D" "length (mr_enq r) \<le> ?D + 2 ^ k"
    using p0 n by (auto simp: cell_inv_def)
  have cs: "\<exists>p. cell_inv k ?r' c p" if c: "c < 2 ^ k" for c
  proof (cases "c = ?D mod 2 ^ k")
    case True
    have "cell_inv k ?r' c ?D" using True n c0 pos sm(1) by (intro cell_holding [where t = t]) simp_all
    then show ?thesis ..
  next
    case False
    obtain p where p: "cell_inv k r c p" using d(5) [OF c] by blast
    then have ne: "p \<noteq> ?D" using False by (auto simp: cell_inv_def)
    have "cell_inv k ?r' c p" using p ne th(1) by (intro cell_inv_keep [OF p]) (auto simp: cell_inv_def)
    then show ?thesis ..
  qed
  have ths: "thread_inv k ?r' (mr_threads ?r' u)" for u
  proof (cases "u = t")
    case True
    then show ?thesis using pos n(2) by simp
  next
    case False
    have "thread_inv k ?r' x" if "thread_inv k r x" for x using that by (cases x) auto
    then show ?thesis using False d(6) [of u] by simp
  qed
  have lt: "p < ?D" if "reads (mr_threads r u) = Some p" for u p using that d(6) [of u] by (cases "mr_threads r u") auto
  have ur: "a = b" if "reads (mr_threads ?r' a) = Some p" "reads (mr_threads ?r' b) = Some p" for a b p
    using that d(8) [of a p b] lt pos by (auto split: if_splits)
  have uw: "writes (mr_threads ?r' u) = writes (mr_threads r u)" for u using th(1) by simp
  show ?thesis
  proof (rule mpmc_invI)
    show "a = b" if "writes (mr_threads ?r' a) = Some p" "writes (mr_threads ?r' b) = Some p" for a b p using d(7) that unfolding uw .
    show "a = b" if "reads (mr_threads ?r' a) = Some p" "reads (mr_threads ?r' b) = Some p" for a b p using ur that .
    show "p < mr_deq ?r' \<and> mr_enq ?r' ! p = v" if "(p, v) \<in> set (mr_out ?r')" for p v
      using d(10) [of p v] that by simp
    show "p \<in> fst ` set (mr_out ?r') \<longleftrightarrow> (\<forall>u. reads (mr_threads ?r' u) \<noteq> Some p)" if "p < mr_deq ?r'" for p
    proof (cases "p = ?D")
      case True
      have "p \<notin> fst ` set (mr_out r)" using d(10) True by force
      moreover have "reads (mr_threads ?r' t) = Some p" using True pos by simp
      ultimately show ?thesis by auto
    next
      case False
      have "reads (mr_threads ?r' u) = Some p \<longleftrightarrow> reads (mr_threads r u) = Some p" for u using False pos th(1) by simp
      then show ?thesis using d(11) [of p] that False by (simp del: set_thread_simps(5))
    qed
  qed (use d cs ths th(2) n(3) in simp_all)
qed


lemma pop_free_inv:
  assumes inv: "mpmc_inv k r" and rg: "in_range k r" and th: "mr_threads r t = PopFree v pos"
  shows "mpmc_inv k (set_thread t Idle (set_cell k pos ((cell_of k pos r)\<lparr> cl_sequence := pos + 2 ^ k \<rparr>) (r\<lparr> mr_out := mr_out r @ [(unat pos, v)] \<rparr>)))"
    (is "mpmc_inv k ?r'")
proof -
  note d = mpmc_invD [OF inv] and sl = slot_cell [OF inv rg] and sm = mpmc_small [OF inv rg]
  have t: "unat pos < mr_deq r" "seqn r (slot k pos) = Suc (unat pos)" "mr_enq r ! unat pos = v" using d(6) [of t] th by simp_all
  note rc = read_cell [OF inv rg t(2)]
  have "unat (of_nat (unat pos + 2 ^ k) :: 64 word) = unat pos + 2 ^ k" using rc(3) rg sm(2) by (intro unat_of_small) (simp add: in_range_def)
  then have p1: "unat (pos + 2 ^ k) = unat pos + 2 ^ k" by simp
  have sq: "seqn ?r' (slot k pos) = unat pos + 2 ^ k" using sl(3) [of pos] p1 by simp
  have cs: "\<exists>p. cell_inv k ?r' c p" if c: "c < 2 ^ k" for c
  proof (cases "c = slot k pos")
    case True
    have "cell_inv k ?r' c (unat pos + 2 ^ k)"
      using True t rc(2) d(2) sl(2) [of pos, symmetric] sl(3) [of pos] p1 by (intro cell_waiting [where t = t]) simp_all
    then show ?thesis ..
  next
    case False
    obtain p where p: "cell_inv k r c p" using d(5) [OF c] by blast
    then have ne: "p \<noteq> unat pos" using False sl(2) [of pos] by (auto simp: cell_inv_def)
    have "cell_inv k ?r' c p" using p False ne th by (intro cell_inv_keep [OF p]) (auto simp: cell_inv_def)
    then show ?thesis ..
  qed
  have ths: "thread_inv k ?r' (mr_threads ?r' u)" for u
  proof (cases "u = t")
    case False
    have a: "slot k q \<noteq> slot k pos" if "reads (mr_threads r u) = Some (unat q)" for q
    proof
      assume e: "slot k q = slot k pos"
      have "seqn r (slot k q) = Suc (unat q)" using d(6) [of u] that by (cases "mr_threads r u") (auto simp flip: word_unat_eq_iff)
      then have "unat q = unat pos" using reserved_same_cell(3) [OF inv rg e [symmetric] t(2)] by simp
      then show False using d(8) [of u "unat pos" t] th that False by simp
    qed
    have b: "slot k q \<noteq> slot k pos" if "writes (mr_threads r u) = Some (unat q)" for q
    proof
      assume e: "slot k q = slot k pos"
      have "seqn r (slot k q) = unat q" using d(6) [of u] that by (cases "mr_threads r u") (auto simp flip: word_unat_eq_iff)
      then show False using reserved_same_cell(4) [OF inv rg e [symmetric] t(2)] by simp
    qed
    have "thread_inv k ?r' (mr_threads r u)"
      by (rule threads_keep [OF d(6) [of u], where pos = pos]) (use t(2) sq a b sm(1) in simp_all)
    then show ?thesis using False by simp
  qed simp
  have ur: "reads (mr_threads ?r' u) = (if u = t then None else reads (mr_threads r u))" for u by simp
  have uw: "writes (mr_threads ?r' u) = writes (mr_threads r u)" for u using th by simp
  have fresh: "unat pos \<notin> fst ` set (mr_out r)" using d(11) [OF t(1)] th by (metis reads.simps(2))
  show ?thesis
  proof (rule mpmc_invI)
    show "a = b" if "writes (mr_threads ?r' a) = Some p" "writes (mr_threads ?r' b) = Some p" for a b p using d(7) that unfolding uw .
    show "a = b" if "reads (mr_threads ?r' a) = Some p" "reads (mr_threads ?r' b) = Some p" for a b p
      using d(8) [of a p b] that unfolding ur by (simp split: if_splits)
    show "p \<in> fst ` set (mr_out ?r') \<longleftrightarrow> (\<forall>u. reads (mr_threads ?r' u) \<noteq> Some p)" if "p < mr_deq ?r'" for p
    proof (cases "p = unat pos")
      case True
      have "reads (mr_threads r u) \<noteq> Some p" if "u \<noteq> t" for u using d(8) [of u p t] that th True by auto
      then show ?thesis using True unfolding ur by simp
    next
      case False
      have "reads (mr_threads ?r' u) = Some p \<longleftrightarrow> reads (mr_threads r u) = Some p" for u using False th by auto
      then show ?thesis using d(11) [of p] that False by (simp del: set_thread_simps(5))
    qed
    show "p < mr_deq ?r' \<and> mr_enq ?r' ! p = w" if "(p, w) \<in> set (mr_out ?r')" for p w
      using d(10) [of p w] that t by auto
    show "distinct (map fst (mr_out ?r'))" using d(9) fresh by simp
  qed (use d cs ths in simp_all)
qed

lemma mpmc_step_inv:
  assumes inv: "mpmc_inv k r" and rg: "in_range k r" and st: "mpmc_step k r r'"
  shows "mpmc_inv k r'"
proof -
  note d = mpmc_invD [OF inv] and sm = mpmc_small [OF inv rg]
  have n: "unat (of_nat n :: 64 word) = n" if "n \<le> length (mr_enq r)" for n using that rg by (intro unat_of_small) (simp add: in_range_def)
  have p1: "unat (pos + 1) = Suc (unat pos)" if "unat pos \<le> mr_deq r" for pos :: "64 word"
    using unat_of_small [of "Suc (unat pos)"] that d(2) rg by (simp add: in_range_def add.commute)
  have sv: "unat s \<le> seqn r (slot k pos)" "unat s < 2 ^ 63" if "seq_value k r pos s" for pos s
    using that sm(3) [OF slot_cell(1) [OF inv rg], of pos] by (auto simp: seq_value_def)
  show ?thesis using st
  proof cases
    case (mpush_free t v pos s)
    have "unat pos \<le> length (mr_enq r)" using d(6) [of t] mpush_free(2) by simp
    then have "unat pos < 2 ^ 63" using rg by (simp add: in_range_def)
    then have "int (unat s) = int (unat pos)" using mpush_free(4) sint_small sv(2) [OF mpush_free(3)] by fastforce
    then have "unat s = unat pos" by (simp only: of_nat_eq_iff)
    then have "thread_inv k r (PushCas v pos)" using sv(1) [OF mpush_free(3)] by simp
    then show ?thesis unfolding mpush_free(1) using mpush_free(2) by (intro mpmc_inv_thread [OF inv]) simp_all
  next
    case (mpop_ready t pos s)
    have u: "unat pos \<le> mr_deq r" using d(6) [of t] mpop_ready(2) by simp
    then have "unat (pos + 1) < 2 ^ 63" using p1 d(2) rg by (simp add: in_range_def)
    then have "int (unat s) = int (unat (pos + 1))" using mpop_ready(4) sint_small sv(2) [OF mpop_ready(3)] by fastforce
    then have "unat s = Suc (unat pos)" using p1 [OF u] by (simp only: of_nat_eq_iff)
    then have "thread_inv k r (PopCas pos)" using sv(1) [OF mpop_ready(3)] by simp
    then show ?thesis unfolding mpop_ready(1) using mpop_ready(2) by (intro mpmc_inv_thread [OF inv]) simp_all
  next
    case (mpop_read t pos)
    have "seqn r (slot k pos) = Suc (unat pos)" "unat pos < mr_deq r" using d(6) [of t] mpop_read(2) by simp_all
    then show ?thesis using mpop_read read_cell(1) [OF inv rg, of pos] by (auto intro: mpmc_inv_thread [OF inv])
  next
    case (mpush_reserve t v pos)
    then show ?thesis using reserve_push_inv [OF inv rg] by simp
  next
    case (mpop_reserve t pos)
    then show ?thesis using reserve_pop_inv [OF inv rg] by simp
  next
    case (mpush_write t v pos)
    then show ?thesis using push_write_inv [OF inv rg] by simp
  next
    case (mpush_publish t v pos)
    then show ?thesis using push_publish_inv [OF inv rg] by simp
  next
    case (mpop_free t v pos)
    then show ?thesis using pop_free_inv [OF inv rg] by simp
  qed (use n d(2) sm(4,5) in \<open>auto intro!: mpmc_inv_thread [OF inv]\<close>)
qed


lemma mpmc_step_enq: "mpmc_step k r r' \<Longrightarrow> length (mr_enq r) \<le> length (mr_enq r')"
  by (erule mpmc_step.cases) simp_all

lemma new_mpmc_inv:
  assumes "k < 62"
  shows "mpmc_inv k (new_mpmc_run k d)"
proof (rule mpmc_invI)
  have cap: "(2 :: nat) ^ k < 2 ^ 62" using assms by (intro power_strict_increasing) simp_all
  show "\<exists>p. cell_inv k (new_mpmc_run k d) c p" if "c < 2 ^ k" for c
    using that cap by (intro exI [of _ c] cell_waiting [where t = 0]) (simp_all add: new_mpmc_run_def new_mpmc_def unat_of_small)
qed (simp_all add: new_mpmc_run_def new_mpmc_def)

lemma mpmc_reach_inv: "(mpmc_step k)\<^sup>*\<^sup>* (new_mpmc_run k d) r \<Longrightarrow> in_range k r \<Longrightarrow> mpmc_inv k r"
proof (induction rule: rtranclp_induct)
  case base
  then show ?case by (intro new_mpmc_inv) (simp add: in_range_def)
next
  case (step r r')
  then have "in_range k r" using mpmc_step_enq [of k r r'] by (simp add: in_range_def)
  then show ?case using step mpmc_step_inv by blast
qed

text \<open>
  C10: The queue for many threads delivers every value once.  Under any interleaving of any number of producers and consumers, with loads that see old values and with spurious
  failures of the compare-and-exchange, until \<open>2 ^ 62\<close> values went through: the consumer that reserved position \<open>p\<close> gives out the
  value whose producer reserved position \<open>p\<close>, and no position is given out twice, so values leave in the order in which they entered; a position
  reserved by a consumer is given out or in the hands of a thread that is reading it; at most \<open>2 ^ k\<close> positions are in use; and when no call is running, the values not
  yet given out are in their cells.
\<close>

theorem mpmc_fifo:
  assumes "(mpmc_step k)\<^sup>*\<^sup>* (new_mpmc_run k d) r" "in_range k r"
  shows "distinct (map fst (mr_out r)) \<and> (\<forall>(p, v) \<in> set (mr_out r). p < mr_deq r \<and> mr_enq r ! p = v) \<and>
    (\<forall>p < mr_deq r. p \<in> fst ` set (mr_out r) \<or> (\<exists>t. reads (mr_threads r t) = Some p)) \<and>
    mr_deq r \<le> length (mr_enq r) \<and> length (mr_enq r) \<le> mr_deq r + 2 ^ k \<and>
    ((\<forall>t. mr_threads r t = Idle) \<longrightarrow>
       fst ` set (mr_out r) = {..<mr_deq r} \<and>
       (\<forall>p. mr_deq r \<le> p \<and> p < length (mr_enq r) \<longrightarrow> cl_storage (mq_cells (mr_queue r) ! (p mod 2 ^ k)) = mr_enq r ! p))"
proof -
  have inv: "mpmc_inv k r" by (rule mpmc_reach_inv [OF assms])
  note d = mpmc_invD [OF inv]
  have two: "(2 :: nat) ^ k \<ge> 2" using mpmc_small(1) [OF inv assms(2)] .
  have held: "p < mr_deq r \<Longrightarrow> p \<in> fst ` set (mr_out r) \<or> (\<exists>t. reads (mr_threads r t) = Some p)" for p using d(11) [of p] by blast
  have full: "length (mr_enq r) \<le> mr_deq r + 2 ^ k"
  proof -
    obtain p where p: "cell_inv k r (mr_deq r mod 2 ^ k) p" using d(5) [of "mr_deq r mod 2 ^ k"] by auto
    have m: "p mod 2 ^ k = mr_deq r mod 2 ^ k" "p < mr_deq r + 2 ^ k" "length (mr_enq r) \<le> p + 2 ^ k" using p by (auto simp: cell_inv_def)
    show ?thesis
    proof (cases "mr_deq r < p")
      case True
      then show ?thesis using mod_window_inj [OF m(1,2)] two by linarith
    qed (use m(3) in linarith)
  qed
  have cells: "cl_storage (mq_cells (mr_queue r) ! (p mod 2 ^ k)) = mr_enq r ! p"
    if idle: "\<forall>t. mr_threads r t = Idle" and p: "mr_deq r \<le> p" "p < length (mr_enq r)" for p
  proof -
    obtain q where q: "cell_inv k r (p mod 2 ^ k) q" using d(5) [of "p mod 2 ^ k"] by auto
    have "q mod 2 ^ k = p mod 2 ^ k" "q < mr_deq r + 2 ^ k" "length (mr_enq r) \<le> q + 2 ^ k" using q by (auto simp: cell_inv_def)
    then have "q = p" using mod_window_inj [of q "2 ^ k" p] p by linarith
    then show ?thesis using q p idle by (auto simp: cell_inv_def)
  qed
  have "fst ` set (mr_out r) = {..<mr_deq r}" if "\<forall>t. mr_threads r t = Idle" using that d(10,11) by fastforce
  then show ?thesis using d(2,9,10) held full cells by auto
qed

text \<open>A value goes through.\<close>

theorem mpmc_fifo_witness:
  "\<exists>r. (mpmc_step 1)\<^sup>*\<^sup>* (new_mpmc_run 1 (0 :: nat)) r \<and> mr_enq r = [7] \<and> mr_threads r 0 = Idle \<and> cl_storage (mq_cells (mr_queue r) ! 0) = 7"
proof -
  let ?r0 = "new_mpmc_run 1 (0 :: nat)"
  define r1 where "r1 = set_thread 0 (PushAt 7 (of_nat 0)) ?r0"
  define r2 where "r2 = set_thread 0 (PushCas 7 0) r1"
  define r3 where "r3 = set_thread 0 (PushWrite 7 0) (r2\<lparr> mr_queue := (mr_queue r2)\<lparr> mq_enqueue_pos := 0 + 1 \<rparr>, mr_enq := mr_enq r2 @ [7] \<rparr>)"
  define r4 where "r4 = set_thread 0 (PushPublish 7 0) (set_cell 1 0 ((cell_of 1 0 r3)\<lparr> cl_storage := 7 \<rparr>) r3)"
  define r5 where "r5 = set_thread 0 Idle (set_cell 1 0 ((cell_of 1 0 r4)\<lparr> cl_sequence := 0 + 1 \<rparr>) r4)"
  have z: "slot (Suc 0) 0 = 0" by (simp add: slot_def)
  have s1: "mpmc_step 1 ?r0 r1" unfolding r1_def by (rule mpush_start) (simp_all add: new_mpmc_run_def)
  have s2: "mpmc_step 1 r1 r2" unfolding r2_def by (rule mpush_free [where s = 0]) (simp_all add: r1_def seq_value_def z exI [of _ 0])
  have s3: "mpmc_step 1 r2 r3" unfolding r3_def by (rule mpush_reserve) (simp_all add: r2_def r1_def new_mpmc_run_def new_mpmc_def)
  have s4: "mpmc_step 1 r3 r4" unfolding r4_def by (rule mpush_write) (simp add: r3_def)
  have s5: "mpmc_step 1 r4 r5" unfolding r5_def by (rule mpush_publish) (simp add: r4_def)
  note into = rtranclp.rtrancl_into_rtrancl
  have s: "(mpmc_step 1)\<^sup>*\<^sup>* ?r0 r5"
    by (rule into [OF into [OF into [OF into [OF r_into_rtranclp [of "mpmc_step 1", OF s1] s2] s3] s4] s5])
  have v: "mr_enq r5 = [7]" "mr_deq r5 = 0" "mr_threads r5 = (\<lambda>_. Idle)"
    by (simp_all add: r5_def r4_def r3_def r2_def r1_def new_mpmc_run_def fun_eq_iff)
  then have "in_range 1 r5" by (simp add: in_range_def)
  from mpmc_fifo [OF s this] have "cl_storage (mq_cells (mr_queue r5) ! 0) = 7" using v by auto
  then show ?thesis using s v by auto
qed

end
