(* ===== verification/Log_Compactor.thy ===== *)
theory Log_Compactor
  imports Record_Codec Partition_Log "HOL-Library.Sublist"
begin

text \<open>
  Compaction by key, \<^verbatim>\<open>storage/log_compactor.cpp\<close>: the two passes of
  \<^verbatim>\<open>LogCompactor::compact\<close> with its counters, and \<^verbatim>\<open>compact_log\<close>, which reads a
  whole partition log in chunks.  The lemmas show that the two passes compute the one-pass
  reference \<open>latest\<close>, that a reader who replays the compacted records ends with the same table
  of keys as one who replays all of them, and that the chunked loop visits every batch of the log
  exactly once, for every placement of the segment and chunk boundaries.
\<close>

section \<open>Model\<close>

record CompactionStats =
  records_in :: nat
  records_kept :: nat
  records_superseded :: nat
  tombstones_dropped :: nat

definition kReadChunkBytes :: nat where
  "kReadChunkBytes = 4 * 1024 * 1024"

text \<open>The first pass: the index of the last record of every key.\<close>

fun last_index :: "nat \<Rightarrow> Record list \<Rightarrow> (bytes \<rightharpoonup> nat) \<Rightarrow> (bytes \<rightharpoonup> nat)" where
  "last_index i [] m = m"
| "last_index i (r # rs) m =
     last_index (Suc i) rs (case rec_key r of Some k \<Rightarrow> m(k \<mapsto> i) | None \<Rightarrow> m)"

text \<open>The second pass, from index \<open>i\<close> with the records emitted and counted so far.\<close>

fun emit ::
  "bool \<Rightarrow> (bytes \<rightharpoonup> nat) \<Rightarrow> nat \<Rightarrow> Record list \<Rightarrow> Record list \<times> CompactionStats \<Rightarrow>
   Record list \<times> CompactionStats" where
  "emit retain_tombstones m i [] acc = acc"
| "emit retain_tombstones m i (r # rs) (out, st) =
     emit retain_tombstones m (Suc i) rs
       (case rec_key r of
          None \<Rightarrow> (out @ [r], st \<lparr> records_kept := records_kept st + 1 \<rparr>)
        | Some k \<Rightarrow>
            if m k \<noteq> Some i then (out, st \<lparr> records_superseded := records_superseded st + 1 \<rparr>)
            else if rec_value r = None \<and> \<not> retain_tombstones
            then (out, st \<lparr> tombstones_dropped := tombstones_dropped st + 1 \<rparr>)
            else (out @ [r], st \<lparr> records_kept := records_kept st + 1 \<rparr>))"

definition compact :: "bool \<Rightarrow> Record list \<Rightarrow> Record list \<times> CompactionStats" where
  "compact retain_tombstones rs =
     emit retain_tombstones (last_index 0 rs Map.empty) 0 rs
       ([], \<lparr> records_in = length rs, records_kept = 0, records_superseded = 0, tombstones_dropped = 0 \<rparr>)"

text \<open>The inner loop of \<^verbatim>\<open>compact_log\<close> over the batches of one chunk.\<close>

lemma peek_size: "peek data = Inr view \<Longrightarrow> kHeaderSize \<le> view_encoded_size view"
  by (auto simp: peek_def Let_def split: if_splits)

function chunk_records :: "codec_lib \<Rightarrow> bytes \<Rightarrow> Record list \<Rightarrow> Record list expected" where
  "chunk_records lib remaining acc =
     (if remaining = [] then Inr acc
      else case peek remaining of
          Inl _ \<Rightarrow> Inr acc
        | Inr view \<Rightarrow>
            if view_encoded_size view > length remaining then Inr acc
            else bindE (decode (take (view_encoded_size view) remaining)) (\<lambda>batch.
              bindE (decode_records lib batch kMaxRecordBytes) (\<lambda>rs.
              chunk_records lib (drop (view_encoded_size view) remaining) (acc @ rs))))"
  by pat_completeness auto
termination
  by (relation "measure (\<lambda>(lib, remaining, acc). length remaining)") (auto dest!: peek_size simp: kHeaderSize_def)

declare chunk_records.simps [simp del]

function compact_log_loop ::
  "crypto_lib \<Rightarrow> codec_lib \<Rightarrow> PartitionLog \<Rightarrow> int \<Rightarrow> Record list \<Rightarrow> Record list expected" where
  "compact_log_loop cr lib pl pos acc =
     (if pos < log_end_offset pl then
        bindE (plog_read cr pl pos kReadChunkBytes) (\<lambda>fetched.
        if batches fetched = [] then Inr acc
        else bindE (chunk_records lib (batches fetched) acc) (\<lambda>acc.
          if next_offset fetched \<le> pos then Inr acc
          else compact_log_loop cr lib pl (next_offset fetched) acc))
      else Inr acc)"
  by pat_completeness auto
termination
  by (relation "measure (\<lambda>(cr, lib, pl, pos, acc). nat (log_end_offset pl - pos))") auto

declare compact_log_loop.simps [simp del]

definition compact_log ::
  "crypto_lib \<Rightarrow> codec_lib \<Rightarrow> bool \<Rightarrow> PartitionLog \<Rightarrow> (Record list \<times> CompactionStats) expected" where
  "compact_log cr lib retain_tombstones pl =
     bindE (compact_log_loop cr lib pl (log_start_offset pl) []) (\<lambda>rs.
     Inr (compact retain_tombstones rs))"


section \<open>Reference\<close>

definition keys :: "Record list \<Rightarrow> bytes set" where
  "keys rs = {k. \<exists>r \<in> set rs. rec_key r = Some k}"

fun survives :: "bool \<Rightarrow> Record \<Rightarrow> Record list \<Rightarrow> bool" where
  "survives retain_tombstones r later \<longleftrightarrow>
     (case rec_key r of
        None \<Rightarrow> True
      | Some k \<Rightarrow> k \<notin> keys later \<and> (rec_value r \<noteq> None \<or> retain_tombstones))"

fun latest :: "bool \<Rightarrow> Record list \<Rightarrow> Record list" where
  "latest retain_tombstones [] = []"
| "latest retain_tombstones (r # rs) =
     (if survives retain_tombstones r rs then r # latest retain_tombstones rs
      else latest retain_tombstones rs)"

text \<open>The table a consumer builds by replaying records: a record without value deletes its key.\<close>

definition apply_record :: "Record \<Rightarrow> (bytes \<rightharpoonup> bytes) \<Rightarrow> (bytes \<rightharpoonup> bytes)" where
  "apply_record r t = (case rec_key r of None \<Rightarrow> t | Some k \<Rightarrow> t(k := rec_value r))"

definition table :: "Record list \<Rightarrow> (bytes \<rightharpoonup> bytes)" where
  "table rs = fold apply_record rs Map.empty"

fun decode_all :: "codec_lib \<Rightarrow> RecordBatch list \<Rightarrow> Record list expected" where
  "decode_all lib [] = Inr []"
| "decode_all lib (b # bs) =
     bindE (decode_records lib b kMaxRecordBytes) (\<lambda>rs.
     bindE (decode_all lib bs) (\<lambda>rest. Inr (rs @ rest)))"


section \<open>The two passes\<close>

lemma keys_simps [simp]:
  "keys [] = {}"
  "keys (r # rs) = (case rec_key r of None \<Rightarrow> keys rs | Some k \<Rightarrow> insert k (keys rs))"
  by (auto simp: keys_def split: option.splits)

lemma last_index_other: "k \<notin> keys rs \<Longrightarrow> last_index i rs m k = m k"
  by (induction i rs m rule: last_index.induct) (auto split: option.splits)

lemma last_index_later: "k \<in> keys rs \<Longrightarrow> \<exists>j \<ge> i. last_index i rs m k = Some j"
proof (induction i rs m rule: last_index.induct)
  case (2 i r rs m)
  show ?case
  proof (cases "k \<in> keys rs")
    case True
    with 2 show ?thesis using Suc_leD by fastforce
  next
    case False
    with 2(2) have "rec_key r = Some k" by (auto split: option.splits)
    then show ?thesis using last_index_other [OF False] by simp
  qed
qed simp

lemma last_index_here:
  "last_index (Suc i) rs (m(k \<mapsto> i)) k = Some i \<longleftrightarrow> k \<notin> keys rs"
  using last_index_other [of k rs "Suc i"] last_index_later [of k rs "Suc i" "m(k \<mapsto> i)"] by fastforce

lemma emit_latest:
  "emit keep (last_index i rs m) i rs (out, st) =
     (out @ latest keep rs,
      st \<lparr> records_kept := records_kept st + length (latest keep rs),
           records_superseded := records_superseded st + (length rs - length (latest True rs)),
           tombstones_dropped := tombstones_dropped st + (length (latest True rs) - length (latest keep rs)) \<rparr>)"
proof (induction rs arbitrary: i m out st)
  case (Cons r rs)
  have le: "length (latest b rs) \<le> length (latest True rs)" "length (latest b rs) \<le> length rs" for b
    by (induction rs) (auto split: option.splits)
  show ?case
  proof (cases "rec_key r")
    case None
    with Cons le show ?thesis by simp
  next
    case (Some k)
    with Cons le [of True] le [of keep] last_index_here [of i rs m k] show ?thesis
      by (cases "k \<in> keys rs"; cases "rec_value r"; cases keep)
        (simp_all add: Suc_diff_le)
  qed
qed simp

lemma compact_latest:
  "compact keep rs =
     (latest keep rs,
      \<lparr> records_in = length rs, records_kept = length (latest keep rs),
        records_superseded = length rs - length (latest True rs),
        tombstones_dropped = length (latest True rs) - length (latest keep rs) \<rparr>)"
  by (simp add: compact_def emit_latest)


section \<open>What survives\<close>

lemma latest_length: "length (latest keep rs) \<le> length (latest True rs)" "length (latest keep rs) \<le> length rs"
  by (induction rs) (auto split: option.splits)

lemma latest_subseq: "subseq (latest keep rs) rs"
  by (induction rs) auto

lemma latest_keys: "keys (latest keep rs) \<subseteq> keys rs"
  by (induction rs) (auto split: option.splits)

lemma latest_keyless: "filter (\<lambda>r. rec_key r = None) (latest keep rs) = filter (\<lambda>r. rec_key r = None) rs"
  by (induction rs) (auto split: option.splits)

lemma latest_distinct: "distinct (List.map_filter rec_key (latest keep rs))"
proof (induction rs)
  case (Cons r rs)
  have *: "k \<in> set (List.map_filter rec_key xs) \<longleftrightarrow> k \<in> keys xs" for k xs
    by (force simp: List.map_filter_def keys_def)
  from Cons latest_keys [of keep rs] show ?case
    by (auto simp: List.map_filter_simps * split: option.splits)
qed (simp add: List.map_filter_simps)

lemma latest_values: "keep \<or> filter (\<lambda>r. rec_key r \<noteq> None \<and> rec_value r = None) (latest keep rs) = []"
  by (induction rs) (auto split: option.splits)

lemma latest_idem: "latest keep (latest keep rs) = latest keep rs"
proof (induction rs)
  case (Cons r rs)
  with latest_keys [of keep rs] show ?case by (auto split: option.splits)
qed simp

lemma fold_apply_other: "k \<notin> keys rs \<Longrightarrow> fold apply_record rs t k = t k"
  by (induction rs arbitrary: t) (auto simp: apply_record_def split: option.splits)

lemma fold_apply_cong:
  "(k \<notin> keys rs \<Longrightarrow> t k = t' k) \<Longrightarrow> fold apply_record rs t k = fold apply_record rs t' k"
proof (induction rs arbitrary: t t')
  case (Cons r rs)
  show ?case
    unfolding fold_simps o_apply
    by (rule Cons.IH) (use Cons.prems in \<open>auto simp: apply_record_def split: option.splits\<close>)
qed simp

lemma table_latest_from:
  "(k \<in> keys rs \<Longrightarrow> t k = None) \<Longrightarrow> fold apply_record (latest keep rs) t k = fold apply_record rs t k"
proof (induction rs arbitrary: t)
  case (Cons r rs)
  show ?case
  proof (cases "survives keep r rs")
    case True
    then have "fold apply_record (latest keep rs) (apply_record r t) k = fold apply_record rs (apply_record r t) k"
      by (intro Cons.IH) (use Cons.prems in \<open>auto simp: apply_record_def split: option.splits\<close>)
    with True show ?thesis by simp
  next
    case False
    then obtain q where q: "rec_key r = Some q" "q \<in> keys rs \<or> rec_value r = None"
      by (auto split: option.splits)
    have "fold apply_record rs t k = fold apply_record rs (apply_record r t) k"
      by (rule fold_apply_cong) (use q Cons.prems in \<open>auto simp: apply_record_def\<close>)
    moreover have "fold apply_record (latest keep rs) t k = fold apply_record rs t k"
      by (rule Cons.IH) (use q Cons.prems in auto)
    ultimately show ?thesis using False by simp
  qed
qed simp

lemma table_latest: "table (latest keep rs) = table rs"
  by (rule ext) (simp add: table_def table_latest_from)


section \<open>The chunked loop\<close>

lemma decode_all_append:
  "decode_all lib (as @ bs) =
     bindE (decode_all lib as) (\<lambda>x. bindE (decode_all lib bs) (\<lambda>y. Inr (x @ y)))"
  by (induction as) (simp_all add: bindE_def split: sum.splits)

lemma chunk_records_run:
  "\<forall>b \<in> set bs. wf_batch b \<Longrightarrow>
   chunk_records lib (concat (map encode bs)) acc = bindE (decode_all lib bs) (\<lambda>rs. Inr (acc @ rs))"
proof (induction bs arbitrary: acc)
  case Nil
  show ?case by (simp add: chunk_records.simps)
next
  case (Cons b bs)
  then have b: "wf_batch b" by simp
  let ?r = "concat (map encode bs)"
  have "peek (encode b @ ?r) = Inr (view_of b)" "decode (encode b) = Inr b"
    using peek_encode [OF b] decode_encode [OF b, of "[]"] by simp_all
  moreover have "view_encoded_size (view_of b) = length (encode b)" "encode b \<noteq> []"
    by (simp_all add: view_of_def encoded_size_def flip: length_0_conv)
  ultimately show ?case
    using Cons by (subst chunk_records.simps) (simp add: bindE_def del: length_encode split: sum.splits)
qed

lemma take_until_prefix: "\<exists>zs. bs = take_until n bs @ zs"
  by (induction n bs rule: take_until.induct) auto

lemma take_until_ne: "0 < n \<Longrightarrow> bs \<noteq> [] \<Longrightarrow> take_until n bs \<noteq> []"
  by (cases bs) auto

lemma chain_wf: "chain cr o' ss bss \<Longrightarrow> bx \<in> set (concat bss) \<Longrightarrow> wf_batch (fst bx)"
proof (induction cr o' ss bss rule: chain.induct)
  case (2 cr o' s ss bs bss)
  show ?case
  proof (cases "bx \<in> set bs")
    case True
    with 2 have "is_blk cr (seg_cipher s) (fst bx) (snd bx)"
      by (auto simp: seg_inv_def log_holds_def list_all_iff)
    then show ?thesis by (rule is_blk_facts(3))
  qed (use 2 in auto)
qed auto

lemma from_offset_reaches:
  "contiguous o' (map fst bs) \<Longrightarrow> bx \<in> set (from_offset pos bs) \<Longrightarrow> pos \<le> last_offset (fst bx)"
proof (induction bs arbitrary: o')
  case (Cons a bs)
  show ?case
  proof (cases "last_offset (fst a) < pos \<or> bx = a")
    case False
    with Cons.prems have "bx \<in> set bs" "pos \<le> last_offset (fst a)" by (auto simp: case_prod_unfold)
    moreover have "last_offset (fst a) < base_offset (header (fst bx))" "base_offset (header (fst bx)) \<le> last_offset (fst bx)"
      using Cons.prems(1) contiguous_offsets [of "o' + record_count (header (fst a))" "map fst bs" "fst bx"] \<open>bx \<in> set bs\<close>
      by (auto simp: last_offset_def)
    ultimately show ?thesis by simp
  qed (use Cons in \<open>auto simp: case_prod_unfold split: if_splits\<close>)
qed simp

lemma from_offset_none:
  assumes "contiguous o' (map fst bs)" "o' \<le> pos" "from_offset pos bs = []"
  shows "end_of o' (map fst bs) \<le> pos"
proof (cases "bs = []")
  case False
  then have "last_offset (fst (last bs)) < pos"
    using assms(3) last_in_set [of bs] by (auto simp: dropWhile_eq_Nil_conv case_prod_unfold)
  with False show ?thesis using end_of_last [OF assms(1)] by (simp add: last_map)
qed (use assms in simp)

lemma compact_log_loop_all:
  assumes inv: "plog_inv cr pl bss" "plog_readable pl" and "log_start_offset pl \<le> pos"
  shows "compact_log_loop cr lib pl pos acc =
    bindE (decode_all lib (map fst (from_offset pos (concat bss)))) (\<lambda>rs. Inr (acc @ rs))"
  using assms(3)
proof (induction "nat (log_end_offset pl - pos)" arbitrary: pos acc rule: less_induct)
  case less
  let ?L = "concat bss" and ?o = "log_start_offset pl"
  let ?R = "from_offset pos ?L" and ?run = "take_until kReadChunkBytes (from_offset pos ?L)"
  have cont: "contiguous ?o (map fst ?L)" using inv(1) chain_contiguous by (auto simp: plog_inv_def)
  have le: "log_end_offset pl = end_of ?o (map fst ?L)" using inv(1) by (simp add: plog_inv_def)
  have wf: "\<forall>b \<in> set (map fst ?L). wf_batch b"
    using inv(1) chain_wf by (fastforce simp: plog_inv_def)
  show ?case
  proof (cases "pos < log_end_offset pl")
    case False
    then have R: "?R = []" using contiguous_offsets [OF cont] le by (fastforce simp: dropWhile_eq_Nil_conv)
    show ?thesis unfolding R using False by (subst compact_log_loop.simps) simp
  next
    case True
    obtain k where k: "?run = take k ?R" "k \<le> length ?R"
      using take_until_prefix [of ?R kReadChunkBytes] by (metis append_eq_conv_conj length_append le_add1)
    have "?R \<noteq> []" using from_offset_none [OF cont less.prems] True le by linarith
    then have "?run \<noteq> []" by (intro take_until_ne) (simp_all add: kReadChunkBytes_def)
    with k have k0: "0 < k" by (cases k) auto
    define nxt where "nxt = last_offset (fst (last ?run)) + 1"
    have nxt: "nxt = last_offset (fst (?R ! (k - 1))) + 1"
      unfolding nxt_def k(1) using last_take(2) [OF k0 k(2)] by simp
    have rest: "from_offset nxt ?L = drop k ?R"
      unfolding nxt using cont refl k0 k(2) by (rule from_offset_advance)
    have rd: "plog_read cr pl pos kReadChunkBytes = Inr \<lparr> batches = encs ?run, next_offset = nxt \<rparr>"
      unfolding plog_read_spec [OF inv] nxt_def using less.prems \<open>?run \<noteq> []\<close> by (simp add: Let_def)
    have ne: "encs ?run \<noteq> []" unfolding k(1) using k0 k(2) by (rule encs_take_ne)
    have prog: "pos < nxt"
      using from_offset_reaches [OF cont, of "?R ! (k - 1)" pos] k0 k(2) by (simp add: nxt)
    have "\<forall>b \<in> set (map fst ?run). wf_batch b"
      using wf unfolding k(1) by (fastforce dest: in_set_takeD set_dropWhileD)
    from chunk_records_run [OF this, of lib acc]
    have ch: "chunk_records lib (encs ?run) acc = bindE (decode_all lib (map fst ?run)) (\<lambda>rs. Inr (acc @ rs))"
      by (simp add: comp_def)
    have "map fst ?R = map fst ?run @ map fst (from_offset nxt ?L)"
      unfolding rest k(1) by (simp flip: map_append)
    then have split: "decode_all lib (map fst ?R) = bindE (decode_all lib (map fst ?run))
        (\<lambda>x. bindE (decode_all lib (map fst (from_offset nxt ?L))) (\<lambda>y. Inr (x @ y)))"
      by (simp only: decode_all_append)
    have "compact_log_loop cr lib pl nxt a =
        bindE (decode_all lib (map fst (from_offset nxt ?L))) (\<lambda>rs. Inr (a @ rs))" for a
      using prog True less.prems by (intro less.hyps) auto
    then show ?thesis
      using True ne prog unfolding split
      by (subst compact_log_loop.simps) (simp add: rd ch bindE_def del: concat_eq_Nil_conv split: sum.splits)
  qed
qed

lemma compact_log_all:
  assumes "plog_inv cr pl bss" "plog_readable pl"
  shows "compact_log cr lib keep pl = bindE (decode_all lib (log_batches bss)) (\<lambda>rs. Inr (compact keep rs))"
proof -
  have "from_offset (log_start_offset pl) (concat bss) = concat bss"
  proof (cases "concat bss")
    case (Cons a bs)
    have "contiguous (log_start_offset pl) (map fst (concat bss))"
      using assms(1) chain_contiguous by (auto simp: plog_inv_def)
    then show ?thesis unfolding Cons by (auto simp: case_prod_unfold last_offset_def)
  qed (simp del: concat_eq_Nil_conv)
  then show ?thesis
    using compact_log_loop_all [OF assms order_refl, of lib "[]"]
    by (simp add: compact_log_def bindE_def split: sum.splits)
qed


section \<open>Properties\<close>

text \<open>
  C25: Compaction keeps the meaning of the records.  The result is a subsequence of the input
  with its original offsets, in which no key occurs twice and every record without key is kept in
  order; a consumer who replays it builds the same table as from the full input; tombstones
  survive only when they are to be retained; the counters add up; compacting again changes nothing.
\<close>

theorem compact_contract:
  "case compact keep rs of (out, st) \<Rightarrow>
     subseq out rs \<and> distinct (List.map_filter rec_key out) \<and>
     filter (\<lambda>r. rec_key r = None) out = filter (\<lambda>r. rec_key r = None) rs \<and>
     table out = table rs \<and>
     (keep \<or> filter (\<lambda>r. rec_key r \<noteq> None \<and> rec_value r = None) out = []) \<and>
     records_in st = length rs \<and> records_kept st = length out \<and>
     records_in st = records_kept st + records_superseded st + tombstones_dropped st \<and>
     fst (compact keep out) = out"
  using latest_values [of keep rs] latest_length [of keep rs] latest_length [of True rs]
  by (simp add: compact_latest latest_subseq latest_distinct latest_keyless table_latest latest_idem)

text \<open>
  C24: Compacting a partition log takes in every record of every batch of the log once and in
  order, whatever the segment and chunk boundaries, and stops with the error of the first batch whose
  records do not decode.
\<close>

theorem compact_log_complete:
  assumes "plog_inv cr pl bss" "plog_readable pl"
  shows "compact_log cr lib keep pl =
    bindE (decode_all lib (log_batches bss)) (\<lambda>rs. Inr (compact keep rs))"
  using assms by (rule compact_log_all)

text \<open>A log with one batch of three records, of which the last replaces the first.\<close>

definition keyed_records :: "Record list" where
  "keyed_records =
     [sample_record, sample_record \<lparr> rec_key := Some [9] \<rparr>, sample_record \<lparr> rec_value := Some [5] \<rparr>]"

definition keyed_batch :: RecordBatch where
  "keyed_batch = build sample_lib keyed_records (default_header \<lparr> base_offset := 7 \<rparr>) CodecNone"

definition keyed_log :: PartitionLog where
  "keyed_log = sample_log \<lparr> segments := [sample_segment \<lparr>
     seg_log := empty_file \<lparr> content := encode keyed_batch \<rparr>, size_bytes := length (encode keyed_batch) \<rparr>],
     log_end_offset := 10 \<rparr>"

lemma keyed_batch_facts:
  "wf_batch keyed_batch" "base_offset (header keyed_batch) = 7" "record_count (header keyed_batch) = 3"
proof -
  have *: "header keyed_batch = default_header \<lparr> base_offset := 7, record_count := 3,
      attrs := attrs_with_codec 0 CodecNone \<rparr>" "records keyed_batch = encode_from 0 keyed_records"
    by (simp_all add: keyed_batch_def build_def Let_def keyed_records_def default_header_def)
  moreover have "length (encode_from 0 keyed_records) \<le> 100" by code_simp
  ultimately show "wf_batch keyed_batch"
    by (simp add: wf_batch_def wf_header_def default_header_def)
  show "base_offset (header keyed_batch) = 7" "record_count (header keyed_batch) = 3"
    by (simp_all add: *)
qed

lemma keyed_log_inv: "plog_inv no_crypto keyed_log [[(keyed_batch, encode keyed_batch)]]" "plog_readable keyed_log"
proof -
  let ?s = "sample_segment \<lparr> seg_log := empty_file \<lparr> content := encode keyed_batch \<rparr>,
    size_bytes := length (encode keyed_batch) \<rparr>"
  have "seg_inv no_crypto ?s [(keyed_batch, encode keyed_batch)]"
    using keyed_batch_facts
    by (simp add: seg_inv_def log_holds_def index_covers_def index_ok_def index_anchors_def sample_segment_def
        empty_file_def is_blk_def plain_block_def)
  then show "plog_inv no_crypto keyed_log [[(keyed_batch, encode keyed_batch)]]"
    using keyed_batch_facts by (simp add: plog_inv_def keyed_log_def sample_log_def sample_segment_def)
  show "plog_readable keyed_log"
    by (simp add: plog_readable_def keyed_log_def sample_log_def readable_def empty_file_def)
qed

theorem compact_log_complete_witness:
  "compact_log no_crypto sample_lib False keyed_log =
     Inr ([sample_record \<lparr> rec_key := Some [9], rec_offset := 8 \<rparr>,
           sample_record \<lparr> rec_value := Some [5], rec_offset := 9 \<rparr>],
          \<lparr> records_in = 3, records_kept = 2, records_superseded = 1, tombstones_dropped = 0 \<rparr>)"
proof -
  have "list_all wf_record keyed_records"
    by (simp add: keyed_records_def) (intro conjI; rule wf_record_small; simp add: sample_record_def empty_record_def)
  then have "decode_records sample_lib keyed_batch kMaxRecordBytes = Inr (number_from 7 keyed_records)"
    unfolding keyed_batch_def using decode_records_plain [of keyed_records sample_lib "default_header \<lparr> base_offset := 7 \<rparr>"]
    by (simp add: keyed_records_def)
  then show ?thesis
    unfolding compact_log_complete [OF keyed_log_inv]
    by (simp add: keyed_records_def compact_latest sample_record_def empty_record_def keys_def)
qed

end
