(* ===== verification/Log_Reopen.thy ===== *)
theory Log_Reopen
  imports Partition_Log "HOL-Library.Multiset"
begin

text \<open>
  What is on disk when a process ends, and what \<^verbatim>\<open>PartitionLog::open\<close> makes of it.
  \<open>disk_image\<close> is the directory of a log: the files of its sealed segments and those of the active
  one, whose log file may end in a part of the block that was being written.  The lemmas
  show that the files of a segment open to a segment with the same batches, that this is kept by
  appending, sealing and rotating, and that opening the directory restores the log.  The condition is that no
  write failed before: the bytes a failed write leaves behind the last block are not removed, and
  \<open>stale_tail_served\<close> shows what happens to them.
\<close>

section \<open>Files of a segment\<close>

definition index_clean :: "SparseIndex \<Rightarrow> bool" where
  "index_clean ix \<longleftrightarrow> length (content (idx_file ix)) < 8 * flushed ix + 8"

lemma index_open_clean:
  assumes "index_ok ix" "index_clean ix" "readable f" "content f = content (idx_file ix)"
  shows "\<exists>ix2. index_open (Inr f) base n = Inr ix2 \<and> entries ix2 = take (flushed ix) (entries ix) \<and>
    idx_base ix2 = base \<and> idx_file ix2 = f \<and> index_ok ix2 \<and> index_clean ix2"
proof -
  let ?c = "content (idx_file ix)" and ?k = "flushed ix"
  have c: "take (8 * ?k) ?c = entries_bytes (take ?k (entries ix))" "8 * ?k \<le> length ?c" "length ?c < 8 * ?k + 8"
    and k: "?k \<le> length (entries ix)" and srt: "index_sorted (entries ix)"
    using assms(1,2) by (auto simp: index_ok_def index_clean_def)
  then have count: "length ?c div 8 = ?k" by (intro div_nat_eqI) simp_all
  have "index_sorted (take ?k (entries ix))" using srt by (simp add: sorted_wrt_take)
  then have "load_entries ?k (take (8 * ?k) ?c) [] = Inr (take ?k (entries ix))"
    using load_entries_ok [of "[]" "take ?k (entries ix)" "[]"] k c(1) by simp
  then have "\<exists>ix2. index_open (Inr f) base n = Inr ix2 \<and> entries ix2 = take ?k (entries ix) \<and> idx_base ix2 = base \<and> idx_file ix2 = f"
    using assms(3,4) c count k
    by (auto simp: index_open_def file_size_readable read_at_readable kEntrySize_def Let_def mult.commute)
  then obtain ix2 where i: "index_open (Inr f) base n = Inr ix2" "entries ix2 = take ?k (entries ix)" "idx_base ix2 = base" "idx_file ix2 = f"
    by blast
  from index_open_ok [OF i(1)] i show ?thesis by (auto simp: index_ok_def index_clean_def)
qed

text \<open>
  The part of the log file before the blocks tells how to read them: nothing for a plain segment,
  the header with the salt of its key for an encrypted one.
\<close>

definition seg_header_ok :: "crypto_lib \<Rightarrow> EncryptionKey option \<Rightarrow> Segment \<Rightarrow> bool" where
  "seg_header_ok cr key s \<longleftrightarrow>
     (case seg_cipher s of
        None \<Rightarrow> data_start s = 0 \<and> fits_i64 (seg_base s) \<and> seg_base s \<noteq> load_le_i64 kEncSegmentMagic
      | Some c \<Rightarrow> data_start s = kEncSegmentHeaderSize \<and>
          (\<exists>k salt. key = Some k \<and> length salt = kEncSaltBytes \<and> cipher_create cr k salt = Inr c \<and>
             take kEncSegmentHeaderSize (content (seg_log s)) = encode_segment_header salt))"

definition files_clean :: "crypto_lib \<Rightarrow> EncryptionKey option \<Rightarrow> Segment \<Rightarrow> bool" where
  "files_clean cr key s \<longleftrightarrow> length (content (seg_log s)) = size_bytes s \<and> index_clean (seg_index s) \<and>
     seg_header_ok cr key s \<and> readable (seg_log s) \<and> readable (idx_file (seg_index s))"

text \<open>A plain log file is not taken for an encrypted one: it starts with its base offset.\<close>

lemma plain_no_header:
  assumes "fits_i64 o'" "o' \<noteq> load_le_i64 kEncSegmentMagic" "base_offset (header b) = o'"
  shows "\<not> is_encrypted_segment_header (take m (encode b) @ (if m < length (encode b) then [] else r))"
proof
  let ?h = "take m (encode b) @ (if m < length (encode b) then [] else r)"
  assume h: "is_encrypted_segment_header ?h"
  have l8: "length kEncSegmentMagic = 8" by (simp add: kEncSegmentMagic_def)
  obtain y where y: "encode b = store_le_i64 o' @ y" using assms(3) by (simp add: encode_def Let_def)
  have "8 \<le> length ?h" using h l8 by (simp add: is_encrypted_segment_header_def)
  then have m: "8 \<le> m" by (cases "m < length (encode b)") (auto simp: y)
  then have "take 8 ?h = store_le_i64 o'" by (simp add: y)
  with h l8 have "kEncSegmentMagic = store_le_i64 o' @ []" by (simp add: is_encrypted_segment_header_def)
  then have "load_le_i64 kEncSegmentMagic = o'" using load_store_le_int(3) [OF assms(1), of "[]"] by metis
  with assms(2) show False by simp
qed

lemma is_encrypted_take: "is_encrypted_segment_header (take kEncSegmentHeaderSize h) \<longleftrightarrow> is_encrypted_segment_header h"
  by (simp add: is_encrypted_segment_header_def kEncSegmentMagic_def min_def)

lemma plain_image_no_header:
  assumes "fits_i64 o'" "o' \<noteq> load_le_i64 kEncSegmentMagic" "contiguous o' (map fst bs)"
    and "list_all (\<lambda>(b, x). plain_block b x) bs" "tail = [] \<or> (\<exists>b. base_offset (header b) = end_of o' (map fst bs) \<and> tail = take m (encode b))"
  shows "\<not> is_encrypted_segment_header (blocks_bytes bs @ tail)"
proof (cases bs)
  case Nil
  show ?thesis
  proof (cases "tail = []")
    case True
    then show ?thesis using Nil by (simp add: is_encrypted_segment_header_def kEncSegmentMagic_def)
  next
    case False
    then obtain b where "base_offset (header b) = o'" "tail = take m (encode b)" using assms(5) Nil by auto
    with plain_no_header [OF assms(1,2), of b m "[]"] Nil show ?thesis by simp
  qed
next
  case (Cons bx bs')
  then have "base_offset (header (fst bx)) = o'" "snd bx = encode (fst bx)"
    using assms(3,4) by (auto simp: plain_block_def)
  with plain_no_header [OF assms(1,2), of "fst bx" "length (encode (fst bx))" "blocks_bytes bs' @ tail"] Cons
  show ?thesis by simp
qed

text \<open>The files of a segment, with the beginning of one more block, open to a segment that has its blocks.\<close>

definition cut_block :: "crypto_lib \<Rightarrow> SegmentCipher option \<Rightarrow> int \<Rightarrow> bytes \<Rightarrow> bool" where
  "cut_block cr c o' tail \<longleftrightarrow> tail = [] \<or>
     (\<exists>b x k. is_blk cr c b x \<and> base_offset (header b) = o' \<and> k < length x \<and> tail = take k x)"

lemma segment_open_image:
  assumes inv: "seg_inv cr s bs" and fc: "files_clean cr key s" and cut: "cut_block cr (seg_cipher s) (end_of (seg_base s) (map fst bs)) tail"
    and f: "readable f" "content f = content (seg_log s) @ tail"
    and fi: "readable fi" "content fi = content (idx_file (seg_index s))"
  shows "\<exists>s'. segment_open cr (Inr f) (Inr fi) (seg_base s) n key = Inr s' \<and> log_has cr s' bs tail \<and>
    index_covers s' bs \<and> seg_base s' = seg_base s \<and> seg_log s' = f \<and> idx_file (seg_index s') = fi \<and>
    seg_cipher s' = seg_cipher s \<and> data_start s' = data_start s \<and> index_clean (seg_index s')"
proof -
  let ?c = "content (seg_log s)"
  have lh: "log_holds cr s bs" and ct: "contiguous (seg_base s) (map fst bs)" and ic: "index_covers s bs"
    using inv by (simp_all add: seg_inv_def)
  have len: "length ?c = size_bytes s" and hd: "seg_header_ok cr key s" and icl: "index_clean (seg_index s)"
    using fc by (simp_all add: files_clean_def)
  have blks: "drop (data_start s) ?c = blocks_bytes bs" "data_start s \<le> length ?c"
    using lh len by (auto simp: log_holds_def)
  have iok: "index_ok (seg_index s)" using ic by (simp add: index_covers_def)
  from index_open_clean [OF iok icl fi, of "seg_base s" n]
  obtain ix where ix: "index_open (Inr fi) (seg_base s) n = Inr ix"
    "entries ix = take (flushed (seg_index s)) (entries (seg_index s))" "idx_base ix = seg_base s" "idx_file ix = fi" "index_ok ix" "index_clean ix"
    by blast
  have det: "detect_cipher cr f (length (content f)) key = Inr (seg_cipher s, data_start s)"
  proof (cases "seg_cipher s")
    case None
    then have d0: "data_start s = 0" and o: "fits_i64 (seg_base s)" "seg_base s \<noteq> load_le_i64 kEncSegmentMagic"
      using hd by (simp_all add: seg_header_ok_def)
    have pb: "list_all (\<lambda>(b, x). plain_block b x) bs"
      using lh None by (simp add: log_holds_def is_blk_def)
    obtain m where "tail = [] \<or> (\<exists>b. base_offset (header b) = end_of (seg_base s) (map fst bs) \<and> tail = take m (encode b))"
      using cut None by (auto simp: cut_block_def is_blk_def plain_block_def)
    from plain_image_no_header [OF o ct pb this] blks(1) d0 f(2)
    have "\<not> is_encrypted_segment_header (content f)" by simp
    then have "\<not> is_encrypted_segment_header (take kEncSegmentHeaderSize (content f))"
      using is_encrypted_take by blast
    then show ?thesis using None d0 f(1) by (simp add: detect_cipher_def read_at_readable)
  next
    case (Some c)
    then obtain k salt where k: "key = Some k" "length salt = 16" "cipher_create cr k salt = Inr c"
      "take 32 ?c = encode_segment_header salt" and d: "data_start s = 32"
      using hd by (auto simp: seg_header_ok_def)
    have "take 32 (content f) = encode_segment_header salt" "32 \<le> length (content f)"
      using k(4) f(2) blks(2) d by simp_all
    then show ?thesis
      using Some k d f(1) parse_encode_segment_header(1,2) [OF k(2)] parse_encode_segment_header(3) [of salt] by (simp add: detect_cipher_def read_at_readable)
  qed
  let ?s = "\<lparr> seg_base = seg_base s, seg_log = f, seg_index = ix, size_bytes = length (content f),
           seg_cipher = seg_cipher s, data_start = data_start s, seg_state = Active \<rparr>"
  have "segment_open cr (Inr f) (Inr fi) (seg_base s) n key = Inr ?s"
    using det ix(1) f(1) by (simp add: segment_open_def file_size_readable)
  moreover have "log_has cr ?s bs tail"
    using lh blks f(2) len by (simp add: log_has_def log_holds_def)
  moreover have "index_anchors ix \<subseteq> index_anchors (seg_index s)"
    unfolding index_anchors_def ix(2) using ic ix(3) by (auto simp: index_covers_def dest: in_set_takeD)
  then have "index_covers ?s bs" using ic ix by (auto simp: index_covers_def)
  ultimately show ?thesis using ix(4,6) by auto
qed

lemma log_has_holds: "log_has cr s bs [] \<Longrightarrow> log_holds cr s bs"
  by (simp add: log_holds_def log_has_def)

lemma segment_open_clean:
  assumes "seg_inv cr s bs" "files_clean cr key s" "readable f" "content f = content (seg_log s)"
    "readable fi" "content fi = content (idx_file (seg_index s))"
  shows "\<exists>s'. segment_open cr (Inr f) (Inr fi) (seg_base s) n key = Inr s' \<and> seg_inv cr s' bs \<and>
    seg_base s' = seg_base s \<and> seg_log s' = f \<and> files_clean cr key s'"
proof -
  have "cut_block cr (seg_cipher s) (end_of (seg_base s) (map fst bs)) []" by (simp add: cut_block_def)
  from segment_open_image [OF assms(1,2) this assms(3) _ assms(5,6), of n] assms(4) obtain s' where
    s': "segment_open cr (Inr f) (Inr fi) (seg_base s) n key = Inr s'" "log_has cr s' bs []" "index_covers s' bs"
    "seg_base s' = seg_base s" "seg_log s' = f" "idx_file (seg_index s') = fi" "seg_cipher s' = seg_cipher s"
    "data_start s' = data_start s" "index_clean (seg_index s')" by auto
  have "seg_inv cr s' bs" using s'(2-4) assms(1) log_has_holds by (simp add: seg_inv_def)
  moreover have "seg_header_ok cr key s'"
    using s'(4,5,7,8) assms(2,4) by (simp add: files_clean_def seg_header_ok_def split: option.splits)
  then have "files_clean cr key s'" using s' assms(3,5) by (simp add: files_clean_def log_has_def)
  ultimately show ?thesis using s' by blast
qed


section \<open>Reopening a log\<close>

definition segment_files :: "Segment \<Rightarrow> int \<times> File \<times> File" where
  "segment_files s = (seg_base s, seg_log s, idx_file (seg_index s))"

definition disk_image :: "PartitionLog \<Rightarrow> bytes \<Rightarrow> directory" where
  "disk_image pl tail =
     map segment_files (butlast (segments pl)) @
     [(seg_base (active pl),
       (seg_log (active pl)) \<lparr> content := content (seg_log (active pl)) @ tail, sched := [] \<rparr>,
       (idx_file (seg_index (active pl))) \<lparr> sched := [] \<rparr>)]"

lemma open_segments_append:
  "open_segments cr c (d1 @ d2) =
     bindE (open_segments cr c d1) (\<lambda>ss. bindE (open_segments cr c d2) (\<lambda>ss2. Inr (ss @ ss2)))"
  by (induction d1 rule: open_segments.induct) (simp_all add: bindE_def split: sum.splits)

lemma open_segments_chain:
  assumes "chain cr o' ss bss" "\<forall>s \<in> set ss. files_clean cr (encryption_key c) s"
  shows "\<exists>ss'. open_segments cr c (map segment_files ss) = Inr ss' \<and> chain cr o' ss' bss \<and>
    (\<forall>s \<in> set ss'. files_clean cr (encryption_key c) s)"
  using assms
proof (induction cr o' ss bss rule: chain.induct)
  case (2 cr o' s ss bs bss)
  have s: "seg_inv cr s bs" "files_clean cr (encryption_key c) s" "seg_base s = o'" using 2(2,3) by auto
  have rd: "readable (seg_log s)" "readable (idx_file (seg_index s))" using s(2) by (simp_all add: files_clean_def)
  from segment_open_clean [OF s(1,2) rd(1) refl rd(2) refl] obtain s' where
    "segment_open cr (Inr (seg_log s)) (Inr (idx_file (seg_index s))) (seg_base s) (index_interval_bytes c) (encryption_key c) = Inr s'"
    "seg_inv cr s' bs" "seg_base s' = seg_base s" "files_clean cr (encryption_key c) s'" by blast
  moreover from 2 obtain ss' where "open_segments cr c (map segment_files ss) = Inr ss'"
    "chain cr (end_of o' (map fst bs)) ss' bss" "\<forall>s \<in> set ss'. files_clean cr (encryption_key c) s" by auto
  ultimately show ?case using s(3) by (intro exI [of _ "s' # ss'"]) (simp add: segment_files_def [of s])
qed auto

lemma chain_sorted:
  assumes "chain cr o' ss bss" "\<forall>bs \<in> set (butlast bss). bs \<noteq> []"
  shows "sorted_wrt (<) (map seg_base ss) \<and> (\<forall>s \<in> set ss. o' \<le> seg_base s)"
  using assms
proof (induction cr o' ss bss rule: chain.induct)
  case (2 cr o' s ss bs bss)
  show ?case
  proof (cases "bss = []")
    case True
    then show ?thesis using 2(2) by (cases ss) auto
  next
    case False
    then have "bs \<noteq> []" "\<forall>bs \<in> set (butlast bss). bs \<noteq> []" using 2(3) by auto
    moreover have "contiguous o' (map fst bs)" using 2(2) by (auto simp: seg_inv_def)
    ultimately have "o' < end_of o' (map fst bs)" using end_of_ge [of o' "map fst bs"] by (cases bs) auto
    with 2 \<open>\<forall>bs \<in> set (butlast bss). bs \<noteq> []\<close> show ?thesis by fastforce
  qed
qed auto

text \<open>A log whose files hold exactly its blocks.\<close>

definition log_clean :: "crypto_lib \<Rightarrow> PartitionLog \<Rightarrow> block list list \<Rightarrow> bool" where
  "log_clean cr pl bss \<longleftrightarrow> plog_inv cr pl bss \<and>
     (\<forall>s \<in> set (segments pl). files_clean cr (encryption_key (cfg pl)) s) \<and>
     (\<forall>s \<in> set (butlast (segments pl)). \<not> is_empty s)"

lemma is_empty_blocks: "seg_inv cr s bs \<Longrightarrow> is_empty s \<longleftrightarrow> bs = []"
  using log_holds_no_bytes [of cr s "[]" bs] by (auto simp: seg_inv_def is_empty_def log_holds_def)

lemma chain_nonempty:
  "chain cr o' ss bss \<Longrightarrow> (\<forall>s \<in> set ss. \<not> is_empty s) \<longleftrightarrow> (\<forall>bs \<in> set bss. bs \<noteq> [])"
  by (induction cr o' ss bss rule: chain.induct) (auto simp: is_empty_blocks)

definition plog_small :: "PartitionLog \<Rightarrow> bool" where
  "plog_small pl \<longleftrightarrow> size_bytes (active pl) < 2 ^ 32 \<and> log_end_offset pl - seg_base (active pl) < 2 ^ 32"

lemma plog_small_active:
  assumes "plog_inv cr pl bss"
  shows "plog_small pl \<longleftrightarrow> seg_small (active pl) (last bss)"
  using plog_inv_activeE [OF assms] by (metis plog_small_def seg_small_def last_snoc)

lemma recover_image:
  assumes lh: "log_has cr s bs tail" and "index_covers s bs" and cut: "cut_block cr (seg_cipher s) o' tail"
    and "contiguous (seg_base s) (map fst bs)"
    and "readable (seg_log s)" "sched (seg_log s) = []" "sched (idx_file (seg_index s)) = []"
    and "seg_small (s \<lparr> size_bytes := data_start s + length (blocks_bytes bs) \<rparr>) bs"
    and hd: "seg_header_ok cr key (s \<lparr> seg_log := f \<rparr>)" "content (seg_log s) = content f @ tail"
    and "readable (idx_file (seg_index s))"
  shows "\<exists>s'. segment_recover cr s = (s', Inr (end_of (seg_base s) (map fst bs) - 1)) \<and> seg_inv cr s' bs \<and>
    seg_base s' = seg_base s \<and> files_clean cr key s'"
proof -
  have t: "torn cr s tail \<or> tail = []" using cut partial_block_torn by (auto simp: cut_block_def)
  from segment_recover_healthy [OF lh t assms(5-7)] obtain s' l where r: "segment_recover cr s = (s', Inr l)"
    and c: "content (seg_log s') = take (data_start s + length (blocks_bytes bs)) (content (seg_log s))" by blast
  have "idx_base (seg_index s) = seg_base s" using assms(2) by (simp add: index_covers_def)
  note i = segment_recover_inv [OF lh t assms(5,4) this assms(8) r]
  have cf: "content (seg_log s') = content f" "length (content f) = data_start s + length (blocks_bytes bs)"
    using c hd(2) lh by (auto simp: log_has_def)
  have "index_clean (seg_index s')"
    using i by (auto simp: index_clean_def seg_inv_def index_covers_def index_ok_def)
  moreover have "seg_header_ok cr key s'" using hd(1) i cf by (simp add: seg_header_ok_def split: option.splits)
  moreover have "length (content (seg_log s')) = size_bytes s'" using i cf by (auto simp: seg_inv_def log_holds_def)
  ultimately have "files_clean cr key s'" using i assms(11) by (simp add: files_clean_def)
  with i r show ?thesis by auto
qed

lemma plog_open_image:
  assumes cl: "log_clean cr pl bss" and small: "plog_small pl"
    and cut: "cut_block cr (seg_cipher (active pl)) (log_end_offset pl) tail" and dir: "mset dir = mset (disk_image pl tail)"
  shows "\<exists>pl'. plog_open cr (cfg pl) env dir = Inr pl' \<and> log_clean cr pl' bss \<and> cfg pl' = cfg pl \<and>
    log_start_offset pl' = log_start_offset pl \<and> log_end_offset pl' = log_end_offset pl"
proof -
  let ?c = "cfg pl" and ?a = "active pl" and ?o = "log_start_offset pl"
  have inv: "plog_inv cr pl bss" and clean: "\<forall>s \<in> set (segments pl). files_clean cr (encryption_key ?c) s"
    and nes: "\<forall>s \<in> set (butlast (segments pl)). \<not> is_empty s" using cl by (simp_all add: log_clean_def)
  have ch: "chain cr ?o (segments pl) bss" and sne: "segments pl \<noteq> []"
    and le: "log_end_offset pl = end_of ?o (log_batches bss)" using inv by (simp_all add: plog_inv_def)
  from ch sne obtain bss0 bs where bss: "bss = bss0 @ [bs]" and ch0: "chain cr ?o (butlast (segments pl)) bss0"
    and ba: "seg_base ?a = end_of ?o (log_batches bss0)" and ia: "seg_inv cr ?a bs" by (rule chain_snocE)
  have ne: "\<forall>bs \<in> set (butlast bss). bs \<noteq> []" using chain_nonempty [OF ch0] nes bss by simp
  have ea: "end_of (seg_base ?a) (map fst bs) = log_end_offset pl"
    unfolding le bss using ba by (simp add: end_of_append)
  let ?f = "(seg_log ?a) \<lparr> content := content (seg_log ?a) @ tail, sched := [] \<rparr>"
    and ?fi = "(idx_file (seg_index ?a)) \<lparr> sched := [] \<rparr>"
  have ca: "files_clean cr (encryption_key ?c) ?a" using clean sne by simp
  then have rd: "readable ?f" "readable ?fi" by (simp_all add: files_clean_def readable_def)
  obtain sa where
    sa: "segment_open cr (Inr ?f) (Inr ?fi) (seg_base ?a) (index_interval_bytes ?c) (encryption_key ?c) = Inr sa"
      "log_has cr sa bs tail" "index_covers sa bs" "seg_base sa = seg_base ?a" "seg_log sa = ?f"
      "idx_file (seg_index sa) = ?fi" "seg_cipher sa = seg_cipher ?a" "data_start sa = data_start ?a"
    using segment_open_image [OF ia ca _ rd(1) _ rd(2), of tail "index_interval_bytes ?c"] cut ea by auto
  have "seg_small (sa \<lparr> size_bytes := data_start sa + length (blocks_bytes bs) \<rparr>) bs"
    using small plog_small_active [OF inv] bss sa(4,8) ia by (simp add: seg_small_def seg_inv_def log_holds_def)
  moreover have "seg_header_ok cr (encryption_key ?c) (sa \<lparr> seg_log := seg_log ?a \<rparr>)"
    using ca sa(4,7,8) by (simp add: files_clean_def seg_header_ok_def split: option.splits)
  ultimately obtain s' where s': "segment_recover cr sa = (s', Inr (end_of (seg_base sa) (map fst bs) - 1))"
    "seg_inv cr s' bs" "seg_base s' = seg_base sa" "files_clean cr (encryption_key ?c) s'"
    using recover_image [OF sa(2,3), of "log_end_offset pl" "encryption_key ?c" "seg_log ?a"] sa(4-7) ia rd cut
    by (auto simp: seg_inv_def)
  have "\<forall>s \<in> set (butlast (segments pl)). files_clean cr (encryption_key ?c) s"
    using clean in_set_butlastD by fast
  from open_segments_chain [OF ch0 this] obtain ss where
    ss: "open_segments cr ?c (map segment_files (butlast (segments pl))) = Inr ss" "chain cr ?o ss bss0"
      "\<forall>s \<in> set ss. files_clean cr (encryption_key ?c) s" by blast
  have op: "open_segments cr ?c (disk_image pl tail) = Inr (ss @ [sa])"
    using ss(1) sa(1) by (simp add: disk_image_def open_segments_append)
  have bases: "map fst (disk_image pl tail) = map seg_base (segments pl)"
  proof -
    have "map seg_base (butlast (segments pl) @ [?a]) = map seg_base (segments pl)" using sne by simp
    then show ?thesis by (simp add: disk_image_def segment_files_def comp_def)
  qed
  have srt: "sorted_wrt (<) (map fst (disk_image pl tail))" using chain_sorted [OF ch ne] bases by simp
  then have "sort_key fst dir = disk_image pl tail"
    using dir by (intro sort_key_inj_key_eq)
      (auto simp: strict_sorted_iff distinct_map dest: mset_eq_setD)
  moreover have "dir \<noteq> []" "disk_image pl tail \<noteq> []" using dir by (auto simp: disk_image_def)
  moreover have "fst (hd (disk_image pl tail)) = ?o"
    using bases ch sne by (cases "segments pl"; cases bss; cases "disk_image pl tail") auto
  ultimately have o: "plog_open cr ?c env dir = Inr \<lparr> cfg = ?c, segments = ss @ [s'], log_start_offset = ?o,
      log_end_offset = log_end_offset pl, recovery_point = log_end_offset pl, bytes_since_sync = 0 \<rparr>" (is "_ = Inr ?pl")
    using op s'(1) sa(4) ea by (simp add: plog_open_def Let_def)
  have "plog_inv cr ?pl bss"
    unfolding bss using chain_snocI [OF ss(2), of s' bs] s' sa(4) ba le bss by (simp add: plog_inv_def)
  then have "log_clean cr ?pl bss"
    using ss(3) s'(4) chain_nonempty [OF ss(2)] ne bss by (simp add: log_clean_def)
  with o show ?thesis by auto
qed


section \<open>Appending keeps the files exact\<close>

definition env_fresh :: "log_env \<Rightarrow> bool" where
  "env_fresh env \<longleftrightarrow> env_ok env \<and> (\<forall>f. new_index env = Inr f \<longrightarrow> readable f)"

definition base_ok :: "int \<Rightarrow> bool" where
  "base_ok o' \<longleftrightarrow> fits_i64 o' \<and> o' \<noteq> load_le_i64 kEncSegmentMagic"

lemma create_segment_clean:
  assumes "create_segment cr c env base = Inr s" "env_fresh env" "base_ok base"
  shows "files_clean cr (encryption_key c) s"
proof -
  have eo: "env_ok env" using assms(2) by (simp add: env_fresh_def)
  from assms(1) obtain f ix where f: "new_log env = Inr f"
    and ix: "index_open (new_index env) base (index_interval_bytes c) = Inr ix"
    by (auto simp: create_segment_def segment_create_def result_iffs)
  note io = index_open_ok [OF ix]
  have i: "index_clean ix" "readable (idx_file ix)"
    using io assms(2) by (auto simp: index_ok_def index_clean_def env_fresh_def)
  have fc: "content f = []" "readable f" using eo f by (auto simp: env_ok_def)
  show ?thesis
  proof (cases "encryption_key c")
    case None
    with assms(1) f ix have "s = \<lparr> seg_base = base, seg_log = f, seg_index = ix, size_bytes = 0,
        seg_cipher = None, data_start = 0, seg_state = Active \<rparr>"
      by (simp add: create_segment_def segment_create_def)
    then show ?thesis using i fc assms(3) by (simp add: files_clean_def seg_header_ok_def base_ok_def)
  next
    case (Some k)
    with assms(1) f ix obtain salt ci where salt: "salt_random env = Inr salt" "cipher_create cr k salt = Inr ci"
      by (auto simp: create_segment_def segment_create_def result_iffs)
    obtain f' rw where w': "write_at f (encode_segment_header salt) 0 = (f', rw)" by fastforce
    with assms(1) f ix salt Some have w: "write_at f (encode_segment_header salt) 0 = (f', Inr ())"
      and s: "s = \<lparr> seg_base = base, seg_log = f', seg_index = ix, size_bytes = 32,
        seg_cipher = Some ci, data_start = 32, seg_state = Active \<rparr>"
      by (auto simp: create_segment_def segment_create_def split: sum.splits)
    have l: "length salt = 16" using eo salt(1) by (simp add: env_ok_def)
    then have "length (encode_segment_header salt) = 32" by (rule parse_encode_segment_header(2))
    moreover from w have "content f' = encode_segment_header salt \<and> readable f'"
      using fc by (rule_tac write_at_cases [OF w]) (auto simp: overwrite_def readable_def)
    ultimately show ?thesis using i s Some salt(2) l by (auto simp: files_clean_def seg_header_ok_def)
  qed
qed

lemma segment_append_clean:
  assumes "segment_append cr s b random = (s', Inr l)" "files_clean cr key s" "seg_inv cr s bs"
  shows "files_clean cr key s'"
proof -
  from assms(1) obtain x f where w: "write_at (seg_log s) x (size_bytes s) = (f, Inr ())"
    and s': "s' = s \<lparr> seg_log := f, seg_index := maybe_append (seg_index s) (base_offset (header b)) (size_bytes s) (length x),
      size_bytes := size_bytes s + length x \<rparr>"
    by (auto simp: segment_append_def Let_def split: if_splits sum.splits prod.splits)
  have len: "length (content (seg_log s)) = size_bytes s" using assms(2) by (simp add: files_clean_def)
  from w have c: "content f = content (seg_log s) @ x" "readable (seg_log s) \<Longrightarrow> readable f"
    by (rule_tac write_at_cases [OF w]; simp add: overwrite_at_end len readable_def)+
  have d: "data_start s \<le> size_bytes s" using assms(3) by (simp add: seg_inv_def log_holds_def)
  have "seg_header_ok cr key s'"
    using assms(2) c(1) d len by (auto simp: files_clean_def seg_header_ok_def s' split: option.splits)
  then show ?thesis using assms(2) c len by (simp add: files_clean_def s' index_clean_def maybe_append_def Let_def)
qed

lemma segment_sync_clean:
  assumes "segment_sync s = (s', Inr u)" "files_clean cr key s" "seg_inv cr s bs"
  shows "files_clean cr key s'"
proof -
  from assms(1) obtain ix f where fl: "index_flush (seg_index s) = (ix, Inr ())" "sync_file (seg_log s) = (f, Inr ())"
    and s': "s' = s \<lparr> seg_index := ix, seg_log := f \<rparr>"
    by (auto simp: segment_sync_def split: sum.splits prod.splits)
  have "index_ok (seg_index s)" using assms(3) by (simp add: seg_inv_def index_covers_def)
  note fo = index_flush_ok [OF this fl(1)]
  then have "index_clean ix" by (auto simp: index_clean_def index_ok_def)
  moreover have "content f = content (seg_log s)" "readable f = readable (seg_log s)"
    using sync_file_content [of "seg_log s"] fl(2) by (simp_all add: readable_def)
  ultimately show ?thesis
    using assms(2) fo by (simp add: files_clean_def s' seg_header_ok_def readable_def split: option.splits)
qed

lemma segment_seal_clean:
  assumes "segment_seal s = (s', Inr u)" "files_clean cr key s" "seg_inv cr s bs"
  shows "files_clean cr key s' \<and> is_empty s' = is_empty s"
proof -
  from assms(1) obtain s1 where s1: "segment_sync s = (s1, Inr ())" "s' = s1 \<lparr> seg_state := Closed \<rparr>"
    by (auto simp: segment_seal_def split: sum.splits prod.splits)
  have "files_clean cr key s1" using segment_sync_clean [OF s1(1) assms(2,3)] .
  moreover have "size_bytes s1 = size_bytes s" "data_start s1 = data_start s"
    using segment_sync_inv [OF assms(3) s1(1)] by simp_all
  ultimately show ?thesis by (simp add: s1(2) files_clean_def seg_header_ok_def is_empty_def split: option.splits)
qed

lemma log_cleanI:
  assumes "plog_inv cr pl' bss'" "segments pl' = ss @ [s]" "encryption_key (cfg pl') = key"
    and "\<forall>s \<in> set ss. files_clean cr key s \<and> \<not> is_empty s" "files_clean cr key s"
  shows "log_clean cr pl' bss'"
  using assms by (simp add: log_clean_def)

lemma log_cleanD:
  assumes "log_clean cr pl bss"
  shows "plog_inv cr pl bss" "segments pl = butlast (segments pl) @ [active pl]"
    "\<forall>s \<in> set (butlast (segments pl)). files_clean cr (encryption_key (cfg pl)) s \<and> \<not> is_empty s"
    "files_clean cr (encryption_key (cfg pl)) (active pl)"
  using assms by (auto simp: log_clean_def plog_inv_def dest: in_set_butlastD)

lemma log_clean_set_active:
  assumes "log_clean cr pl bss" "plog_inv cr pl' bss'" "segments pl' = butlast (segments pl) @ [s]" "cfg pl' = cfg pl"
    and "files_clean cr (encryption_key (cfg pl)) s"
  shows "log_clean cr pl' bss'"
  by (rule log_cleanI [OF assms(2,3) arg_cong [OF assms(4), of encryption_key]]) (use log_cleanD(3) [OF assms(1)] assms(5) in simp_all)

lemma plog_sync_clean:
  assumes "log_clean cr pl bss" "plog_sync pl = (pl', Inr u)"
  shows "log_clean cr pl' bss"
proof -
  note c = log_cleanD [OF assms(1)]
  from assms(2) obtain s where s: "segment_sync (active pl) = (s, Inr ())" "segments pl' = butlast (segments pl) @ [s]" "cfg pl' = cfg pl"
    by (auto simp: plog_sync_def split: sum.splits prod.splits)
  obtain bss0 bs where "seg_inv cr (active pl) bs" using c(1) by (rule plog_inv_activeE)
  from segment_sync_clean [OF s(1) c(4) this] plog_sync_inv [OF c(1) assms(2)] s show ?thesis
    by (intro log_clean_set_active [OF assms(1)]) simp_all
qed

lemma maybe_sync_clean:
  assumes "log_clean cr pl bss" "maybe_sync pl n = (pl', Inr u)"
  shows "log_clean cr pl' bss"
proof -
  have "log_clean cr (pl \<lparr> bytes_since_sync := m \<rparr>) bss" for m
    using assms(1) by (simp add: log_clean_def plog_inv_def)
  then show ?thesis
    using assms plog_sync_clean
    by (auto simp: maybe_sync_def Let_def split: FsyncPolicy.splits if_splits) blast+
qed

lemma append_rolled_clean:
  assumes "log_clean cr pl bss" "plog_inv cr pl' bss'" "append_rolled cr env pl b = (pl', Inr l)"
    "wf_batch (rebase b (log_end_offset pl))" "1 \<le> record_count (header b)"
    "seg_small (active pl) (last bss)" "nonce_ok cr (active pl) (nonce_random env)"
  shows "log_clean cr pl' bss'"
proof -
  note c = log_cleanD [OF assms(1)]
  let ?b = "rebase b (log_end_offset pl)"
  from assms(3) obtain s pl1 where s: "segment_append cr (active pl) ?b (nonce_random env) = (s, Inr l)"
    and pl1: "pl1 = (set_active pl s) \<lparr> log_end_offset := l + 1 \<rparr>" and m: "maybe_sync pl1 (encoded_size ?b) = (pl', Inr ())"
    by (auto simp: append_rolled_def Let_def split: sum.splits prod.splits)
  obtain bss0 bs where "seg_inv cr (active pl) bs" using c(1) by (rule plog_inv_activeE)
  from segment_append_clean [OF s c(4) this] have sc: "files_clean cr (encryption_key (cfg pl)) s" .
  from plog_append_active [OF c(1) assms(4-7) s] obtain bss1 where "plog_inv cr pl1 bss1" by (auto simp: pl1)
  then have "log_clean cr pl1 bss1" using sc by (intro log_clean_set_active [OF assms(1)]) (simp_all add: pl1)
  from maybe_sync_clean [OF this m] assms(2) show ?thesis by (simp add: log_clean_def)
qed

lemma roll_segment_clean:
  assumes "log_clean cr pl bss" "roll_segment cr env pl = (pl', Inr u)" "plog_inv cr pl' bss'"
    "env_fresh env" "base_ok (log_end_offset pl)" "\<not> is_empty (active pl)"
  shows "log_clean cr pl' bss'"
proof -
  note c = log_cleanD [OF assms(1)]
  let ?k = "encryption_key (cfg pl)"
  from assms(2) obtain s s2 where s: "segment_seal (active pl) = (s, Inr ())"
    and s2: "create_segment cr (cfg pl) env (log_end_offset pl) = Inr s2"
    and pl': "segments pl' = (butlast (segments pl) @ [s]) @ [s2]" "cfg pl' = cfg pl"
    by (auto simp: roll_segment_def Let_def split: sum.splits prod.splits)
  obtain bss0 bs where "seg_inv cr (active pl) bs" using c(1) by (rule plog_inv_activeE)
  from segment_seal_clean [OF s c(4) this] assms(6) have "files_clean cr ?k s" "\<not> is_empty s" by simp_all
  moreover have "files_clean cr ?k s2" using create_segment_clean [OF s2 assms(4,5)] .
  ultimately show ?thesis using c(3) pl' by (intro log_cleanI [OF assms(3) pl'(1)]) simp_all
qed

lemma plog_append_clean:
  assumes cl: "log_clean cr pl bss" and env: "env_fresh env" and "crypto_used pl \<longrightarrow> crypto_ok cr"
    and "wf_batch (rebase b (log_end_offset pl))" "1 \<le> record_count (header b)"
    and "plog_small pl" "base_ok (log_end_offset pl)" "plog_append cr env pl b = (pl', Inr l)"
  shows "\<exists>bss'. log_clean cr pl' bss' \<and> log_start_offset pl' = log_start_offset pl \<and> cfg pl' = cfg pl \<and>
    l = log_end_offset pl + record_count (header b) - 1 \<and>
    log_batches bss' = log_batches bss @ [rebase b (log_end_offset pl)]"
proof -
  have inv: "plog_inv cr pl bss" using cl by (simp add: log_clean_def)
  have eo: "env_ok env" using env by (simp add: env_fresh_def)
  have small: "seg_small (active pl) (last bss)" using assms(6) plog_small_active [OF inv] by simp
  from plog_append_inv [OF inv eo assms(3-5) small assms(8)] obtain bss' where
    b': "plog_inv cr pl' bss'" "log_start_offset pl' = log_start_offset pl" "cfg pl' = cfg pl"
    "l = log_end_offset pl + record_count (header b) - 1"
    "log_batches bss' = log_batches bss @ [rebase b (log_end_offset pl)]" by auto
  have "log_clean cr pl' bss'"
  proof (cases "\<not> is_empty (active pl) \<and> is_full (active pl) (segment_bytes (cfg pl))")
    case False
    then have "append_rolled cr env pl b = (pl', Inr l)" using assms(8) by (auto simp: plog_append_def)
    moreover have "nonce_ok cr (active pl) (nonce_random env)"
      using inv eo assms(3) by (auto simp: nonce_ok_def env_ok_def crypto_used_def plog_inv_def)
    ultimately show ?thesis using append_rolled_clean [OF cl b'(1) _ assms(4,5) small] by blast
  next
    case True
    then obtain pl1 where r1: "roll_segment cr env pl = (pl1, Inr ())" and ap: "append_rolled cr env pl1 b = (pl', Inr l)"
      using assms(8) by (auto simp: plog_append_def split: prod.splits sum.splits)
    from roll_segment_inv [OF inv eo r1] obtain bss1 where b1: "plog_inv cr pl1 bss1"
      "log_end_offset pl1 = log_end_offset pl" "seg_small (active pl1) (last bss1)"
      "seg_cipher (active pl1) \<noteq> None \<longrightarrow> encryption_key (cfg pl) \<noteq> None" by auto
    have "log_clean cr pl1 bss1" using roll_segment_clean [OF cl r1 b1(1) env assms(7)] True by blast
    moreover have "nonce_ok cr (active pl1) (nonce_random env)"
      using b1(4) eo assms(3) by (auto simp: nonce_ok_def env_ok_def crypto_used_def)
    ultimately show ?thesis using append_rolled_clean [OF _ b'(1) ap] assms(4,5) b1(2,3) by simp
  qed
  with b' show ?thesis by blast
qed


section \<open>Bytes of a failed write\<close>

text \<open>
  A write that fails in the middle leaves its bytes behind the last block; the next append overwrites only as
  many as it needs.  In the running process the rest is never read, but when the segment is opened again and
  is not the last one, its size is that of the file: here a batch that was refused is
  served, at an offset that belongs to the following segment.
\<close>

definition refused_batch :: RecordBatch where
  "refused_batch = \<lparr> header = default_header \<lparr> base_offset := 7, record_count := 1 \<rparr>,
     records = [0, 0, 0] @ encode next_batch @ [1] \<rparr>"

definition faulty_segment :: Segment where
  "faulty_segment = sample_segment \<lparr> seg_log := empty_file \<lparr> sched := [Done 76, Failed] \<rparr>, size_bytes := 0 \<rparr>"

definition stale_segment :: Segment where
  "stale_segment = sample_segment \<lparr> seg_log := empty_file \<lparr> content := encode sample_batch @ encode next_batch \<rparr> \<rparr>"

lemma stale_tail_run:
  "\<exists>s1 s2. segment_append no_crypto faulty_segment refused_batch (Inl Unsupported) = (s1, Inl IoError) \<and>
     segment_append no_crypto s1 sample_batch (Inl Unsupported) = (s2, Inr 8) \<and>
     seg_log s2 = seg_log stale_segment \<and> idx_file (seg_index s2) = empty_file \<and> size_bytes s2 = 39"
proof -
  have l: "length (encode sample_batch) = 39" "length (encode next_batch) = 37"
    by (simp_all add: encoded_size_def sample_batch_def next_batch_def)
  obtain h where h: "encode refused_batch = h @ records refused_batch" "length h = 36"
    by (simp add: encode_def Let_def header_tail_def)
  let ?y = "h @ [0, 0, 0] @ encode next_batch"
  have e: "encode refused_batch = ?y @ [1]" "length ?y = 76" using h l by (simp_all add: refused_batch_def)
  have "write_loop [Done 76, Failed] [] 0 (?y @ [1]) = (?y, [], Inl IoError)"
    using e(2) by (simp add: write_loop.simps overwrite_def del: append_assoc)
  then have a1: "segment_append no_crypto faulty_segment refused_batch (Inl Unsupported) =
      (faulty_segment \<lparr> seg_log := empty_file \<lparr> content := ?y \<rparr> \<rparr>, Inl IoError)"
    unfolding segment_append_def e(1)
    by (simp add: write_at_def faulty_segment_def sample_segment_def empty_file_def)
  have o: "overwrite ?y 0 (encode sample_batch) = encode sample_batch @ encode next_batch"
  proof -
    have "encode sample_batch \<noteq> []" using l(1) by (metis list.size(3) zero_neq_numeral)
    then show ?thesis using l h(2) by (simp add: overwrite_def)
  qed
  have a2: "segment_append no_crypto (faulty_segment \<lparr> seg_log := empty_file \<lparr> content := ?y \<rparr> \<rparr>) sample_batch (Inl Unsupported) =
      (faulty_segment \<lparr> seg_log := empty_file \<lparr> content := encode sample_batch @ encode next_batch \<rparr>,
         seg_index := maybe_append (seg_index faulty_segment) 7 0 39, size_bytes := 39 \<rparr>, Inr 8)"
    unfolding segment_append_def
    using o l by (simp add: write_at_healthy faulty_segment_def sample_segment_def empty_file_def)
      (simp add: sample_batch_def default_header_def last_offset_def)
  show ?thesis
    by (intro exI conjI, rule a1, rule a2)
      (simp_all add: faulty_segment_def stale_segment_def sample_segment_def maybe_append_def Let_def)
qed

lemma stale_tail_served:
  "\<exists>s1 s2 s3. segment_append no_crypto faulty_segment refused_batch (Inl Unsupported) = (s1, Inl IoError) \<and>
     segment_append no_crypto s1 sample_batch (Inl Unsupported) = (s2, Inr 8) \<and>
     segment_open no_crypto (Inr (seg_log s2)) (Inr (idx_file (seg_index s2))) 7 4096 None = Inr s3 \<and>
     segment_read no_crypto s3 7 100 = Inr \<lparr> batches = encode sample_batch @ encode next_batch, next_offset = 10 \<rparr>"
proof -
  have l: "length (encode sample_batch) = 39" "length (encode next_batch) = 37"
    by (simp_all add: encoded_size_def sample_batch_def next_batch_def)
  let ?s = "stale_segment \<lparr> size_bytes := 76 \<rparr>" and ?bs = "[(sample_batch, encode sample_batch), (next_batch, encode next_batch)]"
  have o: "base_offset (header sample_batch) = 7" "record_count (header sample_batch) = 2"
    "base_offset (header next_batch) = 9" "record_count (header next_batch) = 1"
    "last_offset sample_batch = 8" "last_offset next_batch = 9"
    by (simp_all add: sample_batch_def next_batch_def default_header_def last_offset_def)
  have inv: "seg_inv no_crypto ?s ?bs"
    using sample_wf l o
    by (simp add: seg_inv_def log_holds_def index_covers_def index_ok_def index_anchors_def stale_segment_def
        sample_segment_def empty_file_def is_blk_def plain_block_def)
  have fc: "files_clean no_crypto None ?s"
  proof -
    have "load_le_i64 kEncSegmentMagic \<noteq> 7" by code_simp
    then show ?thesis
      using l by (simp add: files_clean_def stale_segment_def sample_segment_def empty_file_def index_clean_def
          seg_header_ok_def readable_def)
  qed
  have rd: "readable (seg_log ?s)" "readable (idx_file (seg_index ?s))" using fc by (simp_all add: files_clean_def)
  from segment_open_clean [OF inv fc rd(1) refl rd(2) refl, of 4096] obtain s3 where
    s3: "segment_open no_crypto (Inr (seg_log stale_segment)) (Inr empty_file) 7 4096 None = Inr s3"
      "seg_inv no_crypto s3 ?bs" "seg_log s3 = seg_log ?s"
    by (auto simp: stale_segment_def sample_segment_def)
  have "segment_read no_crypto s3 7 100 = Inr (fetch_spec 7 100 ?bs \<lparr> batches = [], next_offset = 7 \<rparr>)"
    using s3 rd by (intro segment_read_spec) simp_all
  also have "\<dots> = Inr \<lparr> batches = encode sample_batch @ encode next_batch, next_offset = 10 \<rparr>"
    using l o by simp
  finally show ?thesis using stale_tail_run s3(1) by metis
qed


section \<open>Properties\<close>

text \<open>
  C5: Acknowledged batches survive a crash.  After a successful append to a log whose files hold
  exactly its blocks, the process may end at any moment, with any part of a further block already
  written; opening the directory, listed in any order, plain or encrypted, gives a log that holds the earlier
  batches and the appended one with the same offsets, and to which the same applies again.
\<close>

theorem acknowledged_append_survives:
  assumes "log_clean cr pl bss" "env_fresh env" "crypto_used pl \<longrightarrow> crypto_ok cr"
    and "wf_batch (rebase b (log_end_offset pl))" "1 \<le> record_count (header b)" "base_ok (log_end_offset pl)"
    and "plog_small pl" "plog_append cr env pl b = (pl', Inr l)" "plog_small pl'"
    and "cut_block cr (seg_cipher (active pl')) (log_end_offset pl') tail" "mset dir = mset (disk_image pl' tail)"
  shows "\<exists>pl2 bss2. plog_open cr (cfg pl) env2 dir = Inr pl2 \<and> log_clean cr pl2 bss2 \<and>
    log_batches bss2 = log_batches bss @ [rebase b (log_end_offset pl)] \<and>
    log_start_offset pl2 = log_start_offset pl \<and> log_end_offset pl2 = log_end_offset pl + record_count (header b)"
proof -
  from plog_append_clean [OF assms(1-5,7,6,8)] obtain bss' where
    b: "log_clean cr pl' bss'" "log_start_offset pl' = log_start_offset pl" "cfg pl' = cfg pl"
    "log_batches bss' = log_batches bss @ [rebase b (log_end_offset pl)]" by blast
  have "log_end_offset pl' = log_end_offset pl + record_count (header b)"
    using b assms(1) by (simp add: log_clean_def plog_inv_def end_of_append)
  with plog_open_image [OF b(1) assms(9,10,11), of env2] b show ?thesis by auto
qed

definition quiet_log :: PartitionLog where
  "quiet_log = \<lparr> cfg = \<lparr> segment_bytes = 30, index_interval_bytes = 4096, fsync_policy = FsyncCommit,
       fsync_interval_bytes = 0, encryption_key = None \<rparr>,
     segments = [tail_segment], log_start_offset = 9, log_end_offset = 10,
     recovery_point = 10, bytes_since_sync = 0 \<rparr>"

text \<open>The active segment is full, so the append rotates; then a crash cuts the next block at 20 bytes.\<close>

theorem acknowledged_append_survives_witness:
  "\<exists>pl2 bss2. plog_open no_crypto (cfg quiet_log) sample_env
      (rev (disk_image (fst (plog_append no_crypto sample_env quiet_log sample_batch))
         (take 20 (encode (rebase next_batch 12))))) = Inr pl2 \<and> log_clean no_crypto pl2 bss2 \<and>
    log_batches bss2 = [next_batch, rebase sample_batch 10] \<and> log_end_offset pl2 = 12"
proof -
  let ?b = "rebase sample_batch 10" and ?n = "rebase next_batch 12"
  have o: "record_count (header sample_batch) = 2" "base_offset (header next_batch) = 9" "record_count (header next_batch) = 1"
    by (simp_all add: sample_batch_def next_batch_def default_header_def)
  have l: "length (encode ?b) = 39" "length (encode ?n) = 37" "encoded_size ?b = 39"
    by (simp_all add: encoded_size_def rebase_def sample_batch_def next_batch_def)
  have wf: "wf_batch ?b" "wf_batch ?n"
    by (simp_all add: sample_batch_def next_batch_def default_header_def wf_batch_def wf_header_def rebase_def)
  have m: "load_le_i64 kEncSegmentMagic \<noteq> 9" "load_le_i64 kEncSegmentMagic \<noteq> 10" by code_simp+
  let ?new = "\<lparr> seg_base = 10, seg_log = empty_file \<lparr> content := encode ?b \<rparr>,
     seg_index = \<lparr> idx_file = empty_file, idx_base = 10, interval = 4096, bytes_since = 39, entries = [], flushed = 0 \<rparr>,
     size_bytes = 39, seg_cipher = None, data_start = 0, seg_state = Active \<rparr>"
  let ?pl = "quiet_log \<lparr> segments := [tail_segment \<lparr> seg_state := Closed \<rparr>, ?new], log_end_offset := 12, recovery_point := 12 \<rparr>"
  have ap: "plog_append no_crypto sample_env quiet_log sample_batch = (?pl, Inr 11)"
  proof -
    have "create_segment no_crypto (cfg quiet_log) sample_env 10 = Inr (?new \<lparr> seg_log := empty_file, size_bytes := 0,
        seg_index := (seg_index ?new) \<lparr> bytes_since := 0 \<rparr> \<rparr>)"
      by (simp add: create_segment_def segment_create_def sample_env_def quiet_log_def index_open_def file_size_def empty_file_def Let_def)
    moreover have "segment_seal tail_segment = (tail_segment \<lparr> seg_state := Closed \<rparr>, Inr ())"
      by (simp add: segment_seal_def segment_sync_def index_flush_def tail_segment_def empty_file_def sync_file_healthy)
    ultimately have r: "roll_segment no_crypto sample_env quiet_log = (quiet_log \<lparr> segments := [tail_segment \<lparr> seg_state := Closed \<rparr>,
        ?new \<lparr> seg_log := empty_file, size_bytes := 0, seg_index := (seg_index ?new) \<lparr> bytes_since := 0 \<rparr> \<rparr>] \<rparr>, Inr ())"
      by (simp add: roll_segment_def quiet_log_def set_active_def Let_def)
    have "\<not> is_empty (active quiet_log) \<and> is_full (active quiet_log) (segment_bytes (cfg quiet_log))"
      by (simp add: is_empty_def is_full_def tail_segment_def quiet_log_def)
    then have "plog_append no_crypto sample_env quiet_log sample_batch = append_rolled no_crypto sample_env
        (quiet_log \<lparr> segments := [tail_segment \<lparr> seg_state := Closed \<rparr>, ?new \<lparr> seg_log := empty_file, size_bytes := 0,
          seg_index := (seg_index ?new) \<lparr> bytes_since := 0 \<rparr> \<rparr>] \<rparr>) sample_batch"
      by (simp add: plog_append_def r)
    also have "\<dots> = (?pl, Inr 11)"
      using l o by (simp add: append_rolled_def quiet_log_def segment_append_def write_at_healthy empty_file_def
          overwrite_def set_active_def maybe_sync_def plog_sync_def segment_sync_def index_flush_def sync_file_healthy
          maybe_append_def sample_env_def Let_def)
    finally show ?thesis .
  qed
  have cl: "log_clean no_crypto quiet_log [[(next_batch, encode next_batch)]]"
    using tail_segment_inv m(1) o
    by (simp add: log_clean_def plog_inv_def quiet_log_def files_clean_def tail_segment_def index_clean_def seg_header_ok_def
        empty_file_def readable_def)
      (simp add: encoded_size_def next_batch_def)
  have cut: "cut_block no_crypto (seg_cipher (active ?pl)) (log_end_offset ?pl) (take 20 (encode ?n))"
    unfolding cut_block_def using wf(2) l(2)
    by (intro disjI2 exI [of _ ?n] exI [of _ "encode ?n"] exI [of _ 20]) (simp add: is_blk_def plain_block_def)
  have "env_fresh sample_env" "crypto_used quiet_log \<longrightarrow> crypto_ok no_crypto" "wf_batch (rebase sample_batch (log_end_offset quiet_log))"
    "1 \<le> record_count (header sample_batch)" "base_ok (log_end_offset quiet_log)" "plog_small quiet_log" "plog_small ?pl"
    using wf(1) o m by (simp_all add: env_fresh_def env_ok_def sample_env_def empty_file_def readable_def crypto_used_def
        quiet_log_def tail_segment_def base_ok_def plog_small_def)
  from acknowledged_append_survives [OF cl this(1-6) ap this(7) cut mset_rev, of sample_env] obtain pl2 bss2 where
    "plog_open no_crypto (cfg quiet_log) sample_env (rev (disk_image ?pl (take 20 (encode ?n)))) = Inr pl2"
    "log_clean no_crypto pl2 bss2" "log_batches bss2 = log_batches [[(next_batch, encode next_batch)]] @ [rebase sample_batch (log_end_offset quiet_log)]"
    "log_end_offset pl2 = log_end_offset quiet_log + record_count (header sample_batch)" by blast
  moreover have "log_end_offset quiet_log = 10" by (simp add: quiet_log_def)
  ultimately show ?thesis unfolding ap fst_conv using o(1) by auto
qed

end
