(* ===== verification/Storage_Tier.thy ===== *)
theory Storage_Tier
  imports Strings "HOL-Library.AList"
begin

text \<open>
  The storage tier for sealed segments: the keys of its objects (\<^verbatim>\<open>storage/storage_tier.cpp\<close>) and
  the tier in a local directory (\<^verbatim>\<open>storage/local_storage_tier.cpp\<close>).  The files of the object
  directory are an association list from relative paths to contents.  Every call of the file system takes
  its outcome from a schedule, so that the lemmas hold for every sequence of failures; an empty
  schedule is a file system without failures.

  The locale \<open>object_store\<close> is the contract of the interface \<^verbatim>\<open>StorageTier\<close>: uploads and removals
  are atomic, failed ones change no object, a download returns what was uploaded, and the listing
  names the segments that are present.  It is interpreted on the local tier.
\<close>

section \<open>Object keys\<close>

datatype SegmentFileKind = KindLog | KindIndex

record TierObjectKey =
  key_topic :: bytes
  key_partition :: int
  key_base :: int
  key_kind :: SegmentFileKind

abbreviation slash :: byte where "slash \<equiv> 47"
abbreviation dot :: byte where "dot \<equiv> 46"

fun kind_ext :: "SegmentFileKind \<Rightarrow> bytes" where
  "kind_ext KindLog = ascii ''log''"
| "kind_ext KindIndex = ascii ''index''"

definition format_020d :: "int \<Rightarrow> bytes" where
  "format_020d i = (if i < 0 then 45 # zero_pad 19 (to_string (nat (- i))) else zero_pad 20 (to_string (nat i)))"

definition parse_nonneg :: "int \<Rightarrow> int \<Rightarrow> bytes \<Rightarrow> int expected" where
  "parse_nonneg lo hi s =
     (case from_chars lo hi s of
        Some (v, rest) \<Rightarrow> if rest \<noteq> [] \<or> v < 0 then Inl InvalidArgument else Inr v
      | None \<Rightarrow> Inl InvalidArgument)"

definition encode_key :: "TierObjectKey \<Rightarrow> bytes" where
  "encode_key k =
     key_topic k @ slash # to_string_int (key_partition k) @ slash # format_020d (key_base k) @
     dot # kind_ext (key_kind k)"

definition decode_key :: "bytes \<Rightarrow> TierObjectKey expected" where
  "decode_key key =
     (case split_last slash key of
        None \<Rightarrow> Inl InvalidArgument
      | Some (head, file) \<Rightarrow>
          (case split_last slash head of
             None \<Rightarrow> Inl InvalidArgument
           | Some (topic, partition_str) \<Rightarrow>
               if topic = [] then Inl InvalidArgument
               else (case split_last dot file of
                   None \<Rightarrow> Inl InvalidArgument
                 | Some (base_str, ext) \<Rightarrow>
                     bindE (if ext = ascii ''log'' then Inr KindLog
                            else if ext = ascii ''index'' then Inr KindIndex
                            else Inl InvalidArgument) (\<lambda>kind.
                     bindE (parse_nonneg (- (2 ^ 31)) (2 ^ 31 - 1) partition_str) (\<lambda>p.
                     bindE (parse_nonneg (- (2 ^ 63)) (2 ^ 63 - 1) base_str) (\<lambda>base.
                     Inr \<lparr> key_topic = topic, key_partition = p, key_base = base, key_kind = kind \<rparr>))))))"


section \<open>The local tier\<close>

datatype fs_errno = NoSpace | NoEntry | OtherErrno

fun fs_error :: "fs_errno \<Rightarrow> ErrorCode" where
  "fs_error NoSpace = OutOfSpace"
| "fs_error NoEntry = NotFound"
| "fs_error OtherErrno = IoError"

text \<open>The outcome of a call of the file system; a failed copy leaves that many bytes behind.\<close>

datatype fs_outcome = FsOk | FsFail fs_errno nat

record Directory =
  files :: "(bytes \<times> bytes) list"
  subdirs :: "bytes list"

record LocalStorageTier =
  object_dir :: Directory
  temp_seq :: "64 word"
  fs_sched :: "fs_outcome list"

abbreviation tier_files :: "LocalStorageTier \<Rightarrow> (bytes \<times> bytes) list" where
  "tier_files t \<equiv> files (object_dir t)"

definition fs_call :: "LocalStorageTier \<Rightarrow> LocalStorageTier \<times> (fs_errno \<times> nat) option" where
  "fs_call t =
     (case fs_sched t of
        [] \<Rightarrow> (t, None)
      | FsOk # r \<Rightarrow> (t \<lparr> fs_sched := r \<rparr>, None)
      | FsFail e n # r \<Rightarrow> (t \<lparr> fs_sched := r \<rparr>, Some (e, n)))"

text \<open>
  \<^verbatim>\<open>atomic_copy\<close> of \<open>data\<close> to the path \<open>to_path\<close> below the directory \<open>d\<close>.
\<close>

definition parent_path :: "bytes \<Rightarrow> bytes" where
  "parent_path p = (case split_last slash p of Some (parent, _) \<Rightarrow> parent | None \<Rightarrow> [])"

definition temp_name :: "bytes \<Rightarrow> 64 word \<Rightarrow> bytes" where
  "temp_name to_path sq = to_path @ ascii ''.tmp.'' @ to_string (unat sq)"

definition atomic_copy ::
  "LocalStorageTier \<Rightarrow> Directory \<Rightarrow> bytes \<Rightarrow> bytes \<Rightarrow> LocalStorageTier \<times> Directory \<times> unit expected" where
  "atomic_copy t d data to_path =
     (case fs_call t of
        (t, Some (e, _)) \<Rightarrow> (t, d, Inl (fs_error e))
      | (t, None) \<Rightarrow>
          let d = d \<lparr> subdirs := List.insert (parent_path to_path) (subdirs d) \<rparr>;
              tmp = temp_name to_path (temp_seq t);
              t = t \<lparr> temp_seq := temp_seq t + 1 \<rparr> in
          (case fs_call t of
             (t, Some (e, n)) \<Rightarrow> (t, d \<lparr> files := AList.update tmp (take n data) (files d) \<rparr>, Inl (fs_error e))
           | (t, None) \<Rightarrow>
               let d = d \<lparr> files := AList.update tmp data (files d) \<rparr> in
               (case fs_call t of
                  (t, Some (e, _)) \<Rightarrow>
                    (case fs_call t of
                       (t, Some _) \<Rightarrow> (t, d, Inl (fs_error e))
                     | (t, None) \<Rightarrow> (t, d \<lparr> files := AList.delete tmp (files d) \<rparr>, Inl (fs_error e)))
                | (t, None) \<Rightarrow>
                    (t, d \<lparr> files := AList.update to_path data (AList.delete tmp (files d)) \<rparr>, Inr ()))))"

text \<open>The source of an upload is the content of a file, or none if there is no such file.\<close>

definition put_file ::
  "LocalStorageTier \<Rightarrow> TierObjectKey \<Rightarrow> bytes option \<Rightarrow> LocalStorageTier \<times> unit expected" where
  "put_file t key src =
     (case fs_call t of
        (t, Some _) \<Rightarrow> (t, Inl NotFound)
      | (t, None) \<Rightarrow>
          (case src of
             None \<Rightarrow> (t, Inl NotFound)
           | Some data \<Rightarrow>
               (case atomic_copy t (object_dir t) data (encode_key key) of
                  (t, d, r) \<Rightarrow> (t \<lparr> object_dir := d \<rparr>, r))))"

text \<open>A download to the path \<open>dest\<close> below the directory \<open>d\<close>.\<close>

definition fetch_file ::
  "LocalStorageTier \<Rightarrow> TierObjectKey \<Rightarrow> Directory \<Rightarrow> bytes \<Rightarrow> LocalStorageTier \<times> Directory \<times> unit expected" where
  "fetch_file t key d dest =
     (case fs_call t of
        (t, Some _) \<Rightarrow> (t, d, Inl NotFound)
      | (t, None) \<Rightarrow>
          (case map_of (tier_files t) (encode_key key) of
             None \<Rightarrow> (t, d, Inl NotFound)
           | Some data \<Rightarrow> atomic_copy t d data dest))"

definition contains :: "LocalStorageTier \<Rightarrow> TierObjectKey \<Rightarrow> LocalStorageTier \<times> bool expected" where
  "contains t key =
     (case fs_call t of
        (t, Some (e, _)) \<Rightarrow> (t, Inl (fs_error e))
      | (t, None) \<Rightarrow> (t, Inr (map_of (tier_files t) (encode_key key) \<noteq> None)))"

definition object_size :: "LocalStorageTier \<Rightarrow> TierObjectKey \<Rightarrow> LocalStorageTier \<times> nat expected" where
  "object_size t key =
     (case fs_call t of
        (t, Some (e, _)) \<Rightarrow> (t, Inl (fs_error e))
      | (t, None) \<Rightarrow>
          (t, case map_of (tier_files t) (encode_key key) of
                None \<Rightarrow> Inl (fs_error NoEntry)
              | Some data \<Rightarrow> Inr (length data)))"

definition remove_object :: "LocalStorageTier \<Rightarrow> TierObjectKey \<Rightarrow> LocalStorageTier \<times> unit expected" where
  "remove_object t key =
     (case fs_call t of
        (t, Some (e, _)) \<Rightarrow> (t, Inl (fs_error e))
      | (t, None) \<Rightarrow> (t \<lparr> object_dir := (object_dir t) \<lparr> files := AList.delete (encode_key key) (tier_files t) \<rparr> \<rparr>, Inr ()))"

text \<open>
  \<^verbatim>\<open>stem\<close> and \<^verbatim>\<open>extension\<close> of a file name: a leading dot does not start an extension.
\<close>

definition stem_extension :: "bytes \<Rightarrow> bytes \<times> bytes" where
  "stem_extension name =
     (case split_last dot name of
        Some (stem, ext) \<Rightarrow> if stem = [] then (name, []) else (stem, dot # ext)
      | None \<Rightarrow> (name, []))"

definition name_below :: "bytes \<Rightarrow> bytes \<Rightarrow> bytes option" where
  "name_below prefix p =
     (let n = drop (length prefix + 1) p in
      if take (length prefix + 1) p = prefix @ [slash] \<and> slash \<notin> set n then Some n else None)"

definition dir_names :: "bytes \<Rightarrow> (bytes \<times> bytes) list \<Rightarrow> bytes list" where
  "dir_names prefix fs = List.map_filter (\<lambda>(p, _). name_below prefix p) fs"

definition name_base :: "bytes \<Rightarrow> int option" where
  "name_base name =
     (case stem_extension name of (stem, ext) \<Rightarrow>
        if ext \<noteq> ascii ''.log'' then None
        else (case from_chars (- (2 ^ 63)) (2 ^ 63 - 1) stem of
                Some (base, rest) \<Rightarrow> if rest = [] \<and> base \<ge> 0 then Some base else None
              | None \<Rightarrow> None))"

text \<open>
  The loop over the directory.  An iterator whose \<^verbatim>\<open>increment\<close> reports an error becomes the end
  iterator, so the loop ends there and its test of the error code is not reached.
\<close>

fun list_loop :: "LocalStorageTier \<Rightarrow> bytes list \<Rightarrow> int list \<Rightarrow> LocalStorageTier \<times> int list" where
  "list_loop t [] bases = (t, bases)"
| "list_loop t (name # names) bases =
     (let bases = (case name_base name of Some base \<Rightarrow> bases @ [base] | None \<Rightarrow> bases) in
      case fs_call t of
        (t, Some _) \<Rightarrow> (t, bases)
      | (t, None) \<Rightarrow> list_loop t names bases)"

definition list_segment_bases ::
  "LocalStorageTier \<Rightarrow> bytes \<Rightarrow> int \<Rightarrow> LocalStorageTier \<times> int list expected" where
  "list_segment_bases t topic p =
     (let prefix = topic @ slash # to_string_int p in
      case fs_call t of
        (t, Some _) \<Rightarrow> (t, Inr [])
      | (t, None) \<Rightarrow>
          if prefix \<notin> set (subdirs (object_dir t)) then (t, Inr [])
          else (case fs_call t of
              (t, Some (e, _)) \<Rightarrow> (t, Inl (fs_error e))
            | (t, None) \<Rightarrow>
                (case list_loop t (dir_names prefix (tier_files t)) [] of (t, bases) \<Rightarrow> (t, Inr (sort bases)))))"


section \<open>Keys and names\<close>

definition key_ok :: "TierObjectKey \<Rightarrow> bool" where
  "key_ok k \<longleftrightarrow> key_topic k \<noteq> [] \<and> 0 \<le> key_partition k \<and> key_partition k < 2 ^ 31 \<and>
     0 \<le> key_base k \<and> key_base k < 2 ^ 63"

lemma digits_no_sep: "\<forall>d \<in> set ds. is_digit d \<Longrightarrow> slash \<notin> set ds \<and> dot \<notin> set ds"
  by (auto simp: is_digit_def)

lemma kind_ext_no_sep [simp]: "slash \<notin> set (kind_ext kd)" "dot \<notin> set (kind_ext kd)"
  by (cases kd; simp add: of_char_def)+

lemma format_020d_digits: "0 \<le> i \<Longrightarrow> \<forall>d \<in> set (format_020d i). is_digit d"
  using zero_pad_digits by (simp add: format_020d_def)

lemma to_string_int_digits: "0 \<le> i \<Longrightarrow> \<forall>d \<in> set (to_string_int i). is_digit d"
  using to_string_digits by (simp add: to_string_int_def)

lemma parse_nonneg_format:
  assumes "0 \<le> i" "i \<le> hi" "lo \<le> 0"
  shows "parse_nonneg lo hi (to_string_int i) = Inr i" "parse_nonneg lo hi (format_020d i) = Inr i"
    "from_chars lo hi (format_020d i) = Some (i, [])"
  using from_chars_to_string [of "[]" lo "nat i" hi] from_chars_zero_pad [of "[]" lo "nat i" hi 20] assms
  by (simp_all add: parse_nonneg_def to_string_int_def format_020d_def)

lemma decode_encode_key: "key_ok k \<Longrightarrow> decode_key (encode_key k) = Inr k"
proof -
  assume ok: "key_ok k"
  define fname where "fname = format_020d (key_base k) @ dot # kind_ext (key_kind k)"
  define pt where "pt = to_string_int (key_partition k)"
  have dg: "slash \<notin> set (format_020d (key_base k))" "slash \<notin> set pt"
    using digits_no_sep [OF format_020d_digits] digits_no_sep [OF to_string_int_digits] ok
    by (simp_all add: key_ok_def pt_def)
  then have "slash \<notin> set fname" by (simp add: fname_def)
  then have "split_last slash (encode_key k) = Some (key_topic k @ slash # pt, fname)"
    using split_last_append [of slash fname "key_topic k @ slash # pt"] by (simp add: encode_key_def fname_def pt_def)
  moreover have "split_last slash (key_topic k @ slash # pt) = Some (key_topic k, pt)" using dg by simp
  moreover have "split_last dot fname = Some (format_020d (key_base k), kind_ext (key_kind k))"
    by (simp add: fname_def)
  moreover have "ascii ''log'' \<noteq> ascii ''index''" by (simp del: ascii_simps add: ascii_def)
  ultimately show ?thesis
    using ok parse_nonneg_format by (cases "key_kind k") (simp_all add: decode_key_def key_ok_def pt_def del: ascii_simps)
qed

lemma encode_key_inj: "key_ok k \<Longrightarrow> key_ok k' \<Longrightarrow> encode_key k = encode_key k' \<longleftrightarrow> k = k'"
  by (metis decode_encode_key sum.inject(2))

lemma last_to_string: "is_digit (last (to_string n))"
  using to_string_digits [of n] by (simp add: last_in_set)

lemma temp_name_not_key: "temp_name p sq \<noteq> encode_key k"
proof
  assume *: "temp_name p sq = encode_key k"
  have "\<not> is_digit (last (kind_ext kd))" for kd
    by (cases kd) (simp_all add: is_digit_def of_char_def)
  moreover have "last (encode_key k) = last (kind_ext (key_kind k))"
    by (cases "key_kind k") (simp_all add: encode_key_def)
  moreover have "last (temp_name p sq) = last (to_string (unat sq))"
    by (simp add: temp_name_def del: ascii_simps(2))
  ultimately show False using * last_to_string by metis
qed


section \<open>The contract of a storage tier\<close>

text \<open>
  \<open>get\<close> is the content of an object, \<open>healthy\<close> a tier whose next operations do not fail.
\<close>

locale object_store =
  fixes put :: "'t \<Rightarrow> TierObjectKey \<Rightarrow> bytes \<Rightarrow> 't \<times> unit expected"
    and fetch :: "'t \<Rightarrow> TierObjectKey \<Rightarrow> 't \<times> bytes expected"
    and rem :: "'t \<Rightarrow> TierObjectKey \<Rightarrow> 't \<times> unit expected"
    and bases :: "'t \<Rightarrow> bytes \<Rightarrow> int \<Rightarrow> 't \<times> int list expected"
    and get :: "'t \<Rightarrow> TierObjectKey \<Rightarrow> bytes option"
    and ok :: "'t \<Rightarrow> bool" and healthy :: "'t \<Rightarrow> bool"
    and valid :: "TierObjectKey \<Rightarrow> bool"
  assumes put_law: "ok t \<Longrightarrow> valid k \<Longrightarrow> put t k data = (t', r) \<Longrightarrow>
      ok t' \<and> get t' k = (case r of Inr _ \<Rightarrow> Some data | Inl _ \<Rightarrow> get t k) \<and>
      (\<forall>k'. valid k' \<and> k' \<noteq> k \<longrightarrow> get t' k' = get t k') \<and> (healthy t \<longrightarrow> healthy t' \<and> r = Inr ())"
    and fetch_law: "ok t \<Longrightarrow> valid k \<Longrightarrow> fetch t k = (t', rf) \<Longrightarrow>
      ok t' \<and> get t' = get t \<and> (case rf of Inr data \<Rightarrow> get t k = Some data | Inl _ \<Rightarrow> True) \<and>
      (healthy t \<longrightarrow> healthy t' \<and> rf = (case get t k of Some data \<Rightarrow> Inr data | None \<Rightarrow> Inl NotFound))"
    and rem_law: "ok t \<Longrightarrow> valid k \<Longrightarrow> rem t k = (t', r) \<Longrightarrow>
      ok t' \<and> get t' k = (case r of Inr _ \<Rightarrow> None | Inl _ \<Rightarrow> get t k) \<and>
      (\<forall>k'. valid k' \<and> k' \<noteq> k \<longrightarrow> get t' k' = get t k') \<and> (healthy t \<longrightarrow> healthy t' \<and> r = Inr ())"
    and bases_law: "ok t \<Longrightarrow> bases t tp pt = (t', rb) \<Longrightarrow>
      ok t' \<and> get t' = get t \<and>
      (case rb of
         Inl _ \<Rightarrow> \<not> healthy t
       | Inr bs \<Rightarrow> sorted bs \<and> distinct bs \<and>
           (\<forall>b \<in> set bs. valid \<lparr> key_topic = tp, key_partition = pt, key_base = b, key_kind = KindLog \<rparr> \<longrightarrow>
              get t \<lparr> key_topic = tp, key_partition = pt, key_base = b, key_kind = KindLog \<rparr> \<noteq> None) \<and>
           (healthy t \<longrightarrow> healthy t' \<and>
             (\<forall>b. valid \<lparr> key_topic = tp, key_partition = pt, key_base = b, key_kind = KindLog \<rparr> \<longrightarrow>
                (b \<in> set bs \<longleftrightarrow>
                 get t \<lparr> key_topic = tp, key_partition = pt, key_base = b, key_kind = KindLog \<rparr> \<noteq> None))))"


section \<open>The local tier keeps the contract\<close>

definition store_key :: "TierObjectKey \<Rightarrow> bool" where
  "store_key k \<longleftrightarrow> key_ok k \<and> slash \<notin> set (key_topic k)"

definition tier_get :: "LocalStorageTier \<Rightarrow> TierObjectKey \<Rightarrow> bytes option" where
  "tier_get t k = map_of (tier_files t) (encode_key k)"

definition tier_ok :: "LocalStorageTier \<Rightarrow> bool" where
  "tier_ok t \<longleftrightarrow> distinct (map fst (tier_files t)) \<and>
     (\<forall>p \<in> fst ` set (tier_files t).
        (\<exists>k. store_key k \<and> p = encode_key k \<and> parent_path p \<in> set (subdirs (object_dir t))) \<or>
        (\<exists>q sq. p = temp_name q sq))"

definition tier_healthy :: "LocalStorageTier \<Rightarrow> bool" where
  "tier_healthy t \<longleftrightarrow> fs_sched t = []"

lemma fs_callD:
  assumes "fs_call t = (t', x)"
  shows "object_dir t' = object_dir t" "temp_seq t' = temp_seq t" "tier_healthy t \<Longrightarrow> tier_healthy t' \<and> x = None"
  using assms by (auto simp: fs_call_def tier_healthy_def split: list.splits fs_outcome.splits)

lemma atomic_copyD:
  assumes "atomic_copy t d data p = (t', d', r)"
  defines "tmp \<equiv> temp_name p (temp_seq t)"
  shows "object_dir t' = object_dir t" "set (subdirs d) \<subseteq> set (subdirs d')" "tier_healthy t \<Longrightarrow> tier_healthy t' \<and> r = Inr ()"
    and "distinct (map fst (files d)) \<Longrightarrow> distinct (map fst (files d'))"
    and "r = Inr () \<Longrightarrow> parent_path p \<in> set (subdirs d') \<and>
      map_of (files d') = (map_of (files d)) (tmp := None, p \<mapsto> data)"
    and "r \<noteq> Inr () \<Longrightarrow> \<exists>x. map_of (files d') = (map_of (files d)) (tmp := x)"
proof -
  obtain t1 x1 where 1: "fs_call t = (t1, x1)" by fastforce
  let ?t1 = "t1 \<lparr> temp_seq := temp_seq t1 + 1 \<rparr>"
  obtain t2 x2 where 2: "fs_call ?t1 = (t2, x2)" by fastforce
  obtain t3 x3 where 3: "fs_call t2 = (t3, x3)" by fastforce
  obtain t4 x4 where 4: "fs_call t3 = (t4, x4)" by fastforce
  note calls = fs_callD [OF 1] fs_callD [OF 2] fs_callD [OF 3] fs_callD [OF 4]
  have h: "tier_healthy (t1 \<lparr> temp_seq := n \<rparr>) = tier_healthy t1" for n by (simp add: tier_healthy_def)
  have m: "\<exists>x. f = f (a := x)" "\<exists>x. f(a \<mapsto> v) = f (a := x)" "\<exists>x. f(a := None) = f (a := x)"
    for f :: "bytes \<Rightarrow> bytes option" and a v
    by (rule exI [of _ "f a"], simp) (rule exI [of _ "Some v"], simp, rule exI [of _ None], simp)
  note d = assms(1) [unfolded atomic_copy_def Let_def 1 prod.case] assms(2) calls(2)
  show "object_dir t' = object_dir t" "set (subdirs d) \<subseteq> set (subdirs d')"
    "tier_healthy t \<Longrightarrow> tier_healthy t' \<and> r = Inr ()"
    using d 2 3 4 calls h by (auto split: option.splits)
  show "distinct (map fst (files d)) \<Longrightarrow> distinct (map fst (files d'))"
    using d 2 3 4 by (auto simp: distinct_update distinct_delete split: option.splits)
  show "r = Inr () \<Longrightarrow> parent_path p \<in> set (subdirs d') \<and>
      map_of (files d') = (map_of (files d)) (tmp := None, p \<mapsto> data)"
    using d 2 3 4 by (auto simp: update_conv' delete_conv' split: option.splits)
  show "r \<noteq> Inr () \<Longrightarrow> \<exists>x. map_of (files d') = (map_of (files d)) (tmp := x)"
    using d 2 3 4 by (auto simp: update_conv' delete_conv' m split: option.splits)
qed

definition path_ok :: "Directory \<Rightarrow> bytes \<Rightarrow> bool" where
  "path_ok d p \<longleftrightarrow> (\<exists>k. store_key k \<and> p = encode_key k \<and> parent_path p \<in> set (subdirs d)) \<or>
     (\<exists>q sq. p = temp_name q sq)"

lemma tier_ok_dom:
  "tier_ok t \<longleftrightarrow> distinct (map fst (tier_files t)) \<and> (\<forall>p \<in> dom (map_of (tier_files t)). path_ok (object_dir t) p)"
  by (simp add: tier_ok_def path_ok_def dom_map_of_conv_image_fst)

lemma path_ok_mono: "path_ok d p \<Longrightarrow> set (subdirs d) \<subseteq> set (subdirs d') \<Longrightarrow> path_ok d' p"
  by (auto simp: path_ok_def)

lemma store_key_other: "store_key k \<Longrightarrow> store_key k' \<Longrightarrow> k' \<noteq> k \<Longrightarrow> encode_key k' \<noteq> encode_key k"
  by (simp add: store_key_def encode_key_inj)

lemma put_file_law:
  assumes ok: "tier_ok t" and k: "store_key k" and p: "put_file t k (Some data) = (t', r)"
  shows "tier_ok t' \<and> tier_get t' k = (case r of Inr _ \<Rightarrow> Some data | Inl _ \<Rightarrow> tier_get t k) \<and>
      (\<forall>k'. store_key k' \<and> k' \<noteq> k \<longrightarrow> tier_get t' k' = tier_get t k') \<and>
      (tier_healthy t \<longrightarrow> tier_healthy t' \<and> r = Inr ())"
proof -
  obtain t1 x1 where 1: "fs_call t = (t1, x1)" by fastforce
  note f = fs_callD [OF 1]
  have ok1: "tier_ok t1" "tier_get t1 = tier_get t" using ok f by (simp_all add: tier_ok_def tier_get_def fun_eq_iff)
  show ?thesis
  proof (cases x1)
    case (Some x)
    then have "t' = t1" "r = Inl NotFound" using p 1 by (simp_all add: put_file_def)
    with ok1 f Some show ?thesis by auto
  next
    case None
    obtain t2 d r' where c: "atomic_copy t1 (object_dir t1) data (encode_key k) = (t2, d, r')" by (metis prod_cases3)
    then have t': "t' = t2 \<lparr> object_dir := d \<rparr>" "r' = r" using p 1 None by (simp_all add: put_file_def)
    note a = atomic_copyD [OF c, unfolded t'(2)]
    let ?m = "map_of (files (object_dir t1))"
    have dist: "distinct (map fst (files d))" using a(4) ok1(1) by (simp add: tier_ok_def)
    have tmp: "encode_key k' \<noteq> temp_name q sq" for q sq k' using temp_name_not_key by metis
    have h: "tier_healthy (t2 \<lparr> object_dir := x \<rparr>) = tier_healthy t2" for x by (simp add: tier_healthy_def)
    have po: "path_ok d p" if "p \<in> dom ?m" for p
      using ok1(1) that path_ok_mono [OF _ a(2)] by (auto simp: tier_ok_dom)
    have pt: "path_ok d (temp_name (encode_key k) (temp_seq t1))" by (auto simp: path_ok_def)
    show ?thesis
    proof (cases "r = Inr ()")
      case True
      note m = a(5) [OF True]
      have "path_ok d (encode_key k)" using k m by (auto simp: path_ok_def)
      then have "\<forall>p \<in> dom (map_of (files d)). path_ok d p"
        using po m by (auto split: if_splits)
      then have "tier_ok t'" using dist by (simp add: tier_ok_dom t')
      with True m tmp h a(3) f(3) show ?thesis
        using store_key_other [OF k] by (auto simp: tier_get_def t' ok1(2) [symmetric])
    next
      case False
      from a(6) [OF False] obtain x where m: "map_of (files d) = ?m (temp_name (encode_key k) (temp_seq t1) := x)" by blast
      have "\<forall>p \<in> dom (map_of (files d)). path_ok d p"
        using po pt m by (auto split: if_splits)
      then have "tier_ok t'" using dist by (simp add: tier_ok_dom t')
      moreover have "tier_get t' k' = tier_get t k'" for k'
        using tmp m by (auto simp: tier_get_def t' ok1(2) [symmetric])
      ultimately show ?thesis using False a(3) f(3) by (auto split: sum.splits)
    qed
  qed
qed

text \<open>A download into a new directory, as the log uses it to read a segment of the tier.\<close>

definition fetch_object :: "LocalStorageTier \<Rightarrow> TierObjectKey \<Rightarrow> LocalStorageTier \<times> bytes expected" where
  "fetch_object t k =
     (let dest = format_020d (key_base k) @ dot # kind_ext (key_kind k) in
      case fetch_file t k \<lparr> files = [], subdirs = [] \<rparr> dest of
        (t, d, Inl e) \<Rightarrow> (t, Inl e)
      | (t, d, Inr _) \<Rightarrow> (t, case map_of (files d) dest of Some data \<Rightarrow> Inr data | None \<Rightarrow> Inl NotFound))"

lemma fetch_object_law:
  assumes ok: "tier_ok t" and p: "fetch_object t k = (t', r)"
  shows "tier_ok t' \<and> tier_get t' = tier_get t \<and> (case r of Inr data \<Rightarrow> tier_get t k = Some data | Inl _ \<Rightarrow> True) \<and>
      (tier_healthy t \<longrightarrow> tier_healthy t' \<and>
        r = (case tier_get t k of Some data \<Rightarrow> Inr data | None \<Rightarrow> Inl NotFound))"
proof -
  obtain t1 x1 where 1: "fs_call t = (t1, x1)" by fastforce
  note f = fs_callD [OF 1]
  let ?dest = "format_020d (key_base k) @ dot # kind_ext (key_kind k)" and ?d = "\<lparr> files = [], subdirs = [] \<rparr>"
  show ?thesis
  proof (cases "x1 = None \<and> tier_get t k \<noteq> None")
    case False
    then have "t' = t1 \<and> r = Inl NotFound"
      using p 1 f(1) by (cases x1) (auto simp: fetch_object_def fetch_file_def tier_get_def Let_def)
    with False f ok show ?thesis by (auto simp: tier_ok_def tier_get_def fun_eq_iff split: option.splits)
  next
    case True
    then obtain data where d: "tier_get t k = Some data" by auto
    obtain t2 d2 r2 where c: "atomic_copy t1 ?d data ?dest = (t2, d2, r2)" by (metis prod_cases3)
    note a = atomic_copyD [OF c]
    have r: "t' = t2" "r = (case r2 of Inl e \<Rightarrow> Inl e | Inr _ \<Rightarrow> case map_of (files d2) ?dest of Some x \<Rightarrow> Inr x | None \<Rightarrow> Inl NotFound)"
      using p 1 True d f(1) c by (auto simp: fetch_object_def fetch_file_def tier_get_def Let_def split: sum.splits)
    have od: "object_dir t' = object_dir t" using a(1) f(1) r(1) by simp
    show ?thesis
      using od ok d r a(3,5) f(3) True
      by (auto simp: tier_ok_def tier_get_def fun_eq_iff split: sum.splits)
  qed
qed

lemma remove_object_law:
  assumes ok: "tier_ok t" and k: "store_key k" and p: "remove_object t k = (t', r)"
  shows "tier_ok t' \<and> tier_get t' k = (case r of Inr _ \<Rightarrow> None | Inl _ \<Rightarrow> tier_get t k) \<and>
      (\<forall>k'. store_key k' \<and> k' \<noteq> k \<longrightarrow> tier_get t' k' = tier_get t k') \<and>
      (tier_healthy t \<longrightarrow> tier_healthy t' \<and> r = Inr ())"
proof -
  obtain t1 x1 where 1: "fs_call t = (t1, x1)" by fastforce
  note f = fs_callD [OF 1]
  show ?thesis
  proof (cases x1)
    case (Some x)
    then have "t' = t1" "r = Inl (fs_error (fst x))" using p 1 by (auto simp: remove_object_def split: prod.splits)
    with f ok Some show ?thesis by (auto simp: tier_ok_def tier_get_def)
  next
    case None
    then have t': "t' = t1 \<lparr> object_dir := (object_dir t) \<lparr> files := AList.delete (encode_key k) (tier_files t) \<rparr> \<rparr>" "r = Inr ()"
      using p 1 f(1) by (simp_all add: remove_object_def)
    have "tier_ok t'" using ok by (auto simp: tier_ok_dom t' delete_conv' distinct_delete path_ok_def split: if_splits)
    moreover have "tier_healthy t' = tier_healthy t1" by (simp add: t' tier_healthy_def)
    ultimately show ?thesis
      using t' f(3) store_key_other [OF k] by (auto simp: tier_get_def delete_conv')
  qed
qed

subsection \<open>Listing\<close>

abbreviation log_key :: "bytes \<Rightarrow> int \<Rightarrow> int \<Rightarrow> TierObjectKey" where
  "log_key tp pt b \<equiv> \<lparr> key_topic = tp, key_partition = pt, key_base = b, key_kind = KindLog \<rparr>"

lemma split_slash_unique:
  "a @ slash # b = a' @ slash # b' \<Longrightarrow> slash \<notin> set b \<Longrightarrow> slash \<notin> set b' \<Longrightarrow> a = a' \<and> b = b'"
  by (metis split_last_append option.inject prod.inject)

lemma name_base_key:
  assumes "0 \<le> b" "b < 2 ^ 63"
  shows "name_base (format_020d b @ dot # kind_ext kd) = (if kd = KindLog then Some b else None)"
proof -
  have "format_020d b \<noteq> []" using assms by (simp add: format_020d_def zero_pad_def)
  then have "stem_extension (format_020d b @ dot # kind_ext kd) = (format_020d b, dot # kind_ext kd)"
    by (simp add: stem_extension_def)
  then show ?thesis
    using assms parse_nonneg_format(3) [of b "2 ^ 63 - 1" "- (2 ^ 63)"]
    by (cases kd) (simp_all add: name_base_def of_char_def)
qed

lemma name_base_temp: "name_base (q @ ascii ''.tmp.'' @ to_string n) = None"
proof -
  have "dot \<notin> set (to_string n)" using to_string_digits [of n] by (auto simp: is_digit_def)
  then have "split_last dot ((q @ ascii ''.tmp'') @ dot # to_string n) = Some (q @ ascii ''.tmp'', to_string n)"
    by (rule split_last_append)
  moreover have "(q @ ascii ''.tmp'') @ dot # to_string n = q @ ascii ''.tmp.'' @ to_string n"
    by (simp add: of_char_def)
  ultimately have "split_last dot (q @ ascii ''.tmp.'' @ to_string n) = Some (q @ ascii ''.tmp'', to_string n)" by metis
  moreover have "to_string n \<noteq> ascii ''log''"
    using to_string_digits [of n] by (auto simp: is_digit_def of_char_def)
  moreover have "ascii ''.log'' = dot # ascii ''log''" by (simp add: of_char_def)
  ultimately show ?thesis by (simp add: name_base_def stem_extension_def del: ascii_simps)
qed

lemma set_map_filter_iff: "b \<in> set (List.map_filter f xs) \<longleftrightarrow> (\<exists>x \<in> set xs. f x = Some b)"
  by (induction xs) (auto simp: List.map_filter_simps split: option.splits)

lemma distinct_map_filter:
  assumes "distinct xs" "\<And>x y b. x \<in> set xs \<Longrightarrow> y \<in> set xs \<Longrightarrow> f x = Some b \<Longrightarrow> f y = Some b \<Longrightarrow> x = y"
  shows "distinct (List.map_filter f xs)"
  using assms
proof (induction xs)
  case (Cons x xs)
  have "distinct (List.map_filter f xs)" using Cons by auto
  moreover have "b \<notin> set (List.map_filter f xs)" if "f x = Some b" for b
  proof
    assume "b \<in> set (List.map_filter f xs)"
    then obtain y where "y \<in> set xs" "f y = Some b" by (auto simp: set_map_filter_iff)
    with Cons.prems that show False by auto
  qed
  ultimately show ?case by (auto simp: List.map_filter_simps split: option.splits)
qed (simp add: List.map_filter_simps)

lemma name_below_iff: "name_below prefix p = Some n \<longleftrightarrow> slash \<notin> set n \<and> p = prefix @ slash # n"
proof
  assume a: "name_below prefix p = Some n"
  then have *: "take (length prefix + 1) p = prefix @ [slash]" "slash \<notin> set n" "n = drop (length prefix + 1) p"
    by (auto simp: name_below_def Let_def split: if_splits)
  have "p = take (length prefix + 1) p @ drop (length prefix + 1) p" by simp
  then show "slash \<notin> set n \<and> p = prefix @ slash # n" using * by (metis append.assoc append_Cons append_Nil)
qed (auto simp: name_below_def)

lemma dir_names_iff: "n \<in> set (dir_names prefix fs) \<longleftrightarrow> slash \<notin> set n \<and> prefix @ slash # n \<in> fst ` set fs"
  unfolding dir_names_def set_map_filter_iff case_prod_beta name_below_iff by force

lemma dir_names_distinct: "distinct (map fst fs) \<Longrightarrow> distinct (dir_names prefix fs)"
  unfolding dir_names_def
  by (rule distinct_map_filter)
    (auto simp: distinct_map case_prod_beta name_below_iff intro: eq_key_imp_eq_value)

lemma encode_key_split:
  assumes "store_key k"
  obtains n where "encode_key k = (key_topic k @ slash # to_string_int (key_partition k)) @ slash # n"
    "n = format_020d (key_base k) @ dot # kind_ext (key_kind k)" "slash \<notin> set n"
proof -
  have "slash \<notin> set (format_020d (key_base k))"
    using assms digits_no_sep [OF format_020d_digits] by (simp add: store_key_def key_ok_def)
  with that [of "format_020d (key_base k) @ dot # kind_ext (key_kind k)"] show thesis
    by (simp add: encode_key_def)
qed

lemma dir_name_log:
  assumes ok: "tier_ok t" and n: "n \<in> set (dir_names prefix (tier_files t))" and b: "name_base n = Some b"
  shows "\<exists>k. store_key k \<and> prefix @ slash # n = encode_key k \<and> key_base k = b \<and> key_kind k = KindLog \<and>
    prefix = key_topic k @ slash # to_string_int (key_partition k)"
proof -
  have sl: "slash \<notin> set n" and "path_ok (object_dir t) (prefix @ slash # n)"
    using n ok by (auto simp: dir_names_iff tier_ok_dom dom_map_of_conv_image_fst)
  then consider k where "store_key k" "prefix @ slash # n = encode_key k" | q sq where "prefix @ slash # n = temp_name q sq"
    by (auto simp: path_ok_def)
  then show ?thesis
  proof cases
    case 1
    from encode_key_split [OF 1(1)] obtain m where
      m: "encode_key k = (key_topic k @ slash # to_string_int (key_partition k)) @ slash # m"
      "m = format_020d (key_base k) @ dot # kind_ext (key_kind k)" "slash \<notin> set m" by blast
    have "prefix = key_topic k @ slash # to_string_int (key_partition k) \<and> n = m"
      by (rule split_slash_unique) (use 1 m sl in simp_all)
    moreover from this b 1(1) have "key_kind k = KindLog \<and> key_base k = b"
      using name_base_key [of "key_base k" "key_kind k"] m(2)
      by (auto simp: store_key_def key_ok_def split: if_splits)
    ultimately show ?thesis using 1 by blast
  next
    case 2
    let ?e = "ascii ''.tmp.'' @ to_string (unat sq)"
    have e: "slash \<notin> set ?e" using to_string_digits [of "unat sq"] by (auto simp: is_digit_def of_char_def)
    have "slash \<in> set q" using 2 e by (metis temp_name_def Un_iff in_set_conv_decomp set_append)
    then obtain a q' where q: "q = a @ slash # q'" "slash \<notin> set q'" by (meson split_list_last)
    have "prefix = a \<and> n = q' @ ?e"
      by (rule split_slash_unique) (use 2 e q sl in \<open>simp_all add: temp_name_def del: ascii_simps\<close>)
    then have "name_base n = None" using name_base_temp by simp
    with b show ?thesis by simp
  qed
qed

lemma dir_log_name:
  assumes ok: "tier_ok t" and k: "store_key (log_key tp pt b)"
  shows "(\<exists>n \<in> set (dir_names (tp @ slash # to_string_int pt) (tier_files t)). name_base n = Some b) \<longleftrightarrow>
    tier_get t (log_key tp pt b) \<noteq> None"
proof -
  let ?k = "log_key tp pt b" and ?P = "tp @ slash # to_string_int pt"
  from encode_key_split [OF k] obtain m where m: "encode_key ?k = ?P @ slash # m"
    "m = format_020d b @ dot # kind_ext KindLog" "slash \<notin> set m" by auto
  have mb: "name_base m = Some b" using k name_base_key [of b KindLog] m(2) by (simp add: store_key_def key_ok_def)
  have "m \<in> set (dir_names ?P (tier_files t)) \<longleftrightarrow> tier_get t ?k \<noteq> None"
    unfolding dir_names_iff tier_get_def m(1) using m(3) by (simp add: dom_map_of_conv_image_fst [symmetric] domIff del: kind_ext.simps)
  moreover have "n = m" if n: "n \<in> set (dir_names ?P (tier_files t))" "name_base n = Some b" for n
  proof -
    from dir_name_log [OF ok n] obtain k' where k': "store_key k'" "?P @ slash # n = encode_key k'" "key_base k' = b"
      "key_kind k' = KindLog" "?P = key_topic k' @ slash # to_string_int (key_partition k')" by blast
    from encode_key_split [OF k'(1)] obtain n' where "encode_key k' = ?P @ slash # n'"
      "n' = format_020d b @ dot # kind_ext KindLog" using k'(3,4,5) by metis
    with k'(2) m(2) show ?thesis by simp
  qed
  ultimately show ?thesis using mb by blast
qed

lemma list_loop_prefix:
  "list_loop t names acc = (t', bs) \<Longrightarrow>
   object_dir t' = object_dir t \<and> (tier_healthy t \<longrightarrow> tier_healthy t') \<and>
   (\<exists>n. bs = acc @ List.map_filter name_base (take n names) \<and> (tier_healthy t \<longrightarrow> n = length names))"
proof (induction t names acc rule: list_loop.induct)
  case (2 t name names acc)
  obtain t1 x1 where 1: "fs_call t = (t1, x1)" by fastforce
  note f = fs_callD [OF 1]
  let ?acc = "case name_base name of Some base \<Rightarrow> acc @ [base] | None \<Rightarrow> acc"
  have a: "?acc @ List.map_filter name_base xs = acc @ List.map_filter name_base (name # xs)" for xs
    by (simp add: List.map_filter_simps split: option.splits)
  show ?case
  proof (cases x1)
    case None
    with 2(2) 1 have "list_loop t1 names ?acc = (t', bs)" by simp
    from 2(1) [OF refl _ None this] 1 obtain n where
      "object_dir t' = object_dir t1" "tier_healthy t1 \<longrightarrow> tier_healthy t'"
      "bs = ?acc @ List.map_filter name_base (take n names)" "tier_healthy t1 \<longrightarrow> n = length names" by auto
    with f a [of "take n names"] show ?thesis by (intro conjI exI [of _ "Suc n"]) auto
  next
    case (Some x)
    with 2(2) 1 have "t' = t1" "bs = ?acc" by simp_all
    with f Some a [of "[]"] show ?thesis by (intro conjI exI [of _ "Suc 0"]) (auto simp: List.map_filter_simps)
  qed
qed (auto simp: List.map_filter_simps)

lemma log_key_prefix:
  assumes ok: "tier_ok t" and k: "store_key (log_key tp pt b)" and g: "tier_get t (log_key tp pt b) \<noteq> None"
  shows "tp @ slash # to_string_int pt \<in> set (subdirs (object_dir t))"
proof -
  let ?k = "log_key tp pt b"
  obtain n where n: "encode_key ?k = (tp @ slash # to_string_int pt) @ slash # n" "slash \<notin> set n"
    using encode_key_split [OF k, unfolded TierObjectKey.select_convs] by blast
  have "path_ok (object_dir t) (encode_key ?k)" using ok g by (auto simp: tier_ok_dom tier_get_def)
  then have "parent_path (encode_key ?k) \<in> set (subdirs (object_dir t))"
    unfolding path_ok_def using temp_name_not_key by metis
  moreover have "split_last slash (encode_key ?k) = Some (tp @ slash # to_string_int pt, n)"
    unfolding n(1) using n(2) by (rule split_last_append)
  ultimately show ?thesis by (simp add: parent_path_def)
qed

lemma names_bases:
  assumes ok: "tier_ok t" "sub = take m (dir_names prefix (tier_files t))"
  shows "distinct (List.map_filter name_base sub)"
proof (rule distinct_map_filter)
  show "distinct sub" using ok dir_names_distinct by (simp add: tier_ok_def)
  fix x y b
  assume "x \<in> set sub" "y \<in> set sub" and b: "name_base x = Some b" "name_base y = Some b"
  then have xy: "x \<in> set (dir_names prefix (tier_files t))" "y \<in> set (dir_names prefix (tier_files t))"
    using ok(2) by (auto dest: in_set_takeD)
  from dir_name_log [OF ok(1) xy(1) b(1)] dir_name_log [OF ok(1) xy(2) b(2)] obtain k k' where
    k: "store_key k" "prefix @ slash # x = encode_key k" "key_base k = b" "key_kind k = KindLog"
    and k': "store_key k'" "prefix @ slash # y = encode_key k'" "key_base k' = b" "key_kind k' = KindLog"
    by blast
  have "slash \<notin> set x" "slash \<notin> set y" using xy by (simp_all add: dir_names_iff)
  moreover obtain n where "encode_key k = (key_topic k @ slash # to_string_int (key_partition k)) @ slash # n"
    "n = format_020d b @ dot # kind_ext KindLog" "slash \<notin> set n"
    using encode_key_split [OF k(1)] k(3,4) by metis
  moreover obtain n' where "encode_key k' = (key_topic k' @ slash # to_string_int (key_partition k')) @ slash # n'"
    "n' = format_020d b @ dot # kind_ext KindLog" "slash \<notin> set n'"
    using encode_key_split [OF k'(1)] k'(3,4) by metis
  ultimately show "x = y" using split_slash_unique k(2) k'(2) by metis
qed

lemma list_segment_bases_law:
  assumes ok: "tier_ok t" and p: "list_segment_bases t tp pt = (t', r)"
  shows "tier_ok t' \<and> tier_get t' = tier_get t \<and>
      (case r of
         Inl _ \<Rightarrow> \<not> tier_healthy t
       | Inr bs \<Rightarrow> sorted bs \<and> distinct bs \<and>
           (\<forall>b \<in> set bs. store_key (log_key tp pt b) \<longrightarrow> tier_get t (log_key tp pt b) \<noteq> None) \<and>
           (tier_healthy t \<longrightarrow> tier_healthy t' \<and>
             (\<forall>b. store_key (log_key tp pt b) \<longrightarrow> (b \<in> set bs \<longleftrightarrow> tier_get t (log_key tp pt b) \<noteq> None))))"
proof -
  let ?P = "tp @ slash # to_string_int pt"
  obtain t1 x1 where 1: "fs_call t = (t1, x1)" by fastforce
  obtain t2 x2 where 2: "fs_call t1 = (t2, x2)" by fastforce
  note f = fs_callD [OF 1] fs_callD [OF 2]
  have same: "tier_ok u \<and> tier_get u = tier_get t" if "object_dir u = object_dir t" for u
    using ok that by (simp add: tier_ok_def tier_get_def fun_eq_iff)
  consider "x1 \<noteq> None" | "x1 = None" "?P \<notin> set (subdirs (object_dir t))"
    | "x1 = None" "?P \<in> set (subdirs (object_dir t))" "x2 \<noteq> None"
    | "x1 = None" "?P \<in> set (subdirs (object_dir t))" "x2 = None" by blast
  then show ?thesis
  proof cases
    case 1
    then have "t' = t1" "r = Inr []" using p \<open>fs_call t = (t1, x1)\<close> by (auto simp: list_segment_bases_def)
    then show ?thesis using f(1,3) same [of t1] 1 by auto
  next
    case 2
    then have "t' = t1" "r = Inr []" using p 1 f(1) by (auto simp: list_segment_bases_def)
    moreover have "\<forall>b. store_key (log_key tp pt b) \<longrightarrow> tier_get t (log_key tp pt b) = None"
      using log_key_prefix [OF ok] 2(2) by blast
    ultimately show ?thesis using f same [of t1] by simp
  next
    case 3
    then obtain e where "t' = t2" "r = Inl (fs_error e)" using p 1 2 f(1) by (auto simp: list_segment_bases_def)
    then show ?thesis using f(1,3,4,6) same [of t2] 3 by auto
  next
    case 4
    obtain bs where l: "list_loop t2 (dir_names ?P (tier_files t)) [] = (t', bs)" "r = Inr (sort bs)"
      using p 1 2 f 4 by (auto simp: list_segment_bases_def split: prod.splits)
    from list_loop_prefix [OF l(1)] obtain n where n: "object_dir t' = object_dir t2" "tier_healthy t2 \<longrightarrow> tier_healthy t'"
      "bs = List.map_filter name_base (take n (dir_names ?P (tier_files t)))"
      "tier_healthy t2 \<longrightarrow> n = length (dir_names ?P (tier_files t))" by auto
    have d: "distinct bs" unfolding n(3) using ok refl by (rule names_bases)
    have sub: "b \<in> set bs \<Longrightarrow> \<exists>x \<in> set (dir_names ?P (tier_files t)). name_base x = Some b" for b
      using n(3) by (auto simp: set_map_filter_iff dest: in_set_takeD)
    have all: "tier_healthy t \<Longrightarrow> b \<in> set bs \<longleftrightarrow> (\<exists>x \<in> set (dir_names ?P (tier_files t)). name_base x = Some b)" for b
      using n f by (auto simp: set_map_filter_iff)
    show ?thesis
      unfolding l(2) sum.case set_sort sorted_sort distinct_sort
      using same [of t'] n(1,2) f d sub all dir_log_name [OF ok] by simp blast
  qed
qed

interpretation local_tier: object_store
  "\<lambda>t k data. put_file t k (Some data)" fetch_object remove_object list_segment_bases tier_get tier_ok tier_healthy store_key
  by unfold_locales (rule put_file_law fetch_object_law remove_object_law list_segment_bases_law; assumption)+


section \<open>Failures the tier does not report\<close>

text \<open>
  A failure to look up the directory of a partition is answered as an empty listing, and one in the
  middle of the listing ends it early; a copy that fails, for example on a full disk, leaves its
  temporary file behind.
\<close>

lemma listing_failure_hidden:
  "fs_sched t = FsFail e n # rest \<Longrightarrow> snd (list_segment_bases t tp pt) = Inr []"
  by (simp add: list_segment_bases_def fs_call_def Let_def)

lemma listing_cut_short:
  "fs_sched t = FsFail e n # rest \<Longrightarrow> list_loop t (name # names) [] =
     (t \<lparr> fs_sched := rest \<rparr>, case name_base name of Some base \<Rightarrow> [base] | None \<Rightarrow> [])"
  by (simp add: fs_call_def split: option.splits)

lemma copy_leaves_temporary:
  "fs_sched t = [FsOk, FsOk, FsFail NoSpace n] \<Longrightarrow>
   snd (put_file t k (Some data)) = Inl OutOfSpace \<and>
   map_of (tier_files (fst (put_file t k (Some data)))) (temp_name (encode_key k) (temp_seq t)) = Some (take n data)"
  by (simp add: put_file_def atomic_copy_def fs_call_def Let_def update_conv')


section \<open>Properties\<close>

text \<open>
  The name of every object reads back as its key, for every topic name that is not empty (also one that
  contains separators), so keys of different segments never collide.
\<close>

theorem tier_key_roundtrip:
  assumes "key_ok k"
  shows "decode_key (encode_key k) = Inr k \<and> (\<forall>k'. key_ok k' \<and> encode_key k' = encode_key k \<longrightarrow> k' = k)"
  using decode_encode_key [OF assms] encode_key_inj [OF assms] by metis

theorem tier_key_roundtrip_witness:
  "decode_key (ascii ''a/b/3/00000000000000000042.log'') =
     Inr \<lparr> key_topic = ascii ''a/b'', key_partition = 3, key_base = 42, key_kind = KindLog \<rparr>"
proof -
  let ?k = "\<lparr> key_topic = ascii ''a/b'', key_partition = 3, key_base = 42, key_kind = KindLog \<rparr>"
  have "encode_key ?k = ascii ''a/b/3/00000000000000000042.log''" by code_simp
  moreover have "key_ok ?k" by (simp add: key_ok_def)
  ultimately show ?thesis using tier_key_roundtrip [of ?k] by metis
qed

end
