(* ===== verification/Tiered_Log.thy ===== *)
theory Tiered_Log
  imports Log_Reopen Storage_Tier
begin

text \<open>
  The partition log with a storage tier (\<^verbatim>\<open>cfg.tier != nullptr\<close> in \<^verbatim>\<open>storage/partition_log.cpp\<close>).
  Sealed segments are uploaded and then removed from the directory; what remains is a cold prefix,
  named by \<open>tiered_bases\<close>, and the local segments.  The operations take those of the tier as a
  record \<open>tier_ops\<close>; the lemmas are proved in the locale \<open>object_store\<close> and hold for the local tier by its
  interpretation.

  \<open>local_log\<close> is the part of the object that \<open>Partition_Log\<close> models; its \<open>log_start_offset\<close> is
  \<^verbatim>\<open>first_local_base()\<close>, and \<open>start_offset\<close> is the \<^verbatim>\<open>log_start_offset_\<close> of the whole log.

  The lemmas show that uploading changes no batch of the log, whichever step fails, and that
  \<open>read\<close> returns exactly what it would return if every segment were local.
\<close>

section \<open>Model\<close>

record 't tier_ops =
  op_put :: "'t \<Rightarrow> TierObjectKey \<Rightarrow> bytes \<Rightarrow> 't \<times> unit expected"
  op_fetch :: "'t \<Rightarrow> TierObjectKey \<Rightarrow> 't \<times> bytes expected"
  op_remove :: "'t \<Rightarrow> TierObjectKey \<Rightarrow> 't \<times> unit expected"
  op_list :: "'t \<Rightarrow> bytes \<Rightarrow> int \<Rightarrow> 't \<times> int list expected"

record 't TieredLog =
  local_log :: PartitionLog
  tier :: 't
  tiered_bases :: "int list"
  start_offset :: int
  tier_topic :: bytes
  tier_partition :: int
  rehydrate_seq :: nat

text \<open>
  What the surroundings supply when a segment of the tier is read: the result of creating the
  temporary directory, and the downloaded files as they are opened.
\<close>

record rehydrate_env =
  tmp_dir :: "unit expected"
  tmp_log :: "bytes \<Rightarrow> File expected"
  tmp_index :: "bytes \<Rightarrow> File expected"

definition tier_key :: "'t TieredLog \<Rightarrow> int \<Rightarrow> SegmentFileKind \<Rightarrow> TierObjectKey" where
  "tier_key lg base kind =
     \<lparr> key_topic = tier_topic lg, key_partition = tier_partition lg, key_base = base, key_kind = kind \<rparr>"

definition first_local_base :: "'t TieredLog \<Rightarrow> int" where
  "first_local_base lg = seg_base (hd (segments (local_log lg)))"

definition list_cold_prefix ::
  "'t tier_ops \<Rightarrow> 't \<Rightarrow> bytes \<Rightarrow> int \<Rightarrow> Segment list \<Rightarrow> 't \<times> int list expected" where
  "list_cold_prefix ops t topic p ss =
     (if ss = [] then (t, Inr [])
      else case op_list ops t topic p of
          (t, Inl e) \<Rightarrow> (t, Inl e)
        | (t, Inr listed) \<Rightarrow> (t, Inr (sort (filter (\<lambda>base. \<not> list_ex (\<lambda>s. seg_base s = base) ss) listed))))"

definition tiered_open ::
  "'t tier_ops \<Rightarrow> crypto_lib \<Rightarrow> LogConfig \<Rightarrow> log_env \<Rightarrow> directory \<Rightarrow> 't \<Rightarrow> bytes \<Rightarrow> int \<Rightarrow>
   't \<times> 't TieredLog expected" where
  "tiered_open ops cr c env dir t topic p =
     (case plog_open cr c env dir of
        Inl e \<Rightarrow> (t, Inl e)
      | Inr pl \<Rightarrow>
          (case list_cold_prefix ops t topic p (segments pl) of
             (t, Inl e) \<Rightarrow> (t, Inl e)
           | (t, Inr bases) \<Rightarrow>
               (t, Inr \<lparr> local_log = pl, tier = t, tiered_bases = bases,
                     start_offset = (if bases = [] then log_start_offset pl
                                     else min (log_start_offset pl) (hd bases)),
                     tier_topic = topic, tier_partition = p, rehydrate_seq = 0 \<rparr>)))"

definition recompute_log_start :: "'t TieredLog \<Rightarrow> 't TieredLog" where
  "recompute_log_start lg =
     lg \<lparr> start_offset := (if tiered_bases lg = [] then first_local_base lg else hd (tiered_bases lg)) \<rparr>"

function offload_loop :: "'t tier_ops \<Rightarrow> 't TieredLog \<Rightarrow> nat \<Rightarrow> 't TieredLog \<times> nat expected" where
  "offload_loop ops lg offloaded =
     (case segments (local_log lg) of
        s # s2 # ss \<Rightarrow>
          (case op_put ops (tier lg) (tier_key lg (seg_base s) KindLog) (content (seg_log s)) of
             (t, Inl e) \<Rightarrow> (lg \<lparr> tier := t \<rparr>, Inl e)
           | (t, Inr _) \<Rightarrow>
               (case op_put ops t (tier_key lg (seg_base s) KindIndex) (content (idx_file (seg_index s))) of
                  (t, Inl e) \<Rightarrow> (lg \<lparr> tier := t \<rparr>, Inl e)
                | (t, Inr _) \<Rightarrow>
                    offload_loop ops
                      (lg \<lparr> tier := t,
                           local_log := (local_log lg) \<lparr> segments := s2 # ss, log_start_offset := seg_base s2 \<rparr>,
                           tiered_bases := tiered_bases lg @ [seg_base s] \<rparr>) (offloaded + 1)))
      | _ \<Rightarrow> (lg, Inr offloaded))"
  by pat_completeness auto
termination
  by (relation "measure (\<lambda>(ops, lg, n). length (segments (local_log lg)))") auto

declare offload_loop.simps [simp del]

definition offload_sealed_to_tier :: "'t tier_ops \<Rightarrow> 't TieredLog \<Rightarrow> 't TieredLog \<times> nat expected" where
  "offload_sealed_to_tier ops lg =
     (case offload_loop ops lg 0 of
        (lg, Inl e) \<Rightarrow> (lg, Inl e)
      | (lg, Inr n) \<Rightarrow> (recompute_log_start lg, Inr n))"

definition tiered_roll ::
  "'t tier_ops \<Rightarrow> crypto_lib \<Rightarrow> log_env \<Rightarrow> 't TieredLog \<Rightarrow> 't TieredLog \<times> unit expected" where
  "tiered_roll ops cr env lg =
     (case roll_segment cr env (local_log lg) of
        (pl, Inl e) \<Rightarrow> (lg \<lparr> local_log := pl \<rparr>, Inl e)
      | (pl, Inr _) \<Rightarrow> (fst (offload_sealed_to_tier ops (lg \<lparr> local_log := pl \<rparr>)), Inr ()))"

definition tiered_append ::
  "'t tier_ops \<Rightarrow> crypto_lib \<Rightarrow> log_env \<Rightarrow> 't TieredLog \<Rightarrow> RecordBatch \<Rightarrow> 't TieredLog \<times> int expected" where
  "tiered_append ops cr env lg batch =
     (let pl = local_log lg;
          rolled = (if \<not> is_empty (active pl) \<and> is_full (active pl) (segment_bytes (cfg pl))
                    then tiered_roll ops cr env lg else (lg, Inr ())) in
      case rolled of
        (lg, Inl e) \<Rightarrow> (lg, Inl e)
      | (lg, Inr _) \<Rightarrow>
          (case append_rolled cr env (local_log lg) batch of (pl, r) \<Rightarrow> (lg \<lparr> local_log := pl \<rparr>, r)))"

definition remove_tiered :: "'t tier_ops \<Rightarrow> 't TieredLog \<Rightarrow> int \<Rightarrow> 't TieredLog \<times> unit expected" where
  "remove_tiered ops lg base =
     (case op_remove ops (tier lg) (tier_key lg base KindLog) of
        (t, Inl e) \<Rightarrow> (lg \<lparr> tier := t \<rparr>, Inl e)
      | (t, Inr _) \<Rightarrow>
          (case op_remove ops t (tier_key lg base KindIndex) of (t, r) \<Rightarrow> (lg \<lparr> tier := t \<rparr>, r)))"

text \<open>The two loops of \<^verbatim>\<open>truncate_prefix_to\<close>; \<open>bases\<close> are the remaining \<^verbatim>\<open>tiered_bases_\<close>.\<close>

fun drop_cold :: "'t tier_ops \<Rightarrow> int \<Rightarrow> int list \<Rightarrow> 't TieredLog \<Rightarrow> 't TieredLog \<times> unit expected" where
  "drop_cold ops offset [] lg = (lg, Inr ())"
| "drop_cold ops offset (base # bases) lg =
     (let successor = (if bases \<noteq> [] then hd bases else first_local_base lg) in
      if successor > offset then (lg, Inr ())
      else case remove_tiered ops lg base of
          (lg, Inl e) \<Rightarrow> (lg, Inl e)
        | (lg, Inr _) \<Rightarrow> drop_cold ops offset bases (lg \<lparr> tiered_bases := bases \<rparr>))"

definition tiered_truncate_prefix_to ::
  "'t tier_ops \<Rightarrow> 't TieredLog \<Rightarrow> int \<Rightarrow> 't TieredLog \<times> unit expected" where
  "tiered_truncate_prefix_to ops lg offset =
     (if offset \<le> start_offset lg then (lg, Inr ())
      else if offset > log_end_offset (local_log lg) then (lg, Inl OutOfRange)
      else case drop_cold ops offset (tiered_bases lg) lg of
          (lg, Inl e) \<Rightarrow> (lg, Inl e)
        | (lg, Inr _) \<Rightarrow>
            let ss = drop_below offset (segments (local_log lg)) in
            (recompute_log_start
               (lg \<lparr> local_log := (local_log lg) \<lparr> segments := ss, log_start_offset := seg_base (hd ss) \<rparr> \<rparr>), Inr ()))"

fun remove_all_tiered :: "'t tier_ops \<Rightarrow> int list \<Rightarrow> 't TieredLog \<Rightarrow> 't TieredLog \<times> unit expected" where
  "remove_all_tiered ops [] lg = (lg, Inr ())"
| "remove_all_tiered ops (base # bases) lg =
     (case remove_tiered ops lg base of
        (lg, Inl e) \<Rightarrow> (lg, Inl e)
      | (lg, Inr _) \<Rightarrow> remove_all_tiered ops bases lg)"

definition tiered_reset_to ::
  "'t tier_ops \<Rightarrow> crypto_lib \<Rightarrow> log_env \<Rightarrow> 't TieredLog \<Rightarrow> int \<Rightarrow> 't TieredLog \<times> unit expected" where
  "tiered_reset_to ops cr env lg offset =
     (if offset < 0 then (lg, Inl InvalidArgument)
      else case remove_all_tiered ops (tiered_bases lg) lg of
          (lg, Inl e) \<Rightarrow> (lg, Inl e)
        | (lg, Inr _) \<Rightarrow>
            (case reset_to cr env (local_log lg) offset of
               (pl, Inl e) \<Rightarrow> (lg \<lparr> local_log := pl, tiered_bases := [] \<rparr>, Inl e)
             | (pl, Inr u) \<Rightarrow> (lg \<lparr> local_log := pl, tiered_bases := [], start_offset := offset \<rparr>, Inr u)))"

definition tiered_truncate_to :: "'t TieredLog \<Rightarrow> int \<Rightarrow> 't TieredLog \<times> unit expected" where
  "tiered_truncate_to lg offset =
     (if offset = log_end_offset (local_log lg) then (lg, Inr ())
      else if offset > log_end_offset (local_log lg) then (lg, Inl OutOfRange)
      else if offset < start_offset lg then (lg, Inl OutOfRange)
      else if tiered_bases lg \<noteq> [] \<and> offset < first_local_base lg then (lg, Inl Unsupported)
      else case plog_truncate_to (local_log lg) offset of (pl, r) \<Rightarrow> (lg \<lparr> local_log := pl \<rparr>, r))"

definition tiered_enforce_retention ::
  "'t TieredLog \<Rightarrow> RetentionPolicy \<Rightarrow> (int \<Rightarrow> int option) \<Rightarrow> 't TieredLog" where
  "tiered_enforce_retention lg policy age =
     (if tiered_bases lg \<noteq> [] then lg
      else let pl = enforce_retention (local_log lg) policy age in
           lg \<lparr> local_log := pl, start_offset := log_start_offset pl \<rparr>)"

definition read_tiered ::
  "'t tier_ops \<Rightarrow> crypto_lib \<Rightarrow> (nat \<Rightarrow> rehydrate_env) \<Rightarrow> 't TieredLog \<Rightarrow> int \<Rightarrow> nat \<Rightarrow>
   't TieredLog \<times> FetchResult expected" where
  "read_tiered ops cr renv lg offset max_bytes =
     (let it = upper_bound (\<lambda>b. b) (tiered_bases lg) offset in
      if it = 0 then (lg, Inr \<lparr> batches = [], next_offset = 0 \<rparr>)
      else
        let base = tiered_bases lg ! (it - 1);
            env = renv (rehydrate_seq lg);
            lg = lg \<lparr> rehydrate_seq := rehydrate_seq lg + 1 \<rparr> in
        case tmp_dir env of
          Inl _ \<Rightarrow> (lg, Inl IoError)
        | Inr _ \<Rightarrow>
            (case op_fetch ops (tier lg) (tier_key lg base KindLog) of
               (t, Inl e) \<Rightarrow> (lg \<lparr> tier := t \<rparr>, Inl e)
             | (t, Inr lf) \<Rightarrow>
                 (case op_fetch ops t (tier_key lg base KindIndex) of
                    (t, Inl e) \<Rightarrow> (lg \<lparr> tier := t \<rparr>, Inl e)
                  | (t, Inr xf) \<Rightarrow>
                      (lg \<lparr> tier := t \<rparr>,
                       bindE (segment_open cr (tmp_log env lf) (tmp_index env xf) base
                                (index_interval_bytes (cfg (local_log lg))) (encryption_key (cfg (local_log lg))))
                         (\<lambda>s. segment_read cr s offset max_bytes)))))"

lemma read_tiered_frame:
  assumes "read_tiered ops cr renv lg offset n = (lg', r)"
  shows "local_log lg' = local_log lg" "tiered_bases lg' = tiered_bases lg" "start_offset lg' = start_offset lg"
    "tier_topic lg' = tier_topic lg" "tier_partition lg' = tier_partition lg"
  using assms by (auto simp: read_tiered_def Let_def split: if_splits sum.splits prod.splits)

lemma read_tiered_progress:
  assumes "read_tiered ops cr renv lg offset n = (lg', Inr res)" "batches res \<noteq> []"
  shows "offset < next_offset res"
  using assms read_loop_progress [of cr _ offset n _ "\<lparr> batches = [], next_offset = offset \<rparr>" res]
  by (auto simp: read_tiered_def segment_read_def Let_def result_iffs split: if_splits sum.splits prod.splits)

lemma fragment_step:
  "(lg', Inr res) = read_tiered ops cr renv lg offset n \<Longrightarrow> batches res \<noteq> [] \<Longrightarrow>
   local_log lg' = local_log lg \<and> offset < next_offset res"
  "Inr res = read_local cr pl offset n \<Longrightarrow> batches res \<noteq> [] \<Longrightarrow> offset < next_offset res"
  using read_tiered_frame(1) read_tiered_progress read_local_progress by metis+

function tiered_read_loop ::
  "'t tier_ops \<Rightarrow> crypto_lib \<Rightarrow> (nat \<Rightarrow> rehydrate_env) \<Rightarrow> nat \<Rightarrow> int \<Rightarrow> FetchResult \<Rightarrow> 't TieredLog \<Rightarrow>
   't TieredLog \<times> FetchResult expected" where
  "tiered_read_loop ops cr renv max_bytes cursor res lg =
     (if cursor < log_end_offset (local_log lg) \<and> length (batches res) < max_bytes then
        let remaining = max_bytes - length (batches res) in
        case (if tiered_bases lg \<noteq> [] \<and> cursor < first_local_base lg
              then read_tiered ops cr renv lg cursor remaining
              else (lg, read_local cr (local_log lg) cursor remaining)) of
          (lg', Inl e) \<Rightarrow> (lg', Inl e)
        | (lg', Inr fragment) \<Rightarrow>
            if batches fragment = [] then (lg', Inr res)
            else tiered_read_loop ops cr renv max_bytes (next_offset fragment)
                   \<lparr> batches = batches res @ batches fragment, next_offset = next_offset fragment \<rparr> lg'
      else (lg, Inr res))"
  by pat_completeness auto
termination
  by (relation "measure (\<lambda>(ops, cr, renv, n, cursor, res, lg). nat (log_end_offset (local_log lg) - cursor))")
    (auto split: if_splits dest: fragment_step)

declare tiered_read_loop.simps [simp del]

definition tiered_read ::
  "'t tier_ops \<Rightarrow> crypto_lib \<Rightarrow> (nat \<Rightarrow> rehydrate_env) \<Rightarrow> 't TieredLog \<Rightarrow> int \<Rightarrow> nat \<Rightarrow>
   't TieredLog \<times> FetchResult expected" where
  "tiered_read ops cr renv lg offset max_bytes =
     (if offset < start_offset lg then (lg, Inl OutOfRange)
      else tiered_read_loop ops cr renv max_bytes offset \<lparr> batches = [], next_offset = offset \<rparr> lg)"


section \<open>The batches a tiered log holds\<close>

text \<open>The objects of a cold segment are the files of a segment with the given blocks.\<close>

definition cold_segment ::
  "crypto_lib \<Rightarrow> EncryptionKey option \<Rightarrow> (int \<Rightarrow> SegmentFileKind \<Rightarrow> bytes option) \<Rightarrow> Segment \<Rightarrow> block list \<Rightarrow> bool" where
  "cold_segment cr key g s bs \<longleftrightarrow> seg_inv cr s bs \<and> files_clean cr key s \<and> bs \<noteq> [] \<and>
     g (seg_base s) KindLog = Some (content (seg_log s)) \<and>
     g (seg_base s) KindIndex = Some (content (idx_file (seg_index s)))"

fun cold_chain ::
  "crypto_lib \<Rightarrow> EncryptionKey option \<Rightarrow> (int \<Rightarrow> SegmentFileKind \<Rightarrow> bytes option) \<Rightarrow> int \<Rightarrow> int list \<Rightarrow>
   block list list \<Rightarrow> int \<Rightarrow> bool" where
  "cold_chain cr key g o' [] [] e \<longleftrightarrow> o' = e"
| "cold_chain cr key g o' (b # bases) (bs # bss) e \<longleftrightarrow>
     b = o' \<and> (\<exists>s. cold_segment cr key g s bs \<and> seg_base s = b) \<and> cold_chain cr key g (end_of o' (map fst bs)) bases bss e"
| "cold_chain cr key g o' _ _ e \<longleftrightarrow> False"

lemma cold_chain_snoc:
  "cold_chain cr key g o' bases bss e \<Longrightarrow> cold_segment cr key g s bs \<Longrightarrow> seg_base s = e \<Longrightarrow>
   cold_chain cr key g o' (bases @ [e]) (bss @ [bs]) (end_of e (map fst bs))"
  by (induction cr key g o' bases bss e rule: cold_chain.induct) auto

lemma cold_chain_bases:
  "cold_chain cr key g o' bases bss e \<Longrightarrow>
   o' \<le> e \<and> (\<forall>b \<in> set bases. o' \<le> b \<and> b < e) \<and> length bases = length bss"
proof (induction cr key g o' bases bss e rule: cold_chain.induct)
  case (2 cr key g o' b bases bs bss e)
  then obtain s where "seg_inv cr s bs" "bs \<noteq> []" "seg_base s = o'" by (auto simp: cold_segment_def)
  then have "o' < end_of o' (map fst bs)"
    using end_of_ge [of o' "map fst bs"] by (cases bs) (auto simp: seg_inv_def)
  with 2 show ?case by fastforce
qed auto

lemma cold_chain_cong:
  assumes "cold_chain cr key g o' bases bss e" "\<And>b kd. b \<in> set bases \<Longrightarrow> g' b kd = g b kd"
  shows "cold_chain cr key g' o' bases bss e"
  using assms
proof (induction cr key g o' bases bss e rule: cold_chain.induct)
  case (2 cr key g o' b bases bs bss e)
  then show ?case by (auto simp: cold_segment_def)
qed auto

lemma cold_chain_segments:
  assumes "cold_chain cr key g o' bases bss e"
  shows "\<exists>ss. chain cr o' ss bss \<and> map seg_base ss = bases \<and> e = end_of o' (log_batches bss) \<and>
    list_all2 (cold_segment cr key g) ss bss"
  using assms
proof (induction cr key g o' bases bss e rule: cold_chain.induct)
  case (2 cr key g o' b bases bs bss e)
  then obtain s ss where "cold_segment cr key g s bs" "seg_base s = o'" "b = o'" "chain cr (end_of o' (map fst bs)) ss bss"
    "map seg_base ss = bases" "e = end_of (end_of o' (map fst bs)) (log_batches bss)" "list_all2 (cold_segment cr key g) ss bss"
    by auto
  moreover from this have "seg_inv cr s bs" by (simp add: cold_segment_def)
  ultimately show ?case by (intro exI [of _ "s # ss"]) (simp add: end_of_append)
qed auto

definition tiered_inv ::
  "crypto_lib \<Rightarrow> ('t \<Rightarrow> TierObjectKey \<Rightarrow> bytes option) \<Rightarrow> 't TieredLog \<Rightarrow> block list list \<Rightarrow> block list list \<Rightarrow> bool" where
  "tiered_inv cr get lg cbss lbss \<longleftrightarrow> log_clean cr (local_log lg) lbss \<and>
     cold_chain cr (encryption_key (cfg (local_log lg))) (\<lambda>b kd. get (tier lg) (tier_key lg b kd))
       (start_offset lg) (tiered_bases lg) cbss (log_start_offset (local_log lg))"

definition keys_fit :: "(TierObjectKey \<Rightarrow> bool) \<Rightarrow> 't TieredLog \<Rightarrow> bool" where
  "keys_fit valid lg \<longleftrightarrow> (\<forall>b kd. start_offset lg \<le> b \<and> b \<le> log_end_offset (local_log lg) \<longrightarrow> valid (tier_key lg b kd))"

lemma tier_key_inj [simp]: "tier_key lg b kd = tier_key lg b' kd' \<longleftrightarrow> b = b' \<and> kd = kd'"
  by (simp add: tier_key_def)

lemma tier_key_update [simp]:
  "tier_key (lg \<lparr> tier := t \<rparr>) = tier_key lg" "tier_key (lg \<lparr> local_log := l \<rparr>) = tier_key lg"
  "tier_key (lg \<lparr> tiered_bases := x \<rparr>) = tier_key lg" "tier_key (lg \<lparr> start_offset := y \<rparr>) = tier_key lg"
  "tier_key (lg \<lparr> rehydrate_seq := z \<rparr>) = tier_key lg"
  by (simp_all add: tier_key_def fun_eq_iff)

lemma log_clean_hd:
  assumes "log_clean cr pl bss"
  shows "segments pl \<noteq> []" "log_start_offset pl = seg_base (hd (segments pl))" "log_start_offset pl \<le> log_end_offset pl"
proof -
  have ch: "chain cr (log_start_offset pl) (segments pl) bss" "segments pl \<noteq> []"
    "log_end_offset pl = end_of (log_start_offset pl) (log_batches bss)"
    using assms by (simp_all add: log_clean_def plog_inv_def)
  then show "segments pl \<noteq> []" "log_start_offset pl = seg_base (hd (segments pl))"
    by (cases "segments pl"; cases bss; auto)+
  show "log_start_offset pl \<le> log_end_offset pl"
    using end_of_ge [OF chain_contiguous [OF ch(1)]] ch(3) by linarith
qed

text \<open>Dropping the first local segment of a clean log.\<close>

lemma log_clean_tl:
  assumes "log_clean cr pl (bs # bss)" "segments pl = s # s2 # ss"
  shows "log_clean cr (pl \<lparr> segments := s2 # ss, log_start_offset := seg_base s2 \<rparr>) bss \<and>
    seg_inv cr s bs \<and> files_clean cr (encryption_key (cfg pl)) s \<and> bs \<noteq> [] \<and>
    seg_base s2 = end_of (log_start_offset pl) (map fst bs) \<and> seg_base s = log_start_offset pl"
proof -
  note c = assms(1) [unfolded log_clean_def plog_inv_def assms(2)]
  have "\<not> is_empty s" using c by auto
  moreover have "seg_inv cr s bs" using c by simp
  ultimately have "bs \<noteq> []" using is_empty_blocks by blast
  moreover have "chain cr (seg_base s2) (s2 # ss) bss \<and> seg_base s2 = end_of (log_start_offset pl) (map fst bs)"
    using c by (cases bss) auto
  ultimately show ?thesis using c by (auto simp: log_clean_def plog_inv_def end_of_append)
qed


text \<open>The log as it would be if the cold segments were local.\<close>

definition whole_log :: "'t TieredLog \<Rightarrow> Segment list \<Rightarrow> PartitionLog" where
  "whole_log lg css = (local_log lg) \<lparr> segments := css @ segments (local_log lg), log_start_offset := start_offset lg \<rparr>"

definition cold_list :: "crypto_lib \<Rightarrow> ('t \<Rightarrow> TierObjectKey \<Rightarrow> bytes option) \<Rightarrow> 't TieredLog \<Rightarrow> Segment list \<Rightarrow> block list list \<Rightarrow> bool" where
  "cold_list cr get lg css cbss \<longleftrightarrow> chain cr (start_offset lg) css cbss \<and> map seg_base css = tiered_bases lg \<and>
     list_all2 (cold_segment cr (encryption_key (cfg (local_log lg))) (\<lambda>b kd. get (tier lg) (tier_key lg b kd))) css cbss"

lemma whole_log_inv:
  assumes "tiered_inv cr get lg cbss lbss"
  shows "\<exists>css. cold_list cr get lg css cbss \<and> plog_inv cr (whole_log lg css) (cbss @ lbss) \<and> plog_readable (whole_log lg css)"
proof -
  let ?pl = "local_log lg" and ?k = "encryption_key (cfg (local_log lg))" and ?g = "\<lambda>b kd. get (tier lg) (tier_key lg b kd)"
  have lc: "log_clean cr ?pl lbss" and cc: "cold_chain cr ?k ?g (start_offset lg) (tiered_bases lg) cbss (log_start_offset ?pl)"
    using assms by (simp_all add: tiered_inv_def)
  from cold_chain_segments [OF cc] obtain css where css: "chain cr (start_offset lg) css cbss" "map seg_base css = tiered_bases lg"
    "log_start_offset ?pl = end_of (start_offset lg) (log_batches cbss)" "list_all2 (cold_segment cr ?k ?g) css cbss" by blast
  have "\<forall>s \<in> set css. readable (seg_log s)"
    using css(4) by (auto simp: list_all2_conv_all_nth in_set_conv_nth cold_segment_def files_clean_def)
  then have "plog_readable (whole_log lg css)"
    using lc by (auto simp: plog_readable_def whole_log_def log_clean_def files_clean_def)
  moreover have "plog_inv cr (whole_log lg css) (cbss @ lbss)"
    using lc css chain_append [OF chain_length [OF css(1)]]
    by (simp add: plog_inv_def whole_log_def log_clean_def end_of_append)
  ultimately show ?thesis using css by (auto simp: cold_list_def)
qed

lemma upper_bound_left:
  assumes "ys \<noteq> []" "k < f (hd ys)"
  shows "upper_bound f (xs @ ys) k = upper_bound f xs k"
proof (cases "\<forall>x \<in> set xs. f x \<le> k")
  case True
  then have "takeWhile (\<lambda>x. f x \<le> k) (xs @ ys) = xs @ takeWhile (\<lambda>x. f x \<le> k) ys"
    and e: "takeWhile (\<lambda>x. f x \<le> k) xs = xs"
    by (simp_all add: takeWhile_append2)
  moreover have "takeWhile (\<lambda>x. f x \<le> k) ys = []" using assms by (cases ys) auto
  ultimately show ?thesis unfolding upper_bound_def e by simp
next
  case False
  then obtain x where "x \<in> set xs" "\<not> f x \<le> k" by blast
  then show ?thesis by (simp add: upper_bound_def takeWhile_append1)
qed

lemma upper_bound_right: "\<forall>x \<in> set xs. f x \<le> k \<Longrightarrow> upper_bound f (xs @ ys) k = length xs + upper_bound f ys k"
  by (simp add: upper_bound_def takeWhile_append2)

lemma upper_bound_map: "upper_bound (\<lambda>b. b) (map f xs) k = upper_bound f xs k"
  by (simp add: upper_bound_def takeWhile_map comp_def)

lemma read_local_hot:
  assumes "cold_list cr get lg css cbss" "\<forall>b \<in> set (tiered_bases lg). b \<le> cursor"
    and "first_local_base lg \<le> cursor" "segments (local_log lg) \<noteq> []"
  shows "read_local cr (whole_log lg css) cursor n = read_local cr (local_log lg) cursor n"
proof -
  let ?ss = "segments (local_log lg)"
  have "seg_base ` set css = set (tiered_bases lg)" using assms(1) by (metis cold_list_def set_map)
  then have "\<forall>s \<in> set css. seg_base s \<le> cursor" using assms(2) by auto
  then have u: "upper_bound seg_base (css @ ?ss) cursor = length css + upper_bound seg_base ?ss cursor" by (rule upper_bound_right)
  have "0 < upper_bound seg_base ?ss cursor" using assms(3,4) by (cases ?ss) (simp_all add: upper_bound_def first_local_base_def)
  then obtain j where "upper_bound seg_base ?ss cursor = Suc j" by (cases "upper_bound seg_base ?ss cursor") auto
  then show ?thesis by (simp add: read_local_def segment_for_def whole_log_def u Let_def nth_append)
qed

definition rehydrate_ok :: "(nat \<Rightarrow> rehydrate_env) \<Rightarrow> bool" where
  "rehydrate_ok renv \<longleftrightarrow> (\<forall>i d f. (tmp_log (renv i) d = Inr f \<or> tmp_index (renv i) d = Inr f) \<longrightarrow> content f = d \<and> readable f)"

definition rehydrate_calm :: "(nat \<Rightarrow> rehydrate_env) \<Rightarrow> bool" where
  "rehydrate_calm renv \<longleftrightarrow> (\<forall>i d. tmp_dir (renv i) = Inr () \<and> is_ok (tmp_log (renv i) d) \<and> is_ok (tmp_index (renv i) d))"


section \<open>Uploading and reading\<close>

context object_store
begin

abbreviation store_ops :: "'t tier_ops" where
  "store_ops \<equiv> \<lparr> op_put = put, op_fetch = fetch, op_remove = rem, op_list = bases \<rparr>"

lemma offload_step:
  assumes inv: "tiered_inv cr get lg cbss (bs # lbss)" and ok: "ok (tier lg)" and kf: "keys_fit valid lg"
    and ss: "segments (local_log lg) = s # s2 # ss"
    and p1: "put (tier lg) (tier_key lg (seg_base s) KindLog) (content (seg_log s)) = (t1, r1)"
    and p2: "put t1 (tier_key lg (seg_base s) KindIndex) (content (idx_file (seg_index s))) = (t2, r2)"
  shows "ok t1" "ok t2" "tiered_inv cr get (lg \<lparr> tier := t1 \<rparr>) cbss (bs # lbss)" "tiered_inv cr get (lg \<lparr> tier := t2 \<rparr>) cbss (bs # lbss)"
    and "r1 = Inr () \<Longrightarrow> r2 = Inr () \<Longrightarrow> tiered_inv cr get (lg \<lparr> tier := t2,
       local_log := (local_log lg) \<lparr> segments := s2 # ss, log_start_offset := seg_base s2 \<rparr>,
       tiered_bases := tiered_bases lg @ [seg_base s] \<rparr>) (cbss @ [bs]) lbss"
    and "healthy (tier lg) \<Longrightarrow> healthy t2 \<and> r1 = Inr () \<and> r2 = Inr ()"
proof -
  let ?pl = "local_log lg" and ?g = "\<lambda>t b kd. get t (tier_key lg b kd)" and ?k = "encryption_key (cfg (local_log lg))"
  have lc: "log_clean cr ?pl (bs # lbss)" and cc: "cold_chain cr ?k (?g (tier lg)) (start_offset lg) (tiered_bases lg) cbss (log_start_offset ?pl)"
    using inv by (simp_all add: tiered_inv_def)
  note d = log_clean_tl [OF lc ss] and hd = log_clean_hd [OF lc] and cb = cold_chain_bases [OF cc]
  have v: "valid (tier_key lg b kd)" if "b \<in> set (tiered_bases lg) \<or> b = seg_base s" for b kd
    using kf cb hd(3) d that unfolding keys_fit_def by (smt (verit))
  note l1 = put_law [OF ok v p1, simplified]
  have ok1: "ok t1" using l1 by simp
  note l2 = put_law [OF ok1 v p2, simplified]
  have old: "?g t1 b kd = ?g (tier lg) b kd" "?g t2 b kd = ?g (tier lg) b kd" if "b \<in> set (tiered_bases lg)" for b kd
  proof -
    have "b \<noteq> seg_base s" using cb that d by force
    then show "?g t1 b kd = ?g (tier lg) b kd" using l1 v that by simp
    then show "?g t2 b kd = ?g (tier lg) b kd" using l2 v that \<open>b \<noteq> seg_base s\<close> by simp
  qed
  have cc1: "cold_chain cr ?k (?g t1) (start_offset lg) (tiered_bases lg) cbss (log_start_offset ?pl)"
    and cc2: "cold_chain cr ?k (?g t2) (start_offset lg) (tiered_bases lg) cbss (log_start_offset ?pl)"
    by (rule cold_chain_cong [OF cc], rule old, assumption)+
  show "ok t1" "ok t2" using l1 l2 by simp_all
  show "tiered_inv cr get (lg \<lparr> tier := t1 \<rparr>) cbss (bs # lbss)" "tiered_inv cr get (lg \<lparr> tier := t2 \<rparr>) cbss (bs # lbss)"
    using lc cc1 cc2 by (simp_all add: tiered_inv_def)
  show "healthy (tier lg) \<Longrightarrow> healthy t2 \<and> r1 = Inr () \<and> r2 = Inr ()" using l1 l2 by simp
  assume "r1 = Inr ()" "r2 = Inr ()"
  then have "cold_segment cr ?k (?g t2) s bs"
    using l1 l2 v d by (simp add: cold_segment_def)
  from cold_chain_snoc [OF cc2 this] d
  show "tiered_inv cr get (lg \<lparr> tier := t2,
       local_log := ?pl \<lparr> segments := s2 # ss, log_start_offset := seg_base s2 \<rparr>,
       tiered_bases := tiered_bases lg @ [seg_base s] \<rparr>) (cbss @ [bs]) lbss"
    by (auto simp: tiered_inv_def)
qed

lemma offload_loop_inv:
  assumes "tiered_inv cr get lg cbss lbss" "ok (tier lg)" "keys_fit valid lg" "offload_loop store_ops lg n = (lg', r)"
  shows "\<exists>m < length lbss. tiered_inv cr get lg' (cbss @ take m lbss) (drop m lbss) \<and> ok (tier lg') \<and>
    start_offset lg' = start_offset lg \<and> log_end_offset (local_log lg') = log_end_offset (local_log lg) \<and>
    cfg (local_log lg') = cfg (local_log lg) \<and> active (local_log lg') = active (local_log lg) \<and> tier_key lg' = tier_key lg \<and>
    (case r of Inr k \<Rightarrow> m = length lbss - 1 \<and> k = n + m | Inl _ \<Rightarrow> True) \<and>
    (healthy (tier lg) \<longrightarrow> healthy (tier lg') \<and> r = Inr (n + (length lbss - 1)))"
  using assms
proof (induction "length (segments (local_log lg))" arbitrary: lg cbss lbss n rule: less_induct)
  case less
  have lc: "log_clean cr (local_log lg) lbss" using less.prems(1) by (simp add: tiered_inv_def)
  have len: "length lbss = length (segments (local_log lg))"
    using lc chain_length by (fastforce simp: log_clean_def plog_inv_def)
  note ne = log_clean_hd(1) [OF lc]
  show ?case
  proof (cases "\<exists>s s2 ss. segments (local_log lg) = s # s2 # ss")
    case False
    then have "length (segments (local_log lg)) = 1" using ne by (cases "segments (local_log lg)" rule: remdups_adj.cases) auto
    moreover have "lg' = lg" "r = Inr n" using less.prems(4) False ne
      by (subst (asm) offload_loop.simps, auto split: list.splits)+
    ultimately show ?thesis using less.prems len by (intro exI [of _ 0]) simp
  next
    case True
    then obtain s s2 ss where ss: "segments (local_log lg) = s # s2 # ss" by blast
    then obtain bs lbss' where lb: "lbss = bs # lbss'" using len by (cases lbss) auto
    obtain t1 r1 where p1: "put (tier lg) (tier_key lg (seg_base s) KindLog) (content (seg_log s)) = (t1, r1)" by fastforce
    obtain t2 r2 where p2: "put t1 (tier_key lg (seg_base s) KindIndex) (content (idx_file (seg_index s))) = (t2, r2)" by fastforce
    note st = offload_step [OF less.prems(1) [unfolded lb] less.prems(2,3) ss p1 p2]
    let ?lg = "lg \<lparr> tier := t2, local_log := (local_log lg) \<lparr> segments := s2 # ss, log_start_offset := seg_base s2 \<rparr>,
       tiered_bases := tiered_bases lg @ [seg_base s] \<rparr>"
    have step: "(lg', r) = (case r1 of Inl e \<Rightarrow> (lg \<lparr> tier := t1 \<rparr>, Inl e) | Inr _ \<Rightarrow>
        (case r2 of Inl e \<Rightarrow> (lg \<lparr> tier := t2 \<rparr>, Inl e) | Inr _ \<Rightarrow> offload_loop store_ops ?lg (n + 1)))"
      using less.prems(4) ss p1 p2 by (subst (asm) offload_loop.simps) (auto split: sum.splits)
    show ?thesis
    proof (cases "r1 = Inr () \<and> r2 = Inr ()")
      case False
      then have "\<exists>e. r = Inl e \<and> (lg' = lg \<lparr> tier := t1 \<rparr> \<or> lg' = lg \<lparr> tier := t2 \<rparr>)"
        using step by (auto split: sum.splits)
      then show ?thesis using st False lb by (intro exI [of _ 0]) auto
    next
      case True
      then have ol: "offload_loop store_ops ?lg (n + 1) = (lg', r)" using step by simp
      have kf: "keys_fit valid ?lg" using less.prems(3) by (simp add: keys_fit_def tier_key_def)
      have iv: "tiered_inv cr get ?lg (cbss @ [bs]) lbss'" using st(5) True by blast
      have shorter: "length (segments (local_log ?lg)) < length (segments (local_log lg))" using ss by simp
      have ok2: "ok (tier ?lg)" using st(2) by simp
      obtain m where m: "m < length lbss'" "tiered_inv cr get lg' ((cbss @ [bs]) @ take m lbss') (drop m lbss')"
        "ok (tier lg')" "start_offset lg' = start_offset ?lg" "log_end_offset (local_log lg') = log_end_offset (local_log ?lg)"
        "cfg (local_log lg') = cfg (local_log ?lg) \<and> active (local_log lg') = active (local_log ?lg) \<and> tier_key lg' = tier_key ?lg"
        "case r of Inr k \<Rightarrow> m = length lbss' - 1 \<and> k = n + 1 + m | Inl _ \<Rightarrow> True"
        "healthy (tier ?lg) \<longrightarrow> healthy (tier lg') \<and> r = Inr (n + 1 + (length lbss' - 1))"
        using less.hyps [OF shorter iv ok2 kf ol] by blast
      show ?thesis
        using m st(6) lb ss by (intro exI [of _ "Suc m"]) (auto split: sum.splits)
    qed
  qed
qed

lemma read_tiered_whole:
  assumes cl: "cold_list cr get lg css cbss" and inv: "plog_inv cr (whole_log lg css) (cbss @ lbss)"
    and ok: "ok (tier lg)" and kf: "keys_fit valid lg" and re: "rehydrate_ok renv"
    and cur: "start_offset lg \<le> cursor" "cursor < first_local_base lg" and ne: "segments (local_log lg) \<noteq> []" "tiered_bases lg \<noteq> []"
    and cl2: "cursor < log_end_offset (local_log lg)"
    and rd: "read_tiered store_ops cr renv lg cursor n = (lg', r)"
  shows "ok (tier lg') \<and> get (tier lg') = get (tier lg) \<and>
    (case r of Inr res \<Rightarrow> read_local cr (whole_log lg css) cursor n = Inr res | Inl _ \<Rightarrow> True) \<and>
    (healthy (tier lg) \<and> rehydrate_calm renv \<longrightarrow> healthy (tier lg') \<and> is_ok r)"
proof -
  let ?c = "cfg (local_log lg)" and ?g = "\<lambda>b kd. get (tier lg) (tier_key lg b kd)"
  let ?it = "upper_bound (\<lambda>b. b) (tiered_bases lg) cursor"
  have ch: "chain cr (start_offset lg) css cbss" and bs: "tiered_bases lg = map seg_base css"
    and l2: "list_all2 (cold_segment cr (encryption_key ?c) ?g) css cbss" using cl by (simp_all add: cold_list_def)
  have cne: "css \<noteq> []" using ne(2) bs by auto
  have it: "?it = upper_bound seg_base css cursor" unfolding bs by (rule upper_bound_map)
  have itw: "upper_bound seg_base (css @ segments (local_log lg)) cursor = ?it"
    unfolding it using ne(1) cur(2) by (intro upper_bound_left) (simp_all add: first_local_base_def)
  obtain bss1 b2 bss2 where n0: "0 < ?it" "?it \<le> length css"
    using ch cne cur(1) by (rule segment_for_split [OF _ _ _ it])
  let ?s = "css ! (?it - 1)" and ?bs = "cbss ! (?it - 1)"
  have i: "?it - 1 < length css" using n0 by arith
  have s: "cold_segment cr (encryption_key ?c) ?g ?s ?bs" using l2 i by (simp add: list_all2_conv_all_nth)
  have base: "tiered_bases lg ! (?it - 1) = seg_base ?s" using bs i by simp
  have rl: "read_local cr (whole_log lg css) cursor n = segment_read cr ?s cursor n"
    using itw n0 i by (simp add: read_local_def segment_for_def whole_log_def Let_def nth_append)
  have si: "seg_inv cr ?s ?bs" "files_clean cr (encryption_key ?c) ?s" using s by (simp_all add: cold_segment_def)
  have rs: "segment_read cr u cursor n = segment_read cr ?s cursor n" if "seg_inv cr u ?bs" "readable (seg_log u)" for u
    using that si segment_read_spec by (metis files_clean_def)
  have v: "valid (tier_key lg (seg_base ?s) kd)" for kd
  proof -
    have "seg_base ?s \<le> cursor"
      using upper_bound_below [of "?it - 1" seg_base css cursor] n0 it by simp
    moreover have "\<forall>bs \<in> set cbss. bs \<noteq> []"
      using l2 by (auto simp: list_all2_conv_all_nth in_set_conv_nth cold_segment_def)
    then have "start_offset lg \<le> seg_base ?s"
      using chain_sorted [OF ch] i by (meson in_set_butlastD nth_mem)
    ultimately show ?thesis using kf cl2 by (simp add: keys_fit_def)
  qed
  obtain t1 r1 where f1: "fetch (tier lg) (tier_key lg (seg_base ?s) KindLog) = (t1, r1)" by fastforce
  obtain t2 r2 where f2: "fetch t1 (tier_key lg (seg_base ?s) KindIndex) = (t2, r2)" by fastforce
  note l1 = fetch_law [OF ok v f1]
  have ok1: "ok t1" using l1 by simp
  note l2' = fetch_law [OF ok1 v f2]
  let ?env = "renv (rehydrate_seq lg)" and ?open = "\<lambda>lf xf. segment_open cr lf xf (seg_base ?s) (index_interval_bytes ?c) (encryption_key ?c)"
  have step: "(tier lg', r) = (case tmp_dir ?env of Inl _ \<Rightarrow> (tier lg, Inl IoError) | Inr _ \<Rightarrow>
      (case r1 of Inl e \<Rightarrow> (t1, Inl e) | Inr lf \<Rightarrow> (case r2 of Inl e \<Rightarrow> (t2, Inl e) | Inr xf \<Rightarrow>
        (t2, bindE (?open (tmp_log ?env lf) (tmp_index ?env xf)) (\<lambda>s. segment_read cr s cursor n)))))"
    using rd n0(1) f1 f2 unfolding read_tiered_def base Let_def by (auto split: sum.splits)
  have bad: "\<not> is_ok (?open a b)" if "\<not> is_ok a \<or> \<not> is_ok b" for a b
    using that by (auto simp: is_ok_iff segment_open_def index_open_def result_iffs)
  have good: "bindE (?open (Inr f) (Inr fi)) (\<lambda>s. segment_read cr s cursor n) = read_local cr (whole_log lg css) cursor n"
    if "r1 = Inr lf" "r2 = Inr xf" "tmp_log ?env lf = Inr f" "tmp_index ?env xf = Inr fi" for lf xf f fi
  proof -
    have "content f = content (seg_log ?s)" "content fi = content (idx_file (seg_index ?s))" "readable f" "readable fi"
      using that l1 l2' s re by (auto simp: cold_segment_def rehydrate_ok_def)
    from segment_open_clean [OF si this(3,1,4,2), of "index_interval_bytes ?c"] obtain s' where
      "?open (Inr f) (Inr fi) = Inr s'" "seg_inv cr s' ?bs" "seg_log s' = f" by blast
    with rs [of s'] rl \<open>readable f\<close> show ?thesis by simp
  qed
  have total: "is_ok (read_local cr (whole_log lg css) cursor n)"
    using rl si segment_read_spec [of cr ?s ?bs cursor n] by (simp add: files_clean_def)
  have tiers: "tier lg' \<in> {tier lg, t1, t2}" using step by (auto split: sum.splits)
  then have "ok (tier lg') \<and> get (tier lg') = get (tier lg)" using ok l1 l2' by auto
  moreover have "case r of Inr res \<Rightarrow> read_local cr (whole_log lg css) cursor n = Inr res | Inl _ \<Rightarrow> True"
  proof (cases "\<exists>lf xf f fi u. r1 = Inr lf \<and> r2 = Inr xf \<and> tmp_log ?env lf = Inr f \<and> tmp_index ?env xf = Inr fi \<and> tmp_dir ?env = Inr u")
    case True
    then obtain lf xf f fi u where t: "r1 = Inr lf" "r2 = Inr xf" "tmp_log ?env lf = Inr f" "tmp_index ?env xf = Inr fi" "tmp_dir ?env = Inr u"
      by blast
    then have "r = read_local cr (whole_log lg css) cursor n" using step good [OF t(1-4)] by simp
    then show ?thesis by (simp split: sum.splits)
  next
    case False
    then have "\<not> is_ok r" using step bad by (auto simp: is_ok_iff result_iffs split: sum.splits)
    then show ?thesis by (simp add: is_ok_def split: sum.splits)
  qed
  moreover have "healthy (tier lg') \<and> is_ok r" if h: "healthy (tier lg)" "rehydrate_calm renv"
  proof -
    obtain lf xf where t: "r1 = Inr lf" "r2 = Inr xf" using l1 l2' h(1) s by (auto simp: cold_segment_def)
    obtain f fi where "tmp_log ?env lf = Inr f" "tmp_index ?env xf = Inr fi" "tmp_dir ?env = Inr ()"
      using h(2) unfolding rehydrate_calm_def is_ok_iff by blast
    then show ?thesis using step good [OF t] t total l1 l2' h(1) by simp
  qed
  ultimately show ?thesis by blast
qed

lemma tiered_read_loop_whole:
  assumes "cold_list cr get lg css cbss" "plog_inv cr (whole_log lg css) (cbss @ lbss)" "plog_readable (whole_log lg css)"
    and "ok (tier lg)" "keys_fit valid lg" "rehydrate_ok renv" "start_offset lg \<le> cursor"
    and "segments (local_log lg) \<noteq> []" "\<forall>b \<in> set (tiered_bases lg). b < first_local_base lg"
    and "tiered_bases lg = [] \<longrightarrow> start_offset lg = first_local_base lg"
    and "tiered_read_loop store_ops cr renv n cursor res lg = (lg', r)"
  shows "ok (tier lg') \<and> get (tier lg') = get (tier lg) \<and> local_log lg' = local_log lg \<and>
    tiered_bases lg' = tiered_bases lg \<and> start_offset lg' = start_offset lg \<and> tier_key lg' = tier_key lg \<and>
    (case r of Inr out \<Rightarrow> plog_read_loop cr (whole_log lg css) n cursor res = Inr out | Inl _ \<Rightarrow> True) \<and>
    (healthy (tier lg) \<and> rehydrate_calm renv \<longrightarrow> is_ok r)"
  using assms
proof (induction "nat (log_end_offset (local_log lg) - cursor)" arbitrary: cursor res lg rule: less_induct)
  case less
  note p = less.prems
  let ?w = "whole_log lg css" and ?m = "n - length (batches res)"
  have e: "log_end_offset ?w = log_end_offset (local_log lg)" "log_start_offset ?w = start_offset lg"
    by (simp_all add: whole_log_def)
  show ?case
  proof (cases "cursor < log_end_offset (local_log lg) \<and> length (batches res) < n")
    case False
    then have "lg' = lg" "r = Inr res" using p(11) by (auto simp: tiered_read_loop.simps [of _ _ _ _ _ _ lg])
    moreover have "plog_read_loop cr ?w n cursor res = Inr res" using False e by (auto simp: plog_read_loop.simps [of _ ?w])
    ultimately show ?thesis using p by simp
  next
    case True
    let ?cold = "tiered_bases lg \<noteq> [] \<and> cursor < first_local_base lg"
    obtain lg1 r1 where f: "(if ?cold then read_tiered store_ops cr renv lg cursor ?m else (lg, read_local cr (local_log lg) cursor ?m)) = (lg1, r1)"
      by fastforce
    have frame: "local_log lg1 = local_log lg" "tiered_bases lg1 = tiered_bases lg" "start_offset lg1 = start_offset lg"
      "tier_topic lg1 = tier_topic lg" "tier_partition lg1 = tier_partition lg"
      using f read_tiered_frame [of store_ops cr renv lg cursor ?m lg1 r1] by (auto split: if_splits)
    from read_local_fragment [OF p(2,3), of cursor ?m] True p(7) e have rl: "is_ok (read_local cr ?w cursor ?m)"
      by (auto simp: is_ok_iff)
    have k1: "tier_key lg1 = tier_key lg" by (simp add: tier_key_def frame fun_eq_iff)
    have frag: "ok (tier lg1) \<and> get (tier lg1) = get (tier lg) \<and>
        (case r1 of Inr x \<Rightarrow> read_local cr ?w cursor ?m = Inr x | Inl _ \<Rightarrow> True) \<and>
        (healthy (tier lg) \<and> rehydrate_calm renv \<longrightarrow> healthy (tier lg1) \<and> is_ok r1)"
    proof (cases ?cold)
      case c: True
      then have "read_tiered store_ops cr renv lg cursor ?m = (lg1, r1)" using f by simp
      from read_tiered_whole [OF p(1,2,4,5,6,7) _ p(8) _ _ this] c True show ?thesis by blast
    next
      case c: False
      then have l: "lg1 = lg" "r1 = read_local cr (local_log lg) cursor ?m" using f by auto
      have "first_local_base lg \<le> cursor" using c p(7,10) by auto
      then have "r1 = read_local cr ?w cursor ?m"
        unfolding l using p(9) by (intro read_local_hot [OF p(1) _ _ p(8), symmetric]) auto
      with rl l(1) p(4) show ?thesis by (auto simp: is_ok_iff)
    qed
    show ?thesis
    proof (cases r1)
      case (Inl x)
      then have "lg' = lg1" "r = Inl x" using p(11) True f
        by (auto simp: tiered_read_loop.simps [of _ _ _ _ _ _ lg] Let_def)
      with frag Inl frame k1 show ?thesis by simp
    next
      case (Inr fr)
      then have rw: "read_local cr ?w cursor ?m = Inr fr" using frag by simp
      show ?thesis
      proof (cases "batches fr = []")
        case True
        then have "lg' = lg1" "r = Inr res" using p(11) \<open>cursor < _ \<and> _\<close> f Inr
          by (auto simp: tiered_read_loop.simps [of _ _ _ _ _ _ lg] Let_def)
        moreover have "plog_read_loop cr ?w n cursor res = Inr res" using True rw \<open>cursor < _ \<and> _\<close> e by (auto simp: plog_read_loop.simps [of _ ?w])
        ultimately show ?thesis using frag frame k1 by simp
      next
        case False
        let ?res = "\<lparr> batches = batches res @ batches fr, next_offset = next_offset fr \<rparr>"
        have go: "tiered_read_loop store_ops cr renv n (next_offset fr) ?res lg1 = (lg', r)"
          using p(11) True f Inr False by (auto simp: tiered_read_loop.simps [of _ _ _ _ _ _ lg] Let_def)
        have pr: "cursor < next_offset fr" using read_local_progress [OF rw False] .
        have w1: "whole_log lg1 css = ?w" by (simp add: whole_log_def frame)
        have fl: "first_local_base lg1 = first_local_base lg" by (simp add: first_local_base_def frame)
        have "nat (log_end_offset (local_log lg1) - next_offset fr) < nat (log_end_offset (local_log lg) - cursor)"
          using pr True frame by simp
        note ih = less.hyps [OF this _ _ _ _ _ p(6) _ _ _ _ go]
        have cl1: "cold_list cr get lg1 css cbss" using p(1) frag by (simp add: cold_list_def frame k1)
        have "ok (tier lg') \<and> get (tier lg') = get (tier lg1) \<and> local_log lg' = local_log lg1 \<and>
          tiered_bases lg' = tiered_bases lg1 \<and> start_offset lg' = start_offset lg1 \<and> tier_key lg' = tier_key lg1 \<and>
          (case r of Inr out \<Rightarrow> plog_read_loop cr ?w n (next_offset fr) ?res = Inr out | Inl _ \<Rightarrow> True) \<and>
          (healthy (tier lg1) \<and> rehydrate_calm renv \<longrightarrow> is_ok r)"
          using cl1 p frag pr by (intro ih [unfolded w1]) (simp_all add: w1 fl frame keys_fit_def k1)
        moreover have "plog_read_loop cr ?w n cursor res = plog_read_loop cr ?w n (next_offset fr) ?res"
          using plog_read_loop_step [OF _ _ rw False] True e by simp
        ultimately show ?thesis using frag frame(1-3) k1 by (cases r; simp) blast+
      qed
    qed
  qed
qed

lemma tiered_inv_start:
  assumes "tiered_inv cr get lg cbss lbss"
  shows "first_local_base lg = log_start_offset (local_log lg)" "segments (local_log lg) \<noteq> []"
    "\<forall>b \<in> set (tiered_bases lg). b < first_local_base lg" "recompute_log_start lg = lg"
    "tiered_bases lg = [] \<longrightarrow> start_offset lg = first_local_base lg"
proof -
  let ?pl = "local_log lg"
  have lc: "log_clean cr ?pl lbss" and cc: "cold_chain cr (encryption_key (cfg ?pl)) (\<lambda>b kd. get (tier lg) (tier_key lg b kd))
      (start_offset lg) (tiered_bases lg) cbss (log_start_offset ?pl)" using assms by (simp_all add: tiered_inv_def)
  show fl: "first_local_base lg = log_start_offset ?pl" and "segments ?pl \<noteq> []"
    using log_clean_hd [OF lc] by (simp_all add: first_local_base_def)
  show "\<forall>b \<in> set (tiered_bases lg). b < first_local_base lg" using cold_chain_bases [OF cc] fl by simp
  have "start_offset lg = (if tiered_bases lg = [] then first_local_base lg else hd (tiered_bases lg))"
    using cc fl by (cases "tiered_bases lg"; cases cbss) auto
  then show "recompute_log_start lg = lg" "tiered_bases lg = [] \<longrightarrow> start_offset lg = first_local_base lg"
    by (simp_all add: recompute_log_start_def split: if_splits)
qed

lemma offload_exact:
  assumes "tiered_inv cr get lg cbss lbss" "ok (tier lg)" "keys_fit valid lg" "offload_sealed_to_tier store_ops lg = (lg', r)"
  shows "\<exists>m < length lbss. tiered_inv cr get lg' (cbss @ take m lbss) (drop m lbss) \<and> ok (tier lg') \<and>
    start_offset lg' = start_offset lg \<and> log_end_offset (local_log lg') = log_end_offset (local_log lg) \<and>
    cfg (local_log lg') = cfg (local_log lg) \<and> active (local_log lg') = active (local_log lg) \<and> tier_key lg' = tier_key lg \<and>
    (case r of Inr k \<Rightarrow> m = length lbss - 1 \<and> k = m | Inl _ \<Rightarrow> True) \<and>
    (healthy (tier lg) \<longrightarrow> healthy (tier lg') \<and> r = Inr (length lbss - 1))"
proof -
  obtain lg1 r1 where ol: "offload_loop store_ops lg 0 = (lg1, r1)" by fastforce
  from offload_loop_inv [OF assms(1-3) ol, unfolded add_0] obtain m where m: "m < length lbss"
    "tiered_inv cr get lg1 (cbss @ take m lbss) (drop m lbss)" and rest: "ok (tier lg1) \<and>
    start_offset lg1 = start_offset lg \<and> log_end_offset (local_log lg1) = log_end_offset (local_log lg) \<and>
    cfg (local_log lg1) = cfg (local_log lg) \<and> active (local_log lg1) = active (local_log lg) \<and> tier_key lg1 = tier_key lg \<and>
    (case r1 of Inr k \<Rightarrow> m = length lbss - 1 \<and> k = m | Inl _ \<Rightarrow> True) \<and>
    (healthy (tier lg) \<longrightarrow> healthy (tier lg1) \<and> r1 = Inr (length lbss - 1))" by blast
  have "lg' = lg1" "r = r1"
    using assms(4) ol tiered_inv_start(4) [OF m(2)] by (auto simp: offload_sealed_to_tier_def split: sum.splits)
  then show ?thesis using m rest by (intro exI [of _ m]) simp
qed

lemma tiered_read_exact:
  assumes inv: "tiered_inv cr get lg cbss lbss" and "ok (tier lg)" "keys_fit valid lg" "rehydrate_ok renv"
    and rd: "tiered_read store_ops cr renv lg offset n = (lg', r)"
  defines "run \<equiv> take_until n (from_offset offset (concat (cbss @ lbss)))"
  defines "result \<equiv> (if offset < start_offset lg then Inl OutOfRange
      else Inr \<lparr> batches = encs run, next_offset = (if run = [] then offset else last_offset (fst (last run)) + 1) \<rparr>)"
  shows "(is_ok r \<or> offset < start_offset lg \<longrightarrow> r = result) \<and> (healthy (tier lg) \<and> rehydrate_calm renv \<longrightarrow> r = result) \<and>
    tiered_inv cr get lg' cbss lbss"
proof (cases "offset < start_offset lg")
  case True
  then show ?thesis using rd inv by (auto simp: tiered_read_def result_def)
next
  case False
  note st = tiered_inv_start [OF inv]
  obtain css where css: "cold_list cr get lg css cbss" "plog_inv cr (whole_log lg css) (cbss @ lbss)" "plog_readable (whole_log lg css)"
    using whole_log_inv [OF inv] by blast
  have lp: "tiered_read_loop store_ops cr renv n offset \<lparr> batches = [], next_offset = offset \<rparr> lg = (lg', r)"
    using rd False by (simp add: tiered_read_def)
  have "start_offset lg \<le> offset" using False by simp
  note l = tiered_read_loop_whole [OF css assms(2-4) this st(2,3,5) lp]
  have w: "plog_read_loop cr (whole_log lg css) n offset \<lparr> batches = [], next_offset = offset \<rparr> = result"
    using plog_read_loop_spec [OF css(2,3), of offset n "\<lparr> batches = [], next_offset = offset \<rparr>"] False
    by (simp add: whole_log_def result_def run_def Let_def)
  have "tiered_inv cr get lg' cbss lbss" using inv l by (simp add: tiered_inv_def)
  with l w False show ?thesis by (cases r) auto
qed

lemma tiered_append_exact:
  assumes inv: "tiered_inv cr get lg cbss lbss" and ok: "ok (tier lg)" and kf: "keys_fit valid lg" and env: "env_fresh env"
    and cu: "crypto_used (local_log lg) \<longrightarrow> crypto_ok cr" and wf: "wf_batch (rebase b (log_end_offset (local_log lg)))" "1 \<le> record_count (header b)"
    and sm: "plog_small (local_log lg)" and bo: "base_ok (log_end_offset (local_log lg))"
    and ap: "tiered_append store_ops cr env lg b = (lg', Inr l)"
  shows "\<exists>cbss' lbss'. tiered_inv cr get lg' cbss' lbss' \<and> ok (tier lg') \<and>
    l = log_end_offset (local_log lg) + record_count (header b) - 1 \<and>
    log_batches (cbss' @ lbss') = log_batches (cbss @ lbss) @ [rebase b (log_end_offset (local_log lg))]"
proof -
  let ?pl = "local_log lg"
  have lc: "log_clean cr ?pl lbss" using inv by (simp add: tiered_inv_def)
  show ?thesis
  proof (cases "\<not> is_empty (active ?pl) \<and> is_full (active ?pl) (segment_bytes (cfg ?pl))")
    case False
    then obtain pl' where "append_rolled cr env ?pl b = (pl', Inr l)" and lg': "lg' = lg \<lparr> local_log := pl' \<rparr>"
      using ap by (auto simp: tiered_append_def split: prod.splits)
    then have "plog_append cr env ?pl b = (pl', Inr l)" using False by (auto simp: plog_append_def)
    from plog_append_clean [OF lc env cu wf sm bo this] obtain lbss' where
      "log_clean cr pl' lbss'" "log_start_offset pl' = log_start_offset ?pl" "cfg pl' = cfg ?pl"
      "l = log_end_offset ?pl + record_count (header b) - 1" "log_batches lbss' = log_batches lbss @ [rebase b (log_end_offset ?pl)]" by blast
    then show ?thesis using inv ok by (intro exI [of _ cbss] exI [of _ lbss']) (simp add: tiered_inv_def lg')
  next
    case True
    then obtain pl1 lg2 where r1: "roll_segment cr env ?pl = (pl1, Inr ())"
      and lg2: "lg2 = fst (offload_sealed_to_tier store_ops (lg \<lparr> local_log := pl1 \<rparr>))"
      and ap2: "append_rolled cr env (local_log lg2) b = (local_log lg', Inr l)" and lg': "lg' = lg2 \<lparr> local_log := local_log lg' \<rparr>"
      using ap by (auto simp: tiered_append_def tiered_roll_def Let_def split: prod.splits sum.splits)
    have eo: "env_ok env" using env by (simp add: env_fresh_def)
    have pinv: "plog_inv cr ?pl lbss" using lc by (simp add: log_clean_def)
    from roll_segment_inv [OF pinv eo r1] obtain bss1 where b1: "plog_inv cr pl1 bss1" "log_batches bss1 = log_batches lbss"
      "log_end_offset pl1 = log_end_offset ?pl" "log_start_offset pl1 = log_start_offset ?pl" "cfg pl1 = cfg ?pl"
      "seg_small (active pl1) (last bss1)" "seg_cipher (active pl1) \<noteq> None \<longrightarrow> encryption_key (cfg ?pl) \<noteq> None" by auto
    have lc1: "log_clean cr pl1 bss1" using roll_segment_clean [OF lc r1 b1(1) env bo] True by blast
    let ?lg1 = "lg \<lparr> local_log := pl1 \<rparr>"
    have inv1: "tiered_inv cr get ?lg1 cbss bss1" using inv lc1 b1(4,5) by (simp add: tiered_inv_def)
    have kf1: "keys_fit valid ?lg1" using kf b1(3) by (simp add: keys_fit_def)
    obtain r2 where of: "offload_sealed_to_tier store_ops ?lg1 = (lg2, r2)" using lg2 by (metis surjective_pairing)
    from offload_exact [OF inv1 _ kf1 of] ok obtain m where m: "m < length bss1" "tiered_inv cr get lg2 (cbss @ take m bss1) (drop m bss1)"
      "ok (tier lg2)" "log_end_offset (local_log lg2) = log_end_offset ?pl" "cfg (local_log lg2) = cfg ?pl" "active (local_log lg2) = active pl1"
      using b1(3,5) by auto
    have lc2: "log_clean cr (local_log lg2) (drop m bss1)" using m(2) by (simp add: tiered_inv_def)
    then have pi2: "plog_inv cr (local_log lg2) (drop m bss1)" by (simp add: log_clean_def)
    have small2: "seg_small (active (local_log lg2)) (last (drop m bss1))" using b1(6) m by simp
    have nonce: "nonce_ok cr (active (local_log lg2)) (nonce_random env)"
      using b1(7) m(6) eo cu by (auto simp: nonce_ok_def env_ok_def crypto_used_def)
    have wf2: "wf_batch (rebase b (log_end_offset (local_log lg2)))" using wf(1) m(4) by simp
    from append_rolled_inv [OF pi2 wf2 wf(2) small2 nonce ap2] obtain bss3 where
      b3: "plog_inv cr (local_log lg') bss3" "log_start_offset (local_log lg') = log_start_offset (local_log lg2)"
      "cfg (local_log lg') = cfg (local_log lg2)" "l = log_end_offset ?pl + record_count (header b) - 1"
      "log_batches bss3 = log_batches (drop m bss1) @ [rebase b (log_end_offset ?pl)]" using m(4) by auto
    have lc3: "log_clean cr (local_log lg') bss3" by (rule append_rolled_clean [OF lc2 b3(1) ap2 wf2 wf(2) small2 nonce])
    have "tiered_inv cr get lg' (cbss @ take m bss1) bss3"
      using m(2) lc3 b3(2,3) by (subst lg') (simp add: tiered_inv_def)
    moreover have "ok (tier lg')" using m(3) by (subst lg') simp
    moreover have "log_batches ((cbss @ take m bss1) @ bss3) = log_batches (cbss @ lbss) @ [rebase b (log_end_offset ?pl)]"
      using b3(5) b1(2) by (simp del: concat_append map_append add: concat_append [symmetric] map_append [symmetric])
        (metis (no_types, lifting) append.assoc append_take_drop_id concat_append map_append)
    ultimately show ?thesis using b3(4) by blast
  qed
qed

end


section \<open>Three remarks on failures\<close>

text \<open>
  \<^verbatim>\<open>truncate_prefix_to\<close> returns at the first object it cannot remove, before the start of the log is
  recomputed.  The log then still claims offsets whose segments are gone, and a read there
  returns nothing and does not move forward.
\<close>

lemma drop_cold_start: "start_offset (fst (drop_cold ops offset bases lg)) = start_offset lg"
proof (induction ops offset bases lg rule: drop_cold.induct)
  case (2 ops offset base bases lg)
  have "start_offset (fst (remove_tiered ops lg base)) = start_offset lg"
    by (auto simp: remove_tiered_def split: prod.splits sum.splits)
  with 2 show ?case by (auto simp: Let_def split: prod.splits sum.splits)
qed simp

lemma stale_start_stuck:
  assumes "tiered_truncate_prefix_to ops lg offset = (lg', Inl e)" "tiered_bases lg' \<noteq> []"
    and "start_offset lg < hd (tiered_bases lg')" "hd (tiered_bases lg') \<le> first_local_base lg'"
    and "start_offset lg < log_end_offset (local_log lg')" "0 < n"
  shows "tiered_read ops cr renv lg' (start_offset lg) n = (lg', Inr \<lparr> batches = [], next_offset = start_offset lg \<rparr>)"
proof -
  have st: "start_offset lg' = start_offset lg"
    using assms(1) drop_cold_start [of ops offset "tiered_bases lg" lg]
    by (auto simp: tiered_truncate_prefix_to_def Let_def split: if_splits prod.splits sum.splits)
  have "upper_bound (\<lambda>b. b) (tiered_bases lg') (start_offset lg) = 0"
    using assms(2,3) by (cases "tiered_bases lg'") (auto simp: upper_bound_def)
  then have "read_tiered ops cr renv lg' (start_offset lg) n = (lg', Inr \<lparr> batches = [], next_offset = 0 \<rparr>)"
    by (simp add: read_tiered_def)
  then show ?thesis
    using assms by (simp add: tiered_read_def st tiered_read_loop.simps [of _ _ _ _ _ _ lg'] Let_def)
qed

text \<open>
  Opening an empty directory creates the first segment before the tier is listed, so the test that
  is to ignore the tier in that case never holds: the log is empty but has a cold prefix.
\<close>

lemma open_empty_lists_tier:
  assumes "create_segment cr c env 0 = Inr s" "seg_base s = 0" "op_list ops t topic p = (t', Inr [0, 100])"
  shows "\<exists>lg. tiered_open ops cr c env [] t topic p = (t', Inr lg) \<and> tiered_bases lg = [100] \<and>
    log_end_offset (local_log lg) = 0 \<and> start_offset lg = 0"
  using assms by (simp add: tiered_open_def plog_open_def list_cold_prefix_def)


section \<open>Properties\<close>

definition local_ops :: "LocalStorageTier tier_ops" where
  "local_ops = \<lparr> op_put = (\<lambda>t k data. put_file t k (Some data)), op_fetch = fetch_object,
     op_remove = remove_object, op_list = list_segment_bases \<rparr>"

definition tier_names_ok :: "'t TieredLog \<Rightarrow> bool" where
  "tier_names_ok lg \<longleftrightarrow> tier_topic lg \<noteq> [] \<and> slash \<notin> set (tier_topic lg) \<and> 0 \<le> tier_partition lg \<and>
     tier_partition lg < 2 ^ 31 \<and> 0 \<le> start_offset lg \<and> log_end_offset (local_log lg) < 2 ^ 63"

lemma names_keys_fit: "tier_names_ok lg \<Longrightarrow> keys_fit store_key lg"
  by (auto simp: tier_names_ok_def keys_fit_def store_key_def key_ok_def tier_key_def)

text \<open>
  C13: The storage tier is invisible.  After the sealed segments of a log are uploaded and their local
  files removed, whichever file operation fails on the way, the log holds the same batches; a
  read returns exactly the run of batches it would return from local files, or an error of the
  tier; and without failures every sealed segment is moved and the read succeeds.
\<close>

theorem tier_invisible:
  assumes "tiered_inv cr tier_get lg cbss lbss" "tier_ok (tier lg)" "tier_names_ok lg" "rehydrate_ok renv"
    and "offload_sealed_to_tier local_ops lg = (lg1, moved)"
    and "tiered_read local_ops cr renv lg1 offset max_bytes = (lg2, r)"
  shows "let run = take_until max_bytes (dropWhile (\<lambda>(b, x). last_offset b < offset) (concat (cbss @ lbss)));
      result = (if offset < start_offset lg then Inl OutOfRange
        else Inr \<lparr> batches = concat (map (\<lambda>bx. encode (fst bx)) run),
                   next_offset = (if run = [] then offset else last_offset (fst (last run)) + 1) \<rparr>)
    in (\<exists>m. tiered_inv cr tier_get lg2 (cbss @ take m lbss) (drop m lbss)) \<and> (is_ok r \<longrightarrow> r = result) \<and>
      (fs_sched (tier lg) = [] \<and> rehydrate_calm renv \<longrightarrow> moved = Inr (length lbss - 1) \<and> r = result)"
proof -
  have kf: "keys_fit store_key lg" using assms(3) by (rule names_keys_fit)
  from local_tier.offload_exact [OF assms(1,2) kf, folded local_ops_def, OF assms(5)] obtain m where
    m: "tiered_inv cr tier_get lg1 (cbss @ take m lbss) (drop m lbss)" "tier_ok (tier lg1)" "start_offset lg1 = start_offset lg"
      "log_end_offset (local_log lg1) = log_end_offset (local_log lg)" "tier_key lg1 = tier_key lg"
      "tier_healthy (tier lg) \<longrightarrow> tier_healthy (tier lg1) \<and> moved = Inr (length lbss - 1)" by blast
  have kf1: "keys_fit store_key lg1" using kf m(3-5) by (simp add: keys_fit_def)
  have c: "concat ((cbss @ take m lbss) @ drop m lbss) = concat (cbss @ lbss)" by (simp flip: concat_append)
  note rd = local_tier.tiered_read_exact [OF m(1,2) kf1 assms(4), folded local_ops_def, OF assms(6), unfolded c m(3)]
  show ?thesis unfolding Let_def using rd m(6) by (auto simp: tier_healthy_def)
qed

text \<open>A log of two segments with one batch each, no object in the tier, and no failures.\<close>

definition sealed_segment :: Segment where
  "sealed_segment = sample_segment \<lparr> seg_log := empty_file \<lparr> content := encode sample_batch \<rparr>, seg_state := Closed \<rparr>"

definition two_tier_log :: "LocalStorageTier TieredLog" where
  "two_tier_log = \<lparr> local_log = sample_log \<lparr> segments := [sealed_segment, tail_segment] \<rparr>,
     tier = \<lparr> object_dir = \<lparr> files = [], subdirs = [] \<rparr>, temp_seq = 0, fs_sched = [] \<rparr>,
     tiered_bases = [], start_offset = 7, tier_topic = ascii ''t'', tier_partition = 0, rehydrate_seq = 0 \<rparr>"

definition calm_rehydration :: "nat \<Rightarrow> rehydrate_env" where
  "calm_rehydration i = \<lparr> tmp_dir = Inr (), tmp_log = (\<lambda>d. Inr (empty_file \<lparr> content := d \<rparr>)),
     tmp_index = (\<lambda>d. Inr (empty_file \<lparr> content := d \<rparr>)) \<rparr>"

lemma two_tier_inv: "tiered_inv no_crypto tier_get two_tier_log [] sample_blocks"
proof -
  have l: "length (encode sample_batch) = 39" "length (encode next_batch) = 37"
    by (simp_all add: encoded_size_def sample_batch_def next_batch_def)
  have o: "base_offset (header sample_batch) = 7" "record_count (header sample_batch) = 2" "record_count (header next_batch) = 1"
    by (simp_all add: sample_batch_def next_batch_def default_header_def)
  have m: "load_le_i64 kEncSegmentMagic \<noteq> 7" "load_le_i64 kEncSegmentMagic \<noteq> 9" by code_simp+
  have s: "seg_inv no_crypto sealed_segment [(sample_batch, encode sample_batch)]"
    using sample_wf(1) l o
    by (simp add: seg_inv_def log_holds_def index_covers_def index_ok_def index_anchors_def sealed_segment_def
        sample_segment_def empty_file_def is_blk_def plain_block_def)
  have c: "files_clean no_crypto None sealed_segment" "files_clean no_crypto None tail_segment" "\<not> is_empty sealed_segment"
    using l m by (simp_all add: files_clean_def sealed_segment_def sample_segment_def tail_segment_def empty_file_def
        index_clean_def seg_header_ok_def readable_def is_empty_def)
  have b: "seg_base sealed_segment = 7" "seg_base tail_segment = 9"
    by (simp_all add: sealed_segment_def sample_segment_def tail_segment_def)
  show ?thesis
    using s c b tail_segment_inv o by (simp add: tiered_inv_def two_tier_log_def log_clean_def plog_inv_def sample_log_def)
qed

theorem tier_invisible_witness:
  "\<exists>lg1 lg2. offload_sealed_to_tier local_ops two_tier_log = (lg1, Inr 1) \<and>
     tiered_read local_ops no_crypto calm_rehydration lg1 7 100 =
       (lg2, Inr \<lparr> batches = encode sample_batch @ encode next_batch, next_offset = 10 \<rparr>)"
proof -
  have l: "length (encode sample_batch) = 39" "length (encode next_batch) = 37"
    by (simp_all add: encoded_size_def sample_batch_def next_batch_def)
  have o: "last_offset sample_batch = 8" "last_offset next_batch = 9"
    by (simp_all add: sample_batch_def next_batch_def default_header_def last_offset_def)
  obtain lg1 moved where of: "offload_sealed_to_tier local_ops two_tier_log = (lg1, moved)" by fastforce
  obtain lg2 r where rd: "tiered_read local_ops no_crypto calm_rehydration lg1 7 100 = (lg2, r)" by fastforce
  have "tier_ok (tier two_tier_log)" "tier_names_ok two_tier_log" "rehydrate_ok calm_rehydration"
    "fs_sched (tier two_tier_log) = []" "rehydrate_calm calm_rehydration" "start_offset two_tier_log = 7"
    by (auto simp: two_tier_log_def tier_ok_def tier_names_ok_def sample_log_def rehydrate_ok_def rehydrate_calm_def
        calm_rehydration_def empty_file_def readable_def of_char_def)
  note facts = this
  have run: "take_until 100 (dropWhile (\<lambda>(b, x). last_offset b < 7) (concat ([] @ sample_blocks))) = concat sample_blocks"
    using l o by simp
  note t = tier_invisible [OF two_tier_inv facts(1-3) of rd, unfolded Let_def run facts(6)]
  have "moved = Inr (length sample_blocks - 1)" and r: "r = (if (7::int) < 7 then Inl OutOfRange
     else Inr \<lparr> batches = encs (concat sample_blocks),
            next_offset = if concat sample_blocks = [] then 7 else last_offset (fst (last (concat sample_blocks))) + 1 \<rparr>)"
    using t facts(4,5) by blast+
  then have "moved = Inr 1" "r = Inr \<lparr> batches = encode sample_batch @ encode next_batch, next_offset = 10 \<rparr>"
    using o by simp_all
  with of rd show ?thesis by blast
qed

end
