(* ===== verification/Json.thy ===== *)
theory Json
  imports Strings
begin

text \<open>
  The JSON writer (\<^verbatim>\<open>ingress/json.cpp\<close>) and reader (\<^verbatim>\<open>ingress/json_value.cpp\<close>).  The reader works on the
  rest of the text instead of a position; the position is used for the text of errors only.  A
  number is kept as its token, of which the program stores the nearest \<^verbatim>\<open>double\<close>.

  The nesting of values is bounded by the depth argument, over which \<open>parse_value\<close> is defined;
  the loops over members and items may make one round more than the text has bytes, and \<open>items_loop_enough\<close> and
  \<open>members_loop_enough\<close> show that a greater bound changes nothing.

  The lemmas show that the reader returns the value whose calls were made on the writer, for
  strings of arbitrary bytes, and that on every input it fails with \<open>InvalidArgument\<close> or returns a
  value of bounded nesting.
\<close>

section \<open>Values\<close>

datatype JsonValue =
    JNull
  | JBool bool
  | JNumber bytes
  | JString bytes
  | JArray "JsonValue list"
  | JObject "(bytes \<times> JsonValue) list"

definition json_find :: "JsonValue \<Rightarrow> bytes \<Rightarrow> JsonValue option" where
  "json_find v key = (case v of JObject ms \<Rightarrow> map_of ms key | _ \<Rightarrow> None)"

definition kJsonMaxDepth :: nat where "kJsonMaxDepth = 64"


section \<open>Writer\<close>

record JsonWriter =
  out :: bytes
  first :: "bool list"  \<comment> \<open>the innermost open container at the front\<close>
  expecting_value :: bool

definition new_writer :: JsonWriter where
  "new_writer = \<lparr> out = [], first = [], expecting_value = False \<rparr>"

definition hex_char :: "nat \<Rightarrow> byte" where
  "hex_char d = (if d < 10 then of_nat (48 + d) else of_nat (87 + d))"

definition escape_char :: "byte \<Rightarrow> bytes" where
  "escape_char c =
     (if c = 0x22 then [0x5C, 0x22]
      else if c = 0x5C then [0x5C, 0x5C]
      else if c = 0x0A then [0x5C, 0x6E]
      else if c = 0x0D then [0x5C, 0x72]
      else if c = 0x09 then [0x5C, 0x74]
      else if c < 0x20 then [0x5C, 0x75, 0x30, 0x30, hex_char (unat c div 16), hex_char (unat c mod 16)]
      else [c])"

definition escaped :: "bytes \<Rightarrow> bytes" where
  "escaped text = [0x22] @ concat (map escape_char text) @ [0x22]"

definition before_key :: "JsonWriter \<Rightarrow> JsonWriter" where
  "before_key w =
     (case first w of
        [] \<Rightarrow> w
      | f # fs \<Rightarrow> w \<lparr> out := (if f then out w else out w @ [0x2C]), first := False # fs \<rparr>)"

definition before_value :: "JsonWriter \<Rightarrow> JsonWriter" where
  "before_value w = (if expecting_value w then w \<lparr> expecting_value := False \<rparr> else before_key w)"

definition emit_text :: "bytes \<Rightarrow> JsonWriter \<Rightarrow> JsonWriter" where
  "emit_text s w = w \<lparr> out := out w @ s \<rparr>"

definition begin_object :: "JsonWriter \<Rightarrow> JsonWriter" where
  "begin_object w = (let w = emit_text [0x7B] (before_value w) in w \<lparr> first := True # first w \<rparr>)"

definition end_object :: "JsonWriter \<Rightarrow> JsonWriter" where
  "end_object w = (let w = emit_text [0x7D] w in w \<lparr> first := tl (first w) \<rparr>)"

definition begin_array :: "JsonWriter \<Rightarrow> JsonWriter" where
  "begin_array w = (let w = emit_text [0x5B] (before_value w) in w \<lparr> first := True # first w \<rparr>)"

definition end_array :: "JsonWriter \<Rightarrow> JsonWriter" where
  "end_array w = (let w = emit_text [0x5D] w in w \<lparr> first := tl (first w) \<rparr>)"

definition write_key :: "bytes \<Rightarrow> JsonWriter \<Rightarrow> JsonWriter" where
  "write_key name w = (emit_text (escaped name @ [0x3A]) (before_key w)) \<lparr> expecting_value := True \<rparr>"

definition value_string :: "bytes \<Rightarrow> JsonWriter \<Rightarrow> JsonWriter" where
  "value_string text w = emit_text (escaped text) (before_value w)"

definition value_int :: "int \<Rightarrow> JsonWriter \<Rightarrow> JsonWriter" where
  "value_int number w = emit_text (to_string_int number) (before_value w)"

definition value_bool :: "bool \<Rightarrow> JsonWriter \<Rightarrow> JsonWriter" where
  "value_bool flag w = emit_text (if flag then ascii ''true'' else ascii ''false'') (before_value w)"

definition null_value :: "JsonWriter \<Rightarrow> JsonWriter" where
  "null_value w = emit_text (ascii ''null'') (before_value w)"


section \<open>Reader\<close>

type_synonym 'a json_parser = "bytes \<Rightarrow> ('a \<times> bytes) expected"

abbreviation json_fail :: "'a expected" where "json_fail \<equiv> Inl InvalidArgument"

definition is_ws :: "byte \<Rightarrow> bool" where
  "is_ws c \<longleftrightarrow> c = 0x20 \<or> c = 0x09 \<or> c = 0x0A \<or> c = 0x0D"

definition skip_ws :: "bytes \<Rightarrow> bytes" where
  "skip_ws s = dropWhile is_ws s"

definition starts_with :: "bytes \<Rightarrow> bytes \<Rightarrow> bool" where
  "starts_with s p \<longleftrightarrow> take (length p) s = p"

definition parse_bool :: "JsonValue json_parser" where
  "parse_bool s =
     (if starts_with s (ascii ''true'') then Inr (JBool True, drop 4 s)
      else if starts_with s (ascii ''false'') then Inr (JBool False, drop 5 s)
      else json_fail)"

definition parse_null :: "JsonValue json_parser" where
  "parse_null s = (if starts_with s (ascii ''null'') then Inr (JNull, drop 4 s) else json_fail)"

definition consume_integer_part :: "bytes \<Rightarrow> bytes option" where
  "consume_integer_part s =
     (case s of
        [] \<Rightarrow> None
      | c # r \<Rightarrow> if \<not> is_digit c then None else if c = 0x30 then Some r else Some (dropWhile is_digit s))"

definition consume_fraction :: "bytes \<Rightarrow> bytes" where
  "consume_fraction s = (case s of [] \<Rightarrow> s | c # r \<Rightarrow> if c = 0x2E then dropWhile is_digit r else s)"

definition consume_exponent :: "bytes \<Rightarrow> bytes option" where
  "consume_exponent s =
     (case s of
        [] \<Rightarrow> Some s
      | c # r \<Rightarrow>
          if c \<noteq> 0x65 \<and> c \<noteq> 0x45 then Some s
          else let r = (case r of [] \<Rightarrow> r | d # r' \<Rightarrow> if d = 0x2B \<or> d = 0x2D then r' else r) in
               (case r of [] \<Rightarrow> None | d # _ \<Rightarrow> if is_digit d then Some (dropWhile is_digit r) else None))"

definition parse_number :: "JsonValue json_parser" where
  "parse_number s =
     (let r = (if s \<noteq> [] \<and> hd s = 0x2D then tl s else s) in
      case consume_integer_part r of
        None \<Rightarrow> json_fail
      | Some r \<Rightarrow>
          (case consume_exponent (consume_fraction r) of
             None \<Rightarrow> json_fail
           | Some r \<Rightarrow> Inr (JNumber (take (length s - length r) s), r)))"

definition hex_digit :: "byte \<Rightarrow> 32 word option" where
  "hex_digit c =
     (if 0x30 \<le> c \<and> c \<le> 0x39 then Some (ucast (c - 0x30))
      else if 0x61 \<le> c \<and> c \<le> 0x66 then Some (ucast (c - 0x61 + 10))
      else if 0x41 \<le> c \<and> c \<le> 0x46 then Some (ucast (c - 0x41 + 10))
      else None)"

fun hex_loop :: "nat \<Rightarrow> bytes \<Rightarrow> 32 word \<Rightarrow> (32 word \<times> bytes) option" where
  "hex_loop 0 s acc = Some (acc, s)"
| "hex_loop (Suc n) [] acc = None"
| "hex_loop (Suc n) (c # s) acc =
     (case hex_digit c of None \<Rightarrow> None | Some d \<Rightarrow> hex_loop n s (push_bit 4 acc OR d))"

definition read_hex4 :: "bytes \<Rightarrow> (32 word \<times> bytes) option" where
  "read_hex4 s = (if length s < 4 then None else hex_loop 4 s 0)"

definition utf8 :: "32 word \<Rightarrow> bytes" where
  "utf8 cp =
     (if cp \<le> 0x7F then [ucast cp]
      else if cp \<le> 0x7FF then [ucast (0xC0 OR drop_bit 6 cp), ucast (0x80 OR (cp AND 0x3F))]
      else if cp \<le> 0xFFFF then
        [ucast (0xE0 OR drop_bit 12 cp), ucast (0x80 OR (drop_bit 6 cp AND 0x3F)), ucast (0x80 OR (cp AND 0x3F))]
      else
        [ucast (0xF0 OR drop_bit 18 cp), ucast (0x80 OR (drop_bit 12 cp AND 0x3F)),
         ucast (0x80 OR (drop_bit 6 cp AND 0x3F)), ucast (0x80 OR (cp AND 0x3F))])"

definition unicode_escape :: "bytes \<Rightarrow> (bytes \<times> bytes) option" where
  "unicode_escape s =
     (case read_hex4 s of
        None \<Rightarrow> None
      | Some (cp, s) \<Rightarrow>
          if 0xD800 \<le> cp \<and> cp \<le> 0xDBFF then
            if \<not> starts_with s [0x5C, 0x75] then None
            else (case read_hex4 (drop 2 s) of
                None \<Rightarrow> None
              | Some (lo, s) \<Rightarrow>
                  if lo < 0xDC00 \<or> lo > 0xDFFF then None
                  else Some (utf8 (0x10000 + push_bit 10 (cp - 0xD800) + (lo - 0xDC00)), s))
          else Some (utf8 cp, s))"

text \<open>An escape, from the character after the backslash: what it stands for and the rest.\<close>

definition json_escape :: "bytes \<Rightarrow> (bytes \<times> bytes) option" where
  "json_escape s =
     (case s of
        [] \<Rightarrow> None
      | c # r \<Rightarrow>
          if c = 0x22 then Some ([0x22], r)
          else if c = 0x5C then Some ([0x5C], r)
          else if c = 0x2F then Some ([0x2F], r)
          else if c = 0x62 then Some ([0x08], r)
          else if c = 0x66 then Some ([0x0C], r)
          else if c = 0x6E then Some ([0x0A], r)
          else if c = 0x72 then Some ([0x0D], r)
          else if c = 0x74 then Some ([0x09], r)
          else if c = 0x75 then unicode_escape r
          else None)"

lemma hex_loop_length: "hex_loop n s acc = Some (v, r) \<Longrightarrow> length s = length r + n"
  by (induction n s acc rule: hex_loop.induct) (auto split: option.splits)

lemma unicode_escape_length: "unicode_escape s = Some (x, r) \<Longrightarrow> length r < length s"
  by (auto simp: unicode_escape_def read_hex4_def split: option.splits if_splits dest!: hex_loop_length)

lemma json_escape_length: "json_escape s = Some (x, r) \<Longrightarrow> length r < length s"
  by (auto simp: json_escape_def split: list.splits if_splits dest!: unicode_escape_length)

text \<open>A string, from the character after the opening quote.\<close>

function string_loop :: "bytes \<Rightarrow> bytes \<Rightarrow> (bytes \<times> bytes) expected" where
  "string_loop [] acc = json_fail"
| "string_loop (c # s) acc =
     (if c = 0x22 then Inr (acc, s)
      else if c = 0x5C then
        (case json_escape s of None \<Rightarrow> json_fail | Some (x, r) \<Rightarrow> string_loop r (acc @ x))
      else string_loop s (acc @ [c]))"
  by pat_completeness auto
termination
  by (relation "measure (\<lambda>(s, acc). length s)") (auto dest: json_escape_length)

definition parse_string_raw :: "bytes json_parser" where
  "parse_string_raw s = string_loop (tl s) []"

definition parse_string_value :: "JsonValue json_parser" where
  "parse_string_value s = bindE (parse_string_raw s) (\<lambda>(t, r). Inr (JString t, r))"

text \<open>
  The loops over the items of an array and the members of an object, where \<open>p\<close> reads a value one
  level deeper.
\<close>

fun items_loop :: "JsonValue json_parser \<Rightarrow> nat \<Rightarrow> bytes \<Rightarrow> JsonValue list \<Rightarrow> (JsonValue \<times> bytes) expected" where
  "items_loop p 0 s items = json_fail"
| "items_loop p (Suc n) s items =
     bindE (p (skip_ws s)) (\<lambda>(v, s).
       let items = items @ [v]; s = skip_ws s in
       case s of
         [] \<Rightarrow> json_fail
       | c # r \<Rightarrow>
           if c = 0x2C then items_loop p n r items
           else if c = 0x5D then Inr (JArray items, r)
           else json_fail)"

definition parse_array :: "JsonValue json_parser \<Rightarrow> JsonValue json_parser" where
  "parse_array p s =
     (let s = skip_ws (tl s) in
      if s \<noteq> [] \<and> hd s = 0x5D then Inr (JArray [], tl s) else items_loop p (Suc (length s)) s [])"

fun members_loop ::
  "JsonValue json_parser \<Rightarrow> nat \<Rightarrow> bytes \<Rightarrow> (bytes \<times> JsonValue) list \<Rightarrow> (JsonValue \<times> bytes) expected" where
  "members_loop p 0 s members = json_fail"
| "members_loop p (Suc n) s members =
     (let s = skip_ws s in
      if s = [] \<or> hd s \<noteq> 0x22 then json_fail
      else bindE (parse_string_raw s) (\<lambda>(key, s).
        let s = skip_ws s in
        if s = [] \<or> hd s \<noteq> 0x3A then json_fail
        else bindE (p (skip_ws (tl s))) (\<lambda>(v, s).
          let members = members @ [(key, v)]; s = skip_ws s in
          case s of
            [] \<Rightarrow> json_fail
          | c # r \<Rightarrow>
              if c = 0x2C then members_loop p n r members
              else if c = 0x7D then Inr (JObject members, r)
              else json_fail)))"

definition parse_object :: "JsonValue json_parser \<Rightarrow> JsonValue json_parser" where
  "parse_object p s =
     (let s = skip_ws (tl s) in
      if s \<noteq> [] \<and> hd s = 0x7D then Inr (JObject [], tl s) else members_loop p (Suc (length s)) s [])"

function parse_value :: "nat \<Rightarrow> JsonValue json_parser" where
  "parse_value depth s =
     (if depth > kJsonMaxDepth then json_fail
      else case s of
        [] \<Rightarrow> json_fail
      | c # _ \<Rightarrow>
          if c = 0x7B then parse_object (\<lambda>s. parse_value (depth + 1) s) s
          else if c = 0x5B then parse_array (\<lambda>s. parse_value (depth + 1) s) s
          else if c = 0x22 then parse_string_value s
          else if c = 0x74 \<or> c = 0x66 then parse_bool s
          else if c = 0x6E then parse_null s
          else parse_number s)"
  by pat_completeness auto
termination
  by (relation "measure (\<lambda>(depth, s). kJsonMaxDepth + 1 - depth)") auto

declare parse_value.simps [simp del]

definition parse_json :: "bytes \<Rightarrow> JsonValue expected" where
  "parse_json text =
     bindE (parse_value 0 (skip_ws text)) (\<lambda>(v, s). if skip_ws s \<noteq> [] then json_fail else Inr v)"


section \<open>The bounds of the loops\<close>

text \<open>Every reader consumes at least one byte, so a loop makes fewer rounds than there are bytes.\<close>

definition shortens :: "'a json_parser \<Rightarrow> bool" where
  "shortens p \<longleftrightarrow> (\<forall>s x r. p s = Inr (x, r) \<longrightarrow> length r < length s)"

lemma shortensD: "shortens p \<Longrightarrow> p s = Inr (x, r) \<Longrightarrow> length r < length s"
  by (auto simp: shortens_def)

lemma skip_ws_length: "length (skip_ws s) \<le> length s"
  by (simp add: skip_ws_def length_dropWhile_le)

lemma string_loop_length: "string_loop s acc = Inr (t, r) \<Longrightarrow> length r < length s"
proof (induction s acc rule: string_loop.induct)
  case (2 c s acc)
  then show ?case by (fastforce split: if_splits option.splits dest: json_escape_length)
qed simp

lemma parse_string_raw_length: "parse_string_raw s = Inr (t, r) \<Longrightarrow> length r < length s"
  by (auto simp: parse_string_raw_def dest!: string_loop_length)

lemma skip_ws_Cons_length: "skip_ws s = c # r \<Longrightarrow> length r < length s"
  using skip_ws_length [of s] by simp

lemma items_loop_length: "shortens p \<Longrightarrow> items_loop p n s items = Inr (v, r) \<Longrightarrow> length r < length s"
proof (induction n arbitrary: s items)
  case (Suc n)
  from Suc.prems(2) obtain x t c u where *: "p (skip_ws s) = Inr (x, t)" "skip_ws t = c # u"
    "items_loop p n u (items @ [x]) = Inr (v, r) \<or> r = u"
    by (auto simp: bindE_def Let_def split: sum.splits list.splits if_splits)
  have "length u < length s"
    using shortensD [OF Suc.prems(1) *(1)] skip_ws_Cons_length [OF *(2)] skip_ws_length [of s] by linarith
  then show ?case using * Suc.IH [OF Suc.prems(1), of u "items @ [x]"] by auto
qed simp

lemma items_loop_enough:
  "shortens p \<Longrightarrow> length s < n \<Longrightarrow> length s < m \<Longrightarrow> items_loop p n s items = items_loop p m s items"
proof (induction n arbitrary: m s items)
  case (Suc n)
  then obtain m' where m: "m = Suc m'" by (cases m) auto
  show ?case
  proof (cases "p (skip_ws s)")
    case (Inr y)
    obtain x t where y: "y = (x, t)" by (cases y)
    have "items_loop p n u is = items_loop p m' u is" if "skip_ws t = c # u" for c u "is"
      using Suc.prems shortensD [OF Suc.prems(1) Inr [unfolded y]] skip_ws_Cons_length [OF that] skip_ws_length [of s] m
      by (intro Suc.IH [OF Suc.prems(1)]; linarith)
    then show ?thesis by (auto simp: m Inr y Let_def split: list.split)
  qed (simp add: m)
qed simp

lemma members_loop_length: "shortens p \<Longrightarrow> members_loop p n s members = Inr (v, r) \<Longrightarrow> length r < length s"
proof (induction n arbitrary: s members)
  case (Suc n)
  from Suc.prems(2) obtain k s1 s2 x t c u where *: "parse_string_raw (skip_ws s) = Inr (k, s1)"
    "skip_ws s1 = 0x3A # s2" "p (skip_ws s2) = Inr (x, t)" "skip_ws t = c # u"
    "members_loop p n u (members @ [(k, x)]) = Inr (v, r) \<or> r = u"
    by (auto simp: bindE_def Let_def neq_Nil_conv split: sum.splits list.splits if_splits)
  have "length u < length s"
    using shortensD [OF Suc.prems(1) *(3)] skip_ws_Cons_length [OF *(4)] skip_ws_length [of s2]
      skip_ws_Cons_length [OF *(2)] parse_string_raw_length [OF *(1)] skip_ws_length [of s] by linarith
  then show ?case using * Suc.IH [OF Suc.prems(1), of u "members @ [(k, x)]"] by auto
qed simp

lemma members_loop_enough:
  "shortens p \<Longrightarrow> length s < n \<Longrightarrow> length s < m \<Longrightarrow> members_loop p n s members = members_loop p m s members"
proof (induction n arbitrary: m s members)
  case (Suc n)
  then obtain m' where m: "m = Suc m'" by (cases m) auto
  have next_round: "members_loop p n u ms = members_loop p m' u ms"
    if "parse_string_raw (skip_ws s) = Inr (k, s1)" "skip_ws s1 = d # s2" "p (skip_ws s2) = Inr (x, t)" "skip_ws t = c # u"
    for k s1 d s2 x t c u ms
    using Suc.prems shortensD [OF Suc.prems(1) that(3)] skip_ws_Cons_length [OF that(4)] skip_ws_length [of s2]
      skip_ws_Cons_length [OF that(2)] parse_string_raw_length [OF that(1)] skip_ws_length [of s] m
    by (intro Suc.IH [OF Suc.prems(1)]; linarith)
  show ?case
  proof (cases "parse_string_raw (skip_ws s)")
    case raw: (Inr y)
    obtain k s1 where y: "y = (k, s1)" by (cases y)
    show ?thesis
    proof (cases "skip_ws s1")
      case ws: (Cons d s2)
      show ?thesis
      proof (cases "p (skip_ws s2)")
        case val: (Inr z)
        obtain x t where z: "z = (x, t)" by (cases z)
        show ?thesis using next_round [OF raw [unfolded y] ws val [unfolded z]]
          by (auto simp: m raw y ws val z Let_def split: list.split)
      qed (simp add: m raw y ws Let_def)
    qed (simp add: m raw y Let_def)
  qed (simp add: m Let_def)
qed simp

lemma consume_lengths:
  "consume_integer_part s = Some r \<Longrightarrow> length r < length s"
  "length (consume_fraction s) \<le> length s"
  "consume_exponent s = Some r \<Longrightarrow> length r \<le> length s"
  using length_dropWhile_le [of is_digit]
  by (auto simp: consume_integer_part_def consume_fraction_def consume_exponent_def Let_def le_SucI less_Suc_eq_le
      split: list.splits if_splits intro: le_trans)

lemma parse_number_length: "parse_number s = Inr (v, r) \<Longrightarrow> length r < length s"
proof -
  define t where "t = (if s \<noteq> [] \<and> hd s = 0x2D then tl s else s)"
  assume "parse_number s = Inr (v, r)"
  then obtain u where "consume_integer_part t = Some u" "consume_exponent (consume_fraction u) = Some r"
    by (auto simp: parse_number_def Let_def t_def [symmetric] split: option.splits)
  moreover have "length t \<le> length s" by (simp add: t_def)
  ultimately show ?thesis
    using consume_lengths(1) [of t u] consume_lengths(2) [of u] consume_lengths(3) [of "consume_fraction u" r] by simp
qed

lemma container_length:
  assumes "shortens p" "s \<noteq> []"
  shows "parse_array p s = Inr (v, r) \<Longrightarrow> length r < length s"
    and "parse_object p s = Inr (v, r) \<Longrightarrow> length r < length s"
proof -
  have shorter: "length r < length s" if "length r < length (skip_ws (tl s))"
    using that skip_ws_length [of "tl s"] assms(2) by (cases s) auto
  have closed: "length r < length (skip_ws (tl s))" if "skip_ws (tl s) \<noteq> []" "r = tl (skip_ws (tl s))"
    using that by (cases "skip_ws (tl s)") auto
  show "parse_array p s = Inr (v, r) \<Longrightarrow> length r < length s"
    using shorter closed items_loop_length [OF assms(1)]
    by (auto simp del: items_loop.simps simp: parse_array_def Let_def split: if_splits)
  show "parse_object p s = Inr (v, r) \<Longrightarrow> length r < length s"
    using shorter closed members_loop_length [OF assms(1)]
    by (auto simp del: members_loop.simps simp: parse_object_def Let_def split: if_splits)
qed

lemma shortens_value: "shortens (parse_value depth)"
proof (induction "kJsonMaxDepth + 1 - depth" arbitrary: depth)
  case 0
  then show ?case by (simp add: shortens_def parse_value.simps)
next
  case (Suc n)
  then have IH: "shortens (\<lambda>s. parse_value (depth + 1) s)" by simp
  show ?case unfolding shortens_def
  proof (intro allI impI)
    fix s v r assume *: "parse_value depth s = Inr (v, r)"
    then show "length r < length s"
      using parse_number_length [of s v r] parse_string_raw_length [of s _ r] container_length [OF IH, of s v r]
      by (auto simp: parse_value.simps [of depth] parse_string_value_def parse_bool_def parse_null_def starts_with_def
          bindE_eq_Inr_iff split: list.splits if_splits)
  qed
qed



section \<open>What the writer writes is read back\<close>

text \<open>
  A document is what a handler sends to the writer: nested calls of \<open>begin_object\<close>, \<open>key\<close>, \<open>value\<close> and so on.
  \<open>doc_value\<close> is the value it means and \<open>doc_depth\<close> how many levels there are below its root.
\<close>

datatype JsonDoc =
    DNull
  | DBool bool
  | DInt int
  | DString bytes
  | DArray "JsonDoc list"
  | DObject "(bytes \<times> JsonDoc) list"

fun write_doc :: "JsonDoc \<Rightarrow> JsonWriter \<Rightarrow> JsonWriter" where
  "write_doc DNull w = null_value w"
| "write_doc (DBool b) w = value_bool b w"
| "write_doc (DInt i) w = value_int i w"
| "write_doc (DString t) w = value_string t w"
| "write_doc (DArray ds) w = end_array (fold (\<lambda>d w. write_doc d w) ds (begin_array w))"
| "write_doc (DObject ms) w = end_object (fold (\<lambda>(k, d) w. write_doc d (write_key k w)) ms (begin_object w))"

fun doc_value :: "JsonDoc \<Rightarrow> JsonValue" where
  "doc_value DNull = JNull"
| "doc_value (DBool b) = JBool b"
| "doc_value (DInt i) = JNumber (to_string_int i)"
| "doc_value (DString t) = JString t"
| "doc_value (DArray ds) = JArray (map doc_value ds)"
| "doc_value (DObject ms) = JObject (map (\<lambda>(k, d). (k, doc_value d)) ms)"

fun doc_depth :: "JsonDoc \<Rightarrow> nat" where
  "doc_depth (DArray ds) = foldr (\<lambda>d n. max (Suc (doc_depth d)) n) ds 0"
| "doc_depth (DObject ms) = foldr (\<lambda>(k, d) n. max (Suc (doc_depth d)) n) ms 0"
| "doc_depth _ = 0"

text \<open>The text of a document.\<close>

definition commas :: "bytes list \<Rightarrow> bytes" where
  "commas xs = concat (map (\<lambda>x. 0x2C # x) xs)"

fun render :: "JsonDoc \<Rightarrow> bytes" where
  "render DNull = ascii ''null''"
| "render (DBool b) = (if b then ascii ''true'' else ascii ''false'')"
| "render (DInt i) = to_string_int i"
| "render (DString t) = escaped t"
| "render (DArray ds) = 0x5B # tl (commas (map render ds)) @ [0x5D]"
| "render (DObject ms) = 0x7B # tl (commas (map (\<lambda>(k, d). escaped k @ 0x3A # render d) ms)) @ [0x7D]"

definition lead :: "JsonWriter \<Rightarrow> bytes" where
  "lead w = (if expecting_value w \<or> first w = [] \<or> hd (first w) then [] else [0x2C])"

definition after_value :: "JsonWriter \<Rightarrow> bytes \<Rightarrow> JsonWriter" where
  "after_value w t =
     w \<lparr> out := out w @ t,
         first := (if expecting_value w \<or> first w = [] then first w else False # tl (first w)),
         expecting_value := False \<rparr>"

lemma before_value_eq: "before_value w = after_value w (lead w)"
  by (cases w) (auto simp: before_value_def before_key_def after_value_def lead_def split: list.split)

lemma write_key_eq:
  "first w \<noteq> [] \<Longrightarrow> write_key k w =
     w \<lparr> out := out w @ (if hd (first w) then [] else [0x2C]) @ escaped k @ [0x3A], first := False # tl (first w),
         expecting_value := True \<rparr>"
  by (cases "first w") (simp_all add: write_key_def before_key_def emit_text_def)

lemma write_doc_eq: "write_doc d w = after_value w (lead w @ render d)"
proof (induction d arbitrary: w)
  case (DArray ds)
  have "fold (\<lambda>d w. write_doc d w) es w =
      w \<lparr> out := out w @ (if hd (first w) then tl (commas (map render es)) else commas (map render es)),
          first := (if es = [] then first w else False # tl (first w)) \<rparr>"
    if "set es \<subseteq> set ds" "\<not> expecting_value w" "first w \<noteq> []" for es w
    using that
    by (induction es arbitrary: w) (auto simp: DArray commas_def after_value_def lead_def)
  from this [of ds] show ?case
    by (auto simp: end_array_def begin_array_def emit_text_def Let_def before_value_eq after_value_def)
next
  case (DObject ms)
  have "fold (\<lambda>(k, d) w. write_doc d (write_key k w)) es w =
      w \<lparr> out := out w @ (let t = commas (map (\<lambda>(k, d). escaped k @ 0x3A # render d) es) in if hd (first w) then tl t else t),
          first := (if es = [] then first w else False # tl (first w)) \<rparr>"
    if "set es \<subseteq> set ms" "\<not> expecting_value w" "first w \<noteq> []" for es w
    using that
  proof (induction es arbitrary: w)
    case (Cons e es)
    obtain k d where e: "e = (k, d)" by (cases e)
    with Cons.prems(1) have "d \<in> Basic_BNFs.snds e" "e \<in> set ms" by auto
    then have d: "write_doc d w = after_value w (lead w @ render d)" for w using DObject by blast
    show ?case using Cons.prems
      by (cases w) (auto simp: e d Cons.IH write_key_eq commas_def after_value_def lead_def Let_def)
  qed (simp add: commas_def)
  from this [of ms] show ?case
    by (auto simp: end_object_def begin_object_def emit_text_def Let_def before_value_eq after_value_def)
qed (simp_all add: null_value_def value_bool_def value_int_def value_string_def emit_text_def before_value_eq after_value_def)

lemma out_write_doc: "out (write_doc d new_writer) = render d"
  by (simp add: write_doc_eq after_value_def lead_def new_writer_def)

lemma hex_digit_char: "d < 16 \<Longrightarrow> hex_digit (hex_char d) = Some (of_nat d)"
proof -
  have "list_all (\<lambda>d. hex_digit (hex_char d) = Some (of_nat d)) [0..<16]" by code_simp
  then show "d < 16 \<Longrightarrow> ?thesis" by (simp add: list_all_iff)
qed

lemma control_code_point:
  "n < 32 \<Longrightarrow> push_bit 4 (of_nat (n div 16)) OR of_nat (n mod 16) = (of_nat n :: 32 word) \<and> utf8 (of_nat n) = [of_nat n] \<and> \<not> 0xD800 \<le> (of_nat n :: 32 word)"
proof -
  have "list_all (\<lambda>n. push_bit 4 (of_nat (n div 16)) OR of_nat (n mod 16) = (of_nat n :: 32 word) \<and>
      utf8 (of_nat n) = [of_nat n] \<and> \<not> 0xD800 \<le> (of_nat n :: 32 word)) [0..<32]" by code_simp
  then show "n < 32 \<Longrightarrow> ?thesis" unfolding list_all_iff set_upt by simp
qed

lemma control_escape:
  assumes "c < 0x20"
  shows "json_escape (0x75 # 0x30 # 0x30 # hex_char (unat c div 16) # hex_char (unat c mod 16) # s) = Some ([c], s)"
proof -
  define n where "n = unat c"
  have c: "c = of_nat n" "n < 32" using assms by (simp_all add: n_def word_less_nat_alt)
  have four: "Suc (Suc (Suc (Suc 0))) = 4" by simp
  have "hex_digit 0x30 = Some 0" by (simp add: hex_digit_def)
  moreover have "hex_digit (hex_char (n div 16)) = Some (of_nat (n div 16))" "hex_digit (hex_char (n mod 16)) = Some (of_nat (n mod 16))"
    using \<open>n < 32\<close> by (simp_all add: hex_digit_char)
  ultimately have "hex_loop (Suc (Suc (Suc (Suc 0)))) (0x30 # 0x30 # hex_char (n div 16) # hex_char (n mod 16) # s) 0 = Some (of_nat n, s)"
    using control_code_point [OF c(2)] by simp
  then have "hex_loop 4 (0x30 # 0x30 # hex_char (n div 16) # hex_char (n mod 16) # s) 0 = Some (of_nat n, s)"
    using four by simp
  then show ?thesis using control_code_point [OF c(2)]
    by (simp add: json_escape_def unicode_escape_def read_hex4_def n_def [symmetric] c(1) [symmetric])
qed

lemma string_loop_escape: "string_loop (escape_char c @ s) acc = string_loop s (acc @ [c])"
proof -
  have "json_escape (c # s) = Some ([d], s)"
    if "(c, d) \<in> {(0x22, 0x22), (0x5C, 0x5C), (0x6E, 0x0A), (0x72, 0x0D), (0x74, 0x09)}" for c d
    using that by (auto simp: json_escape_def)
  then show ?thesis by (auto simp: escape_char_def control_escape)
qed

lemma string_loop_escaped: "string_loop (concat (map escape_char t) @ 0x22 # r) acc = Inr (acc @ t, r)"
  by (induction t arbitrary: acc) (simp_all add: string_loop_escape)

lemma parse_string_escaped: "parse_string_raw (escaped t @ r) = Inr (t, r)"
  by (simp add: parse_string_raw_def escaped_def string_loop_escaped)

text \<open>What may follow a value: the end of the text, or a character that does not continue a number.\<close>

definition stops :: "bytes \<Rightarrow> bool" where
  "stops r \<longleftrightarrow> r = [] \<or> \<not> is_digit (hd r) \<and> hd r \<notin> {0x2E, 0x65, 0x45}"

lemma to_string_hd_zero: "hd (to_string n) = 0x30 \<longleftrightarrow> n = 0"
proof (induction n rule: to_string.induct)
  case (1 n)
  show ?case
  proof (cases "n < 10")
    case True
    have "(of_nat (48 + n) :: byte) = 0x30 \<longleftrightarrow> n = 0"
      using unat_digit [OF True] by (auto simp: word_unat_eq_iff simp del: of_nat_add)
    then show ?thesis using True by (subst to_string.simps) simp
  next
    case False
    then show ?thesis using 1 [OF False] by (subst to_string.simps) (simp add: div_eq_0_iff)
  qed
qed

lemma consume_to_string: "stops r \<Longrightarrow> consume_integer_part (to_string n @ r) = Some r"
proof (cases "n = 0")
  case True
  then have "to_string n = [0x30]" by (simp add: to_string.simps)
  then show ?thesis by (simp add: consume_integer_part_def is_digit_def)
next
  case False
  obtain c t where ct: "to_string n = c # t" by (cases "to_string n") auto
  then have "c \<noteq> 0x30" "is_digit c" using False to_string_hd_zero [of n] to_string_digits [of n] by auto
  moreover assume "stops r"
  then have "dropWhile is_digit (to_string n @ r) = r"
    using takeWhile_digits [OF to_string_digits] by (auto simp: stops_def)
  ultimately show ?thesis by (simp add: consume_integer_part_def ct)
qed

lemma parse_number_int:
  assumes "stops r"
  shows "parse_number (to_string_int i @ r) = Inr (JNumber (to_string_int i), r)"
proof -
  have "consume_fraction r = r" "consume_exponent r = Some r"
    using assms by (auto simp: stops_def consume_fraction_def consume_exponent_def split: list.split)
  moreover have "hd (to_string n @ r) \<noteq> 0x2D" for n
    using to_string_digits [of n] by (cases "to_string n") (auto simp: is_digit_def)
  ultimately show ?thesis using consume_to_string [OF assms]
    by (auto simp: parse_number_def to_string_int_def Let_def)
qed

lemma escaped_Cons: "escaped t = 0x22 # concat (map escape_char t) @ [0x22]"
  by (simp add: escaped_def)

lemma to_string_int_Cons: "\<exists>c t. to_string_int i = c # t \<and> (is_digit c \<or> c = 0x2D)"
proof -
  have "\<exists>c t. to_string n = c # t \<and> is_digit c" for n
    using to_string_digits [of n] by (cases "to_string n") auto
  from this [of "nat i"] show ?thesis by (auto simp: to_string_int_def)
qed

lemma render_Cons: "\<exists>c t. render d = c # t \<and> \<not> is_ws c \<and> c \<noteq> 0x5D"
proof (cases d)
  case (DInt i)
  then show ?thesis using to_string_int_Cons [of i] by (auto simp: is_ws_def is_digit_def)
qed (auto simp: is_ws_def escaped_Cons)

lemma skip_ws_Cons [simp]: "\<not> is_ws c \<Longrightarrow> skip_ws (c # s) = c # s"
  by (simp add: skip_ws_def)

lemma not_ws [simp]: "\<not> is_ws 0x22" "\<not> is_ws 0x2C" "\<not> is_ws 0x3A" "\<not> is_ws 0x5D" "\<not> is_ws 0x7D"
  by (simp_all add: is_ws_def)

lemma skip_ws_render [simp]: "skip_ws (render d @ r) = render d @ r"
  using render_Cons [of d] by auto

lemma stops_delimiter [simp]: "stops []" "stops (0x2C # r)" "stops (0x5D # r)" "stops (0x7D # r)"
  by (simp_all add: stops_def is_digit_def)

definition reads :: "nat \<Rightarrow> JsonDoc \<Rightarrow> bool" where
  "reads depth d \<longleftrightarrow> (\<forall>r. stops r \<longrightarrow>
     parse_value depth (render d @ r) = (if depth + doc_depth d \<le> kJsonMaxDepth then Inr (doc_value d, r) else json_fail))"

lemma items_loop_render:
  assumes "\<forall>e \<in> set (d # ds). reads depth e" "length ds < n"
  shows "items_loop (parse_value depth) n (render d @ commas (map render ds) @ 0x5D # r) items =
    (if \<forall>e \<in> set (d # ds). depth + doc_depth e \<le> kJsonMaxDepth
     then Inr (JArray (items @ map doc_value (d # ds)), r) else json_fail)"
  using assms
proof (induction ds arbitrary: d n items)
  case Nil
  then show ?case by (cases n) (auto simp: commas_def reads_def)
next
  case (Cons e ds)
  then obtain n' where n: "n = Suc n'" by (cases n) auto
  have d: "parse_value depth (render d @ 0x2C # s) =
      (if depth + doc_depth d \<le> kJsonMaxDepth then Inr (doc_value d, 0x2C # s) else json_fail)" for s
    using Cons.prems(1) by (simp add: reads_def)
  show ?case using Cons.IH [of e n' "items @ [doc_value d]"] Cons.prems n d by (auto simp: commas_def)
qed

lemma members_loop_Suc:
  "members_loop p (Suc n) (escaped k @ 0x3A # s) members =
     bindE (p (skip_ws s)) (\<lambda>(v, s).
       case skip_ws s of
         [] \<Rightarrow> json_fail
       | c # r \<Rightarrow>
           if c = 0x2C then members_loop p n r (members @ [(k, v)])
           else if c = 0x7D then Inr (JObject (members @ [(k, v)]), r)
           else json_fail)"
proof -
  obtain t where "escaped k @ 0x3A # s = 0x22 # t" by (simp add: escaped_Cons)
  then have "skip_ws (escaped k @ 0x3A # s) = escaped k @ 0x3A # s" "escaped k @ 0x3A # s \<noteq> []" "hd (escaped k @ 0x3A # s) = 0x22"
    by simp_all
  then show ?thesis by (simp add: parse_string_escaped Let_def)
qed

lemma members_loop_render:
  assumes "\<forall>e \<in> set (m # ms). reads depth (snd e)" "length ms < n"
  shows "members_loop (parse_value depth) n
      (escaped (fst m) @ 0x3A # render (snd m) @ commas (map (\<lambda>(k, d). escaped k @ 0x3A # render d) ms) @ 0x7D # r) members =
    (if \<forall>e \<in> set (m # ms). depth + doc_depth (snd e) \<le> kJsonMaxDepth
     then Inr (JObject (members @ map (\<lambda>(k, d). (k, doc_value d)) (m # ms)), r) else json_fail)"
  using assms
proof (induction ms arbitrary: m n members)
  case Nil
  then show ?case
    by (cases n; cases m) (auto simp: commas_def reads_def members_loop_Suc simp del: members_loop.simps(2))
next
  case (Cons e ms)
  then obtain n' where n: "n = Suc n'" by (cases n) auto
  have d: "parse_value depth (render (snd m) @ 0x2C # s) =
      (if depth + doc_depth (snd m) \<le> kJsonMaxDepth then Inr (doc_value (snd m), 0x2C # s) else json_fail)" for s
    using Cons.prems(1) by (simp add: reads_def)
  show ?case using Cons.IH [of e n' "members @ [(fst m, doc_value (snd m))]"] Cons.prems n d
    by (cases m; cases e) (auto simp: commas_def members_loop_Suc simp del: members_loop.simps(2))
qed

lemma doc_depth_le:
  "m + doc_depth (DArray ds) \<le> k \<longleftrightarrow> m \<le> k \<and> (\<forall>d \<in> set ds. m + 1 + doc_depth d \<le> k)"
  "m + doc_depth (DObject ms) \<le> k \<longleftrightarrow> m \<le> k \<and> (\<forall>e \<in> set ms. m + 1 + doc_depth (snd e) \<le> k)"
proof -
  show "m + doc_depth (DArray ds) \<le> k \<longleftrightarrow> m \<le> k \<and> (\<forall>d \<in> set ds. m + 1 + doc_depth d \<le> k)"
    by (induction ds) auto
  show "m + doc_depth (DObject ms) \<le> k \<longleftrightarrow> m \<le> k \<and> (\<forall>e \<in> set ms. m + 1 + doc_depth (snd e) \<le> k)"
    by (induction ms) auto
qed

lemma reads_doc: "reads depth d"
proof (induction d arbitrary: depth)
  case (DArray ds)
  show ?case
  proof (cases ds)
    case Nil
    then show ?thesis by (auto simp: reads_def parse_value.simps parse_array_def commas_def)
  next
    case (Cons e es)
    obtain c t where ct: "render e = c # t" "\<not> is_ws c" "c \<noteq> 0x5D" using render_Cons [of e] by auto
    have run: "items_loop (parse_value (depth + 1)) n (render e @ commas (map render es) @ 0x5D # r) [] =
      (if \<forall>d \<in> set ds. depth + 1 + doc_depth d \<le> kJsonMaxDepth then Inr (JArray (map doc_value ds), r) else json_fail)"
      if "length es < n" for n r
      using items_loop_render [of e es "depth + 1" n r "[]"] DArray that Cons by auto
    have "length es < Suc (length (render e @ commas (map render es) @ 0x5D # r))" for r
      by (induction es) (auto simp: commas_def)
    then have "parse_array (parse_value (depth + 1)) (render (DArray ds) @ r) =
      (if \<forall>d \<in> set ds. depth + 1 + doc_depth d \<le> kJsonMaxDepth then Inr (JArray (map doc_value ds), r) else json_fail)" for r
      using run [of "Suc (length (render e @ commas (map render es) @ 0x5D # r))" r] ct
      by (simp del: items_loop.simps add: parse_array_def Cons commas_def)
    then show ?thesis unfolding reads_def doc_depth_le by (auto simp: parse_value.simps [of depth])
  qed
next
  case (DObject ms)
  show ?case
  proof (cases ms)
    case Nil
    then show ?thesis by (auto simp: reads_def parse_value.simps parse_object_def commas_def)
  next
    case (Cons e es)
    define rest where "rest = (\<lambda>r. escaped (fst e) @ 0x3A # render (snd e) @ commas (map (\<lambda>(k, d). escaped k @ 0x3A # render d) es) @ 0x7D # r)"
    have "reads (depth + 1) (snd m)" if "m \<in> set ms" for m
      using DObject [OF that, of "snd m"] by (cases m) auto
    then have run: "members_loop (parse_value (depth + 1)) n (rest r) [] =
      (if \<forall>m \<in> set ms. depth + 1 + doc_depth (snd m) \<le> kJsonMaxDepth
       then Inr (JObject (map (\<lambda>(k, d). (k, doc_value d)) ms), r) else json_fail)"
      if "length es < n" for n r
      using members_loop_render [of e es "depth + 1" n r "[]"] that Cons by (auto simp: rest_def)
    have "length es < Suc (length (rest r))" for r
      unfolding rest_def by (induction es) (auto simp: commas_def)
    moreover have "skip_ws (rest r) = rest r" "hd (rest r) = 0x22" for r by (simp_all add: rest_def escaped_Cons)
    moreover have "tl (render (DObject ms) @ r) = rest r" for r
      by (cases e) (simp add: rest_def Cons commas_def)
    ultimately have "parse_object (parse_value (depth + 1)) (render (DObject ms) @ r) =
      (if \<forall>m \<in> set ms. depth + 1 + doc_depth (snd m) \<le> kJsonMaxDepth
       then Inr (JObject (map (\<lambda>(k, d). (k, doc_value d)) ms), r) else json_fail)" for r
      using run [of "Suc (length (rest r))" r]
      by (simp del: members_loop.simps render.simps add: parse_object_def)
    then show ?thesis unfolding reads_def doc_depth_le by (auto simp: parse_value.simps [of depth])
  qed
next
  case (DInt i)
  obtain c t where "to_string_int i = c # t" "is_digit c \<or> c = 0x2D" using to_string_int_Cons by blast
  then show ?case using parse_number_int [of _ i]
    by (auto simp: reads_def parse_value.simps is_digit_def)
next
  case (DString t)
  then show ?case using parse_string_escaped [of t]
    by (auto simp: reads_def parse_value.simps parse_string_value_def escaped_Cons)
qed (auto simp: reads_def parse_value.simps parse_bool_def parse_null_def starts_with_def)

lemma parse_written:
  "parse_json (out (write_doc d new_writer)) =
     (if doc_depth d \<le> kJsonMaxDepth then Inr (doc_value d) else Inl InvalidArgument)"
proof -
  have "skip_ws (render d) = render d" using skip_ws_render [of d "[]"] by simp
  moreover have "parse_value 0 (render d) = (if doc_depth d \<le> kJsonMaxDepth then Inr (doc_value d, []) else json_fail)"
    using reads_doc [of 0 d] unfolding reads_def by (metis append_Nil2 add_0 stops_delimiter(1))
  ultimately show ?thesis by (simp add: parse_json_def out_write_doc skip_ws_def)
qed



section \<open>What the reader accepts\<close>

fun value_depth :: "JsonValue \<Rightarrow> nat" where
  "value_depth (JArray vs) = foldr (\<lambda>v n. max (Suc (value_depth v)) n) vs 0"
| "value_depth (JObject ms) = foldr (\<lambda>(k, v) n. max (Suc (value_depth v)) n) ms 0"
| "value_depth _ = 0"

text \<open>The outcome of a reader whose values lie at \<open>depth\<close>.\<close>

definition bounded_result :: "nat \<Rightarrow> (JsonValue \<times> bytes) expected \<Rightarrow> bool" where
  "bounded_result depth r \<longleftrightarrow>
     (case r of Inl e \<Rightarrow> e = InvalidArgument | Inr (v, _) \<Rightarrow> depth + value_depth v \<le> kJsonMaxDepth)"

lemma bounded_result_simps [simp]:
  "bounded_result depth (Inl e) \<longleftrightarrow> e = InvalidArgument"
  "bounded_result depth (Inr (v, r)) \<longleftrightarrow> depth + value_depth v \<le> kJsonMaxDepth"
  by (simp_all add: bounded_result_def)

lemma bounded_resultE:
  assumes "bounded_result depth m"
  obtains "m = json_fail" | v r where "m = Inr (v, r)" "depth + value_depth v \<le> kJsonMaxDepth"
  using assms by (cases m) (auto simp: bounded_result_def)

lemma string_loop_result: "string_loop s acc = Inl e \<Longrightarrow> e = InvalidArgument"
  by (induction s acc rule: string_loop.induct) (auto split: if_splits option.splits)

lemma value_depth_snoc:
  "value_depth (JArray (vs @ [v])) = max (value_depth (JArray vs)) (Suc (value_depth v))"
  "value_depth (JObject (ms @ [(k, v)])) = max (value_depth (JObject ms)) (Suc (value_depth v))"
proof -
  show "value_depth (JArray (vs @ [v])) = max (value_depth (JArray vs)) (Suc (value_depth v))"
    by (induction vs) auto
  show "value_depth (JObject (ms @ [(k, v)])) = max (value_depth (JObject ms)) (Suc (value_depth v))"
    by (induction ms) auto
qed

lemma items_loop_bounded:
  assumes "\<And>s. bounded_result (Suc depth) (p s)"
  shows "depth + value_depth (JArray items) \<le> kJsonMaxDepth \<Longrightarrow> bounded_result depth (items_loop p n s items)"
proof (induction n arbitrary: s items)
  case (Suc n)
  from assms [of "skip_ws s"] show ?case
  proof (cases rule: bounded_resultE)
    case (2 v r)
    then have "depth + value_depth (JArray (items @ [v])) \<le> kJsonMaxDepth"
      using Suc.prems unfolding value_depth_snoc by simp
    then show ?thesis using Suc.IH [of "items @ [v]"]
      by (auto simp: 2 Let_def split: list.split simp del: value_depth.simps)
  qed simp
qed simp

lemma members_loop_bounded:
  assumes "\<And>s. bounded_result (Suc depth) (p s)"
  shows "depth + value_depth (JObject members) \<le> kJsonMaxDepth \<Longrightarrow> bounded_result depth (members_loop p n s members)"
proof (induction n arbitrary: s members)
  case (Suc n)
  have inner: "bounded_result depth (bindE (p t) (\<lambda>(v, s). case skip_ws s of
      [] \<Rightarrow> json_fail
    | c # r \<Rightarrow> if c = 0x2C then members_loop p n r (members @ [(k, v)])
              else if c = 0x7D then Inr (JObject (members @ [(k, v)]), r) else json_fail))" for t k
    using assms [of t]
  proof (cases rule: bounded_resultE)
    case (2 v r)
    then have "depth + value_depth (JObject (members @ [(k, v)])) \<le> kJsonMaxDepth"
      using Suc.prems unfolding value_depth_snoc by simp
    then show ?thesis using Suc.IH [of "members @ [(k, v)]"]
      by (auto simp: 2 split: list.split simp del: value_depth.simps)
  qed simp
  have "e = InvalidArgument" if "parse_string_raw t = Inl e" for t e
    using that string_loop_result by (auto simp: parse_string_raw_def)
  then show ?case using inner
    by (cases "parse_string_raw (skip_ws s)") (auto simp: Let_def)
qed simp

lemma parse_value_bounded: "bounded_result depth (parse_value depth s)"
proof (induction "kJsonMaxDepth + 1 - depth" arbitrary: depth s)
  case 0
  then show ?case by (simp add: parse_value.simps)
next
  case (Suc n)
  then have d: "depth \<le> kJsonMaxDepth" and IH: "\<And>s. bounded_result (Suc depth) (parse_value (Suc depth) s)" by simp_all
  have "bounded_result depth (parse_array (parse_value (Suc depth)) s)" "bounded_result depth (parse_object (parse_value (Suc depth)) s)"
    using d items_loop_bounded [OF IH, of "[]"] members_loop_bounded [OF IH, of "[]"]
    by (simp_all add: parse_array_def parse_object_def Let_def del: items_loop.simps members_loop.simps)
  moreover have "bounded_result depth (parse_string_value s)" for s
    using d string_loop_result by (cases "parse_string_raw s") (auto simp: parse_string_value_def parse_string_raw_def)
  moreover have "bounded_result depth (parse_number s)" for s
    using d by (auto simp: parse_number_def Let_def split: option.split)
  ultimately show ?case using d
    by (auto simp: parse_value.simps [of depth] parse_bool_def parse_null_def split: list.split)
qed

text \<open>
  C34: On every input the JSON reader returns: the result is \<open>InvalidArgument\<close> and no other error, or
  a value that nests at most \<^verbatim>\<open>kJsonMaxDepth\<close> levels below its root.
\<close>

theorem parse_json_total:
  "case parse_json s of Inl e \<Rightarrow> e = InvalidArgument | Inr v \<Rightarrow> value_depth v \<le> kJsonMaxDepth"
proof -
  from parse_value_bounded [of 0 "skip_ws s"] show ?thesis
    by (cases rule: bounded_resultE) (simp_all add: parse_json_def)
qed

text \<open>
  Three texts outside RFC 8259 that the reader accepts: a fraction without digits, a control
  character in a string, and a low surrogate alone, for which it writes bytes that are not UTF-8.
\<close>

lemma fraction_without_digits: "parse_json (ascii ''1.'') = Inr (JNumber (ascii ''1.''))"
  by code_simp

lemma control_character_accepted: "parse_json [0x22, 0x0A, 0x22] = Inr (JString [0x0A])"
  by code_simp

lemma lone_low_surrogate: "parse_json ([0x22, 0x5C] @ ascii ''uDC00'' @ [0x22]) = Inr (JString [0xED, 0xB0, 0x80])"
  by code_simp

end
