(* ===== verification/Base64.thy ===== *)
theory Base64
  imports Strings
begin

text \<open>
  The codec base64url without padding (\<^verbatim>\<open>common/base64.cpp\<close>).  Both directions shift bits through a 32-bit
  buffer whose upper bits are never cleared; the lemmas show that they do not matter and that the
  decoder gives back what was encoded.
\<close>

unbundle bit_operations_syntax

definition kAlphabet :: bytes where
  "kAlphabet = ascii ''ABCDEFGHIJKLMNOPQRSTUVWXYZabcdefghijklmnopqrstuvwxyz0123456789-_''"

text \<open>The inverse table, as the search that fills it: the last index wins, and there is only one.\<close>

definition decode_value :: "byte \<Rightarrow> 32 word option" where
  "decode_value c = map_of (rev (zip kAlphabet (map of_nat [0..<length kAlphabet]))) c"

fun emit_sextets :: "32 word \<Rightarrow> nat \<Rightarrow> bytes \<Rightarrow> nat \<times> bytes" where
  "emit_sextets buf bits out =
     (if bits \<ge> 6 then emit_sextets buf (bits - 6) (out @ [kAlphabet ! unat (drop_bit (bits - 6) buf AND 0x3F)])
      else (bits, out))"

declare emit_sextets.simps [simp del]

fun encode_loop :: "bytes \<Rightarrow> 32 word \<Rightarrow> nat \<Rightarrow> bytes \<Rightarrow> bytes" where
  "encode_loop [] buf bits out =
     (if bits > 0 then out @ [kAlphabet ! unat (push_bit (6 - bits) buf AND 0x3F)] else out)"
| "encode_loop (b # data) buf bits out =
     (let buf = push_bit 8 buf OR ucast b;
          (bits, out) = emit_sextets buf (bits + 8) out in
      encode_loop data buf bits out)"

definition base64url_encode :: "bytes \<Rightarrow> bytes" where
  "base64url_encode data = encode_loop data 0 0 []"

fun decode_loop :: "bytes \<Rightarrow> 32 word \<Rightarrow> nat \<Rightarrow> bytes \<Rightarrow> bytes expected" where
  "decode_loop [] buf bits out = Inr out"
| "decode_loop (c # text) buf bits out =
     (case decode_value c of
        None \<Rightarrow> Inl InvalidArgument
      | Some v \<Rightarrow>
          let buf = push_bit 6 buf OR v; bits = bits + 6 in
          if bits \<ge> 8 then decode_loop text buf (bits - 8) (out @ [ucast (drop_bit (bits - 8) buf AND 0xFF)])
          else decode_loop text buf bits out)"

definition base64url_decode :: "bytes \<Rightarrow> bytes expected" where
  "base64url_decode text =
     (let text = rev (dropWhile (\<lambda>c. c = 0x3D) (rev text)) in
      guardE (length text mod 4 = 1) InvalidArgument (decode_loop text 0 0 []))"


section \<open>Groups of three bytes\<close>

lemma length_alphabet: "length kAlphabet = 64" by (simp add: kAlphabet_def)

lemma decode_alphabet: "n < 64 \<Longrightarrow> decode_value (kAlphabet ! n) = Some (of_nat n)"
proof -
  have "list_all (\<lambda>n. decode_value (kAlphabet ! n) = Some (of_nat n)) [0..<64]" by code_simp
  then show "n < 64 \<Longrightarrow> ?thesis" by (simp add: list_all_iff)
qed

abbreviation sextet :: "32 word \<Rightarrow> byte" where
  "sextet v \<equiv> kAlphabet ! unat (v AND 0x3F)"

lemma and_3F: "(v :: 32 word) AND 0x3F = take_bit 6 v"
  by (simp add: take_bit_eq_mask mask_eq_exp_minus_1)

lemma unat_sextet: "unat ((v :: 32 word) AND 0x3F) < 64"
  using take_bit_nat_less_exp [of 6 "unat v"] by (simp add: and_3F unsigned_take_bit_eq)

lemma decode_sextet: "decode_value (sextet v) = Some (v AND 0x3F)"
  using decode_alphabet [OF unat_sextet [of v]] by simp

lemma in_alphabet: "set [] \<subseteq> set kAlphabet" "set (sextet v # cs) \<subseteq> set kAlphabet \<longleftrightarrow> set cs \<subseteq> set kAlphabet"
  using nth_mem [of "unat (v AND 0x3F)" kAlphabet] unat_sextet [of v] by (simp_all add: length_alphabet)

lemma not_in_alphabet: "0x3D \<notin> set kAlphabet" "0x2E \<notin> set kAlphabet"
  by code_simp+

text \<open>Three bytes, and the two shorter ends, as the encoder writes them.\<close>

abbreviation shift8 :: "32 word \<Rightarrow> byte \<Rightarrow> 32 word" where "shift8 w b \<equiv> push_bit 8 w OR ucast b"

lemma encode_three:
  "encode_loop (a # b # c # data) w 0 out =
     encode_loop data (shift8 (shift8 (shift8 w a) b) c) 0
       (out @ [sextet (drop_bit 2 (shift8 w a)), sextet (drop_bit 4 (shift8 (shift8 w a) b)),
               sextet (drop_bit 6 (shift8 (shift8 (shift8 w a) b) c)), sextet (shift8 (shift8 (shift8 w a) b) c)])"
  by (simp add: emit_sextets.simps Let_def)

lemma encode_two:
  "encode_loop [a, b] w 0 out =
     out @ [sextet (drop_bit 2 (shift8 w a)), sextet (drop_bit 4 (shift8 (shift8 w a) b)),
            sextet (push_bit 2 (shift8 (shift8 w a) b))]"
  by (simp add: emit_sextets.simps Let_def)

lemma encode_one:
  "encode_loop [a] w 0 out = out @ [sextet (drop_bit 2 (shift8 w a)), sextet (push_bit 4 (shift8 w a))]"
  by (simp add: emit_sextets.simps Let_def)

abbreviation shift6 :: "32 word \<Rightarrow> 32 word \<Rightarrow> 32 word" where "shift6 w v \<equiv> push_bit 6 w OR (v AND 0x3F)"

lemma decode_four:
  "decode_loop (sextet v0 # sextet v1 # sextet v2 # sextet v3 # text) w 0 out =
     decode_loop text (shift6 (shift6 (shift6 (shift6 w v0) v1) v2) v3) 0
       (out @ [ucast (drop_bit 4 (shift6 (shift6 w v0) v1) AND 0xFF),
               ucast (drop_bit 2 (shift6 (shift6 (shift6 w v0) v1) v2) AND 0xFF),
               ucast (shift6 (shift6 (shift6 (shift6 w v0) v1) v2) v3 AND 0xFF)])"
  by (simp add: decode_sextet Let_def)

lemma decode_three:
  "decode_loop [sextet v0, sextet v1, sextet v2] w 0 out =
     Inr (out @ [ucast (drop_bit 4 (shift6 (shift6 w v0) v1) AND 0xFF),
                 ucast (drop_bit 2 (shift6 (shift6 (shift6 w v0) v1) v2) AND 0xFF)])"
  by (simp add: decode_sextet Let_def)

lemma decode_two:
  "decode_loop [sextet v0, sextet v1] w 0 out = Inr (out @ [ucast (drop_bit 4 (shift6 (shift6 w v0) v1) AND 0xFF)])"
  by (simp add: decode_sextet Let_def)

lemma byte_eqI:
  fixes x y :: byte
  assumes "bit x 0 = bit y 0" "bit x 1 = bit y 1" "bit x 2 = bit y 2" "bit x 3 = bit y 3"
    "bit x 4 = bit y 4" "bit x 5 = bit y 5" "bit x 6 = bit y 6" "bit x 7 = bit y 7"
  shows "x = y"
proof (rule bit_word_eqI)
  fix n assume "n < LENGTH(8)"
  then have "n \<in> {0, 1, 2, 3, 4, 5, 6, 7}" by auto
  then show "bit x n = bit y n" using assms by auto
qed

lemma bit_byte_ge: "8 \<le> n \<Longrightarrow> \<not> bit (b :: byte) n"
  using bit_imp_le_length [of b n] by auto

lemma first_byte:
  "(ucast (drop_bit 4 (shift6 (shift6 w (drop_bit 2 (shift8 u a))) (push_bit 4 (shift8 u a))) AND 0xFF) :: byte) = a"
  "(ucast (drop_bit 4 (shift6 (shift6 w (drop_bit 2 (shift8 u a))) (drop_bit 4 (shift8 (shift8 u a) b))) AND 0xFF) :: byte) = a"
  by - (rule byte_eqI; simp add: bit_simps bit_byte_ge)+

lemma second_byte:
  "(ucast (drop_bit 2 (shift6 (shift6 w (drop_bit 4 (shift8 u b))) (push_bit 2 (shift8 u b))) AND 0xFF) :: byte) = b"
  "(ucast (drop_bit 2 (shift6 (shift6 w (drop_bit 4 (shift8 u b))) (drop_bit 6 (shift8 (shift8 u b) c))) AND 0xFF) :: byte) = b"
  by - (rule byte_eqI; simp add: bit_simps bit_byte_ge)+

lemma third_byte:
  "(ucast (shift6 (shift6 w (drop_bit 6 (shift8 u c))) (shift8 u c) AND 0xFF) :: byte) = c"
  by (rule byte_eqI; simp add: bit_simps bit_byte_ge)


section \<open>Decoding what was encoded\<close>

text \<open>The outcome of encoding from a state of the buffer: what is appended and that it reads back.\<close>

definition reads_back :: "bytes \<Rightarrow> bytes \<Rightarrow> bool" where
  "reads_back cs data \<longleftrightarrow>
     (\<forall>w d. decode_loop cs w 0 d = Inr (d @ data)) \<and> length cs mod 4 \<noteq> 1 \<and> set cs \<subseteq> set kAlphabet"

lemma encode_reads_back: "\<exists>cs. encode_loop data u 0 out = out @ cs \<and> reads_back cs data"
proof (induction "length data" arbitrary: data u out rule: less_induct)
  case less
  consider "data = []" | a where "data = [a]" | a b where "data = [a, b]" | a b c r where "data = a # b # c # r"
    by (metis neq_Nil_conv)
  then show ?case
  proof cases
    case 1
    then show ?thesis by (simp add: reads_back_def)
  next
    case (2 a)
    have "reads_back [sextet (drop_bit 2 (shift8 u a)), sextet (push_bit 4 (shift8 u a))] [a]"
      unfolding reads_back_def decode_two first_byte by (simp only: in_alphabet) simp
    then show ?thesis unfolding 2 encode_one by blast
  next
    case (3 a b)
    have "reads_back [sextet (drop_bit 2 (shift8 u a)), sextet (drop_bit 4 (shift8 (shift8 u a) b)),
        sextet (push_bit 2 (shift8 (shift8 u a) b))] [a, b]"
      unfolding reads_back_def decode_three first_byte second_byte by (simp only: in_alphabet) simp
    then show ?thesis unfolding 3 encode_two by blast
  next
    case (4 a b c r)
    define u1 where "u1 = shift8 u a"
    define u2 where "u2 = shift8 u1 b"
    define u3 where "u3 = shift8 u2 c"
    define q where "q = [sextet (drop_bit 2 u1), sextet (drop_bit 4 u2), sextet (drop_bit 6 u3), sextet u3]"
    obtain cs where cs: "encode_loop r u3 0 (out @ q) = (out @ q) @ cs" "reads_back cs r"
      using less [of r u3 "out @ q"] 4 by auto
    have "encode_loop data u 0 out = encode_loop r u3 0 (out @ q)"
      unfolding 4 encode_three q_def u1_def u2_def u3_def ..
    then have "encode_loop data u 0 out = out @ (q @ cs)" using cs(1) by simp
    moreover have "reads_back (q @ cs) data"
    proof -
      have "decode_loop (q @ cs) w 0 d = Inr (d @ data)" for w d
        using cs(2) unfolding q_def append_Cons append_Nil decode_four reads_back_def 4 u1_def u2_def u3_def
        by (simp only: first_byte second_byte third_byte) simp
      moreover have "set q \<subseteq> set kAlphabet" "length q = 4" unfolding q_def by (simp only: in_alphabet) simp_all
      ultimately show ?thesis using cs(2) by (simp add: reads_back_def)
    qed
    ultimately show ?thesis by blast
  qed
qed

lemma base64url_alphabet: "set (base64url_encode data) \<subseteq> set kAlphabet"
  using encode_reads_back [of data 0 "[]"] by (auto simp: base64url_encode_def reads_back_def)

lemma base64url_roundtrip: "base64url_decode (base64url_encode data) = Inr data"
proof -
  obtain cs where cs: "base64url_encode data = cs" "reads_back cs data"
    using encode_reads_back [of data 0 "[]"] by (auto simp: base64url_encode_def)
  then have "0x3D \<notin> set (rev cs)" using not_in_alphabet by (auto simp: reads_back_def)
  then have "dropWhile (\<lambda>c. c = 0x3D) (rev cs) = rev cs" by (cases "rev cs") auto
  then show ?thesis using cs by (simp add: base64url_decode_def reads_back_def)
qed

text \<open>
  Decoding is not injective: the bits left over at the end are not examined, so several texts stand for
  the same bytes.
\<close>

lemma decode_ignores_residue: "base64url_decode (ascii ''AA'') = base64url_decode (ascii ''AB'')"
  by code_simp

end
