(* ===== verification/Sha256.thy ===== *)
theory Sha256
  imports Strings
begin

text \<open>
  SHA-256 and HMAC-SHA256 (\<^verbatim>\<open>common/sha256.cpp\<close>).  The hasher takes its message in pieces of any size, keeps
  an unfinished block aside and pads at the end.

  The lemmas show that the digest depends on the concatenation of the pieces only and is the one the
  standard defines: pad the whole message, cut it into blocks, fold the compression function over
  them.  HMAC is built on the interface of such a hasher, the locale \<open>incremental_hash\<close>.
\<close>

unbundle bit_operations_syntax

type_synonym u32 = "32 word"
type_synonym hash_state = "u32 \<times> u32 \<times> u32 \<times> u32 \<times> u32 \<times> u32 \<times> u32 \<times> u32"

section \<open>The compression function\<close>

text \<open>
  The table of round constants holds the first 32 bits of the fractional parts of the cube roots of the
  first 64 primes.  It is computed here: the cube root of \<open>p * 2 ^ 96\<close>, found bit by bit, is the one of
  \<open>p\<close> with 32 binary places, and the word keeps these.
\<close>

fun cube_root :: "nat \<Rightarrow> int \<Rightarrow> int \<Rightarrow> int" where
  "cube_root 0 r n = r"
| "cube_root (Suc i) r n = (let s = r + 2 ^ i in cube_root i (if s ^ 3 \<le> n then s else r) n)"

definition first_primes :: "int list" where
  "first_primes =
     [2, 3, 5, 7, 11, 13, 17, 19, 23, 29, 31, 37, 41, 43, 47, 53,
      59, 61, 67, 71, 73, 79, 83, 89, 97, 101, 103, 107, 109, 113, 127, 131,
      137, 139, 149, 151, 157, 163, 167, 173, 179, 181, 191, 193, 197, 199, 211, 223,
      227, 229, 233, 239, 241, 251, 257, 263, 269, 271, 277, 281, 283, 293, 307, 311]"

definition kRoundConstants :: "u32 list" where
  "kRoundConstants = map (\<lambda>p. of_int (cube_root 35 0 (p * 2 ^ 96))) first_primes"

definition kInitialState :: hash_state where
  "kInitialState =
     (0x6a09e667, 0xbb67ae85, 0x3c6ef372, 0xa54ff53a, 0x510e527f, 0x9b05688c, 0x1f83d9ab, 0x5be0cd19)"

definition rotr :: "u32 \<Rightarrow> nat \<Rightarrow> u32" where
  "rotr x n = drop_bit n x OR push_bit (32 - n) x"

definition ch :: "u32 \<Rightarrow> u32 \<Rightarrow> u32 \<Rightarrow> u32" where
  "ch x y z = (x AND y) XOR (NOT x AND z)"

definition maj :: "u32 \<Rightarrow> u32 \<Rightarrow> u32 \<Rightarrow> u32" where
  "maj x y z = (x AND y) XOR (x AND z) XOR (y AND z)"

definition big_sigma0 :: "u32 \<Rightarrow> u32" where
  "big_sigma0 x = rotr x 2 XOR rotr x 13 XOR rotr x 22"

definition big_sigma1 :: "u32 \<Rightarrow> u32" where
  "big_sigma1 x = rotr x 6 XOR rotr x 11 XOR rotr x 25"

definition small_sigma0 :: "u32 \<Rightarrow> u32" where
  "small_sigma0 x = rotr x 7 XOR rotr x 18 XOR drop_bit 3 x"

definition small_sigma1 :: "u32 \<Rightarrow> u32" where
  "small_sigma1 x = rotr x 17 XOR rotr x 19 XOR drop_bit 10 x"

definition read_be32 :: "bytes \<Rightarrow> u32" where
  "read_be32 p =
     push_bit 24 (ucast (p ! 0)) OR push_bit 16 (ucast (p ! 1)) OR push_bit 8 (ucast (p ! 2)) OR ucast (p ! 3)"

text \<open>The message schedule: \<open>w\<close> holds the words below index \<open>t\<close>, the length of \<open>w\<close>.\<close>

fun extend_schedule :: "nat \<Rightarrow> u32 list \<Rightarrow> u32 list" where
  "extend_schedule 0 w = w"
| "extend_schedule (Suc n) w =
     (let t = length w in
      extend_schedule n
        (w @ [small_sigma1 (w ! (t - 2)) + w ! (t - 7) + small_sigma0 (w ! (t - 15)) + w ! (t - 16)]))"

definition schedule :: "bytes \<Rightarrow> u32 list" where
  "schedule block = extend_schedule 48 (map (\<lambda>t. read_be32 (drop (4 * t) block)) [0..<16])"

fun sha_round :: "hash_state \<Rightarrow> u32 \<times> u32 \<Rightarrow> hash_state" where
  "sha_round (a, b, c, d, e, f, g, h) (k, w) =
     (let t1 = h + big_sigma1 e + ch e f g + k + w;
          t2 = big_sigma0 a + maj a b c in
      (t1 + t2, a, b, c, d + t1, e, f, g))"

fun add_state :: "hash_state \<Rightarrow> hash_state \<Rightarrow> hash_state" where
  "add_state (s0, s1, s2, s3, s4, s5, s6, s7) (a, b, c, d, e, f, g, h) =
     (s0 + a, s1 + b, s2 + c, s3 + d, s4 + e, s5 + f, s6 + g, s7 + h)"

definition process_block :: "hash_state \<Rightarrow> bytes \<Rightarrow> hash_state" where
  "process_block s block = add_state s (foldl sha_round s (zip kRoundConstants (schedule block)))"


lemma cube_root_bounds:
  "r ^ 3 \<le> n \<Longrightarrow> n < (r + 2 ^ i) ^ 3 \<Longrightarrow> cube_root i r n ^ 3 \<le> n \<and> n < (cube_root i r n + 1) ^ 3"
proof (induction i arbitrary: r)
  case (Suc i)
  have twice: "r + 2 ^ Suc i = r + 2 ^ i + 2 ^ i" by simp
  show ?case
  proof (cases "(r + 2 ^ i) ^ 3 \<le> n")
    case True
    from Suc.IH [OF this Suc.prems(2) [unfolded twice]] True show ?thesis
      by (simp only: cube_root.simps Let_def if_True)
  next
    case False
    then have "n < (r + 2 ^ i) ^ 3" by (simp only: not_le)
    from Suc.IH [OF Suc.prems(1) this] False show ?thesis by (simp only: cube_root.simps Let_def if_False)
  qed
qed simp

lemma cube_root_ge: "r \<le> cube_root i r n"
proof (induction i arbitrary: r)
  case (Suc i)
  have "r \<le> cube_root i (r + 2 ^ i) n" by (rule order_trans [OF _ Suc.IH]) simp
  with Suc.IH [of r] show ?case by (simp add: Let_def)
qed simp

lemma cube_root_eqI:
  assumes "0 \<le> x" "x ^ 3 \<le> n" "n < (x + 1) ^ 3" "n < (2 ^ i) ^ 3"
  shows "cube_root i 0 n = x"
proof -
  have "0 \<le> n" using assms(1,2) by (meson order_trans zero_le_power)
  then have *: "cube_root i 0 n ^ 3 \<le> n" "n < (cube_root i 0 n + 1) ^ 3"
    using cube_root_bounds [of 0 n i] assms(4) by simp_all
  have "y \<le> z" if "y ^ 3 \<le> n" "n < (z + 1) ^ 3" "0 \<le> z" for y z :: int
    using that power_mono [of "z + 1" y 3] by linarith
  from this [of x "cube_root i 0 n"] this [of "cube_root i 0 n" x] show ?thesis
    using * assms(1-3) cube_root_ge [of 0 i n] by (simp add: order_antisym)
qed

lemma round_constants: "length kRoundConstants = 64" "kRoundConstants ! 0 = 0x428a2f98" "kRoundConstants ! 63 = 0xc67178f2"
proof -
  show "length kRoundConstants = 64" by (simp add: kRoundConstants_def first_primes_def)
  have "cube_root 35 0 (2 * 2 ^ 96) = 5411319704" "cube_root 35 0 (311 * 2 ^ 96) = 29099129074"
    by (rule cube_root_eqI; simp)+
  then show "kRoundConstants ! 0 = 0x428a2f98" "kRoundConstants ! 63 = 0xc67178f2"
    by (simp_all add: kRoundConstants_def first_primes_def)
qed


section \<open>The incremental hasher\<close>

abbreviation kBlockSize :: nat where "kBlockSize \<equiv> 64"

text \<open>\<open>buffer\<close> holds the valid part of \<^verbatim>\<open>buffer_\<close>: its length is \<^verbatim>\<open>buffer_len_\<close>.\<close>

record Sha256 =
  state :: hash_state
  buffer :: bytes
  total_len :: "64 word"

definition new_hasher :: Sha256 where
  "new_hasher = \<lparr> state = kInitialState, buffer = [], total_len = 0 \<rparr>"

fun blocks_loop :: "hash_state \<Rightarrow> bytes \<Rightarrow> hash_state \<times> bytes" where
  "blocks_loop s data =
     (if length data \<ge> kBlockSize then blocks_loop (process_block s (take kBlockSize data)) (drop kBlockSize data)
      else (s, data))"

declare blocks_loop.simps [simp del]

text \<open>The three loops of \<^verbatim>\<open>update\<close>: complete the pending block, take whole blocks, keep the rest.\<close>

definition complete_pending :: "hash_state \<Rightarrow> bytes \<Rightarrow> bytes \<Rightarrow> hash_state \<times> bytes \<times> bytes" where
  "complete_pending s buf data =
     (if buf \<noteq> [] then
        let n = kBlockSize - length buf; buf = buf @ take n data; data = drop n data in
        if length buf = kBlockSize then (process_block s buf, [], data) else (s, buf, data)
      else (s, buf, data))"

definition sha_update :: "Sha256 \<Rightarrow> bytes \<Rightarrow> Sha256" where
  "sha_update h data =
     (let (s, buf, data') = complete_pending (state h) (buffer h) data;
          (s, rest) = blocks_loop s data' in
      \<lparr> state = s, buffer = buf @ rest, total_len = total_len h + of_nat (length data) \<rparr>)"

definition be_bytes :: "nat \<Rightarrow> 'a::len word \<Rightarrow> bytes" where
  "be_bytes n x = map (\<lambda>i. ucast (drop_bit (8 * (n - 1 - i)) x AND 0xFF)) [0..<n]"

definition pad_zeros :: "nat \<Rightarrow> bytes \<Rightarrow> bytes" where
  "pad_zeros n buf = buf @ replicate (n - length buf) 0"

fun digest :: "hash_state \<Rightarrow> bytes" where
  "digest (s0, s1, s2, s3, s4, s5, s6, s7) = concat (map (be_bytes 4) [s0, s1, s2, s3, s4, s5, s6, s7])"

definition sha_finish :: "Sha256 \<Rightarrow> bytes" where
  "sha_finish h =
     (let bit_len = total_len h * 8;
          buf = buffer h @ [0x80];
          (s, buf) = (if length buf > kBlockSize - 8
                      then (process_block (state h) (pad_zeros kBlockSize buf), [])
                      else (state h, buf));
          buf = pad_zeros (kBlockSize - 8) buf @ be_bytes 8 bit_len in
      digest (process_block s buf))"

definition sha256 :: "bytes \<Rightarrow> bytes" where
  "sha256 data = sha_finish (sha_update new_hasher data)"


section \<open>Keyed hashing\<close>

definition block_key :: "bytes \<Rightarrow> bytes" where
  "block_key key = pad_zeros kBlockSize (if length key > kBlockSize then sha256 key else key)"

definition hmac_sha256 :: "bytes \<Rightarrow> bytes \<Rightarrow> bytes" where
  "hmac_sha256 key message =
     (let inner_pad = map (\<lambda>b. b XOR 0x36) (block_key key);
          outer_pad = map (\<lambda>b. b XOR 0x5C) (block_key key);
          inner_digest = sha_finish (sha_update (sha_update new_hasher inner_pad) message) in
      sha_finish (sha_update (sha_update new_hasher outer_pad) inner_digest))"

definition to_hex :: "bytes \<Rightarrow> bytes" where
  "to_hex data = concat (map (\<lambda>b. let digit = (\<lambda>d. ascii ''0123456789abcdef'' ! unat d) in
     [digit (drop_bit 4 b), digit (b AND 0x0F)]) data)"


section \<open>The standard's definition\<close>

text \<open>
  The message followed by a one bit, the least number of zero bytes that leaves eight bytes to the
  end of a block, and the length in bits; the blocks of a text; the digest.
\<close>

definition sha_pad :: "bytes \<Rightarrow> bytes" where
  "sha_pad m = m @ [0x80] @ replicate ((119 - length m mod 64) mod 64) 0 @ be_bytes 8 (of_nat (8 * length m) :: 64 word)"

definition blocks64 :: "bytes \<Rightarrow> bytes list" where
  "blocks64 m = map (\<lambda>i. take 64 (drop (64 * i) m)) [0..<length m div 64]"

definition sha256_standard :: "bytes \<Rightarrow> bytes" where
  "sha256_standard m = digest (foldl process_block kInitialState (blocks64 (sha_pad m)))"

definition hmac_standard :: "(bytes \<Rightarrow> bytes) \<Rightarrow> bytes \<Rightarrow> bytes \<Rightarrow> bytes" where
  "hmac_standard H key m =
     (let k = (if length key > 64 then H key else key);
          k0 = k @ replicate (64 - length k) 0 in
      H (map (\<lambda>b. b XOR 0x5C) k0 @ H (map (\<lambda>b. b XOR 0x36) k0 @ m)))"

lemma blocks64_step:
  assumes "64 \<le> length m"
  shows "blocks64 m = take 64 m # blocks64 (drop 64 m)"
proof -
  have "length m div 64 = Suc (length (drop 64 m) div 64)" using assms by (simp add: le_div_geq)
  then have "[0..<length m div 64] = 0 # map Suc [0..<length (drop 64 m) div 64]"
    by (simp add: map_Suc_upt upt_conv_Cons del: upt_Suc)
  then show ?thesis by (simp add: blocks64_def add.commute)
qed

lemma blocks_loop_eq: "fst (blocks_loop s m) = foldl process_block s (blocks64 m)"
proof (induction s m rule: blocks_loop.induct)
  case (1 s m)
  show ?case
  proof (cases "64 \<le> length m")
    case True
    then show ?thesis using 1 by (subst blocks_loop.simps) (simp add: blocks64_step)
  next
    case False
    then show ?thesis by (subst blocks_loop.simps) (simp add: blocks64_def)
  qed
qed

lemma blocks_loop_short: "length m < 64 \<Longrightarrow> blocks_loop s m = (s, m)"
  by (subst blocks_loop.simps) simp

lemma blocks_loop_step: "length b = 64 \<Longrightarrow> blocks_loop s (b @ m) = blocks_loop (process_block s b) m"
  by (subst blocks_loop.simps) simp

lemma blocks_loop_rest: "length (snd (blocks_loop s m)) = length m mod 64"
  by (induction s m rule: blocks_loop.induct) (subst blocks_loop.simps, simp add: le_mod_geq)

lemma blocks_loop_append: "blocks_loop s (m @ d) = (let (s', r) = blocks_loop s m in blocks_loop s' (r @ d))"
proof (induction s m rule: blocks_loop.induct)
  case (1 s m)
  show ?case
  proof (cases "64 \<le> length m")
    case True
    then have "blocks_loop s (m @ d) = blocks_loop (process_block s (take 64 m)) (drop 64 m @ d)"
      by (subst blocks_loop.simps) simp
    then show ?thesis using 1 True by (subst (2) blocks_loop.simps) simp
  qed (simp add: blocks_loop_short)
qed

text \<open>What a hasher has taken: the state after the whole blocks of the message, and its rest.\<close>

definition hashed :: "Sha256 \<Rightarrow> bytes \<Rightarrow> bool" where
  "hashed h m \<longleftrightarrow> blocks_loop kInitialState m = (state h, buffer h) \<and> total_len h = of_nat (length m)"

lemma hashed_new: "hashed new_hasher []"
  by (simp add: hashed_def new_hasher_def blocks_loop_short)

lemma hashed_buffer: "hashed h m \<Longrightarrow> length (buffer h) = length m mod 64"
  using blocks_loop_rest [of kInitialState m] by (simp add: hashed_def)

lemma sha_update_loop:
  assumes "length (buffer h) < 64"
  shows "blocks_loop (state h) (buffer h @ data) = (state (sha_update h data), buffer (sha_update h data))"
proof -
  obtain s buf rest where c: "complete_pending (state h) (buffer h) data = (s, buf, rest)"
    by (metis prod_cases3)
  have "blocks_loop (state h) (buffer h @ data) = (let (s', r) = blocks_loop s rest in (s', buf @ r))"
  proof (cases "buffer h = [] \<or> length (buffer h) + length data < 64")
    case True
    then have "s = state h \<and> (buf = [] \<and> rest = data \<or> rest = [] \<and> buf = buffer h @ data)"
      using c by (auto simp: complete_pending_def Let_def split: if_splits)
    then show ?thesis using True c blocks_loop_short
      by (auto simp: complete_pending_def Let_def split: prod.split if_splits)
  next
    case False
    define n where "n = 64 - length (buffer h)"
    have "buffer h @ data = (buffer h @ take n data) @ drop n data" by simp
    moreover have "length (buffer h @ take n data) = 64" using False assms by (auto simp: n_def)
    ultimately have "blocks_loop (state h) (buffer h @ data) = blocks_loop (process_block (state h) (buffer h @ take n data)) (drop n data)"
      by (metis blocks_loop_step)
    then show ?thesis using c False \<open>length (buffer h @ take n data) = 64\<close>
      by (auto simp: complete_pending_def Let_def n_def split: prod.split)
  qed
  then show ?thesis by (simp add: sha_update_def c Let_def split: prod.split)
qed

lemma hashed_update:
  assumes "hashed h m"
  shows "hashed (sha_update h data) (m @ data)"
proof -
  have "total_len (sha_update h data) = total_len h + of_nat (length data)"
    by (simp add: sha_update_def Let_def split: prod.split)
  then show ?thesis using assms hashed_buffer [OF assms] sha_update_loop [of h data]
    by (simp add: hashed_def blocks_loop_append [of _ m])
qed

lemma hashed_updates: "hashed h m \<Longrightarrow> hashed (foldl sha_update h chunks) (m @ concat chunks)"
  by (induction chunks arbitrary: h m) (simp_all flip: append_assoc add: hashed_update)

lemma length_be_bytes [simp]: "length (be_bytes n x) = n"
  by (simp add: be_bytes_def)

lemma sha_finish_hashed:
  assumes "hashed h m"
  shows "sha_finish h = sha256_standard m"
proof -
  define len where "len = be_bytes 8 (of_nat (8 * length m) :: 64 word)"
  define z where "z = (119 - length m mod 64) mod 64"
  have loop: "blocks_loop kInitialState m = (state h, buffer h)" and "total_len h = of_nat (length m)"
    using assms by (simp_all add: hashed_def)
  then have bits: "be_bytes 8 (total_len h * 8) = len" by (simp add: len_def mult.commute)
  have modlen: "length (buffer h) = length m mod 64" using hashed_buffer [OF assms] .
  then have short: "length (buffer h) < 64" by simp
  have "fst (blocks_loop kInitialState (sha_pad m)) = fst (blocks_loop (state h) (buffer h @ [0x80] @ replicate z 0 @ len))"
    by (simp add: sha_pad_def blocks_loop_append [of _ m] loop z_def len_def)
  also have "digest \<dots> = sha_finish h"
  proof (cases "length (buffer h) < 56")
    case True
    then have z: "z = 55 - length (buffer h)" unfolding z_def modlen [symmetric]
      by (simp add: mod_if)
    have "length (buffer h @ [0x80] @ replicate z 0 @ len) = 64" using True by (simp add: z len_def)
    from blocks_loop_step [OF this, of _ "[]"] show ?thesis using True
      by (simp add: sha_finish_def bits z pad_zeros_def blocks_loop_short)
  next
    case False
    then have z: "z = (63 - length (buffer h)) + 56" unfolding z_def modlen [symmetric]
      using short by simp
    define b where "b = buffer h @ [0x80] @ replicate (63 - length (buffer h)) 0"
    have "buffer h @ [0x80] @ replicate z 0 @ len = b @ (replicate 56 0 @ len) @ []"
      by (simp add: b_def z replicate_add)
    moreover have "length b = 64" "length (replicate 56 0 @ len) = 64" using short by (simp_all add: b_def len_def)
    then have "blocks_loop (state h) (b @ (replicate 56 0 @ len) @ []) =
        (process_block (process_block (state h) b) (replicate 56 0 @ len), [])"
      by (simp only: blocks_loop_step) (simp add: blocks_loop_short)
    ultimately have "blocks_loop (state h) (buffer h @ [0x80] @ replicate z 0 @ len) =
        (process_block (process_block (state h) b) (replicate 56 0 @ len), [])" by (simp only:)
    then show ?thesis using False by (simp add: sha_finish_def bits pad_zeros_def b_def)
  qed
  finally show ?thesis by (simp add: sha256_standard_def blocks_loop_eq)
qed

text \<open>
  The interface of a hasher that is fed in pieces, and the keyed hash on top of it.
\<close>

locale incremental_hash =
  fixes init :: 'h
    and upd :: "'h \<Rightarrow> bytes \<Rightarrow> 'h"
    and fin :: "'h \<Rightarrow> bytes"
    and standard :: "bytes \<Rightarrow> bytes"
  assumes pieces: "fin (foldl upd init chunks) = standard (concat chunks)"
begin

lemma one_piece: "fin (upd init m) = standard m"
  using pieces [of "[m]"] by simp

lemma two_pieces: "fin (upd (upd init a) b) = standard (a @ b)"
  using pieces [of "[a, b]"] by simp

lemma split_irrelevant: "concat xs = concat ys \<Longrightarrow> fin (foldl upd init xs) = fin (foldl upd init ys)"
  by (simp add: pieces)

end

interpretation sha: incremental_hash new_hasher sha_update sha_finish sha256_standard
proof
  fix chunks
  show "sha_finish (foldl sha_update new_hasher chunks) = sha256_standard (concat chunks)"
    using sha_finish_hashed [OF hashed_updates [OF hashed_new, of chunks]] by simp
qed

lemma length_digest [simp]: "length (digest s) = 32"
  by (cases s rule: digest.cases) simp

lemma length_sha256 [simp]: "length (sha256_standard m) = 32"
  by (simp add: sha256_standard_def)

lemma hmac_sha256_eq: "hmac_sha256 key m = hmac_standard sha256_standard key m"
  by (simp add: hmac_sha256_def hmac_standard_def block_key_def pad_zeros_def sha256_def sha.one_piece sha.two_pieces Let_def)

lemma length_hmac [simp]: "length (hmac_sha256 key m) = 32"
  by (simp add: hmac_sha256_eq hmac_standard_def Let_def)


end
