(* ===== verification/Jwt.thy ===== *)
theory Jwt
  imports Json Base64 Sha256
begin

text \<open>
  The verifier of HS256 tokens (\<^verbatim>\<open>ingress/jwt.cpp\<close>), a client of the JSON reader, the base64url codec and
  HMAC-SHA256.  A number of the payload is kept as its token; \<open>num\<close> stands for \<^verbatim>\<open>strtod\<close> followed by the
  conversion to 64 bits, and the sums with the leeway are taken without overflow.

  The lemmas characterise the accepted tokens and show that every token issued with the secret is
  accepted exactly when its claims meet the policy.
\<close>

section \<open>The verifier\<close>

record Principal =
  subject :: bytes
  roles :: "bytes list"

record JwtOptions =
  issuer :: bytes
  audience :: bytes
  leeway_seconds :: int
  require_exp :: bool

definition constant_time_equal :: "bytes \<Rightarrow> bytes \<Rightarrow> bool" where
  "constant_time_equal lhs rhs =
     (if length lhs \<noteq> length rhs then False
      else foldl (\<lambda>diff (x, y). diff OR (ucast x XOR ucast y)) (0 :: 32 word) (zip lhs rhs) = 0)"

definition reject :: "'a expected" where "reject = Inl InvalidArgument"

definition decode_json_segment :: "bytes \<Rightarrow> JsonValue expected" where
  "decode_json_segment segment =
     (case base64url_decode segment of
        Inl _ \<Rightarrow> reject
      | Inr data \<Rightarrow>
          (case parse_json data of
             Inl _ \<Rightarrow> reject
           | Inr (JObject ms) \<Rightarrow> Inr (JObject ms)
           | Inr _ \<Rightarrow> reject))"

text \<open>A numeric claim: none when it is missing or no number.\<close>

definition numeric_claim :: "(bytes \<Rightarrow> int) \<Rightarrow> JsonValue \<Rightarrow> string \<Rightarrow> int option" where
  "numeric_claim num payload name =
     (case json_find payload (ascii name) of Some (JNumber t) \<Rightarrow> Some (num t) | _ \<Rightarrow> None)"

definition check_temporal :: "(bytes \<Rightarrow> int) \<Rightarrow> JsonValue \<Rightarrow> int \<Rightarrow> JwtOptions \<Rightarrow> unit expected" where
  "check_temporal num payload now options =
     (let exp = numeric_claim num payload ''exp'';
          nbf = numeric_claim num payload ''nbf'';
          iat = numeric_claim num payload ''iat'' in
      if require_exp options \<and> exp = None then reject
      else if exp \<noteq> None \<and> now > the exp + leeway_seconds options then reject
      else if nbf \<noteq> None \<and> now + leeway_seconds options < the nbf then reject
      else if iat \<noteq> None \<and> the iat > now + leeway_seconds options then reject
      else Inr ())"

fun has_audience :: "bytes \<Rightarrow> JsonValue list \<Rightarrow> bool" where
  "has_audience a [] = False"
| "has_audience a (item # items) = (if item = JString a then True else has_audience a items)"

definition check_issuer_audience :: "JsonValue \<Rightarrow> JwtOptions \<Rightarrow> unit expected" where
  "check_issuer_audience payload options =
     (if issuer options \<noteq> [] \<and> json_find payload (ascii ''iss'') \<noteq> Some (JString (issuer options)) then reject
      else if audience options = [] then Inr ()
      else case json_find payload (ascii ''aud'') of
          None \<Rightarrow> reject
        | Some (JString a) \<Rightarrow> if a = audience options then Inr () else reject
        | Some (JArray items) \<Rightarrow> if has_audience (audience options) items then Inr () else reject
        | Some _ \<Rightarrow> reject)"

fun role_names :: "JsonValue list \<Rightarrow> bytes list" where
  "role_names [] = []"
| "role_names (JString r # items) = r # role_names items"
| "role_names (_ # items) = role_names items"

definition build_principal :: "JsonValue \<Rightarrow> Principal" where
  "build_principal payload =
     \<lparr> subject = (case json_find payload (ascii ''sub'') of Some (JString s) \<Rightarrow> s | _ \<Rightarrow> []),
       roles = (case json_find payload (ascii ''roles'') of Some (JArray items) \<Rightarrow> role_names items | _ \<Rightarrow> []) \<rparr>"

text \<open>The parts before and after the first dot.\<close>

definition split_dot :: "bytes \<Rightarrow> (bytes \<times> bytes) option" where
  "split_dot s =
     (if 0x2E \<in> set s
      then Some (takeWhile (\<lambda>c. c \<noteq> 0x2E) s, tl (dropWhile (\<lambda>c. c \<noteq> 0x2E) s)) else None)"

definition verify :: "(bytes \<Rightarrow> int) \<Rightarrow> bytes \<Rightarrow> JwtOptions \<Rightarrow> bytes \<Rightarrow> int \<Rightarrow> Principal expected" where
  "verify num secret options token now =
     (case split_dot token of
        None \<Rightarrow> reject
      | Some (header_b64, rest) \<Rightarrow>
          (case split_dot rest of
             None \<Rightarrow> reject
           | Some (payload_b64, signature_b64) \<Rightarrow>
               if 0x2E \<in> set signature_b64 then reject
               else bindE (decode_json_segment header_b64) (\<lambda>header.
                 if json_find header (ascii ''alg'') \<noteq> Some (JString (ascii ''HS256'')) then reject
                 else let mac = hmac_sha256 secret (header_b64 @ [0x2E] @ payload_b64) in
                   case base64url_decode signature_b64 of
                     Inl _ \<Rightarrow> reject
                   | Inr provided \<Rightarrow>
                       if \<not> constant_time_equal mac provided then reject
                       else bindE (decode_json_segment payload_b64) (\<lambda>payload.
                         bindE (check_temporal num payload now options) (\<lambda>_.
                         bindE (check_issuer_audience payload options) (\<lambda>_.
                         Inr (build_principal payload)))))))"


section \<open>What it accepts\<close>

text \<open>The policy for the claims, and the token an issuer with the secret makes.\<close>

definition claims_ok :: "(bytes \<Rightarrow> int) \<Rightarrow> JwtOptions \<Rightarrow> int \<Rightarrow> JsonValue \<Rightarrow> bool" where
  "claims_ok num options now claims \<longleftrightarrow>
     (case numeric_claim num claims ''exp'' of
        None \<Rightarrow> \<not> require_exp options | Some e \<Rightarrow> now \<le> e + leeway_seconds options) \<and>
     (\<forall>t \<in> set_option (numeric_claim num claims ''nbf'') \<union> set_option (numeric_claim num claims ''iat'').
        t \<le> now + leeway_seconds options) \<and>
     (issuer options = [] \<or> json_find claims (ascii ''iss'') = Some (JString (issuer options))) \<and>
     (audience options = [] \<or> json_find claims (ascii ''aud'') = Some (JString (audience options)) \<or>
      (\<exists>items. json_find claims (ascii ''aud'') = Some (JArray items) \<and> JString (audience options) \<in> set items))"

definition issue :: "bytes \<Rightarrow> (bytes \<times> JsonDoc) list \<Rightarrow> (bytes \<times> JsonDoc) list \<Rightarrow> bytes" where
  "issue secret header claims =
     (let segment = (\<lambda>ms. base64url_encode (out (write_doc (DObject ms) new_writer)));
          input = segment header @ [0x2E] @ segment claims in
      input @ [0x2E] @ base64url_encode (hmac_standard sha256_standard secret input))"

lemma constant_time_equal_iff: "constant_time_equal xs ys \<longleftrightarrow> xs = ys"
proof -
  have or_zero: "x OR y = 0 \<longleftrightarrow> x = 0 \<and> y = 0" for x y :: "32 word"
    by (auto simp: bit_eq_iff bit_or_iff)
  have xor_zero: "ucast x XOR ucast y = (0 :: 32 word) \<longleftrightarrow> x = y" for x y :: byte
  proof
    assume *: "ucast x XOR ucast y = (0 :: 32 word)"
    show "x = y"
    proof (rule bit_word_eqI)
      fix n assume "n < LENGTH(8)"
      then have "n < 32" by simp
      moreover have "bit (ucast x XOR ucast y :: 32 word) n \<longleftrightarrow> False" unfolding * by simp
      ultimately show "bit x n = bit y n" by (simp add: bit_simps)
    qed
  qed simp
  have "foldl (\<lambda>diff (x, y). diff OR (ucast x XOR ucast y)) d (zip xs ys) = (0 :: 32 word) \<longleftrightarrow> d = 0 \<and> xs = ys"
    if "length xs = length ys" for d
    using that by (induction xs ys arbitrary: d rule: list_induct2) (auto simp: or_zero xor_zero)
  then show ?thesis by (auto simp: constant_time_equal_def)
qed

lemma split_dot_append [simp]: "0x2E \<notin> set a \<Longrightarrow> split_dot (a @ 0x2E # b) = Some (a, b)"
  by (induction a) (auto simp: split_dot_def)

lemma split_dot_SomeD:
  assumes "split_dot s = Some (a, b)"
  shows "s = a @ 0x2E # b \<and> 0x2E \<notin> set a"
proof -
  have "0x2E \<in> set s" using assms by (simp add: split_dot_def split: if_splits)
  then obtain a' b' where "s = a' @ 0x2E # b'" "0x2E \<notin> set a'" by (meson split_list_first)
  with assms show ?thesis by simp
qed

lemma has_audience_iff: "has_audience a items \<longleftrightarrow> JString a \<in> set items"
  by (induction items) auto

lemma check_temporal_iff:
  "check_temporal num claims now options = Inr () \<longleftrightarrow>
   (case numeric_claim num claims ''exp'' of
      None \<Rightarrow> \<not> require_exp options | Some e \<Rightarrow> now \<le> e + leeway_seconds options) \<and>
   (\<forall>t \<in> set_option (numeric_claim num claims ''nbf'') \<union> set_option (numeric_claim num claims ''iat'').
      t \<le> now + leeway_seconds options)"
  by (cases "numeric_claim num claims ''exp''"; cases "numeric_claim num claims ''nbf''";
      cases "numeric_claim num claims ''iat''") (auto simp: check_temporal_def reject_def Let_def)

lemma check_issuer_audience_iff:
  "check_issuer_audience claims options = Inr () \<longleftrightarrow>
   (issuer options = [] \<or> json_find claims (ascii ''iss'') = Some (JString (issuer options))) \<and>
   (audience options = [] \<or> json_find claims (ascii ''aud'') = Some (JString (audience options)) \<or>
    (\<exists>items. json_find claims (ascii ''aud'') = Some (JArray items) \<and> JString (audience options) \<in> set items))"
  unfolding check_issuer_audience_def reject_def has_audience_iff
  by (cases "json_find claims (ascii ''aud'')") (auto simp del: ascii_simps split: JsonValue.split)

lemma checks_iff:
  "check_temporal num claims now options = Inr () \<and> check_issuer_audience claims options = Inr () \<longleftrightarrow>
   claims_ok num options now claims"
  unfolding check_temporal_iff check_issuer_audience_iff claims_ok_def by (simp only: conj_assoc)

lemma check_errors:
  "check_temporal num claims now options = Inl e \<Longrightarrow> e = InvalidArgument"
  "check_issuer_audience claims options = Inl e \<Longrightarrow> e = InvalidArgument"
  by (auto simp: check_temporal_def check_issuer_audience_def Let_def reject_def
      simp del: ascii_simps split: if_splits option.splits JsonValue.splits)

lemma decode_json_segment_error: "decode_json_segment s = Inl e \<Longrightarrow> e = InvalidArgument"
  by (auto simp: decode_json_segment_def reject_def split: sum.splits JsonValue.splits)

text \<open>An accepted token, by its parts.\<close>

definition signed_parts :: "bytes \<Rightarrow> bytes \<Rightarrow> bytes \<Rightarrow> bytes \<Rightarrow> JsonValue \<Rightarrow> JsonValue \<Rightarrow> bool" where
  "signed_parts secret h p s header claims \<longleftrightarrow>
     0x2E \<notin> set (h @ p @ s) \<and>
     decode_json_segment h = Inr header \<and> json_find header (ascii ''alg'') = Some (JString (ascii ''HS256'')) \<and>
     base64url_decode s = Inr (hmac_standard sha256_standard secret (h @ [0x2E] @ p)) \<and>
     decode_json_segment p = Inr claims"

lemma verify_parts:
  assumes "0x2E \<notin> set h" "0x2E \<notin> set p"
  shows "verify num secret options (h @ [0x2E] @ p @ [0x2E] @ s) now = Inr who \<longleftrightarrow>
    (\<exists>header claims. signed_parts secret h p s header claims \<and> claims_ok num options now claims \<and>
       who = build_principal claims)"
  unfolding signed_parts_def checks_iff [symmetric] verify_def using assms
  by (auto simp: reject_def bindE_eq_Inr_iff constant_time_equal_iff hmac_sha256_eq Let_def
      simp del: ascii_simps split: sum.splits if_splits)

lemma verify_error: "verify num secret options token now = Inl e \<Longrightarrow> e = InvalidArgument"
  by (auto simp: verify_def reject_def bindE_eq_Inl_iff Let_def simp del: ascii_simps
      split: option.splits sum.splits if_splits dest!: check_errors decode_json_segment_error)

lemma verify_Inr_iff:
  "verify num secret options token now = Inr who \<longleftrightarrow>
    (\<exists>h p s header claims. token = h @ [0x2E] @ p @ [0x2E] @ s \<and> signed_parts secret h p s header claims \<and>
       claims_ok num options now claims \<and> who = build_principal claims)"
proof
  assume v: "verify num secret options token now = Inr who"
  then obtain h rest where "split_dot token = Some (h, rest)"
    by (auto simp: verify_def reject_def split: option.splits)
  moreover from v this obtain p s where "split_dot rest = Some (p, s)"
    by (auto simp: verify_def reject_def split: option.splits)
  ultimately have "token = h @ [0x2E] @ p @ [0x2E] @ s" "0x2E \<notin> set h" "0x2E \<notin> set p"
    by (auto dest!: split_dot_SomeD)
  with v verify_parts [of h p num secret options s now who]
  show "\<exists>h p s header claims. token = h @ [0x2E] @ p @ [0x2E] @ s \<and> signed_parts secret h p s header claims \<and>
       claims_ok num options now claims \<and> who = build_principal claims" by blast
next
  assume "\<exists>h p s header claims. token = h @ [0x2E] @ p @ [0x2E] @ s \<and> signed_parts secret h p s header claims \<and>
       claims_ok num options now claims \<and> who = build_principal claims"
  then obtain h p s header claims where *: "token = h @ [0x2E] @ p @ [0x2E] @ s" "signed_parts secret h p s header claims"
    "claims_ok num options now claims" "who = build_principal claims" by blast
  then have "0x2E \<notin> set h" "0x2E \<notin> set p" by (simp_all add: signed_parts_def)
  with verify_parts * show "verify num secret options token now = Inr who" by blast
qed

text \<open>A token issued with the secret carries its header and its claims.\<close>

lemma decode_issued_segment:
  assumes "doc_depth (DObject ms) \<le> kJsonMaxDepth"
  shows "decode_json_segment (base64url_encode (out (write_doc (DObject ms) new_writer))) = Inr (doc_value (DObject ms))"
  using parse_written [of "DObject ms"] assms
  by (simp add: decode_json_segment_def base64url_roundtrip del: write_doc.simps)

lemma no_dot: "0x2E \<notin> set (base64url_encode data)"
  using base64url_alphabet [of data] not_in_alphabet by auto

text \<open>
  C31: The verifier answers every token with a principal or \<open>InvalidArgument\<close>.  It accepts exactly the
  tokens of three parts whose header names HS256, whose signature is the HMAC-SHA256 of the first two
  parts under the secret, and whose claims are in force at the given time, from the issuer and for
  the audience of the policy; the principal comes from the signed claims.  A token issued with the
  secret, with header fields naming HS256 and any claims that nest at most \<^verbatim>\<open>kJsonMaxDepth\<close> levels, is
  accepted exactly when its claims meet the policy.
\<close>

theorem jwt_verify_contract:
  assumes "json_find (doc_value (DObject header)) (ascii ''alg'') = Some (JString (ascii ''HS256''))"
    and "doc_depth (DObject header) \<le> kJsonMaxDepth" "doc_depth (DObject claims) \<le> kJsonMaxDepth"
  shows "(verify num secret options token now = Inr who \<longleftrightarrow>
      (\<exists>h p s hv cv. token = h @ [0x2E] @ p @ [0x2E] @ s \<and> signed_parts secret h p s hv cv \<and>
         claims_ok num options now cv \<and> who = build_principal cv)) \<and>
    (is_ok (verify num secret options token now) \<or> verify num secret options token now = Inl InvalidArgument) \<and>
    verify num secret options (issue secret header claims) now =
      (if claims_ok num options now (doc_value (DObject claims))
       then Inr (build_principal (doc_value (DObject claims))) else Inl InvalidArgument)"
proof -
  define h where "h = base64url_encode (out (write_doc (DObject header) new_writer))"
  define p where "p = base64url_encode (out (write_doc (DObject claims) new_writer))"
  define s where "s = base64url_encode (hmac_standard sha256_standard secret (h @ [0x2E] @ p))"
  have total: "is_ok (verify num secret options t now) \<or> verify num secret options t now = Inl InvalidArgument" for t
    using verify_error [of num secret options t now] by (cases "verify num secret options t now") auto
  have dots: "0x2E \<notin> set h" "0x2E \<notin> set p" "0x2E \<notin> set s" by (simp_all only: h_def p_def s_def no_dot) simp_all
  have issued: "issue secret header claims = h @ [0x2E] @ p @ [0x2E] @ s"
    by (simp add: issue_def h_def p_def s_def Let_def)
  have parts: "signed_parts secret h p s hv cv \<longleftrightarrow> hv = doc_value (DObject header) \<and> cv = doc_value (DObject claims)" for hv cv
    using dots decode_issued_segment [OF assms(2)] decode_issued_segment [OF assms(3)] assms(1)
    unfolding signed_parts_def h_def [symmetric] p_def [symmetric] by (auto simp: s_def base64url_roundtrip)
  have "verify num secret options (issue secret header claims) now = Inr w \<longleftrightarrow>
      claims_ok num options now (doc_value (DObject claims)) \<and> w = build_principal (doc_value (DObject claims))" for w
    unfolding issued verify_parts [OF dots(1,2)] parts by blast
  then have "verify num secret options (issue secret header claims) now =
      (if claims_ok num options now (doc_value (DObject claims))
       then Inr (build_principal (doc_value (DObject claims))) else Inl InvalidArgument)"
    using total [of "issue secret header claims"] by (auto simp: is_ok_iff)
  with verify_Inr_iff total show ?thesis by blast
qed

text \<open>A token for \<open>ops\<close> that expires at 100, verified at 50.\<close>

theorem jwt_verify_contract_witness:
  "verify (\<lambda>t. int (digits_value t)) (ascii ''key'') \<lparr> issuer = [], audience = [], leeway_seconds = 0, require_exp = True \<rparr>
     (issue (ascii ''key'') [(ascii ''alg'', DString (ascii ''HS256''))]
       [(ascii ''sub'', DString (ascii ''ops'')), (ascii ''exp'', DInt 100)]) 50 =
   Inr \<lparr> subject = ascii ''ops'', roles = [] \<rparr>"
proof -
  let ?h = "[(ascii ''alg'', DString (ascii ''HS256''))]"
  let ?c = "[(ascii ''sub'', DString (ascii ''ops'')), (ascii ''exp'', DInt 100)]"
  let ?o = "\<lparr> issuer = [], audience = [], leeway_seconds = 0, require_exp = True \<rparr>"
  have "json_find (doc_value (DObject ?h)) (ascii ''alg'') = Some (JString (ascii ''HS256''))"
    "doc_depth (DObject ?h) \<le> kJsonMaxDepth" "doc_depth (DObject ?c) \<le> kJsonMaxDepth" by code_simp+
  note * = jwt_verify_contract [OF this, of "\<lambda>t. int (digits_value t)" "ascii ''key''" ?o "[]" 50 "\<lparr> subject = [], roles = [] \<rparr>"]
  have "claims_ok (\<lambda>t. int (digits_value t)) ?o 50 (doc_value (DObject ?c))"
    using digits_value_to_string [of 100]
    by (simp add: claims_ok_def numeric_claim_def json_find_def to_string_int_def del: digits_value.simps)
  moreover have "build_principal (doc_value (DObject ?c)) = \<lparr> subject = ascii ''ops'', roles = [] \<rparr>"
    by (simp add: build_principal_def json_find_def)
  ultimately show ?thesis using * by (simp only: if_True)
qed

end
