(* ===== verification/Spec2Isabelle.thy ===== *)
theory Spec2Isabelle
  imports Record_Codec Partition_Log Wire_Messages Raft_System Broker_Partition Txn_Index Txn_Coordinator Request_Router Mpmc_Queue Log_Compactor Tiered_Log Jwt
begin

text \<open>
  A verification library for NexusMQ, a broker of partitioned logs in C++ (the sources are under
  \<^verbatim>\<open>src/src/\<close>).  Producers append record batches to the partitions of topics and consumers read
  them; a partition is a log of segment files, local or replicated by Raft; requests arrive in frames
  over connections and are routed to the core that owns the partition.  This theory imports the whole
  library and holds this overview; the theorems stand in the theories of their components.


  \<^bold>\<open>How the program is modelled\<close>

  The definitions follow the sources function by function and keep their names where Isabelle allows
  it.  A class is a record, and an operation takes the record and returns it updated beside its
  result.  \<^verbatim>\<open>expected<T>\<close> is the sum \<open>'a expected\<close> of an \<open>ErrorCode\<close> and a value, so that every early
  return is a branch (\<open>Prelude\<close>); the text of an error is left out.  Unsigned integers are words.
  Signed ones are integers, with predicates such as \<open>fits_i32\<close> where the width matters.  A \<^verbatim>\<open>std::string\<close>
  and a span of bytes are lists of bytes; a reader over a span returns the value and what is left.
  A coroutine is the sequence of its steps.

  What the program takes from outside is a parameter.  A file (\<open>File_Io\<close>) carries its content and the
  schedule of what the operating system will answer: short counts, interruptions, errors.  Theorems
  hold for every schedule unless they say that the files work.  The compressors, AES-GCM and HKDF,
  the CRC instruction of the processor, the file system of the storage tier, \<^verbatim>\<open>strtod\<close>, clocks and random
  numbers are arguments, with their documented laws as hypotheses of the theorems that need them.

  Loops are recursive functions over the data or with a termination proof.  The only
  loops with an explicit bound are those over the items of an array and the members of an object in
  the JSON reader: they may make one round more than the text has bytes, and \<open>items_loop_enough\<close> and
  \<open>members_loop_enough\<close> show that a greater bound changes nothing.  The loops that retry after short
  counts end with the schedule of the file, after which every call succeeds.  Threads that share a queue are interleaved step by step, where a
  load may return an older value of a counter.


  \<^bold>\<open>Byte formats\<close>

  \<^item> \<open>Byte_Codec\<close>: little-endian integers, varint, zigzag, FNV-1a (\<^verbatim>\<open>common/types.hpp, varint.cpp, fnv1a.hpp\<close>).
    Round trips, and the locale \<open>wire_format\<close> of \<open>Prelude\<close> interpreted for each format.
  \<^item> \<open>Crc32c\<close> (\<^verbatim>\<open>common/crc32c.cpp\<close>): the table and the hardware path agree, checksums chain, bursts of up to
    32 bits are detected.
  \<^item> \<open>Record_Batch\<close>, \<open>Record_Codec\<close> (\<^verbatim>\<open>common/record.cpp, record_codec.cpp, control_record.cpp\<close>): a decoded batch is the
    one that was encoded, damage is reported, the records of a batch read back under every codec.
  \<^item> \<open>Wire_Codec\<close>, \<open>Wire_Frame\<close>, \<open>Wire_Messages\<close> (\<^verbatim>\<open>protocol/, wire/frame_io.hpp\<close>): frames are reassembled however
    the stream splits them and within the size limit; every message reads back, and every decoder
    refuses or returns on every input.
  \<^item> \<open>Strings\<close>: decimal numbers and the string searches the program uses.


  \<^bold>\<open>Storage\<close>

  \<^item> \<open>File_Io\<close> (\<^verbatim>\<open>io/file.cpp\<close>), \<open>Sparse_Index\<close> (\<^verbatim>\<open>storage/index.cpp\<close>), \<open>Segment_Crypto\<close> (\<^verbatim>\<open>segment_crypto.cpp\<close>).
  \<^item> \<open>Segment\<close> (\<^verbatim>\<open>segment.cpp\<close>): append is atomic, a read starts at the right batch, recovery keeps every complete
    batch and cuts the torn tail.
  \<^item> \<open>Partition_Log\<close> (\<^verbatim>\<open>partition_log.cpp\<close>): append, read, truncation at both ends and retention over several
    segments, each against the list of the stored batches.  \<open>Log_Reopen\<close>: an acknowledged append is
    there when the directory is opened again.
  \<^item> \<open>Log_Compactor\<close> (\<^verbatim>\<open>log_compactor.cpp\<close>): the compacted log builds the same table.
  \<^item> \<open>Storage_Tier\<close>, \<open>Tiered_Log\<close> (\<^verbatim>\<open>storage_tier.cpp, local_storage_tier.cpp\<close> and the tier branches of the
    log): the locale \<open>object_store\<close> is the contract of a tier, interpreted for the local directory;
    moving segments to the tier changes no read.


  \<^bold>\<open>Replication\<close>

  \<^item> \<open>Raft_State\<close>, \<open>Raft_Rpc\<close>, \<open>Raft_State_Store\<close>, \<open>Raft_Log\<close>, \<open>Raft_Node\<close>, \<open>Raft_Carrier\<close> (\<^verbatim>\<open>consensus/\<close>): messages,
    term and vote on disk, the log of terms over the partition log, the state machine and its driver.
    The state machine is written over the interface \<open>replicated_log\<close> of \<open>Replicated_Log\<close>, which the log
    on files refines.
  \<^item> \<open>Raft_System\<close>: all nodes with a network that loses, repeats and reorders, and restarts.  No term has two
    leaders when no answer to a pre-vote reaches a candidate; the finding on pre-votes says why the
    hypothesis is needed.


  \<^bold>\<open>Broker\<close>

  \<^item> \<open>Producer_Session\<close>, \<open>Broker_Partition\<close> (\<^verbatim>\<open>broker/producer_session.hpp, partition.cpp, replicated_partition.cpp\<close>):
    batches of idempotent producers are stored once and in order; the locale \<open>producer_log\<close> is what a
    log must provide for it.
  \<^item> \<open>Txn_Index\<close>, \<open>Txn_Coordinator\<close> (\<^verbatim>\<open>partition_txn_index.cpp, transaction_coordinator.cpp\<close>): a read of committed
    data returns exactly it; a decision reaches every participant; older producers are fenced.
  \<^item> \<open>Consumer_Group\<close>, \<open>Group_Coordinator\<close>, \<open>Topic_Manager\<close> (\<^verbatim>\<open>consumer_group.cpp, group_coordinator.cpp,
    offset_manager.cpp, topic_manager.cpp, topic_cluster.cpp\<close>): membership, rebalancing, offsets, topics on
    all cores.
  \<^item> \<open>Request_Router\<close> (\<^verbatim>\<open>request_router.cpp\<close>): every API key over the state of all cores; what a produce request
    acknowledges a fetch request returns, and the cores stay consistent through any requests.
  \<^item> \<open>Reactor_Queue\<close>, \<open>Mpmc_Queue\<close> (\<^verbatim>\<open>reactor/spsc_queue.hpp, mpmc_queue.hpp, cross_core.cpp, periodic_timers.cpp\<close>):
    the lock-free queues under any interleaving of their threads; the mailbox of a core rests on the
    locale \<open>bounded_queue\<close>, the contract of a queue used by one thread at a time.


  \<^bold>\<open>Access control of the REST interface\<close>

  \<^item> \<open>Json\<close> (\<^verbatim>\<open>ingress/json.cpp, json_value.cpp\<close>): the reader returns what the writer was given, and fails in one way
    only.
  \<^item> \<open>Base64\<close>, \<open>Sha256\<close> (\<^verbatim>\<open>common/base64.cpp, sha256.cpp\<close>): round trip; the incremental hasher computes the
    standard's digest, and HMAC rests on its interface, the locale \<open>incremental_hash\<close>.
  \<^item> \<open>Jwt\<close> (\<^verbatim>\<open>ingress/jwt.cpp\<close>): exactly the tokens signed with the secret whose claims meet the policy are
    accepted.


  \<^bold>\<open>Not modelled\<close>

  \<^item> The event loop, the coroutines, threads, sockets and the backends for \<^verbatim>\<open>io_uring\<close> and \<^verbatim>\<open>IOCP\<close> (\<^verbatim>\<open>io/, reactor/reactor.cpp\<close>):
    system calls; their effects appear as schedules, streams and interleavings.
  \<^item> The connections between nodes (\<^verbatim>\<open>cluster/\<close>), which the network of \<open>Raft_System\<close> stands for.
  \<^item> The Kafka gateway (\<^verbatim>\<open>kafka/, server/kafka_adapter.cpp\<close>): a second encoding of the same operations.
  \<^item> HTTP, the REST endpoints, the proxy and TLS (\<^verbatim>\<open>ingress/\<close>), the daemon and its administration (\<^verbatim>\<open>server/\<close>),
    telemetry, the client library and the tools.  The endpoints that change topics call the operations of
    \<open>Topic_Manager\<close>.
  \<^item> Of modelled parts: error texts, metrics, mutexes, the Windows branches, the arithmetic of \<^verbatim>\<open>double\<close>.
\<close>

end
